(* ===== verification/Prelude.thy ===== *)
theory Prelude
  imports Main "HOL-Library.Word" "HOL-Library.Monad_Syntax"
begin

text \<open>
  Shared vocabulary of the development: the machine integers of the Rust sources, the
  \<open>Result\<close> and \<open>Poll\<close> types of its standard library, checked slice access, and the
  generic list and word facts the component theories use.

  Conventions.  A fixed-width integer whose wrap-around or bit pattern matters is a word of
  that width; a \<open>usize\<close> that only counts elements of an in-memory buffer is a \<open>nat\<close>.  A
  computation that can panic (an index out of range, an \<open>unreachable!\<close>) has an \<open>option\<close>
  result in which \<open>None\<close> is the panic; a Rust \<open>Option\<close> that such a computation returns is a
  second \<open>option\<close> inside it.
\<close>

unbundle bit_operations_syntax

type_synonym u8 = "8 word"
type_synonym u16 = "16 word"
type_synonym u32 = "32 word"
type_synonym u64 = "64 word"
type_synonym bytes = "u8 list"

datatype ('t, 'e) result = Ok 't | Err 'e

datatype 't poll = Ready 't | Pending

text \<open>The collections that steer the component proofs.\<close>

named_theorems slice_simps \<open>checked reads, writes and slices\<close>
named_theorems byte_simps \<open>bit-level facts on bytes and wider words\<close>

section \<open>Results\<close>

fun is_ok :: "('t, 'e) result \<Rightarrow> bool" where
  "is_ok (Ok _) = True"
| "is_ok (Err _) = False"

lemma is_ok_iff: "is_ok r \<longleftrightarrow> (\<exists>v. r = Ok v)"
  by (cases r) auto

section \<open>Byte string literals\<close>

definition byte_string :: "string \<Rightarrow> bytes" where
  "byte_string s = map of_char s"

lemma length_byte_string [simp]: "length (byte_string s) = length s"
  by (simp add: byte_string_def)

section \<open>Checked slice access\<close>

text \<open>\<open>xs[i]\<close>, \<open>xs[i] = v\<close> and \<open>&xs[a..b]\<close>, which panic out of range.\<close>

definition rd :: "'a list \<Rightarrow> nat \<Rightarrow> 'a option" where
  "rd xs i = (if i < length xs then Some (xs ! i) else None)"

definition wr :: "'a list \<Rightarrow> nat \<Rightarrow> 'a \<Rightarrow> 'a list option" where
  "wr xs i v = (if i < length xs then Some (xs[i := v]) else None)"

definition slice :: "'a list \<Rightarrow> nat \<Rightarrow> nat \<Rightarrow> 'a list option" where
  "slice xs a b = (if a \<le> b \<and> b \<le> length xs then Some (take (b - a) (drop a xs)) else None)"

text \<open>Successive assignments \<open>xs[i] = v0; xs[i + 1] = v1; ...\<close>.\<close>

fun wr_all :: "'a list \<Rightarrow> nat \<Rightarrow> 'a list \<Rightarrow> 'a list option" where
  "wr_all xs i [] = Some xs"
| "wr_all xs i (v # vs) = wr xs i v \<bind> (\<lambda>xs'. wr_all xs' (Suc i) vs)"

lemma rd_in [slice_simps]: "i < length xs \<Longrightarrow> rd xs i = Some (xs ! i)"
  by (simp add: rd_def)

lemma wr_in [slice_simps]: "i < length xs \<Longrightarrow> wr xs i v = Some (xs[i := v])"
  by (simp add: wr_def)

lemma slice_in [slice_simps]:
  "a \<le> b \<Longrightarrow> b \<le> length xs \<Longrightarrow> slice xs a b = Some (take (b - a) (drop a xs))"
  by (simp add: slice_def)

text \<open>
  The overwrite of a segment, as a value: what a run of successful assignments leaves in the
  buffer.
\<close>

definition overwrite :: "'a list \<Rightarrow> nat \<Rightarrow> 'a list \<Rightarrow> 'a list" where
  "overwrite xs i vs = take i xs @ vs @ drop (i + length vs) xs"

lemma overwrite_Nil [simp]: "overwrite xs i [] = xs"
  by (simp add: overwrite_def)

lemma length_overwrite [simp]:
  "i + length vs \<le> length xs \<Longrightarrow> length (overwrite xs i vs) = length xs"
  by (simp add: overwrite_def)

lemma overwrite_Cons:
  assumes "i + length (v # vs) \<le> length xs"
  shows "overwrite (xs[i := v]) (Suc i) vs = overwrite xs i (v # vs)"
  using assms
  by (simp add: overwrite_def take_Suc_conv_app_nth take_update_swap list_update_append)

lemma wr_all_in [slice_simps]:
  "i + length vs \<le> length xs \<Longrightarrow> wr_all xs i vs = Some (overwrite xs i vs)"
proof (induction vs arbitrary: xs i)
  case Nil
  then show ?case by simp
next
  case (Cons v vs)
  then show ?case
    using overwrite_Cons [of i v vs xs] by (simp add: wr_in)
qed

declare wr_all.simps [simp del]

lemma overwrite_append:
  assumes "i + length vs + length ws \<le> length xs"
  shows "overwrite (overwrite xs i vs) (i + length vs) ws = overwrite xs i (vs @ ws)"
  using assms by (simp add: overwrite_def min_absorb2 ac_simps)

lemma take_overwrite:
  assumes "i + length vs \<le> length xs"
  shows "take (i + length vs) (overwrite xs i vs) = take i xs @ vs"
  using assms by (simp add: overwrite_def min_absorb2)

section \<open>Searching\<close>

text \<open>\<open>iter().position(p)\<close>: the index of the first element that satisfies \<open>p\<close>.\<close>

fun position :: "('a \<Rightarrow> bool) \<Rightarrow> 'a list \<Rightarrow> nat option" where
  "position p [] = None"
| "position p (x # xs) = (if p x then Some 0 else map_option Suc (position p xs))"

lemma position_None: "position p xs = None \<longleftrightarrow> (\<forall>x\<in>set xs. \<not> p x)"
  by (induction xs) auto

lemma position_Some:
  "position p xs = Some i \<longleftrightarrow> i < length xs \<and> p (xs ! i) \<and> (\<forall>j<i. \<not> p (xs ! j))"
proof (induction xs arbitrary: i)
  case Nil
  then show ?case by simp
next
  case (Cons x xs)
  show ?case
  proof (cases i)
    case 0
    then show ?thesis by (auto split: option.splits)
  next
    case (Suc k)
    show ?thesis
      by (auto simp: Suc Cons.IH less_Suc_eq_0_disj)
  qed
qed

lemma position_less: "position p xs = Some i \<Longrightarrow> i < length xs"
  by (simp add: position_Some)

section \<open>Multiples\<close>

lemma mod_zero_gap:
  assumes "i mod k = 0" "n mod k = 0" "i < (n::nat)"
  shows "i + k \<le> n"
proof -
  have "k dvd n - i" using assms by (simp add: mod_0_imp_dvd dvd_diff_nat)
  then have "k \<le> n - i" using assms(3) by (intro dvd_imp_le) simp_all
  then show ?thesis using assms(3) by linarith
qed

lemma mod_zero_div_add: "i mod k = 0 \<Longrightarrow> (i + n) div k = i div k + n div (k::nat)"
  by (simp add: mod_0_imp_dvd div_plus_div_distrib_dvd_left)

section \<open>Words\<close>

lemma unat_of_nat_small:
  "n < 2 ^ LENGTH('a) \<Longrightarrow> unat (of_nat n :: 'a::len word) = n"
  by (simp add: take_bit_nat_eq_self unat_of_nat)

lemma byte_unat_less [simp]: "unat (w :: u8) < 256"
  using unsigned_less [of w, where ?'a = nat] by simp

end
