(* ===== verification/Codec.thy ===== *)
theory Codec
  imports Prelude
begin

text \<open>
  The contract of a codec that writes into a caller's buffer, as the secret substitution of
  \<open>src/src/libs/agentdp-network/src/application/raw.rs\<close> uses the base64 library: the caller
  sizes the buffer with \<open>encoded_len\<close> or \<open>decoded_len\<close> and then relies on the call.  \<open>text\<close>
  is the encoded form of a value as the caller understands it and \<open>value\<close> its inverse.
\<close>

locale buffered_codec =
  fixes text_of :: "bytes \<Rightarrow> bytes"
    and value_of :: "bytes \<Rightarrow> bytes option"
    and text_len :: "nat \<Rightarrow> nat"
    and value_len :: "bytes \<Rightarrow> nat option"
    and enc :: "bytes \<Rightarrow> bytes \<Rightarrow> (nat option \<times> bytes) option"
    and dec :: "bytes \<Rightarrow> bytes \<Rightarrow> (nat option \<times> bytes) option"
  assumes text_length: "length (text_of xs) = text_len (length xs)"
    and value_text: "value_of (text_of xs) = Some xs"
    and value_length: "value_of ys = Some xs \<Longrightarrow> value_len ys = Some (length xs)"
    and enc_fits: "text_len (length xs) \<le> length out \<Longrightarrow>
      enc xs out = Some (Some (text_len (length xs)), text_of xs @ drop (text_len (length xs)) out)"
    and dec_fits: "value_len ys = Some n \<Longrightarrow> n \<le> length out \<Longrightarrow> value_of ys = Some xs \<Longrightarrow>
      dec ys out = Some (Some n, xs @ drop n out)"
    and dec_rejects: "value_of ys = None \<Longrightarrow> \<exists>out'. dec ys out = Some (None, out') \<and> length out' = length out"
begin

text \<open>A pre-sized buffer is filled exactly, and never refused.\<close>

lemma presized_enc: "length out = text_len (length xs) \<Longrightarrow> enc xs out = Some (Some (length out), text_of xs)"
  using enc_fits [of xs out] by simp

lemma presized_dec:
  "value_of ys = Some xs \<Longrightarrow> length out = length xs \<Longrightarrow> dec ys out = Some (Some (length xs), xs)"
  using dec_fits [of ys "length xs" out xs] value_length [of ys xs] by simp

text \<open>Encoding into a buffer and decoding what was written gives the value back.\<close>

lemma through_buffers:
  assumes "text_len (length xs) \<le> length out" "length xs \<le> length out2"
  shows "\<exists>n out'. enc xs out = Some (Some n, out') \<and>
    dec (take n out') out2 = Some (Some (length xs), xs @ drop (length xs) out2)"
  using enc_fits [OF assms(1)] dec_fits [OF value_length [OF value_text] assms(2) value_text]
    text_length [of xs] by simp

end

end
