(* ===== verification/Base64.thy ===== *)
theory Base64
  imports Codec
begin

text \<open>
  The base64 codec of \<open>src/src/libs/agentdp-base64/src/lib.rs\<close>: the lookup tables built at
  compile time, the length functions, the encoder with its unrolled 24-byte fast path, and the
  decoder with its unrolled 32-byte path.  Both write into a caller-owned buffer, so the model
  passes the buffer and returns it; the outer \<open>option\<close> is the panic of an index out of range
  or of an \<open>unreachable!\<close>, the inner one the \<open>Option\<close> the functions return.

  The reference codec below (\<open>b64_encode\<close>, \<open>b64_decode\<close>) states what RFC 4648 asks of three-
  and four-byte groups; the theorems are that the optimised routines never panic and compute
  the reference, and that decoding inverts encoding.
\<close>

section \<open>Tables\<close>

definition ALPHABET :: bytes where
  "ALPHABET = byte_string ''ABCDEFGHIJKLMNOPQRSTUVWXYZabcdefghijklmnopqrstuvwxyz0123456789+/''"

definition DECODE_PADDING :: u8 where
  "DECODE_PADDING = 0xFE"

definition INVALID_ENCODING :: u8 where
  "INVALID_ENCODING = 0xFF"

definition PAD :: u8 where
  "PAD = 61"

definition build_encode_pair_table :: "(u8 \<times> u8) list" where
  "build_encode_pair_table =
     map (\<lambda>i::nat. (ALPHABET ! (drop_bit 6 i AND 0x3f), ALPHABET ! (i AND 0x3f))) [0..<4096]"

text \<open>The three loops of \<open>build_decode_table\<close>, as updates of the table.\<close>

definition letter_entries :: "u8 list \<Rightarrow> nat \<Rightarrow> u8 list" where
  "letter_entries table i =
     (table[65 + i := of_nat i])[97 + i := of_nat (i + 26)]"

definition digit_entries :: "u8 list \<Rightarrow> nat \<Rightarrow> u8 list" where
  "digit_entries table i = table[48 + i := of_nat (i + 52)]"

definition build_decode_table :: "u8 list" where
  "build_decode_table =
     (let table = replicate 256 INVALID_ENCODING;
          table = foldl letter_entries table [0..<26];
          table = foldl digit_entries table [0..<10]
      in ((table[43 := 62])[47 := 63])[61 := DECODE_PADDING])"

definition ENCODE_PAIR_TABLE :: "(u8 \<times> u8) list" where
  "ENCODE_PAIR_TABLE = build_encode_pair_table"

definition DECODE_TABLE :: "u8 list" where
  "DECODE_TABLE = build_decode_table"

abbreviation (input) FAST_BLOCKS :: nat where "FAST_BLOCKS \<equiv> 4"
abbreviation (input) FAST_INPUT_BYTES :: nat where "FAST_INPUT_BYTES \<equiv> 24"
abbreviation (input) FAST_OUTPUT_BYTES :: nat where "FAST_OUTPUT_BYTES \<equiv> 32"
abbreviation (input) LOW_SIX_BITS :: u64 where "LOW_SIX_BITS \<equiv> 0x3f"

section \<open>Lengths\<close>

definition encoded_len :: "nat \<Rightarrow> nat" where
  "encoded_len input_len = (input_len + 2) div 3 * 4"

definition decoded_len :: "bytes \<Rightarrow> nat option" where
  "decoded_len input =
     (if length input mod 4 \<noteq> 0 then None
      else let full_len = length input div 4 * 3;
               padding = (case rev input of
                            a # b # _ \<Rightarrow> if a = PAD \<and> b = PAD then 2 else if a = PAD then 1 else 0
                          | [a] \<Rightarrow> if a = PAD then 1 else 0
                          | [] \<Rightarrow> 0)
           in Some (full_len - padding))"

section \<open>Encoding\<close>

text \<open>\<open>u64::from_be_bytes\<close>, and the eight-byte read that panics on a short slice.\<close>

definition from_be_bytes :: "bytes \<Rightarrow> u64" where
  "from_be_bytes bs = foldl (\<lambda>acc b. push_bit 8 acc OR ucast b) 0 bs"

definition read_u64_be :: "bytes \<Rightarrow> u64 option" where
  "read_u64_be input = map_option from_be_bytes (slice input 0 8)"

text \<open>The eight alphabet characters one 64-bit read gives, high bits first.\<close>

definition fast_chars :: "u64 \<Rightarrow> bytes" where
  "fast_chars w =
     map (\<lambda>s. ALPHABET ! unat (drop_bit s w AND LOW_SIX_BITS)) [58, 52, 46, 40, 34, 28, 22, 16]"

function encode_fast :: "bytes \<Rightarrow> nat \<Rightarrow> nat \<Rightarrow> nat \<Rightarrow> bytes \<Rightarrow> (nat \<times> nat \<times> bytes) option" where
  "encode_fast input last_fast_index input_idx output_idx output =
     (if input_idx \<le> last_fast_index
      then do {
        input_chunk \<leftarrow> slice input input_idx (input_idx + FAST_INPUT_BYTES + 2);
        _ \<leftarrow> slice output output_idx (output_idx + FAST_OUTPUT_BYTES);
        w0 \<leftarrow> read_u64_be input_chunk;
        output \<leftarrow> wr_all output output_idx (fast_chars w0);
        w1 \<leftarrow> read_u64_be (drop 6 input_chunk);
        output \<leftarrow> wr_all output (output_idx + 8) (fast_chars w1);
        w2 \<leftarrow> read_u64_be (drop 12 input_chunk);
        output \<leftarrow> wr_all output (output_idx + 16) (fast_chars w2);
        w3 \<leftarrow> read_u64_be (drop 18 input_chunk);
        output \<leftarrow> wr_all output (output_idx + 24) (fast_chars w3);
        encode_fast input last_fast_index (input_idx + FAST_INPUT_BYTES)
          (output_idx + FAST_OUTPUT_BYTES) output
      }
      else Some (input_idx, output_idx, output))"
  by pat_completeness auto
termination
  by (relation "measure (\<lambda>(_, l, i, _, _). Suc l - i)") auto

function encode_full :: "bytes \<Rightarrow> nat \<Rightarrow> nat \<Rightarrow> nat \<Rightarrow> bytes \<Rightarrow> (nat \<times> nat \<times> bytes) option" where
  "encode_full input full_len input_idx output_idx output =
     (if input_idx < full_len
      then do {
        byte0 \<leftarrow> rd input input_idx;
        byte1 \<leftarrow> rd input (input_idx + 1);
        byte2 \<leftarrow> rd input (input_idx + 2);
        pair0 \<leftarrow> rd ENCODE_PAIR_TABLE (push_bit 4 (unat byte0) OR unat (drop_bit 4 byte1));
        pair1 \<leftarrow> rd ENCODE_PAIR_TABLE (push_bit 8 (unat (byte1 AND 0x0f)) OR unat byte2);
        output \<leftarrow> wr_all output output_idx [fst pair0, snd pair0, fst pair1, snd pair1];
        encode_full input full_len (input_idx + 3) (output_idx + 4) output
      }
      else Some (input_idx, output_idx, output))"
  by pat_completeness auto
termination
  by (relation "measure (\<lambda>(_, n, i, _, _). n - i)") auto

definition encode_tail :: "bytes \<Rightarrow> nat \<Rightarrow> nat \<Rightarrow> nat \<Rightarrow> bytes \<Rightarrow> bytes option" where
  "encode_tail input tail_len input_idx output_idx output =
     (if tail_len = 0 then Some output
      else if tail_len = 1 then do {
        byte0 \<leftarrow> rd input input_idx;
        pair \<leftarrow> rd ENCODE_PAIR_TABLE (push_bit 4 (unat byte0));
        wr_all output output_idx [fst pair, snd pair, PAD, PAD]
      }
      else if tail_len = 2 then do {
        byte0 \<leftarrow> rd input input_idx;
        byte1 \<leftarrow> rd input (input_idx + 1);
        pair0 \<leftarrow> rd ENCODE_PAIR_TABLE (push_bit 4 (unat byte0) OR unat (drop_bit 4 byte1));
        pair1 \<leftarrow> rd ENCODE_PAIR_TABLE (push_bit 8 (unat (byte1 AND 0x0f)));
        wr_all output output_idx [fst pair0, snd pair0, fst pair1, PAD]
      }
      else None)"

definition encode :: "bytes \<Rightarrow> bytes \<Rightarrow> (nat option \<times> bytes) option" where
  "encode input output =
     (let needed = encoded_len (length input) in
      if length output < needed then Some (None, output)
      else do {
        let last_fast_index = length input - (FAST_INPUT_BYTES + 2);
        (input_idx, output_idx, output) \<leftarrow>
          (if last_fast_index > 0 then encode_fast input last_fast_index 0 0 output
           else Some (0, 0, output));
        let full_len = length input div 3 * 3;
        (input_idx, output_idx, output) \<leftarrow> encode_full input full_len input_idx output_idx output;
        output \<leftarrow> encode_tail input (length input - full_len) input_idx output_idx output;
        Some (Some needed, output)
      })"

section \<open>Decoding\<close>

definition to_be_bytes :: "u64 \<Rightarrow> bytes" where
  "to_be_bytes w = map (\<lambda>s. ucast (drop_bit s w)) [56, 48, 40, 32, 24, 16, 8, 0]"

definition decode_chunk_8 :: "bytes \<Rightarrow> bytes \<Rightarrow> (bytes option) option" where
  "decode_chunk_8 input output = do {
     i0 \<leftarrow> rd input 0; byte0 \<leftarrow> rd DECODE_TABLE (unat i0);
     i1 \<leftarrow> rd input 1; byte1 \<leftarrow> rd DECODE_TABLE (unat i1);
     i2 \<leftarrow> rd input 2; byte2 \<leftarrow> rd DECODE_TABLE (unat i2);
     i3 \<leftarrow> rd input 3; byte3 \<leftarrow> rd DECODE_TABLE (unat i3);
     i4 \<leftarrow> rd input 4; byte4 \<leftarrow> rd DECODE_TABLE (unat i4);
     i5 \<leftarrow> rd input 5; byte5 \<leftarrow> rd DECODE_TABLE (unat i5);
     i6 \<leftarrow> rd input 6; byte6 \<leftarrow> rd DECODE_TABLE (unat i6);
     i7 \<leftarrow> rd input 7; byte7 \<leftarrow> rd DECODE_TABLE (unat i7);
     if 64 \<le> (byte0 OR byte1 OR byte2 OR byte3 OR byte4 OR byte5 OR byte6 OR byte7)
     then Some None
     else do {
       let accum = (push_bit 58 (ucast byte0 :: u64) OR push_bit 52 (ucast byte1)
         OR push_bit 46 (ucast byte2) OR push_bit 40 (ucast byte3)
         OR push_bit 34 (ucast byte4) OR push_bit 28 (ucast byte5)
         OR push_bit 22 (ucast byte6) OR push_bit 16 (ucast byte7));
       output \<leftarrow> wr_all output 0 (take 6 (to_be_bytes accum));
       Some (Some output)
     }
   }"

definition decode_chunk_4 :: "bytes \<Rightarrow> bytes \<Rightarrow> (bytes option) option" where
  "decode_chunk_4 input output = do {
     i0 \<leftarrow> rd input 0; byte0 \<leftarrow> rd DECODE_TABLE (unat i0);
     i1 \<leftarrow> rd input 1; byte1 \<leftarrow> rd DECODE_TABLE (unat i1);
     i2 \<leftarrow> rd input 2; byte2 \<leftarrow> rd DECODE_TABLE (unat i2);
     i3 \<leftarrow> rd input 3; byte3 \<leftarrow> rd DECODE_TABLE (unat i3);
     if 64 \<le> (byte0 OR byte1 OR byte2 OR byte3) then Some None
     else do {
       output \<leftarrow> wr_all output 0 [push_bit 2 byte0 OR drop_bit 4 byte1,
         push_bit 4 byte1 OR drop_bit 2 byte2, push_bit 6 byte2 OR byte3];
       Some (Some output)
     }
   }"

text \<open>
  A decoder called on the sub-slice \<open>&mut output[a..b]\<close> changes that segment of the buffer
  only: \<open>in_window\<close> cuts the segment out and puts the result back.  A \<open>None\<close> of the decoder
  (the \<open>?\<close> operator) leaves the buffer as it is.
\<close>

definition in_window :: "bytes \<Rightarrow> nat \<Rightarrow> nat \<Rightarrow> (bytes \<Rightarrow> (bytes option) option) \<Rightarrow> (bytes option) option" where
  "in_window output a b f = do {
     window \<leftarrow> slice output a b;
     r \<leftarrow> f window;
     Some (map_option (overwrite output a) r)
   }"

definition decode_chunk_32 :: "bytes \<Rightarrow> bytes \<Rightarrow> nat \<Rightarrow> (bool \<times> bytes) option" where
  "decode_chunk_32 input_chunk output output_idx = do {
     in0 \<leftarrow> slice input_chunk 0 8;
     r0 \<leftarrow> in_window output output_idx (output_idx + 6) (decode_chunk_8 in0);
     (case r0 of None \<Rightarrow> Some (False, output) | Some output \<Rightarrow> do {
     in1 \<leftarrow> slice input_chunk 8 16;
     r1 \<leftarrow> in_window output (output_idx + 6) (output_idx + 12) (decode_chunk_8 in1);
     (case r1 of None \<Rightarrow> Some (False, output) | Some output \<Rightarrow> do {
     in2 \<leftarrow> slice input_chunk 16 24;
     r2 \<leftarrow> in_window output (output_idx + 12) (output_idx + 18) (decode_chunk_8 in2);
     (case r2 of None \<Rightarrow> Some (False, output) | Some output \<Rightarrow> do {
     in3 \<leftarrow> slice input_chunk 24 32;
     r3 \<leftarrow> in_window output (output_idx + 18) (output_idx + 24) (decode_chunk_8 in3);
     (case r3 of None \<Rightarrow> Some (False, output) | Some output \<Rightarrow> Some (True, output))
     }) }) })
   }"

function decode_unrolled :: "bytes \<Rightarrow> nat \<Rightarrow> nat \<Rightarrow> bytes \<Rightarrow> (nat option \<times> bytes) option" where
  "decode_unrolled input input_unrolled_len input_idx output =
     (if input_idx < input_unrolled_len
      then do {
        let output_idx = input_idx div 4 * 3;
        input_chunk \<leftarrow> slice input input_idx (input_idx + 32);
        _ \<leftarrow> slice output output_idx (output_idx + 24);
        (ok, output) \<leftarrow> decode_chunk_32 input_chunk output output_idx;
        if ok then decode_unrolled input input_unrolled_len (input_idx + 32) output
        else Some (None, output)
      }
      else Some (Some input_idx, output))"
  by pat_completeness auto
termination
  by (relation "measure (\<lambda>(_, n, i, _). n - i)") auto

function decode_quads :: "bytes \<Rightarrow> nat \<Rightarrow> nat \<Rightarrow> bytes \<Rightarrow> (bool \<times> bytes) option" where
  "decode_quads input final_input_idx input_idx output =
     (if input_idx < final_input_idx
      then do {
        let output_idx = input_idx div 4 * 3;
        quad \<leftarrow> slice input input_idx (input_idx + 4);
        r \<leftarrow> in_window output output_idx (output_idx + 3) (decode_chunk_4 quad);
        (case r of
           None \<Rightarrow> Some (False, output)
         | Some output \<Rightarrow> decode_quads input final_input_idx (input_idx + 4) output)
      }
      else Some (True, output))"
  by pat_completeness auto
termination
  by (relation "measure (\<lambda>(_, n, i, _). n - i)") auto

definition decode_final :: "bytes \<Rightarrow> nat \<Rightarrow> bytes \<Rightarrow> (nat option \<times> bytes) option" where
  "decode_final input final_input_idx output = do {
     let output_idx = final_input_idx div 4 * 3;
     i0 \<leftarrow> rd input final_input_idx; byte0 \<leftarrow> rd DECODE_TABLE (unat i0);
     i1 \<leftarrow> rd input (final_input_idx + 1); byte1 \<leftarrow> rd DECODE_TABLE (unat i1);
     i2 \<leftarrow> rd input (final_input_idx + 2); byte2 \<leftarrow> rd DECODE_TABLE (unat i2);
     i3 \<leftarrow> rd input (final_input_idx + 3); byte3 \<leftarrow> rd DECODE_TABLE (unat i3);
     if 64 \<le> byte0 \<or> 64 \<le> byte1 then Some (None, output)
     else if byte2 = DECODE_PADDING then
       (if byte3 \<noteq> DECODE_PADDING then Some (None, output)
        else do {
          output \<leftarrow> wr output output_idx (push_bit 2 byte0 OR drop_bit 4 byte1);
          Some (Some (output_idx + 1), output)
        })
     else if 64 \<le> byte2 then Some (None, output)
     else do {
       output \<leftarrow> wr output output_idx (push_bit 2 byte0 OR drop_bit 4 byte1);
       output \<leftarrow> wr output (output_idx + 1) (push_bit 4 byte1 OR drop_bit 2 byte2);
       if byte3 = DECODE_PADDING then Some (Some (output_idx + 2), output)
       else if 64 \<le> byte3 then Some (None, output)
       else do {
         output \<leftarrow> wr output (output_idx + 2) (push_bit 6 byte2 OR byte3);
         Some (Some (output_idx + 3), output)
       }
     }
   }"

definition decode :: "bytes \<Rightarrow> bytes \<Rightarrow> (nat option \<times> bytes) option" where
  "decode input output =
     (case decoded_len input of
        None \<Rightarrow> Some (None, output)
      | Some needed \<Rightarrow>
          if length output < needed then Some (None, output)
          else if input = [] then Some (Some 0, output)
          else do {
            let final_input_idx = length input - 4;
            let input_unrolled_len = final_input_idx - final_input_idx mod 32;
            (r, output) \<leftarrow> decode_unrolled input input_unrolled_len 0 output;
            (case r of
               None \<Rightarrow> Some (None, output)
             | Some input_idx \<Rightarrow> do {
                 (ok, output) \<leftarrow> decode_quads input final_input_idx input_idx output;
                 if ok then decode_final input final_input_idx output
                 else Some (None, output)
               })
          })"

section \<open>The reference codec\<close>

definition sx0 :: "u8 \<Rightarrow> u8" where
  "sx0 a = drop_bit 2 a"

definition sx1 :: "u8 \<Rightarrow> u8 \<Rightarrow> u8" where
  "sx1 a b = push_bit 4 (a AND 3) OR drop_bit 4 b"

definition sx2 :: "u8 \<Rightarrow> u8 \<Rightarrow> u8" where
  "sx2 b c = push_bit 2 (b AND 15) OR drop_bit 6 c"

definition sx3 :: "u8 \<Rightarrow> u8" where
  "sx3 c = c AND 63"

definition sextets :: "u8 \<Rightarrow> u8 \<Rightarrow> u8 \<Rightarrow> u8 list" where
  "sextets a b c = [sx0 a, sx1 a b, sx2 b c, sx3 c]"

definition octets :: "u8 \<Rightarrow> u8 \<Rightarrow> u8 \<Rightarrow> u8 \<Rightarrow> bytes" where
  "octets v0 v1 v2 v3 = [push_bit 2 v0 OR drop_bit 4 v1, push_bit 4 v1 OR drop_bit 2 v2,
     push_bit 6 v2 OR v3]"

definition b64_chars :: "u8 list \<Rightarrow> bytes" where
  "b64_chars vs = map (\<lambda>v. ALPHABET ! unat v) vs"

fun b64_encode :: "bytes \<Rightarrow> bytes" where
  "b64_encode [] = []"
| "b64_encode [a] = b64_chars (take 2 (sextets a 0 0)) @ [PAD, PAD]"
| "b64_encode [a, b] = b64_chars (take 3 (sextets a b 0)) @ [PAD]"
| "b64_encode (a # b # c # xs) = b64_chars (sextets a b c) @ b64_encode xs"

text \<open>
  The decoder side: the value of a character, and the reference decoder.  A group of four
  characters gives three bytes; padding is accepted in the last group only.  The bits a padded
  group leaves over are ignored, as RFC 4648 allows.
\<close>

definition b64_value :: "u8 \<Rightarrow> u8" where
  "b64_value c = DECODE_TABLE ! unat c"

fun b64_decode :: "bytes \<Rightarrow> bytes option" where
  "b64_decode [] = Some []"
| "b64_decode [a, b, c, d] =
     (if 64 \<le> b64_value a \<or> 64 \<le> b64_value b then None
      else if c = PAD then
        (if d = PAD then Some (take 1 (octets (b64_value a) (b64_value b) 0 0)) else None)
      else if 64 \<le> b64_value c then None
      else if d = PAD then Some (take 2 (octets (b64_value a) (b64_value b) (b64_value c) 0))
      else if 64 \<le> b64_value d then None
      else Some (octets (b64_value a) (b64_value b) (b64_value c) (b64_value d)))"
| "b64_decode (a # b # c # d # xs) =
     (if 64 \<le> b64_value a \<or> 64 \<le> b64_value b \<or> 64 \<le> b64_value c \<or> 64 \<le> b64_value d then None
      else map_option (append (octets (b64_value a) (b64_value b) (b64_value c) (b64_value d))) (b64_decode xs))"
| "b64_decode _ = None"

text \<open>The bytes of unpadded groups, without the validity check.\<close>

fun b64_quads :: "bytes \<Rightarrow> bytes" where
  "b64_quads (a # b # c # d # xs) = octets (b64_value a) (b64_value b) (b64_value c) (b64_value d) @ b64_quads xs"
| "b64_quads _ = []"

text \<open>The buffer after the first \<open>i\<close> input bytes have been encoded.\<close>

definition enc_upto :: "bytes \<Rightarrow> bytes \<Rightarrow> nat \<Rightarrow> bytes" where
  "enc_upto input out i = overwrite out 0 (b64_encode (take i input))"

text \<open>The buffer after the first \<open>i\<close> input characters have been decoded.\<close>

definition dec_upto :: "bytes \<Rightarrow> bytes \<Rightarrow> nat \<Rightarrow> bytes" where
  "dec_upto input out i = overwrite out 0 (b64_quads (take i input))"

declare encode_fast.simps [simp del] encode_full.simps [simp del]

section \<open>Bit-level facts\<close>

lemma less_8_cases:
  "n < (8::nat) \<Longrightarrow> n = 0 \<or> n = 1 \<or> n = 2 \<or> n = 3 \<or> n = 4 \<or> n = 5 \<or> n = 6 \<or> n = 7"
  by linarith

lemma byte_eqI: "(\<And>n. n < 8 \<Longrightarrow> bit a n = bit b n) \<Longrightarrow> a = (b::u8)"
  by (rule bit_word_eqI) simp

lemma byte_high_bit [simp]: "8 \<le> n \<Longrightarrow> \<not> bit (a::u8) n"
  using bit_imp_le_length [of a n] by auto

lemma small_masks [byte_simps]:
  "(63::u8) = mask 6" "(63::u64) = mask 6" "(15::u8) = mask 4" "(3::u8) = mask 2"
  by (simp_all add: mask_eq_exp_minus_1)

lemma nat_63_mask: "(63::nat) = mask 6"
  by (simp add: mask_eq_exp_minus_1)

lemma byte_bit_less: "bit (a::u8) n \<Longrightarrow> n < 8"
  by (rule ccontr) simp

lemmas [byte_simps] = bit_and_iff bit_or_iff bit_push_bit_iff bit_drop_bit_eq bit_mask_iff
  bit_ucast_iff bit_unsigned_iff

lemma byte_less_64: "(w::u8) < 64 \<longleftrightarrow> \<not> bit w 6 \<and> \<not> bit w 7"
proof -
  have "w < 64 \<longleftrightarrow> take_bit 6 (unat w) = unat w"
    by (simp add: word_less_nat_alt take_bit_nat_eq_self_iff)
  also have "\<dots> \<longleftrightarrow> take_bit 6 w = w"
    by (metis unsigned_take_bit_eq unsigned_word_eqI)
  also have "\<dots> \<longleftrightarrow> \<not> bit w 6 \<and> \<not> bit w 7"
  proof
    assume eq: "take_bit 6 w = w"
    have "\<not> bit (take_bit 6 w) 6 \<and> \<not> bit (take_bit 6 w) 7" by (simp add: bit_take_bit_iff)
    then show "\<not> bit w 6 \<and> \<not> bit w 7" by (simp add: eq)
  next
    assume "\<not> bit w 6 \<and> \<not> bit w 7"
    then show "take_bit 6 w = w"
      by (intro byte_eqI) (auto dest!: less_8_cases simp: bit_take_bit_iff)
  qed
  finally show ?thesis .
qed

lemma word_or_ge_64: "64 \<le> (a OR b :: u8) \<longleftrightarrow> 64 \<le> a \<or> 64 \<le> b"
  by (metis bit_or_iff byte_less_64 linorder_not_le)
lemma byte_lt_64_bits: "unat (w::u8) < 64 \<longleftrightarrow> \<not> bit w 6 \<and> \<not> bit w 7"
  using byte_less_64 [of w] by (simp add: word_less_nat_alt)

lemmas sx_defs = sx0_def sx1_def sx2_def sx3_def

lemma sx_small: "unat (sx0 a) < 64" "unat (sx1 a b) < 64" "unat (sx2 b c) < 64" "unat (sx3 c) < 64"
  by (auto simp: sx_defs byte_lt_64_bits byte_simps)

lemma octets_sextets: "octets (sx0 a) (sx1 a b) (sx2 b c) (sx3 c) = [a, b, c]"
  unfolding octets_def sx_defs
  by (auto intro!: byte_eqI dest!: less_8_cases simp: byte_simps)

lemma from_be_bytes_snoc: "from_be_bytes (xs @ [b]) = push_bit 8 (from_be_bytes xs) OR ucast b"
  by (simp add: from_be_bytes_def)

lemma bit_from_be_bytes:
  "bit (from_be_bytes xs) m \<longleftrightarrow>
     m < 64 \<and> m div 8 < length xs \<and> bit (rev xs ! (m div 8)) (m mod 8)"
proof (induction xs arbitrary: m rule: rev_induct)
  case Nil
  then show ?case by (simp add: from_be_bytes_def)
next
  case (snoc b xs)
  show ?case
  proof (cases "m < 8")
    case True
    then show ?thesis
      by (simp add: from_be_bytes_snoc bit_or_iff bit_push_bit_iff bit_ucast_iff)
  next
    case False
    then obtain k where k: "m = k + 8"
      using le_Suc_ex [of 8 m] by (auto simp: not_less add.commute)
    have step: "(k + 8) div 8 = Suc (k div 8)" by presburger
    have nb: "\<not> bit b m" using False bit_imp_le_length [of b m] by auto
    have "bit (from_be_bytes (xs @ [b])) m \<longleftrightarrow> m < 64 \<and> bit (from_be_bytes xs) k"
      using nb by (simp add: k from_be_bytes_snoc bit_or_iff bit_push_bit_iff bit_ucast_iff)
    also have "\<dots> \<longleftrightarrow> m < 64 \<and> k div 8 < length xs \<and> bit (rev xs ! (k div 8)) (k mod 8)"
      by (auto simp: snoc.IH k)
    finally show ?thesis by (simp add: k step)
  qed
qed

lemma unat_low_six: "unat (w AND 63 :: u64) = unat (ucast (w AND 63) :: u8)"
  by (rule bit_eqI) (auto simp: byte_simps)

lemma fast_sextets:
  "map (\<lambda>s. ucast (drop_bit s (from_be_bytes [a0, a1, a2, a3, a4, a5, a6, a7]) AND 63))
     [58, 52, 46, 40, 34, 28, 22, 16] = sextets a0 a1 a2 @ sextets a3 a4 a5"
  unfolding sextets_def sx_defs list.map append.simps list.inject
  by (intro conjI; (rule byte_eqI, drule less_8_cases, elim disjE)?)
    (simp_all add: byte_simps bit_from_be_bytes)

lemma fast_chars_groups:
  "fast_chars (from_be_bytes [a0, a1, a2, a3, a4, a5, a6, a7])
     = b64_chars (sextets a0 a1 a2) @ b64_chars (sextets a3 a4 a5)"
proof -
  let ?w = "from_be_bytes [a0, a1, a2, a3, a4, a5, a6, a7]"
  have "fast_chars ?w = b64_chars (map (\<lambda>s. ucast (drop_bit s ?w AND 63)) [58, 52, 46, 40, 34, 28, 22, 16])"
    by (simp add: fast_chars_def b64_chars_def unat_low_six)
  then show ?thesis by (simp only: fast_sextets) (simp add: b64_chars_def)
qed

lemma rd_pair_table:
  assumes "take_bit 12 i = i"
  shows "rd ENCODE_PAIR_TABLE i = Some (ALPHABET ! (drop_bit 6 i AND 63), ALPHABET ! (i AND 63))"
proof -
  have "i < 2 ^ 12" using assms by (metis take_bit_nat_less_exp)
  then show ?thesis
    by (simp add: rd_def ENCODE_PAIR_TABLE_def build_encode_pair_table_def)
qed

lemma rd_pair_0:
  "rd ENCODE_PAIR_TABLE (push_bit 4 (unat a) OR unat (drop_bit 4 b)) =
     Some (ALPHABET ! unat (sx0 a), ALPHABET ! unat (sx1 a b))" (is "rd _ ?i = _")
proof -
  have "take_bit 12 ?i = ?i" "drop_bit 6 ?i AND 63 = unat (sx0 a)" "?i AND 63 = unat (sx1 a b)"
    unfolding sx_defs
    by ((rule bit_eqI; auto simp: byte_simps nat_63_mask bit_take_bit_iff dest: byte_bit_less)+)
  then show ?thesis by (simp only: rd_pair_table)
qed

lemma rd_pair_1:
  "rd ENCODE_PAIR_TABLE (push_bit 8 (unat (b AND 0x0f)) OR unat c) =
     Some (ALPHABET ! unat (sx2 b c), ALPHABET ! unat (sx3 c))" (is "rd _ ?i = _")
proof -
  have "take_bit 12 ?i = ?i" "drop_bit 6 ?i AND 63 = unat (sx2 b c)" "?i AND 63 = unat (sx3 c)"
    unfolding sx_defs
    by ((rule bit_eqI; auto simp: byte_simps nat_63_mask bit_take_bit_iff dest: byte_bit_less)+)
  then show ?thesis by (simp only: rd_pair_table)
qed

section \<open>The encoder computes the reference\<close>

lemma length_sextets [simp]: "length (sextets a b c) = 4"
  by (simp add: sextets_def)

lemma length_chars [simp]: "length (b64_chars vs) = length vs"
  by (simp add: b64_chars_def)

lemma length_b64_encode [simp]: "length (b64_encode xs) = encoded_len (length xs)"
proof (induction xs rule: b64_encode.induct)
  case (4 a b c xs)
  have "(5 + length xs) div 3 = Suc ((length xs + 2) div 3)" by presburger
  with 4 show ?case by (simp add: encoded_len_def)
qed (simp_all add: encoded_len_def)

lemma b64_encode_append:
  "length xs mod 3 = 0 \<Longrightarrow> b64_encode (xs @ ys) = b64_encode xs @ b64_encode ys"
proof (induction xs rule: b64_encode.induct)
  case (4 a b c xs)
  then have "length xs mod 3 = 0" by (simp; presburger)
  with 4 show ?case by simp
qed simp_all

lemma length_ge_8: "8 \<le> length xs \<Longrightarrow> \<exists>a b c d e f g h ys. xs = a # b # c # d # e # f # g # h # ys"
  by (simp add: numeral_eq_Suc Suc_le_length_iff) blast

lemma read_fast:
  assumes "8 \<le> length xs"
  shows "\<exists>w. read_u64_be xs = Some w \<and> fast_chars w = b64_encode (take 6 xs)"
proof -
  from length_ge_8 [OF assms] obtain a b c d e f g h ys where
    xs: "xs = a # b # c # d # e # f # g # h # ys" by blast
  have "read_u64_be xs = Some (from_be_bytes [a, b, c, d, e, f, g, h])"
    by (simp add: xs read_u64_be_def slice_def)
  moreover have "b64_encode (take 6 xs) = b64_chars (sextets a b c) @ b64_chars (sextets d e f)"
    by (simp add: xs)
  ultimately show ?thesis by (simp add: fast_chars_groups)
qed

lemma encoded_len_add:
  "n mod 3 = 0 \<Longrightarrow> encoded_len (n + m) = encoded_len n + encoded_len m"
  using mod_zero_div_add [of n 3 "m + 2"] mod_zero_div_add [of n 3 2]
  by (simp add: encoded_len_def add.assoc distrib_right)

lemma encoded_len_mono: "n \<le> m \<Longrightarrow> encoded_len n \<le> encoded_len m"
  unfolding encoded_len_def by (intro mult_le_mono1 div_le_mono) simp

lemma enc_upto_step:
  assumes "i mod 3 = 0" "i \<le> length input" "vs = b64_encode (take n (drop i input))"
    and "encoded_len (length (take (i + n) input)) \<le> length out"
  shows "wr_all (enc_upto input out i) (encoded_len i) vs = Some (enc_upto input out (i + n))"
proof -
  have len: "length (b64_encode (take i input)) = encoded_len i" using assms(2) by simp
  have "take (i + n) input = take i input @ take n (drop i input)" by (rule take_add)
  then have split: "b64_encode (take (i + n) input) = b64_encode (take i input) @ vs"
    using assms(1-3) b64_encode_append [of "take i input" "take n (drop i input)"] by simp
  have room: "encoded_len i + length vs \<le> length out"
    using assms(4) arg_cong [OF split, of length] len by simp
  then show ?thesis
    using overwrite_append [of 0 "b64_encode (take i input)" vs out] len split
    by (simp add: enc_upto_def wr_all_in)
qed

lemma encode_fast_step:
  assumes "i mod 3 = 0" "i + 26 \<le> length input" "encoded_len (length input) \<le> length out"
  shows "encode_fast input l i (encoded_len i) (enc_upto input out i) =
    (if i \<le> l then encode_fast input l (i + 24) (encoded_len (i + 24)) (enc_upto input out (i + 24))
     else Some (i, encoded_len i, enc_upto input out i))"
proof (cases "i \<le> l")
  case True
  let ?chunk = "take 26 (drop i input)"
  have len: "encoded_len (i + k) = encoded_len i + encoded_len k" for k
    using assms(1) by (rule encoded_len_add)
  have room: "encoded_len (i + k) \<le> length out" if "k \<le> 26" for k
    using encoded_len_mono [of "i + k" "length input"] assms that by linarith
  have out_len: "length (enc_upto input out i) = length out"
    using room [of 0] assms(2) by (simp add: enc_upto_def)
  have block: "\<exists>w. read_u64_be (drop k ?chunk) = Some w \<and>
      wr_all (enc_upto input out (i + k)) (encoded_len i + encoded_len k) (fast_chars w)
        = Some (enc_upto input out (i + k + 6))"
    if k: "k \<le> 18" "k mod 3 = 0" for k
  proof -
    have "8 \<le> length (drop k ?chunk)" using assms(2) k by simp
    from read_fast [OF this] obtain w where
      w: "read_u64_be (drop k ?chunk) = Some w" "fast_chars w = b64_encode (take 6 (drop k ?chunk))"
      by blast
    have "take 6 (drop k ?chunk) = take 6 (drop (i + k) input)"
      using k by (simp add: drop_take add.commute)
    moreover have "(i + k) mod 3 = 0" using assms(1) k(2) by presburger
    ultimately show ?thesis
      using w enc_upto_step [of "i + k" input "fast_chars w" 6 out] room [of "k + 6"] assms(2) k
      by (simp add: len add.assoc)
  qed
  from block [of 0] block [of 6] block [of 12] block [of 18] show ?thesis
    using True assms(2) out_len room [of 24] len [of 24]
    by (subst encode_fast.simps) (auto simp: slice_in encoded_len_def add.assoc)
next
  case False
  then show ?thesis by (simp add: encode_fast.simps)
qed

lemma encode_fast_ok:
  assumes "l + 26 = length input" "encoded_len (length input) \<le> length out"
    and "i mod 3 = 0" "i \<le> length input" 
  shows "\<exists>j. j mod 3 = 0 \<and> j \<le> length input \<and>
    encode_fast input l i (encoded_len i) (enc_upto input out i)
      = Some (j, encoded_len j, enc_upto input out j)"
  using assms(3,4)
proof (induction "Suc l - i" arbitrary: i rule: less_induct)
  case less
  show ?case
  proof (cases "i \<le> l")
    case True
    have "(i + 24) mod 3 = 0" using less.prems by presburger
    with less.hyps [of "i + 24"] True assms(1) show ?thesis
      using encode_fast_step [of i input out l] less.prems assms(1,2) by simp
  next
    case False
    with less.prems show ?thesis by (subst encode_fast.simps) auto
  qed
qed

lemma b64_encode_3:
  assumes "i + 3 \<le> length input"
  shows "b64_encode (take 3 (drop i input)) =
    b64_chars (sextets (input ! i) (input ! (i + 1)) (input ! (i + 2)))"
proof -
  have "drop i input = input ! i # input ! (i + 1) # input ! (i + 2) # drop (i + 3) input"
    using assms by (simp add: Cons_nth_drop_Suc [symmetric] numeral_eq_Suc)
  then show ?thesis by (simp add: numeral_eq_Suc)
qed

lemma encode_full_ok:
  assumes "full_len = length input div 3 * 3" "encoded_len (length input) \<le> length out"
    and "i mod 3 = 0" "i \<le> full_len"
  shows "encode_full input full_len i (encoded_len i) (enc_upto input out i)
      = Some (full_len, encoded_len full_len, enc_upto input out full_len)"
  using assms(3,4)
proof (induction "full_len - i" arbitrary: i rule: less_induct)
  case less
  show ?case
  proof (cases "i < full_len")
    case True
    have i3: "(i + 3) mod 3 = 0" "i + 3 \<le> full_len"
      using True less.prems assms(1) mod_zero_gap [of i 3 full_len] by simp_all
    have "full_len \<le> length input" using assms(1) by simp
    then have in_range: "i + 3 \<le> length input" using i3 by simp
    have len: "encoded_len (i + 3) = encoded_len i + 4"
      using encoded_len_add [of i 3] less.prems by (simp add: encoded_len_def)
    have "encoded_len (i + 3) \<le> length out"
      using encoded_len_mono [OF in_range] assms(2) by simp
    then have "wr_all (enc_upto input out i) (encoded_len i)
        (b64_chars (sextets (input ! i) (input ! (i + 1)) (input ! (i + 2))))
      = Some (enc_upto input out (i + 3))"
      using enc_upto_step [of i input _ 3 out] less.prems in_range b64_encode_3 [OF in_range]
      by simp
    then show ?thesis
      using less.hyps [of "i + 3"] i3 True in_range len
      by (subst encode_full.simps)
        (simp add: rd_in rd_pair_0 rd_pair_1 sextets_def b64_chars_def)
  next
    case False
    with less.prems show ?thesis by (subst encode_full.simps) simp
  qed
qed

lemma encode_tail_ok:
  assumes "full_len = length input div 3 * 3" "encoded_len (length input) \<le> length out"
  shows "encode_tail input (length input - full_len) full_len (encoded_len full_len)
      (enc_upto input out full_len) = Some (enc_upto input out (length input))"
proof -
  let ?n = "length input - full_len"
  have len: "full_len + ?n = length input" and n: "?n < 3" and m: "full_len mod 3 = 0"
    using assms(1) by presburger+
  have room: "wr_all (enc_upto input out full_len) (encoded_len full_len) (b64_encode (drop full_len input))
      = Some (enc_upto input out (length input))"
    using enc_upto_step [of full_len input _ ?n out] len m assms by simp
  consider "?n = 0" | "?n = 1" | "?n = 2" using n by linarith
  then show ?thesis
  proof cases
    case 1
    then show ?thesis using len by (simp add: encode_tail_def)
  next
    case 2
    then have "drop full_len input = [input ! full_len]"
      using len by (simp add: Cons_nth_drop_Suc [symmetric])
    then show ?thesis
      using 2 len room rd_pair_0 [of "input ! full_len" 0]
      by (simp add: encode_tail_def rd_in sextets_def b64_chars_def numeral_eq_Suc)
  next
    case 3
    then have "drop full_len input = [input ! full_len, input ! (full_len + 1)]"
      using len by (simp add: Cons_nth_drop_Suc [symmetric])
    then show ?thesis
      using 3 len room rd_pair_0 rd_pair_1 [of "input ! (full_len + 1)" 0]
      by (simp add: encode_tail_def rd_in sextets_def b64_chars_def numeral_eq_Suc)
  qed
qed

lemma enc_upto_0 [simp]: "enc_upto input out 0 = out"
  by (simp add: enc_upto_def)

lemma encoded_len_0 [simp]: "encoded_len 0 = 0"
  by (simp add: encoded_len_def)

lemma encode_outcome:
  "encode input output =
     Some (if length output < encoded_len (length input) then (None, output)
           else (Some (encoded_len (length input)),
                 b64_encode input @ drop (encoded_len (length input)) output))"
proof (cases "length output < encoded_len (length input)")
  case True
  then show ?thesis by (simp add: encode_def Let_def)
next
  case False
  let ?full = "length input div 3 * 3"
  have room: "encoded_len (length input) \<le> length output" using False by simp
  obtain j where j: "j mod 3 = 0" "j \<le> length input"
    and fast: "(if length input - 26 > 0 then encode_fast input (length input - 26) 0 0 output
      else Some (0, 0, output)) = Some (j, encoded_len j, enc_upto input output j)"
  proof (cases "length input - 26 > 0")
    case True
    then show ?thesis
      using encode_fast_ok [OF _ room, of "length input - 26" 0] that by auto
  next
    case False
    then show ?thesis using that [of 0] by simp
  qed
  have "j \<le> ?full" using j by presburger
  then have "encode_full input ?full j (encoded_len j) (enc_upto input output j)
      = Some (?full, encoded_len ?full, enc_upto input output ?full)"
    using encode_full_ok j room by simp
  then show ?thesis
    using False fast encode_tail_ok [OF refl room]
    by (simp add: encode_def Let_def enc_upto_def overwrite_def)
qed
section \<open>The tables\<close>

lemma length_ALPHABET [simp]: "length ALPHABET = 64"
  by (simp add: ALPHABET_def)

lemma DECODE_TABLE_value:
  "DECODE_TABLE = [
     255, 255, 255, 255, 255, 255, 255, 255, 255, 255, 255, 255, 255, 255, 255, 255, 255,
     255, 255, 255, 255, 255, 255, 255, 255, 255, 255, 255, 255, 255, 255, 255, 255, 255,
     255, 255, 255, 255, 255, 255, 255, 255, 255, 62, 255, 255, 255, 63, 52, 53, 54, 55, 56,
     57, 58, 59, 60, 61, 255, 255, 255, 254, 255, 255, 255, 0, 1, 2, 3, 4, 5, 6, 7, 8, 9,
     10, 11, 12, 13, 14, 15, 16, 17, 18, 19, 20, 21, 22, 23, 24, 25, 255, 255, 255, 255,
     255, 255, 26, 27, 28, 29, 30, 31, 32, 33, 34, 35, 36, 37, 38, 39, 40, 41, 42, 43, 44,
     45, 46, 47, 48, 49, 50, 51, 255, 255, 255, 255, 255, 255, 255, 255, 255, 255, 255, 255,
     255, 255, 255, 255, 255, 255, 255, 255, 255, 255, 255, 255, 255, 255, 255, 255, 255,
     255, 255, 255, 255, 255, 255, 255, 255, 255, 255, 255, 255, 255, 255, 255, 255, 255,
     255, 255, 255, 255, 255, 255, 255, 255, 255, 255, 255, 255, 255, 255, 255, 255, 255,
     255, 255, 255, 255, 255, 255, 255, 255, 255, 255, 255, 255, 255, 255, 255, 255, 255,
     255, 255, 255, 255, 255, 255, 255, 255, 255, 255, 255, 255, 255, 255, 255, 255, 255,
     255, 255, 255, 255, 255, 255, 255, 255, 255, 255, 255, 255, 255, 255, 255, 255, 255,
     255, 255, 255, 255, 255, 255, 255, 255, 255, 255, 255, 255, 255, 255, 255, 255, 255,
     255, 255]"
  by code_simp

declare DECODE_TABLE_value [code]

lemma length_DECODE_TABLE [simp]: "length DECODE_TABLE = 256"
  by code_simp

lemma table_inverse:
  "map (\<lambda>i. DECODE_TABLE ! unat (ALPHABET ! i)) [0..<64] = map of_nat [0..<64]"
  by code_simp

lemma DECODE_TABLE_PAD: "DECODE_TABLE ! unat PAD = DECODE_PADDING"
  by code_simp

lemma rd_DECODE_TABLE [slice_simps]: "rd DECODE_TABLE (unat (c::u8)) = Some (b64_value c)"
  by (simp add: rd_def b64_value_def)

lemma dec_char: "unat v < 64 \<Longrightarrow> b64_value (ALPHABET ! unat v) = v"
proof -
  assume v: "unat v < 64"
  have "map (\<lambda>i. DECODE_TABLE ! unat (ALPHABET ! i)) [0..<64] ! unat v = map of_nat [0..<64] ! unat v"
    by (simp only: table_inverse)
  with v show ?thesis by (simp add: b64_value_def)
qed

lemma dec_PAD: "b64_value PAD = DECODE_PADDING"
  by (simp add: b64_value_def DECODE_TABLE_PAD)

text \<open>Only \<open>=\<close> decodes to the padding marker.\<close>

lemma padding_only_PAD:
  "list_all (\<lambda>(i, v). v = DECODE_PADDING \<longrightarrow> i = 61) (zip [0..<256] DECODE_TABLE)"
  by code_simp

lemma dec_eq_PADDING: "b64_value c = DECODE_PADDING \<longleftrightarrow> c = PAD"
proof
  assume "b64_value c = DECODE_PADDING"
  moreover have "(unat c, b64_value c) \<in> set (zip [0..<256] DECODE_TABLE)"
    by (auto simp: set_zip b64_value_def intro!: exI [of _ "unat c"])
  ultimately have "unat c = unat PAD"
    using padding_only_PAD by (auto simp: list_all_iff PAD_def)
  then show "c = PAD" by (rule unsigned_word_eqI)
qed (simp add: dec_PAD)

lemma sx_dec: 
  "b64_value (ALPHABET ! unat (sx0 a)) = sx0 a" "b64_value (ALPHABET ! unat (sx1 a b)) = sx1 a b"
  "b64_value (ALPHABET ! unat (sx2 b c)) = sx2 b c" "b64_value (ALPHABET ! unat (sx3 c)) = sx3 c"
  by (simp_all add: dec_char sx_small)

lemma sx_not_ge [simp]: "\<not> 64 \<le> sx0 a" "\<not> 64 \<le> sx1 a b" "\<not> 64 \<le> sx2 b c" "\<not> 64 \<le> sx3 c"
  using sx_small(1) [of a] sx_small(2) [of a b] sx_small(3) [of b c] sx_small(4) [of c]
  by (simp_all add: word_le_nat_alt)

lemma sx_not_PAD: "unat (v::u8) < 64 \<Longrightarrow> ALPHABET ! unat v \<noteq> PAD"
  using dec_char [of v] dec_eq_PADDING [of "ALPHABET ! unat v"] by (auto simp: DECODE_PADDING_def)

lemma chars_not_PAD [simp]:
  "ALPHABET ! unat (sx2 b c) \<noteq> PAD" "ALPHABET ! unat (sx3 c) \<noteq> PAD"
  by (simp_all add: sx_not_PAD sx_small)

lemma b64_roundtrip: "b64_decode (b64_encode xs) = Some xs"
proof (induction xs rule: b64_encode.induct)
  case 1
  then show ?case by simp
next
  case (2 a)
  then show ?case
    using octets_sextets [of a 0 0]
    by (simp add: sextets_def b64_chars_def numeral_eq_Suc sx_dec octets_def)
next
  case (3 a b)
  then show ?case
    using octets_sextets [of a b 0]
    by (simp add: sextets_def b64_chars_def numeral_eq_Suc sx_dec octets_def)
next
  case (4 a b c xs)
  show ?case
  proof (cases "b64_encode xs")
    case Nil
    then have "xs = []" using 4 by simp
    then show ?thesis
      by (simp add: sextets_def b64_chars_def sx_dec octets_sextets)
  next
    case (Cons y ys)
    then show ?thesis
      using 4 by (simp add: sextets_def b64_chars_def sx_dec octets_sextets)
  qed
qed
section \<open>The decoder computes the reference\<close>

abbreviation b64_valid :: "bytes \<Rightarrow> bool" where
  "b64_valid xs \<equiv> list_all (\<lambda>c. b64_value c < 64) xs"

lemma length_octets [simp]: "length (octets a b c d) = 3"
  by (simp add: octets_def)

lemma length_quads: "length (b64_quads xs) = length xs div 4 * 3"
proof (induction xs rule: b64_quads.induct)
  case (1 a b c d xs)
  have "(4 + length xs) div 4 = Suc (length xs div 4)" by presburger
  with 1 show ?case by simp
qed simp_all

lemma quads_append: "length xs mod 4 = 0 \<Longrightarrow> b64_quads (xs @ ys) = b64_quads xs @ b64_quads ys"
proof (induction xs rule: b64_quads.induct)
  case (1 a b c d xs)
  then have "length xs mod 4 = 0" by (simp; presburger)
  with 1 show ?case by simp
qed auto

lemma b64_decode_split:
  assumes "length xs mod 4 = 0" "length ys = 4"
  shows "b64_decode (xs @ ys) =
    (if b64_valid xs then map_option (append (b64_quads xs)) (b64_decode ys) else None)"
  using assms
proof (induction xs rule: b64_quads.induct)
  case (1 a b c d xs)
  then have m: "length xs mod 4 = 0" by (simp; presburger)
  obtain y zs where "xs @ ys = y # zs" using assms(2) by (cases "xs @ ys") auto
  then have "b64_decode ((a # b # c # d # xs) @ ys) =
    (if 64 \<le> b64_value a \<or> 64 \<le> b64_value b \<or> 64 \<le> b64_value c \<or> 64 \<le> b64_value d then None
      else map_option (append (octets (b64_value a) (b64_value b) (b64_value c) (b64_value d))) (b64_decode (xs @ ys)))"
    by simp
  with 1 m show ?case
    by (cases "b64_decode ys") (auto simp: not_le)
qed (auto simp: map_option_case split: option.splits)

lemma octets_of_accum:
  assumes "v0 < 64" "v1 < 64" "v2 < 64" "v3 < 64" "v4 < 64" "v5 < 64" "v6 < 64" "v7 < 64"
  shows "take 6 (to_be_bytes (push_bit 58 (ucast v0 :: u64) OR push_bit 52 (ucast v1)
      OR push_bit 46 (ucast v2) OR push_bit 40 (ucast v3)
      OR push_bit 34 (ucast v4) OR push_bit 28 (ucast v5)
      OR push_bit 22 (ucast v6) OR push_bit 16 (ucast v7)))
    = octets v0 v1 v2 v3 @ octets v4 v5 v6 v7"
  using assms
  unfolding octets_def to_be_bytes_def byte_less_64
  by (auto intro!: byte_eqI dest!: less_8_cases simp: byte_simps)

lemma length_4: "length xs = 4 \<Longrightarrow> \<exists>a b c d. xs = [a, b, c, d]"
  by (auto simp: numeral_eq_Suc length_Suc_conv)

lemma length_8: "length xs = 8 \<Longrightarrow> \<exists>a b c d e f g h. xs = [a, b, c, d, e, f, g, h]"
  by (auto simp: numeral_eq_Suc length_Suc_conv)

lemma overwrite_all: "length xs = length vs \<Longrightarrow> overwrite xs 0 vs = vs"
  by (simp add: overwrite_def)

lemma decode_chunk_4_ok:
  assumes "length qs = 4" "length w = 3"
  shows "decode_chunk_4 qs w = Some (if b64_valid qs then Some (b64_quads qs) else None)"
proof -
  from length_4 [OF assms(1)] obtain a b c d where qs: "qs = [a, b, c, d]" by blast
  have reads: "rd qs 0 = Some a" "rd qs 1 = Some b" "rd qs 2 = Some c" "rd qs 3 = Some d"
    by (simp_all add: qs rd_def)
  show ?thesis
    using assms(2)
    unfolding decode_chunk_4_def reads rd_DECODE_TABLE bind.bind_lunit word_or_ge_64
    by (auto simp: qs wr_all_in overwrite_all octets_def not_le)
qed

lemma decode_chunk_8_ok:
  assumes "length qs = 8" "length w = 6"
  shows "decode_chunk_8 qs w = Some (if b64_valid qs then Some (b64_quads qs) else None)"
proof -
  from length_8 [OF assms(1)] obtain a b c d e f g h where qs: "qs = [a, b, c, d, e, f, g, h]"
    by blast
  have reads: "rd qs 0 = Some a" "rd qs 1 = Some b" "rd qs 2 = Some c" "rd qs 3 = Some d"
    "rd qs 4 = Some e" "rd qs 5 = Some f" "rd qs 6 = Some g" "rd qs 7 = Some h"
    by (simp_all add: qs rd_def)
  show ?thesis
  proof (cases "b64_valid qs")
    case True
    then show ?thesis
      using assms(2) octets_of_accum [of "b64_value a" "b64_value b" "b64_value c" "b64_value d" "b64_value e" "b64_value f" "b64_value g" "b64_value h"]
      unfolding decode_chunk_8_def reads rd_DECODE_TABLE bind.bind_lunit Let_def word_or_ge_64
      by (simp add: qs wr_all_in overwrite_all not_le)
  next
    case False
    then show ?thesis
      unfolding decode_chunk_8_def reads rd_DECODE_TABLE bind.bind_lunit word_or_ge_64
      by (auto simp: qs not_le)
  qed
qed

lemma in_window_ok:
  assumes "a + n \<le> length out" "length vs = n"
    and "\<And>w. length w = n \<Longrightarrow> f w = Some (if ok then Some vs else None)"
  shows "in_window out a (a + n) f = Some (if ok then Some (overwrite out a vs) else None)"
  using assms by (simp add: in_window_def slice_in)

lemmas window_8 = in_window_ok [where n = 6, OF _ _ decode_chunk_8_ok]
lemmas window_4 = in_window_ok [where n = 3, OF _ _ decode_chunk_4_ok]

lemma window_quads:
  assumes "length qs = 8" "b = a + 6" "b \<le> length out"
  shows "in_window out a b (decode_chunk_8 qs) =
    Some (if b64_valid qs then Some (overwrite out a (b64_quads qs)) else None)"
  using assms window_8 [of a out qs] by (simp add: length_quads)

lemma take_slices:
  "length xs = 32 \<Longrightarrow> xs = take 8 xs @ take 8 (drop 8 xs) @ take 8 (drop 16 xs) @ take 8 (drop 24 xs)"
  by (rule nth_equalityI) (auto simp: nth_append)

lemma decode_chunk_32_ok:
  assumes "length qs = 32" "a + 24 \<le> length out"
  shows "\<exists>out'. decode_chunk_32 qs out a = Some (b64_valid qs, out') \<and> length out' = length out \<and>
    (b64_valid qs \<longrightarrow> out' = overwrite out a (b64_quads qs))"
proof -
  define q0 q1 q2 q3 where q: "q0 = take 8 qs" "q1 = take 8 (drop 8 qs)" "q2 = take 8 (drop 16 qs)"
    "q3 = take 8 (drop 24 qs)"
  have len: "length q0 = 8" "length q1 = 8" "length q2 = 8" "length q3 = 8"
    using assms(1) by (simp_all add: q)
  have qs: "qs = q0 @ q1 @ q2 @ q3" using assms(1) take_slices q by metis
  have sl: "slice qs 0 8 = Some q0" "slice qs 8 16 = Some q1" "slice qs 16 24 = Some q2"
    "slice qs 24 32 = Some q3"
    using assms(1) by (simp_all add: slice_def q)
  have b64_quads: "b64_quads qs = b64_quads q0 @ b64_quads q1 @ b64_quads q2 @ b64_quads q3"
    by (simp add: qs quads_append len)
  have lq: "length (b64_quads q0) = 6" "length (b64_quads q1) = 6" "length (b64_quads q2) = 6" "length (b64_quads q3) = 6"
    by (simp_all add: length_quads len)
  have ow: "overwrite (overwrite (overwrite (overwrite out a (b64_quads q0)) (a + 6) (b64_quads q1))
      (a + 12) (b64_quads q2)) (a + 18) (b64_quads q3) = overwrite out a (b64_quads qs)"
    using assms(2) overwrite_append [of a "b64_quads q0" "b64_quads q1" out]
      overwrite_append [of a "b64_quads q0 @ b64_quads q1" "b64_quads q2" out]
      overwrite_append [of a "b64_quads q0 @ b64_quads q1 @ b64_quads q2" "b64_quads q3" out]
    by (simp add: b64_quads lq)
  have ok: "b64_valid qs \<longleftrightarrow> b64_valid q0 \<and> b64_valid q1 \<and> b64_valid q2 \<and> b64_valid q3"
    by (simp add: qs)
  show ?thesis
    using assms(2) unfolding decode_chunk_32_def sl bind.bind_lunit
    by (auto simp: window_quads len lq ok ow length_quads assms(1))
qed

declare decode_unrolled.simps [simp del] decode_quads.simps [simp del]

lemma dec_upto_step:
  assumes "i mod 4 = 0" "i + n \<le> length input" "(i + n) div 4 * 3 \<le> length out"
  shows "overwrite (dec_upto input out i) (i div 4 * 3) (b64_quads (take n (drop i input))) = dec_upto input out (i + n)"
    and "length (dec_upto input out i) = length out"
proof -
  have len: "length (b64_quads (take i input)) = i div 4 * 3"
    using assms(2) by (simp add: length_quads)
  have n: "i div 4 * 3 + n div 4 * 3 = (i + n) div 4 * 3"
    using assms(1) by (simp add: mod_zero_div_add distrib_right)
  have split: "b64_quads (take (i + n) input) = b64_quads (take i input) @ b64_quads (take n (drop i input))"
    using assms(1,2) by (simp add: take_add quads_append)
  show "overwrite (dec_upto input out i) (i div 4 * 3) (b64_quads (take n (drop i input))) = dec_upto input out (i + n)"
    using overwrite_append [of 0 "b64_quads (take i input)" "b64_quads (take n (drop i input))" out]
      len n split assms by (simp add: dec_upto_def length_quads)
  show "length (dec_upto input out i) = length out"
    using n assms(3) len by (simp add: dec_upto_def)
qed

lemma decode_unrolled_ok:
  assumes "n mod 32 = 0" "n \<le> length input" "n div 4 * 3 \<le> length out"
    and "i mod 32 = 0" "i \<le> n"
  shows "\<exists>out'. decode_unrolled input n i (dec_upto input out i) =
      Some (if b64_valid (take (n - i) (drop i input)) then Some n else None, out') \<and>
      length out' = length out \<and>
      (b64_valid (take (n - i) (drop i input)) \<longrightarrow> out' = dec_upto input out n)"
  using assms(4,5)
proof (induction "n - i" arbitrary: i rule: less_induct)
  case less
  have i4: "i mod 4 = 0"
    using less.prems(1) dvd_trans [of 4 32 i] by (simp add: mod_0_imp_dvd)
  show ?case
  proof (cases "i < n")
    case True
    have step: "(i + 32) mod 32 = 0" "i + 32 \<le> n"
      using True less.prems assms(1) mod_zero_gap by simp_all
    let ?chunk = "take 32 (drop i input)"
    have room: "(i + 32) div 4 * 3 \<le> length out" "i div 4 * 3 + 24 = (i + 32) div 4 * 3"
      using div_le_mono [OF step(2), of 4] assms(3) mod_zero_div_add [OF i4, of 32] by simp_all
    note d = dec_upto_step [OF i4, of 32 input out]
    have chunk: "\<exists>o1. decode_chunk_32 ?chunk (dec_upto input out i) (i div 4 * 3) = Some (b64_valid ?chunk, o1) \<and>
      length o1 = length out \<and> (b64_valid ?chunk \<longrightarrow> o1 = dec_upto input out (i + 32))"
      using decode_chunk_32_ok [of ?chunk "i div 4 * 3" "dec_upto input out i"] d room step assms(2) by auto
    have "take (n - i) (drop i input) = ?chunk @ take (n - (i + 32)) (drop (i + 32) input)"
      using step take_add [of 32 "n - (i + 32)" "drop i input"] by (simp add: add.commute)
    with chunk less.hyps [of "i + 32"] step True show ?thesis
      using d room assms(2) by (subst decode_unrolled.simps) (auto simp: slice_in add.commute)
  next
    case False
    with less.prems show ?thesis
      using dec_upto_step(2) [OF i4, of 0 input out] assms by (subst decode_unrolled.simps) auto
  qed
qed

lemma decode_quads_ok:
  assumes "n mod 4 = 0" "n \<le> length input" "n div 4 * 3 \<le> length out"
    and "i mod 4 = 0" "i \<le> n"
  shows "\<exists>out'. decode_quads input n i (dec_upto input out i) =
      Some (b64_valid (take (n - i) (drop i input)), out') \<and> length out' = length out \<and>
      (b64_valid (take (n - i) (drop i input)) \<longrightarrow> out' = dec_upto input out n)"
  using assms(4,5)
proof (induction "n - i" arbitrary: i rule: less_induct)
  case less
  show ?case
  proof (cases "i < n")
    case True
    have step: "(i + 4) mod 4 = 0" "i + 4 \<le> n"
      using True less.prems assms(1) mod_zero_gap by simp_all
    let ?quad = "take 4 (drop i input)"
    have room: "(i + 4) div 4 * 3 \<le> length out" "i div 4 * 3 + 3 = (i + 4) div 4 * 3"
      using div_le_mono [OF step(2), of 4] assms(3) mod_zero_div_add [OF less.prems(1), of 4]
      by simp_all
    note d = dec_upto_step [OF less.prems(1), of 4 input out]
    have quad: "in_window (dec_upto input out i) (i div 4 * 3) (i div 4 * 3 + 3) (decode_chunk_4 ?quad) =
      Some (if b64_valid ?quad then Some (dec_upto input out (i + 4)) else None)"
      using window_4 [of "i div 4 * 3" "dec_upto input out i" ?quad] d room step assms(2)
      by (simp add: length_quads)
    have "take (n - i) (drop i input) = ?quad @ take (n - (i + 4)) (drop (i + 4) input)"
      using step take_add [of 4 "n - (i + 4)" "drop i input"] by (simp add: add.commute)
    with quad less.hyps [of "i + 4"] step True show ?thesis
      using d room assms(2) by (subst decode_quads.simps) (auto simp: slice_in add.commute)
  next
    case False
    with less.prems show ?thesis
      using dec_upto_step(2) [OF less.prems(1), of 0 input out] assms
      by (subst decode_quads.simps) auto
  qed
qed

lemma decoded_len_quads:
  assumes "length pre mod 4 = 0"
  shows "decoded_len (pre @ [a, b, c, d]) =
    Some (length pre div 4 * 3 + (if d = PAD then if c = PAD then 1 else 2 else 3))"
proof -
  have "(length pre + 4) div 4 = Suc (length pre div 4)" by presburger
  moreover have "(length pre + 4) mod 4 = 0" using assms by presburger
  ultimately show ?thesis by (auto simp: decoded_len_def Let_def)
qed

lemma decode_final_ok:
  assumes input: "input = pre @ [a, b, c, d]" and m: "length pre mod 4 = 0"
    and room: "the (decoded_len input) \<le> length out"
  shows "\<exists>out'. decode_final input (length pre) (overwrite out 0 (b64_quads pre)) =
      Some (map_option (\<lambda>bs. length (b64_quads pre) + length bs) (b64_decode [a, b, c, d]), out') \<and>
      length out' = length out \<and>
      (\<forall>bs. b64_decode [a, b, c, d] = Some bs \<longrightarrow> out' = overwrite out 0 (b64_quads pre @ bs))"
proof -
  have reads: "rd input (length pre) = Some a" "rd input (length pre + 1) = Some b"
    "rd input (length pre + 2) = Some c" "rd input (length pre + 3) = Some d"
    by (simp_all add: rd_def input nth_append)
  let ?o = "length pre div 4 * 3" and ?out = "overwrite out 0 (b64_quads pre)"
  have lq: "length (b64_quads pre) = ?o" by (simp add: length_quads)
  have need: "?o + (if d = PAD then if c = PAD then 1 else 2 else 3) \<le> length out"
    using room decoded_len_quads [OF m] input by simp
  have lo: "length ?out = length out" using need lq by (simp split: if_splits)
  have ow: "overwrite out 0 (b64_quads pre @ bs) = overwrite ?out ?o bs" if "?o + length bs \<le> length out" for bs
    using overwrite_append [of 0 "b64_quads pre" bs out] that lq by simp
  have w1: "overwrite ?out ?o [x] = ?out[?o := x]" if "?o < length out" for x
    using that lo wr_all_in [of ?o "[x]" ?out] by (simp add: wr_all.simps wr_in)
  have w2: "overwrite ?out ?o [x, y] = (?out[?o := x])[?o + 1 := y]" if "?o + 1 < length out" for x y
    using that lo wr_all_in [of ?o "[x, y]" ?out] by (simp add: wr_all.simps wr_in)
  have w3: "overwrite ?out ?o [x, y, z] = ((?out[?o := x])[?o + 1 := y])[?o + 2 := z]"
    if "?o + 2 < length out" for x y z
    using that lo wr_all_in [of ?o "[x, y, z]" ?out] by (simp add: wr_all.simps wr_in)
  show ?thesis
    using need
    unfolding decode_final_def reads rd_DECODE_TABLE bind.bind_lunit Let_def dec_eq_PADDING
    by (auto simp: wr_in lo lq ow w1 w2 w3 octets_def split: if_splits)
qed

lemma decode_outcome:
  "\<exists>out'. decode input out =
     Some (case decoded_len input of
             Some n \<Rightarrow> if n \<le> length out then map_option length (b64_decode input) else None
           | None \<Rightarrow> None, out') \<and> length out' = length out \<and>
     (\<forall>n bs. decoded_len input = Some n \<longrightarrow> n \<le> length out \<longrightarrow> b64_decode input = Some bs \<longrightarrow>
        out' = bs @ drop (length bs) out)"
proof (cases "input = [] \<or> decoded_len input = None \<or> length out < the (decoded_len input)")
  case True
  then show ?thesis by (auto simp: decode_def split: option.splits)
next
  case False
  then obtain n where n: "decoded_len input = Some n" "n \<le> length out" by auto
  define k where "k = length input - 4"
  have m: "length input mod 4 = 0" using n by (auto simp: decoded_len_def split: if_splits)
  have "0 < length input" using False by simp
  then have k: "k + 4 = length input" "k mod 4 = 0" using m k_def by presburger+
  obtain a b c d where abcd: "drop k input = [a, b, c, d]"
    using length_4 [of "drop k input"] k(1) [symmetric] by auto
  define pre where "pre = take k input"
  have input: "input = pre @ [a, b, c, d]" by (metis abcd append_take_drop_id pre_def)
  have lpre: "length pre = k" using k by (simp add: pre_def)
  define u where "u = k - k mod 32"
  have room: "k div 4 * 3 \<le> length out"
    using n decoded_len_quads [of pre a b c d] input lpre k(2) by (auto split: if_splits)
  have "32 dvd u" unfolding u_def by (rule dvd_minus_mod)
  then have u: "u mod 32 = 0" "u \<le> k" "u mod 4 = 0"
    using dvd_trans [of 4 32 u] by (simp_all add: u_def)
  have roomu: "u div 4 * 3 \<le> length out"
    using room div_le_mono [OF u(2), of 4] by simp
  have d0: "dec_upto input out 0 = out" by (simp add: dec_upto_def)
  obtain o1 where o1: "decode_unrolled input u 0 out =
      Some (if b64_valid (take u input) then Some u else None, o1)"
    "length o1 = length out" "b64_valid (take u input) \<longrightarrow> o1 = dec_upto input out u"
    using decode_unrolled_ok [OF u(1) _ roomu, of input 0] u(2) k(1) d0 by auto
  obtain o2 where o2: "decode_quads input k u (dec_upto input out u) =
      Some (b64_valid (take (k - u) (drop u input)), o2)"
    "length o2 = length out" "b64_valid (take (k - u) (drop u input)) \<longrightarrow> o2 = dec_upto input out k"
    using decode_quads_ok [OF k(2) _ room u(3,2), of input] k(1) by auto
  have ok: "b64_valid pre \<longleftrightarrow> b64_valid (take u input) \<and> b64_valid (take (k - u) (drop u input))"
    using take_add [of u "k - u" input] u(2) by (simp add: pre_def)
  obtain o3 where o3: "decode_final input k (overwrite out 0 (b64_quads pre)) =
      Some (map_option (\<lambda>bs. length (b64_quads pre) + length bs) (b64_decode [a, b, c, d]), o3)"
    "length o3 = length out"
    "\<forall>bs. b64_decode [a, b, c, d] = Some bs \<longrightarrow> o3 = overwrite out 0 (b64_quads pre @ bs)"
    using decode_final_ok [OF input _ , of out] lpre k n by auto
  have spec: "b64_decode input = (if b64_valid pre then map_option (append (b64_quads pre)) (b64_decode [a, b, c, d]) else None)"
    using b64_decode_split [of pre "[a, b, c, d]"] lpre k(2) input by simp
  have dk: "dec_upto input out k = overwrite out 0 (b64_quads pre)" by (simp add: dec_upto_def pre_def)
  show ?thesis
    using False n o1 o2 o3 ok spec dk
    by (cases "b64_valid (take u input)"; cases "b64_valid (take (k - u) (drop u input))")
      (auto simp: decode_def Let_def k_def [symmetric] u_def [symmetric] option.map_comp comp_def overwrite_def)
qed

text \<open>
  Decoding never panics, whatever the input and the buffer.  It reports a length
  exactly when the input is padded base64 that fits: the reported bytes are the reference
  decoding, written over the front of the buffer, the rest of which is untouched.  It reports
  failure exactly when the length or padding shape is wrong, the buffer is too small, or a
  character is outside the alphabet.
\<close>

theorem decode_total:
  "case decode input out of
     None \<Rightarrow> False
   | Some (Some n, out') \<Rightarrow>
       \<exists>bs. b64_decode input = Some bs \<and> n = length bs \<and> out' = bs @ drop n out
   | Some (None, out') \<Rightarrow> length out' = length out \<and>
       (decoded_len input = None \<or> length out < the (decoded_len input) \<or> b64_decode input = None)"
  using decode_outcome [of input out]
  by (cases "b64_decode input") (auto split: option.splits if_splits)

lemma b64_decode_length: "b64_decode ys = Some bs \<Longrightarrow> length ys mod 4 = 0"
proof (induction ys arbitrary: bs rule: b64_decode.induct)
  case (3 a b c d x xs)
  then obtain cs where "b64_decode (x # xs) = Some cs" by (auto split: if_splits)
  with 3 have "length (x # xs) mod 4 = 0" by (auto split: if_splits)
  then show ?case by (simp; presburger)
qed (auto split: if_splits)

lemma b64_decode_decoded_len:
  assumes "b64_decode ys = Some bs"
  shows "decoded_len ys = Some (length bs)"
proof (cases "ys = []")
  case True
  then show ?thesis using assms by (auto simp: decoded_len_def)
next
  case False
  have m: "length ys mod 4 = 0" using assms by (rule b64_decode_length)
  define k where "k = length ys - 4"
  have "0 < length ys" using False by simp
  then have k: "k + 4 = length ys" "k mod 4 = 0" using m k_def by presburger+
  obtain a b c d where abcd: "drop k ys = [a, b, c, d]"
    using length_4 [of "drop k ys"] k(1) [symmetric] by auto
  have ys: "ys = take k ys @ [a, b, c, d]" by (metis abcd append_take_drop_id)
  have lpre: "length (take k ys) mod 4 = 0" using k by simp
  have "b64_decode (take k ys @ [a, b, c, d]) = Some bs" using assms ys by simp
  then obtain cs where cs: "b64_decode [a, b, c, d] = Some cs" "bs = b64_quads (take k ys) @ cs"
    using b64_decode_split [OF lpre, of "[a, b, c, d]"] by (auto split: if_splits)
  then have "length cs = (if d = PAD then if c = PAD then 1 else 2 else 3)"
    by (auto split: if_splits)
  then show ?thesis
    using decoded_len_quads [OF lpre, of a b c d] ys cs(2) by (simp add: length_quads)
qed

section \<open>The codec contract\<close>

interpretation b64: buffered_codec b64_encode b64_decode encoded_len decoded_len encode decode
proof
  fix ys xs :: bytes and n and out :: bytes
  assume "decoded_len ys = Some n" "n \<le> length out" "b64_decode ys = Some xs"
  then show "decode ys out = Some (Some n, xs @ drop n out)"
    using decode_outcome [of ys out] b64_decode_decoded_len [of ys xs] by auto
next
  fix ys out :: bytes
  assume "b64_decode ys = None"
  then show "\<exists>out'. decode ys out = Some (None, out') \<and> length out' = length out"
    using decode_outcome [of ys out] by (auto split: option.splits if_splits)
qed (simp_all add: length_b64_encode b64_roundtrip b64_decode_decoded_len encode_outcome)

text \<open>
  Claim C12.  The optimised encoder (64-bit reads, four blocks per round, a pair table for the
  rest) computes standard padded base64: for every input it refuses a buffer shorter than
  \<open>encoded_len\<close> untouched, and otherwise writes the reference encoding over the front of the
  buffer, reports its length, and leaves the rest alone; no index is ever out of range.
\<close>

theorem encode_correct:
  "encode input output =
     Some (if length output < encoded_len (length input) then (None, output)
           else (Some (encoded_len (length input)),
                 b64_encode input @ drop (encoded_len (length input)) output))"
  by (rule encode_outcome)

text \<open>
  Claim C13.  Round trip through the two optimised routines: encoding any bytes into a buffer
  that is large enough and decoding the characters written gives the bytes back.
\<close>

theorem base64_roundtrip:
  assumes "encoded_len (length xs) \<le> length out" "length xs \<le> length out2"
  shows "\<exists>n out'. encode xs out = Some (Some n, out') \<and>
    decode (take n out') out2 = Some (Some (length xs), xs @ drop (length xs) out2)"
  using assms by (rule b64.through_buffers)

theorem base64_roundtrip_witness:
  "\<exists>n out'. encode [77, 97] (replicate 4 0) = Some (Some n, out') \<and>
    decode (take n out') [0, 0, 9] = Some (Some 2, [77, 97, 9])"
  using base64_roundtrip [of "[77, 97]" "replicate 4 0" "[0, 0, 9]"]
  by (simp add: encoded_len_def numeral_2_eq_2)

end
