(* ===== verification/Rand.thy ===== *)
theory Rand
  imports Prelude "HOL-Library.Multiset"
begin

text \<open>
  The deterministic generator of \<open>src/src/libs/agentdp-rand/src/lib.rs\<close>: the SplitMix64
  finalizer \<open>mix\<close>, seeds and their derivation by name, and the operations of
  \<open>DeterministicRng\<close>.  The generator's state is one 64-bit word, passed in and returned.  The
  rejection loop of \<open>below\<close> has no bound in the source, so it is a \<open>partial_function\<close>
  whose \<open>None\<close> is the loop that never returns; that it always returns is a theorem, and rests
  on \<open>mix\<close> being a bijection.
\<close>

section \<open>Seeds\<close>

definition mix :: "u64 \<Rightarrow> u64" where
  "mix value =
     (let value = (value XOR drop_bit 30 value) * 0xbf58476d1ce4e5b9;
          value = (value XOR drop_bit 27 value) * 0x94d049bb133111eb
      in value XOR drop_bit 31 value)"

datatype seed = Seed (seed_get: u64)

definition seed_derive :: "seed \<Rightarrow> bytes \<Rightarrow> seed" where
  "seed_derive s name =
     Seed (foldl (\<lambda>state byte. mix (state XOR ucast byte))
       (mix (seed_get s XOR 0x9e3779b97f4a7c15)) name)"

section \<open>The generator\<close>

record rng =
  state :: u64

definition rng_from_seed :: "seed \<Rightarrow> rng" where
  "rng_from_seed s = \<lparr>state = mix (seed_get s)\<rparr>"

definition rng_fork :: "rng \<Rightarrow> bytes \<Rightarrow> rng" where
  "rng_fork r name = rng_from_seed (seed_derive (Seed (state r)) name)"

definition next_u64 :: "rng \<Rightarrow> u64 \<times> rng" where
  "next_u64 r = (let r = r\<lparr>state := state r + 0x9e3779b97f4a7c15\<rparr> in (mix (state r), r))"

partial_function (option) below_loop :: "u64 \<Rightarrow> u64 \<Rightarrow> rng \<Rightarrow> (u64 \<times> rng) option" where
  "below_loop zone upper r =
     (case next_u64 r of (val, r) \<Rightarrow>
        if val < zone then Some (val mod upper, r) else below_loop zone upper r)"

definition below :: "rng \<Rightarrow> u64 \<Rightarrow> (u64 option \<times> rng) option" where
  "below r upper =
     (if upper = 0 then Some (None, r)
      else let zone = (- 1) - ((- 1) mod upper)
           in map_option (\<lambda>(v, r). (Some v, r)) (below_loop zone upper r))"

definition chance :: "rng \<Rightarrow> u64 \<Rightarrow> u64 \<Rightarrow> (bool \<times> rng) option" where
  "chance r numerator denominator =
     (if denominator = 0 then Some (False, r)
      else if denominator \<le> numerator then Some (True, r)
      else map_option (\<lambda>(v, r). (case v of Some val \<Rightarrow> val < numerator | None \<Rightarrow> False, r))
             (below r denominator))"

definition to_le_bytes :: "u64 \<Rightarrow> bytes" where
  "to_le_bytes w = map (\<lambda>i. ucast (drop_bit (8 * i) w)) [0..<8]"

text \<open>\<open>chunks_mut(8)\<close>: every chunk of the output is overwritten by a prefix of one draw.\<close>

function fill_bytes :: "rng \<Rightarrow> bytes \<Rightarrow> bytes \<times> rng" where
  "fill_bytes r output =
     (if output = [] then ([], r)
      else let chunk = take 8 output;
               (draw, r) = next_u64 r;
               (rest, r) = fill_bytes r (drop 8 output)
           in (take (length chunk) (to_le_bytes draw) @ rest, r))"
  by pat_completeness auto
termination
  by (relation "measure (\<lambda>(_, output). length output)") auto

definition list_swap :: "'a list \<Rightarrow> nat \<Rightarrow> nat \<Rightarrow> 'a list option" where
  "list_swap xs i j =
     (if i < length xs \<and> j < length xs then Some (xs[i := xs ! j, j := xs ! i]) else None)"

text \<open>The body of the loop of \<open>shuffle\<close>, and the loop over \<open>(1..len).rev()\<close>.\<close>

fun shuffle_loop :: "nat list \<Rightarrow> rng \<Rightarrow> 'a list \<Rightarrow> ('a list \<times> rng) option" where
  "shuffle_loop [] r values = Some (values, r)"
| "shuffle_loop (index # is) r values = do {
     (selected, r) \<leftarrow> below r (of_nat (index + 1));
     (case selected of
        None \<Rightarrow> shuffle_loop is r values
      | Some s \<Rightarrow> do {
          values \<leftarrow> list_swap values index (unat s);
          shuffle_loop is r values
        })
   }"

definition shuffle :: "rng \<Rightarrow> 'a list \<Rightarrow> ('a list \<times> rng) option" where
  "shuffle r values = shuffle_loop (rev [1..<length values]) r values"

definition choice :: "rng \<Rightarrow> 'a list \<Rightarrow> ('a option \<times> rng) option" where
  "choice r values = do {
     (i, r) \<leftarrow> below r (of_nat (length values));
     Some (case i of
             None \<Rightarrow> None
           | Some i \<Rightarrow> if unat i < length values then Some (values ! unat i) else None, r)
   }"

declare fill_bytes.simps [simp del]

section \<open>The finalizer is a bijection\<close>

lemma drop_bit_fixpoint:
  assumes "drop_bit k (z::u64) = z" "0 < k"
  shows "z = 0"
proof -
  have iter: "drop_bit (n * k) z = z" for n
  proof (induction n)
    case (Suc n)
    have "drop_bit (Suc n * k) z = drop_bit (n * k) (drop_bit k z)"
      by (simp add: drop_bit_drop_bit add.commute)
    then show ?case using Suc assms(1) by simp
  qed simp
  have "64 \<le> 64 * k" using assms(2) by simp
  then have "drop_bit (64 * k) z = 0"
    by (intro bit_word_eqI) (auto simp: bit_drop_bit_eq dest: bit_imp_le_length)
  then show ?thesis using iter [of 64] by simp
qed

lemma xorshift_inj:
  assumes "0 < k"
  shows "inj (\<lambda>x::u64. x XOR drop_bit k x)"
proof (rule injI)
  fix x y :: u64
  assume eq: "x XOR drop_bit k x = y XOR drop_bit k y"
  have "bit (drop_bit k (x XOR y)) n = bit (x XOR y) n" for n
    using arg_cong [OF eq, of "\<lambda>w. bit w n"] by (auto simp: bit_drop_bit_eq bit_xor_iff)
  then have "drop_bit k (x XOR y) = x XOR y" by (intro bit_eqI)
  then have z: "x XOR y = 0" using assms by (rule drop_bit_fixpoint)
  have "bit x n = bit y n" for n
    using arg_cong [OF z, of "\<lambda>w. bit w n"] by (simp add: bit_xor_iff)
  then show "x = y" by (intro bit_eqI)
qed

lemma mult_inj:
  assumes "c * d = (1::u64)"
  shows "inj (\<lambda>x. x * c)"
proof (rule injI)
  fix x y :: u64
  assume "x * c = y * c"
  then have "x * c * d = y * c * d" by simp
  then show "x = y" using assms by (simp add: mult.assoc)
qed

lemma mix_inj: "inj mix"
proof -
  have eq: "mix = (\<lambda>x. x XOR drop_bit 31 x) \<circ> (\<lambda>x. x * 0x94d049bb133111eb) \<circ>
      (\<lambda>x. x XOR drop_bit 27 x) \<circ> (\<lambda>x. x * 0xbf58476d1ce4e5b9) \<circ> (\<lambda>x. x XOR drop_bit 30 x)"
    by (simp add: fun_eq_iff mix_def Let_def)
  have "inj (\<lambda>x::u64. x * 0x94d049bb133111eb)"
    by (rule mult_inj [where d = "0x319642b2d24d8ec3"]) simp
  moreover have "inj (\<lambda>x::u64. x * 0xbf58476d1ce4e5b9)"
    by (rule mult_inj [where d = "0x96de1b173f119089"]) simp
  ultimately show ?thesis
    unfolding eq by (intro inj_compose xorshift_inj) simp_all
qed

lemma mix_surj: "surj mix"
  by (rule finite_UNIV_inj_surj [OF finite mix_inj])

section \<open>The rejection loop returns\<close>

text \<open>The \<open>n\<close>-th state after \<open>r\<close>; every word is the state of some later draw.\<close>

lemma gamma_steps: "\<exists>n. state r + of_nat (Suc n) * 0x9e3779b97f4a7c15 = w"
proof -
  define t where "t = (w - state r) * 0xf1de83e19937733d - 1"
  have "of_nat (Suc (unat t)) = (w - state r) * (0xf1de83e19937733d :: u64)"
    by (simp add: t_def)
  moreover have "(0xf1de83e19937733d :: u64) * 0x9e3779b97f4a7c15 = 1" by simp
  ultimately have "of_nat (Suc (unat t)) * (0x9e3779b97f4a7c15 :: u64) = w - state r"
    by (simp only: mult.assoc mult_1_right)
  then show ?thesis by (intro exI [of _ "unat t"]) simp
qed

lemma below_loop_reaches:
  assumes "mix (state r + of_nat (Suc n) * 0x9e3779b97f4a7c15) < zone"
  shows "\<exists>v r'. below_loop zone upper r = Some (v mod upper, r') \<and> v < zone"
  using assms
proof (induction n arbitrary: r)
  case 0
  then show ?case
    by (subst below_loop.simps) (auto simp: next_u64_def)
next
  case (Suc n)
  let ?r = "snd (next_u64 r)"
  have "state ?r + of_nat (Suc n) * 0x9e3779b97f4a7c15 =
      state r + of_nat (Suc (Suc n)) * 0x9e3779b97f4a7c15"
    by (simp add: next_u64_def Let_def algebra_simps)
  then have "mix (state ?r + of_nat (Suc n) * 0x9e3779b97f4a7c15) < zone"
    using Suc.prems by (simp only:)
  then have "\<exists>v r'. below_loop zone upper ?r = Some (v mod upper, r') \<and> v < zone"
    by (rule Suc.IH)
  then show ?case
    by (subst below_loop.simps) (auto simp: split_beta)
qed

lemma zone_positive:
  assumes "upper \<noteq> (0::u64)"
  shows "0 < (- 1 :: u64) - (- 1) mod upper"
proof -
  have "(- 1 :: u64) mod upper < upper"
    using assms by (simp add: word_mod_less_divisor word_gt_0)
  moreover have "upper \<le> - 1" by (rule word_n1_ge)
  ultimately have "(- 1 :: u64) mod upper \<noteq> - 1" by auto
  then show ?thesis by (simp add: word_gt_0)
qed

lemma below_returns:
  assumes "upper \<noteq> 0"
  shows "\<exists>v r'. below r upper = Some (Some v, r') \<and> v < upper"
proof -
  obtain w where w: "mix w = 0" using mix_surj by (metis surjD)
  obtain n where "state r + of_nat (Suc n) * 0x9e3779b97f4a7c15 = w"
    using gamma_steps by blast
  then have "mix (state r + of_nat (Suc n) * 0x9e3779b97f4a7c15) < - 1 - (- 1) mod upper"
    using w zone_positive [OF assms] by simp
  from below_loop_reaches [OF this, of upper] show ?thesis
    using assms by (auto simp: below_def Let_def word_mod_less_divisor word_gt_0)
qed

text \<open>
  \<open>DeterministicRng::below\<close> always returns, whatever the state of the generator: with
  bound 0 it answers \<open>None\<close> and draws nothing, with any other bound it answers a value below
  the bound.
\<close>

theorem below_total:
  "\<exists>r'. below r upper = Some (None, r') \<and> upper = 0 \<and> r' = r \<or>
     (\<exists>v. below r upper = Some (Some v, r') \<and> v < upper)"
proof (cases "upper = 0")
  case True
  then show ?thesis by (simp add: below_def)
next
  case False
  then show ?thesis using below_returns by blast
qed

section \<open>Operations on slices\<close>

lemma length_fill_bytes: "length (fst (fill_bytes r xs)) = length xs"
proof (induction r xs rule: fill_bytes.induct)
  case (1 r xs)
  show ?case
  proof (cases "xs = []")
    case False
    obtain d r1 where n: "next_u64 r = (d, r1)" by (cases "next_u64 r")
    have "length (fst (fill_bytes r1 (drop 8 xs))) = length (drop 8 xs)"
      using "1.IH" [OF False refl refl n [symmetric]] .
    with False n show ?thesis
      by (subst fill_bytes.simps) (auto simp: split_beta Let_def to_le_bytes_def)
  qed (simp add: fill_bytes.simps)
qed

lemma list_swap_mset: "list_swap xs i j = Some ys \<Longrightarrow> mset ys = mset xs"
  by (auto simp: list_swap_def mset_swap split: if_splits)

lemma shuffle_loop_ok:
  assumes "\<forall>i\<in>set is. i < length xs" "length xs < 2 ^ 64"
  shows "\<exists>ys r'. shuffle_loop is r xs = Some (ys, r') \<and> mset ys = mset xs"
  using assms
proof (induction "is" arbitrary: r xs)
  case Nil
  then show ?case by simp
next
  case (Cons i "is")
  have small: "i + 1 < 2 ^ 64" using Cons.prems by auto
  then have idx: "unat (of_nat (i + 1) :: u64) = i + 1"
    by (intro unat_of_nat_small) simp
  then have "(of_nat (i + 1) :: u64) \<noteq> 0" by (metis add_is_0 one_neq_zero unsigned_0)
  then obtain v r' where v: "below r (of_nat (i + 1)) = Some (Some v, r')" "v < of_nat (i + 1)"
    using below_returns by blast
  then have "unat v < length xs"
    using idx Cons.prems(1) by (auto simp: word_less_nat_alt)
  then obtain ys where ys: "list_swap xs i (unat v) = Some ys"
    using Cons.prems(1) by (auto simp: list_swap_def)
  then have m: "mset ys = mset xs" by (rule list_swap_mset)
  then have "length ys = length xs" by (rule mset_eq_length)
  then obtain zs r'' where "shuffle_loop is r' ys = Some (zs, r'')" "mset zs = mset ys"
    using Cons.IH [of ys r'] Cons.prems by auto
  then show ?case using v ys m by simp
qed

text \<open>
  Shuffling a slice (of any length a \<open>usize\<close> can index) returns, never indexes out
  of range, and leaves a permutation of the slice.
\<close>

theorem shuffle_permutes:
  assumes "length xs < 2 ^ 64"
  shows "\<exists>ys r'. shuffle r xs = Some (ys, r') \<and> mset ys = mset xs"
  using shuffle_loop_ok [of "rev [1..<length xs]" xs r] assms by (simp add: shuffle_def)

theorem shuffle_permutes_witness:
  "\<exists>ys r'. shuffle (rng_from_seed (Seed 1)) [1, 2, 3 :: nat] = Some (ys, r') \<and> mset ys = {#1, 2, 3#}"
  using shuffle_permutes [of "[1, 2, 3 :: nat]" "rng_from_seed (Seed 1)"] by simp

end
