(* ===== verification/Channel.thy ===== *)
theory Channel
  imports Prelude
begin

text \<open>
  The contract the bounded single-consumer queues of \<open>src/src/libs/agentdp-ds\<close> share: the
  task-local \<open>local::spsc\<close> and \<open>local::inbox\<close> and the lock-free \<open>sync::spsc\<close>.  Their error
  enums have the same two constructors and are modelled once.  The locale states what the
  clients of the queues rely on; its theorem is that over any interleaving of sends and
  receives nothing is lost, duplicated or reordered.
\<close>

datatype 'a try_send_error = Full 'a | SendDisconnected 'a

datatype try_recv_error = Empty | RecvDisconnected

text \<open>
  A waker is known by the task it wakes; \<open>Waker::will_wake\<close> compares tasks.  The models keep
  the history of \<open>wake()\<close> calls in a field of their state.
\<close>

type_synonym waker = nat

datatype 'a queue_op = OpSend 'a | OpRecv

text \<open>
  Running a sequence of operations collects the values the queue accepted and the values it
  delivered.
\<close>

fun run_ops ::
  "('s \<Rightarrow> 'a \<Rightarrow> 's \<times> (unit, 'a try_send_error) result) \<Rightarrow> ('s \<Rightarrow> 's \<times> ('a, try_recv_error) result)
    \<Rightarrow> 'a queue_op list \<Rightarrow> 's \<Rightarrow> 's \<times> 'a list \<times> 'a list" where
  "run_ops send recv [] s = (s, [], [])"
| "run_ops send recv (OpSend v # ops) s =
     (case send s v of (s', r) \<Rightarrow>
      case run_ops send recv ops s' of (t, accepted, delivered) \<Rightarrow>
        (t, (if is_ok r then v # accepted else accepted), delivered))"
| "run_ops send recv (OpRecv # ops) s =
     (case recv s of (s', r) \<Rightarrow>
      case run_ops send recv ops s' of (t, accepted, delivered) \<Rightarrow>
        (t, accepted, (case r of Ok v \<Rightarrow> v # delivered | Err _ \<Rightarrow> delivered)))"

locale bounded_channel =
  fixes queued :: "'s \<Rightarrow> 'a list"
    and capacity :: "'s \<Rightarrow> nat"
    and invar :: "'s \<Rightarrow> bool"
    and send :: "'s \<Rightarrow> 'a \<Rightarrow> 's \<times> (unit, 'a try_send_error) result"
    and recv :: "'s \<Rightarrow> 's \<times> ('a, try_recv_error) result"
  assumes within_capacity: "invar s \<Longrightarrow> length (queued s) \<le> capacity s"
    and send_invar: "invar s \<Longrightarrow> send s v = (s', r) \<Longrightarrow> invar s' \<and> capacity s' = capacity s"
    and recv_invar: "invar s \<Longrightarrow> recv s = (s', rr) \<Longrightarrow> invar s' \<and> capacity s' = capacity s"
    and send_ok: "invar s \<Longrightarrow> send s v = (s', Ok ()) \<Longrightarrow> queued s' = queued s @ [v]"
    and send_err: "invar s \<Longrightarrow> send s v = (s', Err e) \<Longrightarrow> queued s' = queued s"
    and send_full: "invar s \<Longrightarrow> send s v = (s', Err (Full w)) \<Longrightarrow>
      w = v \<and> length (queued s) = capacity s"
    and recv_ok: "invar s \<Longrightarrow> recv s = (s', Ok v) \<Longrightarrow> queued s = v # queued s'"
    and recv_err: "invar s \<Longrightarrow> recv s = (s', Err re) \<Longrightarrow> queued s = [] \<and> queued s' = []"
begin

lemma send_step:
  assumes "invar s" "send s v = (s', r)"
  shows "queued s' = queued s @ (if is_ok r then [v] else [])"
proof (cases r)
  case (Ok u)
  then show ?thesis using assms send_ok [of s v s'] by (cases u) auto
next
  case (Err e)
  then show ?thesis using assms send_err [of s v s' e] by simp
qed

lemma recv_step:
  assumes "invar s" "recv s = (s', r)"
  shows "queued s = (case r of Ok v \<Rightarrow> [v] | Err _ \<Rightarrow> []) @ queued s'"
  using assms recv_ok [of s s'] recv_err [of s s'] by (cases r) auto

text \<open>What was queued and what was accepted is what was delivered and what is left.\<close>

lemma fifo:
  assumes "invar s" "run_ops send recv ops s = (t, accepted, delivered)"
  shows "queued s @ accepted = delivered @ queued t \<and> invar t \<and> capacity t = capacity s"
  using assms
proof (induction ops arbitrary: s accepted delivered)
  case Nil
  then show ?case by simp
next
  case (Cons x xs)
  show ?case
  proof (cases x)
    case (OpSend v)
    obtain s' r where sr: "send s v = (s', r)" by (cases "send s v")
    obtain a d where run: "run_ops send recv xs s' = (t, a, d)"
      using Cons.prems(2) OpSend sr by (auto split: prod.splits)
    have "invar s'" "capacity s' = capacity s" using send_invar [OF Cons.prems(1) sr] by simp_all
    with Cons.IH [OF _ run] send_step [OF Cons.prems(1) sr] Cons.prems(2) OpSend sr run
    show ?thesis by auto
  next
    case OpRecv
    obtain s' r where sr: "recv s = (s', r)" by (cases "recv s")
    obtain a d where run: "run_ops send recv xs s' = (t, a, d)"
      using Cons.prems(2) OpRecv sr by (auto split: prod.splits)
    have "invar s'" "capacity s' = capacity s" using recv_invar [OF Cons.prems(1) sr] by simp_all
    with Cons.IH [OF _ run] recv_step [OF Cons.prems(1) sr] Cons.prems(2) OpRecv sr run
    show ?thesis by (cases r) auto
  qed
qed

lemma bounded:
  assumes "invar s" "run_ops send recv ops s = (t, accepted, delivered)"
  shows "length (queued t) \<le> capacity s"
  using fifo [OF assms] within_capacity [of t] by simp

end

end
