(* ===== verification/LocalSpsc.thy ===== *)
theory LocalSpsc
  imports Channel
begin

text \<open>
  The task-local bounded channel of \<open>src/src/libs/agentdp-ds/src/local/spsc.rs\<close>.  The two
  handles share one \<open>Inner\<close>; the model's record is that \<open>Inner\<close>, together with whether each
  handle still holds it (\<open>Sender::inner\<close>, \<open>Receiver::inner\<close>) and the history of \<open>wake()\<close>
  calls.  The futures returned by \<open>send\<close> and \<open>recv\<close> are their \<open>poll\<close> functions; a \<open>Send\<close>
  future's own state is the value it still has to send.
\<close>

section \<open>State\<close>

record 'a spsc =
  spsc_queue :: "'a list"
  spsc_capacity :: nat
  spsc_sender_alive :: bool
  spsc_receiver_alive :: bool
  spsc_sender_waker :: "waker option"
  spsc_receiver_waker :: "waker option"
  spsc_sender_inner :: bool
  spsc_receiver_inner :: bool
  spsc_woken :: "waker list"

definition spsc_bounded :: "nat \<Rightarrow> 'a spsc" where
  "spsc_bounded capacity = \<lparr>
     spsc_queue = [],
     spsc_capacity = max capacity 1,
     spsc_sender_alive = True,
     spsc_receiver_alive = True,
     spsc_sender_waker = None,
     spsc_receiver_waker = None,
     spsc_sender_inner = True,
     spsc_receiver_inner = True,
     spsc_woken = []\<rparr>"

section \<open>Wakers\<close>

definition spsc_wake_sender :: "'a spsc \<Rightarrow> 'a spsc" where
  "spsc_wake_sender s =
     (case spsc_sender_waker s of
        None \<Rightarrow> s
      | Some w \<Rightarrow> s\<lparr>spsc_sender_waker := None, spsc_woken := spsc_woken s @ [w]\<rparr>)"

definition spsc_wake_receiver :: "'a spsc \<Rightarrow> 'a spsc" where
  "spsc_wake_receiver s =
     (case spsc_receiver_waker s of
        None \<Rightarrow> s
      | Some w \<Rightarrow> s\<lparr>spsc_receiver_waker := None, spsc_woken := spsc_woken s @ [w]\<rparr>)"

definition spsc_sender_register_waker :: "waker \<Rightarrow> 'a spsc \<Rightarrow> 'a spsc" where
  "spsc_sender_register_waker w s =
     (if spsc_sender_inner s then s\<lparr>spsc_sender_waker := Some w\<rparr> else s)"

definition spsc_receiver_register_waker :: "waker \<Rightarrow> 'a spsc \<Rightarrow> 'a spsc" where
  "spsc_receiver_register_waker w s =
     (if spsc_receiver_inner s then s\<lparr>spsc_receiver_waker := Some w\<rparr> else s)"

section \<open>Sending\<close>

definition spsc_try_send :: "'a spsc \<Rightarrow> 'a \<Rightarrow> 'a spsc \<times> (unit, 'a try_send_error) result" where
  "spsc_try_send s val =
     (if \<not> spsc_sender_inner s then (s, Err (SendDisconnected val))
      else if \<not> spsc_receiver_alive s then (s, Err (SendDisconnected val))
      else if length (spsc_queue s) = spsc_capacity s then (s, Err (Full val))
      else (spsc_wake_receiver (s\<lparr>spsc_queue := spsc_queue s @ [val]\<rparr>), Ok ()))"

definition spsc_sender_drop :: "'a spsc \<Rightarrow> 'a spsc" where
  "spsc_sender_drop s =
     (if \<not> spsc_sender_inner s then s
      else spsc_wake_receiver (s\<lparr>spsc_sender_inner := False, spsc_sender_alive := False\<rparr>))"

definition spsc_send_poll ::
  "waker \<Rightarrow> 'a spsc \<times> 'a option \<Rightarrow> ('a spsc \<times> 'a option) \<times> (unit, 'a try_send_error) result poll" where
  "spsc_send_poll cx sf =
     (case sf of (s, future) \<Rightarrow>
      case future of
        None \<Rightarrow> ((s, None), Ready (Ok ()))
      | Some val \<Rightarrow>
         (case spsc_try_send s val of
            (s, Ok _) \<Rightarrow> ((s, None), Ready (Ok ()))
          | (s, Err (SendDisconnected val)) \<Rightarrow> ((s, None), Ready (Err (SendDisconnected val)))
          | (s, Err (Full val)) \<Rightarrow>
             (case spsc_try_send (spsc_sender_register_waker cx s) val of
                (s, Ok _) \<Rightarrow> ((s, None), Ready (Ok ()))
              | (s, Err (SendDisconnected val)) \<Rightarrow> ((s, None), Ready (Err (SendDisconnected val)))
              | (s, Err (Full val)) \<Rightarrow> ((s, Some val), Pending))))"

section \<open>Receiving\<close>

definition spsc_try_recv :: "'a spsc \<Rightarrow> 'a spsc \<times> ('a, try_recv_error) result" where
  "spsc_try_recv s =
     (if \<not> spsc_receiver_inner s then (s, Err RecvDisconnected)
      else case spsc_queue s of
        val # rest \<Rightarrow> (spsc_wake_sender (s\<lparr>spsc_queue := rest\<rparr>), Ok val)
      | [] \<Rightarrow> (s, Err (if spsc_sender_alive s then Empty else RecvDisconnected)))"

text \<open>\<open>drain\<close> hands every queued value to the callback; the model returns them in order.\<close>

definition spsc_drain :: "'a spsc \<Rightarrow> 'a spsc \<times> 'a list \<times> nat" where
  "spsc_drain s =
     (if \<not> spsc_receiver_inner s then (s, [], 0)
      else let drained = length (spsc_queue s);
               received = spsc_queue s;
               s = s\<lparr>spsc_queue := []\<rparr>
           in (if drained > 0 then spsc_wake_sender s else s, received, drained))"

definition spsc_receiver_drop :: "'a spsc \<Rightarrow> 'a spsc" where
  "spsc_receiver_drop s =
     (if \<not> spsc_receiver_inner s then s
      else spsc_wake_sender
             (s\<lparr>spsc_receiver_inner := False, spsc_receiver_alive := False, spsc_queue := []\<rparr>))"

definition spsc_recv_poll ::
  "waker \<Rightarrow> 'a spsc \<Rightarrow> 'a spsc \<times> ('a, try_recv_error) result poll" where
  "spsc_recv_poll cx s =
     (case spsc_try_recv s of
        (s, Ok val) \<Rightarrow> (s, Ready (Ok val))
      | (s, Err RecvDisconnected) \<Rightarrow> (s, Ready (Err RecvDisconnected))
      | (s, Err Empty) \<Rightarrow>
         (case spsc_try_recv (spsc_receiver_register_waker cx s) of
            (s, Ok val) \<Rightarrow> (s, Ready (Ok val))
          | (s, Err RecvDisconnected) \<Rightarrow> (s, Ready (Err RecvDisconnected))
          | (s, Err Empty) \<Rightarrow> (s, Pending)))"

section \<open>Executions\<close>

text \<open>
  One step is one call through a handle.  The receiver's parked task and the sender's parked
  task may be polled again at any time, by any waker.
\<close>

inductive spsc_step :: "'a spsc \<Rightarrow> 'a spsc \<Rightarrow> bool" where
  step_try_send: "spsc_step s (fst (spsc_try_send s v))"
| step_send_poll: "spsc_step s (fst (fst (spsc_send_poll w (s, future))))"
| step_sender_drop: "spsc_step s (spsc_sender_drop s)"
| step_try_recv: "spsc_step s (fst (spsc_try_recv s))"
| step_recv_poll: "spsc_step s (fst (spsc_recv_poll w s))"
| step_drain: "spsc_step s (fst (spsc_drain s))"
| step_receiver_drop: "spsc_step s (spsc_receiver_drop s)"

inductive spsc_reachable :: "'a spsc \<Rightarrow> bool" where
  spsc_start: "spsc_reachable (spsc_bounded n)"
| spsc_next: "spsc_reachable s \<Longrightarrow> spsc_step s t \<Longrightarrow> spsc_reachable t"

text \<open>
  The invariant: the queue respects its capacity, the alive flags mirror the handles, and a
  parked task has a reason to be parked.
\<close>

definition spsc_invar :: "'a spsc \<Rightarrow> bool" where
  "spsc_invar s \<longleftrightarrow>
     1 \<le> spsc_capacity s \<and> length (spsc_queue s) \<le> spsc_capacity s \<and>
     spsc_sender_alive s = spsc_sender_inner s \<and>
     spsc_receiver_alive s = spsc_receiver_inner s \<and>
     (\<not> spsc_receiver_alive s \<longrightarrow> spsc_queue s = []) \<and>
     (spsc_receiver_waker s \<noteq> None \<longrightarrow>
        spsc_queue s = [] \<and> spsc_sender_alive s) \<and>
     (spsc_sender_waker s \<noteq> None \<longrightarrow>
        length (spsc_queue s) = spsc_capacity s \<and> spsc_receiver_alive s)"

section \<open>The invariant holds in every reachable state\<close>

lemmas spsc_ops =
  spsc_try_send_def spsc_sender_drop_def spsc_try_recv_def spsc_drain_def spsc_receiver_drop_def
  spsc_wake_sender_def spsc_wake_receiver_def spsc_sender_register_waker_def
  spsc_receiver_register_waker_def

lemma spsc_invar_bounded: "spsc_invar (spsc_bounded n)"
  by (simp add: spsc_invar_def spsc_bounded_def)

lemma spsc_try_send_invar: "spsc_invar s \<Longrightarrow> spsc_invar (fst (spsc_try_send s v))"
  by (auto simp: spsc_invar_def spsc_ops split: option.splits)

lemma spsc_sender_drop_invar: "spsc_invar s \<Longrightarrow> spsc_invar (spsc_sender_drop s)"
  by (auto simp: spsc_invar_def spsc_ops split: option.splits)

lemma spsc_try_recv_invar: "spsc_invar s \<Longrightarrow> spsc_invar (fst (spsc_try_recv s))"
  by (auto simp: spsc_invar_def spsc_ops split: option.splits list.splits)

lemma spsc_drain_invar: "spsc_invar s \<Longrightarrow> spsc_invar (fst (spsc_drain s))"
  by (auto simp: spsc_invar_def spsc_ops Let_def split: option.splits)

lemma spsc_receiver_drop_invar: "spsc_invar s \<Longrightarrow> spsc_invar (spsc_receiver_drop s)"
  by (auto simp: spsc_invar_def spsc_ops split: option.splits)

text \<open>
  Polling: registering the waker changes nothing the second attempt looks at, so a poll is
  either the first attempt's outcome or a parked task.
\<close>

lemma spsc_send_poll_cases:
  "spsc_send_poll w (s, future) =
     (case future of
        None \<Rightarrow> ((s, None), Ready (Ok ()))
      | Some v \<Rightarrow>
         (case spsc_try_send s v of
            (t, Err (Full u)) \<Rightarrow> ((s\<lparr>spsc_sender_waker := Some w\<rparr>, Some u), Pending)
          | (t, r) \<Rightarrow> ((t, None), Ready r)))"
proof (cases future)
  case (Some v)
  show ?thesis
    by (cases "spsc_sender_inner s"; cases "spsc_receiver_alive s";
        cases "length (spsc_queue s) = spsc_capacity s")
      (simp_all add: Some spsc_send_poll_def spsc_try_send_def spsc_sender_register_waker_def)
qed (simp add: spsc_send_poll_def)

lemma spsc_recv_poll_cases:
  "spsc_recv_poll w s =
     (case spsc_try_recv s of
        (t, Err Empty) \<Rightarrow> (s\<lparr>spsc_receiver_waker := Some w\<rparr>, Pending)
      | (t, r) \<Rightarrow> (t, Ready r))"
  by (cases "spsc_receiver_inner s"; cases "spsc_queue s"; cases "spsc_sender_alive s")
    (simp_all add: spsc_recv_poll_def spsc_try_recv_def spsc_receiver_register_waker_def)

lemma spsc_send_poll_invar: "spsc_invar s \<Longrightarrow> spsc_invar (fst (fst (spsc_send_poll w (s, future))))"
  using spsc_try_send_invar [of s "the future"]
  by (cases future; cases "spsc_sender_inner s"; cases "spsc_receiver_alive s";
      cases "length (spsc_queue s) = spsc_capacity s")
    (auto simp: spsc_send_poll_cases spsc_try_send_def spsc_invar_def)

lemma spsc_recv_poll_invar: "spsc_invar s \<Longrightarrow> spsc_invar (fst (spsc_recv_poll w s))"
  using spsc_try_recv_invar [of s]
  by (cases "spsc_receiver_inner s"; cases "spsc_queue s"; cases "spsc_sender_alive s")
    (auto simp: spsc_recv_poll_cases spsc_try_recv_def spsc_invar_def)

lemmas spsc_op_invars = spsc_try_send_invar spsc_sender_drop_invar spsc_try_recv_invar
  spsc_drain_invar spsc_receiver_drop_invar spsc_send_poll_invar spsc_recv_poll_invar

lemma spsc_step_invar: "spsc_step s t \<Longrightarrow> spsc_invar s \<Longrightarrow> spsc_invar t"
  by (induction rule: spsc_step.induct) (simp_all add: spsc_op_invars)

lemma spsc_reachable_invar: "spsc_reachable s \<Longrightarrow> spsc_invar s"
  by (induction rule: spsc_reachable.induct) (auto simp: spsc_invar_bounded intro: spsc_step_invar)

section \<open>First in, first out\<close>

interpretation lq: bounded_channel spsc_queue spsc_capacity spsc_invar spsc_try_send spsc_try_recv
proof
  fix s :: "'a spsc" and v s' r
  assume "spsc_invar s" "spsc_try_send s v = (s', r)"
  then show "spsc_invar s' \<and> spsc_capacity s' = spsc_capacity s"
    using spsc_try_send_invar [of s v] by (auto simp: spsc_ops split: option.splits if_splits)
next
  fix s :: "'a spsc" and s' r
  assume "spsc_invar s" "spsc_try_recv s = (s', r)"
  then show "spsc_invar s' \<and> spsc_capacity s' = spsc_capacity s"
    using spsc_try_recv_invar [of s] by (auto simp: spsc_ops split: option.splits if_splits list.splits)
qed (auto simp: spsc_invar_def spsc_ops split: option.splits if_splits list.splits)

section \<open>No lost wake-up\<close>

lemma spsc_step_wakes_receiver:
  assumes "spsc_step s t" "spsc_invar s" "spsc_receiver_waker s = Some w"
    and "spsc_queue t \<noteq> [] \<or> \<not> spsc_sender_alive t"
  shows "spsc_woken t = spsc_woken s @ [w]"
  using assms
  by (cases rule: spsc_step.cases)
    (auto simp: spsc_invar_def spsc_send_poll_cases spsc_recv_poll_cases spsc_ops Let_def
      split: option.splits if_splits list.splits result.splits try_send_error.splits)

lemma spsc_step_wakes_sender:
  assumes "spsc_step s t" "spsc_invar s" "spsc_sender_waker s = Some w"
    and "length (spsc_queue t) < spsc_capacity t \<or> \<not> spsc_receiver_alive t"
  shows "spsc_woken t = spsc_woken s @ [w]"
  using assms
  by (cases rule: spsc_step.cases)
    (auto simp: spsc_invar_def spsc_send_poll_cases spsc_recv_poll_cases spsc_ops Let_def
      split: option.splits if_splits list.splits result.splits try_send_error.splits)

text \<open>
  A parked task never sleeps through the event it waits for: in every reachable state a
  registered receiver finds the queue empty and the sender alive, a registered sender finds
  the queue full and the receiver alive, and the step that ends this condition calls
  \<open>wake()\<close> on exactly that task.
\<close>

definition spsc_parked_ok :: "'a spsc \<Rightarrow> 'a spsc \<Rightarrow> bool" where
  "spsc_parked_ok s t \<longleftrightarrow>
     (case spsc_receiver_waker s of
        None \<Rightarrow> True
      | Some w \<Rightarrow> spsc_queue s = [] \<and> spsc_sender_alive s \<and>
          (spsc_queue t = [] \<and> spsc_sender_alive t \<or> spsc_woken t = spsc_woken s @ [w])) \<and>
     (case spsc_sender_waker s of
        None \<Rightarrow> True
      | Some w \<Rightarrow> length (spsc_queue s) = spsc_capacity s \<and> spsc_receiver_alive s \<and>
          (length (spsc_queue t) = spsc_capacity t \<and> spsc_receiver_alive t \<or>
           spsc_woken t = spsc_woken s @ [w]))"

text \<open>
  Claim C14.  No lost wake-up on the task-local channel: along every execution, the step that
  makes a parked receiver's queue non-empty (or drops the sender), and the step that makes room
  for a parked sender (or drops the receiver), wakes that task.
\<close>

theorem spsc_no_lost_wakeup:
  assumes "spsc_reachable s" "spsc_step s t"
  shows "spsc_parked_ok s t"
proof -
  have inv: "spsc_invar s" "spsc_invar t"
    using assms spsc_reachable_invar spsc_step_invar by blast+
  have "length (spsc_queue t) = spsc_capacity t \<or> length (spsc_queue t) < spsc_capacity t"
    using inv(2) by (auto simp: spsc_invar_def)
  then show ?thesis
    using inv(1) spsc_step_wakes_receiver [OF assms(2) inv(1)] spsc_step_wakes_sender [OF assms(2) inv(1)]
    by (auto simp: spsc_parked_ok_def spsc_invar_def split: option.splits)
qed

definition spsc_demo_parked :: "nat spsc" where
  "spsc_demo_parked = fst (spsc_recv_poll 7 (spsc_bounded 2))"

theorem spsc_no_lost_wakeup_witness:
  "spsc_parked_ok spsc_demo_parked (fst (spsc_try_send spsc_demo_parked 5)) \<and>
   spsc_woken (fst (spsc_try_send spsc_demo_parked 5)) = [7]"
proof -
  have "spsc_reachable spsc_demo_parked"
    unfolding spsc_demo_parked_def by (rule spsc_next [OF spsc_start step_recv_poll])
  from spsc_no_lost_wakeup [OF this step_try_send [of _ 5]] show ?thesis
    by (simp add: spsc_demo_parked_def spsc_recv_poll_cases spsc_ops spsc_bounded_def)
qed

text \<open>
  Claim C15.  First in, first out with backpressure: over any interleaving of \<open>try_send\<close> and
  \<open>try_recv\<close> on a fresh channel, the accepted values are the delivered ones followed by the
  queued ones, in order, and the queue never holds more than \<open>capacity.max(1)\<close> values.
\<close>

theorem spsc_fifo:
  "case run_ops spsc_try_send spsc_try_recv ops (spsc_bounded capacity) of (t, accepted, delivered) \<Rightarrow>
     accepted = delivered @ spsc_queue t \<and> length (spsc_queue t) \<le> max capacity 1"
  using lq.fifo [OF spsc_invar_bounded, of ops capacity] lq.bounded [OF spsc_invar_bounded, of ops capacity]
  by (auto simp: spsc_bounded_def split: prod.splits)

end
