(* ===== verification/LocalInbox.thy ===== *)
theory LocalInbox
  imports Channel
begin

text \<open>
  The task-local many-producer inbox of \<open>src/src/libs/agentdp-ds/src/local/inbox.rs\<close>.  The
  record is the shared \<open>Inner\<close>, whether the receiver handle still holds it, and the history
  of \<open>wake()\<close> calls.  A sender handle exists as long as \<open>sender_count\<close> counts it, so an
  operation of a sender is a step only while the count is positive.
\<close>

section \<open>State\<close>

record 'a inbox =
  inbox_queue :: "'a list"
  inbox_capacity :: nat
  inbox_sender_count :: nat
  inbox_receiver_alive :: bool
  inbox_sender_wakers :: "waker list"
  inbox_receiver_waker :: "waker option"
  inbox_receiver_inner :: bool
  inbox_woken :: "waker list"

definition inbox_bounded :: "nat \<Rightarrow> 'a inbox" where
  "inbox_bounded capacity = \<lparr>
     inbox_queue = [],
     inbox_capacity = max capacity 1,
     inbox_sender_count = 1,
     inbox_receiver_alive = True,
     inbox_sender_wakers = [],
     inbox_receiver_waker = None,
     inbox_receiver_inner = True,
     inbox_woken = []\<rparr>"

section \<open>Wakers\<close>

definition inbox_take_sender_wakers :: "'a inbox \<Rightarrow> waker list \<times> 'a inbox" where
  "inbox_take_sender_wakers s = (inbox_sender_wakers s, s\<lparr>inbox_sender_wakers := []\<rparr>)"

definition inbox_take_receiver_waker :: "'a inbox \<Rightarrow> waker option \<times> 'a inbox" where
  "inbox_take_receiver_waker s = (inbox_receiver_waker s, s\<lparr>inbox_receiver_waker := None\<rparr>)"

definition inbox_wake :: "waker option \<Rightarrow> 'a inbox \<Rightarrow> 'a inbox" where
  "inbox_wake w s = (case w of None \<Rightarrow> s | Some w \<Rightarrow> s\<lparr>inbox_woken := inbox_woken s @ [w]\<rparr>)"

fun inbox_wake_all :: "waker list \<Rightarrow> 'a inbox \<Rightarrow> 'a inbox" where
  "inbox_wake_all [] s = s"
| "inbox_wake_all (w # ws) s = inbox_wake_all ws (s\<lparr>inbox_woken := inbox_woken s @ [w]\<rparr>)"

definition inbox_sender_register_waker :: "waker \<Rightarrow> 'a inbox \<Rightarrow> 'a inbox" where
  "inbox_sender_register_waker w s =
     (if w \<in> set (inbox_sender_wakers s) then s
      else s\<lparr>inbox_sender_wakers := inbox_sender_wakers s @ [w]\<rparr>)"

definition inbox_receiver_register_waker :: "waker \<Rightarrow> 'a inbox \<Rightarrow> 'a inbox" where
  "inbox_receiver_register_waker w s =
     (if inbox_receiver_inner s then s\<lparr>inbox_receiver_waker := Some w\<rparr> else s)"

section \<open>Sending\<close>

definition inbox_sender_clone :: "'a inbox \<Rightarrow> 'a inbox" where
  "inbox_sender_clone s = s\<lparr>inbox_sender_count := inbox_sender_count s + 1\<rparr>"

definition inbox_try_send :: "'a inbox \<Rightarrow> 'a \<Rightarrow> 'a inbox \<times> (unit, 'a try_send_error) result" where
  "inbox_try_send s val =
     (if \<not> inbox_receiver_alive s then (s, Err (SendDisconnected val))
      else if length (inbox_queue s) = inbox_capacity s then (s, Err (Full val))
      else case inbox_take_receiver_waker (s\<lparr>inbox_queue := inbox_queue s @ [val]\<rparr>) of
        (receiver, s) \<Rightarrow> (inbox_wake receiver s, Ok ()))"

definition inbox_sender_drop :: "'a inbox \<Rightarrow> 'a inbox" where
  "inbox_sender_drop s =
     (let s = s\<lparr>inbox_sender_count := inbox_sender_count s - 1\<rparr> in
      if inbox_sender_count s = 0 then
        (case inbox_take_receiver_waker s of (receiver, s) \<Rightarrow> inbox_wake receiver s)
      else s)"

definition inbox_send_poll ::
  "waker \<Rightarrow> 'a inbox \<times> 'a option \<Rightarrow> ('a inbox \<times> 'a option) \<times> (unit, 'a try_send_error) result poll" where
  "inbox_send_poll cx sf =
     (case sf of (s, future) \<Rightarrow>
      case future of
        None \<Rightarrow> ((s, None), Ready (Ok ()))
      | Some val \<Rightarrow>
         (case inbox_try_send s val of
            (s, Ok _) \<Rightarrow> ((s, None), Ready (Ok ()))
          | (s, Err (SendDisconnected val)) \<Rightarrow> ((s, None), Ready (Err (SendDisconnected val)))
          | (s, Err (Full val)) \<Rightarrow>
             (case inbox_try_send (inbox_sender_register_waker cx s) val of
                (s, Ok _) \<Rightarrow> ((s, None), Ready (Ok ()))
              | (s, Err (SendDisconnected val)) \<Rightarrow> ((s, None), Ready (Err (SendDisconnected val)))
              | (s, Err (Full val)) \<Rightarrow> ((s, Some val), Pending))))"

section \<open>Receiving\<close>

definition inbox_try_recv :: "'a inbox \<Rightarrow> 'a inbox \<times> ('a, try_recv_error) result" where
  "inbox_try_recv s =
     (if \<not> inbox_receiver_inner s then (s, Err RecvDisconnected)
      else case inbox_queue s of
        val # rest \<Rightarrow>
          (case inbox_take_sender_wakers (s\<lparr>inbox_queue := rest\<rparr>) of
             (senders, s) \<Rightarrow> (inbox_wake_all senders s, Ok val))
      | [] \<Rightarrow> (s, Err (if inbox_sender_count s = 0 then RecvDisconnected else Empty)))"

definition inbox_drain :: "'a inbox \<Rightarrow> 'a inbox \<times> 'a list \<times> nat" where
  "inbox_drain s =
     (if \<not> inbox_receiver_inner s then (s, [], 0)
      else let drained = length (inbox_queue s);
               received = inbox_queue s;
               s = s\<lparr>inbox_queue := []\<rparr>
           in (if drained > 0 then
                 (case inbox_take_sender_wakers s of (senders, s) \<Rightarrow> inbox_wake_all senders s)
               else s, received, drained))"

definition inbox_receiver_drop :: "'a inbox \<Rightarrow> 'a inbox" where
  "inbox_receiver_drop s =
     (if \<not> inbox_receiver_inner s then s
      else case inbox_take_sender_wakers
             (s\<lparr>inbox_receiver_inner := False, inbox_receiver_alive := False, inbox_queue := []\<rparr>) of
        (senders, s) \<Rightarrow> inbox_wake_all senders s)"

definition inbox_recv_poll ::
  "waker \<Rightarrow> 'a inbox \<Rightarrow> 'a inbox \<times> ('a, try_recv_error) result poll" where
  "inbox_recv_poll cx s =
     (case inbox_try_recv s of
        (s, Ok val) \<Rightarrow> (s, Ready (Ok val))
      | (s, Err RecvDisconnected) \<Rightarrow> (s, Ready (Err RecvDisconnected))
      | (s, Err Empty) \<Rightarrow>
         (case inbox_try_recv (inbox_receiver_register_waker cx s) of
            (s, Ok val) \<Rightarrow> (s, Ready (Ok val))
          | (s, Err RecvDisconnected) \<Rightarrow> (s, Ready (Err RecvDisconnected))
          | (s, Err Empty) \<Rightarrow> (s, Pending)))"

section \<open>Executions\<close>

inductive inbox_step :: "'a inbox \<Rightarrow> 'a inbox \<Rightarrow> bool" where
  inbox_step_clone: "0 < inbox_sender_count s \<Longrightarrow> inbox_step s (inbox_sender_clone s)"
| inbox_step_try_send: "0 < inbox_sender_count s \<Longrightarrow> inbox_step s (fst (inbox_try_send s v))"
| inbox_step_send_poll: "0 < inbox_sender_count s \<Longrightarrow> inbox_step s (fst (fst (inbox_send_poll w (s, future))))"
| inbox_step_sender_drop: "0 < inbox_sender_count s \<Longrightarrow> inbox_step s (inbox_sender_drop s)"
| inbox_step_try_recv: "inbox_step s (fst (inbox_try_recv s))"
| inbox_step_recv_poll: "inbox_step s (fst (inbox_recv_poll w s))"
| inbox_step_drain: "inbox_step s (fst (inbox_drain s))"
| inbox_step_receiver_drop: "inbox_step s (inbox_receiver_drop s)"

inductive inbox_reachable :: "'a inbox \<Rightarrow> bool" where
  inbox_start: "inbox_reachable (inbox_bounded n)"
| inbox_next: "inbox_reachable s \<Longrightarrow> inbox_step s t \<Longrightarrow> inbox_reachable t"

text \<open>
  The invariant: bounded occupancy, a receiver that is alive exactly while its handle is, a
  set of parked senders without duplicates, and a reason to be parked for every parked task.
\<close>

definition inbox_invar :: "'a inbox \<Rightarrow> bool" where
  "inbox_invar s \<longleftrightarrow>
     1 \<le> inbox_capacity s \<and> length (inbox_queue s) \<le> inbox_capacity s \<and>
     inbox_receiver_alive s = inbox_receiver_inner s \<and>
     (\<not> inbox_receiver_alive s \<longrightarrow> inbox_queue s = []) \<and>
     distinct (inbox_sender_wakers s) \<and>
     (inbox_receiver_waker s \<noteq> None \<longrightarrow> inbox_queue s = [] \<and> 0 < inbox_sender_count s) \<and>
     (inbox_sender_wakers s \<noteq> [] \<longrightarrow>
        length (inbox_queue s) = inbox_capacity s \<and> inbox_receiver_alive s)"

text \<open>
  What a step owes the parked tasks: the receiver is woken when a value arrives or the last
  sender goes, every parked sender when room appears or the receiver goes.
\<close>

definition inbox_parked_ok :: "'a inbox \<Rightarrow> 'a inbox \<Rightarrow> bool" where
  "inbox_parked_ok s t \<longleftrightarrow>
     (case inbox_receiver_waker s of
        None \<Rightarrow> True
      | Some w \<Rightarrow> inbox_queue s = [] \<and> 0 < inbox_sender_count s \<and>
          (inbox_queue t = [] \<and> 0 < inbox_sender_count t \<or> inbox_woken t = inbox_woken s @ [w])) \<and>
     (case inbox_sender_wakers s of
        [] \<Rightarrow> True
      | ws \<Rightarrow> length (inbox_queue s) = inbox_capacity s \<and> inbox_receiver_alive s \<and>
          (length (inbox_queue t) = inbox_capacity t \<and> inbox_receiver_alive t \<or>
           inbox_woken t = inbox_woken s @ ws))"

section \<open>The invariant holds in every reachable state\<close>

lemma inbox_wake_all_eq [simp]: "inbox_wake_all ws s = s\<lparr>inbox_woken := inbox_woken s @ ws\<rparr>"
  by (induction ws arbitrary: s) simp_all

lemmas inbox_wakes = inbox_take_sender_wakers_def inbox_take_receiver_waker_def inbox_wake_def

lemmas inbox_ops =
  inbox_try_send_def inbox_sender_drop_def inbox_try_recv_def inbox_drain_def
  inbox_receiver_drop_def inbox_sender_clone_def inbox_wakes Let_def

lemma inbox_invar_bounded: "inbox_invar (inbox_bounded n)"
  by (simp add: inbox_invar_def inbox_bounded_def)

lemma inbox_clone_invar: "0 < inbox_sender_count s \<Longrightarrow> inbox_invar s \<Longrightarrow> inbox_invar (inbox_sender_clone s)"
  by (auto simp: inbox_invar_def inbox_ops)

lemma inbox_try_send_invar: "inbox_invar s \<Longrightarrow> inbox_invar (fst (inbox_try_send s v))"
  by (auto simp: inbox_invar_def inbox_ops split: option.splits)

lemma inbox_sender_drop_invar: "inbox_invar s \<Longrightarrow> inbox_invar (inbox_sender_drop s)"
  by (auto simp: inbox_invar_def inbox_ops split: option.splits)

lemma inbox_try_recv_invar: "inbox_invar s \<Longrightarrow> inbox_invar (fst (inbox_try_recv s))"
  by (auto simp: inbox_invar_def inbox_ops split: list.splits)

lemma inbox_drain_invar: "inbox_invar s \<Longrightarrow> inbox_invar (fst (inbox_drain s))"
  by (auto simp: inbox_invar_def inbox_ops)

lemma inbox_receiver_drop_invar: "inbox_invar s \<Longrightarrow> inbox_invar (inbox_receiver_drop s)"
  by (auto simp: inbox_invar_def inbox_ops)

lemma inbox_send_poll_cases:
  "inbox_send_poll w (s, future) =
     (case future of
        None \<Rightarrow> ((s, None), Ready (Ok ()))
      | Some v \<Rightarrow>
         (case inbox_try_send s v of
            (t, Err (Full u)) \<Rightarrow> ((inbox_sender_register_waker w s, Some u), Pending)
          | (t, r) \<Rightarrow> ((t, None), Ready r)))"
proof (cases future)
  case (Some v)
  show ?thesis
    by (cases "inbox_receiver_alive s"; cases "length (inbox_queue s) = inbox_capacity s")
      (simp_all add: Some inbox_send_poll_def inbox_try_send_def inbox_sender_register_waker_def inbox_wakes)
qed (simp add: inbox_send_poll_def)

lemma inbox_recv_poll_cases:
  "inbox_recv_poll w s =
     (case inbox_try_recv s of
        (t, Err Empty) \<Rightarrow> (s\<lparr>inbox_receiver_waker := Some w\<rparr>, Pending)
      | (t, r) \<Rightarrow> (t, Ready r))"
  by (cases "inbox_receiver_inner s"; cases "inbox_queue s"; cases "inbox_sender_count s")
    (simp_all add: inbox_recv_poll_def inbox_try_recv_def inbox_receiver_register_waker_def inbox_wakes)

lemma inbox_register_invar:
  "inbox_invar s \<Longrightarrow> length (inbox_queue s) = inbox_capacity s \<Longrightarrow> inbox_receiver_alive s \<Longrightarrow>
    inbox_invar (inbox_sender_register_waker w s)"
  by (auto simp: inbox_invar_def inbox_sender_register_waker_def)

lemma inbox_send_poll_invar: "inbox_invar s \<Longrightarrow> inbox_invar (fst (fst (inbox_send_poll w (s, future))))"
  using inbox_try_send_invar [of s "the future"]
  by (cases future; cases "inbox_receiver_alive s"; cases "length (inbox_queue s) = inbox_capacity s")
    (simp_all add: inbox_send_poll_cases inbox_try_send_def inbox_register_invar inbox_take_receiver_waker_def)

lemma inbox_recv_poll_invar: "inbox_invar s \<Longrightarrow> inbox_invar (fst (inbox_recv_poll w s))"
  using inbox_try_recv_invar [of s]
  by (cases "inbox_receiver_inner s"; cases "inbox_queue s"; cases "inbox_sender_count s")
    (auto simp: inbox_recv_poll_cases inbox_try_recv_def inbox_take_sender_wakers_def inbox_invar_def)

lemmas inbox_op_invars = inbox_try_send_invar inbox_sender_drop_invar inbox_try_recv_invar
  inbox_drain_invar inbox_receiver_drop_invar inbox_send_poll_invar inbox_recv_poll_invar inbox_clone_invar

lemma inbox_step_invar: "inbox_step s t \<Longrightarrow> inbox_invar s \<Longrightarrow> inbox_invar t"
  by (induction rule: inbox_step.induct) (simp_all add: inbox_op_invars)

lemma inbox_reachable_invar: "inbox_reachable s \<Longrightarrow> inbox_invar s"
  by (induction rule: inbox_reachable.induct) (auto simp: inbox_invar_bounded intro: inbox_step_invar)

section \<open>First in, first out\<close>

interpretation iq: bounded_channel inbox_queue inbox_capacity inbox_invar inbox_try_send inbox_try_recv
proof
  fix s :: "'a inbox" and v s' r
  assume "inbox_invar s" "inbox_try_send s v = (s', r)"
  then show "inbox_invar s' \<and> inbox_capacity s' = inbox_capacity s"
    using inbox_try_send_invar [of s v] by (auto simp: inbox_ops split: option.splits if_splits)
next
  fix s :: "'a inbox" and s' r
  assume "inbox_invar s" "inbox_try_recv s = (s', r)"
  then show "inbox_invar s' \<and> inbox_capacity s' = inbox_capacity s"
    using inbox_try_recv_invar [of s] by (auto simp: inbox_ops split: if_splits list.splits)
qed (auto simp: inbox_invar_def inbox_ops split: option.splits if_splits list.splits)

text \<open>
  The inbox is first in, first out and bounded: over any interleaving of its
  senders' \<open>try_send\<close> and the receiver's \<open>try_recv\<close>, the accepted values are the delivered
  ones followed by the queued ones, and at most \<open>capacity.max(1)\<close> are queued.
\<close>

theorem inbox_fifo:
  "case run_ops inbox_try_send inbox_try_recv ops (inbox_bounded capacity) of (t, accepted, delivered) \<Rightarrow>
     accepted = delivered @ inbox_queue t \<and> length (inbox_queue t) \<le> max capacity 1"
  using iq.fifo [OF inbox_invar_bounded, of ops capacity] iq.bounded [OF inbox_invar_bounded, of ops capacity]
  by (auto simp: inbox_bounded_def split: prod.splits)

section \<open>No lost wake-up\<close>

lemma inbox_parked_step:
  assumes "inbox_step s t" "inbox_invar s"
  shows "inbox_parked_ok s t"
  using assms
proof (cases rule: inbox_step.cases)
  case (inbox_step_send_poll w future)
  then show ?thesis using assms(2)
    by (cases future; cases "inbox_receiver_alive s"; cases "length (inbox_queue s) = inbox_capacity s")
      (auto simp: inbox_parked_ok_def inbox_invar_def inbox_send_poll_cases inbox_try_send_def inbox_wakes
        inbox_sender_register_waker_def split: option.splits list.splits)
next
  case (inbox_step_recv_poll w)
  then show ?thesis using assms(2)
    by (cases "inbox_receiver_inner s"; cases "inbox_queue s"; cases "inbox_sender_count s")
      (auto simp: inbox_parked_ok_def inbox_invar_def inbox_recv_poll_cases inbox_try_recv_def inbox_wakes
        split: option.splits list.splits)
qed (auto simp: inbox_parked_ok_def inbox_invar_def inbox_ops split: option.splits list.splits)

text \<open>
  No lost wake-up on the inbox, with any number of producers: along every execution
  the step that brings a value to a parked receiver or drops the last sender wakes the
  receiver, and the step that makes room or drops the receiver wakes every parked sender.
\<close>

theorem inbox_no_lost_wakeup:
  assumes "inbox_reachable s" "inbox_step s t"
  shows "inbox_parked_ok s t"
  using assms inbox_parked_step inbox_reachable_invar by blast

definition inbox_demo_full :: "nat inbox" where
  "inbox_demo_full =
     fst (fst (inbox_send_poll 3 (fst (fst (inbox_send_poll 4 (fst (inbox_try_send (inbox_bounded 1) 8), Some 6))), Some 5)))"

theorem inbox_no_lost_wakeup_witness:
  "inbox_parked_ok inbox_demo_full (fst (inbox_try_recv inbox_demo_full)) \<and>
   inbox_woken (fst (inbox_try_recv inbox_demo_full)) = [4, 3]"
proof -
  have "inbox_reachable inbox_demo_full"
    unfolding inbox_demo_full_def
    by (intro inbox_next [OF _ inbox_step_send_poll] inbox_next [OF inbox_start inbox_step_try_send])
      (simp_all add: inbox_send_poll_cases inbox_try_send_def inbox_wakes inbox_bounded_def
        inbox_sender_register_waker_def)
  from inbox_no_lost_wakeup [OF this inbox_step_try_recv] show ?thesis
    by (simp add: inbox_demo_full_def inbox_send_poll_cases inbox_sender_register_waker_def inbox_ops inbox_bounded_def)
qed

end
