(* ===== verification/Oneshot.thy ===== *)
theory Oneshot
  imports Channel
begin

text \<open>
  The task-local one-shot channel of \<open>src/src/libs/agentdp-ds/src/local/oneshot.rs\<close>.  The
  record is the \<open>Shared\<close> cell with, in addition, whether the sender still holds it
  (\<open>Sender::shared\<close>), whether the receiver handle still exists, and the history of \<open>wake()\<close>
  calls.
\<close>

section \<open>Operations\<close>

datatype 'a send_error = SendError 'a

datatype recv_error = RecvError

record 'a oneshot =
  os_value :: "'a option"
  os_sender_alive :: bool
  os_receiver_alive :: bool
  os_receiver_waker :: "waker option"
  os_sender_shared :: bool
  os_receiver_handle :: bool
  os_woken :: "waker list"

definition os_channel :: "'a oneshot" where
  "os_channel = \<lparr>
     os_value = None,
     os_sender_alive = True,
     os_receiver_alive = True,
     os_receiver_waker = None,
     os_sender_shared = True,
     os_receiver_handle = True,
     os_woken = []\<rparr>"

text \<open>\<open>if let Some(waker) = shared.receiver_waker.take() { waker.wake(); }\<close>\<close>

definition os_wake_receiver :: "'a oneshot \<Rightarrow> 'a oneshot" where
  "os_wake_receiver s =
     (case os_receiver_waker s of
        None \<Rightarrow> s
      | Some w \<Rightarrow> s\<lparr>os_receiver_waker := None, os_woken := os_woken s @ [w]\<rparr>)"

definition os_sender_drop :: "'a oneshot \<Rightarrow> 'a oneshot" where
  "os_sender_drop s =
     (if \<not> os_sender_shared s then s
      else os_wake_receiver (s\<lparr>os_sender_shared := False, os_sender_alive := False\<rparr>))"

text \<open>\<open>send\<close> consumes the sender: the handle is dropped at the end, with nothing left to take.\<close>

definition os_send :: "'a oneshot \<Rightarrow> 'a \<Rightarrow> 'a oneshot \<times> (unit, 'a send_error) result" where
  "os_send s val =
     (if \<not> os_sender_shared s then (os_sender_drop s, Err (SendError val))
      else let s = s\<lparr>os_sender_shared := False\<rparr> in
        if \<not> os_receiver_alive s then (os_sender_drop s, Err (SendError val))
        else (os_sender_drop (os_wake_receiver (s\<lparr>os_value := Some val, os_sender_alive := False\<rparr>)), Ok ()))"

definition os_try_send :: "'a oneshot \<Rightarrow> 'a \<Rightarrow> 'a oneshot" where
  "os_try_send s val = fst (os_send s val)"

definition os_poll :: "waker \<Rightarrow> 'a oneshot \<Rightarrow> 'a oneshot \<times> ('a, recv_error) result poll" where
  "os_poll cx s =
     (case os_value s of
        Some val \<Rightarrow> (s\<lparr>os_value := None, os_receiver_alive := False\<rparr>, Ready (Ok val))
      | None \<Rightarrow>
         if \<not> os_sender_alive s then (s\<lparr>os_receiver_alive := False\<rparr>, Ready (Err RecvError))
         else (s\<lparr>os_receiver_waker := Some cx\<rparr>, Pending))"

definition os_receiver_drop :: "'a oneshot \<Rightarrow> 'a oneshot" where
  "os_receiver_drop s = s\<lparr>os_receiver_alive := False, os_receiver_handle := False\<rparr>"

section \<open>Executions\<close>

datatype 'a os_op = OsSend 'a | OsDropSender | OsPoll waker | OsDropReceiver

text \<open>
  A call needs its handle: the sender until it is sent through or dropped, the receiver until
  it is dropped.  A run collects the values \<open>send\<close> accepted and the values \<open>poll\<close> returned.
\<close>

fun os_run :: "'a os_op list \<Rightarrow> 'a oneshot \<Rightarrow> 'a oneshot \<times> 'a list \<times> 'a list" where
  "os_run [] s = (s, [], [])"
| "os_run (OsSend v # ops) s =
     (if os_sender_shared s then
        (case os_send s v of (s', r) \<Rightarrow>
         case os_run ops s' of (t, accepted, delivered) \<Rightarrow>
           (t, if is_ok r then v # accepted else accepted, delivered))
      else os_run ops s)"
| "os_run (OsDropSender # ops) s = os_run ops (if os_sender_shared s then os_sender_drop s else s)"
| "os_run (OsPoll w # ops) s =
     (if os_receiver_handle s then
        (case os_poll w s of (s', r) \<Rightarrow>
         case os_run ops s' of (t, accepted, delivered) \<Rightarrow>
           (t, accepted, case r of Ready (Ok v) \<Rightarrow> v # delivered | _ \<Rightarrow> delivered))
      else os_run ops s)"
| "os_run (OsDropReceiver # ops) s = os_run ops (if os_receiver_handle s then os_receiver_drop s else s)"

definition os_invar :: "'a oneshot \<Rightarrow> bool" where
  "os_invar s \<longleftrightarrow>
     (os_sender_shared s \<longrightarrow> os_value s = None \<and> os_sender_alive s) \<and>
     (os_value s \<noteq> None \<longrightarrow> \<not> os_sender_alive s) \<and>
     (os_receiver_waker s \<noteq> None \<longrightarrow> os_sender_alive s) \<and>
     (\<not> os_receiver_handle s \<longrightarrow> \<not> os_receiver_alive s)"

definition os_pending_value :: "'a oneshot \<Rightarrow> 'a list" where
  "os_pending_value s = (case os_value s of None \<Rightarrow> [] | Some v \<Rightarrow> [v])"

section \<open>At most one value, delivered at most once\<close>

lemmas os_ops = os_send_def os_sender_drop_def os_poll_def os_receiver_drop_def os_wake_receiver_def Let_def

lemma os_send_invar: "os_invar s \<Longrightarrow> os_invar (fst (os_send s v))"
  by (auto simp: os_invar_def os_ops split: option.splits)

lemma os_sender_drop_invar: "os_invar s \<Longrightarrow> os_invar (os_sender_drop s)"
  by (auto simp: os_invar_def os_ops split: option.splits)

lemma os_poll_invar: "os_invar s \<Longrightarrow> os_invar (fst (os_poll w s))"
  by (auto simp: os_invar_def os_ops split: option.splits)

lemma os_receiver_drop_invar: "os_invar s \<Longrightarrow> os_invar (os_receiver_drop s)"
  by (auto simp: os_invar_def os_ops)

lemmas os_invars = os_send_invar os_sender_drop_invar os_poll_invar os_receiver_drop_invar

lemma os_send_step:
  "os_invar s \<Longrightarrow> os_sender_shared s \<Longrightarrow> os_send s v = (t, r) \<Longrightarrow>
    \<not> os_sender_shared t \<and> os_pending_value s = [] \<and>
    os_pending_value t = (if is_ok r then [v] else [])"
  by (auto simp: os_invar_def os_ops os_pending_value_def split: if_splits option.splits)

lemma os_poll_step:
  "os_poll w s = (t, r) \<Longrightarrow>
    os_sender_shared t = os_sender_shared s \<and>
    os_pending_value s = (case r of Ready (Ok v) \<Rightarrow> [v] | _ \<Rightarrow> []) @ os_pending_value t"
  by (auto simp: os_ops os_pending_value_def split: if_splits option.splits)

lemma os_drop_step [simp]:
  "os_pending_value (os_sender_drop s) = os_pending_value s" "\<not> os_sender_shared (os_sender_drop s)"
  "os_pending_value (os_receiver_drop s) = os_pending_value s"
  "os_sender_shared (os_receiver_drop s) = os_sender_shared s"
  by (auto simp: os_ops os_pending_value_def split: option.splits)

lemma os_run_conserves:
  assumes "os_invar s" "os_run ops s = (t, accepted, delivered)"
  shows "os_pending_value s @ accepted = delivered @ os_pending_value t \<and> os_invar t \<and>
    length accepted \<le> (if os_sender_shared s then 1 else 0)"
  using assms
proof (induction ops arbitrary: s accepted delivered)
  case Nil
  then show ?case by simp
next
  case (Cons op ops)
  show ?case
  proof (cases op)
    case (OsSend v)
    show ?thesis
    proof (cases "os_sender_shared s")
      case True
      obtain s' r where sr: "os_send s v = (s', r)" by (cases "os_send s v")
      obtain a d where run: "os_run ops s' = (t, a, d)"
        using Cons.prems(2) OsSend True sr by (auto split: prod.splits)
      have "os_invar s'" using os_send_invar [OF Cons.prems(1), of v] sr by simp
      then show ?thesis
        using Cons.IH [OF _ run] Cons.prems(2) OsSend True sr run os_send_step [OF Cons.prems(1) True sr]
        by (fastforce split: if_splits dest: arg_cong [where f = length])
    qed (use Cons.IH [OF Cons.prems(1)] Cons.prems(2) OsSend in auto)
  next
    case (OsPoll w)
    show ?thesis
    proof (cases "os_receiver_handle s")
      case True
      obtain s' r where sr: "os_poll w s = (s', r)" by (cases "os_poll w s")
      obtain a d where run: "os_run ops s' = (t, a, d)"
        using Cons.prems(2) OsPoll True sr by (auto split: prod.splits)
      have "os_invar s'" using os_poll_invar [OF Cons.prems(1), of w] sr by simp
      then show ?thesis
        using Cons.IH [OF _ run] Cons.prems(2) OsPoll True sr run os_poll_step [OF sr]
        by (auto split: if_splits poll.splits result.splits)
    qed (use Cons.IH [OF Cons.prems(1)] Cons.prems(2) OsPoll in auto)
  next
    case OsDropSender
    then show ?thesis
      using Cons.IH [of "os_sender_drop s"] Cons.IH [of s] Cons.prems os_sender_drop_invar [of s]
      by (auto split: if_splits)
  next
    case OsDropReceiver
    then show ?thesis
      using Cons.IH [of "os_receiver_drop s"] Cons.IH [of s] Cons.prems os_receiver_drop_invar [of s]
      by (auto split: if_splits)
  qed
qed

lemma os_pending_channel: "os_pending_value os_channel = []"
  by (simp add: os_pending_value_def os_channel_def)

lemma os_invar_channel: "os_invar os_channel"
  by (simp add: os_invar_def os_channel_def)

text \<open>
  Claim C16.  A one-shot channel carries at most one value, in any order of sending, dropping
  and polling: at most one send is accepted, and its value is either still in the channel or
  was returned by exactly one poll; nothing is delivered that was not sent.
\<close>

theorem oneshot_at_most_once:
  "case os_run ops os_channel of (t, accepted, delivered) \<Rightarrow>
     accepted = delivered @ os_pending_value t \<and> length accepted \<le> 1"
proof -
  obtain t a d where run: "os_run ops os_channel = (t, a, d)" by (cases "os_run ops os_channel")
  then show ?thesis
    using os_run_conserves [OF os_invar_channel run] by (auto simp: os_pending_channel split: if_splits)
qed

text \<open>
  A parked receiver is woken by the send or by the sender's drop, and the poll that
  follows is ready: with the value when it was accepted, with \<open>RecvError\<close> when the sender was
  dropped without sending.
\<close>

theorem oneshot_wakes_receiver:
  assumes "fst (os_run ops os_channel) = s" "os_sender_shared s" "os_receiver_alive s"
    and "os_receiver_waker s = Some w"
  shows "os_woken (fst (os_send s v)) = os_woken s @ [w] \<and>
    snd (os_send s v) = Ok () \<and>
    snd (os_poll w' (fst (os_send s v))) = Ready (Ok v) \<and>
    os_woken (os_sender_drop s) = os_woken s @ [w] \<and>
    snd (os_poll w' (os_sender_drop s)) = Ready (Err RecvError)"
proof -
  obtain a d where "os_run ops os_channel = (s, a, d)" using assms(1) by (cases "os_run ops os_channel") auto
  then have "os_invar s" using os_run_conserves [OF os_invar_channel] by blast
  then show ?thesis using assms(2-4) by (simp add: os_ops os_invar_def)
qed

theorem oneshot_wakes_receiver_witness:
  "snd (os_poll 2 (fst (os_send (fst (os_poll 1 (os_channel :: nat oneshot))) 9))) = Ready (Ok 9)"
  using oneshot_wakes_receiver [of "[OsPoll 1]" "fst (os_poll 1 (os_channel :: nat oneshot))" 1 9 2]
  by (simp add: os_poll_def os_channel_def)

end
