(* ===== verification/Refinement.thy ===== *)
theory Refinement
  imports Prelude
begin

text \<open>
  Functional refinement of a component by an abstract machine: both take operations one at a
  time and answer each with a value.  A component that simulates its abstract machine step by
  step answers every sequence of operations as the abstract machine does.
\<close>

fun run_steps :: "('s \<Rightarrow> 'op \<Rightarrow> 's \<times> 'out) \<Rightarrow> 's \<Rightarrow> 'op list \<Rightarrow> 's \<times> 'out list" where
  "run_steps step s [] = (s, [])"
| "run_steps step s (op # ops) =
     (case step s op of (s', out) \<Rightarrow>
      case run_steps step s' ops of (t, outs) \<Rightarrow> (t, out # outs))"

locale refinement =
  fixes abstract :: "'c \<Rightarrow> 'a"
    and good :: "'c \<Rightarrow> bool"
    and cstep :: "'c \<Rightarrow> 'op \<Rightarrow> 'c \<times> 'out"
    and astep :: "'a \<Rightarrow> 'op \<Rightarrow> 'a \<times> 'out"
  assumes good_step: "good s \<Longrightarrow> good (fst (cstep s op))"
    and simulates: "good s \<Longrightarrow> astep (abstract s) op = map_prod abstract id (cstep s op)"
begin

lemma run_simulates:
  "good s \<Longrightarrow> run_steps astep (abstract s) ops = map_prod abstract id (run_steps cstep s ops)"
proof (induction ops arbitrary: s)
  case Nil
  then show ?case by simp
next
  case (Cons op ops)
  then show ?case
    using good_step [of s op] simulates [of s op] by (auto simp: split_beta map_prod_def)
qed

lemma run_good: "good s \<Longrightarrow> good (fst (run_steps cstep s ops))"
proof (induction ops arbitrary: s)
  case Nil
  then show ?case by simp
next
  case (Cons op ops)
  then show ?case using good_step [of s op] by (simp add: split_beta)
qed

end

end
