(* ===== verification/FixedTable.thy ===== *)
theory FixedTable
  imports Refinement
begin

text \<open>
  The fixed-capacity table of \<open>src/src/libs/agentdp-ds/src/fixed_table.rs\<close>: a vector of
  optional entries searched linearly.  A reservation borrows the table, so the model of a
  reservation is the slot index and the key it holds.  The table refines a partial map whose
  domain never outgrows the capacity.
\<close>

section \<open>Operations\<close>

type_synonym ('k, 'v) fixed_table = "('k \<times> 'v) option list"

datatype fixed_table_reserve_error = KeyExists | ReserveFull

definition ft_holds :: "'k \<Rightarrow> ('k \<times> 'v) option \<Rightarrow> bool" where
  "ft_holds key entry = (case entry of None \<Rightarrow> False | Some (existing_key, _) \<Rightarrow> existing_key = key)"

definition ft_with_capacity :: "nat \<Rightarrow> ('k, 'v) fixed_table" where
  "ft_with_capacity capacity = replicate capacity None"

definition ft_get :: "('k, 'v) fixed_table \<Rightarrow> 'k \<Rightarrow> 'v option" where
  "ft_get entries key =
     (case position (ft_holds key) entries of
        None \<Rightarrow> None
      | Some i \<Rightarrow> map_option snd (entries ! i))"

definition ft_insert :: "('k, 'v) fixed_table \<Rightarrow> 'k \<Rightarrow> 'v \<Rightarrow> ('k, 'v) fixed_table \<times> ('v option, 'v) result" where
  "ft_insert entries key val =
     (case position (ft_holds key) entries of
        Some i \<Rightarrow> (entries[i := map_option (\<lambda>(k, _). (k, val)) (entries ! i)],
                   Ok (map_option snd (entries ! i)))
      | None \<Rightarrow>
         (case position Option.is_none entries of
            None \<Rightarrow> (entries, Err val)
          | Some i \<Rightarrow> (entries[i := Some (key, val)], Ok None)))"

definition ft_reserve_vacant ::
  "('k, 'v) fixed_table \<Rightarrow> 'k \<Rightarrow> (nat \<times> 'k, fixed_table_reserve_error) result" where
  "ft_reserve_vacant entries key =
     (if list_ex (ft_holds key) entries then Err KeyExists
      else case position Option.is_none entries of
        None \<Rightarrow> Err ReserveFull
      | Some index \<Rightarrow> Ok (index, key))"

definition ft_reservation_insert ::
  "('k, 'v) fixed_table \<Rightarrow> nat \<times> 'k \<Rightarrow> 'v \<Rightarrow> ('k, 'v) fixed_table option" where
  "ft_reservation_insert entries reservation val =
     (case reservation of (index, key) \<Rightarrow>
      do {
        entry \<leftarrow> rd entries index;
        if Option.is_none entry then wr entries index (Some (key, val)) else None
      })"

text \<open>\<open>get_mut\<close> gives a reference through which the caller changes the value in place.\<close>

definition ft_get_mut :: "('k, 'v) fixed_table \<Rightarrow> 'k \<Rightarrow> ('v \<Rightarrow> 'v) \<Rightarrow> ('k, 'v) fixed_table \<times> 'v option" where
  "ft_get_mut entries key change =
     (case position (ft_holds key) entries of
        None \<Rightarrow> (entries, None)
      | Some i \<Rightarrow> (entries[i := map_option (\<lambda>(k, v). (k, change v)) (entries ! i)],
                   map_option snd (entries ! i)))"

definition ft_remove :: "('k, 'v) fixed_table \<Rightarrow> 'k \<Rightarrow> ('k, 'v) fixed_table \<times> 'v option" where
  "ft_remove entries key =
     (case position (ft_holds key) entries of
        None \<Rightarrow> (entries, None)
      | Some i \<Rightarrow> (entries[i := None], map_option snd (entries ! i)))"

definition ft_iter :: "('k, 'v) fixed_table \<Rightarrow> ('k \<times> 'v) list" where
  "ft_iter entries = List.map_filter id entries"

definition ft_values :: "('k, 'v) fixed_table \<Rightarrow> 'v list" where
  "ft_values entries = List.map_filter (map_option snd) entries"

definition ft_values_mut :: "('k, 'v) fixed_table \<Rightarrow> ('v \<Rightarrow> 'v) \<Rightarrow> ('k, 'v) fixed_table" where
  "ft_values_mut entries change = map (map_option (\<lambda>(k, v). (k, change v))) entries"

definition ft_iter_mut :: "('k, 'v) fixed_table \<Rightarrow> ('k \<Rightarrow> 'v \<Rightarrow> 'v) \<Rightarrow> ('k, 'v) fixed_table" where
  "ft_iter_mut entries change = map (map_option (\<lambda>(k, v). (k, change k v))) entries"

definition ft_len :: "('k, 'v) fixed_table \<Rightarrow> nat" where
  "ft_len entries = length (filter (\<lambda>e. \<not> Option.is_none e) entries)"

definition ft_is_empty :: "('k, 'v) fixed_table \<Rightarrow> bool" where
  "ft_is_empty entries = list_all Option.is_none entries"

definition ft_capacity :: "('k, 'v) fixed_table \<Rightarrow> nat" where
  "ft_capacity entries = length entries"

definition ft_keys_into :: "('k, 'v) fixed_table \<Rightarrow> 'k list \<Rightarrow> 'k list" where
  "ft_keys_into entries output = map fst (ft_iter entries)"

section \<open>The abstract machine\<close>

datatype ('k, 'v) table_op =
    TInsert 'k 'v
  | TReserve 'k 'v
  | TSet 'k 'v
  | TGet 'k
  | TRemove 'k
  | TLen

datatype 'v table_out =
    OInsert "('v option, 'v) result"
  | OReserve "(unit, fixed_table_reserve_error) result"
  | OValue "'v option"
  | OLen nat

text \<open>A partial map together with its capacity.\<close>

fun map_step :: "('k \<rightharpoonup> 'v) \<times> nat \<Rightarrow> ('k, 'v) table_op \<Rightarrow> (('k \<rightharpoonup> 'v) \<times> nat) \<times> 'v table_out" where
  "map_step (m, cap) (TInsert k v) =
     (if m k \<noteq> None then ((m(k \<mapsto> v), cap), OInsert (Ok (m k)))
      else if card (dom m) = cap then ((m, cap), OInsert (Err v))
      else ((m(k \<mapsto> v), cap), OInsert (Ok None)))"
| "map_step (m, cap) (TReserve k v) =
     (if m k \<noteq> None then ((m, cap), OReserve (Err KeyExists))
      else if card (dom m) = cap then ((m, cap), OReserve (Err ReserveFull))
      else ((m(k \<mapsto> v), cap), OReserve (Ok ())))"
| "map_step (m, cap) (TSet k v) =
     ((if m k \<noteq> None then m(k \<mapsto> v) else m, cap), OValue (m k))"
| "map_step (m, cap) (TGet k) = ((m, cap), OValue (m k))"
| "map_step (m, cap) (TRemove k) = ((m(k := None), cap), OValue (m k))"
| "map_step (m, cap) TLen = ((m, cap), OLen (card (dom m)))"

text \<open>The same operations on the table; a reservation is filled as soon as it is granted.\<close>

fun ft_step :: "('k, 'v) fixed_table \<Rightarrow> ('k, 'v) table_op \<Rightarrow> ('k, 'v) fixed_table \<times> 'v table_out" where
  "ft_step t (TInsert k v) = map_prod id OInsert (ft_insert t k v)"
| "ft_step t (TReserve k v) =
     (case ft_reserve_vacant t k of
        Err e \<Rightarrow> (t, OReserve (Err e))
      | Ok r \<Rightarrow> (the (ft_reservation_insert t r v), OReserve (Ok ())))"
| "ft_step t (TSet k v) = map_prod id OValue (ft_get_mut t k (\<lambda>_. v))"
| "ft_step t (TGet k) = (t, OValue (ft_get t k))"
| "ft_step t (TRemove k) = map_prod id OValue (ft_remove t k)"
| "ft_step t TLen = (t, OLen (ft_len t))"

definition ft_abs :: "('k, 'v) fixed_table \<Rightarrow> ('k \<rightharpoonup> 'v) \<times> nat" where
  "ft_abs t = (ft_get t, ft_capacity t)"

text \<open>No key is stored twice.\<close>

definition ft_invar :: "('k, 'v) fixed_table \<Rightarrow> bool" where
  "ft_invar t \<longleftrightarrow> distinct (map fst (ft_iter t))"

section \<open>Slots and lookups\<close>

lemma ft_holds_simps [simp]:
  "\<not> ft_holds k None" "ft_holds k (Some (k', v)) \<longleftrightarrow> k' = k"
  by (simp_all add: ft_holds_def)

lemma ft_holds_iff: "ft_holds k e \<longleftrightarrow> (\<exists>v. e = Some (k, v))"
  by (auto simp: ft_holds_def split: option.splits)

lemma ft_iter_simps [simp]:
  "ft_iter [] = []" "ft_iter (None # t) = ft_iter t" "ft_iter (Some p # t) = p # ft_iter t"
  by (simp_all add: ft_iter_def map_filter_def)

lemma ft_iter_append: "ft_iter (t @ u) = ft_iter t @ ft_iter u"
  by (simp add: ft_iter_def map_filter_def)

text \<open>A lookup is a lookup in the association list of the entries.\<close>

lemma ft_get_map_of: "ft_get t = map_of (ft_iter t)"
proof
  fix k
  show "ft_get t k = map_of (ft_iter t) k"
  proof (induction t)
    case Nil
    then show ?case by (simp add: ft_get_def)
  next
    case (Cons e t)
    then show ?case by (cases e) (auto simp: ft_get_def split: option.splits)
  qed
qed

lemma ft_len_iter: "ft_len t = length (ft_iter t)"
proof (induction t)
  case Nil
  then show ?case by (simp add: ft_len_def)
next
  case (Cons e t)
  then show ?case by (cases e) (auto simp: ft_len_def Option.is_none_def)
qed

lemma ft_len_card: "ft_invar t \<Longrightarrow> card (dom (ft_get t)) = ft_len t"
  using distinct_card [of "map fst (ft_iter t)"]
  by (simp add: ft_get_map_of dom_map_of_conv_image_fst ft_len_iter ft_invar_def)

text \<open>A found slot splits the table at that slot.\<close>

lemma position_split:
  assumes "position p xs = Some i"
  obtains as x bs where "xs = as @ x # bs" "p x" "length as = i" "\<forall>a\<in>set as. \<not> p a"
proof -
  have i: "i < length xs" "p (xs ! i)" "\<forall>j<i. \<not> p (xs ! j)" using assms by (simp_all add: position_Some)
  then have "\<forall>a\<in>set (take i xs). \<not> p a" by (auto simp: in_set_conv_nth)
  then show thesis
    using i id_take_nth_drop [OF i(1)] that [of "take i xs" "xs ! i" "drop (Suc i) xs"] by simp
qed

lemma ft_vacant_None:
  "position Option.is_none t = None \<longleftrightarrow> ft_len t = ft_capacity t"
proof -
  have "ft_len t = ft_capacity t \<longleftrightarrow> (\<forall>e\<in>set t. \<not> Option.is_none e)"
    unfolding ft_len_def ft_capacity_def
    by (metis filter_id_conv filter_True length_filter_less less_irrefl)
  then show ?thesis by (simp add: position_None)
qed

lemma ft_absent: "position (ft_holds k) t = None \<longleftrightarrow> ft_get t k = None"
proof -
  have "ft_get t k \<noteq> None" if "position (ft_holds k) t = Some i" for i
    using that position_Some [of "ft_holds k" t i] by (auto simp: ft_get_def ft_holds_iff)
  then show ?thesis by (cases "position (ft_holds k) t") (auto simp: ft_get_def)
qed

lemma ft_list_ex: "list_ex (ft_holds k) t \<longleftrightarrow> ft_get t k \<noteq> None"
  using ft_absent [of k t] by (auto simp: position_None list_ex_iff)

section \<open>Updating a slot\<close>

lemma ft_fill:
  assumes "position Option.is_none t = Some i" "ft_get t k = None" "ft_invar t"
  shows "ft_get (t[i := Some (k, v)]) = (ft_get t)(k \<mapsto> v) \<and> ft_invar (t[i := Some (k, v)])"
proof -
  obtain as bs where t: "t = as @ None # bs" "length as = i"
    using assms(1) by (rule position_split) (auto simp: Option.is_none_def)
  have k: "k \<notin> fst ` set (ft_iter as)" "k \<notin> fst ` set (ft_iter bs)"
    using assms(2) t by (auto simp: ft_get_map_of map_of_eq_None_iff ft_iter_append)
  then have "map_of (ft_iter as) k = None" "map_of (ft_iter bs) k = None"
    by (simp_all add: map_of_eq_None_iff)
  then show ?thesis
    using assms(3) t k
    by (auto simp: ft_get_map_of ft_iter_append ft_invar_def list_update_append map_add_def fun_eq_iff
        split: option.splits)
qed

lemma ft_replace:
  assumes "position (ft_holds k) t = Some i" "ft_invar t"
  shows "\<exists>u. t ! i = Some (k, u) \<and> ft_get t k = Some u \<and>
    ft_get (t[i := Some (k, v)]) = (ft_get t)(k \<mapsto> v) \<and> ft_invar (t[i := Some (k, v)]) \<and>
    ft_get (t[i := None]) = (ft_get t)(k := None) \<and> ft_invar (t[i := None])"
proof -
  obtain as u bs where t: "t = as @ Some (k, u) # bs" "length as = i" "\<forall>a\<in>set as. \<not> ft_holds k a"
    using assms(1) by (rule position_split) (auto simp: ft_holds_iff)
  have k: "k \<notin> fst ` set (ft_iter as)" "k \<notin> fst ` set (ft_iter bs)"
    using assms(2) t by (auto simp: ft_invar_def ft_iter_append)
  then have "map_of (ft_iter as) k = None" "map_of (ft_iter bs) k = None"
    by (simp_all add: map_of_eq_None_iff)
  then show ?thesis
    using assms(2) t k
    by (auto simp: ft_get_map_of ft_iter_append ft_invar_def list_update_append map_add_def fun_eq_iff
        nth_append split: option.splits)
qed

lemma ft_capacity_update [simp]: "ft_capacity (t[i := e]) = ft_capacity t"
  by (simp add: ft_capacity_def)

section \<open>Refinement\<close>

lemma ft_insert_refines:
  assumes "ft_invar t"
  shows "ft_invar (fst (ft_insert t k v)) \<and>
    map_step (ft_abs t) (TInsert k v) = map_prod ft_abs OInsert (ft_insert t k v)"
proof (cases "position (ft_holds k) t")
  case None
  then show ?thesis
    using assms ft_fill [of t _ k v] ft_absent [of k t] ft_vacant_None [of t] ft_len_card [of t]
    by (auto simp: ft_insert_def ft_abs_def split: option.splits)
next
  case (Some i)
  then show ?thesis
    using ft_replace [OF Some assms, of v] by (auto simp: ft_insert_def ft_abs_def)
qed

lemma ft_reserve_refines:
  assumes "ft_invar t"
  shows "ft_invar (fst (ft_step t (TReserve k v))) \<and>
    map_step (ft_abs t) (TReserve k v) = map_prod ft_abs id (ft_step t (TReserve k v))"
proof (cases "position Option.is_none t")
  case None
  then show ?thesis
    using assms ft_vacant_None [of t] ft_len_card [of t]
    by (auto simp: ft_reserve_vacant_def ft_list_ex ft_abs_def)
next
  case (Some i)
  then have "i < length t" "Option.is_none (t ! i)" by (simp_all add: position_Some)
  with Some assms show ?thesis
    using ft_fill [OF Some, of k v] ft_vacant_None [of t] ft_len_card [of t]
    by (auto simp: ft_reserve_vacant_def ft_list_ex ft_abs_def ft_reservation_insert_def rd_def wr_def)
qed

lemma ft_set_refines:
  assumes "ft_invar t"
  shows "ft_invar (fst (ft_get_mut t k (\<lambda>_. v))) \<and>
    map_step (ft_abs t) (TSet k v) = map_prod ft_abs OValue (ft_get_mut t k (\<lambda>_. v))"
proof (cases "position (ft_holds k) t")
  case None
  then show ?thesis using assms ft_absent [of k t] by (simp add: ft_get_mut_def ft_abs_def)
next
  case (Some i)
  then show ?thesis
    using ft_replace [OF Some assms, of v] by (auto simp: ft_get_mut_def ft_abs_def)
qed

lemma ft_remove_refines:
  assumes "ft_invar t"
  shows "ft_invar (fst (ft_remove t k)) \<and>
    map_step (ft_abs t) (TRemove k) = map_prod ft_abs OValue (ft_remove t k)"
proof (cases "position (ft_holds k) t")
  case None
  then show ?thesis
    using assms ft_absent [of k t] by (auto simp: ft_remove_def ft_abs_def fun_eq_iff)
next
  case (Some i)
  then show ?thesis
    using ft_replace [OF Some assms, of undefined] by (auto simp: ft_remove_def ft_abs_def)
qed

lemma ft_step_refines:
  assumes "ft_invar t"
  shows "ft_invar (fst (ft_step t op)) \<and> map_step (ft_abs t) op = map_prod ft_abs id (ft_step t op)"
proof (cases op)
  case (TInsert k v)
  then show ?thesis
    using ft_insert_refines [OF assms, of k v] by (cases "ft_insert t k v") simp
next
  case (TReserve k v)
  then show ?thesis using ft_reserve_refines [OF assms] by blast
next
  case (TSet k v)
  then show ?thesis
    using ft_set_refines [OF assms, of k v] by (cases "ft_get_mut t k (\<lambda>_. v)") simp
next
  case (TRemove k)
  then show ?thesis
    using ft_remove_refines [OF assms, of k] by (cases "ft_remove t k") simp
qed (use assms ft_len_card [of t] in \<open>simp_all add: ft_abs_def\<close>)

interpretation ft: refinement ft_abs ft_invar ft_step map_step
  by unfold_locales (simp_all add: ft_step_refines)

lemma ft_invar_with_capacity: "ft_invar (ft_with_capacity n)"
  by (induction n) (simp_all add: ft_invar_def ft_with_capacity_def)

lemma ft_abs_with_capacity: "ft_abs (ft_with_capacity n) = (Map.empty, n)"
proof -
  have "ft_iter (ft_with_capacity n :: ('a, 'b) fixed_table) = []"
    by (induction n) (simp_all add: ft_with_capacity_def)
  then show ?thesis
    by (simp add: ft_abs_def ft_get_map_of ft_capacity_def) (simp add: ft_with_capacity_def)
qed

text \<open>
  Claim C17.  The fixed table is a bounded map: any sequence of inserts, reservations, in-place
  updates, lookups, removals and length queries on a new table is answered exactly as by a
  partial map that refuses new keys once it holds \<open>capacity\<close> of them; replacing the value of a
  present key succeeds even when the table is full.
\<close>

theorem fixed_table_refines_map:
  "run_steps map_step (Map.empty, capacity) ops =
     map_prod ft_abs id (run_steps ft_step (ft_with_capacity capacity) ops)"
  using ft.run_simulates [OF ft_invar_with_capacity, of capacity ops] by (simp add: ft_abs_with_capacity)

end
