(* ===== verification/RingIndex.thy ===== *)
theory RingIndex
  imports Prelude
begin

text \<open>
  Cursor arithmetic shared by the lock-free queues of \<open>src/src/libs/agentdp-ds/src/sync\<close>:
  64-bit cursors that only ever grow and wrap around, masked into a power-of-two ring.  A
  cursor is the image of the number of items that ever passed it; the lemmas say that the
  wrapped arithmetic of the code agrees with the arithmetic on those numbers as long as the
  window between two cursors is smaller than \<open>2^64\<close>.
\<close>

text \<open>\<open>usize::next_power_of_two\<close>, below the overflow.\<close>

fun next_power_of_two :: "nat \<Rightarrow> nat" where
  "next_power_of_two n = (if n \<le> 1 then 1 else 2 * next_power_of_two ((n + 1) div 2))"

declare next_power_of_two.simps [simp del]

definition ring_index :: "u64 \<Rightarrow> u64 \<Rightarrow> nat" where
  "ring_index cursor msk = unat (cursor AND msk)"

lemma next_power_of_two_ge: "n \<le> next_power_of_two n"
proof (induction n rule: next_power_of_two.induct)
  case (1 n)
  then show ?case
    using next_power_of_two.simps [of n] by (cases "n \<le> 1") auto
qed

lemma next_power_of_two_pow: "\<exists>k. next_power_of_two n = 2 ^ k"
proof (induction n rule: next_power_of_two.induct)
  case (1 n)
  show ?case
  proof (cases "n \<le> 1")
    case True
    then show ?thesis by (intro exI [of _ 0]) (simp add: next_power_of_two.simps)
  next
    case False
    then obtain k where "next_power_of_two ((n + 1) div 2) = 2 ^ k" using 1 by blast
    then show ?thesis
      using False next_power_of_two.simps [of n] by (intro exI [of _ "Suc k"]) simp
  qed
qed

text \<open>It is the least power of two that is large enough.\<close>

lemma next_power_of_two_least: "n \<le> 2 ^ k \<Longrightarrow> next_power_of_two n \<le> 2 ^ k"
proof (induction n arbitrary: k rule: next_power_of_two.induct)
  case (1 n)
  show ?case
  proof (cases "n \<le> 1")
    case False
    then obtain j where j: "k = Suc j" using 1(2) by (cases k) auto
    then have "(n + 1) div 2 \<le> 2 ^ j" using 1(2) by simp
    then show ?thesis using 1(1) [OF False, of j] False j next_power_of_two.simps [of n] by simp
  qed (simp add: next_power_of_two.simps)
qed

lemma next_power_of_two_exp:
  assumes "n \<le> 2 ^ b"
  obtains k where "next_power_of_two n = 2 ^ k" "k \<le> b"
proof -
  obtain k where k: "next_power_of_two n = 2 ^ k" using next_power_of_two_pow by blast
  then have "(2::nat) ^ k \<le> 2 ^ b" using next_power_of_two_least [OF assms] by simp
  then show thesis using that k by simp
qed

section \<open>Wrapped cursors\<close>

lemma of_nat_mask: "(of_nat (2 ^ k - 1) :: u64) = mask k"
  by (simp add: mask_eq_exp_minus_1 of_nat_diff)

lemma ring_index_mod:
  assumes "k \<le> 64"
  shows "ring_index (of_nat n) (of_nat (2 ^ k - 1)) = n mod 2 ^ k"
proof -
  have "of_nat n AND mask k = take_bit k (of_nat n :: u64)" by (simp add: take_bit_eq_mask)
  also have "\<dots> = of_nat (take_bit k n)" by (simp add: of_nat_take_bit)
  finally have "ring_index (of_nat n) (of_nat (2 ^ k - 1)) = unat (of_nat (take_bit k n) :: u64)"
    unfolding ring_index_def of_nat_mask by (rule arg_cong)
  moreover have "take_bit k n < 2 ^ LENGTH(64)"
    by (rule less_le_trans [OF take_bit_nat_less_exp power_increasing]) (use assms in simp_all)
  ultimately show ?thesis by (simp add: unat_of_nat_small take_bit_eq_mod)
qed

lemma cursor_diff:
  assumes "a \<le> b" "b - a < 2 ^ 64"
  shows "unat (of_nat b - of_nat a :: u64) = b - a"
  using assms unat_of_nat_small [of "b - a", where ?'a = 64] by (simp flip: of_nat_diff)

lemma cursor_eq:
  assumes "a \<le> b" "b - a < 2 ^ 64"
  shows "(of_nat a = (of_nat b :: u64)) \<longleftrightarrow> a = b"
  using cursor_diff [OF assms] assms by auto

lemma cursor_diff_eq:
  assumes "a \<le> b" "b - a < 2 ^ 64" "c < 2 ^ 64"
  shows "(of_nat b - of_nat a = (of_nat c :: u64)) \<longleftrightarrow> b - a = c"
proof -
  have "unat (of_nat c :: u64) = c" using unat_of_nat_small [of c, where ?'a = 64] assms(3) by simp
  then show ?thesis using cursor_diff [OF assms(1,2)] by (metis assms(1) of_nat_diff)
qed

section \<open>Positions in the ring\<close>

text \<open>Within one turn of the ring, different positions are different slots.\<close>

lemma ring_slot_inj:
  assumes "(a::nat) \<le> b" "b < a + P" "a mod P = b mod P"
  shows "a = b"
proof -
  have "P dvd b - a" using assms(1,3) by (metis mod_eq_dvd_iff_nat)
  then show ?thesis using assms(1,2) by (auto dest!: dvd_imp_le)
qed

lemma ring_slot_neq:
  assumes "(h::nat) \<le> a" "a < h + P" "h \<le> b" "b < h + P" "a \<noteq> b"
  shows "a mod P \<noteq> b mod P"
  using ring_slot_inj [of a b P] ring_slot_inj [of b a P] assms by linarith

end
