(* ===== verification/SyncSpsc.thy ===== *)
theory SyncSpsc
  imports Channel RingIndex
begin

text \<open>
  The lock-free single-producer single-consumer queue of
  \<open>src/src/libs/agentdp-ds/src/sync/spsc.rs\<close>, at the granularity of its atomic accesses.

  Each thread is a program counter over the accesses of \<open>try_send\<close>, \<open>try_recv\<close> and \<open>drain\<close>
  in program order; an event lets one thread perform its next access, and any interleaving of
  events is an execution.  Memory is modelled with release/acquire semantics rather than as
  one global store.  A cursor is its modification order, the list of all values ever stored to
  it.  A thread's load of the other thread's cursor may return any value of that order that is
  not older than the last one it saw, so a load may be stale; its own cursor it reads exactly.
  A load of an \<open>alive\<close> flag may also be stale.  A load that reads the other side's
  \<open>alive = false\<close> synchronises with the drop that stored it, so what the dropped handle stored
  before is visible to every later load.

  A slot is not atomic.  Every slot carries the position in the modification order that will
  publish its last read and its last write; an access is race-free when the accessing thread
  has already seen that position.  \<open>sq_fault\<close> records an access that is not (a data race), a
  read of an uninitialised slot, an overwrite of a live value, or an index out of range.
\<close>

section \<open>State\<close>

datatype 'a sender_pc =
    SIdle
  | SLoadTail 'a
  | SLoadHead 'a u64
  | SWriteSlot 'a u64
  | SStoreTail 'a u64
  | SGone

text \<open>
  The receiver's counter carries the mode of the call: \<open>None\<close> in \<open>try_recv\<close>, \<open>Some n\<close> in
  \<open>drain\<close> after \<open>n\<close> values.
\<close>

datatype 'a receiver_pc =
    RIdle
  | RLoadHead "nat option"
  | RLoadTail "nat option" u64
  | RLoadAlive u64
  | RReloadTail u64
  | RReadSlot "nat option" u64
  | RStoreHead "nat option" u64 'a
  | RGone

record 'a sq =
  sq_slots :: "'a option list"
  sq_read_stamp :: "nat list"
  sq_write_stamp :: "nat list"
  sq_capacity :: u64
  sq_mask :: u64
  sq_head :: "u64 list"
  sq_tail :: "u64 list"
  sq_sender_alive :: bool
  sq_receiver_alive :: bool
  sq_cached_head :: u64
  sq_head_view :: nat
  sq_cached_tail :: u64
  sq_tail_view :: nat
  sq_spc :: "'a sender_pc"
  sq_rpc :: "'a receiver_pc"
  sq_fault :: bool
  sq_accepted :: "'a list"
  sq_delivered :: "'a list"
  sq_sent :: "(unit, 'a try_send_error) result list"
  sq_received :: "('a, try_recv_error) result list"
  sq_drained :: "nat list"

definition sq_bounded :: "nat \<Rightarrow> 'a sq" where
  "sq_bounded capacity =
     (let capacity = max capacity 1;
          physical_capacity = next_power_of_two capacity
      in \<lparr>sq_slots = replicate physical_capacity None,
          sq_read_stamp = replicate physical_capacity 0,
          sq_write_stamp = replicate physical_capacity 0,
          sq_capacity = of_nat capacity,
          sq_mask = of_nat (physical_capacity - 1),
          sq_head = [0],
          sq_tail = [0],
          sq_sender_alive = True,
          sq_receiver_alive = True,
          sq_cached_head = 0,
          sq_head_view = 0,
          sq_cached_tail = 0,
          sq_tail_view = 0,
          sq_spc = SIdle,
          sq_rpc = RIdle,
          sq_fault = False,
          sq_accepted = [],
          sq_delivered = [],
          sq_sent = [],
          sq_received = [],
          sq_drained = []\<rparr>)"

section \<open>The accesses of the sender\<close>

text \<open>\<open>receiver_alive.load(Acquire)\<close>; a stale load still sees \<open>true\<close>.\<close>

definition sq_send_begin :: "'a \<Rightarrow> bool \<Rightarrow> 'a sq \<Rightarrow> 'a sq" where
  "sq_send_begin val stale s =
     (if sq_receiver_alive s \<or> stale then s\<lparr>sq_spc := SLoadTail val\<rparr>
      else s\<lparr>sq_sent := sq_sent s @ [Err (SendDisconnected val)]\<rparr>)"

definition sq_send_load_tail :: "'a \<Rightarrow> 'a sq \<Rightarrow> 'a sq" where
  "sq_send_load_tail val s =
     (let tail = last (sq_tail s) in
      if tail - sq_cached_head s = sq_capacity s then s\<lparr>sq_spc := SLoadHead val tail\<rparr>
      else s\<lparr>sq_spc := SWriteSlot val tail\<rparr>)"

text \<open>\<open>head.load(Acquire)\<close> returns the \<open>i\<close>-th value of the modification order.\<close>

definition sq_send_load_head :: "'a \<Rightarrow> u64 \<Rightarrow> nat \<Rightarrow> 'a sq \<Rightarrow> 'a sq" where
  "sq_send_load_head val tail i s =
     (let s = s\<lparr>sq_cached_head := sq_head s ! i, sq_head_view := i\<rparr> in
      if tail - sq_cached_head s = sq_capacity s
      then s\<lparr>sq_spc := SIdle, sq_sent := sq_sent s @ [Err (Full val)]\<rparr>
      else s\<lparr>sq_spc := SWriteSlot val tail\<rparr>)"

definition sq_send_write_slot :: "'a \<Rightarrow> u64 \<Rightarrow> 'a sq \<Rightarrow> 'a sq" where
  "sq_send_write_slot val tail s =
     (let index = ring_index tail (sq_mask s) in
      s\<lparr>sq_fault := (sq_fault s \<or> \<not> index < length (sq_slots s) \<or> sq_slots s ! index \<noteq> None \<or>
                     \<not> sq_read_stamp s ! index \<le> sq_head_view s),
        sq_slots := (sq_slots s)[index := Some val],
        sq_write_stamp := (sq_write_stamp s)[index := length (sq_tail s)],
        sq_spc := SStoreTail val tail\<rparr>)"

definition sq_send_store_tail :: "'a \<Rightarrow> u64 \<Rightarrow> 'a sq \<Rightarrow> 'a sq" where
  "sq_send_store_tail val tail s =
     s\<lparr>sq_tail := sq_tail s @ [tail + 1],
       sq_accepted := sq_accepted s @ [val],
       sq_sent := sq_sent s @ [Ok ()],
       sq_spc := SIdle\<rparr>"

definition sq_sender_drop :: "'a sq \<Rightarrow> 'a sq" where
  "sq_sender_drop s = s\<lparr>sq_sender_alive := False, sq_spc := SGone\<rparr>"

section \<open>The accesses of the receiver\<close>

definition sq_recv_load_head :: "nat option \<Rightarrow> 'a sq \<Rightarrow> 'a sq" where
  "sq_recv_load_head mode s =
     (let head = last (sq_head s) in
      if sq_cached_tail s = head then s\<lparr>sq_rpc := RLoadTail mode head\<rparr>
      else s\<lparr>sq_rpc := RReadSlot mode head\<rparr>)"

definition sq_recv_load_tail :: "nat option \<Rightarrow> u64 \<Rightarrow> nat \<Rightarrow> 'a sq \<Rightarrow> 'a sq" where
  "sq_recv_load_tail mode head i s =
     (let s = s\<lparr>sq_cached_tail := sq_tail s ! i, sq_tail_view := i\<rparr> in
      if sq_cached_tail s = head then
        (case mode of
           None \<Rightarrow> s\<lparr>sq_rpc := RLoadAlive head\<rparr>
         | Some drained \<Rightarrow> s\<lparr>sq_rpc := RIdle, sq_drained := sq_drained s @ [drained]\<rparr>)
      else s\<lparr>sq_rpc := RReadSlot mode head\<rparr>)"

definition sq_recv_load_alive :: "u64 \<Rightarrow> bool \<Rightarrow> 'a sq \<Rightarrow> 'a sq" where
  "sq_recv_load_alive head stale s =
     (if sq_sender_alive s \<or> stale
      then s\<lparr>sq_rpc := RIdle, sq_received := sq_received s @ [Err Empty]\<rparr>
      else s\<lparr>sq_rpc := RReloadTail head\<rparr>)"

text \<open>
  The second \<open>tail.load(Acquire)\<close> comes after \<open>sender_alive\<close> was read as false, so it returns
  the last value the sender stored.
\<close>

definition sq_recv_reload_tail :: "u64 \<Rightarrow> 'a sq \<Rightarrow> 'a sq" where
  "sq_recv_reload_tail head s =
     (let s = s\<lparr>sq_cached_tail := last (sq_tail s), sq_tail_view := length (sq_tail s) - 1\<rparr> in
      if sq_cached_tail s = head
      then s\<lparr>sq_rpc := RIdle, sq_received := sq_received s @ [Err RecvDisconnected]\<rparr>
      else s\<lparr>sq_rpc := RReadSlot None head\<rparr>)"

definition sq_recv_read_slot :: "nat option \<Rightarrow> u64 \<Rightarrow> 'a sq \<Rightarrow> 'a sq" where
  "sq_recv_read_slot mode head s =
     (let index = ring_index head (sq_mask s) in
      case (if index < length (sq_slots s) then sq_slots s ! index else None) of
        None \<Rightarrow> s\<lparr>sq_fault := True\<rparr>
      | Some val \<Rightarrow>
          s\<lparr>sq_fault := (sq_fault s \<or> \<not> sq_write_stamp s ! index \<le> sq_tail_view s),
            sq_slots := (sq_slots s)[index := None],
            sq_read_stamp := (sq_read_stamp s)[index := length (sq_head s)],
            sq_rpc := RStoreHead mode head val\<rparr>)"

definition sq_recv_store_head :: "nat option \<Rightarrow> u64 \<Rightarrow> 'a \<Rightarrow> 'a sq \<Rightarrow> 'a sq" where
  "sq_recv_store_head mode head val s =
     (let s = s\<lparr>sq_head := sq_head s @ [head + 1], sq_delivered := sq_delivered s @ [val]\<rparr> in
      case mode of
        None \<Rightarrow> s\<lparr>sq_rpc := RIdle, sq_received := sq_received s @ [Ok val]\<rparr>
      | Some drained \<Rightarrow> s\<lparr>sq_rpc := RLoadHead (Some (drained + 1))\<rparr>)"

definition sq_receiver_drop :: "'a sq \<Rightarrow> 'a sq" where
  "sq_receiver_drop s = s\<lparr>sq_receiver_alive := False, sq_rpc := RGone\<rparr>"

section \<open>Executions\<close>

text \<open>
  An event names the thread that moves and, for a load that may be stale, what it sees.  An
  event the thread is not ready for leaves the state as it is.
\<close>

datatype 'a sq_event =
    SendCall 'a bool
  | SendStep
  | SendObserve nat
  | SenderDrop
  | RecvCall
  | DrainCall
  | RecvStep
  | RecvObserve nat
  | RecvSees bool
  | ReceiverDrop

definition sq_sender_move :: "'a sq_event \<Rightarrow> 'a sq \<Rightarrow> 'a sq" where
  "sq_sender_move ev s =
     (case sq_spc s of
        SIdle \<Rightarrow>
          (case ev of
             SendCall val stale \<Rightarrow> sq_send_begin val stale s
           | SenderDrop \<Rightarrow> sq_sender_drop s
           | _ \<Rightarrow> s)
      | SLoadTail val \<Rightarrow> (case ev of SendStep \<Rightarrow> sq_send_load_tail val s | _ \<Rightarrow> s)
      | SLoadHead val tail \<Rightarrow>
          (case ev of
             SendObserve i \<Rightarrow>
               if sq_head_view s \<le> i \<and> i < length (sq_head s) then sq_send_load_head val tail i s else s
           | _ \<Rightarrow> s)
      | SWriteSlot val tail \<Rightarrow> (case ev of SendStep \<Rightarrow> sq_send_write_slot val tail s | _ \<Rightarrow> s)
      | SStoreTail val tail \<Rightarrow> (case ev of SendStep \<Rightarrow> sq_send_store_tail val tail s | _ \<Rightarrow> s)
      | SGone \<Rightarrow> s)"

definition sq_receiver_move :: "'a sq_event \<Rightarrow> 'a sq \<Rightarrow> 'a sq" where
  "sq_receiver_move ev s =
     (case sq_rpc s of
        RIdle \<Rightarrow>
          (case ev of
             RecvCall \<Rightarrow> s\<lparr>sq_rpc := RLoadHead None\<rparr>
           | DrainCall \<Rightarrow> s\<lparr>sq_rpc := RLoadHead (Some 0)\<rparr>
           | ReceiverDrop \<Rightarrow> sq_receiver_drop s
           | _ \<Rightarrow> s)
      | RLoadHead mode \<Rightarrow> (case ev of RecvStep \<Rightarrow> sq_recv_load_head mode s | _ \<Rightarrow> s)
      | RLoadTail mode head \<Rightarrow>
          (case ev of
             RecvObserve i \<Rightarrow>
               if sq_tail_view s \<le> i \<and> i < length (sq_tail s) then sq_recv_load_tail mode head i s else s
           | _ \<Rightarrow> s)
      | RLoadAlive head \<Rightarrow> (case ev of RecvSees stale \<Rightarrow> sq_recv_load_alive head stale s | _ \<Rightarrow> s)
      | RReloadTail head \<Rightarrow> (case ev of RecvStep \<Rightarrow> sq_recv_reload_tail head s | _ \<Rightarrow> s)
      | RReadSlot mode head \<Rightarrow> (case ev of RecvStep \<Rightarrow> sq_recv_read_slot mode head s | _ \<Rightarrow> s)
      | RStoreHead mode head val \<Rightarrow> (case ev of RecvStep \<Rightarrow> sq_recv_store_head mode head val s | _ \<Rightarrow> s)
      | RGone \<Rightarrow> s)"

definition sq_step :: "'a sq \<Rightarrow> 'a sq_event \<Rightarrow> 'a sq" where
  "sq_step s ev = sq_receiver_move ev (sq_sender_move ev s)"

definition sq_run :: "'a sq_event list \<Rightarrow> 'a sq \<Rightarrow> 'a sq" where
  "sq_run evs s = foldl sq_step s evs"

text \<open>
  \<open>Drop for Inner\<close>, which runs when both handles are gone: the values it drops in place, slot
  by slot from head to tail.  An uninitialised slot among them would be \<open>None\<close>.
\<close>

definition sq_inner_drop :: "'a sq \<Rightarrow> 'a option list" where
  "sq_inner_drop s =
     (let head = last (sq_head s); tail = last (sq_tail s) in
      map (\<lambda>offset. sq_slots s ! ring_index (head + of_nat offset) (sq_mask s)) [0..<unat (tail - head)])"

section \<open>The invariant\<close>

definition sq_h :: "'a sq \<Rightarrow> nat" where "sq_h s = length (sq_head s) - 1"

definition sq_t :: "'a sq \<Rightarrow> nat" where "sq_t s = length (sq_tail s) - 1"

text \<open>Values written, published or not, and the number of slots emptied, published or not.\<close>

definition sq_written :: "'a sq \<Rightarrow> 'a list" where
  "sq_written s = sq_accepted s @ (case sq_spc s of SStoreTail v _ \<Rightarrow> [v] | _ \<Rightarrow> [])"

definition sq_taken :: "'a sq \<Rightarrow> nat" where
  "sq_taken s = sq_h s + (case sq_rpc s of RStoreHead _ _ _ \<Rightarrow> 1 | _ \<Rightarrow> 0)"

definition sq_geometry :: "'a sq \<Rightarrow> bool" where
  "sq_geometry s \<longleftrightarrow>
     (\<exists>k\<le>63. length (sq_slots s) = 2 ^ k \<and> sq_mask s = of_nat (2 ^ k - 1)) \<and>
     length (sq_read_stamp s) = length (sq_slots s) \<and>
     length (sq_write_stamp s) = length (sq_slots s) \<and>
     1 \<le> unat (sq_capacity s) \<and> unat (sq_capacity s) \<le> length (sq_slots s)"

text \<open>The modification orders count up, and the two ghost logs agree with them.\<close>

definition sq_history :: "'a sq \<Rightarrow> bool" where
  "sq_history s \<longleftrightarrow>
     sq_head s = map of_nat [0..<Suc (sq_h s)] \<and> sq_tail s = map of_nat [0..<Suc (sq_t s)] \<and>
     length (sq_accepted s) = sq_t s \<and> sq_delivered s = take (sq_h s) (sq_accepted s)"

text \<open>What each thread has seen of the other never overtakes it nor falls a turn behind.\<close>

definition sq_views :: "'a sq \<Rightarrow> bool" where
  "sq_views s \<longleftrightarrow>
     sq_cached_head s = of_nat (sq_head_view s) \<and> sq_cached_tail s = of_nat (sq_tail_view s) \<and>
     sq_head_view s \<le> sq_h s \<and> sq_h s \<le> sq_tail_view s \<and> sq_tail_view s \<le> sq_t s \<and>
     sq_t s \<le> sq_head_view s + unat (sq_capacity s)"

definition sq_slots_ok :: "'a sq \<Rightarrow> bool" where
  "sq_slots_ok s \<longleftrightarrow>
     (\<forall>n. sq_taken s \<le> n \<longrightarrow> n < length (sq_written s) \<longrightarrow>
        sq_slots s ! (n mod length (sq_slots s)) = Some (sq_written s ! n) \<and>
        sq_write_stamp s ! (n mod length (sq_slots s)) \<le> n + 1) \<and>
     (\<forall>n. length (sq_written s) \<le> n \<longrightarrow> n < sq_taken s + length (sq_slots s) \<longrightarrow>
        sq_slots s ! (n mod length (sq_slots s)) = None \<and>
        sq_read_stamp s ! (n mod length (sq_slots s)) \<le> n + 1 - length (sq_slots s))"

fun sq_spc_ok :: "'a sender_pc \<Rightarrow> 'a sq \<Rightarrow> bool" where
  "sq_spc_ok (SLoadHead _ tail) s = (tail = of_nat (sq_t s))"
| "sq_spc_ok (SWriteSlot _ tail) s =
     (tail = of_nat (sq_t s) \<and> sq_t s < sq_head_view s + unat (sq_capacity s))"
| "sq_spc_ok (SStoreTail _ tail) s =
     (tail = of_nat (sq_t s) \<and> sq_t s < sq_head_view s + unat (sq_capacity s))"
| "sq_spc_ok _ s = True"

fun sq_rpc_ok :: "'a receiver_pc \<Rightarrow> 'a sq \<Rightarrow> bool" where
  "sq_rpc_ok (RLoadTail _ head) s = (head = of_nat (sq_h s))"
| "sq_rpc_ok (RLoadAlive head) s = (head = of_nat (sq_h s))"
| "sq_rpc_ok (RReloadTail head) s = (head = of_nat (sq_h s) \<and> \<not> sq_sender_alive s)"
| "sq_rpc_ok (RReadSlot _ head) s = (head = of_nat (sq_h s) \<and> sq_h s < sq_tail_view s)"
| "sq_rpc_ok (RStoreHead _ head v) s =
     (head = of_nat (sq_h s) \<and> sq_h s < sq_tail_view s \<and> v = sq_accepted s ! sq_h s)"
| "sq_rpc_ok _ s = True"

definition sq_final :: "'a sq \<Rightarrow> bool" where
  "sq_final s \<longleftrightarrow> sq_sender_alive s = (sq_spc s \<noteq> SGone) \<and>
     (Err RecvDisconnected \<in> set (sq_received s) \<longrightarrow> \<not> sq_sender_alive s \<and> sq_h s = sq_t s)"

definition sq_invar :: "'a sq \<Rightarrow> bool" where
  "sq_invar s \<longleftrightarrow> sq_geometry s \<and> sq_history s \<and> sq_views s \<and> sq_slots_ok s \<and>
     sq_spc_ok (sq_spc s) s \<and> sq_rpc_ok (sq_rpc s) s \<and> sq_final s \<and> \<not> sq_fault s"

lemmas sq_parts = sq_invar_def sq_geometry_def sq_history_def sq_views_def sq_final_def


section \<open>Consequences of the invariant\<close>

lemma sq_last_head: "sq_history s \<Longrightarrow> last (sq_head s) = of_nat (sq_h s)"
  by (metis (no_types, lifting) sq_history_def last_map last_upt list.map_disc_iff upt_Suc_append zero_le
      append_is_Nil_conv not_Cons_self2 last_snoc map_append list.simps(8,9))

lemma sq_last_tail: "sq_history s \<Longrightarrow> last (sq_tail s) = of_nat (sq_t s)"
  by (metis (no_types, lifting) sq_history_def last_map last_upt list.map_disc_iff upt_Suc_append zero_le
      append_is_Nil_conv not_Cons_self2 last_snoc map_append list.simps(8,9))

lemma sq_nth_head: "sq_history s \<Longrightarrow> i < length (sq_head s) \<Longrightarrow> sq_head s ! i = of_nat i"
  by (metis (no_types, lifting) sq_history_def add_0 diff_zero length_map length_upt nth_map nth_upt)

lemma sq_nth_tail: "sq_history s \<Longrightarrow> i < length (sq_tail s) \<Longrightarrow> sq_tail s ! i = of_nat i"
  by (metis (no_types, lifting) sq_history_def add_0 diff_zero length_map length_upt nth_map nth_upt)

lemma sq_lengths:
  "sq_history s \<Longrightarrow> length (sq_head s) = Suc (sq_h s)"
  "sq_history s \<Longrightarrow> length (sq_tail s) = Suc (sq_t s)"
  by (metis (no_types, lifting) sq_history_def diff_zero length_map length_upt)+

lemma sq_capacity_bound: "sq_geometry s \<Longrightarrow> unat (sq_capacity s) \<le> 2 ^ 63"
proof -
  assume "sq_geometry s"
  then obtain k where "k \<le> 63" "unat (sq_capacity s) \<le> 2 ^ k" by (auto simp: sq_geometry_def)
  moreover have "(2::nat) ^ k \<le> 2 ^ 63" using \<open>k \<le> 63\<close> by (rule power_increasing) simp
  ultimately show ?thesis by linarith
qed

lemma sq_index:
  assumes "sq_geometry s"
  shows "ring_index (of_nat n) (sq_mask s) = n mod length (sq_slots s)" "0 < length (sq_slots s)"
  using assms ring_index_mod by (auto simp: sq_geometry_def)

text \<open>The full test of the sender, on the numbers the cursors stand for.\<close>

lemma sq_full_test:
  assumes "sq_geometry s" "a \<le> t" "t \<le> a + unat (sq_capacity s)"
  shows "(of_nat t - of_nat a = sq_capacity s) \<longleftrightarrow> t = a + unat (sq_capacity s)"
proof -
  have c: "unat (sq_capacity s) < 2 ^ 64" using sq_capacity_bound [OF assms(1)] by simp
  then have "t - a < 2 ^ 64" using assms(3) by linarith
  from cursor_diff_eq [OF assms(2) this c] show ?thesis using assms(2,3) by auto
qed

text \<open>The empty test of the receiver.\<close>

lemma sq_empty_test:
  assumes "sq_geometry s" "a \<le> t" "t \<le> a + unat (sq_capacity s)"
  shows "(of_nat t = (of_nat a :: u64)) \<longleftrightarrow> t = a"
proof -
  have c: "unat (sq_capacity s) < 2 ^ 64" using sq_capacity_bound [OF assms(1)] by simp
  then have "t - a < 2 ^ 64" using assms(3) by linarith
  from cursor_eq [OF assms(2) this] show ?thesis by auto
qed

lemma sq_slots_ok_cong:
  assumes "sq_slots u = sq_slots s" "sq_read_stamp u = sq_read_stamp s"
    "sq_write_stamp u = sq_write_stamp s" "sq_written u = sq_written s" "sq_taken u = sq_taken s"
  shows "sq_slots_ok u = sq_slots_ok s"
  using assms by (simp add: sq_slots_ok_def)

lemmas sq_proj = sq_h_def sq_t_def sq_written_def sq_taken_def


section \<open>Every access keeps the invariant\<close>

text \<open>A frame rule for the accesses that only read, and for the call boundaries.\<close>

lemma sq_quiet:
  assumes "sq_invar s"
    and "sq_slots u = sq_slots s" "sq_read_stamp u = sq_read_stamp s" "sq_write_stamp u = sq_write_stamp s"
    and "sq_capacity u = sq_capacity s" "sq_mask u = sq_mask s" "sq_head u = sq_head s" "sq_tail u = sq_tail s"
    and "sq_accepted u = sq_accepted s" "sq_delivered u = sq_delivered s"
    and "sq_sender_alive u = sq_sender_alive s" "sq_fault u = sq_fault s"
    and "sq_written u = sq_written s" "sq_taken u = sq_taken s"
    and "sq_views u" "sq_spc_ok (sq_spc u) u" "sq_rpc_ok (sq_rpc u) u"
    and "(sq_spc u = SGone) = (sq_spc s = SGone)"
    and "Err RecvDisconnected \<in> set (sq_received u) \<longleftrightarrow> Err RecvDisconnected \<in> set (sq_received s)"
  shows "sq_invar u"
proof -
  have ht: "sq_h u = sq_h s" "sq_t u = sq_t s" using assms by (simp_all add: sq_h_def sq_t_def)
  have "sq_slots_ok u" using assms sq_slots_ok_cong [of u s] by (simp add: sq_invar_def)
  moreover have "sq_geometry u" "\<not> sq_fault u"
    using assms by (simp_all add: sq_invar_def sq_geometry_def)
  moreover have "sq_final u"
    using assms(1,11,18,19) ht by (auto simp: sq_invar_def sq_final_def)
  moreover have "sq_history u"
    using assms(1,7,8,9,10) ht by (simp add: sq_invar_def sq_history_def)
  ultimately show ?thesis using assms(15-17) by (simp add: sq_invar_def)
qed

lemma sq_rpc_ok_frame:
  assumes "sq_h u = sq_h s" "sq_tail_view u = sq_tail_view s" "sq_accepted u = sq_accepted s"
    "sq_sender_alive u = sq_sender_alive s"
  shows "sq_rpc_ok pc u = sq_rpc_ok pc s"
  using assms by (cases pc) simp_all

lemma sq_spc_ok_frame:
  assumes "sq_t u = sq_t s" "sq_head_view u = sq_head_view s" "sq_capacity u = sq_capacity s"
  shows "sq_spc_ok pc u = sq_spc_ok pc s"
  using assms by (cases pc) simp_all

lemma sq_invarD:
  assumes "sq_invar s"
  shows "sq_geometry s" "sq_history s" "sq_views s" "sq_slots_ok s" "sq_spc_ok (sq_spc s) s"
    "sq_rpc_ok (sq_rpc s) s" "sq_final s" "\<not> sq_fault s"
  using assms by (simp_all add: sq_invar_def)

lemma sq_send_begin_invar:
  assumes "sq_invar s" "sq_spc s = SIdle"
  shows "sq_invar (sq_send_begin v stale s)"
  by (rule sq_quiet [OF assms(1)])
    (use sq_invarD [OF assms(1)] assms(2) sq_rpc_ok_frame [of "sq_send_begin v stale s" s] in
      \<open>auto simp: sq_send_begin_def sq_proj sq_views_def\<close>)

lemma sq_send_load_tail_invar:
  assumes "sq_invar s" "sq_spc s = SLoadTail v"
  shows "sq_invar (sq_send_load_tail v s)"
proof -
  note inv = sq_invarD [OF assms(1)]
  have "last (sq_tail s) - sq_cached_head s = sq_capacity s \<longleftrightarrow>
      sq_t s = sq_head_view s + unat (sq_capacity s)"
    using sq_full_test [OF inv(1), of "sq_head_view s" "sq_t s"] inv(2,3)
    by (simp add: sq_last_tail sq_views_def)
  then show ?thesis
    by (intro sq_quiet [OF assms(1)])
      (use inv assms(2) sq_rpc_ok_frame [of "sq_send_load_tail v s" s] in
        \<open>auto simp: sq_send_load_tail_def sq_proj sq_views_def Let_def sq_last_tail\<close>)
qed

lemma sq_send_load_head_invar:
  assumes "sq_invar s" "sq_spc s = SLoadHead v tail" "sq_head_view s \<le> i" "i < length (sq_head s)"
  shows "sq_invar (sq_send_load_head v tail i s)"
proof -
  note inv = sq_invarD [OF assms(1)]
  have i: "sq_head s ! i = of_nat i" "i \<le> sq_h s" "tail = of_nat (sq_t s)"
    using sq_nth_head [OF inv(2) assms(4)] sq_lengths(1) [OF inv(2)] inv(5) assms(2,4) by auto
  have "tail - sq_head s ! i = sq_capacity s \<longleftrightarrow> sq_t s = i + unat (sq_capacity s)"
    using sq_full_test [OF inv(1), of i "sq_t s"] inv(3) assms(3) i by (simp add: sq_views_def)
  then show ?thesis
    by (intro sq_quiet [OF assms(1)])
      (use inv assms i sq_rpc_ok_frame [of "sq_send_load_head v tail i s" s] in
        \<open>auto simp: sq_send_load_head_def sq_proj sq_views_def Let_def\<close>)
qed

lemma sq_recv_call_invar:
  assumes "sq_invar s" "sq_rpc s = RIdle"
  shows "sq_invar (s\<lparr>sq_rpc := RLoadHead mode\<rparr>)"
  by (rule sq_quiet [OF assms(1)])
    (use sq_invarD [OF assms(1)] assms(2) sq_spc_ok_frame [of "s\<lparr>sq_rpc := RLoadHead mode\<rparr>" s] in
      \<open>auto simp: sq_proj sq_views_def\<close>)

lemma sq_recv_load_head_invar:
  assumes "sq_invar s" "sq_rpc s = RLoadHead mode"
  shows "sq_invar (sq_recv_load_head mode s)"
proof -
  note inv = sq_invarD [OF assms(1)]
  have "sq_cached_tail s = last (sq_head s) \<longleftrightarrow> sq_tail_view s = sq_h s"
    using sq_empty_test [OF inv(1), of "sq_h s" "sq_tail_view s"] inv(2,3)
    by (simp add: sq_last_head sq_views_def)
  then show ?thesis
    by (intro sq_quiet [OF assms(1)])
      (use inv assms(2) sq_spc_ok_frame [of "sq_recv_load_head mode s" s] in
        \<open>auto simp: sq_recv_load_head_def sq_proj sq_views_def Let_def sq_last_head\<close>)
qed

lemma sq_recv_load_tail_invar:
  assumes "sq_invar s" "sq_rpc s = RLoadTail mode head" "sq_tail_view s \<le> i" "i < length (sq_tail s)"
  shows "sq_invar (sq_recv_load_tail mode head i s)"
proof -
  note inv = sq_invarD [OF assms(1)]
  have i: "sq_tail s ! i = of_nat i" "i \<le> sq_t s" "head = of_nat (sq_h s)"
    using sq_nth_tail [OF inv(2) assms(4)] sq_lengths(2) [OF inv(2)] inv(6) assms(2,4) by auto
  have "sq_tail s ! i = head \<longleftrightarrow> i = sq_h s"
    using sq_empty_test [OF inv(1), of "sq_h s" i] inv(3) assms(3) i by (simp add: sq_views_def)
  then show ?thesis
    by (intro sq_quiet [OF assms(1)])
      (use inv assms i sq_spc_ok_frame [of "sq_recv_load_tail mode head i s" s] in
        \<open>auto simp: sq_recv_load_tail_def sq_proj sq_views_def Let_def split: option.splits\<close>)
qed

lemma sq_recv_load_alive_invar:
  assumes "sq_invar s" "sq_rpc s = RLoadAlive head"
  shows "sq_invar (sq_recv_load_alive head stale s)"
  by (rule sq_quiet [OF assms(1)])
    (use sq_invarD [OF assms(1)] assms(2) sq_spc_ok_frame [of "sq_recv_load_alive head stale s" s] in
      \<open>auto simp: sq_recv_load_alive_def sq_proj sq_views_def\<close>)


text \<open>Writing the slot at the tail: it is free, and its last read has been seen.\<close>

lemma sq_send_write_slot_invar:
  assumes "sq_invar s" "sq_spc s = SWriteSlot v tail"
  shows "sq_invar (sq_send_write_slot v tail s)"
proof -
  note inv = sq_invarD [OF assms(1)]
  let ?P = "length (sq_slots s)" and ?u = "sq_send_write_slot v tail s"
  have P: "0 < ?P" "\<And>n. ring_index (of_nat n) (sq_mask s) = n mod ?P"
    using sq_index [OF inv(1)] by simp_all
  have tail: "tail = of_nat (sq_t s)" "sq_t s < sq_head_view s + unat (sq_capacity s)"
    using inv(5) assms(2) by simp_all
  have lens: "length (sq_written s) = sq_t s" "length (sq_read_stamp s) = ?P" "length (sq_write_stamp s) = ?P"
    using inv(1,2) assms(2) by (simp_all add: sq_written_def sq_history_def sq_geometry_def)
  have low: "sq_head_view s \<le> sq_h s" "sq_h s \<le> sq_taken s" "unat (sq_capacity s) \<le> ?P"
    using inv(1,3) by (auto simp: sq_views_def sq_taken_def sq_geometry_def)
  then have room: "sq_t s < sq_taken s + ?P" using tail(2) by linarith
  have below: "sq_taken s \<le> sq_t s"
    using inv(3,6) by (cases "sq_rpc s") (auto simp: sq_taken_def sq_views_def)
  have free: "sq_slots s ! (sq_t s mod ?P) = None" "sq_read_stamp s ! (sq_t s mod ?P) \<le> sq_t s + 1 - ?P"
    using inv(4) room lens(1) by (simp_all add: sq_slots_ok_def)
  have seen: "sq_read_stamp s ! (sq_t s mod ?P) \<le> sq_head_view s"
    using free(2) tail(2) low(3) by linarith
  have proj: "sq_h ?u = sq_h s" "sq_t ?u = sq_t s" "sq_taken ?u = sq_taken s"
    "sq_written ?u = sq_written s @ [v]"
    using assms(2) by (simp_all add: sq_send_write_slot_def sq_proj Let_def)
  have other: "n mod ?P \<noteq> sq_t s mod ?P"
    if "sq_taken s \<le> n" "n < sq_taken s + ?P" "n \<noteq> sq_t s" for n
    using ring_slot_neq [of "sq_taken s" n ?P "sq_t s"] that below room by simp
  have "sq_slots_ok ?u"
    unfolding sq_slots_ok_def proj
  proof (intro conjI allI impI)
    fix n assume n: "sq_taken s \<le> n" "n < length (sq_written s @ [v])"
    then show "sq_slots ?u ! (n mod length (sq_slots ?u)) = Some ((sq_written s @ [v]) ! n)"
      "sq_write_stamp ?u ! (n mod length (sq_slots ?u)) \<le> n + 1"
      using inv(4) P lens other [of n] room tail(1) sq_lengths(2) [OF inv(2)]
      by (cases "n = sq_t s"; simp add: sq_send_write_slot_def Let_def sq_slots_ok_def nth_list_update nth_append)+
  next
    fix n assume n: "length (sq_written s @ [v]) \<le> n" "n < sq_taken s + length (sq_slots ?u)"
    then have "n mod ?P \<noteq> sq_t s mod ?P"
      using other [of n] below lens(1) by (simp add: sq_send_write_slot_def Let_def)
    with n show "sq_slots ?u ! (n mod length (sq_slots ?u)) = None"
      "sq_read_stamp ?u ! (n mod length (sq_slots ?u)) \<le> n + 1 - length (sq_slots ?u)"
      using inv(4) P lens tail(1)
      by (simp_all add: sq_send_write_slot_def Let_def sq_slots_ok_def nth_list_update)
  qed
  moreover have "\<not> sq_fault ?u"
    using inv(8) P free(1) seen tail(1) by (simp add: sq_send_write_slot_def Let_def)
  moreover have "sq_final ?u"
    using inv(7) assms(2) by (auto simp: sq_send_write_slot_def Let_def sq_final_def)
  moreover have "sq_rpc_ok (sq_rpc ?u) ?u"
    using inv(6) sq_rpc_ok_frame [of ?u s] proj(1) by (simp add: sq_send_write_slot_def Let_def)
  moreover have "sq_geometry ?u" "sq_history ?u" "sq_views ?u" "sq_spc_ok (sq_spc ?u) ?u"
    using inv(1,2,3) proj tail
    by (simp_all add: sq_send_write_slot_def Let_def sq_geometry_def sq_history_def sq_views_def)
  ultimately show ?thesis by (simp add: sq_invar_def)
qed

text \<open>Publishing the tail: the written slot becomes an accepted value.\<close>

lemma map_of_nat_snoc: "map of_nat [0..<Suc n] @ [of_nat n + 1 :: u64] = map of_nat [0..<Suc (Suc n)]"
  by (simp add: add.commute)

lemma sq_send_store_tail_invar:
  assumes "sq_invar s" "sq_spc s = SStoreTail v tail"
  shows "sq_invar (sq_send_store_tail v tail s)"
proof -
  note inv = sq_invarD [OF assms(1)]
  let ?u = "sq_send_store_tail v tail s"
  have tail: "tail = of_nat (sq_t s)" "sq_t s < sq_head_view s + unat (sq_capacity s)"
    using inv(5) assms(2) by simp_all
  have len: "length (sq_tail s) = Suc (sq_t s)" using inv(2) by (rule sq_lengths)
  have proj: "sq_h ?u = sq_h s" "sq_t ?u = Suc (sq_t s)" "sq_taken ?u = sq_taken s" "sq_written ?u = sq_written s"
    using assms(2) len by (simp_all add: sq_send_store_tail_def sq_proj)
  have ht: "sq_h s \<le> sq_t s" "length (sq_accepted s) = sq_t s"
    using inv(2,3) by (simp_all add: sq_views_def sq_history_def)
  have alive: "sq_sender_alive s" using inv(7) assms(2) by (simp add: sq_final_def)
  have "sq_slots_ok ?u"
    using inv(4) proj sq_slots_ok_cong [of ?u s] by (simp add: sq_send_store_tail_def)
  moreover have "sq_history ?u"
    using inv(2) proj ht tail map_of_nat_snoc [of "sq_t s"]
    by (simp add: sq_history_def sq_send_store_tail_def)
  moreover have "sq_rpc_ok (sq_rpc ?u) ?u"
    using inv(3,6) proj(1) ht alive
    by (cases "sq_rpc s") (auto simp: sq_send_store_tail_def nth_append sq_views_def)
  moreover have "sq_views ?u" using inv(3) proj(1,2) tail(2) by (simp add: sq_views_def sq_send_store_tail_def)
  moreover have "sq_geometry ?u" "sq_final ?u" "\<not> sq_fault ?u" "sq_spc_ok (sq_spc ?u) ?u"
    using inv alive by (auto simp: sq_send_store_tail_def sq_geometry_def sq_final_def)
  ultimately show ?thesis by (simp add: sq_invar_def)
qed

lemma sq_sender_drop_invar:
  assumes "sq_invar s" "sq_spc s = SIdle"
  shows "sq_invar (sq_sender_drop s)"
proof -
  note inv = sq_invarD [OF assms(1)]
  let ?u = "sq_sender_drop s"
  have proj: "sq_h ?u = sq_h s" "sq_t ?u = sq_t s" "sq_taken ?u = sq_taken s" "sq_written ?u = sq_written s"
    using assms(2) by (simp_all add: sq_sender_drop_def sq_proj)
  have "sq_slots_ok ?u" using inv(4) proj sq_slots_ok_cong [of ?u s] by (simp add: sq_sender_drop_def)
  moreover have "sq_rpc_ok (sq_rpc ?u) ?u"
    using inv(6) proj(1) by (cases "sq_rpc s") (simp_all add: sq_sender_drop_def)
  moreover have "sq_geometry ?u" "sq_history ?u" "sq_views ?u" "\<not> sq_fault ?u" "sq_spc_ok (sq_spc ?u) ?u" "sq_final ?u"
    using inv proj by (simp_all add: sq_sender_drop_def sq_geometry_def sq_history_def sq_views_def sq_final_def)
  ultimately show ?thesis by (simp add: sq_invar_def)
qed


lemma sq_receiver_drop_invar:
  assumes "sq_invar s" "sq_rpc s = RIdle"
  shows "sq_invar (sq_receiver_drop s)"
  by (rule sq_quiet [OF assms(1)])
    (use sq_invarD [OF assms(1)] assms(2) sq_spc_ok_frame [of "sq_receiver_drop s" s] in
      \<open>auto simp: sq_receiver_drop_def sq_proj sq_views_def\<close>)

text \<open>After a dropped sender has been seen, the reload sees everything that was ever sent.\<close>

lemma sq_recv_reload_tail_invar:
  assumes "sq_invar s" "sq_rpc s = RReloadTail head"
  shows "sq_invar (sq_recv_reload_tail head s)"
proof -
  note inv = sq_invarD [OF assms(1)]
  let ?u = "sq_recv_reload_tail head s"
  have head: "head = of_nat (sq_h s)" "\<not> sq_sender_alive s" using inv(6) assms(2) by simp_all
  have len: "length (sq_tail s) - 1 = sq_t s" using sq_lengths(2) [OF inv(2)] by simp
  have empty: "last (sq_tail s) = head \<longleftrightarrow> sq_t s = sq_h s"
    using sq_empty_test [OF inv(1), of "sq_h s" "sq_t s"] inv(2,3) head(1)
    by (simp add: sq_last_tail sq_views_def)
  have proj: "sq_h ?u = sq_h s" "sq_t ?u = sq_t s" "sq_taken ?u = sq_taken s" "sq_written ?u = sq_written s"
    using assms(2) by (simp_all add: sq_recv_reload_tail_def sq_proj Let_def)
  have "sq_slots_ok ?u" using inv(4) proj sq_slots_ok_cong [of ?u s] by (simp add: sq_recv_reload_tail_def Let_def)
  moreover have "sq_views ?u"
    using inv(2,3) proj(1,2) len by (auto simp: sq_recv_reload_tail_def Let_def sq_views_def sq_last_tail)
  moreover have "sq_rpc_ok (sq_rpc ?u) ?u"
    using empty inv(3) len proj(1) head(1)
    by (auto simp: sq_recv_reload_tail_def Let_def sq_views_def sq_h_def)
  moreover have "sq_spc_ok (sq_spc ?u) ?u"
    using inv(5) sq_spc_ok_frame [of ?u s] proj(2) by (simp add: sq_recv_reload_tail_def Let_def)
  moreover have "sq_geometry ?u" "sq_history ?u" "\<not> sq_fault ?u"
    using inv(1,2,8) proj by (simp_all add: sq_recv_reload_tail_def Let_def sq_geometry_def sq_history_def)
  moreover have "sq_final ?u"
    using inv(7) head empty proj by (auto simp: sq_recv_reload_tail_def Let_def sq_final_def)
  ultimately show ?thesis by (simp add: sq_invar_def)
qed

text \<open>Reading the slot at the head: it holds the next value, and its write has been seen.\<close>

lemma sq_recv_read_slot_value:
  assumes "sq_invar s" "sq_rpc s = RReadSlot mode head"
  shows "sq_slots s ! (sq_h s mod length (sq_slots s)) = Some (sq_accepted s ! sq_h s)"
    "sq_write_stamp s ! (sq_h s mod length (sq_slots s)) \<le> sq_tail_view s"
proof -
  note inv = sq_invarD [OF assms(1)]
  have h: "sq_h s < sq_tail_view s" "sq_taken s = sq_h s"
    using inv(6) assms(2) by (simp_all add: sq_taken_def)
  then have "sq_h s < length (sq_accepted s)" using inv(2,3) by (simp add: sq_views_def sq_history_def)
  then have "sq_h s < length (sq_written s)" "sq_written s ! sq_h s = sq_accepted s ! sq_h s"
    by (simp_all add: sq_written_def nth_append)
  then show "sq_slots s ! (sq_h s mod length (sq_slots s)) = Some (sq_accepted s ! sq_h s)"
    "sq_write_stamp s ! (sq_h s mod length (sq_slots s)) \<le> sq_tail_view s"
    using inv(4) h by (force simp: sq_slots_ok_def)+
qed

lemma sq_recv_read_slot_eq:
  assumes "sq_invar s" "sq_rpc s = RReadSlot mode head"
  shows "sq_recv_read_slot mode head s =
    s\<lparr>sq_slots := (sq_slots s)[sq_h s mod length (sq_slots s) := None],
      sq_read_stamp := (sq_read_stamp s)[sq_h s mod length (sq_slots s) := Suc (sq_h s)],
      sq_rpc := RStoreHead mode head (sq_accepted s ! sq_h s)\<rparr>"
proof -
  note inv = sq_invarD [OF assms(1)]
  have "ring_index head (sq_mask s) = sq_h s mod length (sq_slots s)" "0 < length (sq_slots s)"
    using sq_index [OF inv(1)] inv(6) assms(2) by simp_all
  then show ?thesis
    using sq_recv_read_slot_value [OF assms] inv(8) sq_lengths(1) [OF inv(2)]
    by (simp add: sq_recv_read_slot_def Let_def)
qed

lemma sq_recv_read_slot_invar:
  assumes "sq_invar s" "sq_rpc s = RReadSlot mode head"
  shows "sq_invar (sq_recv_read_slot mode head s)"
proof -
  note inv = sq_invarD [OF assms(1)]
  let ?P = "length (sq_slots s)" and ?u = "sq_recv_read_slot mode head s"
  note eq = sq_recv_read_slot_eq [OF assms]
  have P: "0 < ?P" using sq_index [OF inv(1)] by simp
  have h: "sq_h s < sq_tail_view s" "head = of_nat (sq_h s)" "sq_taken s = sq_h s"
    using inv(6) assms(2) by (simp_all add: sq_taken_def)
  have lens: "length (sq_read_stamp s) = ?P" using inv(1) by (simp add: sq_geometry_def)
  have proj: "sq_h ?u = sq_h s" "sq_t ?u = sq_t s" "sq_taken ?u = Suc (sq_h s)" "sq_written ?u = sq_written s"
    unfolding eq by (simp_all add: sq_proj)
  have lo: "sq_h s < length (sq_written s)"
    using h(1) inv(2,3) by (simp add: sq_views_def sq_history_def sq_written_def)
  have other: "n mod ?P \<noteq> sq_h s mod ?P" if "sq_h s < n" "n < sq_h s + ?P" for n
    using ring_slot_neq [of "sq_h s" n ?P "sq_h s"] that P by simp
  have hi: "length (sq_written s) \<le> sq_h s + ?P"
    using inv(1,2,3,5) by (cases "sq_spc s") (auto simp: sq_written_def sq_history_def sq_views_def sq_geometry_def)
  have "sq_slots_ok ?u"
    unfolding sq_slots_ok_def proj
  proof (intro conjI allI impI)
    fix n assume n: "Suc (sq_h s) \<le> n" "n < length (sq_written s)"
    then have "n mod ?P \<noteq> sq_h s mod ?P" using other hi by simp
    then show "sq_slots ?u ! (n mod length (sq_slots ?u)) = Some (sq_written s ! n)"
      "sq_write_stamp ?u ! (n mod length (sq_slots ?u)) \<le> n + 1"
      unfolding eq using n inv(4) h(3) by (simp_all add: sq_slots_ok_def nth_list_update)
  next
    fix n assume n: "length (sq_written s) \<le> n" "n < Suc (sq_h s) + length (sq_slots ?u)"
    show "sq_slots ?u ! (n mod length (sq_slots ?u)) = None"
      "sq_read_stamp ?u ! (n mod length (sq_slots ?u)) \<le> n + 1 - length (sq_slots ?u)"
      using n P lo lens other [of n] inv(4) h(3) unfolding eq
      by (cases "n = sq_h s + ?P"; simp add: sq_slots_ok_def nth_list_update)+
  qed
  moreover have "sq_spc_ok (sq_spc ?u) ?u"
    using inv(5) sq_spc_ok_frame [of ?u s] proj(2) unfolding eq by simp
  moreover have "sq_geometry ?u" "sq_history ?u" "sq_views ?u" "sq_final ?u" "\<not> sq_fault ?u" "sq_rpc_ok (sq_rpc ?u) ?u"
    using inv proj h unfolding eq
    by (simp_all add: sq_geometry_def sq_history_def sq_views_def sq_final_def)
  ultimately show ?thesis by (simp add: sq_invar_def)
qed

lemma sq_recv_store_head_invar:
  assumes "sq_invar s" "sq_rpc s = RStoreHead mode head v"
  shows "sq_invar (sq_recv_store_head mode head v s)"
proof -
  note inv = sq_invarD [OF assms(1)]
  let ?u = "sq_recv_store_head mode head v s"
  have h: "head = of_nat (sq_h s)" "sq_h s < sq_tail_view s" "v = sq_accepted s ! sq_h s"
    using inv(6) assms(2) by simp_all
  have len: "sq_head s \<noteq> []" using sq_lengths(1) [OF inv(2)] by auto
  have proj: "sq_h ?u = Suc (sq_h s)" "sq_t ?u = sq_t s" "sq_taken ?u = sq_taken s" "sq_written ?u = sq_written s"
    using assms(2) len by (cases mode; simp add: sq_recv_store_head_def sq_proj Let_def)+
  have ht: "sq_h s < sq_t s" "length (sq_accepted s) = sq_t s"
    using inv(2,3) h(2) by (simp_all add: sq_views_def sq_history_def)
  have "sq_slots_ok ?u"
    using inv(4) proj sq_slots_ok_cong [of ?u s] by (cases mode) (simp_all add: sq_recv_store_head_def Let_def)
  moreover have "sq_history ?u"
    using inv(2) proj ht h map_of_nat_snoc [of "sq_h s"]
    by (cases mode) (simp_all add: sq_history_def sq_recv_store_head_def Let_def take_Suc_conv_app_nth)
  moreover have "sq_spc_ok (sq_spc ?u) ?u"
    using inv(5) sq_spc_ok_frame [of ?u s] proj(2) by (cases mode) (simp_all add: sq_recv_store_head_def Let_def)
  moreover have "sq_views ?u"
    using inv(3) proj(1,2) h(2) by (cases mode) (simp_all add: sq_views_def sq_recv_store_head_def Let_def)
  moreover have "sq_geometry ?u" "\<not> sq_fault ?u" "sq_rpc_ok (sq_rpc ?u) ?u"
    using inv by (cases mode; simp add: sq_recv_store_head_def Let_def sq_geometry_def)+
  moreover have "sq_final ?u"
    using inv(7) ht(1) by (cases mode) (auto simp: sq_recv_store_head_def Let_def sq_final_def)
  ultimately show ?thesis by (simp add: sq_invar_def)
qed

section \<open>Every execution keeps the invariant\<close>

lemma sq_sender_move_invar: "sq_invar s \<Longrightarrow> sq_invar (sq_sender_move ev s)"
  by (cases "sq_spc s"; cases ev; simp add: sq_sender_move_def sq_send_begin_invar sq_send_load_tail_invar
      sq_send_load_head_invar sq_send_write_slot_invar sq_send_store_tail_invar sq_sender_drop_invar)

lemma sq_receiver_move_invar: "sq_invar s \<Longrightarrow> sq_invar (sq_receiver_move ev s)"
  by (cases "sq_rpc s"; cases ev; simp add: sq_receiver_move_def sq_recv_call_invar sq_recv_load_head_invar
      sq_recv_load_tail_invar sq_recv_load_alive_invar sq_recv_reload_tail_invar sq_recv_read_slot_invar
      sq_recv_store_head_invar sq_receiver_drop_invar)

lemma sq_run_invar: "sq_invar s \<Longrightarrow> sq_invar (sq_run evs s)"
  unfolding sq_run_def
  by (induction evs arbitrary: s) (simp_all add: sq_step_def sq_sender_move_invar sq_receiver_move_invar)

lemma sq_bounded_invar:
  assumes "capacity \<le> 2 ^ 63"
  shows "sq_invar (sq_bounded capacity)"
proof -
  let ?c = "max capacity 1" and ?s = "sq_bounded capacity"
  obtain k where k: "next_power_of_two ?c = 2 ^ k" "k \<le> 63"
    using next_power_of_two_exp [of ?c 63] assms by auto
  have c: "unat (of_nat ?c :: u64) = ?c"
    by (rule unat_of_nat_small) (use assms in \<open>simp add: max_def\<close>)
  have "?c \<le> 2 ^ k" using next_power_of_two_ge [of ?c] k(1) by simp
  then have "sq_geometry ?s"
    using k c by (auto simp: sq_geometry_def sq_bounded_def Let_def simp del: of_nat_max)
  moreover have "sq_slots_ok ?s"
    using k(1) by (simp add: sq_slots_ok_def sq_bounded_def Let_def sq_written_def)
  ultimately show ?thesis
    by (simp add: sq_invar_def sq_history_def sq_views_def sq_final_def)
      (simp add: sq_bounded_def Let_def sq_proj)
qed


section \<open>What is left in the ring\<close>

definition sq_settled :: "'a sq \<Rightarrow> bool" where
  "sq_settled s \<longleftrightarrow> (case sq_spc s of SStoreTail _ _ \<Rightarrow> False | _ \<Rightarrow> True) \<and>
     (case sq_rpc s of RStoreHead _ _ _ \<Rightarrow> False | _ \<Rightarrow> True)"

lemma sq_inner_drop_contents:
  assumes "sq_invar s" "sq_settled s"
  shows "sq_inner_drop s = map Some (drop (sq_h s) (sq_accepted s))"
proof (rule nth_equalityI)
  note inv = sq_invarD [OF assms(1)]
  have c: "unat (sq_capacity s) < 2 ^ 64" using sq_capacity_bound [OF inv(1)] by simp
  then have "sq_h s \<le> sq_t s" "sq_t s - sq_h s < 2 ^ 64" "length (sq_accepted s) = sq_t s"
    using inv(2,3) by (auto simp: sq_views_def sq_history_def)
  then have n: "unat (last (sq_tail s) - last (sq_head s)) = length (sq_accepted s) - sq_h s"
    using cursor_diff [of "sq_h s" "sq_t s"] by (simp add: sq_last_head [OF inv(2)] sq_last_tail [OF inv(2)])
  then show "length (sq_inner_drop s) = length (map Some (drop (sq_h s) (sq_accepted s)))"
    by (simp add: sq_inner_drop_def Let_def)
  have all: "sq_written s = sq_accepted s" "sq_taken s = sq_h s"
    using assms(2) by (auto simp: sq_settled_def sq_written_def sq_taken_def
        split: sender_pc.splits receiver_pc.splits)
  fix i assume "i < length (sq_inner_drop s)"
  then have i: "i < length (sq_accepted s) - sq_h s" using n by (simp add: sq_inner_drop_def Let_def)
  then have "sq_slots s ! ((sq_h s + i) mod length (sq_slots s)) = Some (sq_accepted s ! (sq_h s + i))"
    using inv(4) all by (simp add: sq_slots_ok_def)
  then show "sq_inner_drop s ! i = map Some (drop (sq_h s) (sq_accepted s)) ! i"
    using i n sq_index(1) [OF inv(1), of "sq_h s + i"] sq_last_head [OF inv(2)]
    by (simp add: sq_inner_drop_def Let_def)
qed

lemma sq_delivered_length: "sq_invar s \<Longrightarrow> length (sq_delivered s) = sq_h s \<and> sq_h s \<le> length (sq_accepted s)"
  by (simp add: sq_invar_def sq_history_def sq_views_def)

section \<open>The theorems on executions\<close>

lemma sq_occupancy:
  assumes "sq_invar s"
  shows "length (sq_accepted s) \<le> length (sq_delivered s) + unat (sq_capacity s)"
  using assms sq_delivered_length [OF assms] by (simp add: sq_invar_def sq_history_def sq_views_def)

lemma sq_access_capacity [simp]:
  "sq_capacity (sq_send_begin v b s) = sq_capacity s" "sq_capacity (sq_send_load_tail v s) = sq_capacity s"
  "sq_capacity (sq_send_load_head v t i s) = sq_capacity s" "sq_capacity (sq_send_write_slot v t s) = sq_capacity s"
  "sq_capacity (sq_send_store_tail v t s) = sq_capacity s" "sq_capacity (sq_sender_drop s) = sq_capacity s"
  "sq_capacity (sq_recv_load_head m s) = sq_capacity s" "sq_capacity (sq_recv_load_tail m h i s) = sq_capacity s"
  "sq_capacity (sq_recv_load_alive h b s) = sq_capacity s" "sq_capacity (sq_recv_reload_tail h s) = sq_capacity s"
  "sq_capacity (sq_recv_read_slot m h s) = sq_capacity s" "sq_capacity (sq_recv_store_head m h v s) = sq_capacity s"
  "sq_capacity (sq_receiver_drop s) = sq_capacity s"
  by (simp_all add: sq_send_begin_def sq_send_load_tail_def sq_send_load_head_def sq_send_write_slot_def
      sq_send_store_tail_def sq_sender_drop_def sq_recv_load_head_def sq_recv_load_tail_def sq_recv_load_alive_def
      sq_recv_reload_tail_def sq_recv_read_slot_def sq_recv_store_head_def sq_receiver_drop_def Let_def
      split: option.splits)

lemma sq_run_capacity: "sq_capacity (sq_run evs s) = sq_capacity s"
proof -
  have "sq_capacity (sq_sender_move ev s) = sq_capacity s" for s :: "'a sq" and ev
    by (cases "sq_spc s"; cases ev; simp add: sq_sender_move_def)
  moreover have "sq_capacity (sq_receiver_move ev s) = sq_capacity s" for s :: "'a sq" and ev
    by (cases "sq_rpc s"; cases ev; simp add: sq_receiver_move_def)
  ultimately show ?thesis unfolding sq_run_def by (induction evs arbitrary: s) (simp_all add: sq_step_def)
qed

text \<open>
  Claim C18.  The lock-free queue is safe under every interleaving and every stale load the
  release/acquire orderings allow, through any number of cursor wrap-arounds: no access to a
  slot races with the other thread, reads an uninitialised slot or overwrites a live value;
  the receiver gets a prefix of what the sender's calls accepted, in order; and at most
  \<open>capacity.max(1)\<close> values are in flight.
\<close>

theorem sq_concurrent_safety:
  assumes "capacity \<le> 2 ^ 63"
  shows "let s = sq_run evs (sq_bounded capacity) in
    \<not> sq_fault s \<and> sq_delivered s = take (length (sq_delivered s)) (sq_accepted s) \<and>
    length (sq_accepted s) \<le> length (sq_delivered s) + max capacity 1"
proof -
  let ?s = "sq_run evs (sq_bounded capacity)"
  have inv: "sq_invar ?s" using sq_run_invar [OF sq_bounded_invar [OF assms]] .
  have "unat (of_nat (max capacity 1) :: u64) = max capacity 1"
    by (rule unat_of_nat_small) (use assms in \<open>simp add: max_def\<close>)
  then have "unat (sq_capacity ?s) = max capacity 1"
    by (simp add: sq_run_capacity) (simp add: sq_bounded_def Let_def)
  moreover have "sq_delivered ?s = take (length (sq_delivered ?s)) (sq_accepted ?s)"
    using sq_delivered_length [OF inv] inv by (simp add: sq_invar_def sq_history_def)
  ultimately show ?thesis
    using inv sq_occupancy [OF inv] by (simp add: Let_def sq_invar_def)
qed

theorem sq_concurrent_safety_witness:
  "let s = sq_run [SendCall (7::nat) False, RecvCall, SendStep, RecvStep, SendStep, SendStep, RecvObserve 1]
             (sq_bounded 2) in
    \<not> sq_fault s \<and> sq_delivered s = take (length (sq_delivered s)) (sq_accepted s) \<and>
    length (sq_accepted s) \<le> length (sq_delivered s) + max 2 1"
  by (rule sq_concurrent_safety) simp

text \<open>
  Claim C19.  \<open>Disconnected\<close> is never early: once \<open>try_recv\<close> has reported it, every value ever
  accepted has been delivered, although the sender may have published values between the
  receiver's first load of the tail and its load of \<open>sender_alive\<close>.
\<close>

theorem sq_disconnected_complete:
  assumes "capacity \<le> 2 ^ 63"
    and "Err RecvDisconnected \<in> set (sq_received (sq_run evs (sq_bounded capacity)))"
  shows "sq_delivered (sq_run evs (sq_bounded capacity)) = sq_accepted (sq_run evs (sq_bounded capacity))"
proof -
  let ?s = "sq_run evs (sq_bounded capacity)"
  have inv: "sq_invar ?s" using sq_run_invar [OF sq_bounded_invar [OF assms(1)]] .
  then have "sq_h ?s = sq_t ?s" using assms(2) by (simp add: sq_invar_def sq_final_def)
  then show ?thesis using inv by (simp add: sq_invar_def sq_history_def)
qed

lemma next_power_of_two_1: "next_power_of_two 1 = 1" "next_power_of_two (Suc 0) = 1"
  by (simp_all add: next_power_of_two.simps)

definition sq_demo_drop :: "nat sq_event list" where
  "sq_demo_drop = [RecvCall, RecvStep, RecvObserve 0, SenderDrop, RecvSees False, RecvStep]"

theorem sq_disconnected_complete_witness:
  "Err RecvDisconnected \<in> set (sq_received (sq_run sq_demo_drop (sq_bounded 1))) \<and>
   sq_delivered (sq_run sq_demo_drop (sq_bounded 1)) = sq_accepted (sq_run sq_demo_drop (sq_bounded 1))"
proof -
  have "Err RecvDisconnected \<in> set (sq_received (sq_run sq_demo_drop (sq_bounded 1)))"
    by (simp add: sq_demo_drop_def sq_run_def sq_step_def sq_sender_move_def sq_receiver_move_def sq_bounded_def
        Let_def next_power_of_two_1 sq_recv_load_head_def sq_recv_load_tail_def sq_sender_drop_def
        sq_recv_load_alive_def sq_recv_reload_tail_def)
  with sq_disconnected_complete [of 1 sq_demo_drop] show ?thesis by simp
qed

text \<open>
  Dropping the ring leaks nothing and drops nothing twice: when both handles are
  gone, the values \<open>Drop for Inner\<close> drops in place are exactly the accepted values that were
  never delivered, in order, and every slot it touches is initialised.
\<close>

theorem sq_inner_drop_exact:
  assumes "capacity \<le> 2 ^ 63"
    and "sq_spc (sq_run evs (sq_bounded capacity)) = SGone" "sq_rpc (sq_run evs (sq_bounded capacity)) = RGone"
  shows "map Some (sq_accepted (sq_run evs (sq_bounded capacity))) =
    map Some (sq_delivered (sq_run evs (sq_bounded capacity))) @ sq_inner_drop (sq_run evs (sq_bounded capacity))"
proof -
  let ?s = "sq_run evs (sq_bounded capacity)"
  have inv: "sq_invar ?s" using sq_run_invar [OF sq_bounded_invar [OF assms(1)]] .
  moreover have "sq_settled ?s" using assms(2,3) by (simp add: sq_settled_def)
  moreover have "sq_delivered ?s = take (sq_h ?s) (sq_accepted ?s)" using inv by (simp add: sq_invar_def sq_history_def)
  ultimately show ?thesis by (simp add: sq_inner_drop_contents flip: map_append)
qed

definition sq_demo_leave :: "nat sq_event list" where
  "sq_demo_leave = [SendCall 5 False, SendStep, SendStep, SendStep, SenderDrop, ReceiverDrop]"

theorem sq_inner_drop_exact_witness:
  "map Some (sq_accepted (sq_run sq_demo_leave (sq_bounded 1))) =
    map Some (sq_delivered (sq_run sq_demo_leave (sq_bounded 1))) @ sq_inner_drop (sq_run sq_demo_leave (sq_bounded 1)) \<and>
   sq_accepted (sq_run sq_demo_leave (sq_bounded 1)) = [5]"
proof -
  have "sq_spc (sq_run sq_demo_leave (sq_bounded 1)) = SGone" "sq_rpc (sq_run sq_demo_leave (sq_bounded 1)) = RGone"
    "sq_accepted (sq_run sq_demo_leave (sq_bounded 1)) = [5]"
    by (simp_all add: sq_demo_leave_def sq_run_def sq_step_def sq_sender_move_def sq_receiver_move_def sq_bounded_def
        Let_def next_power_of_two_1 sq_send_begin_def sq_send_load_tail_def sq_sender_drop_def sq_receiver_drop_def
        sq_send_write_slot_def sq_send_store_tail_def)
  with sq_inner_drop_exact [of 1 sq_demo_leave] show ?thesis by simp
qed

end
