(* ===== verification/SyncSpscCalls.thy ===== *)
theory SyncSpscCalls
  imports SyncSpsc
begin

text \<open>
  The operations of \<open>src/src/libs/agentdp-ds/src/sync/spsc.rs\<close> as whole calls: a call runs its
  accesses to the end while the other thread is idle and every load sees the latest value.
  Used this way the queue meets the contract of a bounded channel.
\<close>

section \<open>Calls without interference\<close>

text \<open>A whole call of one thread while the other is idle, every load seeing the latest value.\<close>

definition sq_try_send :: "'a sq \<Rightarrow> 'a \<Rightarrow> 'a sq \<times> (unit, 'a try_send_error) result" where
  "sq_try_send s val =
     (let s = sq_run [SendCall val False, SendStep, SendObserve (length (sq_head s) - 1), SendStep, SendStep] s
      in (s, last (sq_sent s)))"

definition sq_try_recv :: "'a sq \<Rightarrow> 'a sq \<times> ('a, try_recv_error) result" where
  "sq_try_recv s =
     (let s = sq_run [RecvCall, RecvStep, RecvObserve (length (sq_tail s) - 1), RecvSees False,
                      RecvStep, RecvStep, RecvStep] s
      in (s, last (sq_received s)))"

definition sq_idle :: "'a sq \<Rightarrow> bool" where
  "sq_idle s \<longleftrightarrow> sq_invar s \<and> sq_spc s = SIdle \<and> sq_rpc s = RIdle"

definition sq_contents :: "'a sq \<Rightarrow> 'a list" where
  "sq_contents s = map the (sq_inner_drop s)"

lemma sq_idle_contents: "sq_idle s \<Longrightarrow> sq_contents s = drop (sq_h s) (sq_accepted s)"
  by (simp add: sq_contents_def sq_idle_def sq_inner_drop_contents sq_settled_def comp_def)

text \<open>Which access an event triggers, by the program counter it meets.\<close>

lemma sq_send_ignored [simp]:
  "sq_receiver_move (SendCall v b) s = s" "sq_receiver_move SendStep s = s"
  "sq_receiver_move (SendObserve i) s = s" "sq_receiver_move SenderDrop s = s"
  by (simp_all add: sq_receiver_move_def split: receiver_pc.splits)

lemma sq_recv_ignored [simp]:
  "sq_sender_move RecvCall s = s" "sq_sender_move DrainCall s = s" "sq_sender_move RecvStep s = s"
  "sq_sender_move (RecvObserve i) s = s" "sq_sender_move (RecvSees b) s = s" "sq_sender_move ReceiverDrop s = s"
  by (simp_all add: sq_sender_move_def split: sender_pc.splits)

lemma sq_send_steps:
  "sq_spc s = SIdle \<Longrightarrow> sq_step s (SendCall v b) = sq_send_begin v b s"
  "sq_spc s = SIdle \<Longrightarrow> sq_step s SendStep = s"
  "sq_spc s = SIdle \<Longrightarrow> sq_step s (SendObserve i) = s"
  "sq_spc s = SIdle \<Longrightarrow> sq_step s SenderDrop = sq_sender_drop s"
  "sq_spc s = SLoadTail v \<Longrightarrow> sq_step s SendStep = sq_send_load_tail v s"
  "sq_spc s = SLoadHead v t \<Longrightarrow> sq_head_view s \<le> i \<Longrightarrow> i < length (sq_head s) \<Longrightarrow>
    sq_step s (SendObserve i) = sq_send_load_head v t i s"
  "sq_spc s = SWriteSlot v t \<Longrightarrow> sq_step s (SendObserve i) = s"
  "sq_spc s = SWriteSlot v t \<Longrightarrow> sq_step s SendStep = sq_send_write_slot v t s"
  "sq_spc s = SStoreTail v t \<Longrightarrow> sq_step s SendStep = sq_send_store_tail v t s"
  by (simp_all add: sq_step_def sq_sender_move_def)

lemma sq_recv_steps:
  "sq_rpc s = RIdle \<Longrightarrow> sq_step s RecvCall = s\<lparr>sq_rpc := RLoadHead None\<rparr>"
  "sq_rpc s = RIdle \<Longrightarrow> sq_step s RecvStep = s"
  "sq_rpc s = RIdle \<Longrightarrow> sq_step s (RecvSees b) = s"
  "sq_rpc s = RLoadHead m \<Longrightarrow> sq_step s RecvStep = sq_recv_load_head m s"
  "sq_rpc s = RLoadTail m h \<Longrightarrow> sq_tail_view s \<le> i \<Longrightarrow> i < length (sq_tail s) \<Longrightarrow>
    sq_step s (RecvObserve i) = sq_recv_load_tail m h i s"
  "sq_rpc s = RLoadAlive h \<Longrightarrow> sq_step s (RecvSees b) = sq_recv_load_alive h b s"
  "sq_rpc s = RReloadTail h \<Longrightarrow> sq_step s RecvStep = sq_recv_reload_tail h s"
  "sq_rpc s = RReadSlot m h \<Longrightarrow> sq_step s (RecvObserve i) = s"
  "sq_rpc s = RReadSlot m h \<Longrightarrow> sq_step s (RecvSees b) = s"
  "sq_rpc s = RReadSlot m h \<Longrightarrow> sq_step s RecvStep = sq_recv_read_slot m h s"
  "sq_rpc s = RStoreHead m h v \<Longrightarrow> sq_step s RecvStep = sq_recv_store_head m h v s"
  by (simp_all add: sq_step_def sq_receiver_move_def)

lemma sq_latest_head:
  assumes "sq_invar s"
  shows "sq_head_view s \<le> length (sq_head s) - Suc 0" "length (sq_head s) - Suc 0 < length (sq_head s)"
  using sq_lengths(1) [OF sq_invarD(2) [OF assms]] sq_invarD(3) [OF assms] by (simp_all add: sq_views_def)

lemma sq_latest_tail:
  assumes "sq_invar s"
  shows "sq_tail_view s \<le> length (sq_tail s) - Suc 0" "length (sq_tail s) - Suc 0 < length (sq_tail s)"
  using sq_lengths(2) [OF sq_invarD(2) [OF assms]] sq_invarD(3) [OF assms] by (simp_all add: sq_views_def)

lemma sq_latest_values:
  assumes "sq_history s"
  shows "sq_head s ! (length (sq_head s) - 1) = of_nat (sq_h s)"
    "sq_tail s ! (length (sq_tail s) - 1) = of_nat (sq_t s)"
  using sq_last_head [OF assms] sq_last_tail [OF assms] sq_lengths [OF assms]
  by (metis last_conv_nth list.size(3) nat.distinct(1))+

lemma sq_write_one:
  assumes "sq_spc s = SWriteSlot v tail"
  defines "u \<equiv> sq_step (sq_step s SendStep) SendStep"
  shows "sq_spc u = SIdle" "sq_rpc u = sq_rpc s" "sq_capacity u = sq_capacity s" "sq_head u = sq_head s"
    "sq_accepted u = sq_accepted s @ [v]" "sq_sent u = sq_sent s @ [Ok ()]"
proof -
  define w where "w = sq_send_write_slot v tail s"
  have w: "sq_spc w = SStoreTail v tail" "sq_rpc w = sq_rpc s" "sq_capacity w = sq_capacity s"
    "sq_head w = sq_head s" "sq_accepted w = sq_accepted s" "sq_sent w = sq_sent s"
    by (simp_all add: w_def sq_send_write_slot_def Let_def)
  have "u = sq_send_store_tail v tail w"
    using assms(1) w(1) by (simp add: u_def sq_send_steps flip: w_def)
  then show "sq_spc u = SIdle" "sq_rpc u = sq_rpc s" "sq_capacity u = sq_capacity s" "sq_head u = sq_head s"
    "sq_accepted u = sq_accepted s @ [v]" "sq_sent u = sq_sent s @ [Ok ()]"
    using w by (simp_all add: sq_send_store_tail_def)
qed

text \<open>The full check, up to the point where the slot is about to be written.\<close>

lemma sq_send_check:
  assumes "sq_invar s" "sq_spc s = SIdle" "sq_receiver_alive s"
    and c_def: "c = sq_step (sq_step (sq_step s (SendCall v False)) SendStep) (SendObserve (length (sq_head s) - 1))"
  shows "sq_rpc c = sq_rpc s" "sq_capacity c = sq_capacity s" "sq_head c = sq_head s"
    "sq_accepted c = sq_accepted s"
    "sq_spc c = SWriteSlot v (last (sq_tail s)) \<or>
     sq_spc c = SIdle \<and> sq_sent c = sq_sent s @ [Err (Full v)] \<and>
     last (sq_tail s) - sq_head s ! (length (sq_head s) - 1) = sq_capacity s"
proof -
  define b where "b = sq_send_load_tail v (sq_send_begin v False s)"
  have b: "sq_spc b = SWriteSlot v (last (sq_tail s)) \<or> sq_spc b = SLoadHead v (last (sq_tail s))"
    "sq_rpc b = sq_rpc s" "sq_capacity b = sq_capacity s" "sq_head b = sq_head s" "sq_tail b = sq_tail s"
    "sq_accepted b = sq_accepted s" "sq_sent b = sq_sent s" "sq_head_view b = sq_head_view s"
    using assms(2,3) by (simp_all add: b_def sq_send_begin_def sq_send_load_tail_def Let_def)
  have c: "c = sq_step b (SendObserve (length (sq_head s) - 1))"
    using assms(2,3) by (simp add: c_def b_def sq_send_steps sq_send_begin_def)
  have "c = b \<and> sq_spc b = SWriteSlot v (last (sq_tail s)) \<or>
      c = sq_send_load_head v (last (sq_tail s)) (length (sq_head s) - 1) b"
    using b(1) c b(4,8) sq_latest_head [OF assms(1)] by (auto simp: sq_send_steps)
  then show "sq_rpc c = sq_rpc s" "sq_capacity c = sq_capacity s" "sq_head c = sq_head s"
    "sq_accepted c = sq_accepted s"
    "sq_spc c = SWriteSlot v (last (sq_tail s)) \<or>
     sq_spc c = SIdle \<and> sq_sent c = sq_sent s @ [Err (Full v)] \<and>
     last (sq_tail s) - sq_head s ! (length (sq_head s) - 1) = sq_capacity s"
    using b by (auto simp: sq_send_load_head_def Let_def split: if_splits)
qed

lemma sq_try_send_outcome:
  assumes "sq_idle s" "sq_try_send s v = (u, r)"
  shows "sq_idle u \<and> sq_capacity u = sq_capacity s \<and> sq_h u = sq_h s \<and>
    (r = Ok () \<and> sq_accepted u = sq_accepted s @ [v] \<or>
     r = Err (SendDisconnected v) \<and> sq_accepted u = sq_accepted s \<or>
     r = Err (Full v) \<and> sq_accepted u = sq_accepted s \<and>
       last (sq_tail s) - sq_head s ! (length (sq_head s) - 1) = sq_capacity s)"
proof -
  have inv: "sq_invar s" "sq_spc s = SIdle" "sq_rpc s = RIdle" using assms(1) by (simp_all add: sq_idle_def)
  have "sq_invar u" using sq_run_invar [OF inv(1)] assms(2) by (auto simp: sq_try_send_def Let_def)
  define c where "c = sq_step (sq_step (sq_step s (SendCall v False)) SendStep) (SendObserve (length (sq_head s) - 1))"
  have u: "u = sq_step (sq_step c SendStep) SendStep" "r = last (sq_sent u)"
    using assms(2) by (auto simp: sq_try_send_def sq_run_def Let_def c_def)
  show ?thesis
  proof (cases "sq_receiver_alive s")
    case False
    then have "c = s\<lparr>sq_sent := sq_sent s @ [Err (SendDisconnected v)]\<rparr>"
      using inv(2) by (simp add: c_def sq_send_steps sq_send_begin_def)
    then show ?thesis using u inv \<open>sq_invar u\<close> by (simp add: sq_send_steps sq_idle_def sq_h_def)
  next
    case True
    note check = sq_send_check [OF inv(1,2) True c_def]
    from check(5) show ?thesis
    proof
      assume "sq_spc c = SWriteSlot v (last (sq_tail s))"
      from sq_write_one [OF this] show ?thesis
        using u check(1-4) inv(3) \<open>sq_invar u\<close> by (simp add: sq_idle_def sq_h_def)
    next
      assume "sq_spc c = SIdle \<and> sq_sent c = sq_sent s @ [Err (Full v)] \<and>
        last (sq_tail s) - sq_head s ! (length (sq_head s) - 1) = sq_capacity s"
      then show ?thesis
        using u check(1-4) inv(3) \<open>sq_invar u\<close> by (simp add: sq_idle_def sq_h_def sq_send_steps)
    qed
  qed
qed

lemma sq_read_one:
  assumes "sq_invar s" "sq_rpc s = RReadSlot None head"
  shows "sq_step (sq_step s RecvStep) RecvStep =
    s\<lparr>sq_slots := (sq_slots s)[sq_h s mod length (sq_slots s) := None],
      sq_read_stamp := (sq_read_stamp s)[sq_h s mod length (sq_slots s) := Suc (sq_h s)],
      sq_head := sq_head s @ [head + 1],
      sq_delivered := sq_delivered s @ [sq_accepted s ! sq_h s],
      sq_rpc := RIdle,
      sq_received := sq_received s @ [Ok (sq_accepted s ! sq_h s)]\<rparr>"
  using assms by (simp add: sq_recv_steps sq_recv_read_slot_eq sq_recv_store_head_def Let_def)

text \<open>The empty check, up to the point where the slot is about to be read.\<close>

lemma sq_recv_check:
  assumes "sq_invar s" "sq_rpc s = RIdle" "sq_sender_alive s"
  defines "c \<equiv> sq_step (sq_step (sq_step (sq_step s RecvCall) RecvStep)
    (RecvObserve (length (sq_tail s) - 1))) (RecvSees False)"
  shows "sq_spc c = sq_spc s" "sq_capacity c = sq_capacity s" "sq_accepted c = sq_accepted s"
    "sq_head c = sq_head s" "sq_tail c = sq_tail s"
    "sq_rpc c = RReadSlot None (last (sq_head s)) \<or>
     sq_rpc c = RIdle \<and> sq_received c = sq_received s @ [Err Empty] \<and>
     sq_tail s ! (length (sq_tail s) - 1) = last (sq_head s)"
proof -
  define a where "a = sq_recv_load_head None (s\<lparr>sq_rpc := RLoadHead None\<rparr>)"
  have a: "sq_rpc a = RLoadTail None (last (sq_head s)) \<or> sq_rpc a = RReadSlot None (last (sq_head s))"
    "sq_spc a = sq_spc s" "sq_capacity a = sq_capacity s" "sq_accepted a = sq_accepted s"
    "sq_head a = sq_head s" "sq_tail a = sq_tail s" "sq_received a = sq_received s"
    "sq_tail_view a = sq_tail_view s" "sq_sender_alive a"
    using assms(3) by (simp_all add: a_def sq_recv_load_head_def Let_def)
  define b where "b = sq_step a (RecvObserve (length (sq_tail s) - 1))"
  have bb: "b = a \<and> sq_rpc a = RReadSlot None (last (sq_head s)) \<or>
      b = sq_recv_load_tail None (last (sq_head s)) (length (sq_tail s) - 1) a"
    using a(1,6,8) sq_latest_tail [OF assms(1)] by (auto simp: b_def sq_recv_steps)
  have b: "sq_rpc b = RReadSlot None (last (sq_head s)) \<or>
      sq_rpc b = RLoadAlive (last (sq_head s)) \<and> sq_tail s ! (length (sq_tail s) - 1) = last (sq_head s)"
    "sq_spc b = sq_spc s" "sq_capacity b = sq_capacity s" "sq_accepted b = sq_accepted s"
    "sq_head b = sq_head s" "sq_tail b = sq_tail s" "sq_received b = sq_received s" "sq_sender_alive b"
    using bb a(2-9) by (auto simp: sq_recv_load_tail_def Let_def split: if_splits)
  have c: "c = sq_step b (RecvSees False)"
    using assms(2) by (simp add: c_def b_def a_def sq_recv_steps)
  have "c = b \<and> sq_rpc b = RReadSlot None (last (sq_head s)) \<or>
      c = sq_recv_load_alive (last (sq_head s)) False b \<and> sq_tail s ! (length (sq_tail s) - 1) = last (sq_head s)"
    using b(1) c by (auto simp: sq_recv_steps)
  then show "sq_spc c = sq_spc s" "sq_capacity c = sq_capacity s" "sq_accepted c = sq_accepted s"
    "sq_head c = sq_head s" "sq_tail c = sq_tail s"
    "sq_rpc c = RReadSlot None (last (sq_head s)) \<or>
     sq_rpc c = RIdle \<and> sq_received c = sq_received s @ [Err Empty] \<and>
     sq_tail s ! (length (sq_tail s) - 1) = last (sq_head s)"
    using b(2-8) by (auto simp: sq_recv_load_alive_def)
qed

lemma sq_try_recv_outcome:
  assumes "sq_idle s" "sq_try_recv s = (u, r)"
  shows "sq_idle u \<and> sq_capacity u = sq_capacity s \<and> sq_accepted u = sq_accepted s \<and>
    (r = Ok (sq_accepted s ! sq_h s) \<and> sq_h s < sq_t s \<and> sq_h u = Suc (sq_h s) \<or>
     r = Err Empty \<and> sq_h s = sq_t s \<and> sq_h u = sq_h s)"
proof -
  have inv: "sq_invar s" "sq_spc s = SIdle" "sq_rpc s = RIdle" using assms(1) by (simp_all add: sq_idle_def)
  note parts = sq_invarD [OF inv(1)]
  have "sq_invar u" using sq_run_invar [OF inv(1)] assms(2) by (auto simp: sq_try_recv_def Let_def)
  have alive: "sq_sender_alive s" using parts(7) inv(2) by (simp add: sq_final_def)
  define c where "c = sq_step (sq_step (sq_step (sq_step s RecvCall) RecvStep)
    (RecvObserve (length (sq_tail s) - 1))) (RecvSees False)"
  have u: "u = sq_step (sq_step (sq_step c RecvStep) RecvStep) RecvStep" "r = last (sq_received u)"
    using assms(2) by (auto simp: sq_try_recv_def sq_run_def Let_def c_def)
  have invc: "sq_invar c"
    using inv(1) unfolding c_def sq_step_def by (intro sq_receiver_move_invar sq_sender_move_invar)
  note check = sq_recv_check [OF inv(1,3) alive, folded c_def]
  have ht: "sq_h c = sq_h s" "sq_t c = sq_t s" using check(4,5) by (simp_all add: sq_h_def sq_t_def)
  from check(6) show ?thesis
  proof
    assume c: "sq_rpc c = RReadSlot None (last (sq_head s))"
    have "sq_h s < sq_t s" using sq_invarD(3,6) [OF invc] c ht by (auto simp: sq_views_def)
    moreover have "u = sq_step (sq_step c RecvStep) RecvStep"
      using u(1) by (simp add: sq_read_one [OF invc c] sq_recv_steps)
    moreover have "sq_head s \<noteq> []" using sq_lengths(1) [OF parts(2)] by auto
    ultimately show ?thesis
      using u(2) check(1-5) ht inv(2) \<open>sq_invar u\<close>
      by (simp add: sq_read_one [OF invc c] sq_idle_def) (simp add: sq_h_def)
  next
    assume c: "sq_rpc c = RIdle \<and> sq_received c = sq_received s @ [Err Empty] \<and>
      sq_tail s ! (length (sq_tail s) - 1) = last (sq_head s)"
    then have "of_nat (sq_t s) = (of_nat (sq_h s) :: u64)"
      using sq_latest_values [OF parts(2)] sq_last_head [OF parts(2)] by simp
    then have "sq_h s = sq_t s"
      using sq_empty_test [OF parts(1), of "sq_h s" "sq_t s"] parts(3) by (simp add: sq_views_def)
    then show ?thesis using c u check ht inv(2) \<open>sq_invar u\<close> by (simp add: sq_recv_steps sq_idle_def)
  qed
qed

interpretation sqq: bounded_channel sq_contents "\<lambda>s. unat (sq_capacity s)" sq_idle sq_try_send sq_try_recv
proof
  fix s :: "'a sq"
  assume "sq_idle s"
  then show "length (sq_contents s) \<le> unat (sq_capacity s)"
    using sq_idle_contents [of s] sq_invarD(2,3) [of s]
    by (auto simp: sq_idle_def sq_views_def sq_history_def)
next
  fix s s' :: "'a sq" and v
  assume a: "sq_idle s" "sq_try_send s v = (s', Ok ())"
  then show "sq_contents s' = sq_contents s @ [v]"
    using sq_try_send_outcome [OF a] sq_delivered_length [of s] by (auto simp: sq_idle_contents sq_idle_def)
next
  fix s s' :: "'a sq" and v e
  assume a: "sq_idle s" "sq_try_send s v = (s', Err e)"
  then show "sq_contents s' = sq_contents s"
    using sq_try_send_outcome [OF a] by (auto simp: sq_idle_contents)
next
  fix s s' :: "'a sq" and v w
  assume a: "sq_idle s" "sq_try_send s v = (s', Err (Full w))"
  then have inv: "sq_geometry s" "sq_history s" "sq_views s" by (simp_all add: sq_idle_def sq_invar_def)
  have "of_nat (sq_t s) - of_nat (sq_h s) = sq_capacity s" "w = v"
    using sq_try_send_outcome [OF a] sq_last_tail [OF inv(2)] sq_latest_values [OF inv(2)] by auto
  then have "sq_t s = sq_h s + unat (sq_capacity s)"
    using sq_full_test [OF inv(1), of "sq_h s" "sq_t s"] inv(3) by (simp add: sq_views_def)
  then show "w = v \<and> length (sq_contents s) = unat (sq_capacity s)"
    using a(1) inv(2) \<open>w = v\<close> by (simp add: sq_idle_contents sq_history_def)
next
  fix s s' :: "'a sq" and v
  assume a: "sq_idle s" "sq_try_recv s = (s', Ok v)"
  moreover have "length (sq_accepted s) = sq_t s" using a(1) by (simp add: sq_idle_def sq_invar_def sq_history_def)
  ultimately show "sq_contents s = v # sq_contents s'"
    using sq_try_recv_outcome [OF a] by (auto simp: sq_idle_contents Cons_nth_drop_Suc)
next
  fix s s' :: "'a sq" and e
  assume a: "sq_idle s" "sq_try_recv s = (s', Err e)"
  moreover have "length (sq_accepted s) = sq_t s" using a(1) by (simp add: sq_idle_def sq_invar_def sq_history_def)
  ultimately show "sq_contents s = [] \<and> sq_contents s' = []"
    using sq_try_recv_outcome [OF a] by (auto simp: sq_idle_contents)
qed (use sq_try_send_outcome sq_try_recv_outcome in \<open>metis+\<close>)

text \<open>
  Used without interference the lock-free queue is a bounded channel: over any
  sequence of sends and receives the accepted values are the delivered ones followed by the
  contents of the ring, which never exceed \<open>capacity.max(1)\<close>.
\<close>

theorem sq_sequential_fifo:
  fixes ops :: "'a queue_op list"
  assumes "capacity \<le> 2 ^ 63"
  shows "case run_ops sq_try_send sq_try_recv ops (sq_bounded capacity) of (t, accepted, delivered) \<Rightarrow>
     accepted = delivered @ sq_contents t \<and> length (sq_contents t) \<le> max capacity 1"
proof -
  have c: "unat (of_nat (max capacity 1) :: u64) = max capacity 1"
    by (rule unat_of_nat_small) (use assms in \<open>simp add: max_def\<close>)
  let ?s = "sq_bounded capacity :: 'a sq"
  have idle: "sq_idle ?s"
    using sq_bounded_invar [OF assms] by (simp add: sq_idle_def sq_bounded_def Let_def)
  then have "sq_contents ?s = []"
    by (simp add: sq_idle_contents) (simp add: sq_bounded_def Let_def)
  moreover have "unat (sq_capacity ?s) = max capacity 1"
    using c by (simp add: sq_bounded_def Let_def)
  ultimately show ?thesis
    using sqq.fifo [OF idle, of ops] sqq.bounded [OF idle, of ops] by (auto split: prod.splits)
qed

theorem sq_sequential_fifo_witness:
  "case run_ops sq_try_send sq_try_recv [OpSend (1::nat), OpSend 2, OpRecv] (sq_bounded 1) of
     (t, accepted, delivered) \<Rightarrow> accepted = delivered @ sq_contents t \<and> length (sq_contents t) \<le> max 1 1"
  by (rule sq_sequential_fifo) simp

end
