(* ===== verification/SyncRing.thy ===== *)
theory SyncRing
  imports RingIndex
begin

text \<open>
  The batching ring of \<open>src/src/libs/agentdp-ds/src/sync/ring.rs\<close>: a producer that reserves a
  contiguous unpublished range, writes it in place and commits it, a buffering producer on top
  of it, and a consumer that reads a committed range by reference and releases it.  Calls of
  the two sides interleave freely, one call at a time (the accesses inside a call are those of
  the queue in theory \<open>SyncSpsc\<close>, where they are interleaved one by one); a batch the consumer
  holds stays open across calls of the producer.

  The record is \<open>Inner\<close> with the cursor caches of the two handles.  An index out of range is
  the \<open>None\<close> of an outer \<open>option\<close>.
\<close>

section \<open>State\<close>

datatype try_reserve_error = ReserveRingFull | ReserveDisconnected

datatype try_read_error = ReadEmpty | ReadDisconnected

record 'a ring =
  rg_slots :: "'a list"
  rg_capacity :: u64
  rg_mask :: u64
  rg_head :: u64
  rg_tail :: u64
  rg_producer_alive :: bool
  rg_consumer_alive :: bool
  rg_cached_head :: u64
  rg_cached_tail :: u64

record reserved_batch =
  res_tail :: u64
  res_len :: nat
  res_committed :: bool

record read_batch =
  rb_head :: u64
  rb_len :: nat
  rb_released :: bool

record buffered_producer =
  bp_batch_size :: nat
  bp_reserved_tail :: u64
  bp_reserved_len :: nat
  bp_written :: nat

text \<open>\<open>T::default()\<close> is an argument.\<close>

definition rg_bounded :: "'a \<Rightarrow> nat \<Rightarrow> 'a ring" where
  "rg_bounded dflt capacity =
     (let capacity = max capacity 1;
          physical_capacity = next_power_of_two capacity
      in \<lparr>rg_slots = replicate physical_capacity dflt,
          rg_capacity = of_nat capacity,
          rg_mask = of_nat (physical_capacity - 1),
          rg_head = 0,
          rg_tail = 0,
          rg_producer_alive = True,
          rg_consumer_alive = True,
          rg_cached_head = 0,
          rg_cached_tail = 0\<rparr>)"

definition rg_into_buffered :: "nat \<Rightarrow> buffered_producer" where
  "rg_into_buffered batch_size =
     \<lparr>bp_batch_size = max batch_size 1, bp_reserved_tail = 0, bp_reserved_len = 0, bp_written = 0\<rparr>"

definition rg_buffered :: "'a \<Rightarrow> nat \<Rightarrow> nat \<Rightarrow> 'a ring \<times> buffered_producer" where
  "rg_buffered dflt capacity batch_size = (rg_bounded dflt capacity, rg_into_buffered batch_size)"

section \<open>The producer\<close>

definition rg_reserve_len :: "'a ring \<Rightarrow> u64 \<Rightarrow> 'a ring \<times> (u64, try_reserve_error) result" where
  "rg_reserve_len s len =
     (if \<not> rg_consumer_alive s then (s, Err ReserveDisconnected)
      else let tail = rg_tail s in
        if tail + len - rg_cached_head s > rg_capacity s then
          (let s = s\<lparr>rg_cached_head := rg_head s\<rparr> in
           if tail + len - rg_cached_head s > rg_capacity s then (s, Err ReserveRingFull)
           else (s, Ok tail))
        else (s, Ok tail))"

text \<open>\<open>saturating_sub\<close> on \<open>u64\<close> is subtraction of the naturals the words stand for.\<close>

definition rg_contiguous_available :: "'a ring \<Rightarrow> u64 \<Rightarrow> nat" where
  "rg_contiguous_available s tail =
     (let used = tail - rg_cached_head s;
          available = unat (rg_capacity s) - unat used;
          contiguous = length (rg_slots s) - ring_index tail (rg_mask s)
      in min available contiguous)"

definition rg_commit :: "'a ring \<Rightarrow> u64 \<Rightarrow> nat \<Rightarrow> 'a ring" where
  "rg_commit s tail len = s\<lparr>rg_tail := tail + of_nat len\<rparr>"

definition rg_try_reserve_batch :: "'a ring \<Rightarrow> nat \<Rightarrow> 'a ring \<times> (reserved_batch, try_reserve_error) result" where
  "rg_try_reserve_batch s mx =
     (let mx = max mx 1 in
      case rg_reserve_len s 1 of
        (s, Err e) \<Rightarrow> (s, Err e)
      | (s, Ok tail) \<Rightarrow>
         (s, Ok \<lparr>res_tail = tail, res_len = min (rg_contiguous_available s tail) mx, res_committed = False\<rparr>))"

definition rg_slot_mut_with :: "'a ring \<Rightarrow> u64 \<Rightarrow> ('a \<Rightarrow> 'a) \<Rightarrow> 'a ring option" where
  "rg_slot_mut_with s sequence change = do {
     let index = ring_index sequence (rg_mask s);
     val \<leftarrow> rd (rg_slots s) index;
     slots \<leftarrow> wr (rg_slots s) index (change val);
     Some (s\<lparr>rg_slots := slots\<rparr>)
   }"

definition rg_reserved_get_mut :: "'a ring \<Rightarrow> reserved_batch \<Rightarrow> nat \<Rightarrow> ('a \<Rightarrow> 'a) \<Rightarrow> ('a ring \<times> bool) option" where
  "rg_reserved_get_mut s batch index change =
     (if index \<ge> res_len batch then Some (s, False)
      else map_option (\<lambda>s. (s, True)) (rg_slot_mut_with s (res_tail batch + of_nat index) change))"

fun rg_fill_from :: "'a ring \<Rightarrow> reserved_batch \<Rightarrow> (nat \<Rightarrow> 'a \<Rightarrow> 'a) \<Rightarrow> nat list \<Rightarrow> 'a ring option" where
  "rg_fill_from s batch write [] = Some s"
| "rg_fill_from s batch write (index # is) =
     rg_slot_mut_with s (res_tail batch + of_nat index) (write index) \<bind> (\<lambda>s. rg_fill_from s batch write is)"

definition rg_fill :: "'a ring \<Rightarrow> reserved_batch \<Rightarrow> (nat \<Rightarrow> 'a \<Rightarrow> 'a) \<Rightarrow> 'a ring option" where
  "rg_fill s batch write = rg_fill_from s batch write [0..<res_len batch]"

definition rg_batch_commit :: "'a ring \<Rightarrow> reserved_batch \<Rightarrow> 'a ring" where
  "rg_batch_commit s batch = rg_commit s (res_tail batch) (res_len batch)"

definition rg_batch_commit_len :: "'a ring \<Rightarrow> reserved_batch \<Rightarrow> nat \<Rightarrow> 'a ring" where
  "rg_batch_commit_len s batch len = rg_commit s (res_tail batch) (min len (res_len batch))"

definition rg_producer_drop :: "'a ring \<Rightarrow> 'a ring" where
  "rg_producer_drop s = s\<lparr>rg_producer_alive := False\<rparr>"

section \<open>The buffering producer\<close>

definition bp_flush :: "'a ring \<times> buffered_producer \<Rightarrow> 'a ring \<times> buffered_producer" where
  "bp_flush sp =
     (case sp of (s, p) \<Rightarrow>
      (if bp_written p > 0 then rg_commit s (bp_reserved_tail p) (bp_written p) else s,
       p\<lparr>bp_reserved_tail := 0, bp_reserved_len := 0, bp_written := 0\<rparr>))"

definition bp_reserve_batch ::
  "'a ring \<times> buffered_producer \<Rightarrow> ('a ring \<times> buffered_producer) \<times> (unit, try_reserve_error) result" where
  "bp_reserve_batch sp =
     (case sp of (s, p) \<Rightarrow>
      case rg_reserve_len s 1 of
        (s, Err e) \<Rightarrow> ((s, p), Err e)
      | (s, Ok tail) \<Rightarrow>
         ((s, p\<lparr>bp_reserved_tail := tail,
                bp_reserved_len := min (rg_contiguous_available s tail) (bp_batch_size p),
                bp_written := 0\<rparr>), Ok ()))"

definition bp_write_with ::
  "'a ring \<times> buffered_producer \<Rightarrow> ('a \<Rightarrow> 'a) \<Rightarrow>
    (('a ring \<times> buffered_producer) \<times> (unit, try_reserve_error) result) option" where
  "bp_write_with sp write =
     (let (sp, ready) =
        (if bp_written (snd sp) = bp_reserved_len (snd sp) then bp_reserve_batch (bp_flush sp) else (sp, Ok ()))
      in case ready of
        Err e \<Rightarrow> Some (sp, Err e)
      | Ok _ \<Rightarrow>
         (case sp of (s, p) \<Rightarrow> do {
            s \<leftarrow> rg_slot_mut_with s (bp_reserved_tail p + of_nat (bp_written p)) write;
            let p = p\<lparr>bp_written := bp_written p + 1\<rparr>;
            Some (if bp_written p = bp_reserved_len p then bp_flush (s, p) else (s, p), Ok ())
          }))"

text \<open>Dropping the buffering producer flushes it and then drops the producer inside.\<close>

definition bp_drop :: "'a ring \<times> buffered_producer \<Rightarrow> 'a ring \<times> buffered_producer" where
  "bp_drop sp = (case bp_flush sp of (s, p) \<Rightarrow> (rg_producer_drop s, p))"

section \<open>The consumer\<close>

definition rg_try_read_batch :: "'a ring \<Rightarrow> nat \<Rightarrow> 'a ring \<times> (read_batch, try_read_error) result" where
  "rg_try_read_batch s mx =
     (let mx = max mx 1;
          head = rg_head s;
          (s, err) =
            (if rg_cached_tail s = head then
               let s = s\<lparr>rg_cached_tail := rg_tail s\<rparr> in
               if rg_cached_tail s = head then
                 if rg_producer_alive s then (s, Some ReadEmpty)
                 else let s = s\<lparr>rg_cached_tail := rg_tail s\<rparr> in
                   (s, if rg_cached_tail s = head then Some ReadDisconnected else None)
               else (s, None)
             else (s, None))
      in case err of
        Some e \<Rightarrow> (s, Err e)
      | None \<Rightarrow>
         (let available = rg_cached_tail s - head;
              contiguous = length (rg_slots s) - ring_index head (rg_mask s);
              len = min (min (unat available) contiguous) mx
          in (s, Ok \<lparr>rb_head = head, rb_len = len, rb_released = False\<rparr>)))"

definition rg_release :: "'a ring \<Rightarrow> u64 \<Rightarrow> nat \<Rightarrow> 'a ring" where
  "rg_release s head len = s\<lparr>rg_head := head + of_nat len\<rparr>"

definition rg_slot :: "'a ring \<Rightarrow> u64 \<Rightarrow> 'a option" where
  "rg_slot s sequence = rd (rg_slots s) (ring_index sequence (rg_mask s))"

definition rg_batch_get :: "'a ring \<Rightarrow> read_batch \<Rightarrow> nat \<Rightarrow> ('a option) option" where
  "rg_batch_get s batch index =
     (if index \<ge> rb_len batch then Some None
      else map_option Some (rg_slot s (rb_head batch + of_nat index)))"

text \<open>\<open>for_each\<close> hands the slots to the callback in order; the model returns them.\<close>

fun rg_for_each_from :: "'a ring \<Rightarrow> read_batch \<Rightarrow> nat list \<Rightarrow> 'a list option" where
  "rg_for_each_from s batch [] = Some []"
| "rg_for_each_from s batch (index # is) = do {
     val \<leftarrow> rg_slot s (rb_head batch + of_nat index);
     vals \<leftarrow> rg_for_each_from s batch is;
     Some (val # vals)
   }"

definition rg_for_each :: "'a ring \<Rightarrow> read_batch \<Rightarrow> 'a list option" where
  "rg_for_each s batch = rg_for_each_from s batch [0..<rb_len batch]"

text \<open>\<open>ReadBatchIter::next\<close> and \<open>size_hint\<close>; the iterator's state is its index.\<close>

definition rg_iter_next :: "'a ring \<Rightarrow> read_batch \<Rightarrow> nat \<Rightarrow> ('a option \<times> nat) option" where
  "rg_iter_next s batch index =
     (case rg_batch_get s batch index of
        None \<Rightarrow> None
      | Some None \<Rightarrow> Some (None, index)
      | Some (Some val) \<Rightarrow> Some (Some val, index + 1))"

definition rg_iter_size_hint :: "read_batch \<Rightarrow> nat \<Rightarrow> nat \<times> nat option" where
  "rg_iter_size_hint batch index =
     (let remaining = rb_len batch - index in (remaining, Some remaining))"

definition rg_release_inner :: "'a ring \<Rightarrow> read_batch \<Rightarrow> 'a ring \<times> read_batch" where
  "rg_release_inner s batch =
     (if \<not> rb_released batch
      then (rg_release s (rb_head batch) (rb_len batch), batch\<lparr>rb_released := True\<rparr>)
      else (s, batch))"

text \<open>\<open>release\<close> consumes the batch, whose drop then finds it released.\<close>

definition rg_batch_release :: "'a ring \<Rightarrow> read_batch \<Rightarrow> 'a ring" where
  "rg_batch_release s batch = (case rg_release_inner s batch of (s, batch) \<Rightarrow> fst (rg_release_inner s batch))"

definition rg_consumer_drop :: "'a ring \<Rightarrow> 'a ring" where
  "rg_consumer_drop s = s\<lparr>rg_consumer_alive := False\<rparr>"

section \<open>Executions\<close>

text \<open>
  A buffering producer and a consumer on one ring.  The logs hold the values whose write was
  accepted and the values the consumer read and released; \<open>rs_eof\<close> is set once the consumer
  was told \<open>Disconnected\<close>.  A batch is read when it is released, after whatever the producer
  did in the meantime.
\<close>

record 'a ring_sys =
  rs_ring :: "'a ring"
  rs_prod :: buffered_producer
  rs_batch :: "read_batch option"
  rs_accepted :: "'a list"
  rs_released :: "'a list"
  rs_eof :: bool
  rs_panic :: bool

datatype 'a ring_op = RWrite 'a | RFlush | RDropProducer | RRead nat | RRelease | RDropConsumer

definition rs_new :: "'a \<Rightarrow> nat \<Rightarrow> nat \<Rightarrow> 'a ring_sys" where
  "rs_new dflt capacity batch_size =
     (case rg_buffered dflt capacity batch_size of (s, p) \<Rightarrow>
      \<lparr>rs_ring = s, rs_prod = p, rs_batch = None, rs_accepted = [], rs_released = [],
       rs_eof = False, rs_panic = False\<rparr>)"

definition rs_write :: "'a \<Rightarrow> 'a ring_sys \<Rightarrow> 'a ring_sys" where
  "rs_write v s =
     (case bp_write_with (rs_ring s, rs_prod s) (\<lambda>_. v) of
        None \<Rightarrow> s\<lparr>rs_panic := True\<rparr>
      | Some ((r, p), res) \<Rightarrow>
          s\<lparr>rs_ring := r, rs_prod := p,
            rs_accepted := (if is_ok res then rs_accepted s @ [v] else rs_accepted s)\<rparr>)"

definition rs_put :: "'a ring \<times> buffered_producer \<Rightarrow> 'a ring_sys \<Rightarrow> 'a ring_sys" where
  "rs_put rp s = s\<lparr>rs_ring := fst rp, rs_prod := snd rp\<rparr>"

definition rs_read :: "nat \<Rightarrow> 'a ring_sys \<Rightarrow> 'a ring_sys" where
  "rs_read mx s =
     (case rg_try_read_batch (rs_ring s) mx of
        (r, Ok batch) \<Rightarrow> s\<lparr>rs_ring := r, rs_batch := Some batch\<rparr>
      | (r, Err ReadEmpty) \<Rightarrow> s\<lparr>rs_ring := r\<rparr>
      | (r, Err ReadDisconnected) \<Rightarrow> s\<lparr>rs_ring := r, rs_eof := True\<rparr>)"

definition rs_release :: "read_batch \<Rightarrow> 'a ring_sys \<Rightarrow> 'a ring_sys" where
  "rs_release batch s =
     (case rg_for_each (rs_ring s) batch of
        None \<Rightarrow> s\<lparr>rs_panic := True\<rparr>
      | Some vals \<Rightarrow>
          s\<lparr>rs_ring := rg_batch_release (rs_ring s) batch, rs_batch := None,
            rs_released := rs_released s @ vals\<rparr>)"

text \<open>A call needs its handle: the producer until it is dropped, the consumer likewise.\<close>

fun rs_step :: "'a ring_sys \<Rightarrow> 'a ring_op \<Rightarrow> 'a ring_sys" where
  "rs_step s (RWrite v) = (if rg_producer_alive (rs_ring s) then rs_write v s else s)"
| "rs_step s RFlush = (if rg_producer_alive (rs_ring s) then rs_put (bp_flush (rs_ring s, rs_prod s)) s else s)"
| "rs_step s RDropProducer =
     (if rg_producer_alive (rs_ring s) then rs_put (bp_drop (rs_ring s, rs_prod s)) s else s)"
| "rs_step s (RRead mx) =
     (if rg_consumer_alive (rs_ring s) \<and> rs_batch s = None then rs_read mx s else s)"
| "rs_step s RRelease = (case rs_batch s of None \<Rightarrow> s | Some batch \<Rightarrow> rs_release batch s)"
| "rs_step s RDropConsumer =
     (if rg_consumer_alive (rs_ring s) \<and> rs_batch s = None
      then s\<lparr>rs_ring := rg_consumer_drop (rs_ring s)\<rparr> else s)"

definition rs_run :: "'a ring_op list \<Rightarrow> 'a ring_sys \<Rightarrow> 'a ring_sys" where
  "rs_run ops s = foldl rs_step s ops"

section \<open>The invariant\<close>

text \<open>
  \<open>h\<close> and \<open>t\<close> count what was released and committed, \<open>c\<close> and \<open>d\<close> what each side last saw of
  the other.
\<close>

definition rg_rel :: "'a ring \<Rightarrow> nat \<Rightarrow> nat \<Rightarrow> nat \<Rightarrow> nat \<Rightarrow> bool" where
  "rg_rel s h t c d \<longleftrightarrow>
     (\<exists>k\<le>63. length (rg_slots s) = 2 ^ k \<and> rg_mask s = of_nat (2 ^ k - 1)) \<and>
     1 \<le> unat (rg_capacity s) \<and> unat (rg_capacity s) \<le> length (rg_slots s) \<and>
     rg_head s = of_nat h \<and> rg_tail s = of_nat t \<and>
     rg_cached_head s = of_nat c \<and> rg_cached_tail s = of_nat d \<and>
     c \<le> h \<and> h \<le> d \<and> d \<le> t \<and> t \<le> c + unat (rg_capacity s)"

text \<open>
  The reservation of the buffering producer starts at the tail and stays inside the free part
  of the ring; it is never left exhausted.
\<close>

definition bp_rel :: "'a ring \<Rightarrow> buffered_producer \<Rightarrow> nat \<Rightarrow> nat \<Rightarrow> bool" where
  "bp_rel s p t c \<longleftrightarrow>
     1 \<le> bp_batch_size p \<and>
     (bp_reserved_len p = 0 \<and> bp_written p = 0 \<or>
      bp_written p < bp_reserved_len p \<and> bp_reserved_tail p = of_nat t \<and>
      t + bp_reserved_len p \<le> c + unat (rg_capacity s))"

definition rs_data :: "'a ring \<Rightarrow> nat \<Rightarrow> 'a list \<Rightarrow> bool" where
  "rs_data s h xs \<longleftrightarrow> (\<forall>n. h \<le> n \<longrightarrow> n < length xs \<longrightarrow> rg_slots s ! (n mod length (rg_slots s)) = xs ! n)"

definition rs_rel :: "'a ring_sys \<Rightarrow> nat \<Rightarrow> nat \<Rightarrow> nat \<Rightarrow> nat \<Rightarrow> bool" where
  "rs_rel s h t c d \<longleftrightarrow>
     rg_rel (rs_ring s) h t c d \<and> bp_rel (rs_ring s) (rs_prod s) t c \<and>
     (case rs_batch s of
        None \<Rightarrow> True
      | Some b \<Rightarrow> rb_head b = of_nat h \<and> \<not> rb_released b \<and> h + rb_len b \<le> d) \<and>
     length (rs_accepted s) = t + bp_written (rs_prod s) \<and>
     rs_released s = take h (rs_accepted s) \<and>
     rs_data (rs_ring s) h (rs_accepted s) \<and>
     (\<not> rg_producer_alive (rs_ring s) \<longrightarrow> bp_written (rs_prod s) = 0) \<and>
     (rs_eof s \<longrightarrow> \<not> rg_producer_alive (rs_ring s) \<and> h = t) \<and>
     \<not> rs_panic s"

definition rs_invar :: "'a ring_sys \<Rightarrow> bool" where
  "rs_invar s \<longleftrightarrow> (\<exists>h t c d. rs_rel s h t c d)"

section \<open>Consequences\<close>

lemma rg_cap_bound: "rg_rel s h t c d \<Longrightarrow> unat (rg_capacity s) \<le> 2 ^ 63"
proof -
  assume "rg_rel s h t c d"
  then obtain k where "k \<le> 63" "unat (rg_capacity s) \<le> 2 ^ k" by (auto simp: rg_rel_def)
  moreover have "(2::nat) ^ k \<le> 2 ^ 63" using \<open>k \<le> 63\<close> by (rule power_increasing) simp
  ultimately show ?thesis by linarith
qed

lemma rg_index:
  assumes "rg_rel s h t c d"
  shows "ring_index (of_nat n) (rg_mask s) = n mod length (rg_slots s)" "0 < length (rg_slots s)"
  using assms ring_index_mod by (auto simp: rg_rel_def)

lemma rg_index_less: "rg_rel s h t c d \<Longrightarrow> n mod length (rg_slots s) < length (rg_slots s)"
  by (rule mod_less_divisor [OF rg_index(2)])

text \<open>Cursor differences within a window of one capacity.\<close>

lemma rg_diff:
  assumes "rg_rel s h t c d" "a \<le> b" "b \<le> a + unat (rg_capacity s) + 1"
  shows "unat (of_nat b - of_nat a :: u64) = b - a"
proof -
  have "unat (rg_capacity s) + 1 < 2 ^ 64" using rg_cap_bound [OF assms(1)] by simp
  then have "b - a < 2 ^ 64" using assms(3) by linarith
  then show ?thesis using assms(2) by (rule cursor_diff [rotated])
qed

text \<open>A write into the free part leaves the committed part alone.\<close>

lemma rs_data_write:
  assumes rel: "rg_rel s h t c d" and data: "rs_data s h xs" and room: "length xs < h + length (rg_slots s)"
    and h: "h \<le> length xs"
  shows "rs_data (s\<lparr>rg_slots := (rg_slots s)[length xs mod length (rg_slots s) := v]\<rparr>) h (xs @ [v])"
  unfolding rs_data_def
proof (intro allI impI)
  let ?P = "length (rg_slots s)"
  fix n assume n: "h \<le> n" "n < length (xs @ [v])"
  show "rg_slots (s\<lparr>rg_slots := (rg_slots s)[length xs mod ?P := v]\<rparr>) !
      (n mod length (rg_slots (s\<lparr>rg_slots := (rg_slots s)[length xs mod ?P := v]\<rparr>))) = (xs @ [v]) ! n"
  proof (cases "n = length xs")
    case True
    then show ?thesis using rg_index_less [OF rel] by simp
  next
    case False
    then have "n < length xs" using n(2) by simp
    moreover have "n mod ?P \<noteq> length xs mod ?P"
      using ring_slot_neq [of h n ?P "length xs"] n(1) \<open>n < length xs\<close> room h by simp
    ultimately show ?thesis using data n(1) by (simp add: rs_data_def nth_append)
  qed
qed

lemma rg_slot_write:
  assumes "rg_rel s h t c d"
  shows "rg_slot_mut_with s (of_nat n) f =
    Some (s\<lparr>rg_slots := (rg_slots s)[n mod length (rg_slots s) := f (rg_slots s ! (n mod length (rg_slots s)))]\<rparr>)"
  using rg_index [OF assms] by (simp add: rg_slot_mut_with_def rd_def wr_def Let_def)

lemma rg_for_each_vals:
  assumes rel: "rg_rel s h t c d" and data: "rs_data s h xs" and b: "rb_head b = of_nat h" "h + rb_len b \<le> length xs"
  shows "rg_for_each s b = Some (take (rb_len b) (drop h xs))"
proof -
  have "rg_for_each_from s b is = Some (map (\<lambda>i. xs ! (h + i)) is)" if "\<forall>i\<in>set is. i < rb_len b" for "is"
    using that
  proof (induction "is")
    case (Cons i "is")
    have "rg_slot s (rb_head b + of_nat i) = Some (xs ! (h + i))"
      using rg_index(1) [OF rel, of "h + i"] rg_index_less [OF rel, of "h + i"] b Cons.prems data
      by (simp add: rg_slot_def rd_def rs_data_def)
    then show ?case using Cons by simp
  qed simp
  moreover have "map (\<lambda>i. xs ! (h + i)) [0..<rb_len b] = take (rb_len b) (drop h xs)"
    using b(2) by (intro nth_equalityI) simp_all
  ultimately show ?thesis by (simp add: rg_for_each_def)
qed

section \<open>Every call keeps the invariant\<close>

lemma rs_flush_rel:
  assumes "rs_rel s h t c d"
  shows "rs_rel (rs_put (bp_flush (rs_ring s, rs_prod s)) s) h (t + bp_written (rs_prod s)) c d"
  using assms
  by (cases "bp_written (rs_prod s) = 0")
    (auto simp: rs_rel_def rs_put_def bp_flush_def rg_commit_def rg_rel_def bp_rel_def rs_data_def)

lemma rg_reserve_rel:
  assumes "rg_rel s h t c d" "rg_reserve_len s 1 = (s', r)"
  shows "\<exists>c'. rg_rel s' h t c' d \<and> c \<le> c' \<and> rg_slots s' = rg_slots s \<and> rg_capacity s' = rg_capacity s \<and>
    rg_producer_alive s' = rg_producer_alive s \<and> rg_consumer_alive s' = rg_consumer_alive s \<and>
    (r = Ok (of_nat t) \<and> t + 1 \<le> c' + unat (rg_capacity s) \<or>
     r = Err ReserveDisconnected \<and> \<not> rg_consumer_alive s \<or>
     r = Err ReserveRingFull \<and> t = h + unat (rg_capacity s))"
proof -
  have lim: "c \<le> h" "h \<le> t" "t \<le> c + unat (rg_capacity s)" using assms(1) by (auto simp: rg_rel_def)
  have tail: "rg_tail s + 1 = of_nat (t + 1)" using assms(1) by (simp add: rg_rel_def)
  have "unat (rg_tail s + 1 - rg_cached_head s) = t + 1 - c" "unat (rg_tail s + 1 - rg_head s) = t + 1 - h"
    using rg_diff [OF assms(1), of c "t + 1"] rg_diff [OF assms(1), of h "t + 1"] lim tail assms(1)
    by (simp_all add: rg_rel_def add.commute)
  then have test: "rg_capacity s < rg_tail s + 1 - rg_cached_head s \<longleftrightarrow> unat (rg_capacity s) < t + 1 - c"
    "rg_capacity s < rg_tail s + 1 - rg_head s \<longleftrightarrow> unat (rg_capacity s) < t + 1 - h"
    by (simp_all add: word_less_nat_alt)
  have seen: "rg_rel (s\<lparr>rg_cached_head := rg_head s\<rparr>) h t h d"
    using assms(1) lim by (auto simp: rg_rel_def)
  show ?thesis
  proof (cases "rg_consumer_alive s \<and> unat (rg_capacity s) < t + 1 - c")
    case True
    then show ?thesis
      using assms(2) test seen lim
      by (intro exI [of _ h]) (auto simp: rg_reserve_len_def Let_def rg_rel_def split: if_splits)
  next
    case False
    then show ?thesis
      using assms test lim
      by (intro exI [of _ c]) (auto simp: rg_reserve_len_def Let_def rg_rel_def split: if_splits)
  qed
qed

text \<open>A granted reservation is not empty and fits.\<close>

lemma rg_available:
  assumes "rg_rel s h t c d" "t + 1 \<le> c + unat (rg_capacity s)"
  shows "1 \<le> rg_contiguous_available s (of_nat t)" "t + rg_contiguous_available s (of_nat t) \<le> c + unat (rg_capacity s)"
proof -
  have "unat (of_nat t - rg_cached_head s) = t - c" "c \<le> t"
    using rg_diff [OF assms(1), of c t] assms(1) by (auto simp: rg_rel_def)
  moreover have "ring_index (of_nat t) (rg_mask s) < length (rg_slots s)"
    using rg_index(1) [OF assms(1)] rg_index_less [OF assms(1)] by simp
  ultimately show "1 \<le> rg_contiguous_available s (of_nat t)"
    "t + rg_contiguous_available s (of_nat t) \<le> c + unat (rg_capacity s)"
    using assms(2) by (auto simp: rg_contiguous_available_def Let_def)
qed

lemma rs_reserve_rel:
  assumes "rs_rel s h t c d" "bp_written (rs_prod s) = 0" "bp_reserved_len (rs_prod s) = 0"
    and "bp_reserve_batch (rs_ring s, rs_prod s) = (rp, r)"
  shows "\<exists>c'. rs_rel (rs_put rp s) h t c' d \<and> bp_written (snd rp) = 0 \<and>
    rg_producer_alive (fst rp) = rg_producer_alive (rs_ring s) \<and>
    (r = Ok () \<and> 0 < bp_reserved_len (snd rp) \<or>
     r = Err ReserveDisconnected \<or> r = Err ReserveRingFull \<and> t = h + unat (rg_capacity (rs_ring s)))"
proof -
  have rel: "rg_rel (rs_ring s) h t c d" and data: "rs_data (rs_ring s) h (rs_accepted s)"
    using assms(1) by (simp_all add: rs_rel_def)
  obtain s' res where sr: "rg_reserve_len (rs_ring s) 1 = (s', res)" by (cases "rg_reserve_len (rs_ring s) 1")
  obtain c' where c': "rg_rel s' h t c' d" "rg_slots s' = rg_slots (rs_ring s)" "rg_capacity s' = rg_capacity (rs_ring s)"
      "rg_producer_alive s' = rg_producer_alive (rs_ring s)"
    and res: "res = Ok (of_nat t) \<and> t + 1 \<le> c' + unat (rg_capacity (rs_ring s)) \<or>
     res = Err ReserveDisconnected \<and> \<not> rg_consumer_alive (rs_ring s) \<or>
     res = Err ReserveRingFull \<and> t = h + unat (rg_capacity (rs_ring s))"
    using rg_reserve_rel [OF rel sr] by blast
  have data': "rs_data s' h (rs_accepted s)" using data c'(2) by (simp add: rs_data_def)
  show ?thesis
  proof (cases res)
    case (Ok tl)
    then have fit: "tl = of_nat t" "t + 1 \<le> c' + unat (rg_capacity s')" using res c'(3) by auto
    note av = rg_available [OF c'(1) fit(2)]
    let ?n = "min (rg_contiguous_available s' (of_nat t)) (bp_batch_size (rs_prod s))"
    have "1 \<le> bp_batch_size (rs_prod s)" using assms(1) by (simp add: rs_rel_def bp_rel_def)
    then have n: "1 \<le> ?n" "t + ?n \<le> c' + unat (rg_capacity s')"
      using av by (auto intro: le_trans [rotated])
    then show ?thesis
      using assms Ok sr fit(1) c' data' unfolding bp_reserve_batch_def
      by (intro exI [of _ c']) (auto simp: rs_rel_def rs_put_def bp_rel_def)
  next
    case (Err e)
    then show ?thesis
      using assms sr c' data' res unfolding bp_reserve_batch_def
      by (intro exI [of _ c']) (auto simp: rs_rel_def rs_put_def bp_rel_def)
  qed
qed

text \<open>Writing one value into an open reservation, and committing it when it is full.\<close>

lemma rs_write_slot_rel:
  assumes "rs_rel s h t c d" "bp_written (rs_prod s) < bp_reserved_len (rs_prod s)"
  obtains r' where "rg_slot_mut_with (rs_ring s) (bp_reserved_tail (rs_prod s) + of_nat (bp_written (rs_prod s))) (\<lambda>_. v) = Some r'"
    and "rg_producer_alive r' = rg_producer_alive (rs_ring s)"
    and "bp_written (rs_prod s) + 1 < bp_reserved_len (rs_prod s) \<Longrightarrow> rg_producer_alive (rs_ring s) \<Longrightarrow>
      rs_rel (s\<lparr>rs_ring := r', rs_prod := (rs_prod s)\<lparr>bp_written := bp_written (rs_prod s) + 1\<rparr>,
        rs_accepted := rs_accepted s @ [v]\<rparr>) h t c d"
    and "rg_producer_alive (rs_ring s) \<Longrightarrow>
      rs_rel (s\<lparr>rs_ring := fst (bp_flush (r', (rs_prod s)\<lparr>bp_written := bp_written (rs_prod s) + 1\<rparr>)),
        rs_prod := snd (bp_flush (r', (rs_prod s)\<lparr>bp_written := bp_written (rs_prod s) + 1\<rparr>)),
        rs_accepted := rs_accepted s @ [v]\<rparr>) h (t + bp_written (rs_prod s) + 1) c d"
proof -
  let ?r = "rs_ring s" and ?p = "rs_prod s" and ?xs = "rs_accepted s"
  have rel: "rg_rel ?r h t c d" and data: "rs_data ?r h ?xs" and bp: "bp_rel ?r ?p t c"
    and len: "length ?xs = t + bp_written ?p"
    using assms(1) by (simp_all add: rs_rel_def)
  have tail: "bp_reserved_tail ?p + of_nat (bp_written ?p) = of_nat (length ?xs)"
    using bp assms(2) len by (auto simp: bp_rel_def)
  have fit: "t + bp_reserved_len ?p \<le> c + unat (rg_capacity ?r)" using bp assms(2) by (auto simp: bp_rel_def)
  have lim: "c \<le> h" "h \<le> t" "unat (rg_capacity ?r) \<le> length (rg_slots ?r)" using rel by (auto simp: rg_rel_def)
  define r' where "r' = ?r\<lparr>rg_slots := (rg_slots ?r)[length ?xs mod length (rg_slots ?r) := v]\<rparr>"
  have slot: "rg_slot_mut_with ?r (bp_reserved_tail ?p + of_nat (bp_written ?p)) (\<lambda>_. v) = Some r'"
    using rg_slot_write [OF rel, of "length ?xs"] tail by (simp add: r'_def)
  have data': "rs_data r' h (?xs @ [v])"
    unfolding r'_def by (rule rs_data_write [OF rel data]) (use len fit lim assms(2) in linarith)+
  have rel': "rg_rel r' h t c d" using rel by (simp add: rg_rel_def r'_def)
  have same: "rg_capacity r' = rg_capacity ?r" "rg_producer_alive r' = rg_producer_alive ?r" by (simp_all add: r'_def)
  have h: "h \<le> length ?xs" using len lim by simp
  show thesis
  proof (rule that [OF slot same(2)])
    assume "bp_written ?p + 1 < bp_reserved_len ?p" "rg_producer_alive ?r"
    then show "rs_rel (s\<lparr>rs_ring := r', rs_prod := ?p\<lparr>bp_written := bp_written ?p + 1\<rparr>, rs_accepted := ?xs @ [v]\<rparr>) h t c d"
      using assms(1) rel' data' same len h bp by (auto simp: rs_rel_def bp_rel_def)
  next
    assume "rg_producer_alive ?r"
    moreover have "rs_data (rg_commit r' (bp_reserved_tail ?p) (bp_written ?p + 1)) h (?xs @ [v])"
      using data' by (simp add: rs_data_def rg_commit_def)
    moreover have "rg_rel (rg_commit r' (bp_reserved_tail ?p) (bp_written ?p + 1)) h (t + bp_written ?p + 1) c d"
      using rel' fit same(1) bp assms(2) by (auto simp: rg_rel_def rg_commit_def bp_rel_def ac_simps)
    ultimately show "rs_rel (s\<lparr>rs_ring := fst (bp_flush (r', ?p\<lparr>bp_written := bp_written ?p + 1\<rparr>)),
        rs_prod := snd (bp_flush (r', ?p\<lparr>bp_written := bp_written ?p + 1\<rparr>)),
        rs_accepted := ?xs @ [v]\<rparr>) h (t + bp_written ?p + 1) c d"
      using assms(1) same len h
      by (auto simp: rs_rel_def bp_flush_def rg_commit_def bp_rel_def)
  qed
qed

lemma rs_write_ready:
  assumes "rs_rel s h t c d" "bp_written (rs_prod s) < bp_reserved_len (rs_prod s)" "rg_producer_alive (rs_ring s)"
  shows "rs_invar (rs_write v s)"
proof (rule rs_write_slot_rel [OF assms(1,2), of v])
  fix r'
  assume slot: "rg_slot_mut_with (rs_ring s) (bp_reserved_tail (rs_prod s) + of_nat (bp_written (rs_prod s))) (\<lambda>_. v) = Some r'"
    and more: "bp_written (rs_prod s) + 1 < bp_reserved_len (rs_prod s) \<Longrightarrow> rg_producer_alive (rs_ring s) \<Longrightarrow>
      rs_rel (s\<lparr>rs_ring := r', rs_prod := (rs_prod s)\<lparr>bp_written := bp_written (rs_prod s) + 1\<rparr>,
        rs_accepted := rs_accepted s @ [v]\<rparr>) h t c d"
    and full: "rg_producer_alive (rs_ring s) \<Longrightarrow>
      rs_rel (s\<lparr>rs_ring := fst (bp_flush (r', (rs_prod s)\<lparr>bp_written := bp_written (rs_prod s) + 1\<rparr>)),
        rs_prod := snd (bp_flush (r', (rs_prod s)\<lparr>bp_written := bp_written (rs_prod s) + 1\<rparr>)),
        rs_accepted := rs_accepted s @ [v]\<rparr>) h (t + bp_written (rs_prod s) + 1) c d"
  have "bp_write_with (rs_ring s, rs_prod s) (\<lambda>_. v) =
      Some (if bp_written (rs_prod s) + 1 = bp_reserved_len (rs_prod s)
            then bp_flush (r', (rs_prod s)\<lparr>bp_written := bp_written (rs_prod s) + 1\<rparr>)
            else (r', (rs_prod s)\<lparr>bp_written := bp_written (rs_prod s) + 1\<rparr>), Ok ())"
    using slot assms(2) by (simp add: bp_write_with_def Let_def)
  then show "rs_invar (rs_write v s)"
    using more full assms(2,3) unfolding rs_invar_def rs_write_def
    by (cases "bp_written (rs_prod s) + 1 = bp_reserved_len (rs_prod s)") (auto simp: split_beta)
qed

text \<open>When no reservation is open, the write first flushes and reserves.\<close>

lemma rs_write_invar:
  assumes "rs_invar s" "rg_producer_alive (rs_ring s)"
  shows "rs_invar (rs_write v s)"
proof -
  obtain h t c d where rel: "rs_rel s h t c d" using assms(1) by (auto simp: rs_invar_def)
  show ?thesis
  proof (cases "bp_written (rs_prod s) < bp_reserved_len (rs_prod s)")
    case True
    then show ?thesis by (rule rs_write_ready [OF rel _ assms(2)])
  next
    case False
    then have eq: "bp_reserved_len (rs_prod s) = 0" "bp_written (rs_prod s) = 0"
      using rel by (auto simp: rs_rel_def bp_rel_def)
    define s1 where "s1 = rs_put (bp_flush (rs_ring s, rs_prod s)) s"
    have s1: "rs_rel s1 h t c d" "bp_written (rs_prod s1) = 0" "bp_reserved_len (rs_prod s1) = 0"
      "bp_flush (rs_ring s, rs_prod s) = (rs_ring s1, rs_prod s1)" "rg_producer_alive (rs_ring s1)"
      using rs_flush_rel [OF rel] eq assms(2) by (simp_all add: s1_def rs_put_def bp_flush_def)
    obtain rp r where rp: "bp_reserve_batch (rs_ring s1, rs_prod s1) = (rp, r)"
      by (cases "bp_reserve_batch (rs_ring s1, rs_prod s1)")
    define s2 where "s2 = rs_put rp s1"
    obtain c' where s2: "rs_rel s2 h t c' d" "bp_written (snd rp) = 0" "rg_producer_alive (fst rp)"
      and r: "r = Ok () \<and> 0 < bp_reserved_len (snd rp) \<or> (\<exists>e. r = Err e)"
      using rs_reserve_rel [OF s1(1,2,3) rp] s1(5) unfolding s2_def by blast
    have ready: "bp_write_with (rs_ring s, rs_prod s) (\<lambda>_. v) =
        (case r of Err e \<Rightarrow> Some (rp, Err e) | Ok _ \<Rightarrow> bp_write_with rp (\<lambda>_. v))"
      using eq s1(4) rp r s2(2) by (auto simp: bp_write_with_def Let_def split_beta)
    have rp2: "rp = (rs_ring s2, rs_prod s2)" by (simp add: s2_def rs_put_def)
    have same: "s2\<lparr>rs_ring := a, rs_prod := b, rs_accepted := x\<rparr> = s\<lparr>rs_ring := a, rs_prod := b, rs_accepted := x\<rparr>"
      "rs_accepted s2 = rs_accepted s" for a b x
      by (simp_all add: s2_def s1_def rs_put_def)
    from r show ?thesis
    proof
      assume ok: "r = Ok () \<and> 0 < bp_reserved_len (snd rp)"
      then have inv2: "rs_invar (rs_write v s2)"
        using rs_write_ready [OF s2(1), of v] s2(2,3) rp2 by simp
      then have "\<not> rs_panic (rs_write v s2)" by (auto simp: rs_invar_def rs_rel_def)
      then have "bp_write_with rp (\<lambda>_. v) \<noteq> None"
        by (auto simp: rs_write_def rp2 split: option.splits)
      then obtain a b res where w: "bp_write_with rp (\<lambda>_. v) = Some ((a, b), res)" by auto
      then have "rs_write v s = rs_write v s2"
        using ready ok w [unfolded rp2] same by (simp add: rs_write_def)
      then show ?thesis using inv2 by simp
    next
      assume "\<exists>e. r = Err e"
      then have "rs_write v s = s2" using ready by (cases rp) (auto simp: rs_write_def s2_def s1_def rs_put_def)
      then show ?thesis using s2(1) by (auto simp: rs_invar_def)
    qed
  qed
qed

lemma rs_flush_invar: "rs_invar s \<Longrightarrow> rs_invar (rs_put (bp_flush (rs_ring s, rs_prod s)) s)"
  using rs_flush_rel unfolding rs_invar_def by blast

text \<open>Dropping the producer flushes first, so nothing accepted is lost.\<close>

lemma rs_drop_invar:
  assumes "rs_invar s" "rg_producer_alive (rs_ring s)"
  shows "rs_invar (rs_put (bp_drop (rs_ring s, rs_prod s)) s)"
proof -
  let ?f = "rs_put (bp_flush (rs_ring s, rs_prod s)) s"
  obtain h t c d where rel: "rs_rel ?f h t c d" using rs_flush_invar [OF assms(1)] by (auto simp: rs_invar_def)
  have "bp_written (rs_prod ?f) = 0" "\<not> rs_eof s"
    using assms by (auto simp: rs_put_def bp_flush_def rs_invar_def rs_rel_def)
  moreover have "rs_put (bp_drop (rs_ring s, rs_prod s)) s = ?f\<lparr>rs_ring := rg_producer_drop (rs_ring ?f)\<rparr>"
    by (simp add: rs_put_def bp_drop_def split_beta)
  ultimately have "rs_rel (rs_put (bp_drop (rs_ring s, rs_prod s)) s) h t c d"
    using rel by (simp add: rs_rel_def rg_producer_drop_def rg_rel_def bp_rel_def rs_data_def)
  then show ?thesis by (auto simp: rs_invar_def)
qed

lemma rg_try_read_outcome:
  assumes "rg_rel s h t c d" "rg_try_read_batch s mx = (s', r)"
  shows "\<exists>d'. rg_rel s' h t c d' \<and> rg_slots s' = rg_slots s \<and> rg_capacity s' = rg_capacity s \<and>
    rg_producer_alive s' = rg_producer_alive s \<and>
    (r = Err ReadEmpty \<and> h = t \<or> r = Err ReadDisconnected \<and> h = t \<and> \<not> rg_producer_alive s \<or>
     (\<exists>n. r = Ok \<lparr>rb_head = of_nat h, rb_len = n, rb_released = False\<rparr> \<and> h + n \<le> d'))"
proof -
  have w: "rg_head s = of_nat h" "rg_tail s = of_nat t" "rg_cached_tail s = of_nat d"
    "h \<le> d" "d \<le> t" "t \<le> h + unat (rg_capacity s)"
    using assms(1) by (auto simp: rg_rel_def)
  have diff: "unat (of_nat d - of_nat h :: u64) = d - h" "unat (of_nat t - of_nat h :: u64) = t - h"
    using rg_diff [OF assms(1)] w(4-6) by simp_all
  then have eqs: "(of_nat d = (of_nat h :: u64)) \<longleftrightarrow> d = h" "(of_nat t = (of_nat h :: u64)) \<longleftrightarrow> t = h"
    using w(4,5) by auto
  have seen: "rg_rel (s\<lparr>rg_cached_tail := of_nat t\<rparr>) h t c t" using assms(1) w by (auto simp: rg_rel_def)
  show ?thesis
  proof (cases "d = h")
    case True
    then show ?thesis
      using assms(2) seen w diff eqs
      by (intro exI [of _ t]) (auto simp: rg_try_read_batch_def Let_def split: if_splits)
  next
    case False
    then show ?thesis
      using assms w diff eqs
      by (intro exI [of _ d]) (auto simp: rg_try_read_batch_def Let_def)
  qed
qed

lemma rs_read_invar:
  assumes "rs_invar s" "rs_batch s = None"
  shows "rs_invar (rs_read mx s)"
proof -
  obtain h t c d where rel: "rs_rel s h t c d" using assms(1) by (auto simp: rs_invar_def)
  then have "rg_rel (rs_ring s) h t c d" by (simp add: rs_rel_def)
  obtain r res where rr: "rg_try_read_batch (rs_ring s) mx = (r, res)" by (cases "rg_try_read_batch (rs_ring s) mx")
  obtain d' where d': "rg_rel r h t c d'" "rg_slots r = rg_slots (rs_ring s)" "rg_capacity r = rg_capacity (rs_ring s)"
      "rg_producer_alive r = rg_producer_alive (rs_ring s)"
    and res: "res = Err ReadEmpty \<and> h = t \<or> res = Err ReadDisconnected \<and> h = t \<and> \<not> rg_producer_alive (rs_ring s) \<or>
     (\<exists>n. res = Ok \<lparr>rb_head = of_nat h, rb_len = n, rb_released = False\<rparr> \<and> h + n \<le> d')"
    using rg_try_read_outcome [OF \<open>rg_rel (rs_ring s) h t c d\<close> rr] by blast
  have base: "rs_rel (s\<lparr>rs_ring := r\<rparr>) h t c d'"
    using rel d' assms(2) by (simp add: rs_rel_def bp_rel_def rs_data_def)
  from res have "rs_rel (rs_read mx s) h t c d'"
  proof (elim disjE exE conjE)
    assume "res = Err ReadEmpty"
    then show ?thesis using base rr by (simp add: rs_read_def)
  next
    assume "res = Err ReadDisconnected" "h = t" "\<not> rg_producer_alive (rs_ring s)"
    then show ?thesis using base rr d'(4) by (simp add: rs_read_def rs_rel_def)
  next
    fix n assume "res = Ok \<lparr>rb_head = of_nat h, rb_len = n, rb_released = False\<rparr>" "h + n \<le> d'"
    then show ?thesis using base rr by (simp add: rs_read_def rs_rel_def)
  qed
  then show ?thesis unfolding rs_invar_def by blast
qed

text \<open>What a batch reads is the next accepted values, whatever was written since it was taken.\<close>

lemma rs_release_invar:
  assumes "rs_invar s" "rs_batch s = Some b"
  shows "rs_invar (rs_release b s)"
proof -
  obtain h t c d where rel: "rs_rel s h t c d" using assms(1) by (auto simp: rs_invar_def)
  have ring: "rg_rel (rs_ring s) h t c d" and data: "rs_data (rs_ring s) h (rs_accepted s)"
    and b: "rb_head b = of_nat h" "\<not> rb_released b" "h + rb_len b \<le> d"
    and len: "length (rs_accepted s) = t + bp_written (rs_prod s)" "rs_released s = take h (rs_accepted s)"
    using rel assms(2) by (auto simp: rs_rel_def)
  have lim: "h \<le> d" "d \<le> t" using ring by (auto simp: rg_rel_def)
  have vals: "rg_for_each (rs_ring s) b = Some (take (rb_len b) (drop h (rs_accepted s)))"
    by (rule rg_for_each_vals [OF ring data b(1)]) (use b(3) lim len in linarith)
  have eof: "rs_eof s \<Longrightarrow> rb_len b = 0 \<and> h = t" using rel b(3) lim by (auto simp: rs_rel_def)
  have "rg_rel (rg_batch_release (rs_ring s) b) (h + rb_len b) t c d"
    using ring b lim by (simp add: rg_batch_release_def rg_release_inner_def rg_release_def rg_rel_def)
  moreover have "rs_released s @ take (rb_len b) (drop h (rs_accepted s)) = take (h + rb_len b) (rs_accepted s)"
    using len(2) by (simp add: take_add)
  ultimately have "rs_rel (rs_release b s) (h + rb_len b) t c d"
    using rel vals b(2) eof
    by (auto simp: rs_release_def rs_rel_def bp_rel_def rs_data_def rg_batch_release_def rg_release_inner_def rg_release_def)
  then show ?thesis by (auto simp: rs_invar_def)
qed

lemma rs_drop_consumer_invar:
  assumes "rs_invar s"
  shows "rs_invar (s\<lparr>rs_ring := rg_consumer_drop (rs_ring s)\<rparr>)"
proof -
  obtain h t c d where "rs_rel s h t c d" using assms by (auto simp: rs_invar_def)
  then have "rs_rel (s\<lparr>rs_ring := rg_consumer_drop (rs_ring s)\<rparr>) h t c d"
    by (simp add: rs_rel_def rg_consumer_drop_def rg_rel_def bp_rel_def rs_data_def)
  then show ?thesis by (auto simp: rs_invar_def)
qed

lemma rs_step_invar: "rs_invar s \<Longrightarrow> rs_invar (rs_step s op)"
  by (cases op) (simp_all add: rs_write_invar rs_flush_invar rs_drop_invar rs_read_invar rs_release_invar
      rs_drop_consumer_invar split: option.splits)

lemma rs_run_invar: "rs_invar s \<Longrightarrow> rs_invar (rs_run ops s)"
  unfolding rs_run_def by (induction ops arbitrary: s) (simp_all add: rs_step_invar)

lemma rs_new_rel:
  assumes "capacity \<le> 2 ^ 63"
  shows "rs_rel (rs_new dflt capacity batch_size) 0 0 0 0"
proof -
  let ?c = "max capacity 1"
  obtain k where k: "next_power_of_two ?c = 2 ^ k" "k \<le> 63" using next_power_of_two_exp [of ?c 63] assms by auto
  have c: "unat (of_nat ?c :: u64) = ?c" by (rule unat_of_nat_small) (use assms in \<open>simp add: max_def\<close>)
  have "?c \<le> 2 ^ k" using next_power_of_two_ge [of ?c] k(1) by simp
  then have "rg_rel (rg_bounded dflt capacity) 0 0 0 0"
    using k c by (auto simp: rg_rel_def rg_bounded_def Let_def simp del: of_nat_max)
  then show ?thesis
    by (simp add: rs_rel_def rs_new_def rg_buffered_def rg_into_buffered_def bp_rel_def rs_data_def)
qed

lemma rs_new_invar: "capacity \<le> 2 ^ 63 \<Longrightarrow> rs_invar (rs_new dflt capacity batch_size)"
  unfolding rs_invar_def by (intro exI) (rule rs_new_rel)

text \<open>The capacity never changes.\<close>

lemma rg_capacity_ops:
  "rg_capacity (fst (bp_flush sp)) = rg_capacity (fst sp)"
  "rg_capacity (fst (bp_drop sp)) = rg_capacity (fst sp)"
  "rg_capacity (fst (rg_reserve_len s n)) = rg_capacity s"
  "rg_capacity (fst (rg_try_read_batch s mx)) = rg_capacity s"
  "rg_capacity (rg_batch_release s b) = rg_capacity s" "rg_capacity (rg_consumer_drop s) = rg_capacity s"
  by (auto simp: bp_flush_def bp_drop_def rg_producer_drop_def rg_commit_def rg_reserve_len_def rg_try_read_batch_def
      rg_batch_release_def rg_release_inner_def rg_release_def rg_consumer_drop_def Let_def split: prod.splits option.splits)

lemma rg_capacity_reserve: "rg_capacity (fst (fst (bp_reserve_batch sp))) = rg_capacity (fst sp)"
  using rg_capacity_ops(3) [of "fst sp" 1]
  by (auto simp: bp_reserve_batch_def split: prod.splits result.splits)

lemma rg_capacity_write:
  assumes "bp_write_with sp f = Some (sp', r)"
  shows "rg_capacity (fst sp') = rg_capacity (fst sp)"
proof -
  obtain sq ready where sq: "(if bp_written (snd sp) = bp_reserved_len (snd sp) then bp_reserve_batch (bp_flush sp)
      else (sp, Ok ())) = (sq, ready)" by fastforce
  then have "rg_capacity (fst sq) = rg_capacity (fst sp)"
    using rg_capacity_reserve [of "bp_flush sp"] rg_capacity_ops(1) [of sp] by (auto split: if_splits)
  then show ?thesis
    using assms sq unfolding bp_write_with_def
    by (auto simp: rg_slot_mut_with_def Let_def rd_def wr_def rg_capacity_ops(1)
        split: result.splits prod.splits if_splits)
qed

lemma rs_run_capacity: "rg_capacity (rs_ring (rs_run ops s)) = rg_capacity (rs_ring s)"
proof -
  have "rg_capacity (rs_ring (rs_step s op)) = rg_capacity (rs_ring s)" for s :: "'a ring_sys" and op
    using rg_capacity_ops(4) [of "rs_ring s", symmetric]
    by (cases op) (auto simp: rs_write_def rs_put_def rs_read_def rs_release_def rg_capacity_ops
        dest!: rg_capacity_write arg_cong [where f = "\<lambda>x. rg_capacity (fst x)" and x = "rg_try_read_batch _ _"]
        split: option.splits prod.splits result.splits try_read_error.splits)
  then show ?thesis unfolding rs_run_def by (induction ops arbitrary: s) simp_all
qed

lemma rs_new_capacity:
  "capacity \<le> 2 ^ 63 \<Longrightarrow> unat (rg_capacity (rs_ring (rs_new dflt capacity batch_size))) = max capacity 1"
  using unat_of_nat_small [of "max capacity 1", where ?'a = 64]
  by (simp add: rs_new_def rg_buffered_def rg_bounded_def Let_def max_def)

text \<open>
  Claim C20.  The batching ring is first in, first out and bounded under every interleaving of
  writes, flushes, reads, releases and drops, through any number of cursor wrap-arounds: no
  slot index is out of range; the values the consumer reads from its batches, even when it
  releases them long after taking them, are a prefix of the accepted writes, in order; and at
  most \<open>capacity.max(1)\<close> values are written, published or not, and not yet released.
\<close>

theorem ring_fifo:
  assumes "capacity \<le> 2 ^ 63"
  shows "let s = rs_run ops (rs_new dflt capacity batch_size) in
    \<not> rs_panic s \<and> rs_released s = take (length (rs_released s)) (rs_accepted s) \<and>
    length (rs_accepted s) \<le> length (rs_released s) + max capacity 1"
proof -
  let ?s = "rs_run ops (rs_new dflt capacity batch_size)"
  have "rs_invar ?s" using rs_run_invar [OF rs_new_invar [OF assms]] .
  then obtain h t c d where rel: "rs_rel ?s h t c d" by (auto simp: rs_invar_def)
  then have "t + bp_written (rs_prod ?s) \<le> c + unat (rg_capacity (rs_ring ?s))" "c \<le> h" "h \<le> t"
    by (auto simp: rs_rel_def bp_rel_def rg_rel_def)
  with rel show ?thesis
    using rs_new_capacity [OF assms, of dflt batch_size] rs_run_capacity [of ops]
    by (auto simp: rs_rel_def Let_def)
qed

definition ring_demo :: "nat ring_op list" where
  "ring_demo = [RWrite 4, RWrite 5, RFlush, RRead 8, RWrite 6, RRelease]"

theorem ring_fifo_witness:
  "let s = rs_run ring_demo (rs_new 0 3 2) in
    \<not> rs_panic s \<and> rs_released s = take (length (rs_released s)) (rs_accepted s) \<and>
    length (rs_accepted s) \<le> length (rs_released s) + max 3 1"
  by (rule ring_fifo) simp

text \<open>
  No write is lost when the producer goes: its drop publishes what was still
  buffered before it marks the producer dead, so once the consumer is told \<open>Disconnected\<close> it
  has read every value whose write was accepted.
\<close>

theorem ring_disconnect_complete:
  assumes "capacity \<le> 2 ^ 63" "rs_eof (rs_run ops (rs_new dflt capacity batch_size))"
  shows "rs_released (rs_run ops (rs_new dflt capacity batch_size)) =
    rs_accepted (rs_run ops (rs_new dflt capacity batch_size))"
proof -
  let ?s = "rs_run ops (rs_new dflt capacity batch_size)"
  have "rs_invar ?s" using rs_run_invar [OF rs_new_invar [OF assms(1)]] .
  then show ?thesis using assms(2) by (auto simp: rs_invar_def rs_rel_def)
qed

definition ring_demo_end :: "nat ring_op list" where
  "ring_demo_end = [RWrite 4, RDropProducer, RRead 8, RRelease, RRead 8]"

theorem ring_disconnect_complete_witness:
  "rs_eof (rs_run ring_demo_end (rs_new 0 2 2)) \<and>
   rs_released (rs_run ring_demo_end (rs_new 0 2 2)) = rs_accepted (rs_run ring_demo_end (rs_new 0 2 2))"
proof -
  have "rs_eof (rs_run ring_demo_end (rs_new 0 2 2))"
    by code_simp
  with ring_disconnect_complete [of 2 ring_demo_end 0 2] show ?thesis by simp
qed

end
