(* ===== verification/Limits.thy ===== *)
theory Limits
  imports Prelude
begin

text \<open>
  \<open>NetworkLimits\<close> of \<open>src/src/libs/agentdp-network/src/network.rs\<close>: the sizes every part of the
  instance network is built with, their defaults and the validation before the event loop
  starts.  Durations are in milliseconds.
\<close>

record network_limits =
  command_inbox_capacity :: nat
  reactor_event_capacity :: nat
  component_output_batch_capacity :: nat
  component_event_batch_capacity :: nat
  frame_device_queue_capacity :: nat
  frame_buffer_capacity :: nat
  max_pooled_frame_capacity :: nat
  frame_buffer_pool_capacity :: nat
  small_byte_capacity :: nat
  medium_byte_capacity :: nat
  tcp_byte_capacity :: nat
  small_byte_pool_capacity :: nat
  medium_byte_pool_capacity :: nat
  tcp_byte_pool_capacity :: nat
  tcp_socket_buffer_capacity :: nat
  udp_datagram_buffer_capacity :: nat
  ingress_udp_datagram_buffer_capacity :: nat
  client_hello_limit :: nat
  tls_relay_buffer_capacity :: nat
  transport_connect_retry_delay :: nat
  status_publish_interval :: nat
  idle_poll_delay :: nat
  udp_proxy_timeout :: nat
  drive_event_budget :: nat
  drive_step_budget :: nat
  drive_byte_budget :: nat
  tcp_proxy_limit :: nat
  ingress_tcp_connection_limit :: nat
  ingress_udp_peer_limit :: nat
  udp_proxy_limit :: nat
  timer_queue_capacity :: nat
  telemetry_event_capacity :: nat

definition default_local :: network_limits where
  "default_local = \<lparr>
     command_inbox_capacity = 1024,
     reactor_event_capacity = 256,
     component_output_batch_capacity = 256,
     component_event_batch_capacity = 256,
     frame_device_queue_capacity = 512,
     frame_buffer_capacity = 1514,
     max_pooled_frame_capacity = 65535,
     frame_buffer_pool_capacity = 512,
     small_byte_capacity = 2 * 1024,
     medium_byte_capacity = 16 * 1024,
     tcp_byte_capacity = 64 * 1024,
     small_byte_pool_capacity = 1024,
     medium_byte_pool_capacity = 512,
     tcp_byte_pool_capacity = 512,
     tcp_socket_buffer_capacity = 64 * 1024,
     udp_datagram_buffer_capacity = 65536,
     ingress_udp_datagram_buffer_capacity = 65536,
     client_hello_limit = 16384,
     tls_relay_buffer_capacity = 16384,
     transport_connect_retry_delay = 10,
     status_publish_interval = 10 * 1000,
     idle_poll_delay = 1000,
     udp_proxy_timeout = 30 * 1000,
     drive_event_budget = 256,
     drive_step_budget = 8192,
     drive_byte_budget = 64 * 1024 * 1024,
     tcp_proxy_limit = 512,
     ingress_tcp_connection_limit = 128,
     ingress_udp_peer_limit = 128,
     udp_proxy_limit = 128,
     timer_queue_capacity = 1024,
     telemetry_event_capacity = 16\<rparr>"

text \<open>The error strings of the validation, as the limit they name.\<close>

datatype limits_error =
    FramePoolTooSmall
  | EventBudgetZero
  | StepBudgetZero
  | ByteBudgetZero
  | ByteBudgetBelow string nat

definition validate_for_event_loop :: "network_limits \<Rightarrow> (unit, limits_error) result" where
  "validate_for_event_loop limits =
     (if frame_buffer_pool_capacity limits < 3 then Err FramePoolTooSmall
      else if drive_event_budget limits = 0 then Err EventBudgetZero
      else if drive_step_budget limits = 0 then Err StepBudgetZero
      else if drive_byte_budget limits = 0 then Err ByteBudgetZero
      else case find (\<lambda>(_, capacity). drive_byte_budget limits < capacity)
             [(''frame_buffer_capacity'', frame_buffer_capacity limits),
              (''udp_datagram_buffer_capacity'', udp_datagram_buffer_capacity limits),
              (''ingress_udp_datagram_buffer_capacity'', ingress_udp_datagram_buffer_capacity limits)] of
        Some (name, capacity) \<Rightarrow> Err (ByteBudgetBelow name capacity)
      | None \<Rightarrow> Ok ())"

lemma validated_frame_pool:
  "validate_for_event_loop limits = Ok () \<Longrightarrow> 3 \<le> frame_buffer_pool_capacity limits"
  by (auto simp: validate_for_event_loop_def split: if_splits)

text \<open>The shipped defaults pass the validation.\<close>

lemma default_local_valid: "validate_for_event_loop default_local = Ok ()"
  by (simp add: validate_for_event_loop_def default_local_def)

end
