(* ===== verification/Pool.thy ===== *)
theory Pool
  imports Limits
begin

text \<open>
  The buffer pools of \<open>src/src/libs/agentdp-network/src/buffers/pool.rs\<close>: a stack of frame
  buffers with a reserve that only the guest's input and the gateway's answer may use, and
  three size classes of byte buffers.  A \<open>Vec<u8>\<close> is its bytes and its capacity;
  \<open>Vec::with_capacity\<close> allocates what is asked, and growing beyond the capacity reallocates.
  The counters of checked-out buffers exist in tests and the simulation only; the executions
  below keep the buffers themselves.
\<close>

section \<open>Vectors\<close>

record vec =
  vec_data :: bytes
  vec_cap :: nat

definition vec_with_capacity :: "nat \<Rightarrow> vec" where
  "vec_with_capacity n = \<lparr>vec_data = [], vec_cap = n\<rparr>"

text \<open>Amortised growth: at least double, at least what is needed, at least eight bytes.\<close>

definition vec_set :: "bytes \<Rightarrow> vec \<Rightarrow> vec" where
  "vec_set data v =
     \<lparr>vec_data = data,
      vec_cap = (if length data \<le> vec_cap v then vec_cap v
                 else max (max (2 * vec_cap v) (length data)) 8)\<rparr>"

definition vec_clear :: "vec \<Rightarrow> vec" where
  "vec_clear v = v\<lparr>vec_data := []\<rparr>"

definition buf_resize_zeroed :: "nat \<Rightarrow> vec \<Rightarrow> vec" where
  "buf_resize_zeroed len v =
     vec_set (take len (vec_data v) @ replicate (len - length (vec_data v)) 0) v"

definition buf_extend_from_slice :: "bytes \<Rightarrow> vec \<Rightarrow> vec" where
  "buf_extend_from_slice bs v = vec_set (vec_data v @ bs) v"

definition buf_truncate :: "nat \<Rightarrow> vec \<Rightarrow> vec" where
  "buf_truncate len v = v\<lparr>vec_data := take len (vec_data v)\<rparr>"

section \<open>Frame buffers\<close>

datatype pool_kind = FrameKind | ByteKind

record pool_exhausted =
  pe_kind :: pool_kind
  pe_capacity :: nat

abbreviation (input) GUEST_PROGRESS_FRAME_RESERVE :: nat where "GUEST_PROGRESS_FRAME_RESERVE \<equiv> 2"
abbreviation (input) GATEWAY_RESPONSE_FRAME_RESERVE :: nat where "GATEWAY_RESPONSE_FRAME_RESERVE \<equiv> 1"

definition frame_try_take ::
  "network_limits \<Rightarrow> vec list \<Rightarrow> nat \<Rightarrow> nat \<Rightarrow> vec list \<times> (vec, pool_exhausted) result" where
  "frame_try_take limits frames capacity reserve =
     (let capacity = max capacity (frame_buffer_capacity limits);
          exhausted = Err \<lparr>pe_kind = FrameKind, pe_capacity = capacity\<rparr>
      in if capacity > max_pooled_frame_capacity limits then (frames, exhausted)
         else if length frames \<le> reserve then (frames, exhausted)
         else if frames = [] then (frames, exhausted)
         else let bytes = last frames in
           if vec_cap bytes < capacity then (butlast frames @ [bytes], exhausted)
           else (butlast frames, Ok bytes))"

definition frame_recycle :: "network_limits \<Rightarrow> vec list \<Rightarrow> vec \<Rightarrow> vec list" where
  "frame_recycle limits frames bytes =
     (if vec_cap bytes > max_pooled_frame_capacity limits then frames
      else let bytes = vec_clear bytes in
        if length frames < frame_buffer_pool_capacity limits then frames @ [bytes] else frames)"

text \<open>\<open>while frames.len() < count { frames.push(..) }\<close>\<close>

definition frame_prewarm :: "vec list \<Rightarrow> nat \<Rightarrow> nat \<Rightarrow> vec list" where
  "frame_prewarm frames count capacity =
     frames @ replicate (count - length frames) (vec_with_capacity capacity)"

section \<open>Byte buffers\<close>

datatype byte_class = Small | Medium | Tcp | Oversized

record byte_buckets =
  bk_small :: "vec list"
  bk_medium :: "vec list"
  bk_tcp :: "vec list"

record byte_buf =
  bb_bytes :: vec
  bb_class :: byte_class

definition class_for_capacity :: "nat \<Rightarrow> network_limits \<Rightarrow> byte_class" where
  "class_for_capacity capacity limits =
     (if capacity \<le> small_byte_capacity limits then Small
      else if capacity \<le> medium_byte_capacity limits then Medium
      else if capacity \<le> tcp_byte_capacity limits then Tcp
      else Oversized)"

fun class_capacity :: "byte_class \<Rightarrow> network_limits \<Rightarrow> nat" where
  "class_capacity Small limits = small_byte_capacity limits"
| "class_capacity Medium limits = medium_byte_capacity limits"
| "class_capacity Tcp limits = tcp_byte_capacity limits"
| "class_capacity Oversized limits = 0"

fun class_max_pooled :: "byte_class \<Rightarrow> network_limits \<Rightarrow> nat" where
  "class_max_pooled Small limits = small_byte_pool_capacity limits"
| "class_max_pooled Medium limits = medium_byte_pool_capacity limits"
| "class_max_pooled Tcp limits = tcp_byte_pool_capacity limits"
| "class_max_pooled Oversized limits = 0"

fun class_can_pool :: "byte_class \<Rightarrow> nat \<Rightarrow> network_limits \<Rightarrow> bool" where
  "class_can_pool Small capacity limits = (capacity \<le> small_byte_capacity limits)"
| "class_can_pool Medium capacity limits = (capacity \<le> medium_byte_capacity limits)"
| "class_can_pool Tcp capacity limits = (capacity \<le> tcp_byte_capacity limits)"
| "class_can_pool Oversized capacity limits = False"

text \<open>\<open>bucket_mut\<close> as a read and a write; \<open>Oversized\<close> is its \<open>unreachable!\<close>.\<close>

fun bucket_of :: "byte_class \<Rightarrow> byte_buckets \<Rightarrow> vec list option" where
  "bucket_of Small b = Some (bk_small b)"
| "bucket_of Medium b = Some (bk_medium b)"
| "bucket_of Tcp b = Some (bk_tcp b)"
| "bucket_of Oversized b = None"

fun bucket_set :: "byte_class \<Rightarrow> vec list \<Rightarrow> byte_buckets \<Rightarrow> byte_buckets option" where
  "bucket_set Small vs b = Some (b\<lparr>bk_small := vs\<rparr>)"
| "bucket_set Medium vs b = Some (b\<lparr>bk_medium := vs\<rparr>)"
| "bucket_set Tcp vs b = Some (b\<lparr>bk_tcp := vs\<rparr>)"
| "bucket_set Oversized vs b = None"

definition buckets_take :: "byte_buckets \<Rightarrow> byte_class \<Rightarrow> (byte_buckets \<times> vec option) option" where
  "buckets_take b class =
     (if class = Oversized then Some (b, None)
      else do {
        bucket \<leftarrow> bucket_of class b;
        if bucket = [] then Some (b, None)
        else do {
          b \<leftarrow> bucket_set class (butlast bucket) b;
          Some (b, Some (last bucket))
        }
      })"

definition buckets_recycle :: "byte_buckets \<Rightarrow> byte_class \<Rightarrow> vec \<Rightarrow> network_limits \<Rightarrow> byte_buckets option" where
  "buckets_recycle b class bytes limits = do {
     bucket \<leftarrow> bucket_of class b;
     if length bucket < class_max_pooled class limits then bucket_set class (bucket @ [bytes]) b else Some b
   }"

definition buckets_prewarm :: "byte_buckets \<Rightarrow> byte_class \<Rightarrow> nat \<Rightarrow> network_limits \<Rightarrow> byte_buckets option" where
  "buckets_prewarm b class count limits = do {
     bucket \<leftarrow> bucket_of class b;
     bucket_set class
       (bucket @ replicate (count - length bucket) (vec_with_capacity (class_capacity class limits))) b
   }"

definition byte_try_take ::
  "network_limits \<Rightarrow> byte_buckets \<Rightarrow> nat \<Rightarrow> (byte_buckets \<times> (byte_buf, pool_exhausted) result) option" where
  "byte_try_take limits b capacity =
     (let class = class_for_capacity capacity limits;
          exhausted = Err \<lparr>pe_kind = ByteKind, pe_capacity = capacity\<rparr>
      in do {
        (b, taken) \<leftarrow> buckets_take b class;
        (case taken of
           None \<Rightarrow> Some (b, exhausted)
         | Some bytes \<Rightarrow>
             if vec_cap bytes < capacity then do {
               b \<leftarrow> buckets_recycle b class bytes limits;
               Some (b, exhausted)
             }
             else Some (b, Ok \<lparr>bb_bytes = bytes, bb_class = class\<rparr>))
      })"

definition byte_recycle :: "network_limits \<Rightarrow> byte_buckets \<Rightarrow> vec \<Rightarrow> byte_class \<Rightarrow> byte_buckets option" where
  "byte_recycle limits b bytes class =
     (let bytes = (if class_can_pool class (vec_cap bytes) limits then vec_clear bytes
                   else vec_with_capacity (class_capacity class limits))
      in buckets_recycle b class bytes limits)"

section \<open>The buffer pool\<close>

record pool =
  pl_frames :: "vec list"
  pl_bytes :: byte_buckets
  pl_limits :: network_limits

definition pool_new :: "network_limits \<Rightarrow> pool" where
  "pool_new limits =
     \<lparr>pl_frames = [], pl_bytes = \<lparr>bk_small = [], bk_medium = [], bk_tcp = []\<rparr>, pl_limits = limits\<rparr>"

definition with_frames :: "pool \<Rightarrow> vec list \<times> (vec, pool_exhausted) result \<Rightarrow> pool \<times> (vec, pool_exhausted) result" where
  "with_frames p r = (p\<lparr>pl_frames := fst r\<rparr>, snd r)"

definition try_output_frame :: "pool \<Rightarrow> pool \<times> (vec, pool_exhausted) result" where
  "try_output_frame p =
     with_frames p (frame_try_take (pl_limits p) (pl_frames p) (frame_buffer_capacity (pl_limits p))
       GUEST_PROGRESS_FRAME_RESERVE)"

definition try_guest_frame :: "pool \<Rightarrow> pool \<times> (vec, pool_exhausted) result" where
  "try_guest_frame p =
     with_frames p (frame_try_take (pl_limits p) (pl_frames p) (frame_buffer_capacity (pl_limits p))
       GATEWAY_RESPONSE_FRAME_RESERVE)"

definition try_output_frame_with_capacity :: "pool \<Rightarrow> nat \<Rightarrow> pool \<times> (vec, pool_exhausted) result" where
  "try_output_frame_with_capacity p capacity =
     with_frames p (frame_try_take (pl_limits p) (pl_frames p) capacity GUEST_PROGRESS_FRAME_RESERVE)"

definition try_gateway_response_frame_with_capacity :: "pool \<Rightarrow> nat \<Rightarrow> pool \<times> (vec, pool_exhausted) result" where
  "try_gateway_response_frame_with_capacity p capacity =
     with_frames p (frame_try_take (pl_limits p) (pl_frames p) capacity 0)"

definition try_byte_with_capacity :: "pool \<Rightarrow> nat \<Rightarrow> (pool \<times> (byte_buf, pool_exhausted) result) option" where
  "try_byte_with_capacity p capacity = do {
     (b, r) \<leftarrow> byte_try_take (pl_limits p) (pl_bytes p) capacity;
     Some (p\<lparr>pl_bytes := b\<rparr>, r)
   }"

definition try_tcp_byte :: "pool \<Rightarrow> (pool \<times> (byte_buf, pool_exhausted) result) option" where
  "try_tcp_byte p = try_byte_with_capacity p (tcp_byte_capacity (pl_limits p))"

definition prewarm_instance_network :: "pool \<Rightarrow> pool option" where
  "prewarm_instance_network p = do {
     let limits = pl_limits p;
     let p = p\<lparr>pl_frames := frame_prewarm (pl_frames p) (frame_buffer_pool_capacity limits)
                              (max_pooled_frame_capacity limits)\<rparr>;
     b \<leftarrow> buckets_prewarm (pl_bytes p) Small (small_byte_pool_capacity limits) limits;
     b \<leftarrow> buckets_prewarm b Medium (medium_byte_pool_capacity limits) limits;
     b \<leftarrow> buckets_prewarm b Tcp (tcp_byte_pool_capacity limits) limits;
     Some (p\<lparr>pl_bytes := b\<rparr>)
   }"

record pool_snapshot =
  frame_available :: nat
  small_byte_available :: nat
  medium_byte_available :: nat
  tcp_byte_available :: nat

definition snapshot :: "pool \<Rightarrow> pool_snapshot" where
  "snapshot p = \<lparr>
     frame_available = length (pl_frames p),
     small_byte_available = length (bk_small (pl_bytes p)),
     medium_byte_available = length (bk_medium (pl_bytes p)),
     tcp_byte_available = length (bk_tcp (pl_bytes p))\<rparr>"

definition frame_buf_drop :: "pool \<Rightarrow> vec \<Rightarrow> pool" where
  "frame_buf_drop p bytes = p\<lparr>pl_frames := frame_recycle (pl_limits p) (pl_frames p) bytes\<rparr>"

definition byte_buf_drop :: "pool \<Rightarrow> byte_buf \<Rightarrow> pool option" where
  "byte_buf_drop p buf = do {
     b \<leftarrow> byte_recycle (pl_limits p) (pl_bytes p) (bb_bytes buf) (bb_class buf);
     Some (p\<lparr>pl_bytes := b\<rparr>)
   }"

end
