(* ===== verification/PoolSafety.thy ===== *)
theory PoolSafety
  imports Pool
begin

text \<open>
  Executions of the buffer pool: components take buffers, write to them and drop them in any
  order.  Frames are written within their capacity (as the devices do); byte buffers may grow.
  The theorems are that the guest can always make progress whatever the guest-bound traffic
  holds, and that no byte buffer is ever lost to its size class.
\<close>

section \<open>Executions\<close>

datatype frame_use = OutputUse | GuestUse | GatewayUse

record pool_sys =
  ps_pool :: pool
  ps_frames :: "(frame_use \<times> vec) list"
  ps_bytes :: "byte_buf list"
  ps_panic :: bool

datatype pool_op =
    TakeOutput
  | TakeOutputCap nat
  | TakeGuest
  | TakeGateway nat
  | WriteFrame nat bytes
  | DropFrame nat
  | TakeByte nat
  | TakeTcp
  | WriteByte nat bytes
  | DropByte nat

definition ps_new :: "network_limits \<Rightarrow> pool_sys" where
  "ps_new limits =
     (case prewarm_instance_network (pool_new limits) of
        None \<Rightarrow> \<lparr>ps_pool = pool_new limits, ps_frames = [], ps_bytes = [], ps_panic = True\<rparr>
      | Some p \<Rightarrow> \<lparr>ps_pool = p, ps_frames = [], ps_bytes = [], ps_panic = False\<rparr>)"

definition ps_got_frame :: "frame_use \<Rightarrow> pool \<times> (vec, pool_exhausted) result \<Rightarrow> pool_sys \<Rightarrow> pool_sys" where
  "ps_got_frame u pr s =
     (case pr of
        (p, Ok v) \<Rightarrow> s\<lparr>ps_pool := p, ps_frames := ps_frames s @ [(u, v)]\<rparr>
      | (p, Err _) \<Rightarrow> s\<lparr>ps_pool := p\<rparr>)"

definition ps_got_byte :: "(pool \<times> (byte_buf, pool_exhausted) result) option \<Rightarrow> pool_sys \<Rightarrow> pool_sys" where
  "ps_got_byte pr s =
     (case pr of
        None \<Rightarrow> s\<lparr>ps_panic := True\<rparr>
      | Some (p, Ok b) \<Rightarrow> s\<lparr>ps_pool := p, ps_bytes := ps_bytes s @ [b]\<rparr>
      | Some (p, Err _) \<Rightarrow> s\<lparr>ps_pool := p\<rparr>)"

definition remove_nth :: "nat \<Rightarrow> 'a list \<Rightarrow> 'a list" where
  "remove_nth i xs = take i xs @ drop (Suc i) xs"

fun ps_step :: "pool_sys \<Rightarrow> pool_op \<Rightarrow> pool_sys" where
  "ps_step s TakeOutput = ps_got_frame OutputUse (try_output_frame (ps_pool s)) s"
| "ps_step s (TakeOutputCap n) = ps_got_frame OutputUse (try_output_frame_with_capacity (ps_pool s) n) s"
| "ps_step s TakeGuest = ps_got_frame GuestUse (try_guest_frame (ps_pool s)) s"
| "ps_step s (TakeGateway n) =
     ps_got_frame GatewayUse (try_gateway_response_frame_with_capacity (ps_pool s) n) s"
| "ps_step s (WriteFrame i data) =
     (if i < length (ps_frames s) \<and> length data \<le> vec_cap (snd (ps_frames s ! i))
      then s\<lparr>ps_frames := (ps_frames s)[i := map_prod id (vec_set data) (ps_frames s ! i)]\<rparr> else s)"
| "ps_step s (DropFrame i) =
     (if i < length (ps_frames s)
      then s\<lparr>ps_pool := frame_buf_drop (ps_pool s) (snd (ps_frames s ! i)),
             ps_frames := remove_nth i (ps_frames s)\<rparr> else s)"
| "ps_step s (TakeByte n) = ps_got_byte (try_byte_with_capacity (ps_pool s) n) s"
| "ps_step s TakeTcp = ps_got_byte (try_tcp_byte (ps_pool s)) s"
| "ps_step s (WriteByte i data) =
     (if i < length (ps_bytes s)
      then s\<lparr>ps_bytes := (ps_bytes s)[i := (ps_bytes s ! i)\<lparr>bb_bytes := vec_set data (bb_bytes (ps_bytes s ! i))\<rparr>]\<rparr>
      else s)"
| "ps_step s (DropByte i) =
     (if i < length (ps_bytes s)
      then (case byte_buf_drop (ps_pool s) (ps_bytes s ! i) of
              None \<Rightarrow> s\<lparr>ps_panic := True\<rparr>
            | Some p \<Rightarrow> s\<lparr>ps_pool := p, ps_bytes := remove_nth i (ps_bytes s)\<rparr>) else s)"

definition ps_run :: "pool_op list \<Rightarrow> pool_sys \<Rightarrow> pool_sys" where
  "ps_run ops s = foldl ps_step s ops"

section \<open>Invariants\<close>

definition use_count :: "frame_use \<Rightarrow> (frame_use \<times> vec) list \<Rightarrow> nat" where
  "use_count u fs = length (filter (\<lambda>x. x = u) (map fst fs))"

text \<open>Every frame is in the pool or checked out, at full size; output frames leave two behind.\<close>

definition frames_ok :: "network_limits \<Rightarrow> vec list \<Rightarrow> (frame_use \<times> vec) list \<Rightarrow> bool" where
  "frames_ok limits pooled out \<longleftrightarrow>
     length pooled + length out = frame_buffer_pool_capacity limits \<and>
     (\<forall>v\<in>set pooled. vec_cap v = max_pooled_frame_capacity limits) \<and>
     (\<forall>f\<in>set out. vec_cap (snd f) = max_pooled_frame_capacity limits) \<and>
     use_count OutputUse out + 2 \<le> frame_buffer_pool_capacity limits"

definition class_count :: "byte_class \<Rightarrow> byte_buf list \<Rightarrow> nat" where
  "class_count c bs = length (filter (\<lambda>x. x = c) (map bb_class bs))"

definition bytes_ok :: "network_limits \<Rightarrow> byte_buckets \<Rightarrow> byte_buf list \<Rightarrow> bool" where
  "bytes_ok limits b out \<longleftrightarrow>
     (\<forall>c. c \<noteq> Oversized \<longrightarrow>
        (\<exists>vs. bucket_of c b = Some vs \<and>
           length vs + class_count c out = class_max_pooled c limits \<and>
           (\<forall>v\<in>set vs. vec_cap v = class_capacity c limits))) \<and>
     (\<forall>x\<in>set out. bb_class x \<noteq> Oversized)"

section \<open>Frames\<close>

lemma filter_remove_nth:
  assumes "i < length xs"
  shows "length (filter P xs) = length (filter P (remove_nth i xs)) + (if P (xs ! i) then 1 else 0)"
proof -
  have "filter P xs = filter P (take i xs @ xs ! i # drop (Suc i) xs)"
    using id_take_nth_drop [OF assms] by simp
  then show ?thesis by (simp add: remove_nth_def)
qed

lemma set_remove_nth: "set (remove_nth i xs) \<subseteq> set xs"
  by (auto simp: remove_nth_def dest: in_set_takeD in_set_dropD)

lemma length_remove_nth: "i < length xs \<Longrightarrow> length (remove_nth i xs) = length xs - 1"
  by (simp add: remove_nth_def)

lemma frame_take_ok:
  assumes "frames_ok limits pooled out" "frame_try_take limits pooled n reserve = (pooled', r)"
    and "u = OutputUse \<longrightarrow> 2 \<le> reserve"
  shows "case r of
      Ok v \<Rightarrow> reserve < length pooled \<and> frames_ok limits pooled' (out @ [(u, v)])
    | Err _ \<Rightarrow> frames_ok limits pooled' out"
proof -
  have less: "use_count OutputUse out \<le> length out"
    using length_filter_le [of "\<lambda>x. x = OutputUse" "map fst out"] by (simp add: use_count_def)
  have app: "use_count OutputUse (out @ [(u, v)]) = use_count OutputUse out + (if u = OutputUse then 1 else 0)" for v
    by (simp add: use_count_def)
  show ?thesis
  proof (cases "pooled = []")
    case True
    then show ?thesis using assms by (auto simp: frame_try_take_def Let_def split: if_splits)
  next
    case False
    have last: "last pooled \<in> set pooled" using False by simp
    have sub: "v \<in> set (butlast pooled) \<Longrightarrow> v \<in> set pooled" for v by (rule in_set_butlastD)
    have len: "length (butlast pooled) = length pooled - 1" by simp
    show ?thesis
      using assms False last sub len less
      by (auto simp: frame_try_take_def Let_def frames_ok_def app split: if_splits)
  qed
qed

lemma frame_take_succeeds:
  assumes "frames_ok limits pooled out" "reserve < length pooled"
    and "max n (frame_buffer_capacity limits) \<le> max_pooled_frame_capacity limits"
  shows "\<exists>pooled' v. frame_try_take limits pooled n reserve = (pooled', Ok v)"
proof -
  have "pooled \<noteq> []" using assms(2) by auto
  then have "vec_cap (last pooled) = max_pooled_frame_capacity limits" using assms(1) by (simp add: frames_ok_def)
  then show ?thesis using assms(2,3) \<open>pooled \<noteq> []\<close> by (auto simp: frame_try_take_def Let_def)
qed

lemma frame_drop_ok:
  assumes "frames_ok limits pooled out" "i < length out"
  shows "frames_ok limits (frame_recycle limits pooled (snd (out ! i))) (remove_nth i out)"
proof -
  have "vec_cap (snd (out ! i)) = max_pooled_frame_capacity limits"
    using assms by (simp add: frames_ok_def)
  moreover have "use_count OutputUse (remove_nth i out) \<le> use_count OutputUse out"
    using filter_remove_nth [OF assms(2), of "\<lambda>f. fst f = OutputUse"]
    by (simp add: use_count_def filter_map comp_def)
  ultimately show ?thesis
    using assms set_remove_nth [of i out] length_remove_nth [OF assms(2)]
    by (auto simp: frames_ok_def frame_recycle_def vec_clear_def Let_def)
qed

lemma frame_write_ok:
  assumes "frames_ok limits pooled out" "i < length out" "length data \<le> vec_cap (snd (out ! i))"
  shows "frames_ok limits pooled (out[i := map_prod id (vec_set data) (out ! i)])"
proof -
  have "vec_cap (vec_set data (snd (out ! i))) = max_pooled_frame_capacity limits"
    using assms by (simp add: frames_ok_def vec_set_def)
  moreover have "map fst (out[i := map_prod id (vec_set data) (out ! i)]) = map fst out"
    using assms(2) by (simp add: map_update) (simp flip: nth_map)
  then have "use_count OutputUse (out[i := map_prod id (vec_set data) (out ! i)]) = use_count OutputUse out"
    by (simp add: use_count_def)
  ultimately show ?thesis
    using assms by (auto simp: frames_ok_def dest!: set_update_subset_insert [THEN subsetD])
qed

section \<open>Byte buffers\<close>

lemma bucket_of_set:
  "bucket_set c vs b = Some b' \<Longrightarrow> bucket_of c' b' = (if c' = c then Some vs else bucket_of c' b)"
  by (cases c; cases c'; auto)

lemma bucket_set_None: "bucket_set c vs b = None \<longleftrightarrow> c = Oversized"
  by (cases c) auto

lemma bucket_cases:
  assumes "bytes_ok limits b out" "c \<noteq> Oversized"
  obtains vs where "bucket_of c b = Some vs" "length vs + class_count c out = class_max_pooled c limits"
    "\<forall>v\<in>set vs. vec_cap v = class_capacity c limits"
  using assms by (auto simp: bytes_ok_def)

text \<open>Replacing one bucket, with one buffer moving in or out of it.\<close>

lemma bytes_ok_set:
  assumes "bytes_ok limits b out" "bucket_set c vs b = Some b'"
    and "length vs + class_count c out' = class_max_pooled c limits"
    and "\<forall>v\<in>set vs. vec_cap v = class_capacity c limits"
    and "\<forall>c'. c' \<noteq> c \<longrightarrow> class_count c' out' = class_count c' out"
    and "\<forall>x\<in>set out'. bb_class x \<noteq> Oversized"
  shows "bytes_ok limits b' out'"
  unfolding bytes_ok_def
proof (intro conjI allI impI)
  fix c' assume c': "c' \<noteq> Oversized"
  show "\<exists>vs. bucket_of c' b' = Some vs \<and> length vs + class_count c' out' = class_max_pooled c' limits \<and>
      (\<forall>v\<in>set vs. vec_cap v = class_capacity c' limits)"
  proof (cases "c' = c")
    case True
    then show ?thesis using assms(3,4) bucket_of_set [OF assms(2), of c] by simp
  next
    case False
    then show ?thesis
      using bucket_of_set [OF assms(2), of c'] assms(1,5) c' by (auto simp: bytes_ok_def)
  qed
qed (rule assms(6))

lemma class_for_capacity_fits:
  "class_for_capacity n limits \<noteq> Oversized \<Longrightarrow> n \<le> class_capacity (class_for_capacity n limits) limits"
  by (auto simp: class_for_capacity_def split: if_splits)

lemma byte_take_ok:
  assumes "bytes_ok limits b out"
  shows "\<exists>b' r. byte_try_take limits b n = Some (b', r) \<and>
    (case r of
       Ok x \<Rightarrow> bytes_ok limits b' (out @ [x]) \<and> class_capacity (bb_class x) limits \<le> vec_cap (bb_bytes x)
     | Err _ \<Rightarrow> bytes_ok limits b' out)"
proof -
  define c where "c = class_for_capacity n limits"
  show ?thesis
  proof (cases "c = Oversized")
    case True
    then show ?thesis using assms by (simp add: byte_try_take_def buckets_take_def flip: c_def)
  next
    case False
    obtain vs where vs: "bucket_of c b = Some vs" "length vs + class_count c out = class_max_pooled c limits"
      "\<forall>v\<in>set vs. vec_cap v = class_capacity c limits"
      using bucket_cases [OF assms False] .
    show ?thesis
    proof (cases "vs = []")
      case True
      then show ?thesis using assms vs(1) False by (simp add: byte_try_take_def buckets_take_def flip: c_def)
    next
      case ne: False
      obtain b' where b': "bucket_set c (butlast vs) b = Some b'" using False bucket_set_None by blast
      have big: "\<not> vec_cap (last vs) < n"
        using ne vs(3) False class_for_capacity_fits [of n limits] by (simp add: c_def)
      have "bytes_ok limits b' (out @ [\<lparr>bb_bytes = last vs, bb_class = c\<rparr>])"
      proof (rule bytes_ok_set [OF assms b'])
        show "length (butlast vs) + class_count c (out @ [\<lparr>bb_bytes = last vs, bb_class = c\<rparr>]) = class_max_pooled c limits"
          using vs(2) ne by (cases vs) (auto simp: class_count_def)
        show "\<forall>v\<in>set (butlast vs). vec_cap v = class_capacity c limits" using vs(3) by (blast dest: in_set_butlastD)
      qed (use assms False in \<open>auto simp: class_count_def bytes_ok_def\<close>)
      then show ?thesis
        using vs(1,3) False ne b' big by (simp add: byte_try_take_def buckets_take_def flip: c_def)
    qed
  qed
qed

text \<open>A buffer that outgrew its class is replaced, so the class loses nothing.\<close>

lemma byte_drop_ok:
  assumes "bytes_ok limits b out" "i < length out"
    and "class_capacity (bb_class (out ! i)) limits \<le> vec_cap (bb_bytes (out ! i))"
  shows "\<exists>b'. byte_recycle limits b (bb_bytes (out ! i)) (bb_class (out ! i)) = Some b' \<and>
    bytes_ok limits b' (remove_nth i out)"
proof -
  define c where "c = bb_class (out ! i)"
  have c: "c \<noteq> Oversized" using assms(1,2) by (simp add: bytes_ok_def c_def)
  obtain vs where vs: "bucket_of c b = Some vs" "length vs + class_count c out = class_max_pooled c limits"
    "\<forall>v\<in>set vs. vec_cap v = class_capacity c limits"
    using bucket_cases [OF assms(1) c] .
  have count: "class_count c' out = class_count c' (remove_nth i out) + (if c' = c then 1 else 0)" for c'
    using filter_remove_nth [OF assms(2), of "\<lambda>x. bb_class x = c'"]
    by (auto simp: class_count_def c_def filter_map comp_def)
  define v where "v = (if class_can_pool c (vec_cap (bb_bytes (out ! i))) limits then vec_clear (bb_bytes (out ! i))
    else vec_with_capacity (class_capacity c limits))"
  have v: "vec_cap v = class_capacity c limits"
    using assms(3) c by (cases c) (auto simp: v_def vec_clear_def vec_with_capacity_def c_def [symmetric])
  obtain b' where b': "bucket_set c (vs @ [v]) b = Some b'" using c bucket_set_None by blast
  have "byte_recycle limits b (bb_bytes (out ! i)) c = Some b'"
    using vs(1,2) count [of c] b' by (simp add: byte_recycle_def buckets_recycle_def Let_def flip: v_def)
  moreover have "bytes_ok limits b' (remove_nth i out)"
    by (rule bytes_ok_set [OF assms(1) b'])
      (use vs v count set_remove_nth [of i out] assms(1) in \<open>auto simp: bytes_ok_def\<close>)
  ultimately show ?thesis by (auto simp: c_def)
qed

section \<open>Every step keeps the invariants\<close>

definition ps_frames_invar :: "network_limits \<Rightarrow> pool_sys \<Rightarrow> bool" where
  "ps_frames_invar limits s \<longleftrightarrow>
     pl_limits (ps_pool s) = limits \<and> frames_ok limits (pl_frames (ps_pool s)) (ps_frames s)"

definition ps_bytes_invar :: "network_limits \<Rightarrow> pool_sys \<Rightarrow> bool" where
  "ps_bytes_invar limits s \<longleftrightarrow>
     pl_limits (ps_pool s) = limits \<and> bytes_ok limits (pl_bytes (ps_pool s)) (ps_bytes s) \<and>
     (\<forall>x\<in>set (ps_bytes s). class_capacity (bb_class x) limits \<le> vec_cap (bb_bytes x)) \<and> \<not> ps_panic s"

lemma ps_got_frame_frames:
  assumes "ps_frames_invar limits s" "u = OutputUse \<longrightarrow> 2 \<le> reserve"
  shows "ps_frames_invar limits
    (ps_got_frame u (with_frames (ps_pool s) (frame_try_take limits (pl_frames (ps_pool s)) n reserve)) s)"
proof -
  obtain fs r where fr: "frame_try_take limits (pl_frames (ps_pool s)) n reserve = (fs, r)"
    by (cases "frame_try_take limits (pl_frames (ps_pool s)) n reserve")
  show ?thesis
    using frame_take_ok [OF _ fr assms(2), of "ps_frames s"] assms(1) fr
    by (cases r) (simp_all add: ps_frames_invar_def ps_got_frame_def with_frames_def)
qed

lemma ps_got_byte_bytes:
  assumes "ps_bytes_invar limits s"
  shows "ps_bytes_invar limits (ps_got_byte (try_byte_with_capacity (ps_pool s) n) s)"
proof -
  have "bytes_ok limits (pl_bytes (ps_pool s)) (ps_bytes s)" using assms by (simp add: ps_bytes_invar_def)
  from byte_take_ok [OF this, of n] obtain b r where
    br: "byte_try_take limits (pl_bytes (ps_pool s)) n = Some (b, r)"
    "case r of
       Ok x \<Rightarrow> bytes_ok limits b (ps_bytes s @ [x]) \<and> class_capacity (bb_class x) limits \<le> vec_cap (bb_bytes x)
     | Err _ \<Rightarrow> bytes_ok limits b (ps_bytes s)" by blast
  then show ?thesis
    using assms by (cases r) (auto simp: ps_bytes_invar_def ps_got_byte_def try_byte_with_capacity_def)
qed

lemma ps_got_frame_bytes:
  "ps_bytes_invar limits s \<Longrightarrow> ps_bytes_invar limits (ps_got_frame u (with_frames (ps_pool s) r) s)"
  by (auto simp: ps_bytes_invar_def ps_got_frame_def with_frames_def split: result.splits)

lemma ps_got_byte_frames:
  "ps_frames_invar limits s \<Longrightarrow> ps_frames_invar limits (ps_got_byte (try_byte_with_capacity (ps_pool s) n) s)"
  by (auto simp: ps_frames_invar_def ps_got_byte_def try_byte_with_capacity_def
      split: option.splits result.splits bind_splits prod.splits)

lemmas frame_takes = try_output_frame_def try_output_frame_with_capacity_def try_guest_frame_def
  try_gateway_response_frame_with_capacity_def

lemma ps_step_frames:
  assumes "ps_frames_invar limits s"
  shows "ps_frames_invar limits (ps_step s op)"
proof (cases op)
  case (DropByte i)
  then show ?thesis using assms
    by (auto simp: ps_frames_invar_def byte_buf_drop_def split: option.splits bind_splits)
next
  case (WriteFrame i data)
  then show ?thesis using assms frame_write_ok by (simp add: ps_frames_invar_def)
next
  case (DropFrame i)
  then show ?thesis using assms frame_drop_ok by (simp add: ps_frames_invar_def frame_buf_drop_def)
qed (use assms ps_got_frame_frames [OF assms] ps_got_byte_frames [OF assms] in
    \<open>simp_all add: frame_takes try_tcp_byte_def, simp_all add: ps_frames_invar_def\<close>)

lemma ps_write_bytes:
  assumes "ps_bytes_invar limits s"
  shows "ps_bytes_invar limits (ps_step s (WriteByte i data))"
proof (cases "i < length (ps_bytes s)")
  case True
  define out where "out = (ps_bytes s)[i := (ps_bytes s ! i)\<lparr>bb_bytes := vec_set data (bb_bytes (ps_bytes s ! i))\<rparr>]"
  have "map bb_class out = map bb_class (ps_bytes s)"
    using True by (simp add: out_def map_update) (simp flip: nth_map)
  then have count: "class_count c out = class_count c (ps_bytes s)" for c
    by (simp add: class_count_def)
  have member: "x \<in> set out \<Longrightarrow> x \<in> set (ps_bytes s) \<or>
      x = (ps_bytes s ! i)\<lparr>bb_bytes := vec_set data (bb_bytes (ps_bytes s ! i))\<rparr>" for x
    unfolding out_def using set_update_subset_insert [THEN subsetD] by fastforce
  have here: "ps_bytes s ! i \<in> set (ps_bytes s)" using True by simp
  have "bytes_ok limits (pl_bytes (ps_pool s)) out"
    using assms here unfolding bytes_ok_def ps_bytes_invar_def count by (auto dest!: member)
  moreover have "\<forall>x\<in>set out. class_capacity (bb_class x) limits \<le> vec_cap (bb_bytes x)"
  proof
    fix x assume x: "x \<in> set out"
    have "class_capacity (bb_class (ps_bytes s ! i)) limits \<le> vec_cap (bb_bytes (ps_bytes s ! i))"
      using here assms by (simp add: ps_bytes_invar_def)
    then show "class_capacity (bb_class x) limits \<le> vec_cap (bb_bytes x)"
      using assms member [OF x] by (auto simp: ps_bytes_invar_def vec_set_def)
  qed
  ultimately show ?thesis using assms True by (simp add: ps_bytes_invar_def flip: out_def)
qed (use assms in simp)

lemma ps_drop_bytes:
  assumes "ps_bytes_invar limits s"
  shows "ps_bytes_invar limits (ps_step s (DropByte i))"
proof (cases "i < length (ps_bytes s)")
  case True
  have ok: "bytes_ok limits (pl_bytes (ps_pool s)) (ps_bytes s)"
    "class_capacity (bb_class (ps_bytes s ! i)) limits \<le> vec_cap (bb_bytes (ps_bytes s ! i))"
    using assms True by (simp_all add: ps_bytes_invar_def)
  obtain b' where "byte_recycle limits (pl_bytes (ps_pool s)) (bb_bytes (ps_bytes s ! i)) (bb_class (ps_bytes s ! i)) = Some b'"
    "bytes_ok limits b' (remove_nth i (ps_bytes s))"
    using byte_drop_ok [OF ok(1) True ok(2)] by blast
  then show ?thesis
    using assms True set_remove_nth [of i "ps_bytes s"] by (auto simp: ps_bytes_invar_def byte_buf_drop_def)
qed (use assms in simp)

lemma ps_step_bytes:
  assumes "ps_bytes_invar limits s"
  shows "ps_bytes_invar limits (ps_step s op)"
proof (cases op)
  case (WriteByte i data)
  then show ?thesis using ps_write_bytes [OF assms] by blast
next
  case (DropByte i)
  then show ?thesis using ps_drop_bytes [OF assms] by blast
next
  case (WriteFrame i data)
  then show ?thesis using assms by (simp add: ps_bytes_invar_def)
next
  case (DropFrame i)
  then show ?thesis using assms by (simp add: ps_bytes_invar_def frame_buf_drop_def)
qed (use ps_got_frame_bytes [OF assms] ps_got_byte_bytes [OF assms] in
    \<open>simp_all add: frame_takes try_tcp_byte_def\<close>)

lemma ps_run_frames: "ps_frames_invar limits s \<Longrightarrow> ps_frames_invar limits (ps_run ops s)"
  unfolding ps_run_def by (induction ops arbitrary: s) (simp_all add: ps_step_frames del: ps_step.simps)

lemma ps_run_bytes: "ps_bytes_invar limits s \<Longrightarrow> ps_bytes_invar limits (ps_run ops s)"
  unfolding ps_run_def by (induction ops arbitrary: s) (simp_all add: ps_step_bytes del: ps_step.simps)

lemma ps_new_eq:
  "ps_new limits =
    \<lparr>ps_pool = \<lparr>pl_frames = replicate (frame_buffer_pool_capacity limits) (vec_with_capacity (max_pooled_frame_capacity limits)),
       pl_bytes = \<lparr>bk_small = replicate (small_byte_pool_capacity limits) (vec_with_capacity (small_byte_capacity limits)),
         bk_medium = replicate (medium_byte_pool_capacity limits) (vec_with_capacity (medium_byte_capacity limits)),
         bk_tcp = replicate (tcp_byte_pool_capacity limits) (vec_with_capacity (tcp_byte_capacity limits))\<rparr>,
       pl_limits = limits\<rparr>, ps_frames = [], ps_bytes = [], ps_panic = False\<rparr>"
  by (simp add: ps_new_def prewarm_instance_network_def pool_new_def frame_prewarm_def buckets_prewarm_def Let_def)

lemma ps_new_frames: "2 \<le> frame_buffer_pool_capacity limits \<Longrightarrow> ps_frames_invar limits (ps_new limits)"
  by (simp add: ps_frames_invar_def ps_new_eq frames_ok_def use_count_def vec_with_capacity_def)

lemma ps_new_bytes: "ps_bytes_invar limits (ps_new limits)"
proof -
  have "c \<noteq> Oversized \<Longrightarrow> \<exists>vs. bucket_of c (pl_bytes (ps_pool (ps_new limits))) = Some vs \<and>
      length vs = class_max_pooled c limits \<and> (\<forall>v\<in>set vs. vec_cap v = class_capacity c limits)" for c
    by (cases c) (simp_all add: ps_new_eq vec_with_capacity_def)
  then show ?thesis by (simp add: ps_bytes_invar_def bytes_ok_def class_count_def) (simp add: ps_new_eq)
qed

section \<open>Progress of the guest\<close>

lemma use_count_total:
  "length fs = use_count OutputUse fs + use_count GuestUse fs + use_count GatewayUse fs"
proof (induction fs)
  case (Cons f fs)
  then show ?case by (cases "fst f") (simp_all add: use_count_def)
qed (simp add: use_count_def)

text \<open>
  Claim C21.  Guest-bound traffic cannot starve the guest: with validated limits, whatever
  output frames and byte buffers are held, if no guest frame and no gateway answer is in
  flight then a guest frame can be read and the frame for its answer allocated after it.
\<close>

theorem guest_progress:
  assumes "validate_for_event_loop limits = Ok ()"
    and "frame_buffer_capacity limits \<le> max_pooled_frame_capacity limits"
    and "n \<le> max_pooled_frame_capacity limits"
    and "use_count GuestUse (ps_frames (ps_run ops (ps_new limits))) = 0"
    and "use_count GatewayUse (ps_frames (ps_run ops (ps_new limits))) = 0"
  shows "\<exists>p guest p' answer. try_guest_frame (ps_pool (ps_run ops (ps_new limits))) = (p, Ok guest) \<and>
    try_gateway_response_frame_with_capacity p n = (p', Ok answer)"
proof -
  let ?s = "ps_run ops (ps_new limits)"
  let ?N = "frame_buffer_pool_capacity limits" and ?fs = "pl_frames (ps_pool ?s)"
  have "2 \<le> ?N" using validated_frame_pool [OF assms(1)] by simp
  then have inv: "pl_limits (ps_pool ?s) = limits" "frames_ok limits ?fs (ps_frames ?s)"
    using ps_run_frames [OF ps_new_frames] by (auto simp: ps_frames_invar_def)
  have "2 \<le> length ?fs"
    using inv(2) assms(4,5) use_count_total [of "ps_frames ?s"] by (simp add: frames_ok_def)
  then have enough: "1 < length ?fs" by simp
  obtain fs1 v where take1: "frame_try_take limits ?fs (frame_buffer_capacity limits) 1 = (fs1, Ok v)"
    using frame_take_succeeds [OF inv(2) enough, of "frame_buffer_capacity limits"] assms(2) by auto
  have ok1: "frames_ok limits fs1 (ps_frames ?s @ [(GuestUse, v)])"
    using frame_take_ok [OF inv(2) take1, of GuestUse] by simp
  have "0 < length fs1"
    using ok1 inv(2) enough by (cases fs1) (auto simp: frames_ok_def)
  from frame_take_succeeds [OF ok1 this, of n] obtain fs2 w where
    "frame_try_take limits fs1 n 0 = (fs2, Ok w)" using assms(2,3) by auto
  then show ?thesis using take1 inv(1) by (simp add: frame_takes with_frames_def)
qed

definition demo_limits :: network_limits where
  "demo_limits = default_local\<lparr>frame_buffer_pool_capacity := 3, small_byte_pool_capacity := 1,
     medium_byte_pool_capacity := 1, tcp_byte_pool_capacity := 1\<rparr>"

theorem guest_progress_witness:
  "\<exists>p guest p' answer.
    try_guest_frame (ps_pool (ps_run [TakeOutput, TakeOutput] (ps_new demo_limits))) = (p, Ok guest) \<and>
    try_gateway_response_frame_with_capacity p 65535 = (p', Ok answer)"
proof -
  have "validate_for_event_loop demo_limits = Ok ()"
    by (simp add: demo_limits_def validate_for_event_loop_def default_local_def)
  moreover have "use_count GuestUse (ps_frames (ps_run [TakeOutput, TakeOutput] (ps_new demo_limits))) = 0"
    "use_count GatewayUse (ps_frames (ps_run [TakeOutput, TakeOutput] (ps_new demo_limits))) = 0"
    by (simp_all add: ps_run_def ps_new_eq demo_limits_def default_local_def try_output_frame_def Let_def
        frame_try_take_def ps_got_frame_def with_frames_def vec_with_capacity_def use_count_def numeral_3_eq_3)
  ultimately show ?thesis
    using guest_progress [of demo_limits 65535 "[TakeOutput, TakeOutput]"]
    by (simp add: demo_limits_def default_local_def)
qed

section \<open>No byte buffer is lost\<close>

text \<open>
  The byte pools never shrink and never panic: over any sequence of takes, writes
  that may grow a buffer beyond its class, and drops, the buffers of each size class that are
  available and those that are checked out add up to the number the class was prewarmed with.
\<close>

theorem byte_pool_conserved:
  "let s = ps_run ops (ps_new limits) in
     \<not> ps_panic s \<and>
     small_byte_available (snapshot (ps_pool s)) + class_count Small (ps_bytes s) = small_byte_pool_capacity limits \<and>
     medium_byte_available (snapshot (ps_pool s)) + class_count Medium (ps_bytes s) = medium_byte_pool_capacity limits \<and>
     tcp_byte_available (snapshot (ps_pool s)) + class_count Tcp (ps_bytes s) = tcp_byte_pool_capacity limits"
proof -
  let ?s = "ps_run ops (ps_new limits)"
  have inv: "bytes_ok limits (pl_bytes (ps_pool ?s)) (ps_bytes ?s)" "\<not> ps_panic ?s"
    using ps_run_bytes [OF ps_new_bytes] by (auto simp: ps_bytes_invar_def)
  then show ?thesis
    using bucket_cases [OF inv(1), of Small] bucket_cases [OF inv(1), of Medium] bucket_cases [OF inv(1), of Tcp]
    by (auto simp: Let_def snapshot_def)
qed

end
