(* ===== verification/WriteQueue.thy ===== *)
theory WriteQueue
  imports PoolSafety
begin

text \<open>
  The write queue of \<open>src/src/libs/agentdp-network/src/buffers/write_queue.rs\<close>: pooled buffers
  waiting for a socket, the front one partly written.  Its meaning is a stream of bytes.
\<close>

section \<open>Operations\<close>

record pending_write =
  pw_bytes :: byte_buf
  pw_offset :: nat

record write_queue =
  wq_first :: "pending_write option"
  wq_rest :: "pending_write list"

abbreviation buf_data :: "byte_buf \<Rightarrow> bytes" where
  "buf_data b \<equiv> vec_data (bb_bytes b)"

definition pw_is_empty :: "pending_write \<Rightarrow> bool" where
  "pw_is_empty w \<longleftrightarrow> pw_offset w \<ge> length (buf_data (pw_bytes w))"

definition pw_remaining :: "pending_write \<Rightarrow> bytes option" where
  "pw_remaining w = (if pw_is_empty w then None else Some (drop (pw_offset w) (buf_data (pw_bytes w))))"

definition pw_remaining_len :: "pending_write \<Rightarrow> nat" where
  "pw_remaining_len w = length (buf_data (pw_bytes w)) - pw_offset w"

text \<open>
  \<open>into_remaining\<close> consumes the write: unless the whole buffer is handed on, its buffer goes
  back to the pool at the end, whether the copy could be allocated or not.
\<close>

definition pw_into_remaining :: "pending_write \<Rightarrow> pool \<Rightarrow> (pool \<times> (byte_buf, pool_exhausted) result) option" where
  "pw_into_remaining w buffers =
     (if pw_offset w = 0 then Some (buffers, Ok (pw_bytes w))
      else do {
        remaining \<leftarrow> slice (buf_data (pw_bytes w)) (pw_offset w) (length (buf_data (pw_bytes w)));
        (buffers, r) \<leftarrow> try_byte_with_capacity buffers (length remaining);
        buffers \<leftarrow> byte_buf_drop buffers (pw_bytes w);
        Some (buffers, case r of
            Err e \<Rightarrow> Err e
          | Ok b \<Rightarrow> Ok (b\<lparr>bb_bytes := buf_extend_from_slice remaining (bb_bytes b)\<rparr>))
      })"

definition wq_new :: write_queue where
  "wq_new = \<lparr>wq_first = None, wq_rest = []\<rparr>"

definition wq_push :: "write_queue \<Rightarrow> byte_buf \<Rightarrow> write_queue" where
  "wq_push q bytes =
     (if buf_data bytes = [] then q
      else let write = \<lparr>pw_bytes = bytes, pw_offset = 0\<rparr> in
        if wq_first q = None then q\<lparr>wq_first := Some write\<rparr>
        else q\<lparr>wq_rest := wq_rest q @ [write]\<rparr>)"

definition wq_push_front :: "write_queue \<Rightarrow> pending_write \<Rightarrow> write_queue" where
  "wq_push_front q write =
     (if pw_is_empty write then q
      else case wq_first q of
        None \<Rightarrow> q\<lparr>wq_first := Some write\<rparr>
      | Some first \<Rightarrow> q\<lparr>wq_first := Some write, wq_rest := first # wq_rest q\<rparr>)"

text \<open>\<open>self.first = self.rest.pop_front()\<close>\<close>

definition wq_next :: "write_queue \<Rightarrow> write_queue" where
  "wq_next q =
     (case wq_rest q of
        [] \<Rightarrow> q\<lparr>wq_first := None\<rparr>
      | w # ws \<Rightarrow> q\<lparr>wq_first := Some w, wq_rest := ws\<rparr>)"

definition wq_pop_front :: "write_queue \<Rightarrow> write_queue \<times> pending_write option" where
  "wq_pop_front q =
     (case wq_first q of
        None \<Rightarrow> (q, None)
      | Some write \<Rightarrow> (wq_next (q\<lparr>wq_first := None\<rparr>), Some write))"

definition wq_front_slice :: "write_queue \<Rightarrow> bytes option" where
  "wq_front_slice q = Option.bind (wq_first q) pw_remaining"

definition wq_advance_front :: "write_queue \<Rightarrow> nat \<Rightarrow> write_queue \<times> bool" where
  "wq_advance_front q len =
     (case wq_first q of
        None \<Rightarrow> (q, True)
      | Some write \<Rightarrow>
         (let write = write\<lparr>pw_offset := pw_offset write + len\<rparr> in
          if pw_offset write \<ge> length (buf_data (pw_bytes write)) then (wq_next q, True)
          else (q\<lparr>wq_first := Some write\<rparr>, False)))"

definition wq_is_empty :: "write_queue \<Rightarrow> bool" where
  "wq_is_empty q \<longleftrightarrow> wq_first q = None"

definition wq_clear :: "write_queue \<Rightarrow> write_queue" where
  "wq_clear q = q\<lparr>wq_first := None, wq_rest := []\<rparr>"

definition wq_pending_bytes :: "write_queue \<Rightarrow> nat" where
  "wq_pending_bytes q = sum_list (map pw_remaining_len ((case wq_first q of None \<Rightarrow> [] | Some w \<Rightarrow> [w]) @ wq_rest q))"

section \<open>The stream\<close>

definition pw_data :: "pending_write \<Rightarrow> bytes" where
  "pw_data w = drop (pw_offset w) (buf_data (pw_bytes w))"

definition wq_writes :: "write_queue \<Rightarrow> pending_write list" where
  "wq_writes q = (case wq_first q of None \<Rightarrow> [] | Some w \<Rightarrow> [w]) @ wq_rest q"

definition wq_stream :: "write_queue \<Rightarrow> bytes" where
  "wq_stream q = concat (map pw_data (wq_writes q))"

text \<open>No write in the queue is used up, and nothing waits behind an empty front.\<close>

definition wq_invar :: "write_queue \<Rightarrow> bool" where
  "wq_invar q \<longleftrightarrow> (wq_first q = None \<longrightarrow> wq_rest q = []) \<and> (\<forall>w\<in>set (wq_writes q). \<not> pw_is_empty w)"

datatype wq_op = WPush byte_buf | WAccept nat | WUndo

text \<open>
  The drive loop against a socket: the front slice is offered, the socket accepts some prefix
  of it, the queue advances.  \<open>WUndo\<close> takes the front write out and puts it back.
\<close>

fun wq_step :: "write_queue \<Rightarrow> wq_op \<Rightarrow> write_queue \<times> bytes" where
  "wq_step q (WPush b) = (wq_push q b, [])"
| "wq_step q (WAccept n) =
     (case wq_front_slice q of
        None \<Rightarrow> (q, [])
      | Some front \<Rightarrow> (fst (wq_advance_front q (min n (length front))), take n front))"
| "wq_step q WUndo =
     (case wq_pop_front q of (q, None) \<Rightarrow> (q, []) | (q, Some w) \<Rightarrow> (wq_push_front q w, []))"

fun wq_run :: "write_queue \<Rightarrow> wq_op list \<Rightarrow> write_queue \<times> bytes \<times> bytes" where
  "wq_run q [] = (q, [], [])"
| "wq_run q (op # ops) =
     (case wq_step q op of (q', sent) \<Rightarrow>
      case wq_run q' ops of (t, pushed, sents) \<Rightarrow>
        (t, (case op of WPush b \<Rightarrow> buf_data b @ pushed | _ \<Rightarrow> pushed), sent @ sents))"

lemmas wq_defs = wq_stream_def wq_writes_def pw_data_def

lemma wq_step_stream:
  assumes "wq_invar q" "wq_step q op = (q', sent)"
  shows "wq_invar q' \<and> wq_stream q @ (case op of WPush b \<Rightarrow> buf_data b | _ \<Rightarrow> []) = sent @ wq_stream q'"
proof (cases op)
  case (WPush b)
  then show ?thesis using assms
    by (cases "wq_first q") (auto simp: wq_push_def wq_invar_def wq_defs pw_is_empty_def Let_def split: if_splits)
next
  case (WAccept n)
  show ?thesis
  proof (cases "wq_first q")
    case None
    then show ?thesis using assms WAccept by (auto simp: wq_front_slice_def)
  next
    case (Some w)
    then have ne: "\<not> pw_is_empty w" using assms(1) by (simp add: wq_invar_def wq_writes_def)
    let ?d = "drop (pw_offset w) (buf_data (pw_bytes w))"
    have step: "q' = fst (wq_advance_front q (min n (length ?d)))" "sent = take n ?d"
      using assms(2) WAccept Some ne by (auto simp: wq_front_slice_def pw_remaining_def)
    show ?thesis
    proof (cases "n \<ge> length ?d")
      case True
      then show ?thesis
        using assms(1) Some WAccept ne step
        by (cases "wq_rest q") (auto simp: wq_advance_front_def wq_next_def wq_invar_def wq_defs pw_is_empty_def)
    next
      case False
      then have "take n ?d @ drop (pw_offset w + n) (buf_data (pw_bytes w)) = ?d"
        by (metis add.commute append_take_drop_id drop_drop)
      then show ?thesis
        using assms(1) Some WAccept ne step False
        by (auto simp: wq_advance_front_def wq_invar_def wq_defs pw_is_empty_def Let_def)
    qed
  qed
next
  case WUndo
  then show ?thesis using assms
    by (cases "wq_first q"; cases "wq_rest q")
      (auto simp: wq_pop_front_def wq_push_front_def wq_next_def wq_invar_def wq_defs)
qed

lemma wq_run_stream:
  assumes "wq_invar q" "wq_run q ops = (t, pushed, sent)"
  shows "wq_invar t \<and> wq_stream q @ pushed = sent @ wq_stream t"
  using assms
proof (induction ops arbitrary: q pushed sent)
  case Nil
  then show ?case by simp
next
  case (Cons op ops)
  obtain q' s where st: "wq_step q op = (q', s)" by (cases "wq_step q op")
  obtain p' s' where run: "wq_run q' ops = (t, p', s')" using Cons.prems(2) st by (auto split: prod.splits)
  note step = wq_step_stream [OF Cons.prems(1) st]
  then have "wq_stream q' @ p' = s' @ wq_stream t" "wq_invar t" using Cons.IH [OF _ run] by blast+
  then show ?case
    using step Cons.prems(2) st run by (cases op) (auto, metis append_assoc)
qed

text \<open>The byte count the scheduler sees is the length of the stream.\<close>

lemma wq_pending_bytes_stream: "wq_pending_bytes q = length (wq_stream q)"
  by (simp add: wq_pending_bytes_def wq_defs pw_remaining_len_def [abs_def] length_concat comp_def split: option.splits)

text \<open>
  The write queue is a byte stream: however the pushes, the partial writes of any
  size and the returns of a taken write interleave, the bytes handed to the socket followed by
  the bytes still queued are exactly the bytes pushed, in order, and \<open>pending_bytes\<close> is the
  number of bytes still queued.
\<close>

theorem write_queue_stream:
  "case wq_run wq_new ops of (t, pushed, sent) \<Rightarrow>
     pushed = sent @ wq_stream t \<and> wq_pending_bytes t = length pushed - length sent"
proof -
  obtain t p s where run: "wq_run wq_new ops = (t, p, s)" by (cases "wq_run wq_new ops")
  have "wq_invar wq_new" "wq_stream wq_new = []" by (simp_all add: wq_new_def wq_invar_def wq_defs)
  then show ?thesis
    using wq_run_stream [OF _ run] run wq_pending_bytes_stream [of t] by simp
qed

end
