(* ===== verification/Timer.thy ===== *)
theory Timer
  imports Prelude
begin

text \<open>
  The timer queue of \<open>src/src/libs/agentdp-network/src/timer.rs\<close>: one optional deadline per
  timer.  An \<open>Instant\<close> is the number of nanoseconds since some epoch; the clock is whatever
  \<open>now\<close> the caller passes.
\<close>

section \<open>Operations\<close>

abbreviation (input) TIMER_QUEUE_REQUIRED_CAPACITY :: nat where "TIMER_QUEUE_REQUIRED_CAPACITY \<equiv> 5"

datatype timer_id = ConnectRetry | Reconnect | GatewayPoll | UdpExpiry | StatusPublish

definition timer_all :: "timer_id list" where
  "timer_all = [ConnectRetry, Reconnect, GatewayPoll, UdpExpiry, StatusPublish]"

fun timer_index :: "timer_id \<Rightarrow> nat" where
  "timer_index ConnectRetry = 0"
| "timer_index Reconnect = 1"
| "timer_index GatewayPoll = 2"
| "timer_index UdpExpiry = 3"
| "timer_index StatusPublish = 4"

record timer_queue_error =
  tqe_capacity :: nat
  tqe_required :: nat

type_synonym timer_queue = "nat option list"

definition timer_queue_new :: "nat \<Rightarrow> (timer_queue, timer_queue_error) result" where
  "timer_queue_new capacity =
     (if capacity < TIMER_QUEUE_REQUIRED_CAPACITY
      then Err \<lparr>tqe_capacity = capacity, tqe_required = TIMER_QUEUE_REQUIRED_CAPACITY\<rparr>
      else Ok (replicate TIMER_QUEUE_REQUIRED_CAPACITY None))"

definition schedule_at :: "timer_queue \<Rightarrow> timer_id \<Rightarrow> nat \<Rightarrow> timer_queue option" where
  "schedule_at deadlines timer deadline = wr deadlines (timer_index timer) (Some deadline)"

definition schedule_at_if_earlier :: "timer_queue \<Rightarrow> timer_id \<Rightarrow> nat \<Rightarrow> timer_queue option" where
  "schedule_at_if_earlier deadlines timer deadline = do {
     slot \<leftarrow> rd deadlines (timer_index timer);
     if (case slot of None \<Rightarrow> True | Some current \<Rightarrow> deadline < current)
     then wr deadlines (timer_index timer) (Some deadline) else Some deadlines
   }"

definition schedule_after :: "nat \<Rightarrow> timer_queue \<Rightarrow> timer_id \<Rightarrow> nat \<Rightarrow> timer_queue option" where
  "schedule_after now deadlines timer delay = schedule_at deadlines timer (now + delay)"

definition schedule_after_if_earlier :: "nat \<Rightarrow> timer_queue \<Rightarrow> timer_id \<Rightarrow> nat \<Rightarrow> timer_queue option" where
  "schedule_after_if_earlier now deadlines timer delay = schedule_at_if_earlier deadlines timer (now + delay)"

definition timer_clear :: "timer_queue \<Rightarrow> timer_id \<Rightarrow> timer_queue option" where
  "timer_clear deadlines timer = wr deadlines (timer_index timer) None"

definition next_timeout :: "nat \<Rightarrow> timer_queue \<Rightarrow> nat option" where
  "next_timeout now deadlines =
     (case List.map_filter id deadlines of
        [] \<Rightarrow> None
      | d # ds \<Rightarrow> Some (fold min ds d - now))"

definition expired :: "nat \<Rightarrow> nat option \<Rightarrow> bool" where
  "expired now slot = (case slot of None \<Rightarrow> False | Some deadline \<Rightarrow> deadline \<le> now)"

fun pop_expired_from :: "nat \<Rightarrow> timer_id list \<Rightarrow> timer_queue \<Rightarrow> timer_id list \<Rightarrow> (timer_queue \<times> timer_id list) option" where
  "pop_expired_from now [] deadlines out = Some (deadlines, out)"
| "pop_expired_from now (timer # timers) deadlines out = do {
     slot \<leftarrow> rd deadlines (timer_index timer);
     if expired now slot then do {
       deadlines \<leftarrow> wr deadlines (timer_index timer) None;
       pop_expired_from now timers deadlines (out @ [timer])
     }
     else pop_expired_from now timers deadlines out
   }"

definition pop_expired :: "nat \<Rightarrow> timer_queue \<Rightarrow> timer_id list \<Rightarrow> (timer_queue \<times> timer_id list) option" where
  "pop_expired now deadlines out = pop_expired_from now timer_all deadlines []"

fun pop_next_expired_from :: "nat \<Rightarrow> timer_id list \<Rightarrow> timer_queue \<Rightarrow> (timer_queue \<times> timer_id option) option" where
  "pop_next_expired_from now [] deadlines = Some (deadlines, None)"
| "pop_next_expired_from now (timer # timers) deadlines = do {
     slot \<leftarrow> rd deadlines (timer_index timer);
     if expired now slot then do {
       deadlines \<leftarrow> wr deadlines (timer_index timer) None;
       Some (deadlines, Some timer)
     }
     else pop_next_expired_from now timers deadlines
   }"

definition pop_next_expired :: "nat \<Rightarrow> timer_queue \<Rightarrow> (timer_queue \<times> timer_id option) option" where
  "pop_next_expired now deadlines = pop_next_expired_from now timer_all deadlines"

section \<open>The queue as a map from timers to deadlines\<close>

definition deadline_of :: "timer_queue \<Rightarrow> timer_id \<Rightarrow> nat option" where
  "deadline_of q timer = q ! timer_index timer"

lemma timer_index_less: "timer_index timer < 5"
  by (cases timer) simp_all

lemma timer_index_inj: "timer_index a = timer_index b \<longleftrightarrow> a = b"
  by (cases a; cases b) simp_all

lemma timer_all_set: "timer \<in> set timer_all"
  by (cases timer) (simp_all add: timer_all_def)

lemma timer_all_distinct: "distinct timer_all"
  by (simp add: timer_all_def)

lemma timer_rd: "length q = 5 \<Longrightarrow> rd q (timer_index timer) = Some (deadline_of q timer)"
  using timer_index_less [of timer] by (simp add: rd_def deadline_of_def)

lemma timer_wr: "length q = 5 \<Longrightarrow> wr q (timer_index timer) d = Some (q[timer_index timer := d])"
  using timer_index_less [of timer] by (simp add: wr_def)

lemma deadline_of_update:
  "length q = 5 \<Longrightarrow> deadline_of (q[timer_index timer := d]) other = (if other = timer then d else deadline_of q other)"
  using timer_index_less [of timer] by (auto simp: deadline_of_def timer_index_inj nth_list_update)

lemma timer_univ: "(UNIV :: timer_id set) = set timer_all"
  using timer_all_set by auto

section \<open>Popping\<close>

lemma pop_expired_from_exact:
  assumes "length q = 5" "distinct timers"
  shows "\<exists>q'. pop_expired_from now timers q out = Some (q', out @ filter (\<lambda>t. expired now (deadline_of q t)) timers) \<and>
    length q' = 5 \<and>
    (\<forall>t. deadline_of q' t = (if t \<in> set timers \<and> expired now (deadline_of q t) then None else deadline_of q t))"
  using assms
proof (induction timers arbitrary: q out)
  case Nil
  then show ?case by simp
next
  case (Cons t ts)
  show ?case
  proof (cases "expired now (deadline_of q t)")
    case True
    define q1 where "q1 = q[timer_index t := None]"
    have q1: "length q1 = 5" "\<And>u. deadline_of q1 u = (if u = t then None else deadline_of q u)"
      using Cons.prems(1) by (simp_all add: q1_def deadline_of_update)
    obtain q' where q': "pop_expired_from now ts q1 (out @ [t]) =
        Some (q', (out @ [t]) @ filter (\<lambda>u. expired now (deadline_of q1 u)) ts)" "length q' = 5"
      "\<forall>u. deadline_of q' u = (if u \<in> set ts \<and> expired now (deadline_of q1 u) then None else deadline_of q1 u)"
      using Cons.IH [OF q1(1), of "out @ [t]"] Cons.prems(2) by auto
    have "filter (\<lambda>u. expired now (deadline_of q1 u)) ts = filter (\<lambda>u. expired now (deadline_of q u)) ts"
      using Cons.prems(2) q1(2) by (intro filter_cong) auto
    then show ?thesis
      using q' True Cons.prems q1(2) by (auto simp: timer_rd timer_wr simp flip: q1_def)
  next
    case False
    then show ?thesis using Cons.IH [OF Cons.prems(1), of out] Cons.prems by (auto simp: timer_rd)
  qed
qed

lemma pop_next_expired_from_exact:
  assumes "length q = 5"
  shows "pop_next_expired_from now timers q =
    (case filter (\<lambda>t. expired now (deadline_of q t)) timers of
       [] \<Rightarrow> Some (q, None)
     | t # _ \<Rightarrow> Some (q[timer_index t := None], Some t))"
  using assms by (induction timers) (simp_all add: timer_rd timer_wr)

section \<open>Timeouts\<close>

lemma fold_min_least: "fold min ds (d::nat) \<le> x \<longleftrightarrow> (\<exists>y\<in>set (d # ds). y \<le> x)"
proof (induction ds arbitrary: d)
  case (Cons a ds)
  then show ?case using Cons.IH [of "min a d"] by (simp add: min_le_iff_disj) blast
qed simp

lemma set_map_filter_id: "set (List.map_filter id xs) = {d. Some d \<in> set xs}"
  by (induction xs) (auto simp: List.map_filter_simps split: option.splits)

lemma set_timer_queue:
  assumes "length q = 5"
  shows "set q = range (deadline_of q)"
proof -
  obtain a b c d e where q: "q = [a, b, c, d, e]" using assms by (auto simp: numeral_eq_Suc length_Suc_conv)
  have "set q = deadline_of q ` set timer_all"
    unfolding q by (simp add: timer_all_def deadline_of_def)
  then show ?thesis by (simp add: timer_univ)
qed

lemma next_timeout_zero:
  assumes "length q = 5"
  shows "next_timeout now q = Some 0 \<longleftrightarrow> (\<exists>t. expired now (deadline_of q t))"
proof -
  have "(\<exists>t. expired now (deadline_of q t)) \<longleftrightarrow> (\<exists>d\<in>set (List.map_filter id q). d \<le> now)"
    unfolding set_map_filter_id set_timer_queue [OF assms] expired_def
    by (auto split: option.splits) (metis option.distinct(1) option.inject rangeI)+
  also have "\<dots> \<longleftrightarrow> next_timeout now q = Some 0"
    unfolding next_timeout_def by (cases "List.map_filter id q") (simp_all add: fold_min_least)
  finally show ?thesis by blast
qed

text \<open>
  Every timer fires exactly when it is due and only once: \<open>pop_expired\<close> returns, in
  the fixed order, exactly the timers whose deadline has passed and clears exactly those;
  \<open>pop_next_expired\<close> returns and clears the first of them.
\<close>

theorem timers_fire_when_due:
  "case pop_expired now [d0, d1, d2, d3, d4] out of
     None \<Rightarrow> False
   | Some (q, fired) \<Rightarrow>
       fired = filter (\<lambda>t. expired now (deadline_of [d0, d1, d2, d3, d4] t)) timer_all \<and>
       q = map (\<lambda>d. if expired now d then None else d) [d0, d1, d2, d3, d4] \<and>
       pop_next_expired now [d0, d1, d2, d3, d4] =
         (case fired of
            [] \<Rightarrow> Some ([d0, d1, d2, d3, d4], None)
          | t # _ \<Rightarrow> Some ([d0, d1, d2, d3, d4][timer_index t := None], Some t))"
  by (simp add: pop_expired_def pop_next_expired_def pop_next_expired_from_exact timer_all_def rd_def wr_def deadline_of_def)

text \<open>
  The event loop neither sleeps through a deadline nor spins: the timeout it waits
  for is zero exactly when some timer is due, and once the due timers are popped it is not
  zero any more.
\<close>

theorem next_timeout_exact:
  "(next_timeout now [d0, d1, d2, d3, d4] = Some 0) =
     (pop_next_expired now [d0, d1, d2, d3, d4] \<noteq> Some ([d0, d1, d2, d3, d4], None)) \<and>
   map_option (next_timeout now \<circ> fst) (pop_expired now [d0, d1, d2, d3, d4] out) \<noteq> Some (Some 0)"
proof -
  let ?q = "[d0, d1, d2, d3, d4]"
  have len: "length ?q = 5" by simp
  have "(\<exists>t. expired now (deadline_of ?q t)) \<longleftrightarrow> filter (\<lambda>t. expired now (deadline_of ?q t)) timer_all \<noteq> []"
    using timer_univ by (auto simp: filter_empty_conv)
  then have "next_timeout now ?q = Some 0 \<longleftrightarrow> pop_next_expired now ?q \<noteq> Some (?q, None)"
    using next_timeout_zero [OF len, of now] pop_next_expired_from_exact [OF len, of now timer_all]
    by (auto simp: pop_next_expired_def split: list.splits)
  moreover obtain q' where q': "pop_expired now ?q out =
      Some (q', filter (\<lambda>t. expired now (deadline_of ?q t)) timer_all)" "length q' = 5"
      "\<forall>t. deadline_of q' t = (if t \<in> set timer_all \<and> expired now (deadline_of ?q t) then None else deadline_of ?q t)"
    using pop_expired_from_exact [OF len timer_all_distinct, of now "[]"] by (auto simp: pop_expired_def)
  moreover have "\<not> expired now (deadline_of q' t)" for t
    using q'(3) timer_all_set [of t] by (simp add: expired_def)
  then have "next_timeout now q' \<noteq> Some 0" using next_timeout_zero [OF q'(2), of now] by blast
  ultimately show ?thesis by simp
qed

end
