(* ===== verification/Readiness.thy ===== *)
theory Readiness
  imports Refinement
begin

text \<open>
  The readiness latch of one IO slot, \<open>src/src/libs/agentdp-network/src/readiness.rs\<close>: reactor
  events set bits of a byte, only a \<open>WouldBlock\<close> in the same direction clears them, and a
  direction that becomes watched is probed once without waiting for an event.
\<close>

section \<open>Operations\<close>

datatype reactor_interest = Disabled | Readable | Writable | ReadWrite

definition interest_reads :: "reactor_interest \<Rightarrow> bool" where
  "interest_reads interest = (interest = Readable \<or> interest = ReadWrite)"

definition interest_writes :: "reactor_interest \<Rightarrow> bool" where
  "interest_writes interest = (interest = Writable \<or> interest = ReadWrite)"

type_synonym io_readiness = u8

definition READ_BIT :: u8 where "READ_BIT = push_bit 0 1"
definition WRITE_BIT :: u8 where "WRITE_BIT = push_bit 1 1"

definition ior_readable :: "io_readiness \<Rightarrow> bool" where
  "ior_readable r = ((r AND READ_BIT) \<noteq> 0)"

definition ior_writable :: "io_readiness \<Rightarrow> bool" where
  "ior_writable r = ((r AND WRITE_BIT) \<noteq> 0)"

definition ior_mark :: "bool \<Rightarrow> bool \<Rightarrow> io_readiness \<Rightarrow> io_readiness" where
  "ior_mark rd_ready wr_ready r =
     (let r = (if rd_ready then r OR READ_BIT else r)
      in if wr_ready then r OR WRITE_BIT else r)"

definition ior_clear_read :: "io_readiness \<Rightarrow> io_readiness" where
  "ior_clear_read r = r AND NOT READ_BIT"

definition ior_clear_write :: "io_readiness \<Rightarrow> io_readiness" where
  "ior_clear_write r = r AND NOT WRITE_BIT"

record io_slot =
  io_readiness :: io_readiness
  io_interest :: reactor_interest
  io_read_probe :: bool
  io_write_probe :: bool

definition io_new :: "reactor_interest \<Rightarrow> io_slot" where
  "io_new interest = \<lparr>io_readiness = 0, io_interest = interest, io_read_probe = False, io_write_probe = False\<rparr>"

definition io_registered :: "reactor_interest \<Rightarrow> io_slot" where
  "io_registered interest =
     \<lparr>io_readiness = 0, io_interest = interest, io_read_probe = False, io_write_probe = interest_writes interest\<rparr>"

definition io_registered_with_read_probe :: "reactor_interest \<Rightarrow> io_slot" where
  "io_registered_with_read_probe interest =
     \<lparr>io_readiness = 0, io_interest = interest, io_read_probe = interest_reads interest,
      io_write_probe = interest_writes interest\<rparr>"

definition io_watches_write :: "io_slot \<Rightarrow> bool" where
  "io_watches_write s = interest_writes (io_interest s)"

definition io_watches_read :: "io_slot \<Rightarrow> bool" where
  "io_watches_read s = interest_reads (io_interest s)"

definition io_can_read :: "io_slot \<Rightarrow> bool" where
  "io_can_read s = (interest_reads (io_interest s) \<and> (ior_readable (io_readiness s) \<or> io_read_probe s))"

definition io_can_write :: "io_slot \<Rightarrow> bool" where
  "io_can_write s = (interest_writes (io_interest s) \<and> (ior_writable (io_readiness s) \<or> io_write_probe s))"

definition io_mark_reactor_ready :: "bool \<Rightarrow> bool \<Rightarrow> io_slot \<Rightarrow> io_slot" where
  "io_mark_reactor_ready rd_ready wr_ready s = s\<lparr>io_readiness := ior_mark rd_ready wr_ready (io_readiness s)\<rparr>"

definition io_clear_read_after_would_block :: "io_slot \<Rightarrow> io_slot" where
  "io_clear_read_after_would_block s =
     s\<lparr>io_readiness := ior_clear_read (io_readiness s), io_read_probe := False\<rparr>"

definition io_clear_write_after_would_block :: "io_slot \<Rightarrow> io_slot" where
  "io_clear_write_after_would_block s =
     s\<lparr>io_readiness := ior_clear_write (io_readiness s), io_write_probe := False\<rparr>"

definition io_clear_for_drop_or_reset :: "io_slot \<Rightarrow> io_slot" where
  "io_clear_for_drop_or_reset s =
     s\<lparr>io_readiness := 0, io_interest := Disabled, io_read_probe := False, io_write_probe := False\<rparr>"

definition io_set_registered_interest :: "reactor_interest \<Rightarrow> io_slot \<Rightarrow> io_slot" where
  "io_set_registered_interest interest s =
     (let previous_readable = interest_reads (io_interest s);
          next_readable = interest_reads interest;
          previous_writable = interest_writes (io_interest s);
          next_writable = interest_writes interest;
          s = s\<lparr>io_interest := interest\<rparr>;
          s = (if \<not> next_readable then s\<lparr>io_read_probe := False\<rparr>
               else if \<not> previous_readable then s\<lparr>io_read_probe := True\<rparr> else s)
      in if \<not> next_writable then s\<lparr>io_write_probe := False\<rparr>
         else if \<not> previous_writable then s\<lparr>io_write_probe := True\<rparr> else s)"

section \<open>Two independent latches\<close>

datatype io_op =
    IoMark bool bool
  | IoReadBlocked
  | IoWriteBlocked
  | IoReset
  | IoInterest reactor_interest

text \<open>The slot answers whether it may be read and whether it may be written.\<close>

fun io_apply :: "io_slot \<Rightarrow> io_op \<Rightarrow> io_slot" where
  "io_apply s (IoMark r w) = io_mark_reactor_ready r w s"
| "io_apply s IoReadBlocked = io_clear_read_after_would_block s"
| "io_apply s IoWriteBlocked = io_clear_write_after_would_block s"
| "io_apply s IoReset = io_clear_for_drop_or_reset s"
| "io_apply s (IoInterest i) = io_set_registered_interest i s"

definition io_step :: "io_slot \<Rightarrow> io_op \<Rightarrow> io_slot \<times> bool \<times> bool" where
  "io_step s op = (let s = io_apply s op in (s, io_can_read s, io_can_write s))"

text \<open>
  The abstract machine: each direction is a latch on its own, with whether it is watched,
  whether an event is pending and whether it is being probed.
\<close>

record latch =
  la_watched :: bool
  la_ready :: bool
  la_probe :: bool

definition la_usable :: "latch \<Rightarrow> bool" where
  "la_usable l = (la_watched l \<and> (la_ready l \<or> la_probe l))"

definition la_watch :: "bool \<Rightarrow> latch \<Rightarrow> latch" where
  "la_watch w l = \<lparr>la_watched = w, la_ready = la_ready l, la_probe = (w \<and> (la_probe l \<or> \<not> la_watched l))\<rparr>"

definition la_event :: "bool \<Rightarrow> latch \<Rightarrow> latch" where
  "la_event e l = l\<lparr>la_ready := (la_ready l \<or> e)\<rparr>"

definition la_blocked :: "latch \<Rightarrow> latch" where
  "la_blocked l = l\<lparr>la_ready := False, la_probe := False\<rparr>"

definition la_off :: latch where
  "la_off = \<lparr>la_watched = False, la_ready = False, la_probe = False\<rparr>"

fun la_apply :: "latch \<times> latch \<Rightarrow> io_op \<Rightarrow> latch \<times> latch" where
  "la_apply (r, w) (IoMark er ew) = (la_event er r, la_event ew w)"
| "la_apply (r, w) IoReadBlocked = (la_blocked r, w)"
| "la_apply (r, w) IoWriteBlocked = (r, la_blocked w)"
| "la_apply (r, w) IoReset = (la_off, la_off)"
| "la_apply (r, w) (IoInterest i) = (la_watch (interest_reads i) r, la_watch (interest_writes i) w)"

definition la_step :: "latch \<times> latch \<Rightarrow> io_op \<Rightarrow> (latch \<times> latch) \<times> bool \<times> bool" where
  "la_step rw op = (let (r, w) = la_apply rw op in ((r, w), la_usable r, la_usable w))"

definition io_abs :: "io_slot \<Rightarrow> latch \<times> latch" where
  "io_abs s =
     (\<lparr>la_watched = io_watches_read s, la_ready = ior_readable (io_readiness s), la_probe = io_read_probe s\<rparr>,
      \<lparr>la_watched = io_watches_write s, la_ready = ior_writable (io_readiness s), la_probe = io_write_probe s\<rparr>)"

lemma read_bit: "ior_readable r \<longleftrightarrow> bit r 0"
  by (simp add: ior_readable_def READ_BIT_def bit_eq_iff [of _ "0 :: u8"] bit_simps)

lemma write_bit: "ior_writable r \<longleftrightarrow> bit r 1"
  by (simp add: ior_writable_def WRITE_BIT_def bit_eq_iff [of _ "0 :: u8"] bit_simps)

lemma io_apply_refines: "la_apply (io_abs s) op = io_abs (io_apply s op)"
proof (cases op)
  case (IoMark r w)
  then show ?thesis
    by (simp add: io_abs_def la_event_def io_mark_reactor_ready_def ior_mark_def read_bit write_bit Let_def
        io_watches_read_def io_watches_write_def bit_simps READ_BIT_def WRITE_BIT_def)
next
  case IoReadBlocked
  then show ?thesis
    by (simp add: io_abs_def la_blocked_def io_clear_read_after_would_block_def ior_clear_read_def read_bit write_bit
        io_watches_read_def io_watches_write_def bit_simps READ_BIT_def)
next
  case IoWriteBlocked
  then show ?thesis
    by (simp add: io_abs_def la_blocked_def io_clear_write_after_would_block_def ior_clear_write_def read_bit write_bit
        io_watches_read_def io_watches_write_def bit_simps WRITE_BIT_def)
next
  case IoReset
  then show ?thesis
    by (simp add: io_abs_def la_off_def io_clear_for_drop_or_reset_def read_bit write_bit
        io_watches_read_def io_watches_write_def interest_reads_def interest_writes_def)
next
  case (IoInterest i)
  then show ?thesis
    by (auto simp: io_abs_def la_watch_def io_set_registered_interest_def Let_def
        io_watches_read_def io_watches_write_def)
qed

lemma io_can_abs: "io_can_read s = la_usable (fst (io_abs s))" "io_can_write s = la_usable (snd (io_abs s))"
  by (simp_all add: io_can_read_def io_can_write_def la_usable_def io_abs_def io_watches_read_def io_watches_write_def)

interpretation io: refinement io_abs "\<lambda>_. True" io_step la_step
  by unfold_locales
    (simp_all add: la_step_def io_step_def io_apply_refines Let_def io_can_abs split_beta)

text \<open>
  Claim C22.  The byte of readiness bits with its two probes behaves as two independent latches,
  one per direction: over every sequence of reactor events, \<open>WouldBlock\<close> results, resets and
  changes of interest, the slot says it may read (or write) exactly when that direction is
  watched and has an event not yet answered by \<open>WouldBlock\<close> or a probe that is due.
\<close>

theorem io_slot_refines_latches:
  "run_steps la_step (io_abs s) ops = map_prod io_abs id (run_steps io_step s ops)"
  by (rule io.run_simulates) simp

section \<open>No readiness is lost\<close>

definition keeps_read :: "io_op \<Rightarrow> bool" where
  "keeps_read op = (op \<noteq> IoReadBlocked \<and> op \<noteq> IoReset)"

lemma la_apply_keeps:
  "keeps_read op \<Longrightarrow> la_ready (fst rw) \<Longrightarrow> la_ready (fst (la_apply rw op))"
  by (cases rw; cases op) (simp_all add: keeps_read_def la_event_def la_watch_def)

lemma io_keeps_readable:
  "list_all keeps_read ops \<Longrightarrow> ior_readable (io_readiness s) \<Longrightarrow>
    ior_readable (io_readiness (foldl io_apply s ops))"
proof (induction ops arbitrary: s)
  case (Cons op ops)
  have "la_ready (fst (la_apply (io_abs s) op))"
    using Cons.prems by (intro la_apply_keeps) (simp_all add: io_abs_def)
  then have "ior_readable (io_readiness (io_apply s op))"
    unfolding io_apply_refines by (simp add: io_abs_def)
  then show ?case using Cons by simp
qed simp

text \<open>
  A readable event is not lost: after it, however interests change and whatever
  happens in the write direction, the slot may be read whenever reading is watched, until a
  read reports \<open>WouldBlock\<close> or the slot is reset.
\<close>

theorem io_readable_latched:
  assumes "list_all keeps_read ops"
    and "io_watches_read (foldl io_apply s (IoMark True w # ops))"
  shows "io_can_read (foldl io_apply s (IoMark True w # ops))"
proof -
  have "ior_readable (io_readiness (io_apply s (IoMark True w)))"
    by (simp add: read_bit io_mark_reactor_ready_def ior_mark_def bit_simps READ_BIT_def WRITE_BIT_def Let_def)
  then have "ior_readable (io_readiness (foldl io_apply s (IoMark True w # ops)))"
    using io_keeps_readable [OF assms(1)] by simp
  then show ?thesis using assms(2) by (simp add: io_can_read_def io_watches_read_def)
qed

theorem io_readable_latched_witness:
  "io_can_read (foldl io_apply (io_new Disabled) (IoMark True False # [IoWriteBlocked, IoInterest Readable]))"
  by (rule io_readable_latched)
    (simp_all add: keeps_read_def io_watches_read_def io_set_registered_interest_def Let_def
      interest_reads_def interest_writes_def)

end
