(* ===== verification/RustStr.thy ===== *)
theory RustStr
  imports Prelude
begin

text \<open>
  What the sources use of Rust's \<open>str\<close> and of ASCII byte slices, on the bytes themselves.  A
  \<open>&str\<close> is a byte list that is valid UTF-8.  Separators that are ASCII characters are found
  byte by byte, which is exact because no byte of a multi-byte character is ASCII; Unicode
  white space is recognised by the byte sequences of its characters, whose first bytes never
  occur inside another character.
\<close>

section \<open>ASCII\<close>

definition ascii :: "char \<Rightarrow> u8" where
  "ascii c = of_char c"

definition to_ascii_lowercase_byte :: "u8 \<Rightarrow> u8" where
  "to_ascii_lowercase_byte b = (if 65 \<le> b \<and> b \<le> 90 then b + 32 else b)"

definition to_ascii_lowercase :: "bytes \<Rightarrow> bytes" where
  "to_ascii_lowercase s = map to_ascii_lowercase_byte s"

definition eq_ignore_ascii_case :: "bytes \<Rightarrow> bytes \<Rightarrow> bool" where
  "eq_ignore_ascii_case a b \<longleftrightarrow> to_ascii_lowercase a = to_ascii_lowercase b"

definition is_ascii_whitespace :: "u8 \<Rightarrow> bool" where
  "is_ascii_whitespace b \<longleftrightarrow> b \<in> set [32, 9, 10, 12, 13]"

section \<open>UTF-8\<close>

definition cont_byte :: "u8 \<Rightarrow> bool" where
  "cont_byte b \<longleftrightarrow> 0x80 \<le> b \<and> b \<le> 0xBF"

text \<open>The length of the character at the front, \<open>None\<close> when the bytes are not valid there.\<close>

definition utf8_char :: "bytes \<Rightarrow> nat option" where
  "utf8_char s =
     (case s of
        [] \<Rightarrow> None
      | a # rest \<Rightarrow>
         if a < 0x80 then Some 1
         else if 0xC2 \<le> a \<and> a \<le> 0xDF then
           (case rest of b # _ \<Rightarrow> if cont_byte b then Some 2 else None | [] \<Rightarrow> None)
         else if 0xE0 \<le> a \<and> a \<le> 0xEF then
           (case rest of
              b # c # _ \<Rightarrow>
                if cont_byte b \<and> cont_byte c \<and> (a = 0xE0 \<longrightarrow> 0xA0 \<le> b) \<and> (a = 0xED \<longrightarrow> b \<le> 0x9F)
                then Some 3 else None
            | _ \<Rightarrow> None)
         else if 0xF0 \<le> a \<and> a \<le> 0xF4 then
           (case rest of
              b # c # d # _ \<Rightarrow>
                if cont_byte b \<and> cont_byte c \<and> cont_byte d \<and> (a = 0xF0 \<longrightarrow> 0x90 \<le> b) \<and> (a = 0xF4 \<longrightarrow> b \<le> 0x8F)
                then Some 4 else None
            | _ \<Rightarrow> None)
         else None)"

function utf8_valid :: "bytes \<Rightarrow> bool" where
  "utf8_valid s =
     (if s = [] then True
      else case utf8_char s of
        None \<Rightarrow> False
      | Some n \<Rightarrow> utf8_valid (drop n s))"
  by pat_completeness auto
termination
proof (relation "measure length")
  fix s :: bytes and n
  assume "s \<noteq> []" "utf8_char s = Some n"
  then have "0 < n" by (auto simp: utf8_char_def split: list.splits if_splits)
  with \<open>s \<noteq> []\<close> show "(drop n s, s) \<in> measure length" by simp
qed simp

declare utf8_valid.simps [simp del]

definition from_utf8 :: "bytes \<Rightarrow> bytes option" where
  "from_utf8 s = (if utf8_valid s then Some s else None)"

section \<open>White space\<close>

text \<open>The characters with the Unicode property \<open>White_Space\<close>, as bytes.\<close>

definition white_space_chars :: "bytes list" where
  "white_space_chars =
     map (\<lambda>b. [b]) [9, 10, 11, 12, 13, 32] @ [[0xC2, 0x85], [0xC2, 0xA0], [0xE1, 0x9A, 0x80]] @
     map (\<lambda>b. [0xE2, 0x80, b])
       [0x80, 0x81, 0x82, 0x83, 0x84, 0x85, 0x86, 0x87, 0x88, 0x89, 0x8A, 0xA8, 0xA9, 0xAF] @
     [[0xE2, 0x81, 0x9F], [0xE3, 0x80, 0x80]]"

definition starts_with :: "'a list \<Rightarrow> 'a list \<Rightarrow> bool" where
  "starts_with s prefix \<longleftrightarrow> take (length prefix) s = prefix"

definition ends_with :: "'a list \<Rightarrow> 'a list \<Rightarrow> bool" where
  "ends_with s suffix \<longleftrightarrow> length suffix \<le> length s \<and> drop (length s - length suffix) s = suffix"

definition strip_prefix :: "'a list \<Rightarrow> 'a list \<Rightarrow> 'a list option" where
  "strip_prefix s prefix = (if starts_with s prefix then Some (drop (length prefix) s) else None)"

definition strip_suffix :: "'a list \<Rightarrow> 'a list \<Rightarrow> 'a list option" where
  "strip_suffix s suffix = (if ends_with s suffix then Some (take (length s - length suffix) s) else None)"

definition white_space_prefix :: "bytes \<Rightarrow> nat" where
  "white_space_prefix s = (case find (starts_with s) white_space_chars of None \<Rightarrow> 0 | Some w \<Rightarrow> length w)"

definition white_space_suffix :: "bytes \<Rightarrow> nat" where
  "white_space_suffix s = (case find (ends_with s) white_space_chars of None \<Rightarrow> 0 | Some w \<Rightarrow> length w)"

lemma white_space_nonempty: "w \<in> set white_space_chars \<Longrightarrow> w \<noteq> []"
  by (auto simp: white_space_chars_def)

lemma find_mem: "find P xs = Some x \<Longrightarrow> x \<in> set xs \<and> P x"
  by (induction xs) (auto split: if_splits)

lemma white_space_prefix_le: "white_space_prefix s \<le> length s"
  by (auto simp: white_space_prefix_def starts_with_def split: option.splits
      dest!: find_mem arg_cong [where f = length and x = "take _ s"])

lemma white_space_suffix_le: "white_space_suffix s \<le> length s"
  by (auto simp: white_space_suffix_def ends_with_def split: option.splits dest!: find_mem)

function trim_start :: "bytes \<Rightarrow> bytes" where
  "trim_start s = (let n = white_space_prefix s in if n = 0 then s else trim_start (drop n s))"
  by pat_completeness auto
termination
proof (relation "measure length")
  fix s :: bytes and n
  assume n: "n = white_space_prefix s" "n \<noteq> 0"
  then show "(drop n s, s) \<in> measure length" using white_space_prefix_le [of s] by simp
qed simp

function trim_end :: "bytes \<Rightarrow> bytes" where
  "trim_end s = (let n = white_space_suffix s in if n = 0 then s else trim_end (take (length s - n) s))"
  by pat_completeness auto
termination
proof (relation "measure length")
  fix s :: bytes and n
  assume n: "n = white_space_suffix s" "n \<noteq> 0"
  then show "(take (length s - n) s, s) \<in> measure length" using white_space_suffix_le [of s] by simp
qed simp

declare trim_start.simps [simp del] trim_end.simps [simp del]

definition trim :: "bytes \<Rightarrow> bytes" where
  "trim s = trim_end (trim_start s)"

text \<open>\<open>split_whitespace\<close> collects the non-empty runs between white space.\<close>

function split_whitespace_from :: "bytes \<Rightarrow> bytes \<Rightarrow> bytes list" where
  "split_whitespace_from word s =
     (if s = [] then if word = [] then [] else [word]
      else let n = white_space_prefix s in
        if n = 0 then split_whitespace_from (word @ [hd s]) (tl s)
        else if word = [] then split_whitespace_from [] (drop n s)
        else word # split_whitespace_from [] (drop n s))"
  by pat_completeness auto
termination
  by (relation "measure (\<lambda>(_, s). length s)") auto

declare split_whitespace_from.simps [simp del]

definition split_whitespace :: "bytes \<Rightarrow> bytes list" where
  "split_whitespace s = split_whitespace_from [] s"

section \<open>Splitting\<close>

definition split_once :: "u8 \<Rightarrow> bytes \<Rightarrow> (bytes \<times> bytes) option" where
  "split_once c s =
     (case position (\<lambda>b. b = c) s of None \<Rightarrow> None | Some i \<Rightarrow> Some (take i s, drop (Suc i) s))"

definition rsplit_once :: "u8 \<Rightarrow> bytes \<Rightarrow> (bytes \<times> bytes) option" where
  "rsplit_once c s =
     (case position (\<lambda>b. b = c) (rev s) of
        None \<Rightarrow> None
      | Some i \<Rightarrow> Some (take (length s - Suc i) s, drop (length s - i) s))"

text \<open>\<open>split(p)\<close> on single bytes; it always yields at least one piece.\<close>

fun split_by :: "('a \<Rightarrow> bool) \<Rightarrow> 'a list \<Rightarrow> 'a list list" where
  "split_by p [] = [[]]"
| "split_by p (x # xs) =
     (if p x then [] # split_by p xs
      else case split_by p xs of
        [] \<Rightarrow> [[x]]
      | piece # pieces \<Rightarrow> (x # piece) # pieces)"

lemma split_by_ne [simp]: "split_by p xs \<noteq> []"
  by (cases xs) (auto split: list.splits)

text \<open>\<open>str::lines\<close>: each line without its line feed and a carriage return before it.\<close>

function lines_of :: "bytes \<Rightarrow> bytes list" where
  "lines_of s =
     (if s = [] then []
      else case position (\<lambda>b. b = 10) s of
        None \<Rightarrow> [s]
      | Some i \<Rightarrow>
         (let line = take i s in
          (case strip_suffix line [13] of None \<Rightarrow> line | Some l \<Rightarrow> l) # lines_of (drop (Suc i) s)))"
  by pat_completeness auto
termination
  by (relation "measure length") auto

declare lines_of.simps [simp del]

text \<open>\<open>windows(n).position(|w| w == needle)\<close>, and \<open>windows(n).any(..)\<close>; \<open>windows(0)\<close> panics.\<close>

fun find_window :: "bytes \<Rightarrow> bytes \<Rightarrow> nat option" where
  "find_window needle [] = None"
| "find_window needle (b # s) =
     (if starts_with (b # s) needle then Some 0 else map_option Suc (find_window needle s))"

definition trim_end_dots :: "bytes \<Rightarrow> bytes" where
  "trim_end_dots s = rev (dropWhile (\<lambda>b. b = 46) (rev s))"

section \<open>Numbers\<close>

definition digit_value :: "u8 \<Rightarrow> nat option" where
  "digit_value b =
     (if 48 \<le> b \<and> b \<le> 57 then Some (unat b - 48)
      else if 97 \<le> b \<and> b \<le> 122 then Some (unat b - 87)
      else if 65 \<le> b \<and> b \<le> 90 then Some (unat b - 55)
      else None)"

fun digits_value :: "nat \<Rightarrow> nat \<Rightarrow> nat \<Rightarrow> bytes \<Rightarrow> nat option" where
  "digits_value radix limit acc [] = Some acc"
| "digits_value radix limit acc (b # s) =
     (case digit_value b of
        None \<Rightarrow> None
      | Some d \<Rightarrow>
         if d < radix \<and> acc * radix + d < limit then digits_value radix limit (acc * radix + d) s else None)"

text \<open>
  \<open>from_str_radix\<close> and \<open>parse\<close> for an unsigned integer below \<open>limit\<close>: an optional plus sign,
  then digits, with overflow an error.
\<close>

definition parse_radix :: "nat \<Rightarrow> nat \<Rightarrow> bytes \<Rightarrow> nat option" where
  "parse_radix radix limit s =
     (case s of
        [] \<Rightarrow> None
      | b # rest \<Rightarrow>
         if b = 43 then if rest = [] then None else digits_value radix limit 0 rest
         else digits_value radix limit 0 s)"

abbreviation (input) USIZE_LIMIT :: nat where "USIZE_LIMIT \<equiv> 2 ^ 64"

lemma digits_value_limit: "digits_value radix limit acc s = Some n \<Longrightarrow> acc < limit \<Longrightarrow> n < limit"
  by (induction s arbitrary: acc) (auto split: option.splits if_splits)

lemma parse_radix_limit: "parse_radix radix limit s = Some n \<Longrightarrow> 0 < limit \<Longrightarrow> n < limit"
  by (auto simp: parse_radix_def simp del: digits_value.simps split: list.splits if_splits
      dest: digits_value_limit)

section \<open>Facts\<close>

lemma starts_with_length: "starts_with s p \<Longrightarrow> length p \<le> length s"
  unfolding starts_with_def by (metis length_take min.cobounded1 min_def nat_le_linear)

lemma find_window_Some:
  "find_window needle s = Some i \<Longrightarrow> i + length needle \<le> length s \<and> take (length needle) (drop i s) = needle"
proof (induction s arbitrary: i)
  case (Cons b s)
  then show ?case
    using starts_with_length [of "b # s" needle] by (auto simp: starts_with_def split: if_splits)
qed simp

text \<open>A needle is found exactly when it is a sublist.\<close>

lemma find_window_None_iff:
  assumes "needle \<noteq> []"
  shows "find_window needle s = None \<longleftrightarrow> (\<nexists>a c. s = a @ needle @ c)"
proof (induction s)
  case (Cons b s)
  have "(\<exists>a c. b # s = a @ needle @ c) \<longleftrightarrow> starts_with (b # s) needle \<or> (\<exists>a c. s = a @ needle @ c)"
  proof
    assume "\<exists>a c. b # s = a @ needle @ c"
    then obtain a c where e: "b # s = a @ needle @ c" by blast
    then show "starts_with (b # s) needle \<or> (\<exists>a c. s = a @ needle @ c)"
      by (cases a) (auto simp: starts_with_def)
  next
    assume "starts_with (b # s) needle \<or> (\<exists>a c. s = a @ needle @ c)"
    then show "\<exists>a c. b # s = a @ needle @ c"
    proof
      assume "starts_with (b # s) needle"
      then have "b # s = [] @ needle @ drop (length needle) (b # s)"
        unfolding starts_with_def by (metis append_Nil append_take_drop_id)
      then show ?thesis by blast
    next
      assume "\<exists>a c. s = a @ needle @ c"
      then obtain a c where "s = a @ needle @ c" by blast
      then have "b # s = (b # a) @ needle @ c" by simp
      then show ?thesis by blast
    qed
  qed
  then show ?case using Cons by auto
qed (use assms in auto)

lemma trim_end_dots_le: "length (trim_end_dots s) \<le> length s"
  using length_dropWhile_le [of "\<lambda>b. b = 46" "rev s"] by (simp add: trim_end_dots_def)

lemma trim_end_dots_idem: "trim_end_dots (trim_end_dots s) = trim_end_dots s"
  by (simp add: trim_end_dots_def)

lemma lowercase_byte_idem: "to_ascii_lowercase_byte (to_ascii_lowercase_byte b) = to_ascii_lowercase_byte b"
  by (auto simp: to_ascii_lowercase_byte_def word_le_nat_alt unat_word_ariths)

lemma lowercase_idem: "to_ascii_lowercase (to_ascii_lowercase s) = to_ascii_lowercase s"
  by (simp add: to_ascii_lowercase_def lowercase_byte_idem)

lemma eq_ignore_ascii_case_refl [simp]: "eq_ignore_ascii_case s s"
  by (simp add: eq_ignore_ascii_case_def)

end
