(* ===== verification/Policy.thy ===== *)
theory Policy
  imports RustStr
begin

text \<open>
  The egress policy and the runtime secrets of a network, after \<open>policy.rs\<close>: which
  destination addresses are blocked by default, which host names a policy admits, which
  secrets apply to a host, and which hosts are affected when the secrets are replaced.  A
  \<open>BTreeSet\<close> is a set: nothing here looks at its order.
\<close>

section \<open>Addresses\<close>

text \<open>The predicates of the standard library on the octets and segments of an address.\<close>

datatype ipv4 = Ipv4 u8 u8 u8 u8

datatype ipv6 = Ipv6 u16 u16 u16 u16 u16 u16 u16 u16

datatype ip_addr = V4 ipv4 | V6 ipv6

fun v4_is_loopback :: "ipv4 \<Rightarrow> bool" where
  "v4_is_loopback (Ipv4 a b c d) \<longleftrightarrow> a = 127"

fun v4_is_private :: "ipv4 \<Rightarrow> bool" where
  "v4_is_private (Ipv4 a b c d) \<longleftrightarrow>
     a = 10 \<or> a = 172 \<and> 16 \<le> b \<and> b \<le> 31 \<or> a = 192 \<and> b = 168"

fun v4_is_link_local :: "ipv4 \<Rightarrow> bool" where
  "v4_is_link_local (Ipv4 a b c d) \<longleftrightarrow> a = 169 \<and> b = 254"

fun v4_is_multicast :: "ipv4 \<Rightarrow> bool" where
  "v4_is_multicast (Ipv4 a b c d) \<longleftrightarrow> 224 \<le> a \<and> a \<le> 239"

definition v4_is_broadcast :: "ipv4 \<Rightarrow> bool" where
  "v4_is_broadcast x \<longleftrightarrow> x = Ipv4 255 255 255 255"

definition v4_is_unspecified :: "ipv4 \<Rightarrow> bool" where
  "v4_is_unspecified x \<longleftrightarrow> x = Ipv4 0 0 0 0"

fun to_ipv4_mapped :: "ipv6 \<Rightarrow> ipv4 option" where
  "to_ipv4_mapped (Ipv6 s0 s1 s2 s3 s4 s5 s6 s7) =
     (if s0 = 0 \<and> s1 = 0 \<and> s2 = 0 \<and> s3 = 0 \<and> s4 = 0 \<and> s5 = 0xFFFF
      then Some (Ipv4 (ucast (drop_bit 8 s6)) (ucast s6) (ucast (drop_bit 8 s7)) (ucast s7))
      else None)"

definition v6_is_loopback :: "ipv6 \<Rightarrow> bool" where
  "v6_is_loopback x \<longleftrightarrow> x = Ipv6 0 0 0 0 0 0 0 1"

definition v6_is_unspecified :: "ipv6 \<Rightarrow> bool" where
  "v6_is_unspecified x \<longleftrightarrow> x = Ipv6 0 0 0 0 0 0 0 0"

fun v6_is_unicast_link_local :: "ipv6 \<Rightarrow> bool" where
  "v6_is_unicast_link_local (Ipv6 s0 s1 s2 s3 s4 s5 s6 s7) \<longleftrightarrow> s0 AND 0xFFC0 = 0xFE80"

fun v6_is_unique_local :: "ipv6 \<Rightarrow> bool" where
  "v6_is_unique_local (Ipv6 s0 s1 s2 s3 s4 s5 s6 s7) \<longleftrightarrow> s0 AND 0xFE00 = 0xFC00"

fun v6_is_multicast :: "ipv6 \<Rightarrow> bool" where
  "v6_is_multicast (Ipv6 s0 s1 s2 s3 s4 s5 s6 s7) \<longleftrightarrow> s0 AND 0xFF00 = 0xFF00"

section \<open>Egress policy\<close>

definition CLOUD_METADATA_IP :: ipv4 where
  "CLOUD_METADATA_IP = Ipv4 169 254 169 254"

datatype policy_error =
    BlockedDestination ip_addr
  | HostNotAllowed ip_addr bytes
  | UnauthorizedSecretHost bytes
  | UnresolvedSecretPlaceholder

fun is_cgnat :: "ipv4 \<Rightarrow> bool" where
  "is_cgnat (Ipv4 a b c d) \<longleftrightarrow> a = 100 \<and> 64 \<le> b \<and> b \<le> 127"

definition blocked_v4 :: "ipv4 \<Rightarrow> bool" where
  "blocked_v4 x \<longleftrightarrow>
     v4_is_loopback x \<or> v4_is_private x \<or> v4_is_link_local x \<or> v4_is_multicast x \<or>
     v4_is_broadcast x \<or> v4_is_unspecified x \<or> is_cgnat x \<or> x = CLOUD_METADATA_IP"

fun blocked_destination :: "ip_addr \<Rightarrow> bool" where
  "blocked_destination (V4 x) = blocked_v4 x"
| "blocked_destination (V6 x) =
     (case to_ipv4_mapped x of
        Some mapped \<Rightarrow> blocked_v4 mapped
      | None \<Rightarrow>
         v6_is_loopback x \<or> v6_is_unicast_link_local x \<or> v6_is_unique_local x \<or>
         v6_is_multicast x \<or> v6_is_unspecified x)"

definition normalized_host :: "bytes \<Rightarrow> bytes" where
  "normalized_host host = to_ascii_lowercase (trim_end_dots host)"

datatype authority = Authority (as_str: bytes)

definition authority_new :: "bytes \<Rightarrow> authority" where
  "authority_new host = Authority (normalized_host host)"

record egress_policy =
  allowed_authorities :: "bytes set"
  allow_private_destinations :: bool

definition default_deny_private :: egress_policy where
  "default_deny_private = \<lparr> allowed_authorities = {}, allow_private_destinations = False \<rparr>"

definition allow_all :: egress_policy where
  "allow_all = \<lparr> allowed_authorities = {}, allow_private_destinations = True \<rparr>"

definition with_allowed_authority :: "bytes \<Rightarrow> egress_policy \<Rightarrow> egress_policy" where
  "with_allowed_authority authority p =
     p\<lparr> allowed_authorities := insert (normalized_host authority) (allowed_authorities p) \<rparr>"

definition allows_authority :: "egress_policy \<Rightarrow> authority \<Rightarrow> bool" where
  "allows_authority p authority \<longleftrightarrow> as_str authority \<in> allowed_authorities p"

definition restricts_authorities :: "egress_policy \<Rightarrow> bool" where
  "restricts_authorities p \<longleftrightarrow> allowed_authorities p \<noteq> {}"

definition check_destination :: "egress_policy \<Rightarrow> ip_addr \<Rightarrow> (unit, policy_error) result" where
  "check_destination p destination =
     (if \<not> allow_private_destinations p \<and> blocked_destination destination
      then Err (BlockedDestination destination) else Ok ())"

definition check_destination_authority ::
    "egress_policy \<Rightarrow> ip_addr \<Rightarrow> authority option \<Rightarrow> (unit, policy_error) result" where
  "check_destination_authority p destination authority =
     (if \<not> restricts_authorities p then Ok ()
      else if (case authority of None \<Rightarrow> False | Some a \<Rightarrow> allows_authority p a) then Ok ()
      else Err (HostNotAllowed destination
        (case authority of None \<Rightarrow> byte_string ''<unknown>'' | Some a \<Rightarrow> as_str a)))"

section \<open>Runtime secrets\<close>

type_synonym secret_scope = "authority set"

definition scope_new :: "bytes list \<Rightarrow> secret_scope" where
  "scope_new authorities = set (map authority_new authorities)"

definition scope_allows_authority :: "secret_scope \<Rightarrow> authority \<Rightarrow> bool" where
  "scope_allows_authority s authority \<longleftrightarrow> authority \<in> s"

definition scope_add_authorities_to :: "secret_scope \<Rightarrow> authority set \<Rightarrow> authority set" where
  "scope_add_authorities_to s authorities = authorities \<union> s"

record runtime_secret =
  placeholder :: bytes
  secret_value :: bytes
  scope :: secret_scope

definition secret_new :: "bytes \<Rightarrow> bytes \<Rightarrow> bytes list \<Rightarrow> runtime_secret" where
  "secret_new ph v authorities =
     \<lparr> placeholder = ph, secret_value = v, scope = scope_new authorities \<rparr>"

definition secret_allows_authority :: "runtime_secret \<Rightarrow> authority \<Rightarrow> bool" where
  "secret_allows_authority b authority = scope_allows_authority (scope b) authority"

definition secret_add_authorities_to :: "runtime_secret \<Rightarrow> authority set \<Rightarrow> authority set" where
  "secret_add_authorities_to b authorities = scope_add_authorities_to (scope b) authorities"

type_synonym runtime_secrets = "runtime_secret list"

definition secrets_new :: runtime_secrets where
  "secrets_new = []"

definition secrets_is_empty :: "runtime_secrets \<Rightarrow> bool" where
  "secrets_is_empty bindings \<longleftrightarrow> bindings = []"

definition secrets_insert :: "runtime_secret \<Rightarrow> runtime_secrets \<Rightarrow> runtime_secrets" where
  "secrets_insert b bindings = bindings @ [b]"

definition binding_for_placeholder :: "runtime_secrets \<Rightarrow> bytes \<Rightarrow> runtime_secret option" where
  "binding_for_placeholder bindings ph = find (\<lambda>b. placeholder b = ph) bindings"

text \<open>One of the two loops: the bindings of \<open>from\<close> that \<open>into\<close> does not resolve to themselves.\<close>

fun add_changed :: "runtime_secrets \<Rightarrow> runtime_secrets \<Rightarrow> authority set \<Rightarrow> authority set" where
  "add_changed [] into changed = changed"
| "add_changed (b # from) into changed =
     add_changed from into
       (if binding_for_placeholder into (placeholder b) \<noteq> Some b
        then secret_add_authorities_to b changed else changed)"

definition changed_authorities :: "runtime_secrets \<Rightarrow> runtime_secrets \<Rightarrow> authority set" where
  "changed_authorities current next = add_changed next current (add_changed current next {})"

record network_policy =
  egress :: egress_policy
  secrets :: runtime_secrets

definition policy_new :: "egress_policy \<Rightarrow> network_policy" where
  "policy_new e = \<lparr> egress = e, secrets = secrets_new \<rparr>"

definition policy_with_secrets :: "runtime_secrets \<Rightarrow> network_policy \<Rightarrow> network_policy" where
  "policy_with_secrets s p = p\<lparr> secrets := s \<rparr>"

section \<open>Blocked addresses as address blocks\<close>

text \<open>Addresses as numbers, and membership in the block \<open>net/len\<close> of \<open>w\<close>-bit addresses.\<close>

fun v4_number :: "ipv4 \<Rightarrow> nat" where
  "v4_number (Ipv4 a b c d) = ((unat a * 256 + unat b) * 256 + unat c) * 256 + unat d"

fun v6_number :: "ipv6 \<Rightarrow> nat" where
  "v6_number (Ipv6 s0 s1 s2 s3 s4 s5 s6 s7) =
     foldl (\<lambda>n s. n * 2 ^ 16 + unat s) 0 [s0, s1, s2, s3, s4, s5, s6, s7]"

definition in_block :: "nat \<Rightarrow> nat \<Rightarrow> nat \<times> nat \<Rightarrow> bool" where
  "in_block w n b = (case b of (net, len) \<Rightarrow> n div 2 ^ (w - len) = net div 2 ^ (w - len))"

definition blocked_v4_blocks :: "(nat \<times> nat) list" where
  "blocked_v4_blocks = map (\<lambda>(x, len). (v4_number x, len))
     [(Ipv4 0 0 0 0, 32), (Ipv4 10 0 0 0, 8), (Ipv4 100 64 0 0, 10), (Ipv4 127 0 0 0, 8),
      (Ipv4 169 254 0 0, 16), (Ipv4 172 16 0 0, 12), (Ipv4 192 168 0 0, 16), (Ipv4 224 0 0 0, 4),
      (Ipv4 255 255 255 255, 32)]"

definition blocked_v6_blocks :: "(nat \<times> nat) list" where
  "blocked_v6_blocks = map (\<lambda>(x, len). (v6_number x, len))
     [(Ipv6 0 0 0 0 0 0 0 0, 128), (Ipv6 0 0 0 0 0 0 0 1, 128), (Ipv6 0xFC00 0 0 0 0 0 0 0, 7),
      (Ipv6 0xFE80 0 0 0 0 0 0 0, 10), (Ipv6 0xFF00 0 0 0 0 0 0 0, 8)]"

definition mapped_base :: nat where
  "mapped_base = v6_number (Ipv6 0 0 0 0 0 0xFFFF 0 0)"

definition mapped_v4_blocks :: "(nat \<times> nat) list" where
  "mapped_v4_blocks = map (\<lambda>(net, len). (mapped_base + net, 96 + len)) blocked_v4_blocks"

lemma unat_octet: "unat (x :: u8) < 256"
  using unsigned_less [of x, where 'a = nat] by simp

lemma unat_segment: "unat (x :: u16) < 65536"
  using unsigned_less [of x, where 'a = nat] by simp

lemma div_interval:
  fixes n m :: nat
  shows "n div numeral k = m \<longleftrightarrow> m * numeral k \<le> n \<and> n < m * numeral k + numeral k"
  by (metis add.commute div_nat_eqI dividend_less_times_div mult.commute mult_Suc times_div_less_eq_dividend zero_less_numeral)

text \<open>A quotient by a power of the base drops the last digits.\<close>

lemma div_digits:
  fixes m :: nat
  shows "d < m \<Longrightarrow> (n * m + d) div m = n"
    and "c < m \<Longrightarrow> d < m \<Longrightarrow> ((n * m + c) * m + d) div (m * m) = n"
    and "b < m \<Longrightarrow> c < m \<Longrightarrow> d < m \<Longrightarrow> (((n * m + b) * m + c) * m + d) div (m * m * m) = n"
  by (simp_all add: div_mult2_eq)

lemma v4_octet_block:
  "v4_number (Ipv4 a b c d) div 16777216 = unat a"
  "v4_number (Ipv4 a b c d) div 65536 = unat a * 256 + unat b"
  "v4_number (Ipv4 a b c d) div 268435456 = unat a div 16"
  "v4_number (Ipv4 a b c d) div 1048576 = (unat a * 256 + unat b) div 16"
  "v4_number (Ipv4 a b c d) div 4194304 = (unat a * 256 + unat b) div 64"
proof -
  show h: "v4_number (Ipv4 a b c d) div 16777216 = unat a"
    using div_digits(3) [OF unat_octet [of b] unat_octet [of c] unat_octet [of d], of "unat a"]
    unfolding v4_number.simps by simp
  show w: "v4_number (Ipv4 a b c d) div 65536 = unat a * 256 + unat b"
    using div_digits(2) [OF unat_octet [of c] unat_octet [of d], of "unat a * 256 + unat b"]
    unfolding v4_number.simps by simp
  show "v4_number (Ipv4 a b c d) div 268435456 = unat a div 16"
    unfolding h [symmetric] div_mult2_eq [symmetric] by simp
  show "v4_number (Ipv4 a b c d) div 1048576 = (unat a * 256 + unat b) div 16"
    unfolding w [symmetric] div_mult2_eq [symmetric] by simp
  show "v4_number (Ipv4 a b c d) div 4194304 = (unat a * 256 + unat b) div 64"
    unfolding w [symmetric] div_mult2_eq [symmetric] by simp
qed

text \<open>The blocked IPv4 addresses are those of nine blocks; the metadata address lies in one of them.\<close>

lemma blocked_v4_blocks_iff: "blocked_v4 x \<longleftrightarrow> (\<exists>b\<in>set blocked_v4_blocks. in_block 32 (v4_number x) b)"
proof -
  obtain a b c d where x: "x = Ipv4 a b c d" by (cases x)
  note bnd = unat_octet [of a] unat_octet [of b] unat_octet [of c] unat_octet [of d]
  have blocks: "(\<exists>b\<in>set blocked_v4_blocks. in_block 32 (v4_number x) b) \<longleftrightarrow>
      v4_number x = 0 \<or> unat a = 10 \<or> (unat a * 256 + unat b) div 64 = 401 \<or> unat a = 127 \<or>
      unat a * 256 + unat b = 43518 \<or> (unat a * 256 + unat b) div 16 = 2753 \<or>
      unat a * 256 + unat b = 49320 \<or> unat a div 16 = 14 \<or> v4_number x = 2 ^ 32 - 1"
    unfolding blocked_v4_blocks_def in_block_def x
    by (simp add: v4_octet_block del: v4_number.simps) simp
  have "v4_number x = 0 \<longleftrightarrow> unat a = 0 \<and> unat b = 0 \<and> unat c = 0 \<and> unat d = 0"
    using bnd by (simp add: x)
  moreover have "v4_number x = 2 ^ 32 - 1 \<longleftrightarrow> unat a = 255 \<and> unat b = 255 \<and> unat c = 255 \<and> unat d = 255"
    using bnd by (simp add: x; safe; linarith)
  moreover have "(unat a * 256 + unat b) div 64 = 401 \<longleftrightarrow> unat a = 100 \<and> 64 \<le> unat b \<and> unat b \<le> 127"
    unfolding div_interval using bnd by (cases "unat a = 100") (simp, safe, linarith+)
  moreover have "unat a * 256 + unat b = 43518 \<longleftrightarrow> unat a = 169 \<and> unat b = 254"
    using bnd by (cases "unat a = 169") (simp, safe, linarith+)
  moreover have "(unat a * 256 + unat b) div 16 = 2753 \<longleftrightarrow> unat a = 172 \<and> 16 \<le> unat b \<and> unat b \<le> 31"
    unfolding div_interval using bnd by (cases "unat a = 172") (simp, safe, linarith+)
  moreover have "unat a * 256 + unat b = 49320 \<longleftrightarrow> unat a = 192 \<and> unat b = 168"
    using bnd by (cases "unat a = 192") (simp, safe, linarith+)
  moreover have "unat a div 16 = 14 \<longleftrightarrow> 224 \<le> unat a \<and> unat a \<le> 239"
    unfolding div_interval using bnd by (safe; linarith)
  moreover have "blocked_v4 x \<longleftrightarrow>
      unat a = 127 \<or> (unat a = 10 \<or> unat a = 172 \<and> 16 \<le> unat b \<and> unat b \<le> 31 \<or> unat a = 192 \<and> unat b = 168) \<or>
      (unat a = 169 \<and> unat b = 254) \<or> (224 \<le> unat a \<and> unat a \<le> 239) \<or>
      (unat a = 255 \<and> unat b = 255 \<and> unat c = 255 \<and> unat d = 255) \<or>
      (unat a = 0 \<and> unat b = 0 \<and> unat c = 0 \<and> unat d = 0) \<or>
      (unat a = 100 \<and> 64 \<le> unat b \<and> unat b \<le> 127)"
    unfolding blocked_v4_def v4_is_broadcast_def v4_is_unspecified_def CLOUD_METADATA_IP_def
    by (auto simp: x word_unat_eq_iff word_le_nat_alt)
  ultimately show ?thesis unfolding blocks by argo
qed

lemma foldl_digits_div:
  fixes n m :: nat
  assumes "\<forall>d\<in>set ds. d < m"
  shows "foldl (\<lambda>n d. n * m + d) n ds div m ^ length ds = n"
  using assms
proof (induction ds rule: rev_induct)
  case (snoc d ds)
  then have "foldl (\<lambda>n d. n * m + d) n (ds @ [d]) div m = foldl (\<lambda>n d. n * m + d) n ds"
    by simp
  then show ?case using snoc by (simp add: div_mult2_eq)
qed simp

lemma foldl_digits_small:
  fixes n m e :: nat
  assumes "\<forall>d\<in>set ds. d < m" "d < m" "e < m"
  shows "foldl (\<lambda>n d. n * m + d) n (ds @ [d]) = e \<longleftrightarrow> foldl (\<lambda>n d. n * m + d) n ds = 0 \<and> d = e"
proof -
  have "h * m + d = e \<longleftrightarrow> h = 0 \<and> d = e" for h :: nat
  proof (cases h)
    case (Suc h')
    then have "m \<le> h * m" by simp
    then show ?thesis using assms Suc by linarith
  qed simp
  then show ?thesis by simp
qed

lemma foldl_digits_zero:
  fixes n m :: nat
  assumes "0 < m"
  shows "foldl (\<lambda>n d. n * m + d) n ds = 0 \<longleftrightarrow> n = 0 \<and> (\<forall>d\<in>set ds. d = 0)"
  using assms by (induction ds arbitrary: n) auto

abbreviation (input) number16 :: "nat list \<Rightarrow> nat" where
  "number16 ds \<equiv> foldl (\<lambda>n d. n * 65536 + d) 0 ds"

lemma v6_number_digits:
  "v6_number (Ipv6 s0 s1 s2 s3 s4 s5 s6 s7) =
   number16 [unat s0, unat s1, unat s2, unat s3, unat s4, unat s5, unat s6, unat s7]"
  by simp

lemma v6_top:
  "v6_number (Ipv6 s0 s1 s2 s3 s4 s5 s6 s7) div 2 ^ 112 = unat s0"
  "v6_number (Ipv6 s0 s1 s2 s3 s4 s5 s6 s7) div 2 ^ 32 =
   number16 [unat s0, unat s1, unat s2, unat s3, unat s4, unat s5]"
proof -
  note bnd = unat_segment [of s1] unat_segment [of s2] unat_segment [of s3] unat_segment [of s4]
    unat_segment [of s5] unat_segment [of s6] unat_segment [of s7]
  show "v6_number (Ipv6 s0 s1 s2 s3 s4 s5 s6 s7) div 2 ^ 112 = unat s0"
    using foldl_digits_div [where m = 65536 and n = "unat s0" and
        ds = "[unat s1, unat s2, unat s3, unat s4, unat s5, unat s6, unat s7]"] bnd
    unfolding v6_number_digits by simp
  show "v6_number (Ipv6 s0 s1 s2 s3 s4 s5 s6 s7) div 2 ^ 32 =
      number16 [unat s0, unat s1, unat s2, unat s3, unat s4, unat s5]"
    using foldl_digits_div [where m = 65536 and ds = "[unat s6, unat s7]" and
        n = "number16 [unat s0, unat s1, unat s2, unat s3, unat s4, unat s5]"] bnd
    unfolding v6_number_digits by simp
qed

lemma v6_small:
  assumes "e < 65536"
  shows "v6_number (Ipv6 s0 s1 s2 s3 s4 s5 s6 s7) = e \<longleftrightarrow>
    s0 = 0 \<and> s1 = 0 \<and> s2 = 0 \<and> s3 = 0 \<and> s4 = 0 \<and> s5 = 0 \<and> s6 = 0 \<and> unat s7 = e"
  using foldl_digits_small [where m = 65536 and d = "unat s7" and e = e and n = 0 and
      ds = "[unat s0, unat s1, unat s2, unat s3, unat s4, unat s5, unat s6]"] assms
    unat_segment [of s0] unat_segment [of s1] unat_segment [of s2] unat_segment [of s3]
    unat_segment [of s4] unat_segment [of s5] unat_segment [of s6] unat_segment [of s7]
  unfolding v6_number_digits by (simp add: foldl_digits_zero unat_eq_0)

lemma v6_mapped_top:
  "v6_number (Ipv6 s0 s1 s2 s3 s4 s5 s6 s7) div 2 ^ 32 = 0xFFFF \<longleftrightarrow>
    s0 = 0 \<and> s1 = 0 \<and> s2 = 0 \<and> s3 = 0 \<and> s4 = 0 \<and> s5 = 0xFFFF"
  using foldl_digits_small [where m = 65536 and d = "unat s5" and e = "0xFFFF" and n = 0 and
      ds = "[unat s0, unat s1, unat s2, unat s3, unat s4]"]
    unat_segment [of s0] unat_segment [of s1] unat_segment [of s2] unat_segment [of s3]
    unat_segment [of s4] unat_segment [of s5]
  unfolding v6_top by (simp add: foldl_digits_zero unat_eq_0 word_unat_eq_iff [of s5])

lemma and_high_mask:
  fixes w v :: u16
  assumes "v = push_bit n (drop_bit n v)"
  shows "w AND NOT (mask n) = v \<longleftrightarrow> unat w div 2 ^ n = unat v div 2 ^ n"
proof -
  have m: "w AND NOT (mask n) = push_bit n (drop_bit n w)"
    by (auto simp: bit_eq_iff bit_simps)
  have i: "drop_bit n (push_bit n (drop_bit n x)) = drop_bit n x" for x :: u16
    by (auto simp: bit_eq_iff bit_simps dest: bit_imp_le_length)
  have "push_bit n (drop_bit n w) = v \<longleftrightarrow> drop_bit n w = drop_bit n v"
    using assms i [of w] by metis
  also have "\<dots> \<longleftrightarrow> unat w div 2 ^ n = unat v div 2 ^ n"
    by (simp add: word_unat_eq_iff unat_drop_bit_eq flip: drop_bit_eq_div)
  finally show ?thesis by (simp add: m)
qed

lemma v6_prefixes:
  fixes w :: u16
  shows "w AND 0xFFC0 = 0xFE80 \<longleftrightarrow> unat w div 64 = 0x3FA"
    and "w AND 0xFE00 = 0xFC00 \<longleftrightarrow> unat w div 512 = 0x7E"
    and "w AND 0xFF00 = 0xFF00 \<longleftrightarrow> unat w div 256 = 0xFF"
proof -
  have "NOT (mask 6) = (0xFFC0 :: u16)" "NOT (mask 9) = (0xFE00 :: u16)" "NOT (mask 8) = (0xFF00 :: u16)"
    by (simp_all add: mask_eq_exp_minus_1)
  then show "w AND 0xFFC0 = 0xFE80 \<longleftrightarrow> unat w div 64 = 0x3FA"
    and "w AND 0xFE00 = 0xFC00 \<longleftrightarrow> unat w div 512 = 0x7E"
    and "w AND 0xFF00 = 0xFF00 \<longleftrightarrow> unat w div 256 = 0xFF"
    using and_high_mask [of "0xFE80" 6 w] and_high_mask [of "0xFC00" 9 w] and_high_mask [of "0xFF00" 8 w]
    by simp_all
qed

lemma unat_hi_octet: "unat (ucast (drop_bit 8 s) :: u8) = unat (s :: u16) div 256"
  using unat_segment [of s]
  by (simp add: unsigned_ucast_eq take_bit_eq_mod unat_drop_bit_eq flip: drop_bit_eq_div)
    (simp add: drop_bit_eq_div)

lemma unat_lo_octet: "unat (ucast s :: u8) = unat (s :: u16) mod 256"
  by (simp add: unsigned_ucast_eq take_bit_eq_mod)

lemma mapped_number:
  assumes "to_ipv4_mapped x = Some y"
  shows "v6_number x = 0xFFFF * 2 ^ 32 + v4_number y"
proof -
  obtain s0 s1 s2 s3 s4 s5 s6 s7 where x: "x = Ipv6 s0 s1 s2 s3 s4 s5 s6 s7" by (cases x)
  have "y = Ipv4 (ucast (drop_bit 8 s6)) (ucast s6) (ucast (drop_bit 8 s7)) (ucast s7)"
    using assms by (simp add: x split: if_splits)
  then have "v4_number y = ((unat s6 div 256 * 256 + unat s6 mod 256) * 256 + unat s7 div 256) * 256 + unat s7 mod 256"
    by (simp only: v4_number.simps unat_hi_octet, simp only: unat_lo_octet)
  also have "\<dots> = unat s6 * 65536 + unat s7"
    unfolding div_mult_mod_eq [of "unat s6" 256]
    using div_mult_mod_eq [of "unat s7" 256] by (simp add: add_mult_distrib)
  finally have "v4_number y = unat s6 * 65536 + unat s7" .
  then show ?thesis using assms by (auto simp: x split: if_splits)
qed

lemma in_mapped_block:
  assumes "len \<le> 32" "net < 2 ^ 32"
  shows "in_block 128 n (0xFFFF * 2 ^ 32 + net, 96 + len) \<longleftrightarrow>
    n div 2 ^ 32 = 0xFFFF \<and> in_block 32 (n mod 2 ^ 32) (net, len)"
proof -
  define k where "k = 32 - len"
  have k: "128 - (96 + len) = k" "32 - len = k" "k \<le> 32" using assms by (auto simp: k_def)
  have split: "(q * 2 ^ 32 + r) div 2 ^ k = q * 2 ^ len + r div 2 ^ k" for q r :: nat
  proof -
    have "(2 :: nat) ^ 32 = 2 ^ len * 2 ^ k"
      using assms by (simp only: k_def power_add [symmetric]) simp
    then have "q * 2 ^ 32 + r = (q * 2 ^ len) * 2 ^ k + r" by (simp only: mult.assoc)
    then show ?thesis by (simp only:) simp
  qed
  have small: "r div 2 ^ k < 2 ^ len" if "r < (2 :: nat) ^ 32" for r
    using that assms by (intro less_mult_imp_div_less) (simp add: k_def power_add [symmetric])
  have "n = n div 2 ^ 32 * 2 ^ 32 + n mod 2 ^ 32" by simp
  then have n: "n div 2 ^ k = n div 2 ^ 32 * 2 ^ len + (n mod 2 ^ 32) div 2 ^ k"
    using split by metis
  have "a * 2 ^ len + b = c * 2 ^ len + d \<longleftrightarrow> a = c \<and> b = d" if "b < 2 ^ len" "d < 2 ^ len" for a b c d :: nat
    using that by (metis div_mult_self3 div_less add_0_right add_left_cancel power_eq_0_iff zero_neq_numeral)
  then show ?thesis
    unfolding in_block_def prod.case k n split using small [of "n mod 2 ^ 32"] small [OF assms(2)] by simp
qed

lemma v4_number_bound: "v4_number x < 2 ^ 32"
proof (cases x)
  case (Ipv4 a b c d)
  have digit: "h * 256 + e < k * 256" if "h < k" "e < 256" for h e k :: nat
    using that by linarith
  have "((unat a * 256 + unat b) * 256 + unat c) * 256 + unat d < 256 * 256 * 256 * 256"
    by (intro digit unat_octet)
  then show ?thesis by (simp add: Ipv4)
qed

lemma in_mapped_blocks:
  "(\<exists>b\<in>set mapped_v4_blocks. in_block 128 n b) \<longleftrightarrow>
   n div 2 ^ 32 = 0xFFFF \<and> (\<exists>b\<in>set blocked_v4_blocks. in_block 32 (n mod 2 ^ 32) b)"
proof -
  have base: "mapped_base = 0xFFFF * 2 ^ 32" by (simp add: mapped_base_def)
  have len: "len \<le> 32 \<and> net < 2 ^ 32" if "(net, len) \<in> set blocked_v4_blocks" for net len
    using that v4_number_bound by (auto simp: blocked_v4_blocks_def simp del: v4_number.simps)
  have "(\<exists>b\<in>set mapped_v4_blocks. in_block 128 n b) \<longleftrightarrow>
      (\<exists>(net, len)\<in>set blocked_v4_blocks. in_block 128 n (0xFFFF * 2 ^ 32 + net, 96 + len))"
    unfolding mapped_v4_blocks_def base by (simp add: split_beta)
  also have "\<dots> \<longleftrightarrow> (\<exists>(net, len)\<in>set blocked_v4_blocks.
      n div 2 ^ 32 = 0xFFFF \<and> in_block 32 (n mod 2 ^ 32) (net, len))"
    using len in_mapped_block by (intro bex_cong refl) (auto simp del: power_numeral)
  finally show ?thesis by auto
qed

lemma blocked_v6_blocks_iff:
  assumes "to_ipv4_mapped x = None"
  shows "blocked_destination (V6 x) \<longleftrightarrow> (\<exists>b\<in>set blocked_v6_blocks. in_block 128 (v6_number x) b)"
proof -
  obtain s0 s1 s2 s3 s4 s5 s6 s7 where x: "x = Ipv6 s0 s1 s2 s3 s4 s5 s6 s7" by (cases x)
  have d: "v6_number x div 2 ^ (112 + n) = unat s0 div 2 ^ n" for n
    unfolding power_add div_mult2_eq x v6_top by simp
  have "(\<exists>b\<in>set blocked_v6_blocks. in_block 128 (v6_number x) b) \<longleftrightarrow>
      v6_number x = 0 \<or> v6_number x = 1 \<or> unat s0 div 512 = 0x7E \<or> unat s0 div 64 = 0x3FA \<or> unat s0 div 256 = 0xFF"
    using d [of 9] d [of 6] d [of 8]
    unfolding blocked_v6_blocks_def in_block_def by (simp del: v6_number.simps) simp
  moreover have "v6_number x = 0 \<longleftrightarrow> v6_is_unspecified x"
    unfolding x v6_is_unspecified_def by (subst v6_small) (auto simp: unat_eq_0)
  moreover have "v6_number x = 1 \<longleftrightarrow> v6_is_loopback x"
    unfolding x v6_is_loopback_def by (subst v6_small) (auto simp: word_unat_eq_iff [of s7])
  moreover have "v6_is_unique_local x \<longleftrightarrow> unat s0 div 512 = 0x7E"
      "v6_is_unicast_link_local x \<longleftrightarrow> unat s0 div 64 = 0x3FA" "v6_is_multicast x \<longleftrightarrow> unat s0 div 256 = 0xFF"
    by (simp_all only: x v6_prefixes v6_is_unique_local.simps v6_is_unicast_link_local.simps v6_is_multicast.simps)
  ultimately show ?thesis
    by (simp only: blocked_destination.simps assms option.case) blast
qed

lemma mapped_not_v6_block:
  assumes "to_ipv4_mapped x = Some y"
  shows "\<not> (\<exists>b\<in>set blocked_v6_blocks. in_block 128 (v6_number x) b)"
  using v4_number_bound [of y]
  unfolding blocked_v6_blocks_def in_block_def mapped_number [OF assms] by simp

lemma blocked_destination_blocks:
  "blocked_destination d \<longleftrightarrow>
    (case d of
       V4 x \<Rightarrow> list_ex (in_block 32 (v4_number x)) blocked_v4_blocks
     | V6 x \<Rightarrow> list_ex (in_block 128 (v6_number x)) (blocked_v6_blocks @ mapped_v4_blocks))"
proof (cases d)
  case (V4 x)
  then show ?thesis by (simp add: blocked_v4_blocks_iff list_ex_iff)
next
  case (V6 x)
  obtain s0 s1 s2 s3 s4 s5 s6 s7 where x: "x = Ipv6 s0 s1 s2 s3 s4 s5 s6 s7" by (cases x)
  show ?thesis
  proof (cases "to_ipv4_mapped x")
    case None
    then have "v6_number x div 2 ^ 32 \<noteq> 0xFFFF"
      unfolding x v6_mapped_top by (auto split: if_splits)
    then show ?thesis
      using in_mapped_blocks [of "v6_number x"] by (simp only: V6 ip_addr.case list_ex_iff set_append
          bex_Un blocked_v6_blocks_iff [OF None]) simp
  next
    case (Some y)
    have "v6_number x div 2 ^ 32 = 0xFFFF" "v6_number x mod 2 ^ 32 = v4_number y"
      unfolding mapped_number [OF Some] using v4_number_bound [of y] div_digits(1) [of "v4_number y" "2 ^ 32"]
      by (simp, metis mod_less mod_mult_self3)
    then have "(\<exists>b\<in>set mapped_v4_blocks. in_block 128 (v6_number x) b) \<longleftrightarrow> blocked_v4 y"
      unfolding in_mapped_blocks blocked_v4_blocks_iff by simp
    then show ?thesis
      using mapped_not_v6_block [OF Some] by (simp only: V6 ip_addr.case list_ex_iff set_append
          bex_Un blocked_destination.simps Some option.case) simp
  qed
qed

section \<open>Decisions\<close>

lemma lowercase_dot: "to_ascii_lowercase_byte b = 46 \<longleftrightarrow> b = 46"
  by (auto simp: to_ascii_lowercase_byte_def word_le_nat_alt word_unat_eq_iff unat_word_ariths split: if_splits)

lemma trim_end_dots_lowercase: "trim_end_dots (to_ascii_lowercase s) = to_ascii_lowercase (trim_end_dots s)"
  by (simp add: trim_end_dots_def to_ascii_lowercase_def rev_map dropWhile_map o_def lowercase_dot)

lemma normalized_host_idem: "normalized_host (normalized_host h) = normalized_host h"
  by (simp add: normalized_host_def trim_end_dots_lowercase trim_end_dots_idem lowercase_idem)

definition egress_from :: "bytes list \<Rightarrow> egress_policy \<Rightarrow> egress_policy" where
  "egress_from hosts p = foldl (\<lambda>p h. with_allowed_authority h p) p hosts"

lemma egress_from_allowed:
  "allowed_authorities (egress_from hosts p) = normalized_host ` set hosts \<union> allowed_authorities p"
  unfolding egress_from_def
  by (induction hosts arbitrary: p) (auto simp: with_allowed_authority_def)

lemma egress_from_private [simp]:
  "allow_private_destinations (egress_from hosts p) = allow_private_destinations p"
  unfolding egress_from_def
  by (induction hosts arbitrary: p) (auto simp: with_allowed_authority_def)

text \<open>
  Claim C6.  The default policy refuses an address exactly when it lies in one of the listed
  address blocks: nine IPv4 blocks, five IPv6 blocks, and the nine IPv4 blocks again under
  the IPv4-mapped prefix, so that no blocked IPv4 address is reachable by its IPv6 spelling.
  Adding host names to the policy does not change which addresses it refuses, and the
  refusal names the address.
\<close>

theorem default_policy_blocks:
  "check_destination (egress_from hosts default_deny_private) d =
    (if (case d of
           V4 x \<Rightarrow> list_ex (in_block 32 (v4_number x)) blocked_v4_blocks
         | V6 x \<Rightarrow> list_ex (in_block 128 (v6_number x)) (blocked_v6_blocks @ mapped_v4_blocks))
     then Err (BlockedDestination d) else Ok ())"
  unfolding check_destination_def blocked_destination_blocks by (simp add: default_deny_private_def)

text \<open>
  Claim C23.  A policy built from a list of host names admits a connection exactly when the
  list is empty or the destination's host is known and equal to a listed one up to trailing
  dots and the case of ASCII letters; otherwise the error carries the normalised host, or
  \<open><unknown>\<close>.
\<close>

theorem host_allow_list_decision:
  "check_destination_authority (egress_from hosts default_deny_private) d (map_option authority_new host) =
    (if hosts = [] \<or>
        (case host of None \<Rightarrow> False | Some h \<Rightarrow>
           list_ex (\<lambda>k. eq_ignore_ascii_case (trim_end_dots h) (trim_end_dots k)) hosts)
     then Ok ()
     else Err (HostNotAllowed d
       (case host of None \<Rightarrow> byte_string ''<unknown>'' | Some h \<Rightarrow> to_ascii_lowercase (trim_end_dots h))))"
proof (cases host)
  case None
  then show ?thesis
    by (simp add: check_destination_authority_def restricts_authorities_def egress_from_allowed
        default_deny_private_def)
next
  case (Some h)
  have "allows_authority (egress_from hosts default_deny_private) (authority_new h) \<longleftrightarrow>
      list_ex (\<lambda>k. eq_ignore_ascii_case (trim_end_dots h) (trim_end_dots k)) hosts"
    by (auto simp: allows_authority_def egress_from_allowed default_deny_private_def authority_new_def
        normalized_host_def eq_ignore_ascii_case_def list_ex_iff)
  then show ?thesis
    by (auto simp: Some check_destination_authority_def restricts_authorities_def egress_from_allowed
        default_deny_private_def authority_new_def normalized_host_def)
qed

section \<open>Replacing the secrets\<close>

text \<open>The bindings a host may use.\<close>

definition applicable :: "runtime_secrets \<Rightarrow> authority \<Rightarrow> runtime_secret set" where
  "applicable bindings a = {b \<in> set bindings. secret_allows_authority b a}"

definition distinct_placeholders :: "runtime_secrets \<Rightarrow> bool" where
  "distinct_placeholders bindings = distinct (map placeholder bindings)"

lemma add_changed_iff:
  "a \<in> add_changed from into changed \<longleftrightarrow>
    a \<in> changed \<or> (\<exists>b\<in>set from. binding_for_placeholder into (placeholder b) \<noteq> Some b \<and> secret_allows_authority b a)"
  by (induction "from" arbitrary: changed)
    (auto simp: secret_add_authorities_to_def scope_add_authorities_to_def
      secret_allows_authority_def scope_allows_authority_def)

lemma binding_found:
  "binding_for_placeholder bindings ph = Some b \<Longrightarrow> b \<in> set bindings \<and> placeholder b = ph"
  unfolding binding_for_placeholder_def by (drule find_mem) auto

lemma binding_found_distinct:
  "distinct_placeholders bindings \<Longrightarrow> b \<in> set bindings \<Longrightarrow> binding_for_placeholder bindings (placeholder b) = Some b"
  unfolding distinct_placeholders_def binding_for_placeholder_def
  by (induction bindings) auto

text \<open>
  Claim C24.  When the secrets are replaced, every host for which the set of usable bindings
  differs is reported as changed.  When no placeholder is bound twice the report is exact: a
  host is reported only if its usable bindings differ.
\<close>

theorem changed_authorities_exact:
  "{a. applicable current a \<noteq> applicable next a} \<subseteq> changed_authorities current next \<and>
   (distinct_placeholders current \<and> distinct_placeholders next \<longrightarrow>
      changed_authorities current next = {a. applicable current a \<noteq> applicable next a})"
proof -
  have c: "changed_authorities current next =
      {a. (\<exists>b\<in>applicable current a. binding_for_placeholder next (placeholder b) \<noteq> Some b) \<or>
          (\<exists>b\<in>applicable next a. binding_for_placeholder current (placeholder b) \<noteq> Some b)}"
    by (auto simp: changed_authorities_def add_changed_iff applicable_def)
  have s: "{a. applicable current a \<noteq> applicable next a} \<subseteq> changed_authorities current next"
    unfolding c by (auto simp: applicable_def dest: binding_found)
  show ?thesis
  proof (intro conjI impI s equalityI)
    assume "distinct_placeholders current \<and> distinct_placeholders next"
    then show "changed_authorities current next \<subseteq> {a. applicable current a \<noteq> applicable next a}"
      unfolding c using binding_found_distinct by (fastforce simp: applicable_def)
  qed
qed

theorem changed_authorities_exact_witness:
  "changed_authorities [secret_new [1] [2] [[97]]] [secret_new [1] [3] [[98]]] = {Authority [97], Authority [98]}"
proof -
  let ?a = "secret_new [1] [2] [[97]]" and ?b = "secret_new [1] [3] [[98]]"
  have "distinct_placeholders [?a] \<and> distinct_placeholders [?b]"
    by (simp add: distinct_placeholders_def)
  then have "changed_authorities [?a] [?b] = {a. applicable [?a] a \<noteq> applicable [?b] a}"
    using changed_authorities_exact [of "[?a]" "[?b]"] by blast
  moreover have "applicable [secret_new p v [[c]]] a = (if a = Authority [c] then {secret_new p v [[c]]} else {})"
    if "c = 97 \<or> c = 98" for p v c a
    using that by (auto simp: applicable_def secret_new_def scope_new_def secret_allows_authority_def
        scope_allows_authority_def authority_new_def normalized_host_def trim_end_dots_def
        to_ascii_lowercase_def to_ascii_lowercase_byte_def)
  moreover have "?a \<noteq> ?b" by (simp add: secret_new_def)
  ultimately show ?thesis by auto
qed

end
