(* ===== verification/Raw.thy ===== *)
theory Raw
  imports Base64 Policy
begin

text \<open>
  Substitution of secret placeholders in outgoing bytes, after \<open>application/raw.rs\<close>: in a
  header block, in the token of a \<open>Basic\<close> authorization header, and in a request body.  A
  \<open>Cow\<close> is kept as borrowed or owned because the callers look at which one it is; the scratch
  buffers are passed in and returned.  \<open>windows(0)\<close>, which an empty placeholder would ask for,
  panics.
\<close>

section \<open>Operations\<close>

definition SECRET_PLACEHOLDER_PREFIX :: bytes where
  "SECRET_PLACEHOLDER_PREFIX = byte_string ''AGENTDP_SECRET_''"

datatype cow = Borrowed (cow_bytes: bytes) | Owned (cow_bytes: bytes)

record header_rewrite_scratch =
  scratch_decoded :: bytes
  scratch_encoded :: bytes
  scratch_rewrite :: bytes

definition scratch_new :: header_rewrite_scratch where
  "scratch_new = \<lparr> scratch_decoded = [], scratch_encoded = [], scratch_rewrite = [] \<rparr>"

definition find_bytes :: "bytes \<Rightarrow> bytes \<Rightarrow> nat option" where
  "find_bytes haystack needle = (if needle = [] then None else find_window needle haystack)"

definition reject_unresolved_secret_placeholders :: "bytes \<Rightarrow> (unit, policy_error) result" where
  "reject_unresolved_secret_placeholders payload =
     (if find_bytes payload SECRET_PLACEHOLDER_PREFIX \<noteq> None then Err UnresolvedSecretPlaceholder else Ok ())"

text \<open>\<open>raw::process\<close> and \<open>raw::copy\<close> append to the output and report whether it has bytes.\<close>

definition process :: "bytes \<Rightarrow> bytes \<Rightarrow> bytes \<times> (bool, policy_error) result" where
  "process input out =
     (case reject_unresolved_secret_placeholders input of
        Err e \<Rightarrow> (out, Err e)
      | Ok _ \<Rightarrow> (out @ input, Ok (out @ input \<noteq> [])))"

definition copy :: "bytes \<Rightarrow> bytes \<Rightarrow> bytes \<times> bool" where
  "copy input out = (out @ input, out @ input \<noteq> [])"

lemma find_bytes_Some:
  "find_bytes haystack needle = Some i \<Longrightarrow>
    needle \<noteq> [] \<and> i + length needle \<le> length haystack \<and> take (length needle) (drop i haystack) = needle"
  by (auto simp: find_bytes_def dest: find_window_Some split: if_splits)

function replace_loop :: "bytes \<Rightarrow> bytes \<Rightarrow> bytes \<Rightarrow> bytes \<Rightarrow> bytes" where
  "replace_loop remaining needle replacement output =
     (case find_bytes remaining needle of
        None \<Rightarrow> output @ remaining
      | Some index \<Rightarrow>
         replace_loop (drop (index + length needle) remaining) needle replacement
           (output @ take index remaining @ replacement))"
  by pat_completeness auto
termination
proof (relation "measure (\<lambda>(remaining, _). length remaining)")
  fix remaining needle replacement out :: bytes and index
  assume "find_bytes remaining needle = Some index"
  then have "needle \<noteq> []" "index + length needle \<le> length remaining" by (auto dest: find_bytes_Some)
  then have "0 < length needle" "0 < length remaining" by auto
  then show "((drop (index + length needle) remaining, needle, replacement,
      out @ take index remaining @ replacement), remaining, needle, replacement, out)
      \<in> measure (\<lambda>(remaining, _). length remaining)"
    by simp
qed simp

declare replace_loop.simps [simp del]

definition replace_bytes :: "bytes \<Rightarrow> bytes \<Rightarrow> bytes \<Rightarrow> bytes" where
  "replace_bytes haystack needle replacement = replace_loop haystack needle replacement []"

text \<open>\<open>windows(needle.len()).any(|window| window == needle)\<close>.\<close>

definition windows_any :: "bytes \<Rightarrow> bytes \<Rightarrow> bool option" where
  "windows_any payload needle =
     (if needle = [] then None else Some (find_window needle payload \<noteq> None))"

definition current_of :: "bytes option \<Rightarrow> bytes \<Rightarrow> bytes" where
  "current_of output payload = (case output of None \<Rightarrow> payload | Some o' \<Rightarrow> o')"

definition cow_of :: "bytes option \<Rightarrow> bytes \<Rightarrow> cow" where
  "cow_of output payload = (case output of None \<Rightarrow> Borrowed payload | Some o' \<Rightarrow> Owned o')"

fun substitute_loop ::
    "bytes \<Rightarrow> bytes \<Rightarrow> runtime_secrets \<Rightarrow> bytes option \<Rightarrow> (bytes option, policy_error) result option" where
  "substitute_loop host payload [] output = Some (Ok output)"
| "substitute_loop host payload (binding # bindings) output =
     (let current = current_of output payload in
      windows_any current (placeholder binding) \<bind> (\<lambda>found.
        if \<not> found then substitute_loop host payload bindings output
        else if \<not> secret_allows_authority binding (authority_new host)
        then Some (Err (UnauthorizedSecretHost host))
        else substitute_loop host payload bindings
          (Some (replace_bytes current (placeholder binding) (secret_value binding)))))"

definition substitute_bytes_for_host ::
    "runtime_secrets \<Rightarrow> bytes \<Rightarrow> bytes \<Rightarrow> (cow, policy_error) result option" where
  "substitute_bytes_for_host bindings host payload =
     substitute_loop host payload bindings None \<bind> (\<lambda>r. Some
       (case r of
          Err e \<Rightarrow> Err e
        | Ok output \<Rightarrow>
           (let result = cow_of output payload in
            case reject_unresolved_secret_placeholders (cow_bytes result) of
              Err e \<Rightarrow> Err e
            | Ok _ \<Rightarrow> Ok result)))"

fun substitute_body_loop :: "bytes \<Rightarrow> bytes \<Rightarrow> runtime_secrets \<Rightarrow> bytes option \<Rightarrow> bytes option option" where
  "substitute_body_loop host payload [] output = Some output"
| "substitute_body_loop host payload (binding # bindings) output =
     (if \<not> secret_allows_authority binding (authority_new host)
      then substitute_body_loop host payload bindings output
      else let current = current_of output payload in
        windows_any current (placeholder binding) \<bind> (\<lambda>found.
          if \<not> found then substitute_body_loop host payload bindings output
          else substitute_body_loop host payload bindings
            (Some (replace_bytes current (placeholder binding) (secret_value binding)))))"

definition substitute_body_bytes_for_host :: "runtime_secrets \<Rightarrow> bytes \<Rightarrow> bytes \<Rightarrow> cow option" where
  "substitute_body_bytes_for_host bindings host payload =
     map_option (\<lambda>output. cow_of output payload) (substitute_body_loop host payload bindings None)"

fun ensure_no_placeholders_for_disallowed_host ::
    "runtime_secrets \<Rightarrow> bytes \<Rightarrow> bytes \<Rightarrow> (unit, policy_error) result option" where
  "ensure_no_placeholders_for_disallowed_host [] host payload = Some (Ok ())"
| "ensure_no_placeholders_for_disallowed_host (binding # bindings) host payload =
     (if secret_allows_authority binding (authority_new host)
      then ensure_no_placeholders_for_disallowed_host bindings host payload
      else windows_any payload (placeholder binding) \<bind> (\<lambda>found.
        if found then Some (Err (UnauthorizedSecretHost host))
        else ensure_no_placeholders_for_disallowed_host bindings host payload))"

subsection \<open>Basic authorization\<close>

text \<open>\<open>Vec::resize(n, 0)\<close>.\<close>

definition resize_zeroed :: "nat \<Rightarrow> bytes \<Rightarrow> bytes" where
  "resize_zeroed n xs = take n xs @ replicate (n - length xs) 0"

function trim_ascii_whitespace_end_from :: "bytes \<Rightarrow> nat \<Rightarrow> nat \<Rightarrow> nat option" where
  "trim_ascii_whitespace_end_from input start stop =
     (if start < stop then
        rd input (stop - 1) \<bind> (\<lambda>b.
          if b = 32 \<or> b = 9 then trim_ascii_whitespace_end_from input start (stop - 1) else Some stop)
      else Some stop)"
  by pat_completeness auto
termination
  by (relation "measure (\<lambda>(_, _, e). e)") auto

declare trim_ascii_whitespace_end_from.simps [simp del]

definition trim_ascii_whitespace_end :: "bytes \<Rightarrow> nat \<Rightarrow> nat option" where
  "trim_ascii_whitespace_end input start = trim_ascii_whitespace_end_from input start (length input)"

text \<open>The loop that skips blanks after the colon.\<close>

function skip_blanks :: "bytes \<Rightarrow> nat \<Rightarrow> nat" where
  "skip_blanks content value_start =
     (if value_start < length content \<and> (content ! value_start = 32 \<or> content ! value_start = 9)
      then skip_blanks content (Suc value_start) else value_start)"
  by pat_completeness auto
termination
  by (relation "measure (\<lambda>(content, i). length content - i)") auto

declare skip_blanks.simps [simp del]

definition line_content_len :: "bytes \<Rightarrow> nat" where
  "line_content_len line =
     (if ends_with line [13, 10] then length line - 2
      else if ends_with line [10] then length line - 1
      else length line)"

text \<open>
  The position of the token of a \<open>Basic\<close> authorization header in the content of a line, if the
  line is one: the checks up to the slice of the token.
\<close>

definition basic_token_bounds :: "bytes \<Rightarrow> (nat \<times> nat) option option" where
  "basic_token_bounds content =
     (case position (\<lambda>b. b = 58) content of
        None \<Rightarrow> Some None
      | Some colon \<Rightarrow>
         if \<not> eq_ignore_ascii_case (take colon content) (byte_string ''authorization'') then Some None
         else
           let value_start = skip_blanks content (colon + 1) in
           slice content value_start (length content) \<bind> (\<lambda>val.
             if length val < 6 \<or> \<not> eq_ignore_ascii_case (take 6 val) (byte_string ''Basic '') then Some None
             else
               let token_start = value_start + 6 in
               trim_ascii_whitespace_end content token_start \<bind> (\<lambda>token_end.
                 Some (Some (token_start, token_end)))))"

text \<open>Decode the token, substitute in it, and encode the result.\<close>

definition substitute_token ::
    "runtime_secrets \<Rightarrow> bytes \<Rightarrow> bytes \<Rightarrow> header_rewrite_scratch \<Rightarrow>
     (header_rewrite_scratch \<times> (bytes option, policy_error) result) option" where
  "substitute_token bindings host token scratch =
     (case decoded_len token of
        None \<Rightarrow> Some (scratch, Ok None)
      | Some n \<Rightarrow>
         (let sized = resize_zeroed n (scratch_decoded scratch) in
          decode token sized \<bind> (\<lambda>(r, buf).
            let scratch = scratch\<lparr> scratch_decoded := buf \<rparr> in
            case r of
              None \<Rightarrow> Some (scratch, Ok None)
            | Some m \<Rightarrow>
               slice buf 0 m \<bind> (\<lambda>decoded.
                 substitute_bytes_for_host bindings host decoded \<bind> (\<lambda>s.
                   case s of
                     Err e \<Rightarrow> Some (scratch, Err e)
                   | Ok (Borrowed _) \<Rightarrow> Some (scratch, Ok None)
                   | Ok (Owned substituted) \<Rightarrow>
                      (let sized = resize_zeroed (encoded_len (length substituted)) (scratch_encoded scratch) in
                       encode substituted sized \<bind> (\<lambda>(r, buf).
                         let scratch = scratch\<lparr> scratch_encoded := buf \<rparr> in
                         case r of
                           None \<Rightarrow> None
                         | Some k \<Rightarrow>
                            slice buf 0 k \<bind> (\<lambda>encoded. Some (scratch, Ok (Some encoded))))))))))"

definition substitute_basic_auth_header_line_for_host ::
    "runtime_secrets \<Rightarrow> bytes \<Rightarrow> bytes \<Rightarrow> header_rewrite_scratch \<Rightarrow>
     (header_rewrite_scratch \<times> (bytes option, policy_error) result) option" where
  "substitute_basic_auth_header_line_for_host bindings host line scratch =
     (let content_len = line_content_len line;
          content = take content_len line;
          ending = drop content_len line
      in basic_token_bounds content \<bind> (\<lambda>bounds.
        case bounds of
          None \<Rightarrow> Some (scratch, Ok None)
        | Some (token_start, token_end) \<Rightarrow>
           slice content token_start token_end \<bind> (\<lambda>token.
             substitute_token bindings host token scratch \<bind> (\<lambda>(scratch, r). Some (scratch,
               case r of
                 Err e \<Rightarrow> Err e
               | Ok None \<Rightarrow> Ok None
               | Ok (Some encoded) \<Rightarrow>
                  Ok (Some (take token_start content @ encoded @ drop token_end content @ ending)))))))"

text \<open>
  The loop over the lines.  \<open>before\<close> is \<open>headers[..start]\<close> and \<open>rest\<close> is \<open>headers[start..]\<close>.
\<close>

definition line_end :: "bytes \<Rightarrow> nat" where
  "line_end rest = (case position (\<lambda>b. b = 10) rest of None \<Rightarrow> length rest | Some i \<Rightarrow> i + 1)"

lemma line_end_bounds: "rest \<noteq> [] \<Longrightarrow> 0 < line_end rest \<and> line_end rest \<le> length rest"
  by (auto simp: line_end_def split: option.splits dest: position_less)

function basic_auth_lines ::
    "runtime_secrets \<Rightarrow> bytes \<Rightarrow> bytes \<Rightarrow> bytes \<Rightarrow> bytes option \<Rightarrow> header_rewrite_scratch \<Rightarrow>
     (header_rewrite_scratch \<times> (bytes option, policy_error) result) option" where
  "basic_auth_lines bindings host before rest output scratch =
     (if rest = [] then Some (scratch, Ok output)
      else
        let line = take (line_end rest) rest in
        substitute_basic_auth_header_line_for_host bindings host line scratch \<bind> (\<lambda>(scratch, r).
          case r of
            Err e \<Rightarrow> Some (scratch, Err e)
          | Ok (Some substituted) \<Rightarrow>
             basic_auth_lines bindings host (before @ line) (drop (line_end rest) rest)
               (Some (current_of output before @ substituted)) scratch
          | Ok None \<Rightarrow>
             basic_auth_lines bindings host (before @ line) (drop (line_end rest) rest)
               (map_option (\<lambda>o'. o' @ line) output) scratch))"
  by pat_completeness auto
termination
  by (relation "measure (\<lambda>(_, _, _, rest, _). length rest)") (auto dest: line_end_bounds)

declare basic_auth_lines.simps [simp del]

definition substitute_basic_auth_headers_for_host ::
    "runtime_secrets \<Rightarrow> bytes \<Rightarrow> bytes \<Rightarrow> header_rewrite_scratch \<Rightarrow>
     (header_rewrite_scratch \<times> (bytes option, policy_error) result) option" where
  "substitute_basic_auth_headers_for_host bindings host headers scratch =
     basic_auth_lines bindings host [] headers None scratch"

definition substitute_http_header_bytes_for_host ::
    "runtime_secrets \<Rightarrow> bytes \<Rightarrow> bytes \<Rightarrow> header_rewrite_scratch \<Rightarrow>
     (header_rewrite_scratch \<times> (cow, policy_error) result) option" where
  "substitute_http_header_bytes_for_host bindings host headers scratch =
     substitute_bytes_for_host bindings host headers \<bind> (\<lambda>r.
       case r of
         Err e \<Rightarrow> Some (scratch, Err e)
       | Ok raw \<Rightarrow>
          substitute_basic_auth_headers_for_host bindings host (cow_bytes raw) scratch \<bind> (\<lambda>(scratch, r).
            Some (scratch,
              case r of
                Err e \<Rightarrow> Err e
              | Ok None \<Rightarrow> Ok (case raw of Borrowed _ \<Rightarrow> Borrowed headers | Owned headers \<Rightarrow> Owned headers)
              | Ok (Some decoded_basic) \<Rightarrow> Ok (Owned decoded_basic))))"

section \<open>Replacement\<close>

fun join_with :: "bytes \<Rightarrow> bytes list \<Rightarrow> bytes" where
  "join_with sep [] = []"
| "join_with sep [p] = p"
| "join_with sep (p # ps) = p @ sep @ join_with sep ps"

lemma find_window_first: "find_window needle s = Some i \<Longrightarrow> find_window needle (take i s) = None"
proof (induction s arbitrary: i)
  case (Cons b s)
  show ?case
  proof (cases i)
    case (Suc j)
    then have j: "find_window needle s = Some j" "\<not> starts_with (b # s) needle"
      using Cons.prems by (auto split: if_splits)
    have "\<not> starts_with (b # take j s) needle"
    proof
      assume "starts_with (b # take j s) needle"
      then have "take (length needle) (take i (b # s)) = needle" by (simp add: starts_with_def Suc)
      then have "take (min (length needle) i) (b # s) = needle" by (simp only: take_take)
      moreover from this have "length needle \<le> i" by (metis length_take min.cobounded2 min.cobounded1 min_def)
      ultimately show False using j(2) by (simp add: starts_with_def min_absorb1)
    qed
    then show ?thesis using Cons.IH [OF j(1)] by (simp add: Suc)
  qed simp
qed simp

lemma replace_loop_pieces:
  "needle \<noteq> [] \<Longrightarrow> \<exists>pieces. pieces \<noteq> [] \<and> remaining = join_with needle pieces \<and>
     replace_loop remaining needle replacement out = out @ join_with replacement pieces \<and>
     (\<forall>p\<in>set pieces. find_bytes p needle = None)"
proof (induction remaining needle replacement out rule: replace_loop.induct)
  case (1 remaining needle replacement out)
  show ?case
  proof (cases "find_bytes remaining needle")
    case None
    then show ?thesis by (intro exI [of _ "[remaining]"]) (simp add: replace_loop.simps)
  next
    case (Some i)
    obtain pieces where p: "pieces \<noteq> []" "drop (i + length needle) remaining = join_with needle pieces"
        "replace_loop (drop (i + length needle) remaining) needle replacement (out @ take i remaining @ replacement) =
           (out @ take i remaining @ replacement) @ join_with replacement pieces"
        "\<forall>p\<in>set pieces. find_bytes p needle = None"
      using 1 Some by metis
    have "remaining = take i remaining @ needle @ drop (i + length needle) remaining"
      using find_bytes_Some [OF Some] by (metis append_take_drop_id drop_drop add.commute)
    moreover have "find_bytes (take i remaining) needle = None"
      using Some find_window_first by (auto simp: find_bytes_def split: if_splits)
    ultimately show ?thesis
      using p Some by (intro exI [of _ "take i remaining # pieces"], cases pieces)
        (auto simp: replace_loop.simps [of remaining])
  qed
qed

text \<open>
  Replacing is exact: the input splits into pieces that do not contain the needle,
  joined by the needle, and the result is the same pieces joined by the replacement.  An empty
  needle leaves the input alone.
\<close>

theorem replace_bytes_pieces:
  "if needle = [] then replace_bytes haystack needle replacement = haystack
   else \<exists>pieces. pieces \<noteq> [] \<and> haystack = join_with needle pieces \<and>
     replace_bytes haystack needle replacement = join_with replacement pieces \<and>
     list_all (\<lambda>p. find_bytes p needle = None) pieces"
proof (cases "needle = []")
  case True
  then show ?thesis by (simp add: replace_bytes_def replace_loop.simps find_bytes_def)
next
  case False
  then show ?thesis
    using replace_loop_pieces [of needle haystack replacement "[]"]
    by (simp add: replace_bytes_def list_all_iff)
qed

section \<open>Independence from the secrets of other hosts\<close>

text \<open>
  Two lists of secrets look the same to a host when they differ at most in the values of
  secrets whose scope does not contain it.
\<close>

definition same_for_host :: "bytes \<Rightarrow> runtime_secrets \<Rightarrow> runtime_secrets \<Rightarrow> bool" where
  "same_for_host host = list_all2 (\<lambda>b b'. placeholder b = placeholder b' \<and> scope b = scope b' \<and>
     (secret_allows_authority b (authority_new host) \<longrightarrow> secret_value b = secret_value b'))"

lemma same_for_host_cases:
  assumes "same_for_host host s s'"
  obtains (Nil) "s = []" "s' = []"
  | (Cons) b bs b' bs' where "s = b # bs" "s' = b' # bs'" "same_for_host host bs bs'"
      "placeholder b' = placeholder b"
      "secret_allows_authority b' (authority_new host) = secret_allows_authority b (authority_new host)"
      "secret_allows_authority b (authority_new host) \<Longrightarrow> secret_value b' = secret_value b"
proof (cases s)
  case (Cons b bs)
  then obtain b' bs' where "s' = b' # bs'"
    using assms by (cases s') (auto simp: same_for_host_def)
  moreover from this have "same_for_host host bs bs'" "placeholder b' = placeholder b" "scope b' = scope b"
      "secret_allows_authority b (authority_new host) \<Longrightarrow> secret_value b' = secret_value b"
    using assms Cons by (auto simp: same_for_host_def)
  ultimately show thesis
    using Cons that(2) by (simp add: secret_allows_authority_def)
qed (use assms that(1) in \<open>auto simp: same_for_host_def\<close>)

lemma substitute_loop_same:
  "same_for_host host s s' \<Longrightarrow> substitute_loop host payload s out = substitute_loop host payload s' out"
proof (induction s arbitrary: s' out)
  case (Cons b bs)
  from Cons.prems show ?case
    by (cases rule: same_for_host_cases) (auto simp: Let_def Cons.IH split: Option.bind_split)
qed (auto elim: same_for_host_cases)

lemma substitute_body_loop_same:
  "same_for_host host s s' \<Longrightarrow> substitute_body_loop host payload s out = substitute_body_loop host payload s' out"
proof (induction s arbitrary: s' out)
  case (Cons b bs)
  from Cons.prems show ?case
    by (cases rule: same_for_host_cases) (auto simp: Let_def Cons.IH split: Option.bind_split)
qed (auto elim: same_for_host_cases)

lemma ensure_same:
  "same_for_host host s s' \<Longrightarrow>
    ensure_no_placeholders_for_disallowed_host s host payload = ensure_no_placeholders_for_disallowed_host s' host payload"
proof (induction s arbitrary: s')
  case (Cons b bs)
  from Cons.prems show ?case
    by (cases rule: same_for_host_cases) (auto simp: Cons.IH split: Option.bind_split)
qed (auto elim: same_for_host_cases)

lemma substitute_same:
  assumes "same_for_host host s s'"
  shows "substitute_bytes_for_host s host = substitute_bytes_for_host s' host"
    and "substitute_body_bytes_for_host s host = substitute_body_bytes_for_host s' host"
    and "ensure_no_placeholders_for_disallowed_host s host = ensure_no_placeholders_for_disallowed_host s' host"
  using substitute_loop_same [OF assms] substitute_body_loop_same [OF assms] ensure_same [OF assms]
  by (auto simp: substitute_bytes_for_host_def substitute_body_bytes_for_host_def)

lemma substitute_line_same:
  assumes "same_for_host host s s'"
  shows "substitute_basic_auth_header_line_for_host s host = substitute_basic_auth_header_line_for_host s' host"
  by (intro ext) (simp only: substitute_basic_auth_header_line_for_host_def substitute_token_def
      substitute_same [OF assms])

lemma basic_auth_lines_same:
  "same_for_host host s s' \<Longrightarrow>
    basic_auth_lines s host before rest out scratch = basic_auth_lines s' host before rest out scratch"
proof (induction s host before rest out scratch rule: basic_auth_lines.induct)
  case (1 s host before rest out scratch)
  note IH = "1.IH" [unfolded substitute_line_same [OF "1.prems"], OF _ refl]
  show ?case
    unfolding basic_auth_lines.simps [of s host before] basic_auth_lines.simps [of s' host before]
      substitute_line_same [OF "1.prems"] Let_def
    using IH "1.prems" by (auto split: Option.bind_split result.split option.split)
qed

lemma substitute_headers_same:
  assumes "same_for_host host s s'"
  shows "substitute_http_header_bytes_for_host s host = substitute_http_header_bytes_for_host s' host"
proof -
  have "substitute_basic_auth_headers_for_host s host = substitute_basic_auth_headers_for_host s' host"
    using basic_auth_lines_same [OF assms] by (intro ext) (simp add: substitute_basic_auth_headers_for_host_def)
  then show ?thesis
    by (intro ext) (simp only: substitute_http_header_bytes_for_host_def substitute_same [OF assms])
qed

end
