(* ===== verification/RawHeaders.thy ===== *)
theory RawHeaders
  imports Raw
begin

text \<open>
  No header block leaves with an unresolved placeholder.  The check in
  \<open>substitute_bytes_for_host\<close> runs before the \<open>Basic\<close> tokens are rewritten, so this needs an
  argument: a rewritten token stands between bytes that do not occur in the prefix of a
  placeholder, and base64 text has no underscore.
\<close>

definition resolved :: "bytes \<Rightarrow> bool" where
  "resolved s \<longleftrightarrow> find_bytes s SECRET_PLACEHOLDER_PREFIX = None"

lemma prefix_nonempty [simp]: "SECRET_PLACEHOLDER_PREFIX \<noteq> []"
  by (simp add: SECRET_PLACEHOLDER_PREFIX_def byte_string_def)

lemma resolved_iff: "resolved s \<longleftrightarrow> (\<nexists>a c. s = a @ SECRET_PLACEHOLDER_PREFIX @ c)"
  by (simp add: resolved_def find_bytes_def find_window_None_iff)

text \<open>The bytes that end a stretch in which a placeholder may stand.\<close>

definition separator :: "u8 \<Rightarrow> bool" where
  "separator b \<longleftrightarrow> b \<in> {32, 9, 10, 13}"

lemma separator_not_in_prefix: "separator b \<Longrightarrow> b \<notin> set SECRET_PLACEHOLDER_PREFIX"
  by (auto simp: separator_def SECRET_PLACEHOLDER_PREFIX_def byte_string_def)

lemma occurrence_apart:
  assumes "b \<notin> set p" "p \<noteq> []"
  shows "(\<exists>a c. xs @ b # ys = a @ p @ c) \<longleftrightarrow> (\<exists>a c. xs = a @ p @ c) \<or> (\<exists>a c. ys = a @ p @ c)"
proof
  assume "\<exists>a c. xs @ b # ys = a @ p @ c"
  then obtain a c where e: "xs @ b # ys = a @ p @ c" by blast
  consider us where "xs = a @ us" "us @ b # ys = p @ c" | us where "xs @ us = a" "b # ys = us @ p @ c"
    using e by (auto simp: append_eq_append_conv2)
  then show "(\<exists>a c. xs = a @ p @ c) \<or> (\<exists>a c. ys = a @ p @ c)"
  proof cases
    case 1
    then obtain vs where "us = p @ vs \<or> us @ vs = p \<and> b # ys = vs @ c"
      by (auto simp: append_eq_append_conv2)
    then consider "xs = a @ p @ vs" | "xs = a @ p @ []" | "b \<in> set p"
      using 1(1) by (cases vs) auto
    then show ?thesis using assms(1) by cases blast+
  next
    case 2
    then show ?thesis using assms by (cases us) (auto simp: Cons_eq_append_conv)
  qed
next
  assume "(\<exists>a c. xs = a @ p @ c) \<or> (\<exists>a c. ys = a @ p @ c)"
  then show "\<exists>a c. xs @ b # ys = a @ p @ c"
  proof (elim disjE exE)
    fix a c assume "xs = a @ p @ c"
    then have "xs @ b # ys = a @ p @ (c @ b # ys)" by simp
    then show ?thesis by blast
  next
    fix a c assume "ys = a @ p @ c"
    then have "xs @ b # ys = (xs @ b # a) @ p @ c" by simp
    then show ?thesis by blast
  qed
qed

lemma resolved_apart: "separator b \<Longrightarrow> resolved (xs @ b # ys) \<longleftrightarrow> resolved xs \<and> resolved ys"
  using occurrence_apart [OF separator_not_in_prefix prefix_nonempty] by (simp add: resolved_iff)

lemma resolved_append:
  assumes "xs = [] \<or> separator (last xs) \<or> ys = [] \<or> separator (hd ys)"
  shows "resolved (xs @ ys) \<longleftrightarrow> resolved xs \<and> resolved ys"
proof -
  have nil: "resolved []" by (simp add: resolved_iff)
  have l: "resolved (us @ [b]) \<longleftrightarrow> resolved us" if "separator b" for us b
    using resolved_apart [OF that, of us "[]"] nil by simp
  have h: "resolved (b # us) \<longleftrightarrow> resolved us" if "separator b" for us b
    using resolved_apart [OF that, of "[]" us] nil by simp
  consider "xs = []" | "ys = []" | us b where "xs = us @ [b]" "separator b" | us b where "ys = b # us" "separator b"
    using assms by (cases ys; cases xs rule: rev_cases) auto
  then show ?thesis
    by cases (auto simp: nil resolved_apart l h)
qed

subsection \<open>Base64 text\<close>

lemma alphabet_no_underscore: "v < 64 \<Longrightarrow> ALPHABET ! v \<noteq> 95"
proof -
  have "95 \<notin> set ALPHABET" by (simp add: ALPHABET_def byte_string_def)
  then show "v < 64 \<Longrightarrow> ALPHABET ! v \<noteq> 95" by (metis length_ALPHABET nth_mem)
qed

lemma b64_no_underscore: "95 \<notin> set (b64_encode xs)"
  by (induction xs rule: b64_encode.induct)
    (auto simp: b64_chars_def sextets_def PAD_def alphabet_no_underscore sx_small dest!: sym [of 95])

lemma resolved_b64: "resolved (b64_encode xs)"
proof -
  have "95 \<in> set SECRET_PLACEHOLDER_PREFIX" by (simp add: SECRET_PLACEHOLDER_PREFIX_def byte_string_def)
  then show ?thesis using b64_no_underscore [of xs] by (auto simp: resolved_iff)
qed

subsection \<open>One line\<close>

lemma trim_end_from_props:
  assumes "trim_ascii_whitespace_end_from input start stop = Some e" "start \<le> stop" "stop \<le> length input"
  shows "start \<le> e \<and> e \<le> stop \<and> (\<forall>i. e \<le> i \<longrightarrow> i < stop \<longrightarrow> separator (input ! i))"
  using assms
proof (induction input start stop rule: trim_ascii_whitespace_end_from.induct)
  case (1 input start stop)
  show ?case
  proof (cases "start < stop \<and> (input ! (stop - 1) = 32 \<or> input ! (stop - 1) = 9)")
    case True
    then have r: "rd input (stop - 1) = Some (input ! (stop - 1))"
      using 1(4) by (simp add: rd_def less_le_trans [OF diff_less])
    then have "trim_ascii_whitespace_end_from input start (stop - 1) = Some e"
      using 1(2) True by (simp add: trim_ascii_whitespace_end_from.simps [of input start stop])
    then have "start \<le> e \<and> e \<le> stop - 1 \<and> (\<forall>i. e \<le> i \<longrightarrow> i < stop - 1 \<longrightarrow> separator (input ! i))"
      using 1(1) [OF _ r] 1(4) True by auto
    moreover have "separator (input ! (stop - 1))" using True by (auto simp: separator_def)
    ultimately have "separator (input ! i)" if "e \<le> i" "i < stop" for i
      using that by (cases "i = stop - 1") auto
    then show ?thesis
      using \<open>start \<le> e \<and> e \<le> stop - 1 \<and> _\<close> by auto
  next
    case False
    then have "e = stop"
      using 1 by (auto simp: trim_ascii_whitespace_end_from.simps [of input start stop] rd_def split: if_splits)
    then show ?thesis using 1 by simp
  qed
qed

lemma basic_token_bounds_props:
  assumes "basic_token_bounds content = Some (Some (a, e))"
  shows "0 < a \<and> a \<le> e \<and> e \<le> length content \<and> separator (content ! (a - 1)) \<and>
    (e < length content \<longrightarrow> separator (content ! e))"
proof -
  obtain colon where c: "position (\<lambda>b. b = 58) content = Some colon"
    using assms by (auto simp: basic_token_bounds_def split: option.splits)
  define v where "v = skip_blanks content (colon + 1)"
  have v: "v + 6 \<le> length content" "eq_ignore_ascii_case (take 6 (drop v content)) (byte_string ''Basic '')"
      "a = v + 6" "trim_ascii_whitespace_end content (v + 6) = Some e"
    using assms c unfolding basic_token_bounds_def v_def [symmetric] c option.case
    by (auto simp: Let_def slice_def v_def [symmetric] split: if_splits Option.bind_splits)
  have "to_ascii_lowercase_byte (content ! (v + 5)) = 32"
  proof -
    have "to_ascii_lowercase (take 6 (drop v content)) ! 5 = to_ascii_lowercase (byte_string ''Basic '') ! 5"
      using v(2) by (simp add: eq_ignore_ascii_case_def)
    then show ?thesis
      using v(1) by (simp add: to_ascii_lowercase_def byte_string_def to_ascii_lowercase_byte_def split: if_splits)
  qed
  moreover have "a - 1 = v + 5" using v(3) by simp
  ultimately have "content ! (a - 1) = 32"
    by (auto simp: to_ascii_lowercase_byte_def word_le_nat_alt word_unat_eq_iff unat_word_ariths split: if_splits)
  then show ?thesis
    using trim_end_from_props [OF v(4) [unfolded trim_ascii_whitespace_end_def]] v by (auto simp: separator_def)
qed

lemma length_resize_zeroed [simp]: "length (resize_zeroed n xs) = n"
  by (simp add: resize_zeroed_def)

lemma substitute_token_encodes:
  assumes "substitute_token s host token scratch = Some (scratch', Ok (Some encoded))"
  shows "\<exists>xs. encoded = b64_encode xs"
proof -
  obtain substituted old k buf where
      "encode substituted (resize_zeroed (encoded_len (length substituted)) old) = Some (Some k, buf)"
      "slice buf 0 k = Some encoded"
    using assms unfolding substitute_token_def
    by (auto simp: Let_def split: option.splits Option.bind_splits prod.splits result.splits cow.splits)
  then have "encoded = b64_encode substituted"
    using encode_outcome [of substituted "resize_zeroed (encoded_len (length substituted)) old"]
      b64.text_length [of substituted]
    by (auto simp: slice_def)
  then show ?thesis by blast
qed

lemma line_ending:
  "drop (line_content_len line) line = [] \<or> separator (hd (drop (line_content_len line) line))"
  "line \<noteq> [] \<Longrightarrow> last line = 10 \<Longrightarrow> drop (line_content_len line) line \<noteq> []"
proof -
  show "drop (line_content_len line) line = [] \<or> separator (hd (drop (line_content_len line) line))"
    by (auto simp: line_content_len_def ends_with_def separator_def numeral_2_eq_2)
  assume l: "line \<noteq> []" "last line = 10"
  then have "drop (length line - 1) line = [10]"
    by (metis append_butlast_last_id append_eq_conv_conj length_butlast)
  then have "ends_with line [10]" using l by (cases line) (auto simp: ends_with_def)
  then show "drop (line_content_len line) line \<noteq> []"
    using l by (auto simp: line_content_len_def ends_with_def)
qed

lemma substitute_line_shape:
  assumes "substitute_basic_auth_header_line_for_host s host line scratch = Some (scratch', Ok (Some l))"
  obtains before token xs after where "line = before @ token @ after" "l = before @ b64_encode xs @ after"
    "before \<noteq> []" "separator (last before)" "after = [] \<or> separator (hd after)"
    "line \<noteq> [] \<and> last line = 10 \<longrightarrow> after \<noteq> []"
proof -
  define content where "content = take (line_content_len line) line"
  define ending where "ending = drop (line_content_len line) line"
  have line: "line = content @ ending" by (simp add: content_def ending_def)
  obtain a e token encoded where b: "basic_token_bounds content = Some (Some (a, e))"
      and t: "slice content a e = Some token"
      and k: "substitute_token s host token scratch = Some (scratch', Ok (Some encoded))"
      and l: "l = take a content @ encoded @ drop e content @ ending"
    using assms unfolding substitute_basic_auth_header_line_for_host_def Let_def
      content_def [symmetric] ending_def [symmetric]
    by (auto split: option.splits Option.bind_splits prod.splits result.splits)
  note p = basic_token_bounds_props [OF b]
  obtain xs where "encoded = b64_encode xs" using substitute_token_encodes [OF k] by blast
  moreover have "line = take a content @ token @ (drop e content @ ending)"
    using t p by (simp add: line slice_def split: if_splits)
      (metis append.assoc append_take_drop_id drop_drop le_add_diff_inverse2 take_add add.commute)
  moreover have "take a content \<noteq> []" "separator (last (take a content))"
    using p last_conv_nth [of "take a content"] by (cases "content = []"; auto simp: min_absorb2)+
  moreover have "drop e content @ ending = [] \<or> separator (hd (drop e content @ ending))"
    using p line_ending(1) [of line] by (auto simp: ending_def hd_append hd_drop_conv_nth)
  moreover have "line \<noteq> [] \<and> last line = 10 \<longrightarrow> drop e content @ ending \<noteq> []"
    using line_ending(2) [of line] by (simp add: ending_def)
  ultimately show thesis using that l by metis
qed

lemma resolved_line:
  assumes "substitute_basic_auth_header_line_for_host s host line scratch = Some (scratch', Ok (Some l))"
    and "resolved (done' @ line @ rest)" and "line \<noteq> [] \<and> last line = 10 \<or> rest = []"
  shows "resolved (done' @ l @ rest)"
  using substitute_line_shape [OF assms(1)]
proof cases
  case (1 before token xs after)
  have after: "after @ rest = [] \<or> separator (hd (after @ rest))"
    using 1(5,6) assms(3) by auto
  have "resolved ((done' @ before) @ token @ after @ rest)"
    using assms(2) 1(1) by simp
  then have "resolved (done' @ before)" "resolved (token @ after @ rest)"
    using resolved_append [of "done' @ before"] 1(3,4) by auto
  then have "resolved (after @ rest)" using resolved_append after by blast
  then have "resolved (b64_encode xs @ after @ rest)" using resolved_append after resolved_b64 by blast
  then have "resolved ((done' @ before) @ b64_encode xs @ after @ rest)"
    using resolved_append [of "done' @ before"] \<open>resolved (done' @ before)\<close> 1(3,4) by auto
  then show ?thesis using 1(2) by simp
qed

subsection \<open>All lines\<close>

lemma basic_auth_lines_resolved:
  assumes "basic_auth_lines s host before rest out scratch = Some (scratch', Ok (Some result))"
    and "resolved (current_of out before @ rest)"
  shows "resolved result"
  using assms
proof (induction s host before rest out scratch rule: basic_auth_lines.induct)
  case (1 s host before rest out scratch)
  show ?case
  proof (cases "rest = []")
    case True
    then show ?thesis using "1.prems" by (simp add: basic_auth_lines.simps [of s host before "[]" out scratch] current_of_def)
  next
    case False
    define line where "line = take (line_end rest) rest"
    have "substitute_basic_auth_header_line_for_host s host line scratch \<bind> (\<lambda>(scratch, r).
          case r of
            Err e \<Rightarrow> Some (scratch, Err e)
          | Ok (Some l) \<Rightarrow> basic_auth_lines s host (before @ line) (drop (line_end rest) rest)
               (Some (current_of out before @ l)) scratch
          | Ok None \<Rightarrow> basic_auth_lines s host (before @ line) (drop (line_end rest) rest)
               (map_option (\<lambda>o'. o' @ line) out) scratch) = Some (scratch', Ok (Some result))"
      using "1.prems"(1) False unfolding basic_auth_lines.simps [of s host before rest out scratch] Let_def line_def by simp
    note step = this
    obtain scratch1 r where r: "substitute_basic_auth_header_line_for_host s host line scratch = Some (scratch1, Ok r)"
    proof -
      obtain scratch1 r0 where r0: "substitute_basic_auth_header_line_for_host s host line scratch = Some (scratch1, r0)"
        using step by (cases "substitute_basic_auth_header_line_for_host s host line scratch") auto
      then show thesis using step that by (cases r0) auto
    qed
    have rest: "rest = line @ drop (line_end rest) rest" by (simp add: line_def)
    have ends: "line \<noteq> [] \<and> last line = 10 \<or> drop (line_end rest) rest = []"
      using False position_less [of "\<lambda>b. b = 10" rest]
      by (auto simp: line_def line_end_def last_conv_nth min_absorb2 position_Some split: option.splits)
    show ?thesis
    proof (cases r)
      case None
      then show ?thesis
        using "1.IH"(1) [OF False line_def r refl refl] step [unfolded r] "1.prems"(2) rest
        by (cases out) (simp_all add: current_of_def)
    next
      case (Some l)
      have "resolved ((current_of out before @ l) @ drop (line_end rest) rest)"
        using resolved_line [OF r [unfolded Some], of "current_of out before"] ends "1.prems"(2) rest by simp
      then show ?thesis
        using "1.IH"(2) [OF False line_def r refl refl] step [unfolded r] Some by (simp add: current_of_def)
    qed
  qed
qed

text \<open>
  Claim C2.  A header block that the substitution lets through holds no unresolved secret
  placeholder, in the text itself and after the \<open>Basic\<close> authorization tokens were rewritten.
\<close>

theorem header_substitution_resolved:
  "case substitute_http_header_bytes_for_host bindings host headers scratch of
     Some (scratch', Ok result) \<Rightarrow> find_bytes (cow_bytes result) SECRET_PLACEHOLDER_PREFIX = None
   | _ \<Rightarrow> True"
proof -
  have raw: "resolved (cow_bytes raw)" if "substitute_bytes_for_host bindings host headers = Some (Ok raw)" for raw
    using that by (auto simp: substitute_bytes_for_host_def reject_unresolved_secret_placeholders_def resolved_def
        Let_def split: Option.bind_splits result.splits if_splits)
  have basic: "resolved d" if "substitute_basic_auth_headers_for_host bindings host hs scr = Some (scr', Ok (Some d))"
      "resolved hs" for hs scr scr' d
    using that basic_auth_lines_resolved [of bindings host "[]" hs None scr scr' d]
    by (simp add: substitute_basic_auth_headers_for_host_def current_of_def)
  have "resolved (cow_bytes (case raw of Borrowed _ \<Rightarrow> Borrowed headers | Owned h \<Rightarrow> Owned h))"
    if "substitute_bytes_for_host bindings host headers = Some (Ok raw)" for raw
    using raw [OF that] that
    by (auto simp: substitute_bytes_for_host_def Let_def cow_of_def split: cow.splits Option.bind_splits result.splits option.splits)
  then show ?thesis
    using raw basic unfolding substitute_http_header_bytes_for_host_def resolved_def [symmetric]
    by (auto split: Option.bind_splits result.splits option.splits prod.splits)
qed

section \<open>Absence of panics\<close>

definition placeholders_nonempty :: "runtime_secrets \<Rightarrow> bool" where
  "placeholders_nonempty bindings = list_all (\<lambda>b. placeholder b \<noteq> []) bindings"

lemma substitute_loop_total: "placeholders_nonempty s \<Longrightarrow> substitute_loop host payload s out \<noteq> None"
  unfolding placeholders_nonempty_def
  by (induction s arbitrary: out) (auto simp: Let_def windows_any_def)

lemma substitute_body_total: "placeholders_nonempty s \<Longrightarrow> substitute_body_bytes_for_host s host payload \<noteq> None"
proof -
  have "list_all (\<lambda>b. placeholder b \<noteq> []) s \<Longrightarrow> substitute_body_loop host payload s out \<noteq> None" for out
    by (induction s arbitrary: out) (auto simp: Let_def windows_any_def)
  then show "placeholders_nonempty s \<Longrightarrow> substitute_body_bytes_for_host s host payload \<noteq> None"
    unfolding placeholders_nonempty_def substitute_body_bytes_for_host_def by simp
qed

lemma ensure_total: "placeholders_nonempty s \<Longrightarrow> ensure_no_placeholders_for_disallowed_host s host payload \<noteq> None"
  unfolding placeholders_nonempty_def
  by (induction s) (auto simp: windows_any_def)

lemma substitute_bytes_total: "placeholders_nonempty s \<Longrightarrow> substitute_bytes_for_host s host payload \<noteq> None"
  using substitute_loop_total [of s host payload None] by (auto simp: substitute_bytes_for_host_def)

lemma trim_end_from_total: "stop \<le> length input \<Longrightarrow> trim_ascii_whitespace_end_from input start stop \<noteq> None"
proof (induction input start stop rule: trim_ascii_whitespace_end_from.induct)
  case (1 input start stop)
  then show ?case
    by (subst trim_ascii_whitespace_end_from.simps) (auto simp: rd_def less_le_trans [OF diff_less])
qed

lemma skip_blanks_bound: "i \<le> length content \<Longrightarrow> skip_blanks content i \<le> length content"
proof (induction content i rule: skip_blanks.induct)
  case (1 content i)
  then show ?case by (subst skip_blanks.simps) auto
qed

lemma basic_token_bounds_total: "basic_token_bounds content \<noteq> None"
proof (cases "position (\<lambda>b. b = 58) content")
  case (Some colon)
  then have "skip_blanks content (colon + 1) \<le> length content"
    using position_less [OF Some] skip_blanks_bound by simp
  then show ?thesis
    using trim_end_from_total [of "length content" content "skip_blanks content (colon + 1) + 6"]
    by (auto simp: basic_token_bounds_def Some Let_def slice_def trim_ascii_whitespace_end_def)
qed (simp add: basic_token_bounds_def)

text \<open>The decoder reports no more bytes than its buffer has, and the encoder finds its buffer large enough.\<close>

lemma decode_sized:
  assumes "decode token out = Some (Some m, buf)"
  shows "m \<le> length buf"
proof -
  obtain n bs where "decoded_len token = Some n" "n \<le> length out" "b64_decode token = Some bs" "m = length bs"
      "length buf = length out"
    using decode_outcome [of token out] assms
    by (cases "b64_decode token") (auto split: option.splits if_splits)
  then show ?thesis using b64_decode_decoded_len [of token bs] by simp
qed

lemma substitute_token_total: "placeholders_nonempty s \<Longrightarrow> substitute_token s host token scratch \<noteq> None"
proof (cases "decoded_len token")
  case (Some n)
  assume p: "placeholders_nonempty s"
  obtain r buf where d: "decode token (resize_zeroed n (scratch_decoded scratch)) = Some (r, buf)"
    using decode_outcome [of token "resize_zeroed n (scratch_decoded scratch)"] by blast
  show ?thesis
  proof (cases r)
    case (Some m)
    then have "slice buf 0 m = Some (take m buf)" using decode_sized d by (simp add: slice_def)
    moreover obtain q where "substitute_bytes_for_host s host (take m buf) = Some q"
      using substitute_bytes_total [OF p] by blast
    moreover have "encode xs (resize_zeroed (encoded_len (length xs)) old) =
        Some (Some (encoded_len (length xs)), b64_encode xs)" for xs old
      using b64.presized_enc [of "resize_zeroed (encoded_len (length xs)) old" xs] by simp
    ultimately show ?thesis
      using b64.text_length
      by (auto simp: substitute_token_def \<open>decoded_len token = Some n\<close> d Some Let_def slice_def
          split: result.splits cow.splits)
  qed (simp add: substitute_token_def Some d Let_def)
qed (simp add: substitute_token_def)

lemma substitute_line_total:
  assumes "placeholders_nonempty s"
  shows "substitute_basic_auth_header_line_for_host s host line scratch \<noteq> None"
proof -
  define content where "content = take (line_content_len line) line"
  obtain b where b: "basic_token_bounds content = Some b" using basic_token_bounds_total by blast
  show ?thesis
  proof (cases b)
    case (Some ae)
    obtain a e where ae: "ae = (a, e)" by (cases ae)
    have "slice content a e = Some (take (e - a) (drop a content))"
      using basic_token_bounds_props [of content a e] b Some ae by (simp add: slice_def)
    moreover obtain q where "substitute_token s host (take (e - a) (drop a content)) scratch = Some q"
      using substitute_token_total [OF assms] by blast
    ultimately show ?thesis
      using b Some ae
      by (simp add: substitute_basic_auth_header_line_for_host_def Let_def content_def [symmetric] split_beta)
  qed (use b in \<open>simp add: substitute_basic_auth_header_line_for_host_def Let_def content_def [symmetric]\<close>)
qed

lemma basic_auth_lines_total:
  assumes "placeholders_nonempty s"
  shows "basic_auth_lines s host before rest out scratch \<noteq> None"
  using assms
proof (induction s host before rest out scratch rule: basic_auth_lines.induct)
  case (1 s host before rest out scratch)
  show ?case
  proof (cases "rest = []")
    case False
    define line where "line = take (line_end rest) rest"
    obtain scratch1 r where r: "substitute_basic_auth_header_line_for_host s host line scratch = Some (scratch1, r)"
      using substitute_line_total [OF "1.prems"] by fastforce
    note IH = "1.IH" [OF False line_def r refl _ _ "1.prems"]
    show ?thesis
      unfolding basic_auth_lines.simps [of s host before rest out scratch] Let_def line_def [symmetric] r
      using False IH by (auto split: result.splits option.splits)
  qed (simp add: basic_auth_lines.simps [of s host before "[]" out scratch])
qed

lemma substitute_headers_total:
  assumes "placeholders_nonempty s"
  shows "substitute_http_header_bytes_for_host s host headers scratch \<noteq> None"
proof -
  obtain r where r: "substitute_bytes_for_host s host headers = Some r"
    using substitute_bytes_total [OF assms] by blast
  show ?thesis
  proof (cases r)
    case (Ok raw)
    obtain q where "basic_auth_lines s host [] (cow_bytes raw) None scratch = Some q"
      using basic_auth_lines_total [OF assms] by blast
    then show ?thesis
      by (simp add: substitute_http_header_bytes_for_host_def substitute_basic_auth_headers_for_host_def r Ok split_beta)
  qed (simp add: substitute_http_header_bytes_for_host_def r)
qed

end
