(* ===== verification/Http1Text.thy ===== *)
theory Http1Text
  imports Policy
begin

text \<open>
  Reading HTTP/1 header blocks, after the free functions of \<open>application/http1.rs\<close>,
  \<open>websocket.rs\<close>, \<open>grpc.rs\<close> and \<open>http2.rs\<close>: recognising requests and upgrades, content length
  and transfer coding, the authority a request names, and the guard against GitHub workflow
  dispatches.
\<close>

definition CRLFCRLF :: bytes where
  "CRLFCRLF = [13, 10, 13, 10]"

definition header_boundary :: "bytes \<Rightarrow> nat option" where
  "header_boundary data = find_window CRLFCRLF data"

fun find_map :: "('a \<Rightarrow> 'b option) \<Rightarrow> 'a list \<Rightarrow> 'b option" where
  "find_map f [] = None"
| "find_map f (x # xs) = (case f x of None \<Rightarrow> find_map f xs | Some y \<Rightarrow> Some y)"

definition header_value_text :: "bytes \<Rightarrow> bytes \<Rightarrow> bytes option" where
  "header_value_text headers expected_name =
     find_map (\<lambda>line. split_once 58 line \<bind> (\<lambda>(name, val).
       if eq_ignore_ascii_case name expected_name then Some (trim val) else None)) (lines_of headers)"

definition header_value :: "bytes \<Rightarrow> bytes \<Rightarrow> bytes option" where
  "header_value headers expected_name =
     from_utf8 headers \<bind> (\<lambda>headers. header_value_text headers expected_name)"

definition is_token_byte :: "u8 \<Rightarrow> bool" where
  "is_token_byte b \<longleftrightarrow>
     b \<in> set (byte_string ''!#$%&'' @ [39] @ byte_string ''*+-.^_`|~'') \<or>
     48 \<le> b \<and> b \<le> 57 \<or> 65 \<le> b \<and> b \<le> 90 \<or> 97 \<le> b \<and> b \<le> 122"

definition valid_http_token :: "bytes \<Rightarrow> bool" where
  "valid_http_token token \<longleftrightarrow> token \<noteq> [] \<and> list_all is_token_byte token"

definition http1_version :: "bytes \<Rightarrow> bool" where
  "http1_version version \<longleftrightarrow> version = byte_string ''HTTP/1.0'' \<or> version = byte_string ''HTTP/1.1''"

definition looks_like_http1 :: "bytes \<Rightarrow> bool" where
  "looks_like_http1 bs =
     (case from_utf8 bs of
        None \<Rightarrow> False
      | Some text \<Rightarrow>
         (case lines_of text of
            [] \<Rightarrow> False
          | line # _ \<Rightarrow>
             (case split_whitespace line of
                method # _ # version # _ \<Rightarrow> valid_http_token method \<and> http1_version version
              | _ \<Rightarrow> False)))"

definition is_protocol_upgrade :: "bytes \<Rightarrow> bool" where
  "is_protocol_upgrade headers =
     (case from_utf8 headers of
        None \<Rightarrow> False
      | Some headers \<Rightarrow>
         (case header_value_text headers (byte_string ''upgrade'') of
            None \<Rightarrow> False
          | Some val \<Rightarrow> eq_ignore_ascii_case (trim val) (byte_string ''websocket'')))"

definition is_websocket_upgrade_request :: "bytes \<Rightarrow> bool" where
  "is_websocket_upgrade_request bs \<longleftrightarrow> looks_like_http1 bs \<and> is_protocol_upgrade bs"

definition content_type_is_grpc :: "bytes \<Rightarrow> bool" where
  "content_type_is_grpc val =
     (case split_by (\<lambda>b. b = 59) val of
        [] \<Rightarrow> False
      | content_type # _ \<Rightarrow> eq_ignore_ascii_case (trim content_type) (byte_string ''application/grpc''))"

definition is_grpc_request :: "bytes \<Rightarrow> bool" where
  "is_grpc_request bs \<longleftrightarrow> looks_like_http1 bs \<and>
     (case header_value bs (byte_string ''content-type'') of None \<Rightarrow> False | Some v \<Rightarrow> content_type_is_grpc v)"

definition looks_like_h2c :: "bytes \<Rightarrow> bool" where
  "looks_like_h2c bs = starts_with bs (byte_string ''PRI * HTTP/2.0'' @ CRLFCRLF @ byte_string ''SM'' @ CRLFCRLF)"

definition is_switching_protocols_response :: "bytes \<Rightarrow> bool" where
  "is_switching_protocols_response headers =
     (case from_utf8 headers of
        None \<Rightarrow> False
      | Some headers \<Rightarrow>
         (case lines_of headers of
            [] \<Rightarrow> False
          | status_line # lines \<Rightarrow>
             (case split_whitespace status_line of
                version # status # _ \<Rightarrow>
                  version = byte_string ''HTTP/1.1'' \<and> status = byte_string ''101'' \<and>
                  list_ex (\<lambda>line. case split_once 58 line of
                      None \<Rightarrow> False
                    | Some (name, val) \<Rightarrow>
                       eq_ignore_ascii_case name (byte_string ''upgrade'') \<and>
                       eq_ignore_ascii_case (trim val) (byte_string ''websocket'')) lines
              | _ \<Rightarrow> False)))"

definition content_length :: "bytes \<Rightarrow> nat option" where
  "content_length headers =
     from_utf8 headers \<bind> (\<lambda>headers.
       find_map (\<lambda>line. split_once 58 line \<bind> (\<lambda>(name, val).
         if eq_ignore_ascii_case name (byte_string ''content-length'')
         then parse_radix 10 USIZE_LIMIT (trim val) else None)) (lines_of headers))"

text \<open>Whether some header of the given name lists the given element.\<close>

definition lists_element :: "bytes \<Rightarrow> bytes \<Rightarrow> bytes \<Rightarrow> bool" where
  "lists_element header element headers =
     (case from_utf8 headers of
        None \<Rightarrow> False
      | Some headers \<Rightarrow>
         list_ex (\<lambda>line. case split_once 58 line of
             None \<Rightarrow> False
           | Some (name, val) \<Rightarrow>
              eq_ignore_ascii_case name header \<and>
              list_ex (\<lambda>e. eq_ignore_ascii_case (trim e) element) (split_by (\<lambda>b. b = 44) val))
           (lines_of headers))"

definition is_chunked :: "bytes \<Rightarrow> bool" where
  "is_chunked = lists_element (byte_string ''transfer-encoding'') (byte_string ''chunked'')"

definition is_expect_continue :: "bytes \<Rightarrow> bool" where
  "is_expect_continue = lists_element (byte_string ''expect'') (byte_string ''100-continue'')"

section \<open>Authorities\<close>

definition normalize_host :: "bytes \<Rightarrow> bytes" where
  "normalize_host host = to_ascii_lowercase (trim_end_dots host)"

definition normalize_authority :: "bytes \<Rightarrow> bytes option" where
  "normalize_authority authority =
     (let authority = (case rsplit_once 64 authority of None \<Rightarrow> authority | Some (_, host) \<Rightarrow> host) in
      case strip_prefix authority [91] of
        Some rest \<Rightarrow>
          split_once 93 rest \<bind> (\<lambda>(host, _). Some (to_ascii_lowercase (trim_end_dots host)))
      | None \<Rightarrow>
         (let host = (case split_once 58 authority of None \<Rightarrow> authority | Some (host, _) \<Rightarrow> host) in
          if host \<noteq> [] then Some (normalize_host host) else None))"

definition scheme_separator :: bytes where
  "scheme_separator = byte_string ''://''"

definition absolute_form_host :: "bytes \<Rightarrow> bytes option" where
  "absolute_form_host target =
     find_window scheme_separator target \<bind> (\<lambda>i.
       let scheme = take i target; rest = drop (i + 3) target in
       if \<not> eq_ignore_ascii_case scheme (byte_string ''http'') \<and>
          \<not> eq_ignore_ascii_case scheme (byte_string ''https'')
       then None
       else normalize_authority (hd (split_by (\<lambda>b. b \<in> set [47, 63, 35]) rest)))"

datatype target_authority = OriginForm | TargetAuthority bytes

definition request_target_authority :: "bytes \<Rightarrow> bytes \<Rightarrow> target_authority option" where
  "request_target_authority method target =
     (if eq_ignore_ascii_case method (byte_string ''CONNECT'')
      then map_option TargetAuthority (normalize_authority target)
      else if find_window scheme_separator target = None then Some OriginForm
      else map_option TargetAuthority (absolute_form_host target))"

text \<open>The loop over the header lines: the outer \<open>None\<close> is the early \<open>return false\<close>.\<close>

fun host_header :: "bytes list \<Rightarrow> bytes option \<Rightarrow> bytes option option" where
  "host_header [] host = Some host"
| "host_header (line # lines) host =
     (case split_once 58 line of
        None \<Rightarrow> host_header lines host
      | Some (name, val) \<Rightarrow>
         if eq_ignore_ascii_case name (byte_string ''host'')
         then if host \<noteq> None then None else host_header lines (normalize_authority (trim val))
         else host_header lines host)"

definition request_authority_matches :: "bytes \<Rightarrow> bytes \<Rightarrow> bool" where
  "request_authority_matches headers expected_host =
     (case from_utf8 headers of
        None \<Rightarrow> False
      | Some headers \<Rightarrow>
         (case lines_of headers of
            [] \<Rightarrow> False
          | request_line # lines \<Rightarrow>
             (case split_whitespace request_line of
                [method, target, version] \<Rightarrow>
                  if \<not> valid_http_token method \<or> \<not> http1_version version then False
                  else (case host_header lines None of
                      None \<Rightarrow> False
                    | Some host \<Rightarrow>
                       (case request_target_authority method target of
                          None \<Rightarrow> False
                        | Some ta \<Rightarrow>
                           (let target_host = (case ta of OriginForm \<Rightarrow> None | TargetAuthority h \<Rightarrow> Some h) in
                            if host \<noteq> None \<and> target_host \<noteq> None \<and> host \<noteq> target_host then False
                            else (case target_host of
                                Some h \<Rightarrow> h = normalize_host expected_host
                              | None \<Rightarrow>
                                 (case host of None \<Rightarrow> False | Some h \<Rightarrow> h = normalize_host expected_host)))))
              | _ \<Rightarrow> False)))"

section \<open>The workflow dispatch guard\<close>

definition hex_value :: "u8 \<Rightarrow> u8 option" where
  "hex_value b =
     (if 48 \<le> b \<and> b \<le> 57 then Some (b - 48)
      else if 97 \<le> b \<and> b \<le> 102 then Some (b - 97 + 10)
      else if 65 \<le> b \<and> b \<le> 70 then Some (b - 65 + 10)
      else None)"

definition byte_eq_ignore_case :: "u8 \<Rightarrow> u8 \<Rightarrow> bool" where
  "byte_eq_ignore_case a b \<longleftrightarrow> to_ascii_lowercase_byte a = to_ascii_lowercase_byte b"

text \<open>The byte at the front and how many bytes of the input it takes.\<close>

definition percent_byte :: "bytes \<Rightarrow> (u8 \<times> nat) option" where
  "percent_byte input =
     (case input of
        [] \<Rightarrow> None
      | b # rest \<Rightarrow>
         if b = 37 then
           (case rest of
              h # l # _ \<Rightarrow>
                hex_value h \<bind> (\<lambda>high. hex_value l \<bind> (\<lambda>low. Some (push_bit 4 high OR low, 3)))
            | _ \<Rightarrow> None)
         else Some (b, 1))"

lemma percent_byte_step: "percent_byte input = Some (b, n) \<Longrightarrow> 0 < n \<and> n \<le> length input"
  by (auto simp: percent_byte_def split: list.splits if_splits Option.bind_splits)

function percent_decoded_eq :: "bytes \<Rightarrow> bytes \<Rightarrow> bool" where
  "percent_decoded_eq input expected =
     (if input = [] then expected = []
      else case percent_byte input of
        None \<Rightarrow> False
      | Some (b, consumed) \<Rightarrow>
         (case expected of
            [] \<Rightarrow> False
          | e # expected' \<Rightarrow>
             byte_eq_ignore_case b e \<and> percent_decoded_eq (drop consumed input) expected'))"
  by pat_completeness auto
termination
  by (relation "measure (\<lambda>(input, _). length input)") (auto dest!: percent_byte_step)

declare percent_decoded_eq.simps [simp del]

definition request_target_path :: "bytes \<Rightarrow> bytes option" where
  "request_target_path target =
     (if starts_with target [47] then Some target
      else find_window scheme_separator target \<bind> (\<lambda>scheme_end.
        let rest = drop (scheme_end + 3) target in
        case position (\<lambda>b. b \<in> set [47, 63, 35]) rest of
          Some i \<Rightarrow> if rest ! i = 47 then Some (drop i rest) else Some [47]
        | None \<Rightarrow> Some [47]))"

text \<open>The first line that is not empty, of the lines that end in a line feed.\<close>

function first_request_line :: "bytes \<Rightarrow> bytes option" where
  "first_request_line headers =
     (case position (\<lambda>b. b = 10) headers of
        None \<Rightarrow> None
      | Some line_len \<Rightarrow>
         (let line = take line_len headers;
              line = (case strip_suffix line [13] of None \<Rightarrow> line | Some l \<Rightarrow> l)
          in if line \<noteq> [] then Some line else first_request_line (drop (line_len + 1) headers)))"
  by pat_completeness auto
termination
  by (relation "measure length") (auto dest: position_less)

declare first_request_line.simps [simp del]

definition is_github_workflow_dispatch_request :: "bytes \<Rightarrow> bytes \<Rightarrow> bool" where
  "is_github_workflow_dispatch_request headers connection_host =
     (if normalize_host connection_host \<noteq> byte_string ''api.github.com'' then False
      else case first_request_line headers of
        None \<Rightarrow> False
      | Some request_line \<Rightarrow>
         (case filter (\<lambda>part. part \<noteq> []) (split_by is_ascii_whitespace request_line) of
            [method, target, version] \<Rightarrow>
              if \<not> eq_ignore_ascii_case method (byte_string ''POST'') \<or> \<not> http1_version version then False
              else (case request_target_path target of
                  None \<Rightarrow> False
                | Some path \<Rightarrow>
                   (let path_end = (case position (\<lambda>b. b \<in> set [63, 35]) path of None \<Rightarrow> length path | Some i \<Rightarrow> i) in
                    case split_by (\<lambda>b. b = 47) (take path_end path) of
                      [root, repos, owner, repo, actions, workflows, workflow_id, dispatches] \<Rightarrow>
                        root = [] \<and> percent_decoded_eq repos (byte_string ''repos'') \<and> owner \<noteq> [] \<and> repo \<noteq> [] \<and>
                        percent_decoded_eq actions (byte_string ''actions'') \<and>
                        percent_decoded_eq workflows (byte_string ''workflows'') \<and> workflow_id \<noteq> [] \<and>
                        percent_decoded_eq dispatches (byte_string ''dispatches'')
                    | _ \<Rightarrow> False))
          | _ \<Rightarrow> False))"

section \<open>Content length\<close>

text \<open>
  The digits of the value, least significant first, as the loop writes them into its buffer
  from the end; 39 places are more than the 20 digits of the largest \<open>usize\<close>.
\<close>

function decimal_digits :: "nat \<Rightarrow> bytes" where
  "decimal_digits n =
     (byte_string ''0123456789'' ! (n mod 10)) # (if n div 10 = 0 then [] else decimal_digits (n div 10))"
  by pat_completeness auto
termination
  by (relation "measure id") auto

declare decimal_digits.simps [simp del]

definition extend_decimal :: "bytes \<Rightarrow> nat \<Rightarrow> bytes" where
  "extend_decimal output n = output @ rev (decimal_digits n)"

text \<open>\<open>text.split("\r\n")\<close>.\<close>

function split_crlf :: "bytes \<Rightarrow> bytes list" where
  "split_crlf s =
     (case find_window [13, 10] s of
        None \<Rightarrow> [s]
      | Some i \<Rightarrow> take i s # split_crlf (drop (i + 2) s))"
  by pat_completeness auto
termination
  by (relation "measure length") (auto dest!: find_window_Some)

declare split_crlf.simps [simp del]

fun rewrite_lines :: "nat \<Rightarrow> nat \<Rightarrow> bytes list \<Rightarrow> bytes \<Rightarrow> bytes" where
  "rewrite_lines body_len index [] scratch = scratch"
| "rewrite_lines body_len index (line # lines) scratch =
     (let scratch = (if index > 0 then scratch @ [13, 10] else scratch);
          is_length = (case split_once 58 line of
              None \<Rightarrow> False | Some (name, _) \<Rightarrow> eq_ignore_ascii_case name (byte_string ''content-length''))
      in rewrite_lines body_len (Suc index) lines
        (if is_length then extend_decimal (scratch @ byte_string ''Content-Length: '') body_len
         else scratch @ line))"

text \<open>Both vectors are returned: they are swapped when the headers are text.\<close>

definition update_content_length :: "bytes \<Rightarrow> nat \<Rightarrow> bytes \<Rightarrow> bytes \<times> bytes" where
  "update_content_length headers body_len scratch =
     (case from_utf8 headers of
        None \<Rightarrow> (headers, scratch)
      | Some text \<Rightarrow> (rewrite_lines body_len 0 (split_crlf text) [], headers))"

end
