(* ===== verification/Http1Response.thy ===== *)
theory Http1Response
  imports Http1Text
begin

text \<open>
  The chunked-body parser and the tracker of HTTP/1 responses, after \<open>ChunkedParser\<close> and
  \<open>Http1ResponseTracker\<close> of \<open>application/http1.rs\<close>.  The tracker follows the framing of the
  responses so that an end of file can be told to be complete, incomplete or the end of a tunnel.
\<close>

abbreviation (input) RELAY_BUF_SIZE :: nat where "RELAY_BUF_SIZE \<equiv> 16384"

definition MAX_BUFFERED_HTTP_HEADERS :: nat where
  "MAX_BUFFERED_HTTP_HEADERS = 64 * 1024"

definition MAX_BUFFERED_HTTP_REQUEST :: nat where
  "MAX_BUFFERED_HTTP_REQUEST = 1024 * 1024"

text \<open>The errors, one constructor for each error the source builds.\<close>

datatype http_error =
    SecretPolicy policy_error
  | WorkflowDispatchBlocked
  | HeadersExceededLimit
  | RequestExceededLimit
  | ResponseHeadersExceededLimit
  | ChunkMetadataExceededLimit
  | ResponseNotText
  | EmptyResponse
  | MalformedStatusLine
  | UnsupportedResponseVersion
  | InvalidStatus

section \<open>Chunked bodies\<close>

datatype chunked_state =
    ChunkSize
  | ChunkData nat
  | ChunkDataCr
  | ChunkDataLf
  | ChunkTrailer
  | ChunkComplete

record chunked_parser =
  ch_state :: chunked_state
  ch_line :: bytes

definition chunked_default :: chunked_parser where
  "chunked_default = \<lparr> ch_state = ChunkSize, ch_line = [] \<rparr>"

definition ensure_chunk_scratch_limit :: "bytes \<Rightarrow> (unit, http_error) result" where
  "ensure_chunk_scratch_limit line =
     (if MAX_BUFFERED_HTTP_HEADERS < length line then Err ChunkMetadataExceededLimit else Ok ())"

definition parse_chunk_size :: "bytes \<Rightarrow> nat option" where
  "parse_chunk_size line =
     from_utf8 line \<bind> (\<lambda>line.
       parse_radix 16 USIZE_LIMIT (trim (hd (split_by (\<lambda>b. b = 59) (trim line)))))"

definition push_byte :: "chunked_parser \<Rightarrow> u8 \<Rightarrow> chunked_parser \<times> (unit, http_error) result" where
  "push_byte p b =
     (case ch_state p of
        ChunkSize \<Rightarrow>
          (let p = p\<lparr> ch_line := ch_line p @ [b] \<rparr> in
           case ensure_chunk_scratch_limit (ch_line p) of
             Err e \<Rightarrow> (p, Err e)
           | Ok _ \<Rightarrow>
              (if b = 10 then
                 (case parse_chunk_size (ch_line p) of
                    None \<Rightarrow> p\<lparr> ch_state := ChunkTrailer \<rparr>
                  | Some n \<Rightarrow>
                     p\<lparr> ch_line := [], ch_state := (if n = 0 then ChunkTrailer else ChunkData n) \<rparr>)
               else p, Ok ()))
      | ChunkData remaining \<Rightarrow>
          (p\<lparr> ch_state := (if remaining \<le> 1 then ChunkDataCr else ChunkData (remaining - 1)) \<rparr>, Ok ())
      | ChunkDataCr \<Rightarrow> (p\<lparr> ch_state := (if b = 13 then ChunkDataLf else ChunkTrailer) \<rparr>, Ok ())
      | ChunkDataLf \<Rightarrow> (p\<lparr> ch_state := (if b = 10 then ChunkSize else ChunkTrailer) \<rparr>, Ok ())
      | ChunkTrailer \<Rightarrow>
          (let p = p\<lparr> ch_line := ch_line p @ [b] \<rparr> in
           case ensure_chunk_scratch_limit (ch_line p) of
             Err e \<Rightarrow> (p, Err e)
           | Ok _ \<Rightarrow>
              (if ends_with (ch_line p) CRLFCRLF \<or> ch_line p = [13, 10]
               then p\<lparr> ch_state := ChunkComplete \<rparr> else p, Ok ()))
      | ChunkComplete \<Rightarrow> (p, Ok ()))"

fun consume_from :: "chunked_parser \<Rightarrow> bytes \<Rightarrow> nat \<Rightarrow> chunked_parser \<times> (nat \<times> bool, http_error) result" where
  "consume_from p [] consumed = (p, Ok (consumed, False))"
| "consume_from p (b # input) consumed =
     (case push_byte p b of
        (p, Err e) \<Rightarrow> (p, Err e)
      | (p, Ok _) \<Rightarrow>
         if ch_state p = ChunkComplete then (p, Ok (consumed + 1, True))
         else consume_from p input (consumed + 1))"

definition consume :: "chunked_parser \<Rightarrow> bytes \<Rightarrow> chunked_parser \<times> (nat \<times> bool, http_error) result" where
  "consume p input = consume_from p input 0"

lemma consume_from_bound:
  "consume_from p input n = (p', Ok (m, c)) \<Longrightarrow>
    n \<le> m \<and> m \<le> n + length input \<and> (\<not> c \<longrightarrow> m = n + length input) \<and> (input \<noteq> [] \<longrightarrow> n < m)"
proof (induction input arbitrary: p n)
  case (Cons b input)
  then show ?case
    by (fastforce split: prod.splits result.splits if_splits)
qed auto

lemma consume_bound:
  "consume p input = (p', Ok (m, c)) \<Longrightarrow>
    m \<le> length input \<and> (\<not> c \<longrightarrow> m = length input) \<and> (input \<noteq> [] \<longrightarrow> 0 < m)"
  unfolding consume_def by (drule consume_from_bound) auto

section \<open>Responses\<close>

datatype http1_response_request = HeadRequest | ConnectRequest | OtherRequest

datatype http1_response_eof = EofComplete | EofIncomplete | EofTunnel

datatype response_state =
    RespHeaders
  | RespFixed nat
  | RespChunked chunked_parser
  | RespCloseDelimited
  | RespTunnel

datatype response_body = NoBody | FixedBody nat | ChunkedBody | CloseDelimitedBody | TunnelBody

record response_tracker =
  rt_pending :: bytes
  rt_requests :: "http1_response_request list"
  rt_state :: response_state

definition tracker_new :: response_tracker where
  "tracker_new = \<lparr> rt_pending = [], rt_requests = [], rt_state = RespHeaders \<rparr>"

definition response_request :: "bytes \<Rightarrow> http1_response_request" where
  "response_request headers =
     (case from_utf8 headers of
        None \<Rightarrow> OtherRequest
      | Some headers \<Rightarrow>
         (case lines_of headers of
            [] \<Rightarrow> OtherRequest
          | line # _ \<Rightarrow>
             (case split_whitespace line of
                [] \<Rightarrow> OtherRequest
              | method # _ \<Rightarrow>
                 if eq_ignore_ascii_case method (byte_string ''HEAD'') then HeadRequest
                 else if eq_ignore_ascii_case method (byte_string ''CONNECT'') then ConnectRequest
                 else OtherRequest)))"

definition response_status :: "bytes \<Rightarrow> (nat, http_error) result" where
  "response_status headers =
     (case from_utf8 headers of
        None \<Rightarrow> Err ResponseNotText
      | Some headers \<Rightarrow>
         (case lines_of headers of
            [] \<Rightarrow> Err EmptyResponse
          | line # _ \<Rightarrow>
             (case split_whitespace line of
                version # status # _ \<Rightarrow>
                  if \<not> http1_version version then Err UnsupportedResponseVersion
                  else (case parse_radix 10 (2 ^ 16) status of
                      None \<Rightarrow> Err InvalidStatus
                    | Some s \<Rightarrow> Ok s)
              | _ \<Rightarrow> Err MalformedStatusLine)))"

definition response_body_of :: "http1_response_request \<Rightarrow> bytes \<Rightarrow> (response_body \<times> bool, http_error) result" where
  "response_body_of request headers =
     (case response_status headers of
        Err e \<Rightarrow> Err e
      | Ok status \<Rightarrow>
         if status = 101 then Ok (TunnelBody, True)
         else if 100 \<le> status \<and> status < 200 then Ok (NoBody, False)
         else if request = HeadRequest \<or> status = 204 \<or> status = 304 then Ok (NoBody, True)
         else if request = ConnectRequest \<and> 200 \<le> status \<and> status < 300 then Ok (TunnelBody, True)
         else if is_chunked headers then Ok (ChunkedBody, True)
         else (case content_length headers of
             Some n \<Rightarrow> Ok (FixedBody n, True)
           | None \<Rightarrow> Ok (CloseDelimitedBody, True)))"

definition expect_response_for :: "http1_response_request \<Rightarrow> response_tracker \<Rightarrow> response_tracker" where
  "expect_response_for request t = t\<lparr> rt_requests := rt_requests t @ [request] \<rparr>"

datatype 'e flow = Continue | Break | Fail 'e

text \<open>One round of the loop of \<open>flush_pending_responses\<close>, with the boundary it found.\<close>

definition flush_one_response :: "response_tracker \<Rightarrow> nat \<Rightarrow> response_tracker \<times> http_error flow" where
  "flush_one_response t boundary =
     (let body_offset = boundary + 4;
          headers = take body_offset (rt_pending t);
          request = (case rt_requests t of [] \<Rightarrow> OtherRequest | r # _ \<Rightarrow> r)
      in case response_body_of request headers of
        Err e \<Rightarrow> (t, Fail e)
      | Ok (body, consumes_request) \<Rightarrow>
         (let t = (if consumes_request then t\<lparr> rt_requests := tl (rt_requests t) \<rparr> else t);
              t = t\<lparr> rt_pending := drop body_offset (rt_pending t) \<rparr>
          in case body of
            NoBody \<Rightarrow> (t, Continue)
          | FixedBody len \<Rightarrow>
             (let n = min len (length (rt_pending t));
                  t = t\<lparr> rt_pending := drop n (rt_pending t) \<rparr>
              in if n < len then (t\<lparr> rt_state := RespFixed (len - n) \<rparr>, Break) else (t, Continue))
          | ChunkedBody \<Rightarrow>
             (case consume chunked_default (rt_pending t) of
                (_, Err e) \<Rightarrow> (t, Fail e)
              | (parser, Ok (n, complete)) \<Rightarrow>
                 (let t = t\<lparr> rt_pending := drop n (rt_pending t) \<rparr>
                  in if \<not> complete then (t\<lparr> rt_state := RespChunked parser \<rparr>, Break) else (t, Continue)))
          | CloseDelimitedBody \<Rightarrow> (t\<lparr> rt_state := RespCloseDelimited, rt_pending := [] \<rparr>, Break)
          | TunnelBody \<Rightarrow> (t\<lparr> rt_state := RespTunnel, rt_pending := [] \<rparr>, Break)))"

lemma header_boundary_bound: "header_boundary data = Some i \<Longrightarrow> i + 4 \<le> length data"
  unfolding header_boundary_def by (drule find_window_Some) (simp add: CRLFCRLF_def)

lemma flush_one_response_shrinks:
  assumes "header_boundary (rt_pending t) = Some boundary" "flush_one_response t boundary = (t', Continue)"
  shows "length (rt_pending t') < length (rt_pending t)"
  using header_boundary_bound [OF assms(1)] assms(2)
  by (auto simp: flush_one_response_def Let_def split: result.splits prod.splits response_body.splits if_splits)

function flush_pending_responses :: "response_tracker \<Rightarrow> response_tracker \<times> (unit, http_error) result" where
  "flush_pending_responses t =
     (case header_boundary (rt_pending t) of
        None \<Rightarrow> (t, Ok ())
      | Some boundary \<Rightarrow>
         (case flush_one_response t boundary of
            (t', Continue) \<Rightarrow> flush_pending_responses t'
          | (t', Break) \<Rightarrow> (t', Ok ())
          | (t', Fail e) \<Rightarrow> (t', Err e)))"
  by pat_completeness auto
termination
  by (relation "measure (\<lambda>t. length (rt_pending t))") (auto intro: flush_one_response_shrinks [OF _ sym])

declare flush_pending_responses.simps [simp del]

definition ensure_response_pending_limit :: "response_tracker \<Rightarrow> (unit, http_error) result" where
  "ensure_response_pending_limit t =
     (if header_boundary (rt_pending t) = None \<and> MAX_BUFFERED_HTTP_HEADERS < length (rt_pending t)
      then Err ResponseHeadersExceededLimit else Ok ())"

text \<open>The loop of \<open>observe\<close>; \<open>input\<close> is what the cursor has not passed.\<close>

function observe :: "response_tracker \<Rightarrow> bytes \<Rightarrow> response_tracker \<times> (unit, http_error) result" where
  "observe t input =
     (if input = [] then (t, Ok ())
      else case rt_state t of
        RespHeaders \<Rightarrow>
          (case flush_pending_responses (t\<lparr> rt_pending := rt_pending t @ input \<rparr>) of
             (t, Err e) \<Rightarrow> (t, Err e)
           | (t, Ok _) \<Rightarrow> (t, ensure_response_pending_limit t))
      | RespFixed remaining \<Rightarrow>
          (let n = min remaining (length input) in
           observe (t\<lparr> rt_state := (if remaining - n = 0 then RespHeaders else RespFixed (remaining - n)) \<rparr>)
             (drop n input))
      | RespChunked parser \<Rightarrow>
          (case consume parser input of
             (parser, Err e) \<Rightarrow> (t\<lparr> rt_state := RespChunked parser \<rparr>, Err e)
           | (parser, Ok (n, complete)) \<Rightarrow>
              (let t = t\<lparr> rt_state := (if complete then RespHeaders else RespChunked parser) \<rparr> in
               if n = 0 then (t, Ok ()) else observe t (drop n input)))
      | RespCloseDelimited \<Rightarrow> (t, Ok ())
      | RespTunnel \<Rightarrow> (t, Ok ()))"
  by pat_completeness auto
termination
  by (relation "measure (\<lambda>(t, input). 2 * length input + (if rt_state t = RespHeaders then 0 else 1))")
    (auto split: if_splits)

declare observe.simps [simp del]

definition eof_state :: "response_tracker \<Rightarrow> http1_response_eof" where
  "eof_state t =
     (case rt_state t of
        RespHeaders \<Rightarrow> if rt_pending t = [] \<and> rt_requests t = [] then EofComplete else EofIncomplete
      | RespCloseDelimited \<Rightarrow> if rt_requests t = [] then EofComplete else EofIncomplete
      | RespTunnel \<Rightarrow> EofTunnel
      | _ \<Rightarrow> EofIncomplete)"

end
