(* ===== verification/Http1Filter.thy ===== *)
theory Http1Filter
  imports RawHeaders Http1Response
begin

text \<open>
  The HTTP/1 request filter, after \<open>Http1Filter\<close> of \<open>application/http1.rs\<close>: requests are
  buffered up to their headers (and small bodies), checked, and emitted with the secrets of the
  connection's host substituted; larger bodies stream through.  A computation returns the filter
  and the output as they are when it ends, also when it ends with an error; the outer \<open>option\<close>
  is a panic.
\<close>

section \<open>State\<close>

datatype body_state = BodyHeaders | BodyFixed nat | BodyChunked chunked_parser | BodyRaw

datatype request_body_kind = ReqNone | ReqFixed nat | ReqChunked | ReqUpgrade

datatype secret_mode = ModeSubstitute | ModeNone

datatype body_mode = BodySubstitute | BodyHeadersOnly | BodyNone

record http1_filter =
  hf_secrets :: runtime_secrets
  hf_host :: bytes
  hf_pending :: bytes
  hf_header_rewrite :: header_rewrite_scratch
  hf_body :: body_state
  hf_upgrade_pending :: bool
  hf_response_tracker :: response_tracker
  hf_server_pending :: bytes

definition filter_new :: "runtime_secrets \<Rightarrow> bytes \<Rightarrow> http1_filter" where
  "filter_new s host =
     \<lparr> hf_secrets = s, hf_host = host, hf_pending = [], hf_header_rewrite = scratch_new,
       hf_body = BodyHeaders, hf_upgrade_pending = False, hf_response_tracker = tracker_new,
       hf_server_pending = [] \<rparr>"

section \<open>Substitution\<close>

fun body_mode_of :: "secret_mode \<Rightarrow> body_mode" where
  "body_mode_of ModeSubstitute = BodySubstitute"
| "body_mode_of ModeNone = BodyNone"

fun header_mode_of :: "secret_mode \<Rightarrow> body_mode" where
  "header_mode_of ModeSubstitute = BodyHeadersOnly"
| "header_mode_of ModeNone = BodyNone"

definition request_body :: "bytes \<Rightarrow> request_body_kind" where
  "request_body headers =
     (if is_protocol_upgrade headers then ReqUpgrade
      else if is_chunked headers then ReqChunked
      else case content_length headers of Some n \<Rightarrow> ReqFixed n | None \<Rightarrow> ReqNone)"

text \<open>The branch without a header boundary, which both substitutions share.\<close>

definition pass_without_headers ::
    "runtime_secrets \<Rightarrow> bytes \<Rightarrow> bytes \<Rightarrow> bytes \<Rightarrow> header_rewrite_scratch \<Rightarrow>
     (header_rewrite_scratch \<times> bytes \<times> (bool, http_error) result) option" where
  "pass_without_headers s host input out scratch =
     ensure_no_placeholders_for_disallowed_host s host input \<bind> (\<lambda>r. Some
       (case r of
          Err e \<Rightarrow> (scratch, out, Err (SecretPolicy e))
        | Ok _ \<Rightarrow> (scratch, out @ input, Ok (out @ input \<noteq> []))))"

definition substitute_http_request_for_host_into ::
    "runtime_secrets \<Rightarrow> bytes \<Rightarrow> bytes \<Rightarrow> bytes \<Rightarrow> header_rewrite_scratch \<Rightarrow>
     (header_rewrite_scratch \<times> bytes \<times> (bool, http_error) result) option" where
  "substitute_http_request_for_host_into s host input out scratch =
     (case header_boundary input of
        None \<Rightarrow> pass_without_headers s host input out scratch
      | Some boundary \<Rightarrow>
         (let body_offset = boundary + 4; headers = take body_offset input; body = drop body_offset input in
          substitute_http_header_bytes_for_host s host headers scratch \<bind> (\<lambda>(scratch, r).
            case r of
              Err e \<Rightarrow> Some (scratch, out, Err (SecretPolicy e))
            | Ok headers \<Rightarrow>
               substitute_body_bytes_for_host s host body \<bind> (\<lambda>body. Some
                 (case (headers, body) of
                    (Borrowed _, Borrowed _) \<Rightarrow> (scratch, out @ input, Ok (out @ input \<noteq> []))
                  | _ \<Rightarrow>
                     (let headers = cow_bytes headers; body = cow_bytes body;
                          (headers, rewrite) =
                            (if length body \<noteq> length input - body_offset
                             then update_content_length headers (length body) (scratch_rewrite scratch)
                             else (headers, scratch_rewrite scratch));
                          out = out @ headers @ body
                      in (scratch\<lparr> scratch_rewrite := rewrite \<rparr>, out, Ok (out \<noteq> []))))))))"

definition substitute_http_headers_for_host_into ::
    "runtime_secrets \<Rightarrow> bytes \<Rightarrow> bytes \<Rightarrow> bytes \<Rightarrow> header_rewrite_scratch \<Rightarrow>
     (header_rewrite_scratch \<times> bytes \<times> (bool, http_error) result) option" where
  "substitute_http_headers_for_host_into s host input out scratch =
     (case header_boundary input of
        None \<Rightarrow> pass_without_headers s host input out scratch
      | Some boundary \<Rightarrow>
         (let body_offset = boundary + 4; headers = take body_offset input; body = drop body_offset input in
          substitute_http_header_bytes_for_host s host headers scratch \<bind> (\<lambda>(scratch, r). Some
            (case r of
               Err e \<Rightarrow> (scratch, out, Err (SecretPolicy e))
             | Ok headers \<Rightarrow>
                (let out = out @ cow_bytes headers @ body in (scratch, out, Ok (out \<noteq> [])))))))"

definition http_result :: "('t, policy_error) result \<Rightarrow> ('t, http_error) result" where
  "http_result r = (case r of Ok v \<Rightarrow> Ok v | Err e \<Rightarrow> Err (SecretPolicy e))"

definition substitute_http_for_host_into ::
    "runtime_secrets \<Rightarrow> bytes \<Rightarrow> bytes \<Rightarrow> body_mode \<Rightarrow> bytes \<Rightarrow> header_rewrite_scratch \<Rightarrow>
     (header_rewrite_scratch \<times> bytes \<times> (bool, http_error) result) option" where
  "substitute_http_for_host_into s host input mode out scratch =
     (case mode of
        BodySubstitute \<Rightarrow> substitute_http_request_for_host_into s host input out scratch
      | BodyHeadersOnly \<Rightarrow> substitute_http_headers_for_host_into s host input out scratch
      | BodyNone \<Rightarrow> (case process input out of (out, r) \<Rightarrow> Some (scratch, out, http_result r)))"

section \<open>Flushing buffered requests\<close>

type_synonym 'r filter_step = "(http1_filter \<times> bytes \<times> 'r) option"

text \<open>Emit the first \<open>len\<close> buffered bytes, then go on with \<open>next\<close>, or stop with the error.\<close>

definition emit_pending ::
    "http1_filter \<Rightarrow> nat \<Rightarrow> body_mode \<Rightarrow> bytes \<Rightarrow>
     (http1_filter \<Rightarrow> bytes \<Rightarrow> http_error flow filter_step) \<Rightarrow> http_error flow filter_step" where
  "emit_pending f len mode out next =
     substitute_http_for_host_into (hf_secrets f) (hf_host f) (take len (hf_pending f)) mode out (hf_header_rewrite f)
     \<bind> (\<lambda>(scratch, out, r).
       let f = f\<lparr> hf_header_rewrite := scratch \<rparr> in
       case r of Err e \<Rightarrow> Some (f, out, Fail e) | Ok _ \<Rightarrow> next f out)"

definition drain_pending :: "nat \<Rightarrow> http1_filter \<Rightarrow> http1_filter" where
  "drain_pending n f = f\<lparr> hf_pending := drop n (hf_pending f) \<rparr>"

definition expect_response :: "http1_response_request \<Rightarrow> http1_filter \<Rightarrow> http1_filter" where
  "expect_response r f = f\<lparr> hf_response_tracker := expect_response_for r (hf_response_tracker f) \<rparr>"

definition stream_fixed_request_body ::
    "http1_filter \<Rightarrow> nat \<Rightarrow> nat \<Rightarrow> secret_mode \<Rightarrow> bytes \<Rightarrow> http_error flow filter_step" where
  "stream_fixed_request_body f len body_offset mode out =
     emit_pending f body_offset (header_mode_of mode) out (\<lambda>f out.
       let available_body = length (hf_pending f) - body_offset;
           body_take = min len available_body;
           (out, _) = copy (take body_take (drop body_offset (hf_pending f))) out;
           f = drain_pending (body_offset + body_take) f;
           f = (if body_take < len then f\<lparr> hf_body := BodyFixed (len - body_take) \<rparr> else f)
       in Some (f, out, if body_take = len then Continue else Break))"

text \<open>The arm for a chunked body.\<close>

definition stream_chunked_request_body ::
    "http1_filter \<Rightarrow> nat \<Rightarrow> secret_mode \<Rightarrow> bytes \<Rightarrow> http_error flow filter_step" where
  "stream_chunked_request_body f body_offset mode out =
     emit_pending f body_offset (header_mode_of mode) out (\<lambda>f out.
       case consume chunked_default (drop body_offset (hf_pending f)) of
         (_, Err e) \<Rightarrow> Some (f, out, Fail e)
       | (parser, Ok (body_take, complete)) \<Rightarrow>
          (let (out, _) = copy (take body_take (drop body_offset (hf_pending f))) out;
               f = drain_pending (body_offset + body_take) f
           in if \<not> complete then Some (f\<lparr> hf_body := BodyChunked parser \<rparr>, out, Break)
              else Some (f, out, Continue)))"

text \<open>One round of the loop, with the boundary it found.\<close>

definition flush_one_request :: "http1_filter \<Rightarrow> bytes \<Rightarrow> nat \<Rightarrow> http_error flow filter_step" where
  "flush_one_request f out boundary =
     (let body_offset = boundary + 4; headers = take body_offset (hf_pending f) in
      if is_github_workflow_dispatch_request headers (hf_host f)
      then Some (f, out, Fail WorkflowDispatchBlocked)
      else
        let expecting = expect_response (response_request headers) f;
            mode = (if request_authority_matches headers (hf_host f) then ModeSubstitute else ModeNone)
        in case request_body headers of
          ReqNone \<Rightarrow>
            emit_pending expecting body_offset (body_mode_of mode) out
              (\<lambda>f out. Some (drain_pending body_offset f, out, Continue))
        | ReqFixed len \<Rightarrow>
            if len \<le> MAX_BUFFERED_HTTP_REQUEST then
              if is_expect_continue headers then stream_fixed_request_body expecting len body_offset mode out
              else
                let request_len = body_offset + len in
                if length (hf_pending f) < request_len then Some (f, out, Break)
                else emit_pending expecting request_len (body_mode_of mode) out
                  (\<lambda>f out. Some (drain_pending request_len f, out, Continue))
            else stream_fixed_request_body expecting len body_offset mode out
        | ReqChunked \<Rightarrow> stream_chunked_request_body expecting body_offset mode out
        | ReqUpgrade \<Rightarrow>
            emit_pending expecting body_offset (header_mode_of mode) out (\<lambda>f out.
              Some ((drain_pending body_offset f)\<lparr> hf_upgrade_pending := True, hf_server_pending := [] \<rparr>, out, Break)))"

lemma emit_pending_outcome:
  assumes "emit_pending f len mode out next = Some (f', out', flow)"
  obtains scratch e where "f' = f\<lparr> hf_header_rewrite := scratch \<rparr>" "flow = Fail e"
  | scratch out1 where "next (f\<lparr> hf_header_rewrite := scratch \<rparr>) out1 = Some (f', out', flow)"
  using assms unfolding emit_pending_def
  by (auto simp: Let_def split: Option.bind_splits result.splits prod.splits)

lemma flush_one_request_shrinks:
  assumes "header_boundary (hf_pending f) = Some boundary" "flush_one_request f out boundary = Some (f', out', Continue)"
  shows "length (hf_pending f') < length (hf_pending f)"
  using header_boundary_bound [OF assms(1)] assms(2)
  unfolding flush_one_request_def Let_def stream_fixed_request_body_def stream_chunked_request_body_def
  by (auto simp: drain_pending_def expect_response_def copy_def elim!: emit_pending_outcome
      split: if_splits request_body_kind.splits prod.splits result.splits)

function flush_pending_requests :: "http1_filter \<Rightarrow> bytes \<Rightarrow> (unit, http_error) result filter_step" where
  "flush_pending_requests f out =
     (case header_boundary (hf_pending f) of
        None \<Rightarrow> Some (f, out, Ok ())
      | Some boundary \<Rightarrow>
         (case flush_one_request f out boundary of
            None \<Rightarrow> None
          | Some (f', out', Continue) \<Rightarrow> flush_pending_requests f' out'
          | Some (f', out', Break) \<Rightarrow> Some (f', out', Ok ())
          | Some (f', out', Fail e) \<Rightarrow> Some (f', out', Err e)))"
  by pat_completeness auto
termination
  by (relation "measure (\<lambda>(f, _). length (hf_pending f))") (auto intro: flush_one_request_shrinks)

declare flush_pending_requests.simps [simp del]

definition ensure_pending_limit :: "http1_filter \<Rightarrow> (unit, http_error) result" where
  "ensure_pending_limit f =
     (if header_boundary (hf_pending f) = None
      then if MAX_BUFFERED_HTTP_HEADERS < length (hf_pending f) then Err HeadersExceededLimit else Ok ()
      else if MAX_BUFFERED_HTTP_REQUEST < length (hf_pending f) then Err RequestExceededLimit
      else Ok ())"

text \<open>Flush what is buffered, then check the limit.\<close>

definition flush_and_check :: "http1_filter \<Rightarrow> bytes \<Rightarrow> (unit, http_error) result filter_step" where
  "flush_and_check f out =
     flush_pending_requests f out \<bind> (\<lambda>(f, out, r). Some (f, out,
       case r of Err e \<Rightarrow> Err e | Ok _ \<Rightarrow> ensure_pending_limit f))"

section \<open>The filter\<close>

text \<open>The loop of \<open>push\<close>; \<open>input\<close> is what the cursor has not passed.\<close>

function push_loop :: "http1_filter \<Rightarrow> bytes \<Rightarrow> bytes \<Rightarrow> (unit, http_error) result filter_step" where
  "push_loop f input out =
     (if input = [] then Some (f, out, Ok ())
      else case hf_body f of
        BodyHeaders \<Rightarrow> flush_and_check (f\<lparr> hf_pending := hf_pending f @ input \<rparr>) out
      | BodyFixed remaining \<Rightarrow>
          (let n = min remaining (length input);
               (out, _) = copy (take n input) out
           in push_loop (f\<lparr> hf_body := (if remaining - n = 0 then BodyHeaders else BodyFixed (remaining - n)) \<rparr>)
             (drop n input) out)
      | BodyChunked parser \<Rightarrow>
          (case consume parser input of
             (parser, Err e) \<Rightarrow> Some (f\<lparr> hf_body := BodyChunked parser \<rparr>, out, Err e)
           | (parser, Ok (n, complete)) \<Rightarrow>
              (let (out, _) = copy (take n input) out;
                   f = f\<lparr> hf_body := (if complete then BodyHeaders else BodyChunked parser) \<rparr>
               in if n = 0 then Some (f, out, Ok ()) else push_loop f (drop n input) out))
      | BodyRaw \<Rightarrow> (case process input out of (out, r) \<Rightarrow> Some (f, out, http_result (case r of Ok _ \<Rightarrow> Ok () | Err e \<Rightarrow> Err e))))"
  by pat_completeness auto
termination
  by (relation "measure (\<lambda>(f, input, _). 2 * length input + (if hf_body f = BodyHeaders then 0 else 1))")
    (auto split: if_splits)

declare push_loop.simps [simp del]

definition finish :: "(unit, http_error) result filter_step \<Rightarrow> (bool, http_error) result filter_step" where
  "finish s = s \<bind> (\<lambda>(f, out, r). Some (f, out, case r of Err e \<Rightarrow> Err e | Ok _ \<Rightarrow> Ok (out \<noteq> [])))"

text \<open>The output is cleared first, so it is not an argument.\<close>

definition push :: "http1_filter \<Rightarrow> bytes \<Rightarrow> (bool, http_error) result filter_step" where
  "push f input =
     (if hf_upgrade_pending f then
        (let f = f\<lparr> hf_pending := hf_pending f @ input \<rparr> in
         Some (f, [], case ensure_pending_limit f of Err e \<Rightarrow> Err e | Ok _ \<Rightarrow> Ok False))
      else finish (push_loop f input []))"

definition observe_response :: "http1_filter \<Rightarrow> bytes \<Rightarrow> http1_filter \<times> (unit, http_error) result" where
  "observe_response f input =
     (case observe (hf_response_tracker f) input of
        (t, r) \<Rightarrow> (f\<lparr> hf_response_tracker := t \<rparr>, r))"

definition response_eof :: "http1_filter \<Rightarrow> http1_response_eof" where
  "response_eof f = eof_state (hf_response_tracker f)"

definition observe_server_plaintext :: "http1_filter \<Rightarrow> bytes \<Rightarrow> (bool, http_error) result filter_step" where
  "observe_server_plaintext f input =
     (if \<not> hf_upgrade_pending f then Some (f, [], Ok False)
      else
        let f = f\<lparr> hf_server_pending := hf_server_pending f @ input \<rparr> in
        if RELAY_BUF_SIZE < length (hf_server_pending f)
        then Some (f\<lparr> hf_upgrade_pending := False, hf_server_pending := [] \<rparr>, [], Ok False)
        else case header_boundary (hf_server_pending f) of
          None \<Rightarrow> Some (f, [], Ok False)
        | Some boundary \<Rightarrow>
           (let accepted = is_switching_protocols_response (take boundary (hf_server_pending f));
                f = f\<lparr> hf_upgrade_pending := False, hf_server_pending := [] \<rparr>
            in if accepted then
                 (let f = f\<lparr> hf_body := BodyRaw \<rparr> in
                  case process (hf_pending f) [] of
                    (out, Err e) \<Rightarrow> Some (f, out, Err (SecretPolicy e))
                  | (out, Ok _) \<Rightarrow> Some (f\<lparr> hf_pending := [] \<rparr>, out, Ok (out \<noteq> [])))
               else finish (flush_and_check f [])))"

end
