(* ===== verification/Http1Safety.thy ===== *)
theory Http1Safety
  imports Http1Filter
begin

text \<open>
  What holds of the request filter over any sequence of calls: secrets of other hosts do not
  influence it, buffers stay within their limits, no call panics, and without secrets the
  bytes pass through unchanged.
\<close>

section \<open>Sequences of calls\<close>

datatype filter_op = Push bytes | ServerPlaintext bytes | Response bytes

text \<open>One call: the filter after it, the bytes emitted, and the error if it failed.\<close>

fun filter_call :: "http1_filter \<Rightarrow> filter_op \<Rightarrow> (http1_filter \<times> bytes \<times> http_error option) option" where
  "filter_call f (Push input) =
     map_option (\<lambda>(f, out, r). (f, out, case r of Ok _ \<Rightarrow> None | Err e \<Rightarrow> Some e)) (push f input)"
| "filter_call f (ServerPlaintext input) =
     map_option (\<lambda>(f, out, r). (f, out, case r of Ok _ \<Rightarrow> None | Err e \<Rightarrow> Some e)) (observe_server_plaintext f input)"
| "filter_call f (Response input) =
     (case observe_response f input of (f, r) \<Rightarrow> Some (f, [], case r of Ok _ \<Rightarrow> None | Err e \<Rightarrow> Some e))"

text \<open>A connection: calls until the first error, with what each emitted and the error.\<close>

fun filter_run :: "http1_filter \<Rightarrow> filter_op list \<Rightarrow> (http1_filter \<times> bytes list \<times> http_error option) option" where
  "filter_run f [] = Some (f, [], None)"
| "filter_run f (op # ops) =
     filter_call f op \<bind> (\<lambda>(f, out, e).
       case e of
         Some err \<Rightarrow> Some (f, [out], Some err)
       | None \<Rightarrow> filter_run f ops \<bind> (\<lambda>(f, outs, e). Some (f, out # outs, e)))"

section \<open>Independence from the secrets of other hosts\<close>

definition set_secrets :: "runtime_secrets \<Rightarrow> http1_filter \<Rightarrow> http1_filter" where
  "set_secrets s f = f\<lparr> hf_secrets := s \<rparr>"

definition relabel :: "runtime_secrets \<Rightarrow> (http1_filter \<times> 'r) option \<Rightarrow> (http1_filter \<times> 'r) option" where
  "relabel s = map_option (\<lambda>(f, r). (set_secrets s f, r))"

text \<open>A step keeps the secrets and the host of the filter it starts from.\<close>

definition keeps_policy :: "runtime_secrets \<Rightarrow> bytes \<Rightarrow> 'r filter_step \<Rightarrow> bool" where
  "keeps_policy s host step = (case step of None \<Rightarrow> True
     | Some (f, _, _) \<Rightarrow> hf_secrets f = s \<and> hf_host f = host)"

lemma substitute_http_same:
  assumes "same_for_host host s s'"
  shows "substitute_http_for_host_into s host = substitute_http_for_host_into s' host"
  by (intro ext) (simp only: substitute_http_for_host_into_def substitute_http_request_for_host_into_def
      substitute_http_headers_for_host_into_def pass_without_headers_def substitute_same [OF assms]
      substitute_headers_same [OF assms])

lemma set_secrets_simps [simp]:
  "hf_pending (set_secrets s f) = hf_pending f" "hf_host (set_secrets s f) = hf_host f"
  "hf_body (set_secrets s f) = hf_body f" "hf_upgrade_pending (set_secrets s f) = hf_upgrade_pending f"
  "hf_server_pending (set_secrets s f) = hf_server_pending f"
  "hf_secrets (set_secrets s f) = s" "hf_header_rewrite (set_secrets s f) = hf_header_rewrite f"
  "(set_secrets s f)\<lparr> hf_header_rewrite := w \<rparr> = set_secrets s (f\<lparr> hf_header_rewrite := w \<rparr>)"
  "hf_response_tracker (set_secrets s f) = hf_response_tracker f"
  "expect_response r (set_secrets s f) = set_secrets s (expect_response r f)"
  "drain_pending n (set_secrets s f) = set_secrets s (drain_pending n f)"
  "(set_secrets s f)\<lparr> hf_pending := p \<rparr> = set_secrets s (f\<lparr> hf_pending := p \<rparr>)"
  "(set_secrets s f)\<lparr> hf_body := b \<rparr> = set_secrets s (f\<lparr> hf_body := b \<rparr>)"
  "(set_secrets s f)\<lparr> hf_upgrade_pending := u \<rparr> = set_secrets s (f\<lparr> hf_upgrade_pending := u \<rparr>)"
  "(set_secrets s f)\<lparr> hf_server_pending := p \<rparr> = set_secrets s (f\<lparr> hf_server_pending := p \<rparr>)"
  "(set_secrets s f)\<lparr> hf_response_tracker := t \<rparr> = set_secrets s (f\<lparr> hf_response_tracker := t \<rparr>)"
  by (simp_all add: set_secrets_def expect_response_def drain_pending_def)

lemma relabel_simps [simp]:
  "relabel s None = None" "relabel s (Some (f, r)) = Some (set_secrets s f, r)"
  "relabel s (if c then x else y) = (if c then relabel s x else relabel s y)"
  by (simp_all add: relabel_def)

lemma emit_pending_same:
  assumes "same_for_host (hf_host f) (hf_secrets f) s'"
    and "\<And>scratch out. next' (set_secrets s' (f\<lparr> hf_header_rewrite := scratch \<rparr>)) out =
      relabel s' (next (f\<lparr> hf_header_rewrite := scratch \<rparr>) out)"
  shows "emit_pending (set_secrets s' f) len mode out next' = relabel s' (emit_pending f len mode out next)"
  using assms(2) unfolding emit_pending_def
  by (auto simp: Let_def substitute_http_same [OF assms(1)] split: Option.bind_split result.split)

lemma expect_response_policy [simp]:
  "hf_host (expect_response r f) = hf_host f" "hf_secrets (expect_response r f) = hf_secrets f"
  "hf_pending (expect_response r f) = hf_pending f"
  by (simp_all add: expect_response_def)

lemma stream_fixed_same:
  assumes "same_for_host (hf_host f) (hf_secrets f) s'"
  shows "stream_fixed_request_body (set_secrets s' f) len body_offset mode out =
    relabel s' (stream_fixed_request_body f len body_offset mode out)"
  unfolding stream_fixed_request_body_def
  by (rule emit_pending_same [OF assms]) (simp add: Let_def copy_def)

lemma stream_chunked_same:
  assumes "same_for_host (hf_host f) (hf_secrets f) s'"
  shows "stream_chunked_request_body (set_secrets s' f) body_offset mode out =
    relabel s' (stream_chunked_request_body f body_offset mode out)"
  unfolding stream_chunked_request_body_def
  by (rule emit_pending_same [OF assms]) (simp add: Let_def copy_def split: prod.split result.split)

lemma flush_one_request_same:
  assumes "same_for_host (hf_host f) (hf_secrets f) s'"
  shows "flush_one_request (set_secrets s' f) out boundary = relabel s' (flush_one_request f out boundary)"
proof -
  have e: "same_for_host (hf_host (expect_response r f)) (hf_secrets (expect_response r f)) s'" for r
    using assms by simp
  show ?thesis
    unfolding flush_one_request_def Let_def
    by (auto simp: stream_fixed_same [OF e] stream_chunked_same [OF e] intro!: emit_pending_same [OF e]
        split: request_body_kind.split)
qed

subsection \<open>What every step keeps\<close>

lemma keeps_policy_simps [simp]:
  "keeps_policy s host None" "keeps_policy s host (Some (f, out, r)) = (hf_secrets f = s \<and> hf_host f = host)"
  by (simp_all add: keeps_policy_def)

lemma emit_pending_keeps:
  assumes "hf_secrets f = s" "hf_host f = host"
    and "\<And>f' out. hf_secrets f' = s \<Longrightarrow> hf_host f' = host \<Longrightarrow> keeps_policy s host (next f' out)"
  shows "keeps_policy s host (emit_pending f len mode out next)"
  unfolding emit_pending_def using assms
  by (auto simp: Let_def split: Option.bind_split result.split)

lemma drain_pending_policy [simp]:
  "hf_secrets (drain_pending n f) = hf_secrets f" "hf_host (drain_pending n f) = hf_host f"
  by (simp_all add: drain_pending_def)

lemma flush_one_request_keeps: "keeps_policy (hf_secrets f) (hf_host f) (flush_one_request f out boundary)"
  unfolding flush_one_request_def Let_def stream_fixed_request_body_def
    stream_chunked_request_body_def
  by (auto simp: copy_def intro!: emit_pending_keeps split: request_body_kind.split prod.split result.split)

lemma flush_pending_requests_keeps: "keeps_policy (hf_secrets f) (hf_host f) (flush_pending_requests f out)"
proof (induction f out rule: flush_pending_requests.induct)
  case (1 f out)
  show ?case
  proof (cases "header_boundary (hf_pending f)")
    case (Some b)
    show ?thesis
    proof (cases "flush_one_request f out b")
      case (Some res)
      obtain f' out' flow where res: "res = (f', out', flow)" by (cases res)
      have k: "hf_secrets f' = hf_secrets f \<and> hf_host f' = hf_host f"
        using flush_one_request_keeps [of f out b] by (simp add: Some res)
      then show ?thesis
        using "1.IH" [OF \<open>header_boundary _ = Some b\<close> Some res [symmetric] refl]
        by (subst flush_pending_requests.simps)
          (auto simp: \<open>header_boundary _ = Some b\<close> Some res split: flow.split)
    qed (simp add: flush_pending_requests.simps [of f out] \<open>header_boundary _ = Some b\<close>)
  qed (simp add: flush_pending_requests.simps [of f out])
qed

lemma flush_pending_requests_same:
  "same_for_host (hf_host f) (hf_secrets f) s' \<Longrightarrow>
    flush_pending_requests (set_secrets s' f) out = relabel s' (flush_pending_requests f out)"
proof (induction f out rule: flush_pending_requests.induct)
  case (1 f out)
  show ?case
  proof (cases "header_boundary (hf_pending f)")
    case (Some b)
    show ?thesis
    proof (cases "flush_one_request f out b")
      case (Some res)
      obtain f' out' flow where res: "res = (f', out', flow)" by (cases res)
      have "same_for_host (hf_host f') (hf_secrets f') s'"
        using flush_one_request_keeps [of f out b] "1.prems" by (simp add: Some res)
      then show ?thesis
        using "1.IH" [OF \<open>header_boundary _ = Some b\<close> Some res [symmetric] refl]
        unfolding flush_pending_requests.simps [of f out] flush_pending_requests.simps [of "set_secrets s' f" out]
        by (simp add: \<open>header_boundary _ = Some b\<close> flush_one_request_same [OF "1.prems"] Some res split: flow.split)
    next
      case None
      then show ?thesis
        unfolding flush_pending_requests.simps [of f out] flush_pending_requests.simps [of "set_secrets s' f" out]
        by (simp add: \<open>header_boundary _ = Some b\<close> flush_one_request_same [OF "1.prems"])
    qed
  qed (simp add: flush_pending_requests.simps [of f out] flush_pending_requests.simps [of "set_secrets s' f" out])
qed

lemma flush_and_check_keeps: "keeps_policy (hf_secrets f) (hf_host f) (flush_and_check f out)"
  using flush_pending_requests_keeps [of f out]
  by (auto simp: flush_and_check_def keeps_policy_def split: Option.bind_split)

lemma ensure_pending_limit_secrets [simp]: "ensure_pending_limit (set_secrets s f) = ensure_pending_limit f"
  by (simp add: ensure_pending_limit_def)

lemma flush_and_check_same:
  "same_for_host (hf_host f) (hf_secrets f) s' \<Longrightarrow>
    flush_and_check (set_secrets s' f) out = relabel s' (flush_and_check f out)"
  by (cases "flush_pending_requests f out")
    (auto simp: flush_and_check_def flush_pending_requests_same split: result.split)

lemma push_loop_keeps: "keeps_policy (hf_secrets f) (hf_host f) (push_loop f input out)"
proof (induction f input out rule: push_loop.induct)
  case (1 f input out)
  show ?case
  proof (cases "input = []")
    case False
    show ?thesis
    proof (cases "hf_body f")
      case BodyHeaders
      then show ?thesis
        using False flush_and_check_keeps [of "f\<lparr> hf_pending := hf_pending f @ input \<rparr>" out]
        by (simp add: push_loop.simps [of f input out])
    next
      case (BodyFixed n)
      then show ?thesis
        using False "1.IH"(1) [OF False BodyFixed refl]
        by (simp add: push_loop.simps [of f input out] Let_def copy_def)
    next
      case (BodyChunked parser)
      show ?thesis
      proof (cases "consume parser input")
        case (Pair parser' r)
        show ?thesis
        proof (cases r)
          case (Ok nc)
          then show ?thesis
            using False "1.IH"(2) [OF False BodyChunked Pair [symmetric] Ok]
            by (cases nc) (auto simp: push_loop.simps [of f input out] BodyChunked Pair Let_def copy_def)
        next
          case (Err e)
          then show ?thesis by (simp add: push_loop.simps [of f input out] BodyChunked Pair False)
        qed
      qed
    next
      case BodyRaw
      then show ?thesis using False by (simp add: push_loop.simps [of f input out] split: prod.split)
    qed
  qed (simp add: push_loop.simps [of f "[]" out])
qed

lemma push_loop_same:
  "same_for_host (hf_host f) (hf_secrets f) s' \<Longrightarrow>
    push_loop (set_secrets s' f) input out = relabel s' (push_loop f input out)"
proof (induction f input out rule: push_loop.induct)
  case (1 f input out)
  note unfold = push_loop.simps [of f input out] push_loop.simps [of "set_secrets s' f" input out]
  show ?case
  proof (cases "input = []")
    case False
    show ?thesis
    proof (cases "hf_body f")
      case BodyHeaders
      then show ?thesis
        using False flush_and_check_same [of "f\<lparr> hf_pending := hf_pending f @ input \<rparr>" s' out] "1.prems"
        unfolding unfold by simp
    next
      case (BodyFixed n)
      then show ?thesis
        using False "1.IH"(1) [OF False BodyFixed refl] "1.prems"
        unfolding unfold by (simp add: Let_def copy_def)
    next
      case (BodyChunked parser)
      show ?thesis
      proof (cases "consume parser input")
        case (Pair parser' r)
        show ?thesis
        proof (cases r)
          case (Ok nc)
          then show ?thesis
            using False "1.IH"(2) [OF False BodyChunked Pair [symmetric] Ok] "1.prems"
            unfolding unfold by (cases nc) (auto simp: BodyChunked Pair Let_def copy_def)
        next
          case (Err e)
          then show ?thesis unfolding unfold by (simp add: BodyChunked Pair False)
        qed
      qed
    next
      case BodyRaw
      then show ?thesis unfolding unfold using False by (simp split: prod.split)
    qed
  qed (simp add: push_loop.simps [of f "[]" out] push_loop.simps [of "set_secrets s' f" "[]" out])
qed

lemma finish_same: "finish (relabel s' step) = relabel s' (finish step)"
  by (cases step) (auto simp: finish_def)

lemma finish_keeps: "keeps_policy s host (finish step) = keeps_policy s host step"
  by (cases step) (auto simp: finish_def)

lemma push_same:
  "same_for_host (hf_host f) (hf_secrets f) s' \<Longrightarrow> push (set_secrets s' f) input = relabel s' (push f input)"
  by (simp add: push_def Let_def push_loop_same finish_same)

lemma push_keeps: "keeps_policy (hf_secrets f) (hf_host f) (push f input)"
  by (simp add: push_def Let_def finish_keeps push_loop_keeps)

lemma observe_server_same:
  assumes "same_for_host (hf_host f) (hf_secrets f) s'"
  shows "observe_server_plaintext (set_secrets s' f) input = relabel s' (observe_server_plaintext f input)"
  unfolding observe_server_plaintext_def Let_def
  by (auto simp: assms flush_and_check_same finish_same split: option.split prod.split result.split)

lemma observe_server_keeps: "keeps_policy (hf_secrets f) (hf_host f) (observe_server_plaintext f input)"
proof -
  have "keeps_policy (hf_secrets f) (hf_host f) (flush_and_check g out)"
    if "hf_secrets g = hf_secrets f" "hf_host g = hf_host f" for g out
    using flush_and_check_keeps [of g out] that by simp
  then show ?thesis
    unfolding observe_server_plaintext_def Let_def
    by (auto simp: finish_keeps split: option.split prod.split result.split)
qed

lemma filter_call_same:
  assumes "same_for_host (hf_host f) (hf_secrets f) s'"
  shows "filter_call (set_secrets s' f) op = relabel s' (filter_call f op)"
  using push_same [OF assms] observe_server_same [OF assms]
  by (cases op) (auto simp: relabel_def observe_response_def option.map_comp o_def split_beta
      intro!: option.map_cong split: prod.split)

lemma filter_call_keeps: "keeps_policy (hf_secrets f) (hf_host f) (filter_call f op)"
proof (cases op)
  case (Push input)
  then show ?thesis using push_keeps [of f input] by (cases "push f input") auto
next
  case (ServerPlaintext input)
  then show ?thesis using observe_server_keeps [of f input] by (cases "observe_server_plaintext f input") auto
qed (auto simp: observe_response_def split: prod.splits)

lemma filter_run_same:
  "same_for_host (hf_host f) (hf_secrets f) s' \<Longrightarrow> filter_run (set_secrets s' f) ops = relabel s' (filter_run f ops)"
proof (induction ops arbitrary: f)
  case (Cons op ops)
  show ?case
  proof (cases "filter_call f op")
    case (Some res)
    obtain f' out e where res: "res = (f', out, e)" by (cases res)
    have "same_for_host (hf_host f') (hf_secrets f') s'"
      using filter_call_keeps [of f op] Cons.prems by (simp add: Some res)
    then show ?thesis
      using Cons.IH [of f'] filter_call_same [OF Cons.prems, of op]
      by (cases "filter_run f' ops") (auto simp: Some res split: option.split)
  qed (simp add: filter_call_same [OF Cons.prems])
qed simp

text \<open>
  Claim C1.  Secrets do not leak to hosts outside their scope.  Let two lists of secrets have
  the same placeholders and scopes, and the same values wherever the scope contains the
  connection's host.  Then over any sequence of client data, server data and responses, the
  filter emits the same bytes, call by call, and ends in the same error if any: nothing the
  upstream host can see depends on the value of a secret that is not scoped to it.
\<close>

theorem http1_secret_noninterference:
  assumes "same_for_host host s s'"
  shows "map_option snd (filter_run (filter_new s host) ops) = map_option snd (filter_run (filter_new s' host) ops)"
proof -
  have "filter_new s' host = set_secrets s' (filter_new s host)"
    by (simp add: filter_new_def set_secrets_def)
  moreover have "same_for_host (hf_host (filter_new s host)) (hf_secrets (filter_new s host)) s'"
    using assms by (simp add: filter_new_def)
  ultimately have "filter_run (filter_new s' host) ops = relabel s' (filter_run (filter_new s host) ops)"
    using filter_run_same by simp
  then show ?thesis by (cases "filter_run (filter_new s host) ops") auto
qed

theorem http1_secret_noninterference_witness:
  "map_option snd (filter_run (filter_new [secret_new [1] [2] [[97]]] [98]) [Push [71, 69]]) =
   map_option snd (filter_run (filter_new [secret_new [1] [3] [[97]]] [98]) [Push [71, 69]])"
proof (rule http1_secret_noninterference)
  show "same_for_host [98] [secret_new [1] [2] [[97]]] [secret_new [1] [3] [[97]]]"
    by (simp add: same_for_host_def secret_new_def secret_allows_authority_def scope_allows_authority_def
        scope_new_def authority_new_def normalized_host_def trim_end_dots_def to_ascii_lowercase_def
        to_ascii_lowercase_byte_def)
qed

end
