(* ===== verification/Http1Limits.thy ===== *)
theory Http1Limits
  imports Http1Safety
begin

text \<open>
  The filter never panics when no placeholder is empty, and what it buffers stays within the
  limits as long as no call failed.
\<close>

section \<open>Absence of panics\<close>

definition returns :: "'a option \<Rightarrow> bool" where
  "returns x \<longleftrightarrow> x \<noteq> None"

lemma returns_simps [simp]: "returns (Some x)" "\<not> returns None"
  by (simp_all add: returns_def)

lemma returns_bind [intro]: "returns x \<Longrightarrow> (\<And>v. returns (g v)) \<Longrightarrow> returns (x \<bind> g)"
  by (cases x) auto

lemma returns_map [simp]: "returns (map_option g x) = returns x"
  by (cases x) auto

lemmas secrets_total = ensure_total [folded returns_def] substitute_headers_total [folded returns_def]
  substitute_body_total [folded returns_def]

lemma substitute_http_total:
  assumes "placeholders_nonempty s"
  shows "returns (substitute_http_for_host_into s host input mode out scratch)"
proof -
  have p: "returns (pass_without_headers s host input out scratch)"
    unfolding pass_without_headers_def by (intro returns_bind secrets_total assms) simp
  have r: "returns (substitute_http_request_for_host_into s host input out scratch)"
    unfolding substitute_http_request_for_host_into_def Let_def
    by (auto simp: p intro!: returns_bind secrets_total assms split: option.split result.split)
  have h: "returns (substitute_http_headers_for_host_into s host input out scratch)"
    unfolding substitute_http_headers_for_host_into_def Let_def
    by (auto simp: p intro!: returns_bind secrets_total assms split: option.split)
  show ?thesis
    by (cases mode) (simp_all add: substitute_http_for_host_into_def r h split: prod.split)
qed

lemma emit_pending_total:
  assumes "placeholders_nonempty (hf_secrets f)" "\<And>f' out. returns (next f' out)"
  shows "returns (emit_pending f len mode out next)"
  unfolding emit_pending_def Let_def
  by (intro returns_bind substitute_http_total assms(1)) (simp add: assms(2) split: prod.split result.split)

lemma flush_one_request_total:
  assumes "placeholders_nonempty (hf_secrets f)"
  shows "returns (flush_one_request f out boundary)"
  using assms unfolding flush_one_request_def Let_def stream_fixed_request_body_def
    stream_chunked_request_body_def
  by (auto simp: copy_def intro!: emit_pending_total split: request_body_kind.split prod.split result.split)

lemma flush_pending_requests_total:
  "placeholders_nonempty (hf_secrets f) \<Longrightarrow> returns (flush_pending_requests f out)"
proof (induction f out rule: flush_pending_requests.induct)
  case (1 f out)
  show ?case
  proof (cases "header_boundary (hf_pending f)")
    case (Some b)
    obtain f' out' flow where r: "flush_one_request f out b = Some (f', out', flow)"
      using flush_one_request_total [OF "1.prems", of out b] by (auto simp: returns_def)
    have "placeholders_nonempty (hf_secrets f')"
      using flush_one_request_keeps [of f out b] "1.prems" by (simp add: r)
    then show ?thesis
      using "1.IH" [OF Some r refl refl]
      by (subst flush_pending_requests.simps) (simp add: Some r split: flow.split)
  qed (simp add: flush_pending_requests.simps [of f out])
qed

lemma flush_and_check_total: "placeholders_nonempty (hf_secrets f) \<Longrightarrow> returns (flush_and_check f out)"
  unfolding flush_and_check_def by (intro returns_bind flush_pending_requests_total) auto

lemma push_loop_total: "placeholders_nonempty (hf_secrets f) \<Longrightarrow> returns (push_loop f input out)"
proof (induction f input out rule: push_loop.induct)
  case (1 f input out)
  show ?case
  proof (cases "input = []")
    case False
    show ?thesis
    proof (cases "hf_body f")
      case BodyHeaders
      then show ?thesis
        using False flush_and_check_total [of "f\<lparr> hf_pending := hf_pending f @ input \<rparr>" out] "1.prems"
        by (simp add: push_loop.simps [of f input out])
    next
      case (BodyFixed n)
      then show ?thesis
        using False "1.IH"(1) [OF False BodyFixed refl] "1.prems"
        by (simp add: push_loop.simps [of f input out] Let_def copy_def)
    next
      case (BodyChunked parser)
      obtain parser' r where c: "consume parser input = (parser', r)" by (cases "consume parser input")
      show ?thesis
        using False "1.IH"(2) [OF False BodyChunked c [symmetric]] "1.prems"
        by (cases r) (auto simp: push_loop.simps [of f input out] BodyChunked c Let_def copy_def)
    qed (simp add: push_loop.simps [of f input out] False split: prod.split)
  qed (simp add: push_loop.simps [of f "[]" out])
qed

lemma finish_total [simp]: "returns (finish step) = returns step"
  by (cases step) (auto simp: finish_def)

lemma filter_call_total:
  assumes "placeholders_nonempty (hf_secrets f)"
  shows "returns (filter_call f op)"
proof (cases op)
  case (Push input)
  then show ?thesis using push_loop_total [OF assms] by (simp add: push_def Let_def)
next
  case (ServerPlaintext input)
  have "returns (flush_and_check g out)" if "hf_secrets g = hf_secrets f" for g out
    using flush_and_check_total [of g out] assms that by simp
  then show ?thesis
    by (auto simp: ServerPlaintext observe_server_plaintext_def Let_def split: option.split prod.split result.split)
qed (simp add: observe_response_def split: prod.split)

section \<open>Limits\<close>

definition parser_ok :: "chunked_parser \<Rightarrow> bool" where
  "parser_ok p \<longleftrightarrow> length (ch_line p) \<le> MAX_BUFFERED_HTTP_HEADERS"

lemma push_byte_ok: "push_byte p b = (p', Ok u) \<Longrightarrow> parser_ok p \<Longrightarrow> parser_ok p'"
  by (auto simp: push_byte_def parser_ok_def ensure_chunk_scratch_limit_def Let_def
      split: chunked_state.splits if_splits option.splits result.splits)

lemma consume_from_ok: "consume_from p input n = (p', Ok r) \<Longrightarrow> parser_ok p \<Longrightarrow> parser_ok p'"
proof (induction input arbitrary: p n)
  case (Cons b input)
  then show ?case
    by (auto split: prod.splits result.splits if_splits dest: push_byte_ok)
qed simp

lemma consume_ok: "consume p input = (p', Ok r) \<Longrightarrow> parser_ok p \<Longrightarrow> parser_ok p'"
  unfolding consume_def by (rule consume_from_ok)

lemma chunked_default_ok [simp]: "parser_ok chunked_default"
  by (simp add: parser_ok_def chunked_default_def)

text \<open>The tracker: in the header state the buffer is short, in every other state it is empty.\<close>

definition tracker_ok :: "response_tracker \<Rightarrow> bool" where
  "tracker_ok t \<longleftrightarrow>
     (case rt_state t of
        RespHeaders \<Rightarrow> length (rt_pending t) \<le> MAX_BUFFERED_HTTP_HEADERS
      | RespChunked p \<Rightarrow> rt_pending t = [] \<and> parser_ok p
      | _ \<Rightarrow> rt_pending t = [])"

lemma flush_one_response_ok:
  assumes "flush_one_response t b = (t', flow)" "rt_state t = RespHeaders"
  shows "(flow = Continue \<longrightarrow> rt_state t' = RespHeaders) \<and> (flow = Break \<longrightarrow> tracker_ok t')"
  using assms consume_bound [of chunked_default "drop (b + 4) (rt_pending t)"]
    consume_ok [of chunked_default "drop (b + 4) (rt_pending t)"]
  by (auto simp: flush_one_response_def Let_def tracker_ok_def min_def
      split: result.splits response_body.splits if_splits prod.splits)

lemma flush_pending_responses_ok:
  assumes "flush_pending_responses t = (t', Ok u)" "rt_state t = RespHeaders"
  shows "header_boundary (rt_pending t') = None \<and> rt_state t' = RespHeaders \<or> tracker_ok t'"
  using assms
proof (induction t rule: flush_pending_responses.induct)
  case (1 t)
  show ?case
  proof (cases "header_boundary (rt_pending t)")
    case None
    then show ?thesis using "1.prems" by (simp add: flush_pending_responses.simps [of t])
  next
    case (Some b)
    obtain t1 flow where r: "flush_one_response t b = (t1, flow)" by (cases "flush_one_response t b")
    show ?thesis
      using "1.prems" "1.IH" [OF Some r [symmetric]] flush_one_response_ok [OF r]
      by (cases flow) (simp_all add: flush_pending_responses.simps [of t] Some r)
  qed
qed

lemma observe_ok: "observe t input = (t', Ok u) \<Longrightarrow> tracker_ok t \<Longrightarrow> tracker_ok t'"
proof (induction t input rule: observe.induct)
  case (1 t input)
  show ?case
  proof (cases "input = []")
    case True
    then show ?thesis using "1.prems" by (simp add: observe.simps [of t "[]"])
  next
    case False
    show ?thesis
    proof (cases "rt_state t")
      case RespHeaders
      obtain t1 r where r: "flush_pending_responses (t\<lparr> rt_pending := rt_pending t @ input \<rparr>) = (t1, r)"
        by (cases "flush_pending_responses (t\<lparr> rt_pending := rt_pending t @ input \<rparr>)")
      then have "r = Ok ()" "t' = t1" "ensure_response_pending_limit t1 = Ok ()"
        using "1.prems"(1) False RespHeaders by (auto simp: observe.simps [of t input] split: result.splits)
      then show ?thesis
        using flush_pending_responses_ok [of _ t1] r RespHeaders
        by (fastforce simp: tracker_ok_def ensure_response_pending_limit_def split: if_splits)
    next
      case (RespFixed n)
      then show ?thesis
        using "1.IH"(1) [OF False RespFixed refl] "1.prems" False
        by (auto simp: observe.simps [of t input] Let_def tracker_ok_def split: if_splits)
    next
      case (RespChunked p)
      obtain p' r where c: "consume p input = (p', r)" by (cases "consume p input")
      show ?thesis
      proof (cases r)
        case (Ok nc)
        obtain n complete where nc: "nc = (n, complete)" by (cases nc)
        define t1 where "t1 = t\<lparr> rt_state := (if complete then RespHeaders else RespChunked p') \<rparr>"
        have "parser_ok p'" "rt_pending t = []"
          using consume_ok [of p input p' nc] c Ok "1.prems"(2) RespChunked by (auto simp: tracker_ok_def)
        then have t1: "tracker_ok t1" by (simp add: t1_def tracker_ok_def)
        have "0 < n" using consume_bound [of p input p' n complete] c Ok nc False by simp
        then have "observe t1 (drop n input) = (t', Ok u)"
          using "1.prems"(1) False by (simp add: observe.simps [of t input] RespChunked c Ok nc t1_def Let_def)
        then show ?thesis
          using "1.IH"(2) [OF False RespChunked c [symmetric] Ok nc [symmetric] t1_def] t1 \<open>0 < n\<close> by simp
      qed (use "1.prems" False in \<open>simp add: observe.simps [of t input] RespChunked c\<close>)
    qed (use "1.prems" False in \<open>simp_all add: observe.simps [of t input]\<close>)
  qed
qed

text \<open>What pushing leaves alone: the response buffer, and the server buffer up to clearing it.\<close>

definition frame :: "http1_filter \<Rightarrow> http1_filter \<Rightarrow> bool" where
  "frame f f' \<longleftrightarrow>
     (hf_server_pending f' = hf_server_pending f \<or> hf_server_pending f' = []) \<and>
     rt_pending (hf_response_tracker f') = rt_pending (hf_response_tracker f) \<and>
     rt_state (hf_response_tracker f') = rt_state (hf_response_tracker f)"

lemma frame_refl [simp]: "frame f f"
  by (simp add: frame_def)

lemma frame_trans: "frame f g \<Longrightarrow> frame g h \<Longrightarrow> frame f h"
  by (auto simp: frame_def)

lemma flush_one_request_frame:
  assumes "flush_one_request f out b = Some (f', out', flow)"
  shows "frame f f'"
  using assms unfolding flush_one_request_def Let_def stream_fixed_request_body_def
    stream_chunked_request_body_def frame_def
  by (auto simp: drain_pending_def expect_response_def expect_response_for_def copy_def
      elim!: emit_pending_outcome split: if_splits request_body_kind.splits prod.splits result.splits)

lemma flush_pending_requests_frame: "flush_pending_requests f out = Some (f', out', r) \<Longrightarrow> frame f f'"
proof (induction f out rule: flush_pending_requests.induct)
  case (1 f out)
  show ?case
  proof (cases "header_boundary (hf_pending f)")
    case None
    then show ?thesis using "1.prems" by (simp add: flush_pending_requests.simps [of f out])
  next
    case (Some b)
    obtain f1 out1 flow where r: "flush_one_request f out b = Some (f1, out1, flow)"
      using "1.prems" by (cases "flush_one_request f out b") (auto simp: flush_pending_requests.simps [of f out] Some)
    then show ?thesis
      using "1.prems" "1.IH" [OF Some r refl refl] flush_one_request_frame [OF r] frame_trans
      by (cases flow) (auto simp: flush_pending_requests.simps [of f out] Some)
  qed
qed

text \<open>The chunk parser of a request body, too, holds no long line.\<close>

definition body_ok :: "http1_filter \<Rightarrow> bool" where
  "body_ok f \<longleftrightarrow> (case hf_body f of BodyChunked p \<Rightarrow> parser_ok p | _ \<Rightarrow> True)"

lemma flush_one_request_body_ok:
  assumes "flush_one_request f out b = Some (f', out', flow)" "body_ok f"
  shows "body_ok f'"
  using assms unfolding flush_one_request_def Let_def stream_fixed_request_body_def
    stream_chunked_request_body_def body_ok_def
  by (auto simp: drain_pending_def expect_response_def copy_def
      elim!: emit_pending_outcome split: if_splits request_body_kind.splits prod.splits result.splits)
    (rule consume_ok [OF _ chunked_default_ok], assumption)+

lemma flush_pending_requests_body_ok:
  "flush_pending_requests f out = Some (f', out', r) \<Longrightarrow> body_ok f \<Longrightarrow> body_ok f'"
proof (induction f out rule: flush_pending_requests.induct)
  case (1 f out)
  show ?case
  proof (cases "header_boundary (hf_pending f)")
    case None
    then show ?thesis using "1.prems" by (simp add: flush_pending_requests.simps [of f out])
  next
    case (Some b)
    obtain f1 out1 flow where r: "flush_one_request f out b = Some (f1, out1, flow)"
      using "1.prems" by (cases "flush_one_request f out b") (auto simp: flush_pending_requests.simps [of f out] Some)
    then show ?thesis
      using "1.prems" "1.IH" [OF Some r refl refl] flush_one_request_body_ok [OF r]
      by (cases flow) (auto simp: flush_pending_requests.simps [of f out] Some)
  qed
qed

text \<open>The invariant of a filter whose calls all succeeded.\<close>

definition filter_invar :: "http1_filter \<Rightarrow> bool" where
  "filter_invar f \<longleftrightarrow> ensure_pending_limit f = Ok () \<and> length (hf_server_pending f) \<le> RELAY_BUF_SIZE \<and>
     tracker_ok (hf_response_tracker f) \<and> body_ok f"

lemma frame_tracker_ok: "frame f f' \<Longrightarrow> tracker_ok (hf_response_tracker f') = tracker_ok (hf_response_tracker f)"
  by (auto simp: frame_def tracker_ok_def split: response_state.split)

lemma flush_and_check_invar:
  assumes "flush_and_check f out = Some (f', out', Ok u)"
    and "length (hf_server_pending f) \<le> RELAY_BUF_SIZE" "tracker_ok (hf_response_tracker f)" "body_ok f"
  shows "filter_invar f'"
proof -
  obtain r where r: "flush_pending_requests f out = Some (f', out', r)" "ensure_pending_limit f' = Ok ()"
    using assms(1) by (auto simp: flush_and_check_def split: Option.bind_splits result.splits)
  then have "frame f f'" "body_ok f'"
    using flush_pending_requests_frame flush_pending_requests_body_ok assms(4) by blast+
  then show ?thesis
    using assms r(2) frame_tracker_ok [of f f'] by (auto simp: filter_invar_def frame_def)
qed

lemma filter_invar_body:
  "filter_invar f \<Longrightarrow> (case b of BodyChunked p \<Rightarrow> parser_ok p | _ \<Rightarrow> True) \<Longrightarrow> filter_invar (f\<lparr> hf_body := b \<rparr>)"
  by (auto simp: filter_invar_def ensure_pending_limit_def body_ok_def split: if_splits)

lemma body_ok_update [simp]:
  "body_ok (f\<lparr> hf_pending := p \<rparr>) = body_ok f"
  "body_ok (f\<lparr> hf_server_pending := p \<rparr>) = body_ok f"
  "body_ok (f\<lparr> hf_upgrade_pending := u \<rparr>) = body_ok f"
  "body_ok (f\<lparr> hf_response_tracker := t \<rparr>) = body_ok f"
  by (simp_all add: body_ok_def)

lemma push_loop_invar: "push_loop f input out = Some (f', out', Ok u) \<Longrightarrow> filter_invar f \<Longrightarrow> filter_invar f'"
proof (induction f input out rule: push_loop.induct)
  case (1 f input out)
  show ?case
  proof (cases "input = []")
    case True
    then show ?thesis using "1.prems" by (simp add: push_loop.simps [of f "[]" out])
  next
    case False
    show ?thesis
    proof (cases "hf_body f")
      case BodyHeaders
      then show ?thesis
        using False "1.prems" flush_and_check_invar [of "f\<lparr> hf_pending := hf_pending f @ input \<rparr>" out f' out']
        by (simp add: push_loop.simps [of f input out] filter_invar_def)
    next
      case (BodyFixed n)
      have "filter_invar (f\<lparr> hf_body := (if n - min n (length input) = 0 then BodyHeaders
          else BodyFixed (n - min n (length input))) \<rparr>)"
        using "1.prems" by (intro filter_invar_body) simp_all
      then show ?thesis
        using False "1.IH"(1) [OF False BodyFixed refl] "1.prems" BodyFixed
        by (simp add: push_loop.simps [of f input out] Let_def copy_def del: diff_is_0_eq)
    next
      case (BodyChunked parser)
      obtain parser' r where c: "consume parser input = (parser', r)" by (cases "consume parser input")
      have "parser_ok parser" using "1.prems" BodyChunked by (simp add: filter_invar_def body_ok_def)
      then have "filter_invar (f\<lparr> hf_body := BodyHeaders \<rparr>) \<and> filter_invar (f\<lparr> hf_body := BodyChunked parser' \<rparr>)"
        if "r = Ok v" for v
        using "1.prems" consume_ok [of parser input parser' v] c that by (auto intro: filter_invar_body)
      then show ?thesis
        using False "1.IH"(2) [OF False BodyChunked c [symmetric]] "1.prems"
        by (cases r) (auto simp: push_loop.simps [of f input out] BodyChunked c Let_def copy_def split: if_splits)
    next
      case BodyRaw
      then show ?thesis
        using "1.prems" False by (auto simp: push_loop.simps [of f input out] split: prod.splits)
    qed
  qed
qed

lemma ensure_limit_tracker: "ensure_pending_limit (f\<lparr> hf_response_tracker := t \<rparr>) = ensure_pending_limit f"
  by (simp add: ensure_pending_limit_def)

lemma push_invar: "push f input = Some (f', out, Ok b) \<Longrightarrow> filter_invar f \<Longrightarrow> filter_invar f'"
  by (auto simp: push_def finish_def Let_def filter_invar_def [of "f\<lparr> hf_pending := p \<rparr>" for p]
      split: if_splits Option.bind_splits result.splits dest: push_loop_invar) (auto simp: filter_invar_def)

lemma observe_server_invar:
  assumes "observe_server_plaintext f input = Some (f', out, Ok b)" "filter_invar f"
  shows "filter_invar f'"
proof -
  have inv: "length (hf_server_pending f) \<le> RELAY_BUF_SIZE" "tracker_ok (hf_response_tracker f)"
      "ensure_pending_limit f = Ok ()" "body_ok f"
    using assms(2) by (auto simp: filter_invar_def)
  have flush: "filter_invar f'" if a: "finish (flush_and_check g []) = Some (f', out, Ok b)"
      and s: "hf_server_pending g = []" "hf_response_tracker g = hf_response_tracker f" "body_ok g" for g
  proof -
    obtain u where "flush_and_check g [] = Some (f', out, Ok u)"
      using a by (cases "flush_and_check g []") (auto simp: finish_def split: result.splits)
    then show ?thesis using flush_and_check_invar s inv by simp
  qed
  have updates:
    "filter_invar (g\<lparr> hf_upgrade_pending := u \<rparr>) = filter_invar g"
    "filter_invar (g\<lparr> hf_server_pending := p \<rparr>) \<longleftrightarrow>
       ensure_pending_limit g = Ok () \<and> length p \<le> RELAY_BUF_SIZE \<and> tracker_ok (hf_response_tracker g) \<and> body_ok g"
    "filter_invar (g\<lparr> hf_pending := [] \<rparr>) \<longleftrightarrow>
       length (hf_server_pending g) \<le> RELAY_BUF_SIZE \<and> tracker_ok (hf_response_tracker g) \<and> body_ok g"
    "ensure_pending_limit (g\<lparr> hf_upgrade_pending := u \<rparr>) = ensure_pending_limit g"
    "body_ok (g\<lparr> hf_body := BodyRaw \<rparr>)"
    "ensure_pending_limit (g\<lparr> hf_body := r \<rparr>) = ensure_pending_limit g" for g u p r
    by (simp_all add: filter_invar_def ensure_pending_limit_def header_boundary_def MAX_BUFFERED_HTTP_HEADERS_def
        body_ok_def)
  show ?thesis
    using assms inv flush [of "f\<lparr> hf_upgrade_pending := False, hf_server_pending := [] \<rparr>"]
    unfolding observe_server_plaintext_def Let_def
    by (auto simp: updates split: if_splits option.splits prod.splits result.splits)
qed

lemma error_of_None: "(case r of Ok _ \<Rightarrow> None | Err e \<Rightarrow> Some e) = None \<longleftrightarrow> (\<exists>v. r = Ok v)"
  by (cases r) auto

lemma filter_call_invar: "filter_call f op = Some (f', out, None) \<Longrightarrow> filter_invar f \<Longrightarrow> filter_invar f'"
proof (cases op)
  case (Response input)
  assume a: "filter_call f op = Some (f', out, None)" "filter_invar f"
  obtain t r where t: "observe (hf_response_tracker f) input = (t, r)" by (cases "observe (hf_response_tracker f) input")
  then show ?thesis
    using a Response observe_ok [of "hf_response_tracker f" input t]
    by (auto simp: observe_response_def filter_invar_def ensure_limit_tracker split: result.splits)
qed (auto simp: error_of_None dest: push_invar observe_server_invar)

lemma filter_new_invar: "filter_invar (filter_new s host)"
  by (simp add: filter_invar_def filter_new_def ensure_pending_limit_def header_boundary_def tracker_new_def
      tracker_ok_def body_ok_def MAX_BUFFERED_HTTP_HEADERS_def)

lemma filter_run_invar:
  "filter_run f ops = Some (f', outs, None) \<Longrightarrow> filter_invar f \<Longrightarrow> filter_invar f'"
  by (induction ops arbitrary: f outs)
    (auto split: Option.bind_splits option.splits, metis filter_call_invar)

lemma filter_run_total: "placeholders_nonempty (hf_secrets f) \<Longrightarrow> returns (filter_run f ops)"
proof (induction ops arbitrary: f)
  case (Cons op ops)
  obtain f' out e where c: "filter_call f op = Some (f', out, e)"
    using filter_call_total [OF Cons.prems, of op] by (auto simp: returns_def)
  have "placeholders_nonempty (hf_secrets f')"
    using filter_call_keeps [of f op] Cons.prems by (simp add: c)
  then show ?case using Cons.IH by (auto simp: c split: option.split)
qed simp

text \<open>
  Claim C8.  If no placeholder is empty, no sequence of calls panics: every slice the filter
  takes is in range and the base64 buffers it sizes are never refused.  And as long as the calls
  succeed, what it buffers is bounded: at most one mebibyte of requests, at most 64 KiB of them
  while no header block is complete, at most 16 KiB of an upgrade answer, at most 64 KiB of response
  headers, and at most 64 KiB of a chunk size line or trailer in the parser of a chunked request
  and in that of a chunked response, whatever the peers send.
\<close>

theorem http1_bounded_and_total:
  assumes "placeholders_nonempty s"
  shows "case filter_run (filter_new s host) ops of
      None \<Rightarrow> False
    | Some (f, outs, e) \<Rightarrow> e = None \<longrightarrow>
        length (hf_pending f) \<le> 1024 * 1024 \<and>
        (header_boundary (hf_pending f) = None \<longrightarrow> length (hf_pending f) \<le> 64 * 1024) \<and>
        length (hf_server_pending f) \<le> 16 * 1024 \<and>
        length (rt_pending (hf_response_tracker f)) \<le> 64 * 1024 \<and>
        (case hf_body f of BodyChunked p \<Rightarrow> length (ch_line p) \<le> 64 * 1024 | _ \<Rightarrow> True) \<and>
        (case rt_state (hf_response_tracker f) of
           RespChunked p \<Rightarrow> length (ch_line p) \<le> 64 * 1024 | _ \<Rightarrow> True)"
proof -
  have "returns (filter_run (filter_new s host) ops)"
    using assms by (intro filter_run_total) (simp add: filter_new_def)
  then obtain f outs e where r: "filter_run (filter_new s host) ops = Some (f, outs, e)"
    by (auto simp: returns_def)
  have "filter_invar f" if "e = None"
    using filter_run_invar [OF _ filter_new_invar] r that by blast
  then show ?thesis
    by (auto simp: r filter_invar_def ensure_pending_limit_def tracker_ok_def body_ok_def parser_ok_def
        MAX_BUFFERED_HTTP_HEADERS_def MAX_BUFFERED_HTTP_REQUEST_def
        split: if_splits response_state.splits body_state.splits)
qed

theorem http1_bounded_and_total_witness:
  "\<exists>f outs e. filter_run (filter_new [secret_new [1] [2] [[97]]] [97]) [Push [71, 69, 84], ServerPlaintext [1]] = Some (f, outs, e)"
proof -
  have "placeholders_nonempty [secret_new [1] [2] [[97]]]"
    by (simp add: placeholders_nonempty_def secret_new_def)
  from http1_bounded_and_total [OF this, of "[97]" "[Push [71, 69, 84], ServerPlaintext [1]]"]
  show ?thesis by (auto split: option.splits)
qed

end
