(* ===== verification/Http1Transparent.thy ===== *)
theory Http1Transparent
  imports Http1Limits
begin

text \<open>
  Without secrets the filter is a pipe: what it has emitted followed by what it still buffers is
  what the client sent, whatever the segmentation, the framing of the bodies and the upgrades.
\<close>

section \<open>Substitution without secrets\<close>

lemma substitute_bytes_none:
  "substitute_bytes_for_host [] host payload = Some (Ok c) \<Longrightarrow> c = Borrowed payload"
  by (auto simp: substitute_bytes_for_host_def cow_of_def Let_def split: result.splits)

lemma substitute_token_none:
  "substitute_token [] host token scratch = Some (scratch', Ok r) \<Longrightarrow> r = None"
  unfolding substitute_token_def Let_def
  by (auto split: option.splits Option.bind_splits prod.splits result.splits cow.splits dest: substitute_bytes_none)

lemma substitute_line_none:
  "substitute_basic_auth_header_line_for_host [] host line scratch = Some (scratch', Ok r) \<Longrightarrow> r = None"
  unfolding substitute_basic_auth_header_line_for_host_def Let_def
  by (auto split: option.splits Option.bind_splits prod.splits result.splits dest!: substitute_token_none)

lemma basic_auth_lines_none:
  "basic_auth_lines s host before rest out scratch = Some (scratch', Ok r) \<Longrightarrow> s = [] \<Longrightarrow> out = None \<Longrightarrow> r = None"
proof (induction s host before rest out scratch rule: basic_auth_lines.induct)
  case (1 s host before rest out scratch)
  show ?case
  proof (cases "rest = []")
    case True
    then show ?thesis using "1.prems" by (simp add: basic_auth_lines.simps [of "[]" host before "[]" None scratch])
  next
    case False
    define line where "line = take (line_end rest) rest"
    obtain scratch1 q where q: "substitute_basic_auth_header_line_for_host s host line scratch = Some (scratch1, Ok q)"
    proof -
      obtain scratch1 q0 where q0: "substitute_basic_auth_header_line_for_host s host line scratch = Some (scratch1, q0)"
        using "1.prems"(1) False
        by (cases "substitute_basic_auth_header_line_for_host s host line scratch")
          (auto simp: basic_auth_lines.simps [of s host before rest out scratch] line_def)
      then show thesis
        using "1.prems"(1) False that
        by (cases q0) (auto simp: basic_auth_lines.simps [of s host before rest out scratch] line_def)
    qed
    then have n: "q = None" using substitute_line_none "1.prems"(2) by blast
    show ?thesis
      using "1.IH"(1) [OF False line_def q refl refl n] "1.prems" False q n
      by (simp add: basic_auth_lines.simps [of "[]" host before rest None scratch] line_def)
  qed
qed

lemma substitute_headers_none:
  assumes "substitute_http_header_bytes_for_host [] host headers scratch = Some (scratch', Ok c)"
  shows "c = Borrowed headers"
proof -
  obtain raw where raw: "substitute_bytes_for_host [] host headers = Some (Ok raw)"
    using assms by (auto simp: substitute_http_header_bytes_for_host_def split: Option.bind_splits result.splits)
  then have "raw = Borrowed headers" by (rule substitute_bytes_none)
  then show ?thesis
    using assms raw
    by (auto simp: substitute_http_header_bytes_for_host_def substitute_basic_auth_headers_for_host_def
        split: Option.bind_splits result.splits option.splits dest: basic_auth_lines_none)
qed

lemma substitute_http_none:
  assumes "substitute_http_for_host_into [] host input mode out scratch = Some (scratch', out', Ok b)"
  shows "out' = out @ input"
proof -
  have "substitute_body_bytes_for_host [] host body = Some (Borrowed body)" for body
    by (simp add: substitute_body_bytes_for_host_def cow_of_def)
  then show ?thesis
    using assms unfolding substitute_http_for_host_into_def substitute_http_request_for_host_into_def
      substitute_http_headers_for_host_into_def pass_without_headers_def process_def http_result_def Let_def
    by (auto split: body_mode.splits option.splits Option.bind_splits prod.splits result.splits
        dest!: substitute_headers_none)
qed

section \<open>One flush\<close>

text \<open>Output and buffer together hold the same bytes.\<close>

definition carried :: "http1_filter \<Rightarrow> bytes \<Rightarrow> bytes" where
  "carried f out = out @ hf_pending f"

text \<open>While a body is passed through, nothing is buffered and no upgrade is awaited.\<close>

definition phase_ok :: "http1_filter \<Rightarrow> bool" where
  "phase_ok f \<longleftrightarrow> hf_secrets f = [] \<and> (hf_body f \<noteq> BodyHeaders \<longrightarrow> hf_pending f = [] \<and> \<not> hf_upgrade_pending f)"

definition header_phase :: "http1_filter \<Rightarrow> bool" where
  "header_phase f \<longleftrightarrow> hf_secrets f = [] \<and> hf_body f = BodyHeaders \<and> \<not> hf_upgrade_pending f"

lemma header_phase_ok: "header_phase f \<Longrightarrow> phase_ok f"
  by (simp add: header_phase_def phase_ok_def)

lemma emit_pending_none:
  assumes "emit_pending f len mode out next = Some (f', out', flow)" "hf_secrets f = []" "\<forall>e. flow \<noteq> Fail e"
  obtains scratch where "next (f\<lparr> hf_header_rewrite := scratch \<rparr>) (out @ take len (hf_pending f)) = Some (f', out', flow)"
proof -
  obtain scratch out1 b where
      s: "substitute_http_for_host_into [] (hf_host f) (take len (hf_pending f)) mode out (hf_header_rewrite f) =
        Some (scratch, out1, Ok b)"
      and n: "next (f\<lparr> hf_header_rewrite := scratch \<rparr>) out1 = Some (f', out', flow)"
    using assms unfolding emit_pending_def Let_def by (auto split: Option.bind_splits result.splits)
  show thesis using that n unfolding substitute_http_none [OF s] by blast
qed

lemma three_parts: "take a xs @ take n (drop a xs) @ drop (a + n) xs = xs"
  by (metis append_take_drop_id drop_drop add.commute)

lemma stream_fixed_none:
  assumes "stream_fixed_request_body f len off mode out = Some (f', out', flow)" "header_phase f"
    and "\<forall>e. flow \<noteq> Fail e" "off \<le> length (hf_pending f)"
  shows "carried f' out' = carried f out \<and> (if flow = Continue then header_phase f' else phase_ok f')"
proof -
  obtain scratch where "(let available_body = length (hf_pending f) - off; body_take = min len available_body;
           (out, _) = copy (take body_take (drop off (hf_pending f))) (out @ take off (hf_pending f));
           f = drain_pending (off + body_take) (f\<lparr> hf_header_rewrite := scratch \<rparr>);
           f = (if body_take < len then f\<lparr> hf_body := BodyFixed (len - body_take) \<rparr> else f)
       in Some (f, out, if body_take = len then Continue else Break)) = Some (f', out', flow)"
    using assms unfolding stream_fixed_request_body_def
    by (elim emit_pending_none) (auto simp: header_phase_def)
  then show ?thesis
    using assms(2,4)
    by (auto simp: Let_def copy_def drain_pending_def carried_def header_phase_def phase_ok_def min_def
        three_parts split: if_splits)
qed

lemma stream_chunked_none:
  assumes "stream_chunked_request_body f off mode out = Some (f', out', flow)" "header_phase f"
    and "\<forall>e. flow \<noteq> Fail e" "off \<le> length (hf_pending f)"
  shows "carried f' out' = carried f out \<and> (if flow = Continue then header_phase f' else phase_ok f')"
proof -
  obtain parser r where c: "consume chunked_default (drop off (hf_pending f)) = (parser, r)"
    by (cases "consume chunked_default (drop off (hf_pending f))")
  show ?thesis
  proof (cases r)
    case (Ok nc)
    obtain k complete where k: "nc = (k, complete)" by (cases nc)
    obtain scratch where
        "(if complete then Some (drain_pending (off + k) (f\<lparr> hf_header_rewrite := scratch \<rparr>),
             out @ take off (hf_pending f) @ take k (drop off (hf_pending f)), Continue)
          else Some ((drain_pending (off + k) (f\<lparr> hf_header_rewrite := scratch \<rparr>))\<lparr> hf_body := BodyChunked parser \<rparr>,
             out @ take off (hf_pending f) @ take k (drop off (hf_pending f)), Break)) = Some (f', out', flow)"
      using assms unfolding stream_chunked_request_body_def
      by (elim emit_pending_none) (auto simp: header_phase_def c Ok k Let_def copy_def split: if_splits)
    moreover have "\<not> complete \<longrightarrow> k = length (drop off (hf_pending f))"
      using consume_bound [of chunked_default "drop off (hf_pending f)" parser k complete] c Ok k by simp
    ultimately show ?thesis
      using assms(2,4)
      by (auto simp: drain_pending_def carried_def header_phase_def phase_ok_def three_parts split: if_splits)
  next
    case (Err e)
    then show ?thesis
      using assms unfolding stream_chunked_request_body_def
      by (elim emit_pending_none) (auto simp: header_phase_def c)
  qed
qed

lemma expect_response_phase [simp]:
  "header_phase (expect_response r f) = header_phase f" "carried (expect_response r f) out = carried f out"
  by (simp_all add: header_phase_def carried_def expect_response_def)

lemma flush_one_request_none:
  assumes "flush_one_request f out b = Some (f', out', flow)" "header_phase f"
    and "\<forall>e. flow \<noteq> Fail e" "header_boundary (hf_pending f) = Some b"
  shows "carried f' out' = carried f out \<and> (if flow = Continue then header_phase f' else phase_ok f')"
proof -
  define off where "off = b + 4"
  define headers where "headers = take off (hf_pending f)"
  define g where "g = expect_response (response_request headers) f"
  define mode where "mode = (if request_authority_matches headers (hf_host f) then ModeSubstitute else ModeNone)"
  have off: "off \<le> length (hf_pending g)" using header_boundary_bound [OF assms(4)] by (simp add: off_def g_def)
  have g: "header_phase g" "carried g = carried f" "hf_secrets g = []" "hf_pending g = hf_pending f"
    using assms(2) by (auto simp: g_def header_phase_def expect_response_def carried_def)
  note body = assms(1) [unfolded flush_one_request_def Let_def, folded off_def, folded headers_def, folded g_def mode_def]
  have stream: ?thesis if "stream_fixed_request_body g len off mode out = Some (f', out', flow)" for len
    using stream_fixed_none [OF that g(1) assms(3) off] g(2) by simp
  show ?thesis
  proof (cases "is_github_workflow_dispatch_request headers (hf_host f)")
    case True
    then show ?thesis using body assms(3) by auto
  next
    case False
    note body = body [unfolded if_not_P [OF False]]
    show ?thesis
    proof (cases "request_body headers")
      case ReqNone
      then have "emit_pending g off (body_mode_of mode) out
          (\<lambda>f out. Some (drain_pending off f, out, Continue)) = Some (f', out', flow)"
        using body by simp
      then show ?thesis
        using g assms(3) by (elim emit_pending_none)
          (auto simp: drain_pending_def carried_def header_phase_def)
    next
      case (ReqFixed len)
      note body = body [unfolded ReqFixed request_body_kind.case]
      show ?thesis
      proof (cases "len \<le> MAX_BUFFERED_HTTP_REQUEST \<and> \<not> is_expect_continue headers")
        case False
        then have "stream_fixed_request_body g len off mode out = Some (f', out', flow)"
          using body by (cases "len \<le> MAX_BUFFERED_HTTP_REQUEST") simp_all
        then show ?thesis by (rule stream)
      next
        case True
        show ?thesis
        proof (cases "length (hf_pending f) < off + len")
          case True
          then have "f' = f" "out' = out" "flow = Break"
            using body \<open>_ \<and> \<not> is_expect_continue headers\<close> by simp_all
          then show ?thesis using assms(2) header_phase_ok by simp
        next
          case False
          then have "emit_pending g (off + len) (body_mode_of mode) out
              (\<lambda>f out. Some (drain_pending (off + len) f, out, Continue)) = Some (f', out', flow)"
            using body True by simp
          then show ?thesis
            using g assms(3) by (elim emit_pending_none)
              (auto simp: drain_pending_def carried_def header_phase_def)
        qed
      qed
    next
      case ReqChunked
      then have "stream_chunked_request_body g off mode out = Some (f', out', flow)" using body by simp
      from stream_chunked_none [OF this g(1) assms(3) off] show ?thesis using g(2) by simp
    next
      case ReqUpgrade
      then have "emit_pending g off (header_mode_of mode) out (\<lambda>f out.
              Some ((drain_pending off f)\<lparr> hf_upgrade_pending := True, hf_server_pending := [] \<rparr>, out, Break)) =
          Some (f', out', flow)"
        using body by simp
      then show ?thesis
        using g assms(3) by (elim emit_pending_none)
          (auto simp: drain_pending_def carried_def header_phase_def phase_ok_def)
    qed
  qed
qed

section \<open>Whole calls\<close>

lemma flush_pending_requests_none:
  "flush_pending_requests f out = Some (f', out', Ok u) \<Longrightarrow> header_phase f \<Longrightarrow>
    carried f' out' = carried f out \<and> phase_ok f'"
proof (induction f out rule: flush_pending_requests.induct)
  case (1 f out)
  show ?case
  proof (cases "header_boundary (hf_pending f)")
    case None
    then show ?thesis
      using "1.prems" header_phase_ok by (auto simp: flush_pending_requests.simps [of f out])
  next
    case (Some b)
    obtain f1 out1 flow where r: "flush_one_request f out b = Some (f1, out1, flow)"
      using "1.prems" by (cases "flush_one_request f out b") (auto simp: flush_pending_requests.simps [of f out] Some)
    have "\<forall>e. flow \<noteq> Fail e"
      using "1.prems"(1) by (auto simp: flush_pending_requests.simps [of f out] Some r)
    then show ?thesis
      using "1.prems" "1.IH" [OF Some r refl refl] flush_one_request_none [OF r "1.prems"(2) _ Some]
      by (cases flow) (simp_all add: flush_pending_requests.simps [of f out] Some r)
  qed
qed

lemma flush_and_check_none:
  "flush_and_check f out = Some (f', out', Ok u) \<Longrightarrow> header_phase f \<Longrightarrow> carried f' out' = carried f out \<and> phase_ok f'"
  by (auto simp: flush_and_check_def split: Option.bind_splits result.splits dest: flush_pending_requests_none)

lemma push_loop_none:
  "push_loop f input out = Some (f', out', Ok u) \<Longrightarrow> phase_ok f \<Longrightarrow> \<not> hf_upgrade_pending f \<Longrightarrow>
    carried f' out' = carried f out @ input \<and> phase_ok f'"
proof (induction f input out rule: push_loop.induct)
  case (1 f input out)
  show ?case
  proof (cases "input = []")
    case True
    then show ?thesis using "1.prems" by (simp add: push_loop.simps [of f "[]" out])
  next
    case False
    show ?thesis
    proof (cases "hf_body f")
      case BodyHeaders
      then show ?thesis
        using False "1.prems" flush_and_check_none [of "f\<lparr> hf_pending := hf_pending f @ input \<rparr>" out f' out']
        by (simp add: push_loop.simps [of f input out] phase_ok_def header_phase_def carried_def)
    next
      case (BodyFixed n)
      then show ?thesis
        using False "1.IH"(1) [OF False BodyFixed refl] "1.prems"
        by (auto simp: push_loop.simps [of f input out] Let_def copy_def phase_ok_def carried_def split: if_splits)
    next
      case (BodyChunked parser)
      obtain parser' r where c: "consume parser input = (parser', r)" by (cases "consume parser input")
      show ?thesis
      proof (cases r)
        case (Ok nc)
        obtain n complete where nc: "nc = (n, complete)" by (cases nc)
        have "n \<noteq> 0" using consume_bound [of parser input parser' n complete] c Ok nc False by simp
        then show ?thesis
          using False "1.IH"(2) [OF False BodyChunked c [symmetric] Ok nc [symmetric]] "1.prems"
          by (auto simp: push_loop.simps [of f input out] BodyChunked c Ok nc Let_def copy_def phase_ok_def carried_def
              split: if_splits)
      qed (use "1.prems" False in \<open>simp add: push_loop.simps [of f input out] BodyChunked c\<close>)
    next
      case BodyRaw
      then show ?thesis
        using "1.prems" False
        by (auto simp: push_loop.simps [of f input out] process_def http_result_def phase_ok_def carried_def
            split: prod.splits result.splits)
    qed
  qed
qed

text \<open>What a call adds to the client's stream.\<close>

fun pushed :: "filter_op \<Rightarrow> bytes" where
  "pushed (Push input) = input"
| "pushed _ = []"

lemma finish_Ok: "finish step = Some (f, out, Ok b) \<Longrightarrow> \<exists>u. step = Some (f, out, Ok u)"
  by (cases step) (auto simp: finish_def split: result.splits)

lemma filter_call_none:
  assumes "filter_call f op = Some (f', out, None)" "phase_ok f"
  shows "out @ hf_pending f' = hf_pending f @ pushed op \<and> phase_ok f'"
proof (cases op)
  case (Push input)
  then obtain b where p: "push f input = Some (f', out, Ok b)" using assms(1) by (auto simp: error_of_None)
  show ?thesis
  proof (cases "hf_upgrade_pending f")
    case True
    then show ?thesis using p assms(2) by (auto simp: Push push_def Let_def phase_ok_def split: result.splits)
  next
    case False
    then obtain u where "push_loop f input [] = Some (f', out, Ok u)"
      using p finish_Ok by (auto simp: push_def)
    then show ?thesis using push_loop_none assms(2) False by (fastforce simp: Push carried_def)
  qed
next
  case (ServerPlaintext input)
  then obtain b where p: "observe_server_plaintext f input = Some (f', out, Ok b)"
    using assms(1) by (auto simp: error_of_None)
  define g where "g = f\<lparr> hf_upgrade_pending := False, hf_server_pending := [] \<rparr>"
  have g: "header_phase g" "hf_pending g = hf_pending f" if "hf_upgrade_pending f"
    using assms(2) that by (auto simp: g_def header_phase_def phase_ok_def)
  have "carried f' out = carried g [] \<and> phase_ok f'" if "hf_upgrade_pending f" "finish (flush_and_check g []) = Some (f', out, Ok b)"
    using finish_Ok [OF that(2)] flush_and_check_none g(1) [OF that(1)] by blast
  then show ?thesis
    using p g assms(2) unfolding observe_server_plaintext_def Let_def g_def
    by (auto simp: ServerPlaintext carried_def phase_ok_def process_def split: if_splits option.splits result.splits)
next
  case (Response input)
  then show ?thesis
    using assms by (auto simp: observe_response_def phase_ok_def split: prod.splits)
qed

lemma filter_run_none:
  "filter_run f ops = Some (f', outs, None) \<Longrightarrow> phase_ok f \<Longrightarrow>
    concat outs @ hf_pending f' = hf_pending f @ concat (map pushed ops)"
proof (induction ops arbitrary: f outs)
  case (Cons op ops)
  obtain f1 out outs1 where "filter_call f op = Some (f1, out, None)"
      "filter_run f1 ops = Some (f', outs1, None)" "outs = out # outs1"
    using Cons.prems(1) by (auto split: Option.bind_splits option.splits)
  then show ?case
    using Cons.IH [of f1 outs1] filter_call_none [of f op f1 out] Cons.prems(2)
    by simp
qed simp

text \<open>
  Claim C3.  On a connection without secrets the filter loses, duplicates, changes and reorders
  nothing: after any sequence of calls that succeeded, the bytes emitted followed by the bytes
  still buffered are exactly the bytes the client sent, however they were cut into calls, through
  fixed-length, chunked and upgraded bodies.
\<close>

theorem http1_transparent_without_secrets:
  "case filter_run (filter_new [] host) ops of
     Some (f, outs, None) \<Rightarrow> concat outs @ hf_pending f = concat (map pushed ops)
   | _ \<Rightarrow> True"
  using filter_run_none [of "filter_new [] host" ops]
  by (auto simp: filter_new_def phase_ok_def split: option.split)

end
