(* ===== verification/Http1Chunks.thy ===== *)
theory Http1Chunks
  imports Http1Response
begin

text \<open>
  The chunked parser on well-formed bodies: it ends at the byte where the body ends, not before
  and not after, so that what follows is read as the next request.  On the way, printing and
  parsing numbers are inverse, for the hexadecimal chunk sizes and for the decimal content length
  the filter writes.
\<close>

section \<open>Numbers\<close>

definition digit_char :: "nat \<Rightarrow> u8" where
  "digit_char d = of_nat (if d < 10 then 48 + d else 87 + d)"

function digits_of :: "nat \<Rightarrow> nat \<Rightarrow> nat list" where
  "digits_of radix n = (if radix < 2 \<or> n < radix then [n] else digits_of radix (n div radix) @ [n mod radix])"
  by pat_completeness auto
termination
  by (relation "measure snd") auto

declare digits_of.simps [simp del]

definition number_text :: "nat \<Rightarrow> nat \<Rightarrow> bytes" where
  "number_text radix n = map digit_char (digits_of radix n)"

lemma digits_of_props:
  "2 \<le> radix \<Longrightarrow> digits_of radix n \<noteq> [] \<and> (\<forall>d\<in>set (digits_of radix n). d < radix) \<and>
    foldl (\<lambda>a d. a * radix + d) 0 (digits_of radix n) = n"
proof (induction radix n rule: digits_of.induct)
  case (1 radix n)
  show ?case
  proof (cases "n < radix")
    case True
    then show ?thesis using 1 by (simp add: digits_of.simps [of radix n])
  next
    case False
    then show ?thesis
      using 1 by (subst (1 2 3) digits_of.simps) (auto simp: mult.commute)
  qed
qed

lemma digit_char_value: "d < 36 \<Longrightarrow> digit_value (digit_char d) = Some d"
  by (auto simp: digit_value_def digit_char_def word_le_nat_alt unat_of_nat)

text \<open>Letters and digits: the bytes of printed numbers.\<close>

definition alnum :: "u8 \<Rightarrow> bool" where
  "alnum b \<longleftrightarrow> 48 \<le> b \<and> b \<le> 57 \<or> 97 \<le> b \<and> b \<le> 122"

lemma digit_char_alnum: "d < 36 \<Longrightarrow> alnum (digit_char d)"
  by (auto simp: alnum_def digit_char_def word_le_nat_alt unat_of_nat)

lemma foldl_digits_mono:
  fixes a radix :: nat
  assumes "1 \<le> radix"
  shows "a \<le> foldl (\<lambda>a d. a * radix + d) a ds"
proof (induction ds arbitrary: a)
  case (Cons d ds)
  have "a \<le> a * radix + d" using assms by (simp add: trans_le_add1)
  then show ?case using Cons [of "a * radix + d"] by simp
qed simp

lemma digits_value_text:
  assumes "1 \<le> radix" "radix \<le> 36" "\<forall>d\<in>set ds. d < radix" "foldl (\<lambda>a d. a * radix + d) acc ds < limit"
  shows "digits_value radix limit acc (map digit_char ds) = Some (foldl (\<lambda>a d. a * radix + d) acc ds)"
  using assms(3,4)
proof (induction ds arbitrary: acc)
  case (Cons d ds)
  have "acc * radix + d \<le> foldl (\<lambda>a d. a * radix + d) (acc * radix + d) ds"
    by (rule foldl_digits_mono [OF assms(1)])
  then have "acc * radix + d < limit" using Cons.prems by simp
  then show ?case using Cons assms(2) by (simp add: digit_char_value)
qed simp

lemma number_text_props:
  assumes "2 \<le> radix" "radix \<le> 36"
  shows "number_text radix n \<noteq> []" "\<forall>b\<in>set (number_text radix n). alnum b"
  using digits_of_props [OF assms(1), of n] assms(2)
  by (auto simp: number_text_def intro!: digit_char_alnum elim: less_le_trans)

lemma parse_number_text:
  assumes "2 \<le> radix" "radix \<le> 36" "n < limit"
  shows "parse_radix radix limit (number_text radix n) = Some n"
proof -
  obtain b s where t: "number_text radix n = b # s" using number_text_props(1) [OF assms(1,2)] by (cases "number_text radix n") auto
  then have "alnum b" using number_text_props(2) [OF assms(1,2), of n] by simp
  then have "b \<noteq> 43" by (auto simp: alnum_def)
  moreover have "digits_value radix limit 0 (number_text radix n) = Some n"
    using digits_of_props [OF assms(1), of n] digits_value_text [of radix "digits_of radix n" 0 limit] assms
    by (simp add: number_text_def)
  ultimately show ?thesis by (simp add: parse_radix_def t del: digits_value.simps)
qed

section \<open>White space and text around a number\<close>

lemma utf8_valid_ascii: "\<forall>b\<in>set s. b < 0x80 \<Longrightarrow> utf8_valid s"
proof (induction s)
  case (Cons b s)
  then show ?case by (subst utf8_valid.simps) (simp add: utf8_char_def)
qed (simp add: utf8_valid.simps)

lemma alnum_ascii: "alnum b \<Longrightarrow> b < 0x80"
  by (auto simp: alnum_def word_le_nat_alt word_less_nat_alt)

text \<open>Visible ASCII characters: no white space character, of any length, contains one.\<close>

definition solid :: "u8 \<Rightarrow> bool" where
  "solid b \<longleftrightarrow> 0x21 \<le> b \<and> b \<le> 0x7E"

lemma alnum_solid: "alnum b \<Longrightarrow> solid b"
  by (auto simp: alnum_def solid_def word_le_nat_alt)

lemma white_space_solid: "w \<in> set white_space_chars \<Longrightarrow> \<not> (\<exists>b\<in>set w. solid b)"
  by (auto simp: white_space_chars_def solid_def)

lemma no_white_space_prefix: "s \<noteq> [] \<Longrightarrow> solid (hd s) \<Longrightarrow> white_space_prefix s = 0"
proof -
  assume s: "s \<noteq> []" "solid (hd s)"
  have "\<not> starts_with s w" if "w \<in> set white_space_chars" for w
  proof
    assume "starts_with s w"
    then have "hd w = hd s" using white_space_nonempty [OF that] s(1)
      unfolding starts_with_def by (metis hd_take length_greater_0_conv)
    moreover have "hd w \<in> set w" using white_space_nonempty [OF that] by simp
    ultimately show False using white_space_solid [OF that] s(2) by auto
  qed
  then show ?thesis using find_mem by (fastforce simp: white_space_prefix_def split: option.split)
qed

lemma white_space_suffix_solid: "solid c \<Longrightarrow> white_space_suffix (s @ c # t) \<le> length t"
proof -
  assume c: "solid c"
  have "length w \<le> length t" if w: "w \<in> set white_space_chars" "ends_with (s @ c # t) w" for w
  proof (rule ccontr)
    assume a: "\<not> length w \<le> length t"
    have "w = drop (length (s @ c # t) - length w) s @ c # t"
      using w(2) a by (auto simp: ends_with_def)
    then show False using white_space_solid [OF w(1)] c by (metis in_set_conv_decomp)
  qed
  then show ?thesis using find_mem by (fastforce simp: white_space_suffix_def split: option.split)
qed

text \<open>Trimming the end stops at a solid byte at the latest.\<close>

lemma trim_end_solid: "solid c \<Longrightarrow> \<exists>t'. trim_end (s @ c # t) = s @ c # t'"
proof (induction t rule: length_induct)
  case (1 t)
  let ?n = "white_space_suffix (s @ c # t)"
  have n: "?n \<le> length t" by (rule white_space_suffix_solid [OF "1.prems"])
  show ?case
  proof (cases "?n = 0")
    case True
    then show ?thesis by (subst trim_end.simps) auto
  next
    case False
    have "take (length (s @ c # t) - ?n) (s @ c # t) = s @ c # take (length t - ?n) t"
      using n by (simp add: Suc_diff_le)
    then have "trim_end (s @ c # t) = trim_end (s @ c # take (length t - ?n) t)"
      using False by (subst trim_end.simps) (simp add: Let_def)
    then show ?thesis using "1.IH" "1.prems" False n by simp
  qed
qed

lemma trim_start_solid: "s \<noteq> [] \<Longrightarrow> solid (hd s) \<Longrightarrow> trim_start s = s"
  using no_white_space_prefix [of s] by (subst trim_start.simps) simp

lemma ends_with_single: "ends_with (s @ [x]) [y] \<longleftrightarrow> x = y"
  by (auto simp: ends_with_def)

lemma white_space_suffix_single:
  "b \<in> {9, 10, 13, 32} \<Longrightarrow> white_space_suffix (s @ [b]) = 1"
  by (auto simp: white_space_suffix_def white_space_chars_def ends_with_single)

lemma trim_printable:
  assumes "s \<noteq> []" "\<forall>b\<in>set s. solid b" "set ws \<subseteq> {9, 10, 13, 32}"
  shows "trim (s @ ws) = s"
proof -
  have "trim_start (s @ ws) = s @ ws"
    using assms by (intro trim_start_solid) (auto simp: hd_append)
  moreover have "trim_end (s @ ws) = s"
    using assms(3)
  proof (induction ws rule: rev_induct)
    case Nil
    obtain u c where "s = u @ [c]" "solid c" using assms(1,2) by (cases s rule: rev_cases) auto
    then have "white_space_suffix s = 0" using white_space_suffix_solid [of c u "[]"] by simp
    then show ?case by (subst trim_end.simps) simp
  next
    case (snoc b ws)
    then have "white_space_suffix ((s @ ws) @ [b]) = 1" by (intro white_space_suffix_single) auto
    then show ?case using snoc by (subst trim_end.simps) simp
  qed
  ultimately show ?thesis by (simp add: trim_def)
qed

lemma trim_solid:
  "s \<noteq> [] \<Longrightarrow> \<forall>b\<in>set s. alnum b \<Longrightarrow> set ws \<subseteq> {9, 10, 13, 32} \<Longrightarrow> trim (s @ ws) = s"
  using alnum_solid by (intro trim_printable) auto

lemma split_by_none: "\<forall>b\<in>set s. \<not> p b \<Longrightarrow> split_by p s = [s]"
  by (induction s) auto

section \<open>Chunk size lines\<close>

text \<open>
  The reference grammar.  A size is a run of hexadecimal digits, in either case and with any
  leading zeros; what follows it on the line, up to the line end, is blanks and then nothing or
  a semicolon and an extension in ASCII.
\<close>

definition hex_chars :: bytes where
  "hex_chars = byte_string ''0123456789abcdefABCDEF''"

definition size_digit :: "u8 \<Rightarrow> nat" where
  "size_digit b = (let i = length (takeWhile (\<lambda>c. c \<noteq> b) hex_chars) in if i < 16 then i else i - 6)"

definition size_value :: "bytes \<Rightarrow> nat" where
  "size_value s = foldl (\<lambda>a b. a * 16 + size_digit b) 0 s"

definition hex_number :: "bytes \<Rightarrow> bool" where
  "hex_number s \<longleftrightarrow> s \<noteq> [] \<and> set s \<subseteq> set hex_chars"

definition chunk_extension :: "bytes \<Rightarrow> bool" where
  "chunk_extension ext \<longleftrightarrow>
     list_all (\<lambda>b. b < 0x80 \<and> b \<noteq> 10) ext \<and>
     (case dropWhile (\<lambda>b. b = 9 \<or> b = 32) ext of [] \<Rightarrow> True | b # _ \<Rightarrow> b = 59)"

lemma size_byte:
  "b \<in> set hex_chars \<Longrightarrow>
     digit_value b = Some (size_digit b) \<and> size_digit b < 16 \<and> solid b \<and> b \<noteq> 43 \<and> b \<noteq> 59 \<and> b < 0x80"
  by (auto simp: hex_chars_def byte_string_def size_digit_def digit_value_def solid_def)

lemma hex_no_line_feed: "10 \<notin> set hex_chars"
  by (simp add: hex_chars_def byte_string_def)

lemma digits_value_hex:
  assumes "set s \<subseteq> set hex_chars" "foldl (\<lambda>a b. a * 16 + size_digit b) acc s < limit"
  shows "digits_value 16 limit acc s = Some (foldl (\<lambda>a b. a * 16 + size_digit b) acc s)"
  using assms
proof (induction s arbitrary: acc)
  case (Cons b s)
  have "foldl (\<lambda>a b. a * 16 + size_digit b) a s = foldl (\<lambda>a d. a * 16 + d) a (map size_digit s)" for a
    by (simp add: foldl_map)
  then have "acc * 16 + size_digit b \<le> foldl (\<lambda>a b. a * 16 + size_digit b) (acc * 16 + size_digit b) s"
    using foldl_digits_mono [of 16] by simp
  then show ?case using Cons size_byte [of b] by simp
qed simp

lemma parse_size_number:
  "hex_number s \<Longrightarrow> size_value s < limit \<Longrightarrow> parse_radix 16 limit s = Some (size_value s)"
  using digits_value_hex [of s 0 limit] size_byte [of "hd s"]
  by (cases s) (auto simp: parse_radix_def hex_number_def size_value_def simp del: digits_value.simps)

lemma split_by_hd: "\<forall>b\<in>set s. \<not> p b \<Longrightarrow> p c \<Longrightarrow> hd (split_by p (s @ c # t)) = s"
proof (induction s)
  case (Cons b s)
  then show ?case by (cases "split_by p (s @ c # t)") auto
qed simp

lemma parse_chunk_size_text:
  assumes "hex_number s" "size_value s < USIZE_LIMIT" "chunk_extension ext"
  shows "parse_chunk_size (s @ ext @ [13, 10]) = Some (size_value s)"
proof -
  have s: "s \<noteq> []" "\<forall>b\<in>set s. solid b" "\<forall>b\<in>set s. b \<noteq> 59" "\<forall>b\<in>set s. b < 0x80"
    using assms(1) size_byte by (auto simp: hex_number_def)
  define ws where "ws = takeWhile (\<lambda>b. b = 9 \<or> b = 32) ext"
  have ws: "set ws \<subseteq> {9, 32}" by (auto simp: ws_def dest: set_takeWhileD)
  have "utf8_valid (s @ ext @ [13, 10])"
    using assms(3) s(4) by (intro utf8_valid_ascii) (auto simp: chunk_extension_def list_all_iff)
  moreover have "trim (hd (split_by (\<lambda>b. b = 59) (trim (s @ ext @ [13, 10])))) = s"
  proof (cases "dropWhile (\<lambda>b. b = 9 \<or> b = 32) ext")
    case Nil
    then have "ext = ws" unfolding ws_def by (metis append_Nil2 takeWhile_dropWhile_id)
    then have "trim (s @ ext @ [13, 10]) = s"
      using trim_printable [OF s(1,2), of "ws @ [13, 10]"] ws by auto
    then show ?thesis using s trim_printable [OF s(1,2), of "[]"] by (simp add: split_by_none)
  next
    case (Cons c params)
    then have "ext = ws @ c # params" unfolding ws_def by (metis takeWhile_dropWhile_id)
    moreover have "c = 59" using assms(3) Cons by (simp add: chunk_extension_def)
    ultimately have ext: "ext = ws @ 59 # params" by simp
    have "trim_start (s @ ext @ [13, 10]) = s @ ext @ [13, 10]"
      using s(1,2) by (intro trim_start_solid) (auto simp: hd_append)
    moreover have "solid 59" by (simp add: solid_def)
    then obtain t where "trim_end ((s @ ws) @ 59 # params @ [13, 10]) = (s @ ws) @ 59 # t"
      using trim_end_solid [of 59 "s @ ws" "params @ [13, 10]"] by blast
    ultimately have "trim (s @ ext @ [13, 10]) = (s @ ws) @ 59 # t" by (simp add: trim_def ext)
    moreover have "\<forall>b\<in>set (s @ ws). b \<noteq> 59" using s(3) ws by auto
    ultimately show ?thesis
      using split_by_hd [of "s @ ws" "\<lambda>b. b = 59" 59 t] trim_printable [OF s(1,2), of ws] ws by auto
  qed
  ultimately show ?thesis
    using parse_size_number [OF assms(1,2)] by (simp add: parse_chunk_size_def from_utf8_def)
qed

section \<open>Chunked bodies\<close>

text \<open>
  A chunk: its size as written, the rest of its size line, and its data.  The data is not empty
  and as long as the size says; the line is within the limit.  The body ends with a chunk of size
  zero, trailer fields and an empty line.
\<close>

type_synonym chunk = "bytes \<times> bytes \<times> bytes"

definition size_line_ok :: "bytes \<Rightarrow> bytes \<Rightarrow> nat \<Rightarrow> bool" where
  "size_line_ok s ext n \<longleftrightarrow>
     hex_number s \<and> size_value s = n \<and> n < 2 ^ 64 \<and> chunk_extension ext \<and>
     length s + length ext + 2 \<le> 64 * 1024"

definition chunk_ok :: "chunk \<Rightarrow> bool" where
  "chunk_ok = (\<lambda>(s, ext, c). c \<noteq> [] \<and> size_line_ok s ext (length c))"

definition chunk_text :: "chunk \<Rightarrow> bytes" where
  "chunk_text = (\<lambda>(s, ext, c). s @ ext @ [13, 10] @ c @ [13, 10])"

definition trailer_text :: "bytes list \<Rightarrow> bytes" where
  "trailer_text trailers = concat (map (\<lambda>field. field @ [13, 10]) trailers)"

definition trailer_ok :: "bytes list \<Rightarrow> bool" where
  "trailer_ok trailers \<longleftrightarrow>
     list_all (\<lambda>field. field \<noteq> [] \<and> 10 \<notin> set field) trailers \<and>
     length (trailer_text trailers) + 2 \<le> 64 * 1024"

definition chunked_body :: "chunk list \<Rightarrow> bytes \<times> bytes \<Rightarrow> bytes list \<Rightarrow> bytes" where
  "chunked_body chunks last_chunk trailers =
     concat (map chunk_text chunks) @ fst last_chunk @ snd last_chunk @ [13, 10] @
     trailer_text trailers @ [13, 10]"

text \<open>\<open>feeds p xs p'\<close>: the parser takes \<open>xs\<close> without completing and is then \<open>p'\<close>.\<close>

definition feeds :: "chunked_parser \<Rightarrow> bytes \<Rightarrow> chunked_parser \<Rightarrow> bool" where
  "feeds p xs p' \<longleftrightarrow> (\<forall>n ys. consume_from p (xs @ ys) n = consume_from p' ys (n + length xs))"

lemma feeds_append: "feeds p xs q \<Longrightarrow> feeds q ys r \<Longrightarrow> feeds p (xs @ ys) r"
  by (simp add: feeds_def add.assoc)

lemma feeds_Nil [simp]: "feeds p [] p"
  by (simp add: feeds_def)

lemma feeds_byte: "push_byte p b = (p', Ok u) \<Longrightarrow> ch_state p' \<noteq> ChunkComplete \<Longrightarrow> feeds p [b] p'"
  by (simp add: feeds_def)

definition at_size :: chunked_parser where
  "at_size = \<lparr> ch_state = ChunkSize, ch_line = [] \<rparr>"

lemma feeds_size_line:
  assumes "length line + length s \<le> MAX_BUFFERED_HTTP_HEADERS" "10 \<notin> set s"
  shows "feeds \<lparr> ch_state = ChunkSize, ch_line = line \<rparr> s \<lparr> ch_state = ChunkSize, ch_line = line @ s \<rparr>"
  using assms
proof (induction s arbitrary: line)
  case (Cons b s)
  have "push_byte \<lparr> ch_state = ChunkSize, ch_line = line \<rparr> b = (\<lparr> ch_state = ChunkSize, ch_line = line @ [b] \<rparr>, Ok ())"
    using Cons.prems by (auto simp: push_byte_def ensure_chunk_scratch_limit_def)
  then have "feeds \<lparr> ch_state = ChunkSize, ch_line = line \<rparr> [b] \<lparr> ch_state = ChunkSize, ch_line = line @ [b] \<rparr>"
    by (rule feeds_byte) simp
  from feeds_append [OF this Cons.IH [of "line @ [b]"]] Cons.prems show ?case by simp
qed simp

lemma feeds_size:
  assumes "size_line_ok s ext n"
  shows "feeds at_size (s @ ext @ [13, 10])
    \<lparr> ch_state = (if n = 0 then ChunkTrailer else ChunkData n), ch_line = [] \<rparr>"
proof -
  let ?t = "s @ ext @ [13]"
  have ok: "hex_number s" "size_value s = n" "n < 2 ^ 64" "chunk_extension ext"
      "length ?t < MAX_BUFFERED_HTTP_HEADERS"
    using assms by (auto simp: size_line_ok_def MAX_BUFFERED_HTTP_HEADERS_def)
  have no: "10 \<notin> set ?t"
    using ok(1,4) hex_no_line_feed by (auto simp: hex_number_def chunk_extension_def list_all_iff)
  have "feeds at_size ?t \<lparr> ch_state = ChunkSize, ch_line = ?t \<rparr>"
    using feeds_size_line [of "[]" ?t] ok(5) no by (simp add: at_size_def)
  moreover have "push_byte \<lparr> ch_state = ChunkSize, ch_line = ?t \<rparr> 10 =
      (\<lparr> ch_state = (if n = 0 then ChunkTrailer else ChunkData n), ch_line = [] \<rparr>, Ok ())"
    using parse_chunk_size_text [of s ext] ok by (simp add: push_byte_def ensure_chunk_scratch_limit_def)
  then have "feeds \<lparr> ch_state = ChunkSize, ch_line = ?t \<rparr> [10]
      \<lparr> ch_state = (if n = 0 then ChunkTrailer else ChunkData n), ch_line = [] \<rparr>"
    by (rule feeds_byte) simp
  ultimately show ?thesis using feeds_append by fastforce
qed

lemma feeds_data:
  "c \<noteq> [] \<Longrightarrow> feeds \<lparr> ch_state = ChunkData (length c), ch_line = [] \<rparr> c \<lparr> ch_state = ChunkDataCr, ch_line = [] \<rparr>"
proof (induction c)
  case (Cons b c)
  show ?case
  proof (cases "c = []")
    case True
    then show ?thesis by (simp, intro feeds_byte) (auto simp: push_byte_def)
  next
    case False
    have "feeds \<lparr> ch_state = ChunkData (length (b # c)), ch_line = [] \<rparr> [b] \<lparr> ch_state = ChunkData (length c), ch_line = [] \<rparr>"
      using False by (intro feeds_byte) (auto simp: push_byte_def)
    from feeds_append [OF this Cons.IH [OF False]] show ?thesis by simp
  qed
qed simp

lemma feeds_chunk:
  assumes "chunk_ok chunk"
  shows "feeds at_size (chunk_text chunk) at_size"
proof -
  obtain s ext c where chunk: "chunk = (s, ext, c)" by (cases chunk)
  then have c: "c \<noteq> []" "size_line_ok s ext (length c)" using assms by (auto simp: chunk_ok_def)
  have "feeds \<lparr> ch_state = ChunkDataCr, ch_line = [] \<rparr> [13] \<lparr> ch_state = ChunkDataLf, ch_line = [] \<rparr>"
      "feeds \<lparr> ch_state = ChunkDataLf, ch_line = [] \<rparr> [10] at_size"
    by (rule feeds_byte; simp add: push_byte_def at_size_def)+
  from feeds_append [OF this] have e: "feeds \<lparr> ch_state = ChunkDataCr, ch_line = [] \<rparr> [13, 10] at_size" by simp
  show ?thesis
    using feeds_append [OF feeds_size [OF c(2)] feeds_append [OF _ e]] feeds_data [OF c(1)] c(1)
    by (simp add: chunk_text_def chunk)
qed

lemma feeds_chunks: "list_all chunk_ok chunks \<Longrightarrow> feeds at_size (concat (map chunk_text chunks)) at_size"
proof (induction chunks)
  case (Cons c chunks)
  then have "feeds at_size (chunk_text c) at_size" using feeds_chunk by simp
  with Cons show ?case using feeds_append by fastforce
qed simp

text \<open>The trailer: no byte of a non-empty field completes the body, nor does the line end after it.\<close>

definition in_trailer :: "bytes \<Rightarrow> chunked_parser" where
  "in_trailer line = \<lparr> ch_state = ChunkTrailer, ch_line = line \<rparr>"

lemma feeds_trailer_byte:
  assumes "length line < MAX_BUFFERED_HTTP_HEADERS"
    and "\<not> ends_with (line @ [b]) CRLFCRLF" "line @ [b] \<noteq> [13, 10]"
  shows "feeds (in_trailer line) [b] (in_trailer (line @ [b]))"
  using assms by (intro feeds_byte) (auto simp: in_trailer_def push_byte_def ensure_chunk_scratch_limit_def)

lemma not_ended: "b \<noteq> 10 \<Longrightarrow> \<not> ends_with (line @ [b]) CRLFCRLF \<and> line @ [b] \<noteq> [13, 10]"
  by (auto simp: ends_with_def CRLFCRLF_def Suc_le_eq dest!: arg_cong [where f = last])

lemma feeds_trailer_text:
  "10 \<notin> set s \<Longrightarrow> length line + length s \<le> MAX_BUFFERED_HTTP_HEADERS \<Longrightarrow>
     feeds (in_trailer line) s (in_trailer (line @ s))"
proof (induction s arbitrary: line)
  case (Cons b s)
  then have "feeds (in_trailer line) [b] (in_trailer (line @ [b]))"
    using not_ended [of b line] by (intro feeds_trailer_byte) auto
  from feeds_append [OF this Cons.IH [of "line @ [b]"]] Cons.prems show ?case by simp
qed simp

lemma feeds_field:
  assumes "field \<noteq> []" "10 \<notin> set field" "length line + length field + 2 \<le> MAX_BUFFERED_HTTP_HEADERS"
  shows "feeds (in_trailer line) (field @ [13, 10]) (in_trailer (line @ field @ [13, 10]))"
proof -
  obtain u c where field: "field = u @ [c]" "c \<noteq> 10" using assms(1,2) by (cases field rule: rev_cases) auto
  have "\<not> ends_with ((line @ field @ [13]) @ [10]) CRLFCRLF"
    using field by (auto simp: ends_with_def CRLFCRLF_def drop_Cons' Suc_le_eq)
  then have "feeds (in_trailer (line @ field @ [13])) [10] (in_trailer ((line @ field @ [13]) @ [10]))"
    using assms by (intro feeds_trailer_byte) auto
  moreover have "feeds (in_trailer line) (field @ [13]) (in_trailer (line @ field @ [13]))"
    using assms by (intro feeds_trailer_text) auto
  ultimately show ?thesis using feeds_append by fastforce
qed

lemma feeds_trailer:
  "list_all (\<lambda>field. field \<noteq> [] \<and> 10 \<notin> set field) trailers \<Longrightarrow>
   length line + length (trailer_text trailers) \<le> MAX_BUFFERED_HTTP_HEADERS \<Longrightarrow>
     feeds (in_trailer line) (trailer_text trailers) (in_trailer (line @ trailer_text trailers))"
proof (induction trailers arbitrary: line)
  case (Cons field trailers)
  have "feeds (in_trailer line) (field @ [13, 10]) (in_trailer (line @ field @ [13, 10]))"
    using Cons.prems by (intro feeds_field) (auto simp: trailer_text_def)
  from feeds_append [OF this Cons.IH [of "line @ field @ [13, 10]"]] Cons.prems
  show ?case by (simp add: trailer_text_def)
qed (simp add: trailer_text_def)

lemma trailer_end:
  assumes "trailer_ok trailers"
  shows "consume_from (in_trailer (trailer_text trailers)) ([13, 10] @ ys) n =
    (\<lparr> ch_state = ChunkComplete, ch_line = trailer_text trailers @ [13, 10] \<rparr>, Ok (n + 2, True))"
proof -
  have len: "length (trailer_text trailers) + 2 \<le> MAX_BUFFERED_HTTP_HEADERS"
    using assms by (simp add: trailer_ok_def MAX_BUFFERED_HTTP_HEADERS_def)
  have complete: "ends_with (trailer_text trailers @ [13, 10]) CRLFCRLF \<or> trailer_text trailers @ [13, 10] = [13, 10]"
    by (cases trailers rule: rev_cases) (auto simp: trailer_text_def ends_with_def CRLFCRLF_def)
  have "push_byte (in_trailer (trailer_text trailers)) 13 = (in_trailer (trailer_text trailers @ [13]), Ok ())"
    using len not_ended [of 13 "trailer_text trailers"]
    by (simp add: in_trailer_def push_byte_def ensure_chunk_scratch_limit_def)
  moreover have "push_byte (in_trailer (trailer_text trailers @ [13])) 10 =
      (\<lparr> ch_state = ChunkComplete, ch_line = trailer_text trailers @ [13, 10] \<rparr>, Ok ())"
    using len complete by (auto simp: in_trailer_def push_byte_def ensure_chunk_scratch_limit_def)
  ultimately show ?thesis by (simp add: in_trailer_def)
qed

lemma consume_from_complete_prefix:
  "consume_from p xs n = (q, Ok (m, True)) \<Longrightarrow> consume_from p (xs @ ys) n = (q, Ok (m, True))"
  by (induction xs arbitrary: p n) (auto split: prod.splits result.splits if_splits)

lemma consume_from_prefix_Ok:
  "consume_from p (xs @ ys) n = (q, Ok r) \<Longrightarrow> \<exists>q' r'. consume_from p xs n = (q', Ok r')"
  by (induction xs arbitrary: p n) (auto split: prod.splits result.splits if_splits)

text \<open>
  Claim C25.  The parser finds the end of a chunked body exactly.  Take any well-formed body: any
  chunks that are not empty, each under a size line with hexadecimal digits of either case,
  leading zeros, blanks and a chunk extension in ASCII, then a last chunk of size zero with an
  extension of its own, and any trailer fields, each size line and the trailer within 64 KiB.
  Given the body followed by anything the parser reports completion after the body and leaves
  what follows; given a proper prefix of it, it takes all of it and reports that the body is not
  complete.
\<close>

theorem chunked_body_exact:
  assumes "list_all chunk_ok chunks" "size_line_ok (fst last_chunk) (snd last_chunk) 0" "trailer_ok trailers"
  shows "let body = chunked_body chunks last_chunk trailers in
    snd (consume chunked_default (body @ rest)) = Ok (length body, True) \<and>
    (k < length body \<longrightarrow> snd (consume chunked_default (take k body)) = Ok (k, False))"
proof -
  let ?b = "chunked_body chunks last_chunk trailers"
  have "feeds at_size (concat (map chunk_text chunks) @ (fst last_chunk @ snd last_chunk @ [13, 10]) @ trailer_text trailers)
      (in_trailer (trailer_text trailers))"
    using feeds_append [OF feeds_chunks [OF assms(1)] feeds_append [OF feeds_size [OF assms(2)]]]
      feeds_trailer [of trailers "[]"] assms(3)
    by (simp add: in_trailer_def trailer_ok_def MAX_BUFFERED_HTTP_HEADERS_def)
  then have full: "consume_from at_size (?b @ ys) 0 =
      (\<lparr> ch_state = ChunkComplete, ch_line = trailer_text trailers @ [13, 10] \<rparr>, Ok (length ?b, True))" for ys
    using trailer_end [OF assms(3)] unfolding feeds_def chunked_body_def by (simp del: consume_from.simps)
  have "snd (consume chunked_default (take k ?b)) = Ok (k, False)" if "k < length ?b"
  proof -
    have "\<exists>q' r'. consume_from at_size (take k ?b) 0 = (q', Ok r')"
      using consume_from_prefix_Ok [of at_size "take k ?b" "drop k ?b" 0] full [of "[]"] by simp
    then obtain q m c where q: "consume_from at_size (take k ?b) 0 = (q, Ok (m, c))" by force
    then have "\<not> c"
      using consume_from_complete_prefix [of at_size "take k ?b" 0 q m "drop k ?b"] full [of "[]"]
        consume_from_bound [OF q] that by auto
    then show ?thesis
      using consume_from_bound [OF q] that q by (simp add: consume_def at_size_def chunked_default_def)
  qed
  then show ?thesis using full [of rest] by (simp add: consume_def at_size_def chunked_default_def Let_def)
qed

text \<open>Two chunks, one with an extension and one with a padded upper-case size, and a trailer field.\<close>

theorem chunked_body_exact_witness:
  "snd (consume chunked_default (byte_string ''2;a=b'' @ [13, 10, 104, 105, 13, 10] @
     byte_string ''00B '' @ [13, 10] @ byte_string ''hello world'' @ [13, 10] @
     byte_string ''0;end'' @ [13, 10] @ byte_string ''X-Sum: 1'' @ [13, 10, 13, 10] @ [71, 69, 84])) = Ok (49, True)"
proof -
  let ?chunks = "[(byte_string ''2'', byte_string '';a=b'', [104, 105]), (byte_string ''00B'', [32], byte_string ''hello world'')]"
  let ?last = "(byte_string ''0'', byte_string '';end'')"
  let ?trailers = "[byte_string ''X-Sum: 1'']"
  have ok: "list_all chunk_ok ?chunks" "size_line_ok (fst ?last) (snd ?last) 0" "trailer_ok ?trailers"
    by (simp_all add: chunk_ok_def size_line_ok_def hex_number_def size_value_def size_digit_def hex_chars_def
        byte_string_def chunk_extension_def trailer_ok_def trailer_text_def)
  have body: "chunked_body ?chunks ?last ?trailers @ [71, 69, 84] = byte_string ''2;a=b'' @ [13, 10, 104, 105, 13, 10] @
     byte_string ''00B '' @ [13, 10] @ byte_string ''hello world'' @ [13, 10] @
     byte_string ''0;end'' @ [13, 10] @ byte_string ''X-Sum: 1'' @ [13, 10, 13, 10] @ [71, 69, 84]"
    and "length (chunked_body ?chunks ?last ?trailers) = 49"
    by (simp_all add: chunked_body_def chunk_text_def trailer_text_def byte_string_def)
  then show ?thesis using chunked_body_exact [OF ok, of "[71, 69, 84]" 0] by (simp add: Let_def)
qed

end
