(* ===== verification/Http1Pipeline.thy ===== *)
theory Http1Pipeline
  imports Http1Safety Http1Chunks
begin

text \<open>
  Pushing more bytes at once.  When a call ends between two bodies, giving it more input leaves what
  it did as it was, and goes on as another call with the rest would: a request is treated the same
  whether it comes in its own call or behind others.
\<close>

section \<open>Boundaries\<close>

lemma find_window_append: "find_window needle s = Some i \<Longrightarrow> find_window needle (s @ t) = Some i"
proof (induction s arbitrary: i)
  case (Cons b s)
  have "starts_with (b # s @ t) needle \<longleftrightarrow> starts_with (b # s) needle" if "length needle \<le> Suc (length s)"
    using that take_append [of "length needle" "b # s" t] by (simp add: starts_with_def)
  moreover have "length needle \<le> Suc (length s)"
    using find_window_Some [OF Cons.prems] by simp
  ultimately show ?case using Cons by (auto split: if_splits)
qed simp

lemma header_boundary_append: "header_boundary s = Some b \<Longrightarrow> header_boundary (s @ t) = Some b"
  unfolding header_boundary_def by (rule find_window_append)

lemma consume_append:
  "consume p xs = (q, Ok (m, True)) \<Longrightarrow> consume p (xs @ ys) = (q, Ok (m, True))"
  unfolding consume_def by (rule consume_from_complete_prefix)

section \<open>The buffer\<close>

definition more_pending :: "bytes \<Rightarrow> http1_filter \<Rightarrow> http1_filter" where
  "more_pending ys f = f\<lparr> hf_pending := hf_pending f @ ys \<rparr>"

lemma more_pending_simps [simp]:
  "hf_secrets (more_pending ys f) = hf_secrets f" "hf_host (more_pending ys f) = hf_host f"
  "hf_pending (more_pending ys f) = hf_pending f @ ys" "hf_header_rewrite (more_pending ys f) = hf_header_rewrite f"
  "hf_body (more_pending ys f) = hf_body f" "hf_upgrade_pending (more_pending ys f) = hf_upgrade_pending f"
  "hf_response_tracker (more_pending ys f) = hf_response_tracker f"
  by (simp_all add: more_pending_def)

lemma more_pending_updates:
  "(more_pending ys f)\<lparr> hf_header_rewrite := s \<rparr> = more_pending ys (f\<lparr> hf_header_rewrite := s \<rparr>)"
  "expect_response r (more_pending ys f) = more_pending ys (expect_response r f)"
  "n \<le> length (hf_pending f) \<Longrightarrow> drain_pending n (more_pending ys f) = more_pending ys (drain_pending n f)"
  by (simp_all add: more_pending_def expect_response_def drain_pending_def)

text \<open>Between two bodies: the next byte is read as part of a request head, or of a body that is buffered whole.\<close>

definition between_bodies :: "http1_filter \<Rightarrow> bool" where
  "between_bodies f \<longleftrightarrow> hf_body f = BodyHeaders \<and> \<not> hf_upgrade_pending f"

lemma emit_pending_append:
  assumes "emit_pending f len mode out next = Some (f', out', Continue)" "len \<le> length (hf_pending f)"
    and "\<And>s out1. next (f\<lparr> hf_header_rewrite := s \<rparr>) out1 = Some (f', out', Continue) \<Longrightarrow>
      next' (more_pending ys (f\<lparr> hf_header_rewrite := s \<rparr>)) out1 = Some (more_pending ys f', out', Continue)"
  shows "emit_pending (more_pending ys f) len mode out next' = Some (more_pending ys f', out', Continue)"
  using assms unfolding emit_pending_def Let_def
  by (auto simp: more_pending_updates split: Option.bind_splits prod.splits result.splits)

lemma stream_fixed_append:
  assumes "stream_fixed_request_body f len n mode out = Some (f', out', Continue)" "n \<le> length (hf_pending f)"
  shows "stream_fixed_request_body (more_pending ys f) len n mode out = Some (more_pending ys f', out', Continue)"
  unfolding stream_fixed_request_body_def
  by (rule emit_pending_append [OF assms(1) [unfolded stream_fixed_request_body_def] assms(2)])
    (use assms(2) in \<open>auto simp: Let_def copy_def min_def more_pending_updates split: if_splits\<close>)

lemma stream_chunked_append:
  assumes "stream_chunked_request_body f n mode out = Some (f', out', Continue)" "n \<le> length (hf_pending f)"
  shows "stream_chunked_request_body (more_pending ys f) n mode out = Some (more_pending ys f', out', Continue)"
  unfolding stream_chunked_request_body_def
proof (rule emit_pending_append [OF assms(1) [unfolded stream_chunked_request_body_def] assms(2)])
  fix s out1
  let ?in = "drop n (hf_pending f)"
  assume a: "(case consume chunked_default (drop n (hf_pending (f\<lparr> hf_header_rewrite := s \<rparr>))) of
       (_, Err e) \<Rightarrow> Some (f\<lparr> hf_header_rewrite := s \<rparr>, out1, Fail e)
     | (parser, Ok (body_take, complete)) \<Rightarrow>
        (let (out, _) = copy (take body_take (drop n (hf_pending (f\<lparr> hf_header_rewrite := s \<rparr>)))) out1;
             f = drain_pending (n + body_take) (f\<lparr> hf_header_rewrite := s \<rparr>)
         in if \<not> complete then Some (f\<lparr> hf_body := BodyChunked parser \<rparr>, out, Break) else Some (f, out, Continue))) =
     Some (f', out', Continue)"
  then obtain q m where c: "consume chunked_default ?in = (q, Ok (m, True))"
      and r: "f' = drain_pending (n + m) (f\<lparr> hf_header_rewrite := s \<rparr>)" "out' = out1 @ take m ?in"
    by (auto simp: Let_def copy_def split: prod.splits result.splits if_splits)
  have "m \<le> length ?in" using consume_bound [OF c] by blast
  moreover have "consume chunked_default (?in @ ys) = (q, Ok (m, True))" by (rule consume_append [OF c])
  ultimately show "(case consume chunked_default (drop n (hf_pending (more_pending ys (f\<lparr> hf_header_rewrite := s \<rparr>)))) of
       (_, Err e) \<Rightarrow> Some (more_pending ys (f\<lparr> hf_header_rewrite := s \<rparr>), out1, Fail e)
     | (parser, Ok (body_take, complete)) \<Rightarrow>
        (let (out, _) = copy (take body_take (drop n (hf_pending (more_pending ys (f\<lparr> hf_header_rewrite := s \<rparr>))))) out1;
             f = drain_pending (n + body_take) (more_pending ys (f\<lparr> hf_header_rewrite := s \<rparr>))
         in if \<not> complete then Some (f\<lparr> hf_body := BodyChunked parser \<rparr>, out, Break) else Some (f, out, Continue))) =
     Some (more_pending ys f', out', Continue)"
    using assms(2) r by (simp add: Let_def copy_def more_pending_updates)
qed

lemma flush_one_request_append:
  assumes "header_boundary (hf_pending f) = Some b" "flush_one_request f out b = Some (f', out', Continue)"
  shows "flush_one_request (more_pending ys f) out b = Some (more_pending ys f', out', Continue)"
proof -
  have b: "b + 4 \<le> length (hf_pending f)" using header_boundary_bound [OF assms(1)] by simp
  define h where "h = take (b + 4) (hf_pending f)"
  define g where "g = expect_response (response_request h) f"
  define mode where "mode = (if request_authority_matches h (hf_host f) then ModeSubstitute else ModeNone)"
  have g: "hf_pending g = hf_pending f" by (simp add: g_def expect_response_def)
  have head: "take (b + 4) (hf_pending f @ ys) = h" using b by (simp add: h_def)
  have emit: "emit_pending (more_pending ys g) n m out (\<lambda>f out. Some (drain_pending n f, out, Continue)) =
      Some (more_pending ys f', out', Continue)"
    if "emit_pending g n m out (\<lambda>f out. Some (drain_pending n f, out, Continue)) = Some (f', out', Continue)"
      "n \<le> length (hf_pending g)" for n m
    by (rule emit_pending_append [OF that]) (use that(2) in \<open>auto simp: more_pending_updates\<close>)
  note unfold = flush_one_request_def Let_def more_pending_simps head more_pending_updates(2)
    h_def [symmetric] g_def [symmetric] mode_def [symmetric]
  have d: "\<not> is_github_workflow_dispatch_request h (hf_host f)"
    using assms(2) unfolding unfold by auto
  show ?thesis
  proof (cases "request_body h")
    case ReqNone
    then show ?thesis using assms(2) d emit b g unfolding unfold by simp
  next
    case (ReqFixed len)
    then show ?thesis
      using assms(2) d emit b g stream_fixed_append [of g len "b + 4" mode out f' out' ys] unfolding unfold
      by (auto split: if_splits)
  next
    case ReqChunked
    then show ?thesis
      using assms(2) d b g stream_chunked_append [of g "b + 4" mode out f' out' ys] unfolding unfold by simp
  next
    case ReqUpgrade
    then show ?thesis using assms(2) d unfolding unfold by (auto elim!: emit_pending_outcome)
  qed
qed

text \<open>A round that stops between two bodies waits for the rest of a body that is buffered whole.\<close>

lemma flush_one_request_waits:
  assumes "flush_one_request f out b = Some (f', out', Break)" "hf_body f' = BodyHeaders" "\<not> hf_upgrade_pending f'"
  shows "f' = f \<and> out' = out"
  using assms unfolding flush_one_request_def Let_def stream_fixed_request_body_def stream_chunked_request_body_def
  by (auto simp: copy_def elim!: emit_pending_outcome
      split: if_splits request_body_kind.splits prod.splits result.splits)

lemma flush_pending_append:
  "flush_pending_requests f out = Some (f', out', Ok u) \<Longrightarrow> between_bodies f' \<Longrightarrow>
    flush_pending_requests (more_pending ys f) out = flush_pending_requests (more_pending ys f') out'"
proof (induction f out rule: flush_pending_requests.induct)
  case (1 f out)
  show ?case
  proof (cases "header_boundary (hf_pending f)")
    case None
    then show ?thesis using "1.prems" by (simp add: flush_pending_requests.simps [of f out])
  next
    case (Some b)
    obtain f1 out1 flow where r: "flush_one_request f out b = Some (f1, out1, flow)"
      using "1.prems" by (cases "flush_one_request f out b") (auto simp: flush_pending_requests.simps [of f out] Some)
    show ?thesis
    proof (cases flow)
      case Continue
      then have "flush_pending_requests (more_pending ys f1) out1 = flush_pending_requests (more_pending ys f') out'"
        using "1.IH" [OF Some r refl refl] "1.prems" by (simp add: flush_pending_requests.simps [of f out] Some r)
      moreover have "flush_pending_requests (more_pending ys f) out = flush_pending_requests (more_pending ys f1) out1"
        using flush_one_request_append [OF Some r [unfolded Continue]] header_boundary_append [OF Some]
        by (simp add: flush_pending_requests.simps [of "more_pending ys f" out])
      ultimately show ?thesis by simp
    next
      case Break
      then have "f' = f1" "out' = out1" using "1.prems"(1) by (simp_all add: flush_pending_requests.simps [of f out] Some r)
      then show ?thesis using flush_one_request_waits [OF r [unfolded Break]] "1.prems"(2) by (simp add: between_bodies_def)
    next
      case (Fail e)
      then show ?thesis using "1.prems"(1) by (simp add: flush_pending_requests.simps [of f out] Some r)
    qed
  qed
qed

lemma flush_and_check_Ok:
  "flush_and_check f out = Some (f', out', Ok u) \<Longrightarrow> flush_pending_requests f out = Some (f', out', Ok ())"
  by (auto simp: flush_and_check_def split: Option.bind_splits result.splits)

section \<open>A call\<close>

lemma push_loop_append:
  "push_loop f xs out = Some (f', out', Ok u) \<Longrightarrow> between_bodies f' \<Longrightarrow> ys \<noteq> [] \<Longrightarrow>
    push_loop f (xs @ ys) out = flush_and_check (more_pending ys f') out'"
proof (induction f xs out rule: push_loop.induct)
  case (1 f input out)
  show ?case
  proof (cases "input = []")
    case True
    then show ?thesis
      using "1.prems" by (simp add: push_loop.simps [of f "[]" out] push_loop.simps [of f' ys out'] between_bodies_def more_pending_def)
  next
    case False
    show ?thesis
    proof (cases "hf_body f")
      case BodyHeaders
      then have "flush_and_check (more_pending input f) out = Some (f', out', Ok u)"
        using "1.prems"(1) False by (simp add: push_loop.simps [of f input out] more_pending_def)
      from flush_pending_append [OF flush_and_check_Ok [OF this] "1.prems"(2), of ys]
      show ?thesis
        using BodyHeaders False by (simp add: push_loop.simps [of f "input @ ys" out] flush_and_check_def more_pending_def)
    next
      case (BodyFixed n)
      show ?thesis
      proof (cases "n \<le> length input")
        case True
        then show ?thesis
          using "1.IH"(1) [OF False BodyFixed refl] "1.prems" False BodyFixed
          by (simp add: push_loop.simps [of f input out] push_loop.simps [of f "input @ ys" out] Let_def copy_def min_def)
      next
        case False
        then show ?thesis
          using "1.prems" \<open>input \<noteq> []\<close> BodyFixed
          by (auto simp: push_loop.simps [of f input out] push_loop.simps [of _ "[]"] Let_def copy_def min_def
              between_bodies_def)
      qed
    next
      case (BodyChunked parser)
      obtain parser' r where c: "consume parser input = (parser', r)" by (cases "consume parser input")
      show ?thesis
      proof (cases r)
        case (Ok nc)
        obtain n complete where nc: "nc = (n, complete)" by (cases nc)
        have n: "0 < n" "n \<le> length input" "\<not> complete \<longrightarrow> n = length input"
          using consume_bound [of parser input parser' n complete] c Ok nc False by auto
        show ?thesis
        proof (cases complete)
          case True
          then have "consume parser (input @ ys) = (parser', Ok (n, True))"
            using consume_append c Ok nc by simp
          then show ?thesis
            using "1.IH"(2) [OF False BodyChunked c [symmetric] Ok nc [symmetric]] "1.prems" False BodyChunked c Ok nc n True
            by (simp add: push_loop.simps [of f input out] push_loop.simps [of f "input @ ys" out] Let_def copy_def)
        next
          case False
          then show ?thesis
            using "1.prems" \<open>input \<noteq> []\<close> BodyChunked c Ok nc n
            by (auto simp: push_loop.simps [of f input out] push_loop.simps [of _ "[]"] Let_def copy_def between_bodies_def)
        qed
      qed (use "1.prems" False BodyChunked c in \<open>simp add: push_loop.simps [of f input out]\<close>)
    next
      case BodyRaw
      then show ?thesis
        using "1.prems" False by (auto simp: push_loop.simps [of f input out] between_bodies_def split: prod.splits)
    qed
  qed
qed

text \<open>What a call does with more input, and what the next call does with it.\<close>

lemma push_append:
  assumes "push f xs = Some (f', out', Ok sent)" "between_bodies f'" "ys \<noteq> []"
  shows "push f (xs @ ys) = finish (flush_and_check (more_pending ys f') out')"
    and "push f' ys = finish (flush_and_check (more_pending ys f') [])"
proof -
  have "\<not> hf_upgrade_pending f"
    using assms(1,2) by (auto simp: push_def Let_def between_bodies_def split: if_splits)
  moreover from this obtain u where "push_loop f xs [] = Some (f', out', Ok u)"
    using assms(1) by (auto simp: push_def finish_def split: Option.bind_splits result.splits)
  ultimately show "push f (xs @ ys) = finish (flush_and_check (more_pending ys f') out')"
    using push_loop_append [OF _ assms(2,3)] by (simp add: push_def)
  show "push f' ys = finish (flush_and_check (more_pending ys f') [])"
    using assms(2,3) by (simp add: push_def between_bodies_def push_loop.simps [of f' ys] more_pending_def)
qed

end
