(* ===== verification/Http1Dispatch.thy ===== *)
theory Http1Dispatch
  imports Http1Pipeline
begin

text \<open>
  The guard against GitHub workflow dispatches: it refuses the request in every spelling of the
  request line, the host and the path segments below, at any point of a connection and however its
  bytes are cut, and then nothing of the request is emitted.
\<close>

section \<open>Percent decoding\<close>

function percent_decode :: "bytes \<Rightarrow> bytes option" where
  "percent_decode s =
     (if s = [] then Some []
      else percent_byte s \<bind> (\<lambda>(b, n). map_option ((#) b) (percent_decode (drop n s))))"
  by pat_completeness auto
termination
  by (relation "measure length") (auto dest!: percent_byte_step)

declare percent_decode.simps [simp del]

lemma percent_decode_steps:
  "percent_decode [] = Some []"
  "b \<noteq> 37 \<Longrightarrow> percent_decode (b # s) = map_option ((#) b) (percent_decode s)"
  "percent_decode (37 # h # l # s) =
     hex_value h \<bind> (\<lambda>high. hex_value l \<bind> (\<lambda>low. map_option ((#) (push_bit 4 high OR low)) (percent_decode s)))"
  by (simp_all add: percent_decode.simps [of "[]"] percent_decode.simps [of "b # s"]
      percent_decode.simps [of "37 # h # l # s"] percent_byte_def split: Option.bind_split)

lemma percent_decoded_eq_iff:
  "percent_decoded_eq s expected \<longleftrightarrow>
    (case percent_decode s of None \<Rightarrow> False | Some d \<Rightarrow> eq_ignore_ascii_case d expected)"
proof (induction s expected rule: percent_decoded_eq.induct)
  case (1 s expected)
  show ?case
  proof (cases "s = []")
    case True
    then show ?thesis
      by (simp add: percent_decoded_eq.simps percent_decode.simps eq_ignore_ascii_case_def to_ascii_lowercase_def)
  next
    case False
    show ?thesis
    proof (cases "percent_byte s")
      case None
      then show ?thesis using False
        by (simp add: percent_decoded_eq.simps [of s] percent_decode.simps [of s])
    next
      case (Some bn)
      obtain b n where bn: "bn = (b, n)" by (cases bn)
      show ?thesis
        using False "1.IH" [OF False Some bn [symmetric]]
        by (cases expected; cases "percent_decode (drop n s)")
          (simp_all add: percent_decoded_eq.simps [of s] percent_decode.simps [of s] Some bn
            eq_ignore_ascii_case_def to_ascii_lowercase_def byte_eq_ignore_case_def)
    qed
  qed
qed

section \<open>Splitting the request line\<close>

lemma split_by_append:
  "\<forall>x\<in>set xs. \<not> p x \<Longrightarrow> p y \<Longrightarrow> split_by p (xs @ y # ys) = xs # split_by p ys"
  by (induction xs) auto

lemma split_by_whole: "\<forall>x\<in>set xs. \<not> p x \<Longrightarrow> split_by p xs = [xs]"
  by (induction xs) auto

lemma position_append:
  "\<forall>x\<in>set xs. \<not> p x \<Longrightarrow> p y \<Longrightarrow> position p (xs @ y # ys) = Some (length xs)"
  by (induction xs) auto

text \<open>A path segment: no slash, no query or fragment mark, no white space.\<close>

definition clean :: "bytes \<Rightarrow> bool" where
  "clean s \<longleftrightarrow> list_all (\<lambda>b. b \<notin> set [47, 63, 35] \<and> \<not> is_ascii_whitespace b) s"

definition no_space :: "bytes \<Rightarrow> bool" where
  "no_space s \<longleftrightarrow> list_all (\<lambda>b. \<not> is_ascii_whitespace b) s"

lemma clean_no_space: "clean s \<Longrightarrow> no_space s"
  by (auto simp: clean_def no_space_def list_all_iff)

lemma no_space_append [simp]: "no_space (a @ b) \<longleftrightarrow> no_space a \<and> no_space b"
  by (auto simp: no_space_def)

lemma no_space_Cons [simp]: "no_space (b # s) \<longleftrightarrow> \<not> is_ascii_whitespace b \<and> no_space s"
  by (simp add: no_space_def)

text \<open>White space within a line; a carriage return counts, wherever it stands.\<close>

definition padding :: "bytes \<Rightarrow> bool" where
  "padding s \<longleftrightarrow> set s \<subseteq> {9, 12, 13, 32}"

lemma padding_bytes: "padding s \<Longrightarrow> b \<in> set s \<Longrightarrow> is_ascii_whitespace b \<and> b \<noteq> 10"
  by (auto simp: padding_def is_ascii_whitespace_def)

lemma no_line_feed:
  "padding s \<Longrightarrow> 10 \<notin> set s" "no_space s \<Longrightarrow> 10 \<notin> set s" "no_space s \<Longrightarrow> 13 \<notin> set s"
  by (auto simp: padding_def no_space_def list_all_iff is_ascii_whitespace_def)

definition words :: "bytes \<Rightarrow> bytes list" where
  "words line = filter (\<lambda>part. part \<noteq> []) (split_by is_ascii_whitespace line)"

lemma words_padding: "padding s \<Longrightarrow> words (s @ line) = words line"
proof (induction s)
  case (Cons b s)
  then have "is_ascii_whitespace b" "padding s" using padding_bytes [of "b # s" b] by (auto simp: padding_def)
  then show ?case using Cons by (simp add: words_def)
qed simp

lemma words_Nil: "words [] = []"
  by (simp add: words_def)

lemma words_word:
  assumes "no_space w" "w \<noteq> []" "padding s"
  shows "s \<noteq> [] \<Longrightarrow> words (w @ s @ line) = w # words line" "words (w @ s) = [w]"
proof -
  have w: "\<forall>b\<in>set w. \<not> is_ascii_whitespace b" using assms(1) by (simp add: no_space_def list_all_iff)
  have "words (w @ b # r) = w # words (b # r)" if "is_ascii_whitespace b" for b r
    using split_by_append [OF w that, of r] that assms(2) by (simp add: words_def)
  then have sep: "words (w @ s @ r) = w # words (s @ r)" if "s \<noteq> []" for r
    using that padding_bytes [OF assms(3), of "hd s"] by (cases s) auto
  then show "s \<noteq> [] \<Longrightarrow> words (w @ s @ line) = w # words line"
    by (simp add: words_padding [OF assms(3)])
  show "words (w @ s) = [w]"
    using sep [of "[]"] words_padding [OF assms(3), of "[]"] split_by_whole [OF w] assms(2)
    by (cases "s = []") (simp_all add: words_def)
qed

text \<open>The first line that is not empty, behind any number of empty ones.\<close>

definition blank_lines :: "bytes list \<Rightarrow> bool" where
  "blank_lines ls \<longleftrightarrow> list_all (\<lambda>l. l = [10] \<or> l = [13, 10]) ls"

lemma first_request_line_blank:
  "blank_lines ls \<Longrightarrow> first_request_line (concat ls @ s) = first_request_line s"
proof (induction ls)
  case (Cons l ls)
  have "first_request_line (l @ r) = first_request_line r" for r
    using Cons.prems by (subst first_request_line.simps) (auto simp: blank_lines_def strip_suffix_def ends_with_def)
  with Cons show ?case by (simp add: blank_lines_def)
qed simp

lemma first_request_line_found:
  assumes "10 \<notin> set line" "\<exists>b\<in>set line. b \<noteq> 13"
  shows "\<exists>l. first_request_line (line @ 10 # after) = Some l \<and> (line = l \<or> line = l @ [13])"
proof -
  have "position (\<lambda>b. b = 10) (line @ 10 # after) = Some (length line)"
    using assms(1) by (intro position_append) auto
  moreover have "(case strip_suffix line [13] of None \<Rightarrow> line | Some l \<Rightarrow> l) \<noteq> []"
    and "line = (case strip_suffix line [13] of None \<Rightarrow> line | Some l \<Rightarrow> l) \<or>
      line = (case strip_suffix line [13] of None \<Rightarrow> line | Some l \<Rightarrow> l) @ [13]"
    using assms(2)
    by (cases line rule: rev_cases; auto simp: strip_suffix_def ends_with_def split: if_splits)+
  ultimately show ?thesis
    by (subst first_request_line.simps) (simp add: Let_def)
qed

section \<open>Dispatch requests\<close>

text \<open>The path of a dispatch request from its segments, and what may follow it.\<close>

definition dispatch_path :: "bytes \<Rightarrow> bytes \<Rightarrow> bytes \<Rightarrow> bytes \<Rightarrow> bytes \<Rightarrow> bytes \<Rightarrow> bytes \<Rightarrow> bytes" where
  "dispatch_path repos owner repo actions workflows workflow_id dispatches =
     47 # repos @ 47 # owner @ 47 # repo @ 47 # actions @ 47 # workflows @ 47 # workflow_id @ 47 # dispatches"

definition spells :: "bytes \<Rightarrow> string \<Rightarrow> bool" where
  "spells s word \<longleftrightarrow> clean s \<and>
     (case percent_decode s of None \<Rightarrow> False | Some d \<Rightarrow> eq_ignore_ascii_case d (byte_string word))"

definition names_dispatch :: "bytes \<Rightarrow> bytes \<Rightarrow> bytes \<Rightarrow> bytes \<Rightarrow> bytes \<Rightarrow> bytes \<Rightarrow> bytes \<Rightarrow> bool" where
  "names_dispatch repos owner repo actions workflows workflow_id dispatches \<longleftrightarrow>
     spells repos ''repos'' \<and> clean owner \<and> owner \<noteq> [] \<and> clean repo \<and> repo \<noteq> [] \<and>
     spells actions ''actions'' \<and> spells workflows ''workflows'' \<and> clean workflow_id \<and> workflow_id \<noteq> [] \<and>
     spells dispatches ''dispatches''"

definition query_part :: "bytes \<Rightarrow> bool" where
  "query_part q \<longleftrightarrow> no_space q \<and> (q = [] \<or> hd q = 63 \<or> hd q = 35)"

lemma clean_segment: "clean s \<Longrightarrow> \<forall>b\<in>set s. b \<noteq> 47" "clean s \<Longrightarrow> \<forall>b\<in>set s. b \<notin> set [63, 35]"
  by (auto simp: clean_def list_all_iff)

lemma split_clean:
  "clean s \<Longrightarrow> split_by (\<lambda>b. b = 47) (s @ 47 # ys) = s # split_by (\<lambda>b. b = 47) ys"
  "clean s \<Longrightarrow> split_by (\<lambda>b. b = 47) s = [s]"
  using clean_segment(1) split_by_append [of s "\<lambda>b. b = 47" 47 ys] split_by_whole [of s "\<lambda>b. b = 47"] by auto

lemma dispatch_path_segments:
  assumes "names_dispatch repos owner repo actions workflows workflow_id dispatches"
  shows "split_by (\<lambda>b. b = 47) (dispatch_path repos owner repo actions workflows workflow_id dispatches) =
    [[], repos, owner, repo, actions, workflows, workflow_id, dispatches]"
  using assms unfolding dispatch_path_def names_dispatch_def spells_def
  by (simp add: split_clean)

lemma dispatch_path_end:
  assumes "names_dispatch repos owner repo actions workflows workflow_id dispatches" "query_part q"
  shows "(case position (\<lambda>b. b \<in> set [63, 35]) (dispatch_path repos owner repo actions workflows workflow_id dispatches @ q) of
      None \<Rightarrow> length (dispatch_path repos owner repo actions workflows workflow_id dispatches @ q) | Some i \<Rightarrow> i) =
    length (dispatch_path repos owner repo actions workflows workflow_id dispatches)"
proof -
  let ?p = "dispatch_path repos owner repo actions workflows workflow_id dispatches"
  have none: "\<forall>b\<in>set ?p. b \<notin> set [63, 35]"
    using assms(1) clean_segment(2) unfolding names_dispatch_def spells_def dispatch_path_def by fastforce
  show ?thesis
  proof (cases q)
    case Nil
    then show ?thesis using none by (simp add: position_None [THEN iffD2] del: set_simps)
  next
    case (Cons c cs)
    then have "position (\<lambda>b. b \<in> set [63, 35]) (?p @ c # cs) = Some (length ?p)"
      using assms(2) none by (intro position_append) (auto simp: query_part_def)
    then show ?thesis using Cons by simp
  qed
qed

lemma spelled_segments:
  assumes "names_dispatch repos owner repo actions workflows workflow_id dispatches"
  shows "percent_decoded_eq repos (byte_string ''repos'')" "percent_decoded_eq actions (byte_string ''actions'')"
    "percent_decoded_eq workflows (byte_string ''workflows'')" "percent_decoded_eq dispatches (byte_string ''dispatches'')"
    "owner \<noteq> []" "repo \<noteq> []" "workflow_id \<noteq> []"
  using assms by (auto simp: names_dispatch_def spells_def percent_decoded_eq_iff)

text \<open>
  A way to write a dispatch: empty lines first, the parts of the request line with white space around
  them, the line feed at its end, and as the target the path itself or an absolute URL with any scheme
  and authority.
\<close>

record dispatch_spelling =
  ds_blank :: "bytes list"
  ds_pads :: "bytes \<times> bytes \<times> bytes \<times> bytes"
  ds_method :: bytes
  ds_origin :: "(bytes \<times> bytes) option"
  ds_repos :: bytes
  ds_owner :: bytes
  ds_repo :: bytes
  ds_actions :: bytes
  ds_workflows :: bytes
  ds_workflow :: bytes
  ds_dispatches :: bytes
  ds_query :: bytes
  ds_version :: bytes

definition ds_path :: "dispatch_spelling \<Rightarrow> bytes" where
  "ds_path d = dispatch_path (ds_repos d) (ds_owner d) (ds_repo d) (ds_actions d) (ds_workflows d) (ds_workflow d) (ds_dispatches d)"

definition ds_target :: "dispatch_spelling \<Rightarrow> bytes" where
  "ds_target d = (case ds_origin d of None \<Rightarrow> [] | Some (scheme, authority) \<Rightarrow> scheme @ byte_string ''://'' @ authority) @
     ds_path d @ ds_query d"

definition ds_line :: "dispatch_spelling \<Rightarrow> bytes" where
  "ds_line d =
     (case ds_pads d of (p0, p1, p2, p3) \<Rightarrow>
        p0 @ ds_method d @ p1 @ ds_target d @ p2 @ ds_version d @ p3)"

definition spelling_bytes :: "dispatch_spelling \<Rightarrow> bytes" where
  "spelling_bytes d = concat (ds_blank d) @ ds_line d @ [10]"

definition spelling_ok :: "dispatch_spelling \<Rightarrow> bool" where
  "spelling_ok d \<longleftrightarrow>
     blank_lines (ds_blank d) \<and>
     (case ds_pads d of (p0, p1, p2, p3) \<Rightarrow>
        padding p0 \<and> padding p1 \<and> p1 \<noteq> [] \<and> padding p2 \<and> p2 \<noteq> [] \<and> padding p3) \<and>
     eq_ignore_ascii_case (ds_method d) (byte_string ''POST'') \<and> no_space (ds_method d) \<and>
     (case ds_origin d of
        None \<Rightarrow> True
      | Some (scheme, authority) \<Rightarrow>
          no_space scheme \<and> 58 \<notin> set scheme \<and> 47 \<notin> set scheme \<and> clean authority) \<and>
     names_dispatch (ds_repos d) (ds_owner d) (ds_repo d) (ds_actions d) (ds_workflows d) (ds_workflow d) (ds_dispatches d) \<and>
     query_part (ds_query d) \<and>
     (ds_version d = byte_string ''HTTP/1.0'' \<or> ds_version d = byte_string ''HTTP/1.1'')"

lemma find_scheme:
  "58 \<notin> set scheme \<Longrightarrow> find_window scheme_separator (scheme @ scheme_separator @ rest) = Some (length scheme)"
  by (induction scheme) (auto simp: scheme_separator_def starts_with_def byte_string_def)

lemma target_path:
  assumes "spelling_ok d"
  shows "request_target_path (ds_target d) = Some (ds_path d @ ds_query d)"
proof -
  have p: "ds_path d = 47 # tl (ds_path d)" by (simp add: ds_path_def dispatch_path_def)
  show ?thesis
  proof (cases "ds_origin d")
    case None
    have "starts_with (ds_path d @ ds_query d) [47]" by (subst p) (simp add: starts_with_def)
    with None show ?thesis by (simp add: ds_target_def request_target_path_def)
  next
    case (Some x)
    obtain scheme authority where x: "x = (scheme, authority)" by (cases x)
    have ok: "58 \<notin> set scheme" "47 \<notin> set scheme" "clean authority" using assms Some x by (simp_all add: spelling_ok_def)
    have t: "ds_target d = scheme @ scheme_separator @ authority @ ds_path d @ ds_query d"
      by (simp add: ds_target_def Some x scheme_separator_def)
    have "\<not> starts_with (ds_target d) [47]"
      using ok(2) by (cases scheme) (auto simp: t starts_with_def scheme_separator_def byte_string_def)
    moreover have "position (\<lambda>b. b \<in> set [47, 63, 35]) (authority @ 47 # tl (ds_path d) @ ds_query d) = Some (length authority)"
      using ok(3) by (intro position_append) (auto simp: clean_def list_all_iff)
    then have "position (\<lambda>b. b \<in> set [47, 63, 35]) (authority @ ds_path d @ ds_query d) = Some (length authority)"
      by (subst p) simp
    moreover have "(authority @ ds_path d @ ds_query d) ! length authority = 47" by (subst p) (simp add: nth_append)
    moreover have "drop (length scheme + 3) (ds_target d) = authority @ ds_path d @ ds_query d"
      by (simp add: t scheme_separator_def)
    moreover have "find_window scheme_separator (ds_target d) = Some (length scheme)"
      unfolding t by (rule find_scheme [OF ok(1)])
    ultimately show ?thesis unfolding request_target_path_def by (simp add: Let_def del: set_simps)
  qed
qed

lemma path_no_space:
  assumes "names_dispatch repos owner repo actions workflows workflow_id dispatches"
  shows "no_space (dispatch_path repos owner repo actions workflows workflow_id dispatches)"
  using assms by (simp add: names_dispatch_def spells_def dispatch_path_def clean_no_space is_ascii_whitespace_def)

lemma spelling_parts:
  assumes "spelling_ok d"
  shows "no_space (ds_target d)" "ds_target d \<noteq> []" "ds_method d \<noteq> []" "no_space (ds_version d)" "ds_version d \<noteq> []"
    "http1_version (ds_version d)"
proof -
  have "no_space (ds_path d)" "no_space (ds_query d)"
    using assms path_no_space by (simp_all add: spelling_ok_def query_part_def ds_path_def)
  moreover have "no_space (byte_string ''://'')" by (simp add: byte_string_def is_ascii_whitespace_def no_space_def)
  ultimately show "no_space (ds_target d)"
    using assms by (auto simp: spelling_ok_def ds_target_def clean_no_space no_space_def [of "[]"] split: option.splits)
  show "ds_target d \<noteq> []" by (simp add: ds_target_def ds_path_def dispatch_path_def)
  show "ds_method d \<noteq> []"
    using assms by (auto simp: spelling_ok_def eq_ignore_ascii_case_def to_ascii_lowercase_def byte_string_def)
  have "ds_version d = byte_string ''HTTP/1.0'' \<or> ds_version d = byte_string ''HTTP/1.1''"
    using assms by (simp add: spelling_ok_def)
  then show "no_space (ds_version d)" "ds_version d \<noteq> []" "http1_version (ds_version d)"
    by (auto simp: http1_version_def byte_string_def no_space_def is_ascii_whitespace_def)
qed

lemma spelling_words:
  assumes "spelling_ok d" "ds_line d = l \<or> ds_line d = l @ [13]"
  shows "words l = [ds_method d, ds_target d, ds_version d]"
proof -
  obtain p0 p1 p2 p3 where pads: "ds_pads d = (p0, p1, p2, p3)" by (metis prod_cases4)
  have p: "padding p0" "padding p1" "p1 \<noteq> []" "padding p2" "p2 \<noteq> []" "padding p3" "no_space (ds_method d)"
    using assms(1) by (auto simp: spelling_ok_def pads)
  note parts = spelling_parts [OF assms(1)]
  obtain p3' where l: "l = p0 @ ds_method d @ p1 @ ds_target d @ p2 @ ds_version d @ p3'" "padding p3'"
  proof (cases "ds_line d = l")
    case True
    then show ?thesis using p(6) by (intro that [of p3]) (simp_all add: ds_line_def pads)
  next
    case False
    then have e: "l @ [13] = (p0 @ ds_method d @ p1 @ ds_target d @ p2 @ ds_version d) @ p3"
      using assms(2) by (simp add: ds_line_def pads)
    have "p3 \<noteq> []"
    proof
      assume "p3 = []"
      then have "last (ds_version d) = 13" using e parts(5) by (metis append_Nil2 append_is_Nil_conv last_appendR last_snoc)
      then show False using parts(4,5) by (auto simp: no_space_def list_all_iff is_ascii_whitespace_def)
    qed
    then have "l = p0 @ ds_method d @ p1 @ ds_target d @ p2 @ ds_version d @ butlast p3"
      using arg_cong [OF e, of butlast] by (simp add: butlast_append)
    then show ?thesis using that p(6) by (auto simp: padding_def dest: in_set_butlastD)
  qed
  show ?thesis
    unfolding l(1) words_padding [OF p(1)] words_word(1) [OF p(7) parts(3) p(2,3)] words_word(1) [OF parts(1,2) p(4,5)]
      words_word(2) [OF parts(4,5) l(2)] by simp
qed

lemma dispatch_recognised:
  assumes "normalize_host host = byte_string ''api.github.com''" "spelling_ok d"
  shows "is_github_workflow_dispatch_request (spelling_bytes d @ after) host"
proof -
  note parts = spelling_parts [OF assms(2)]
  obtain p0 p1 p2 p3 where pads: "ds_pads d = (p0, p1, p2, p3)" by (metis prod_cases4)
  have ok: "blank_lines (ds_blank d)" "eq_ignore_ascii_case (ds_method d) (byte_string ''POST'')" "query_part (ds_query d)"
      "padding p0" "padding p1" "padding p2" "padding p3" "no_space (ds_method d)"
    and names: "names_dispatch (ds_repos d) (ds_owner d) (ds_repo d) (ds_actions d) (ds_workflows d) (ds_workflow d) (ds_dispatches d)"
    using assms(2) by (auto simp: spelling_ok_def pads)
  have "10 \<notin> set (ds_line d)"
    using parts(1,4) ok(4-8) by (simp add: ds_line_def pads no_line_feed)
  moreover have "hd (ds_method d) \<in> set (ds_method d)" by (rule hd_in_set [OF parts(3)])
  then have "\<exists>b\<in>set (ds_line d). b \<noteq> 13"
    using no_line_feed(3) [OF ok(8)] by (auto simp: ds_line_def pads simp del: bex_simps intro!: bexI [of _ "hd (ds_method d)"])
  ultimately obtain l where l: "first_request_line (ds_line d @ 10 # after) = Some l" "ds_line d = l \<or> ds_line d = l @ [13]"
    using first_request_line_found by metis
  then have line: "first_request_line (spelling_bytes d @ after) = Some l"
    using first_request_line_blank [OF ok(1)] by (simp add: spelling_bytes_def)
  have path: "take (length (ds_path d)) (ds_path d @ ds_query d) = ds_path d" by simp
  show ?thesis
    unfolding is_github_workflow_dispatch_request_def line option.case words_def [symmetric] spelling_words [OF assms(2) l(2)]
    using assms(1) ok(2) parts(6) path dispatch_path_end [OF names ok(3)] dispatch_path_segments [OF names]
      spelled_segments [OF names] target_path [OF assms(2)]
    by (simp add: Let_def ds_path_def del: set_simps)
qed

text \<open>A dispatch at the front of the buffer ends the flush before anything of it is emitted.\<close>

lemma dispatch_flush_fails:
  assumes "normalize_host (hf_host f) = byte_string ''api.github.com''" "spelling_ok d"
    and "hf_pending f = spelling_bytes d @ after" "header_boundary (hf_pending f) = Some b" "length (spelling_bytes d) \<le> b + 4"
  shows "map_option snd (finish (flush_and_check f out)) = Some (out, Err WorkflowDispatchBlocked)"
proof -
  have "take (b + 4) (hf_pending f) = spelling_bytes d @ take (b + 4 - length (spelling_bytes d)) after"
    using assms(3,5) by simp
  then have "flush_one_request f out b = Some (f, out, Fail WorkflowDispatchBlocked)"
    using dispatch_recognised [OF assms(1,2)] by (simp add: flush_one_request_def)
  then have "flush_pending_requests f out = Some (f, out, Err WorkflowDispatchBlocked)"
    by (subst flush_pending_requests.simps) (simp add: assms(4))
  then show ?thesis by (simp add: finish_def flush_and_check_def)
qed

text \<open>
  A dispatch that was buffered while the server had not answered an upgrade is refused, too, when the
  server refuses the upgrade.
\<close>

lemma dispatch_behind_upgrade_blocked:
  assumes "normalize_host (hf_host f) = byte_string ''api.github.com''" "spelling_ok d"
    and "hf_pending f = spelling_bytes d @ after" "header_boundary (hf_pending f) = Some b" "length (spelling_bytes d) \<le> b + 4"
    and "hf_upgrade_pending f" "length (hf_server_pending f @ answer) \<le> RELAY_BUF_SIZE"
    and "header_boundary (hf_server_pending f @ answer) = Some a"
    and "\<not> is_switching_protocols_response (take a (hf_server_pending f @ answer))"
  shows "map_option snd (observe_server_plaintext f answer) = Some ([], Err WorkflowDispatchBlocked)"
  using assms(6-9) dispatch_flush_fails [of "f\<lparr> hf_upgrade_pending := False, hf_server_pending := [] \<rparr>", OF _ assms(2)] assms(1,3-5)
  by (simp add: observe_server_plaintext_def Let_def)

text \<open>
  Claim C7.  A GitHub workflow dispatch does not leave through the filter.  On a connection whose
  host is \<open>api.github.com\<close> up to case and trailing dots, take a request head that, behind any empty
  lines and with any white space within its line, has POST in any case as its method, HTTP/1.0 or 1.1
  as its version, and as its target the path \<open>/repos/o/r/actions/workflows/w/dispatches\<close>, alone or
  in an absolute URL, with the fixed segments percent-encoded and cased in any way, the others any
  non-empty segments, and any query or fragment.  Let it begin where a filter, after any input it
  accepted, stands between two bodies, or be part of the buffer it holds there.  When the input that
  completes the head arrives, the call is refused with the dispatch error and nothing of the request is
  emitted, whatever the secrets are and whatever the other headers say.  That holds when it comes in a
  call of its own, and when it comes behind the earlier input in one call, which then emits what the
  earlier input alone does.
\<close>

theorem workflow_dispatch_blocked:
  assumes "normalize_host (hf_host f) = byte_string ''api.github.com''" "spelling_ok d"
    and "push f earlier = Some (f', out, Ok sent)" "between_bodies f'"
    and "hf_pending f' @ input = spelling_bytes d @ after" "input \<noteq> []"
    and "header_boundary (hf_pending f' @ input) = Some b" "length (spelling_bytes d) \<le> b + 4"
  shows "map_option snd (push f' input) = Some ([], Err WorkflowDispatchBlocked) \<and>
    map_option snd (push f (earlier @ input)) = Some (out, Err WorkflowDispatchBlocked)"
proof -
  have "hf_host f' = hf_host f" using push_keeps [of f earlier] assms(3) by (simp add: keeps_policy_def)
  then have "map_option snd (finish (flush_and_check (more_pending input f') out')) = Some (out', Err WorkflowDispatchBlocked)" for out'
    using assms(1,2,5,7,8) by (intro dispatch_flush_fails [where d = d and after = after and b = b]) simp_all
  then show ?thesis using push_append [OF assms(3,4,6)] by simp
qed

text \<open>Behind a complete request, in an absolute URL and after an empty line, in two pieces.\<close>

definition demo_spelling :: dispatch_spelling where
  "demo_spelling = \<lparr> ds_blank = [[13, 10]], ds_pads = ([], [32], [32, 9], [13]), ds_method = byte_string ''post'',
     ds_origin = Some (byte_string ''https'', byte_string ''api.github.com''),
     ds_repos = byte_string ''%72epos'', ds_owner = [111], ds_repo = [114], ds_actions = byte_string ''Actions'',
     ds_workflows = byte_string ''workflows'', ds_workflow = [49], ds_dispatches = byte_string ''dispatches'',
     ds_query = byte_string ''?x'', ds_version = byte_string ''HTTP/1.1'' \<rparr>"

definition demo_earlier :: bytes where
  "demo_earlier = byte_string ''GET / HTTP/1.1'' @ [13, 10, 13, 10] @ take 9 (spelling_bytes demo_spelling)"

theorem workflow_dispatch_blocked_witness:
  "map_option snd (push (filter_new [] (byte_string ''API.GitHub.com.''))
      (demo_earlier @ drop 9 (spelling_bytes demo_spelling) @ [13, 10])) =
    Some (byte_string ''GET / HTTP/1.1'' @ [13, 10, 13, 10], Err WorkflowDispatchBlocked)"
proof -
  let ?f = "filter_new [] (byte_string ''API.GitHub.com.'')"
  let ?input = "drop 9 (spelling_bytes demo_spelling) @ [13, 10]"
  have ok: "spelling_ok demo_spelling"
    by (simp add: spelling_ok_def demo_spelling_def names_dispatch_def spells_def clean_def is_ascii_whitespace_def byte_string_def
        percent_decode_steps hex_value_def eq_ignore_ascii_case_def to_ascii_lowercase_def to_ascii_lowercase_byte_def
        query_part_def no_space_def padding_def blank_lines_def)
  have host: "normalize_host (hf_host ?f) = byte_string ''api.github.com''" by code_simp
  have "map_option (\<lambda>(f', out, r). (out, r, hf_pending f', hf_body f' = BodyHeaders, hf_upgrade_pending f'))
      (flush_pending_requests (more_pending demo_earlier ?f) []) =
      Some (byte_string ''GET / HTTP/1.1'' @ [13, 10, 13, 10], Ok (), take 9 (spelling_bytes demo_spelling), True, False)"
    by code_simp
  then obtain f' where flushed: "flush_pending_requests (more_pending demo_earlier ?f) [] =
        Some (f', byte_string ''GET / HTTP/1.1'' @ [13, 10, 13, 10], Ok ())"
      and pending: "hf_pending f' = take 9 (spelling_bytes demo_spelling)" and between: "between_bodies f'"
    by (auto simp: between_bodies_def)
  have "header_boundary (take 9 (spelling_bytes demo_spelling)) = None" by code_simp
  then have "flush_and_check (more_pending demo_earlier ?f) [] = Some (f', byte_string ''GET / HTTP/1.1'' @ [13, 10, 13, 10], Ok ())"
    using flushed by (simp add: flush_and_check_def ensure_pending_limit_def pending MAX_BUFFERED_HTTP_HEADERS_def)
  moreover have "push_loop ?f demo_earlier [] = flush_and_check (more_pending demo_earlier ?f) []"
    by (subst push_loop.simps) (simp add: filter_new_def demo_earlier_def more_pending_def)
  ultimately have "push ?f demo_earlier = Some (f', byte_string ''GET / HTTP/1.1'' @ [13, 10, 13, 10], Ok True)"
    by (simp add: push_def finish_def) (simp add: filter_new_def)
  note f' = this pending between
  have b: "header_boundary (spelling_bytes demo_spelling @ [13, 10]) = Some 84" "length (spelling_bytes demo_spelling) = 86" "?input \<noteq> []"
    by code_simp+
  have p: "hf_pending f' @ ?input = spelling_bytes demo_spelling @ [13, 10]" unfolding f'(2) by simp
  from workflow_dispatch_blocked [OF host ok f'(1,3) p b(3)] b(1,2) p show ?thesis by simp
qed

end
