(* ===== verification/Http1Length.thy ===== *)
theory Http1Length
  imports Http1Chunks
begin

text \<open>
  When substitution changes the length of a body, the filter rewrites the content length.  On a
  header block whose lines end in CRLF, reading the rewritten block gives the new length.  A line
  that ends in a bare line feed is read as a line but not rewritten as one.
\<close>

definition header_block :: "bytes list \<Rightarrow> bytes" where
  "header_block ls = concat (map (\<lambda>l. l @ [13, 10]) ls) @ [13, 10]"

definition plain_line :: "bytes \<Rightarrow> bool" where
  "plain_line l \<longleftrightarrow> list_all (\<lambda>b. b < 0x80 \<and> b \<noteq> 13 \<and> b \<noteq> 10) l"

definition is_length_line :: "bytes \<Rightarrow> bool" where
  "is_length_line l = (case split_once 58 l of
     None \<Rightarrow> False | Some (name, _) \<Rightarrow> eq_ignore_ascii_case name (byte_string ''content-length''))"

definition rewritten :: "nat \<Rightarrow> bytes \<Rightarrow> bytes" where
  "rewritten n l = (if is_length_line l then byte_string ''Content-Length: '' @ number_text 10 n else l)"

lemma decimal_text: "rev (decimal_digits n) = number_text 10 n"
proof (induction n rule: less_induct)
  case (less n)
  have "byte_string ''0123456789'' ! d = digit_char d" if "d < 10" for d
    using that by (auto simp: byte_string_def digit_char_def less_Suc_eq numeral_eq_Suc)
  then have d: "byte_string ''0123456789'' ! (n mod 10) = digit_char (n mod 10)" by simp
  show ?case
  proof (cases "n < 10")
    case True
    then show ?thesis
      using d by (simp add: decimal_digits.simps [of n] number_text_def digits_of.simps [of 10 n])
  next
    case False
    then show ?thesis
      using d less [of "n div 10"]
      by (simp add: decimal_digits.simps [of n] number_text_def digits_of.simps [of 10 n] div_eq_0_iff)
  qed
qed

lemma find_crlf: "plain_line l \<Longrightarrow> find_window [13, 10] (l @ 13 # 10 # rest) = Some (length l)"
  by (induction l) (auto simp: plain_line_def starts_with_def)

lemma split_crlf_block: "list_all plain_line ls \<Longrightarrow> split_crlf (header_block ls) = ls @ [[], []]"
proof (induction ls)
  case Nil
  then show ?case
    by (simp add: header_block_def split_crlf.simps [of "[13, 10]"] split_crlf.simps [of "[]"] starts_with_def)
next
  case (Cons l ls)
  have "header_block (l # ls) = l @ 13 # 10 # header_block ls" by (simp add: header_block_def)
  then show ?case
    using Cons find_crlf [of l "header_block ls"] by (simp add: split_crlf.simps [of "l @ 13 # 10 # header_block ls"])
qed

lemma rewrite_lines_Suc:
  "rewrite_lines n (Suc i) ls acc = acc @ concat (map (\<lambda>l. [13, 10] @ rewritten n l) ls)"
  by (induction ls arbitrary: acc i)
    (auto simp: rewritten_def is_length_line_def extend_decimal_def decimal_text Let_def)

lemma rewrite_lines_block: "rewrite_lines n 0 (ls @ [[], []]) [] = header_block (map (rewritten n) ls)"
proof -
  have [simp]: "rewritten n [] = []" by (simp add: rewritten_def is_length_line_def split_once_def)
  show ?thesis
  proof (cases ls)
    case (Cons l ls')
    have "rewrite_lines n 0 (l # (ls' @ [[], []])) [] =
        rewritten n l @ concat (map (\<lambda>l. [13, 10] @ rewritten n l) (ls' @ [[], []]))"
      by (simp add: rewrite_lines_Suc rewritten_def is_length_line_def extend_decimal_def decimal_text Let_def)
    moreover have "concat (map (\<lambda>l. [13, 10] @ rewritten n l) ls') @ [13, 10] =
        [13, 10] @ concat (map (\<lambda>l. rewritten n l @ [13, 10]) ls')"
      by (induction ls') auto
    ultimately show ?thesis by (simp add: Cons header_block_def o_def)
  qed (simp add: header_block_def rewrite_lines_Suc split_once_def)
qed

lemma lines_of_block: "list_all plain_line ls \<Longrightarrow> lines_of (header_block ls) = ls @ [[]]"
proof (induction ls)
  case Nil
  then show ?case
    by (simp add: header_block_def lines_of.simps [of "[13, 10]"] lines_of.simps [of "[]"] strip_suffix_def ends_with_def)
next
  case (Cons l ls)
  have b: "header_block (l # ls) = (l @ [13]) @ 10 # header_block ls" by (simp add: header_block_def)
  have "position (\<lambda>b. b = 10) ((l @ [13]) @ 10 # header_block ls) = Some (length (l @ [13]))"
    using Cons.prems by (induction l) (auto simp: plain_line_def)
  then show ?case
    using Cons unfolding b lines_of.simps [of "(l @ [13]) @ 10 # header_block ls"]
    by (simp add: strip_suffix_def ends_with_def)
qed

lemma block_ascii: "list_all plain_line ls \<Longrightarrow> from_utf8 (header_block ls) = Some (header_block ls)"
  unfolding from_utf8_def header_block_def
  by (auto simp: plain_line_def list_all_iff intro!: utf8_valid_ascii split: if_splits)

lemma trim_value: "trim (32 # number_text 10 n) = number_text 10 n"
proof -
  note t = number_text_props [of 10 n, simplified]
  have "white_space_prefix (32 # number_text 10 n) = 1"
    by (simp add: white_space_prefix_def white_space_chars_def starts_with_def)
  moreover have start: "trim_start (number_text 10 n) = number_text 10 n"
    using t by (intro trim_start_solid) (auto intro: alnum_solid)
  ultimately have "trim_start (32 # number_text 10 n) = number_text 10 n"
    by (simp add: trim_start.simps [of "32 # number_text 10 n"])
  then show ?thesis
    using trim_solid [OF t, of "[]"] start by (simp add: trim_def)
qed

lemma split_length_line:
  "split_once 58 (byte_string ''Content-Length: '' @ number_text 10 n) = Some (byte_string ''Content-Length'', 32 # number_text 10 n)"
  by (simp add: split_once_def byte_string_def)

lemma rewritten_plain: "plain_line l \<Longrightarrow> plain_line (rewritten n l)"
  using number_text_props(2) [of 10 n] alnum_ascii
  by (auto simp: rewritten_def plain_line_def list_all_iff byte_string_def alnum_def)

lemma find_map_marked:
  assumes "\<And>l. f (r l) = (if q l then Some v else None)" "f e = None"
  shows "find_map f (map r ls @ [e]) = (if list_ex q ls then Some v else None)"
  by (induction ls) (simp_all add: assms)

text \<open>
  Claim C26.  Rewriting sets the content length.  In a header block of ASCII lines that end in
  CRLF, after the rewrite for a body of \<open>n\<close> bytes the block reads as content length \<open>n\<close> if it had
  a content-length line, however that line was cased and whatever it said, and still has none
  otherwise; all other lines are as before.
\<close>

theorem content_length_rewritten:
  assumes "list_all plain_line ls" "n < 2 ^ 64"
  shows "fst (update_content_length (header_block ls) n scratch) = header_block (map (rewritten n) ls) \<and>
    content_length (header_block (map (rewritten n) ls)) = (if list_ex is_length_line ls then Some n else None)"
proof -
  have eq: "eq_ignore_ascii_case (byte_string ''Content-Length'') (byte_string ''content-length'')"
    by (simp add: eq_ignore_ascii_case_def to_ascii_lowercase_def to_ascii_lowercase_byte_def byte_string_def)
  let ?f = "\<lambda>line. split_once 58 line \<bind> (\<lambda>(name, val).
      if eq_ignore_ascii_case name (byte_string ''content-length'') then parse_radix 10 USIZE_LIMIT (trim val) else None)"
  have line: "?f (rewritten n l) = (if is_length_line l then Some n else None)" for l
    using assms(2) eq parse_number_text [of 10 n USIZE_LIMIT]
    by (cases "is_length_line l")
      (simp_all add: rewritten_def split_length_line trim_value,
        auto simp: is_length_line_def split: option.splits)
  have "find_map ?f (map (rewritten n) ls @ [[]]) = (if list_ex is_length_line ls then Some n else None)"
    by (rule find_map_marked [where f = ?f, OF line]) (simp add: split_once_def)
  moreover have "list_all plain_line (map (rewritten n) ls)"
    using assms(1) rewritten_plain by (simp add: list_all_iff)
  ultimately show ?thesis
    using assms by (simp add: update_content_length_def block_ascii split_crlf_block rewrite_lines_block
        content_length_def lines_of_block)
qed

theorem content_length_rewritten_witness:
  "content_length (header_block (map (rewritten 7) [byte_string ''POST / HTTP/1.1'', byte_string ''content-LENGTH:3''])) = Some 7"
proof -
  have "list_all plain_line [byte_string ''POST / HTTP/1.1'', byte_string ''content-LENGTH:3'']"
    by (simp add: plain_line_def byte_string_def)
  from content_length_rewritten [OF this, of 7]
  show ?thesis
    by (simp add: is_length_line_def split_once_def byte_string_def eq_ignore_ascii_case_def
        to_ascii_lowercase_def to_ascii_lowercase_byte_def)
qed

text \<open>
  A content-length line after a bare line feed is read, but the rewrite, which splits at CRLF
  only, leaves it as it is: the block then still announces the old length.
\<close>

lemma content_length_after_bare_lf:
  "let headers = byte_string ''POST / HTTP/1.1'' @ [10] @ byte_string ''Content-Length: 3'' @ [13, 10, 13, 10] in
    content_length headers = Some 3 \<and> fst (update_content_length headers 9 []) = headers"
proof -
  let ?h = "byte_string ''POST / HTTP/1.1'' @ [10] @ byte_string ''Content-Length: 3'' @ [13, 10, 13, 10]"
  have "utf8_valid ?h" by (rule utf8_valid_ascii) (simp add: byte_string_def)
  then have u: "from_utf8 ?h = Some ?h" by (simp add: from_utf8_def)
  have l: "lines_of ?h = [byte_string ''POST / HTTP/1.1'', byte_string ''Content-Length: 3'', []]" by code_simp
  have c: "split_crlf ?h = [byte_string ''POST / HTTP/1.1'' @ [10] @ byte_string ''Content-Length: 3'', [], []]" by code_simp
  have t: "trim [32, 51] = [51]" by code_simp
  have "parse_radix 10 USIZE_LIMIT [51] = Some 3" by (simp add: parse_radix_def digit_value_def)
  then have "content_length ?h = Some 3"
    unfolding content_length_def u bind.bind_lunit l
    by (simp add: split_once_def byte_string_def eq_ignore_ascii_case_def to_ascii_lowercase_def to_ascii_lowercase_byte_def t)
  moreover have "fst (update_content_length ?h 9 []) = ?h"
    unfolding update_content_length_def u option.case c
    by (simp add: split_once_def byte_string_def eq_ignore_ascii_case_def to_ascii_lowercase_def to_ascii_lowercase_byte_def)
  ultimately show ?thesis by (simp only: Let_def simp_thms)
qed

end
