(* ===== verification/WireBytes.thy ===== *)
theory WireBytes
  imports RustStr
begin

text \<open>
  Reading and writing numbers in network byte order, checked additions, the \<open>?\<close> operator on an
  \<open>Option\<close> inside a computation that may panic, and rules that such computations return.
\<close>

section \<open>Options and machine numbers\<close>

definition try_some :: "'a option \<Rightarrow> ('a \<Rightarrow> 'b option option) \<Rightarrow> 'b option option" where
  "try_some x k = (case x of None \<Rightarrow> Some None | Some v \<Rightarrow> k v)"

lemma try_some_simps [simp]: "try_some None k = Some None" "try_some (Some v) k = k v"
  by (simp_all add: try_some_def)

lemma try_some_cong [fundef_cong]:
  "x = y \<Longrightarrow> (\<And>v. y = Some v \<Longrightarrow> k v = l v) \<Longrightarrow> try_some x k = try_some y l"
  by (cases y) simp_all

lemma try_some_split: "P (try_some x k) \<longleftrightarrow> (x = None \<longrightarrow> P (Some None)) \<and> (\<forall>v. x = Some v \<longrightarrow> P (k v))"
  by (cases x) simp_all

text \<open>\<open>usize::checked_add\<close> and \<open>from_be_bytes\<close>.\<close>

definition checked_add :: "nat \<Rightarrow> nat \<Rightarrow> nat option" where
  "checked_add a b = (if a + b < USIZE_LIMIT then Some (a + b) else None)"

definition be16 :: "u8 \<Rightarrow> u8 \<Rightarrow> u16" where
  "be16 high low = push_bit 8 (ucast high) OR ucast low"

definition be32 :: "u8 \<Rightarrow> u8 \<Rightarrow> u8 \<Rightarrow> u8 \<Rightarrow> u32" where
  "be32 a b c d = push_bit 24 (ucast a) OR push_bit 16 (ucast b) OR push_bit 8 (ucast c) OR ucast d"

text \<open>\<open>u16::from_be_bytes([xs[i], xs[i + 1]])\<close>, which panics out of range.\<close>

definition read_be16 :: "bytes \<Rightarrow> nat \<Rightarrow> u16 option" where
  "read_be16 xs i = rd xs i \<bind> (\<lambda>a. rd xs (i + 1) \<bind> (\<lambda>b. Some (be16 a b)))"

definition read_be32 :: "bytes \<Rightarrow> nat \<Rightarrow> u32 option" where
  "read_be32 xs i = rd xs i \<bind> (\<lambda>a. rd xs (i + 1) \<bind> (\<lambda>b. rd xs (i + 2) \<bind> (\<lambda>c. rd xs (i + 3) \<bind> (\<lambda>d.
     Some (be32 a b c d)))))"

section \<open>No panic\<close>

text \<open>Whether an operation returns.\<close>

definition no_panic :: "'a option \<Rightarrow> bool" where
  "no_panic x \<longleftrightarrow> x \<noteq> None"

lemma no_panic_Some [simp]: "no_panic (Some x)"
  by (simp add: no_panic_def)

lemma no_panic_E: "no_panic x \<Longrightarrow> (\<And>v. x = Some v \<Longrightarrow> P) \<Longrightarrow> P"
  by (auto simp: no_panic_def)

lemma no_panic_bind: "no_panic x \<Longrightarrow> (\<And>v. x = Some v \<Longrightarrow> no_panic (k v)) \<Longrightarrow> no_panic (x \<bind> k)"
  by (cases x) (auto simp: no_panic_def)

lemma no_panic_try_some: "(\<And>v. x = Some v \<Longrightarrow> no_panic (k v)) \<Longrightarrow> no_panic (try_some x k)"
  by (cases x) auto

lemma no_panic_if: "(c \<Longrightarrow> no_panic x) \<Longrightarrow> (\<not> c \<Longrightarrow> no_panic y) \<Longrightarrow> no_panic (if c then x else y)"
  by simp

lemmas no_panic_rules = no_panic_bind no_panic_try_some no_panic_if no_panic_Some

lemma checked_add_Some: "checked_add a b = Some c \<longleftrightarrow> c = a + b \<and> a + b < USIZE_LIMIT"
  by (auto simp: checked_add_def)

lemma read_be16_in: "i + 1 < length xs \<Longrightarrow> read_be16 xs i = Some (be16 (xs ! i) (xs ! (i + 1)))"
  by (simp add: read_be16_def rd_in)

lemma unat_be16: "unat (be16 a b) = unat a * 256 + unat b"
proof -
  have "\<not> bit (push_bit 8 (ucast a) :: u16) n \<or> \<not> bit (ucast b :: u16) n" for n
    by (auto simp: bit_push_bit_iff bit_unsigned_iff dest: bit_imp_le_length)
  then have sum: "be16 a b = push_bit 8 (ucast a) + ucast b"
    unfolding be16_def by (simp add: disjunctive_add)
  have a: "unat a < 256" and b: "unat b < 256" by simp_all
  have up: "unat (ucast c :: u16) = unat c" for c :: u8
    using take_bit_nat_eq_self [OF order_less_trans [OF byte_unat_less [of c], of "2 ^ 16"]]
    by (simp add: unsigned_ucast_eq)
  have "unat (push_bit 8 (ucast a) :: u16) = unat (ucast a :: u16) * 256 mod 65536"
    by (simp only: push_bit_eq_mult unat_word_ariths) simp
  also have "\<dots> = unat a * 256" using a by (simp only: up) (simp add: mod_less)
  finally have "unat (push_bit 8 (ucast a) :: u16) = unat a * 256" .
  moreover note up [of b]
  moreover have "unat a * 256 + unat b < 65536" using a b by linarith
  ultimately show ?thesis unfolding sum by (simp add: unat_word_ariths)
qed

lemma read_be16_no_panic: "i + 1 < length xs \<Longrightarrow> no_panic (read_be16 xs i)"
  by (simp add: read_be16_in)

lemma read_be32_no_panic: "i + 3 < length xs \<Longrightarrow> no_panic (read_be32 xs i)"
  by (simp add: read_be32_def rd_in)

lemma slice_no_panic: "i \<le> j \<Longrightarrow> j \<le> length xs \<Longrightarrow> no_panic (slice xs i j)"
  by (simp add: slice_in)

section \<open>Numbers as bytes\<close>

definition be16_bytes :: "u16 \<Rightarrow> bytes" where
  "be16_bytes w = [ucast (drop_bit 8 w), ucast w]"

definition be32_bytes :: "u32 \<Rightarrow> bytes" where
  "be32_bytes w = [ucast (drop_bit 24 w), ucast (drop_bit 16 w), ucast (drop_bit 8 w), ucast w]"

text \<open>Reading at an offset whose contents are known.\<close>

lemma rd_drop: "drop c xs = y # zs \<Longrightarrow> rd xs c = Some y"
  by (metis drop_all list.distinct(1) not_le rd_in nth_via_drop)

lemma drop_length_le: "drop c xs = ys \<Longrightarrow> ys \<noteq> [] \<Longrightarrow> c + length ys = length xs"
  by (metis add_diff_inverse_nat drop_all length_drop linorder_not_le nless_le)

lemma slice_drop: "drop c xs = ys @ zs \<Longrightarrow> c \<le> length xs \<Longrightarrow> slice xs c (c + length ys) = Some ys"
  by (smt (verit) add_diff_cancel_left' append_eq_conv_conj le_add1 le_add_diff_inverse length_append length_drop
      nat_add_left_cancel_le slice_in)

lemma drop_append_at: "drop c xs = ys @ zs \<Longrightarrow> drop (c + length ys) xs = zs"
  by (metis add.commute append_eq_conv_conj drop_drop)

lemma be16_be16_bytes: "be16 (ucast (drop_bit 8 w)) (ucast w) = w"
  unfolding be16_def by (rule bit_word_eqI) (auto simp: bit_simps)

lemma be32_be32_bytes: "be32 (ucast (drop_bit 24 w)) (ucast (drop_bit 16 w)) (ucast (drop_bit 8 w)) (ucast w) = w"
proof (rule bit_word_eqI)
  fix n assume n: "n < LENGTH(32)"
  consider "n < 8" | "8 \<le> n" "n < 16" | "16 \<le> n" "n < 24" | "24 \<le> n" by linarith
  then show "bit (be32 (ucast (drop_bit 24 w)) (ucast (drop_bit 16 w)) (ucast (drop_bit 8 w)) (ucast w)) n = bit w n"
    unfolding be32_def using n by cases (auto simp: bit_simps)
qed

lemma read_be16_drop: "drop c xs = be16_bytes w @ zs \<Longrightarrow> read_be16 xs c = Some w"
  using rd_drop [of c xs] rd_drop [of "c + 1" xs] drop_append_at [of c xs "[ucast (drop_bit 8 w)]"]
  by (simp add: read_be16_def be16_bytes_def be16_be16_bytes)

lemma read_be32_drop:
  assumes "drop c xs = be32_bytes w @ zs"
  shows "read_be32 xs c = Some w"
proof -
  have a: "rd xs c = Some (ucast (drop_bit 24 w))" using assms by (simp add: rd_drop be32_bytes_def)
  have b: "rd xs (c + 1) = Some (ucast (drop_bit 16 w))"
    using drop_append_at [of c xs "[ucast (drop_bit 24 w)]"] assms by (simp add: be32_bytes_def rd_drop)
  have d: "rd xs (c + 2) = Some (ucast (drop_bit 8 w))"
    using drop_append_at [of c xs "[ucast (drop_bit 24 w), ucast (drop_bit 16 w)]"] assms
    by (simp add: be32_bytes_def rd_drop)
  have e: "rd xs (c + 3) = Some (ucast w)"
    using drop_append_at [of c xs "[ucast (drop_bit 24 w), ucast (drop_bit 16 w), ucast (drop_bit 8 w)]"] assms
    by (simp add: be32_bytes_def rd_drop numeral_3_eq_3)
  show ?thesis using a b d e by (simp add: read_be32_def be32_be32_bytes)
qed

lemma length_be_bytes [simp]: "length (be16_bytes w) = 2" "length (be32_bytes v) = 4"
  by (simp_all add: be16_bytes_def be32_bytes_def)

end
