(* ===== verification/Dns.thy ===== *)
theory Dns
  imports WireBytes Policy
begin

text \<open>
  The DNS reader of the network stack, \<open>application/dns.rs\<close>: the question of a message, its
  answer records, the addresses that belong to the question through its CNAME chain, and the
  tracker that pairs queries and responses of a DNS connection over TCP.

  A host name is its UTF-8 text.  \<open>None\<close> on the outside of a result is a panic (an index or a
  slice out of range); the Rust \<open>Option\<close> is inside it, and \<open>try_some\<close> is the \<open>?\<close> operator on it.
  A \<open>Duration\<close> made by \<open>from_secs\<close> is its number of seconds.
\<close>

section \<open>Names\<close>

text \<open>
  The loop of \<open>scan_dns_name\<close>.  The closure \<open>visit_label\<close> is a function on a state that the loop
  threads through; \<open>payload.get(i)\<close> is \<open>rd\<close> read as an \<open>Option\<close>.
\<close>

function scan_loop ::
    "(bytes \<Rightarrow> 's \<Rightarrow> 's) \<Rightarrow> bytes \<Rightarrow> nat \<Rightarrow> nat \<Rightarrow> nat option \<Rightarrow> nat \<Rightarrow> 's \<Rightarrow> ('s \<times> nat) option option" where
  "scan_loop visit_label payload labels cursor end_offset jumps st =
     try_some (rd payload cursor) (\<lambda>len.
       if len = 0 then
         try_some (checked_add cursor 1) (\<lambda>cursor.
           Some (if labels = 0 then None
             else Some (st, case end_offset of None \<Rightarrow> cursor | Some e \<Rightarrow> e)))
       else if len AND 0xC0 = 0xC0 then
         try_some (checked_add cursor 1) (\<lambda>i.
           try_some (rd payload i) (\<lambda>next_byte.
             try_some (checked_add cursor 2) (\<lambda>e.
               if jumps + 1 > 16 then Some None
               else scan_loop visit_label payload labels (unat (be16 (len AND 0x3F) next_byte))
                 (Some (case end_offset of None \<Rightarrow> e | Some e \<Rightarrow> e)) (jumps + 1) st)))
       else if len AND 0xC0 \<noteq> 0 then Some None
       else
         try_some (checked_add cursor 1) (\<lambda>start.
           try_some (checked_add start (unat len)) (\<lambda>stop.
             if length payload < stop then Some None
             else slice payload start stop \<bind> (\<lambda>label.
               try_some (from_utf8 label) (\<lambda>label.
                 try_some (checked_add labels 1) (\<lambda>labels.
                   scan_loop visit_label payload labels stop end_offset jumps (visit_label label st)))))))"
  by pat_completeness auto

termination
proof (relation "measures [\<lambda>(_, _, _, _, _, jumps, _). 17 - jumps,
    \<lambda>(_, payload, _, cursor, _, _, _). length payload - cursor]", goal_cases)
  case 1 then show ?case by simp
next
  case 2 then show ?case by auto
next
  case 3 then show ?case by (auto simp: checked_add_def rd_def split: if_splits)
qed

declare scan_loop.simps [simp del]

definition scan_dns_name :: "bytes \<Rightarrow> nat \<Rightarrow> (bytes \<Rightarrow> 's \<Rightarrow> 's) \<Rightarrow> 's \<Rightarrow> ('s \<times> nat) option option" where
  "scan_dns_name payload offset visit_label st = scan_loop visit_label payload 0 offset None 0 st"

text \<open>The closure of \<open>read_dns_name\<close>: labels in lower case, joined by dots.\<close>

definition push_label :: "bytes \<Rightarrow> bytes \<Rightarrow> bytes" where
  "push_label label name = (if name = [] then name else name @ [46]) @ to_ascii_lowercase label"

definition read_dns_name :: "bytes \<Rightarrow> nat \<Rightarrow> (bytes \<times> nat) option option" where
  "read_dns_name payload offset =
     scan_dns_name payload offset push_label [] \<bind> (\<lambda>r.
       try_some r (\<lambda>(name, offset). Some (if name = [] then None else Some (name, offset))))"

section \<open>The question\<close>

record dns_question_parts =
  qp_id :: u16
  qp_qtype :: u16
  qp_qclass :: u16

record dns_question =
  dq_id :: u16
  dq_host :: bytes
  dq_qtype :: u16
  dq_qclass :: u16

definition question_parts :: "bytes \<Rightarrow> dns_question_parts option option" where
  "question_parts payload =
     (if length payload < 12 then Some None
      else read_be16 payload 4 \<bind> (\<lambda>questions.
        if questions = 0 then Some None
        else scan_dns_name payload 12 (\<lambda>_ st. st) () \<bind> (\<lambda>r.
          try_some r (\<lambda>(_, offset).
            try_some (checked_add offset 4) (\<lambda>stop.
              if length payload < stop then Some None
              else read_be16 payload 0 \<bind> (\<lambda>qid.
                read_be16 payload offset \<bind> (\<lambda>qtype.
                  read_be16 payload (offset + 2) \<bind> (\<lambda>qclass.
                    Some (Some \<lparr> qp_id = qid, qp_qtype = qtype, qp_qclass = qclass \<rparr>)))))))))"

definition question_of :: "bytes \<Rightarrow> dns_question option option" where
  "question_of payload =
     question_parts payload \<bind> (\<lambda>r.
       try_some r (\<lambda>parts.
         read_dns_name payload 12 \<bind> (\<lambda>r.
           try_some r (\<lambda>(host, _).
             Some (Some \<lparr> dq_id = qp_id parts, dq_host = host, dq_qtype = qp_qtype parts,
               dq_qclass = qp_qclass parts \<rparr>)))))"

definition has_dns_question :: "bytes \<Rightarrow> bool option" where
  "has_dns_question payload = map_option (\<lambda>r. r \<noteq> None) (question_parts payload)"

section \<open>The answers\<close>

record dns_record =
  dr_name :: bytes
  dr_type :: u16
  dr_class :: u16
  dr_ttl :: nat
  dr_data :: bytes
  dr_data_offset :: nat

text \<open>The loop over the questions: the offset behind them, or \<open>None\<close> when one is unreadable.\<close>

fun skip_questions :: "bytes \<Rightarrow> nat \<Rightarrow> nat \<Rightarrow> nat option option" where
  "skip_questions payload 0 offset = Some (Some offset)"
| "skip_questions payload (Suc n) offset =
     read_dns_name payload offset \<bind> (\<lambda>r.
       try_some r (\<lambda>(_, offset). try_some (checked_add offset 4) (skip_questions payload n)))"

text \<open>One answer record and the offset behind it; \<open>None\<close> ends the loop with what it has.\<close>

definition read_record :: "bytes \<Rightarrow> nat \<Rightarrow> (dns_record \<times> nat) option option" where
  "read_record payload offset =
     read_dns_name payload offset \<bind> (\<lambda>r.
       try_some r (\<lambda>(name, offset).
         try_some (checked_add offset 10) (\<lambda>header_end.
           if length payload < header_end then Some None
           else read_be16 payload offset \<bind> (\<lambda>record_type.
             read_be16 payload (offset + 2) \<bind> (\<lambda>class.
               read_be32 payload (offset + 4) \<bind> (\<lambda>ttl.
                 read_be16 payload (offset + 8) \<bind> (\<lambda>len.
                   try_some (checked_add header_end (unat len)) (\<lambda>data_end.
                     if length payload < data_end then Some None
                     else slice payload header_end data_end \<bind> (\<lambda>data.
                       Some (Some (\<lparr> dr_name = name, dr_type = record_type, dr_class = class,
                         dr_ttl = unat (max ttl 1), dr_data = data, dr_data_offset = header_end \<rparr>,
                         data_end)))))))))))"

fun read_records :: "bytes \<Rightarrow> nat \<Rightarrow> nat \<Rightarrow> dns_record list option" where
  "read_records payload 0 offset = Some []"
| "read_records payload (Suc n) offset =
     read_record payload offset \<bind> (\<lambda>r.
       case r of
         None \<Rightarrow> Some []
       | Some (record, offset) \<Rightarrow> read_records payload n offset \<bind> (\<lambda>records. Some (record # records)))"

definition dns_answer_records :: "bytes \<Rightarrow> dns_record list option" where
  "dns_answer_records payload =
     (if length payload < 12 then Some []
      else read_be16 payload 4 \<bind> (\<lambda>questions.
        read_be16 payload 6 \<bind> (\<lambda>answers.
          skip_questions payload (unat questions) 12 \<bind> (\<lambda>r.
            case r of
              None \<Rightarrow> Some []
            | Some offset \<Rightarrow> read_records payload (unat answers) offset))))"

record address_record =
  ar_addr :: ip_addr
  ar_ttl :: nat

text \<open>\<open>Ipv6Addr::from(octets)\<close>; the octets are the data itself once its length was checked.\<close>

definition v6_of_octets :: "bytes \<Rightarrow> ipv6 option" where
  "v6_of_octets d =
     read_be16 d 0 \<bind> (\<lambda>a. read_be16 d 2 \<bind> (\<lambda>b. read_be16 d 4 \<bind> (\<lambda>c. read_be16 d 6 \<bind> (\<lambda>e.
     read_be16 d 8 \<bind> (\<lambda>f. read_be16 d 10 \<bind> (\<lambda>g. read_be16 d 12 \<bind> (\<lambda>h. read_be16 d 14 \<bind> (\<lambda>i.
       Some (Ipv6 a b c e f g h i)))))))))"

definition address_record_of :: "dns_record \<Rightarrow> address_record option option" where
  "address_record_of record =
     (if dr_type record = 1 \<and> length (dr_data record) = 4 then
        rd (dr_data record) 0 \<bind> (\<lambda>a. rd (dr_data record) 1 \<bind> (\<lambda>b.
        rd (dr_data record) 2 \<bind> (\<lambda>c. rd (dr_data record) 3 \<bind> (\<lambda>d.
          Some (Some \<lparr> ar_addr = V4 (Ipv4 a b c d), ar_ttl = dr_ttl record \<rparr>)))))
      else if dr_type record = 28 \<and> length (dr_data record) = 16 then
        v6_of_octets (dr_data record) \<bind> (\<lambda>addr.
          Some (Some \<lparr> ar_addr = V6 addr, ar_ttl = dr_ttl record \<rparr>))
      else Some None)"

definition dns_primary_question_hosts :: "bytes \<Rightarrow> bytes list option" where
  "dns_primary_question_hosts payload =
     question_of payload \<bind> (\<lambda>r. Some (case r of None \<Rightarrow> [] | Some q \<Rightarrow> [dq_host q]))"

text \<open>\<open>filter_map\<close> with a closure that may panic.\<close>

fun filter_map :: "('a \<Rightarrow> 'b option option) \<Rightarrow> 'a list \<Rightarrow> 'b list option" where
  "filter_map f [] = Some []"
| "filter_map f (x # xs) =
     f x \<bind> (\<lambda>r. filter_map f xs \<bind> (\<lambda>ys. Some (case r of None \<Rightarrow> ys | Some y \<Rightarrow> y # ys)))"

definition cname_edge :: "bytes \<Rightarrow> dns_record \<Rightarrow> (bytes \<times> bytes) option option" where
  "cname_edge payload record =
     read_dns_name payload (dr_data_offset record) \<bind> (\<lambda>r.
       Some (map_option (\<lambda>(target, _). (dr_name record, target)) r))"

definition cname_edges :: "bytes \<Rightarrow> dns_record list \<Rightarrow> (bytes \<times> bytes) list option" where
  "cname_edges payload records =
     filter_map (cname_edge payload) (filter (\<lambda>record. dr_type record = 5 \<and> dr_class record = 1) records)"

text \<open>One pass over the CNAME edges, and passes until one adds no name.\<close>

fun cname_pass :: "(bytes \<times> bytes) list \<Rightarrow> bytes list \<Rightarrow> bool \<Rightarrow> bytes list \<times> bool" where
  "cname_pass [] accepted changed = (accepted, changed)"
| "cname_pass ((name, target) # edges) accepted changed =
     (if name \<in> set accepted \<and> target \<notin> set accepted
      then cname_pass edges (accepted @ [target]) True
      else cname_pass edges accepted changed)"

lemma cname_pass_grows:
  "cname_pass edges accepted changed = (accepted', changed') \<Longrightarrow>
   set accepted \<subseteq> set accepted' \<and> set accepted' \<subseteq> set accepted \<union> snd ` set edges \<and>
   (changed' \<longrightarrow> changed \<or> set accepted \<subset> set accepted') \<and> (changed \<longrightarrow> changed') \<and>
   (\<not> changed' \<longrightarrow> accepted' = accepted)"
proof (induction edges accepted changed rule: cname_pass.induct)
  case (2 name target edges accepted changed)
  then show ?case by (auto split: if_splits)
qed simp

function cname_close :: "(bytes \<times> bytes) list \<Rightarrow> bytes list \<Rightarrow> bytes list" where
  "cname_close edges accepted =
     (case cname_pass edges accepted False of
        (accepted, changed) \<Rightarrow> if changed then cname_close edges accepted else accepted)"
  by pat_completeness auto

termination
proof (relation "measure (\<lambda>(edges, accepted). card (snd ` set edges - set accepted))", goal_cases)
  case (2 edges accepted accepted' changed')
  then have g: "cname_pass edges accepted False = (accepted', True)" by simp
  from cname_pass_grows [OF this] show ?case by (auto intro!: psubset_card_mono)
qed simp

declare cname_close.simps [simp del]

definition dns_addresses_with_ttl :: "bytes \<Rightarrow> address_record list option" where
  "dns_addresses_with_ttl payload =
     dns_primary_question_hosts payload \<bind> (\<lambda>hosts.
       dns_answer_records payload \<bind> (\<lambda>records.
         cname_edges payload records \<bind> (\<lambda>edges.
           let accepted_names = cname_close edges hosts in
           filter_map address_record_of
             (filter (\<lambda>record. dr_class record = 1 \<and> dr_name record \<in> set accepted_names) records))))"

record dns_address_records =
  da_addresses :: "ip_addr list"
  da_ttl :: nat

definition address_records :: "bytes \<Rightarrow> dns_address_records option" where
  "address_records payload =
     dns_addresses_with_ttl payload \<bind> (\<lambda>records.
       Some \<lparr> da_addresses = map ar_addr records,
         da_ttl = (case map ar_ttl records of [] \<Rightarrow> 60 | t # ts \<Rightarrow> fold min ts t) \<rparr>)"

section \<open>DNS over TCP\<close>

definition TCP_DNS_PENDING_LIMIT :: nat where
  "TCP_DNS_PENDING_LIMIT = 16"

definition TCP_DNS_FRAME_BUFFER_CAPACITY :: nat where
  "TCP_DNS_FRAME_BUFFER_CAPACITY = 4096"

record dns_resolution =
  res_host :: bytes
  res_addresses :: "ip_addr list"
  res_ttl :: nat

record dns_tcp_frames =
  fr_buffer :: bytes

text \<open>The loop of \<open>for_each_message\<close>; its closure is a step on a state that may panic.\<close>

function frames_loop :: "(bytes \<Rightarrow> 's \<Rightarrow> 's option) \<Rightarrow> bytes \<Rightarrow> nat \<Rightarrow> 's \<Rightarrow> ('s \<times> nat) option" where
  "frames_loop f buffer offset st =
     (if 2 \<le> length buffer - offset then
        read_be16 buffer offset \<bind> (\<lambda>len.
          let start = offset + 2; stop = start + unat len in
          if length buffer < stop then Some (st, offset)
          else slice buffer start stop \<bind> (\<lambda>message.
            f message st \<bind> (\<lambda>st. frames_loop f buffer stop st)))
      else Some (st, offset))"
  by pat_completeness auto

termination by (relation "measure (\<lambda>(_, buffer, offset, _). length buffer - offset)") auto

declare frames_loop.simps [simp del]

definition for_each_message ::
    "(bytes \<Rightarrow> 's \<Rightarrow> 's option) \<Rightarrow> dns_tcp_frames \<Rightarrow> bytes \<Rightarrow> 's \<Rightarrow> (dns_tcp_frames \<times> 's) option" where
  "for_each_message f fr input st =
     (if TCP_DNS_FRAME_BUFFER_CAPACITY < length (fr_buffer fr) + length input
      then Some (fr\<lparr> fr_buffer := [] \<rparr>, st)
      else let fr = fr\<lparr> fr_buffer := fr_buffer fr @ input \<rparr> in
        frames_loop f (fr_buffer fr) 0 st \<bind> (\<lambda>(st, offset).
          Some (fr\<lparr> fr_buffer := drop offset (fr_buffer fr) \<rparr>, st)))"

text \<open>
  \<open>TcpDnsTracker\<close>.  The capacity is the one \<open>Vec::with_capacity(TCP_DNS_PENDING_LIMIT)\<close> allocated,
  which is at least the limit and never changes since the list never outgrows it.
\<close>

record tcp_dns_tracker =
  tt_guest :: dns_tcp_frames
  tt_upstream :: dns_tcp_frames
  tt_pending :: "dns_question list"
  tt_capacity :: nat

definition tcp_dns_default :: "nat \<Rightarrow> tcp_dns_tracker" where
  "tcp_dns_default capacity =
     \<lparr> tt_guest = \<lparr> fr_buffer = [] \<rparr>, tt_upstream = \<lparr> fr_buffer = [] \<rparr>, tt_pending = [], tt_capacity = capacity \<rparr>"

text \<open>\<open>Vec::remove(0)\<close> panics on an empty vector.\<close>

definition push_pending :: "nat \<Rightarrow> dns_question list \<Rightarrow> dns_question \<Rightarrow> dns_question list option" where
  "push_pending capacity pending question =
     (if question \<in> set pending then Some pending
      else if length pending = capacity
      then (case pending of [] \<Rightarrow> None | _ # pending \<Rightarrow> Some (pending @ [question]))
      else Some (pending @ [question]))"

definition remove_pending :: "dns_question list \<Rightarrow> dns_question \<Rightarrow> dns_question list \<times> dns_question option" where
  "remove_pending pending question =
     (case position (\<lambda>p. p = question) pending of
        None \<Rightarrow> (pending, None)
      | Some i \<Rightarrow> (take i pending @ drop (Suc i) pending, Some (pending ! i)))"

definition record_query :: "nat \<Rightarrow> bytes \<Rightarrow> dns_question list \<Rightarrow> dns_question list option" where
  "record_query capacity message pending =
     question_of message \<bind> (\<lambda>r.
       case r of None \<Rightarrow> Some pending | Some question \<Rightarrow> push_pending capacity pending question)"

definition record_queries :: "tcp_dns_tracker \<Rightarrow> bytes \<Rightarrow> tcp_dns_tracker option" where
  "record_queries t input =
     for_each_message (record_query (tt_capacity t)) (tt_guest t) input (tt_pending t) \<bind> (\<lambda>(fr, pending).
       Some (t\<lparr> tt_guest := fr, tt_pending := pending \<rparr>))"

definition match_response ::
    "bytes \<Rightarrow> dns_question list \<times> dns_resolution option \<Rightarrow> (dns_question list \<times> dns_resolution option) option" where
  "match_response message st =
     (case st of (pending, resolution) \<Rightarrow>
        if resolution \<noteq> None then Some st
        else question_of message \<bind> (\<lambda>r.
          case r of
            None \<Rightarrow> Some st
          | Some question \<Rightarrow>
             (case remove_pending pending question of
                (pending, None) \<Rightarrow> Some (pending, resolution)
              | (pending, Some question) \<Rightarrow>
                  address_records message \<bind> (\<lambda>records.
                    Some (pending, Some \<lparr> res_host = dq_host question, res_addresses = da_addresses records,
                      res_ttl = da_ttl records \<rparr>)))))"

definition response :: "tcp_dns_tracker \<Rightarrow> bytes \<Rightarrow> (tcp_dns_tracker \<times> dns_resolution option) option" where
  "response t input =
     for_each_message match_response (tt_upstream t) input (tt_pending t, None) \<bind>
       (\<lambda>(fr, pending, resolution). Some (t\<lparr> tt_upstream := fr, tt_pending := pending \<rparr>, resolution))"

section \<open>No panic\<close>

lemma scan_loop_no_panic: "no_panic (scan_loop visit payload labels cursor end_offset jumps st)"
proof (induction visit payload labels cursor end_offset jumps st rule: scan_loop.induct)
  case (1 visit payload labels cursor end_offset jumps st)
  show ?case
    unfolding scan_loop.simps [of visit payload labels cursor]
    by (intro no_panic_rules slice_no_panic; (rule 1; assumption)?) (auto simp: checked_add_Some)
qed

lemma scan_dns_name_no_panic: "no_panic (scan_dns_name payload offset visit st)"
  by (simp add: scan_dns_name_def scan_loop_no_panic)

lemma read_dns_name_no_panic: "no_panic (read_dns_name payload offset)"
  by (auto simp: read_dns_name_def intro!: no_panic_bind no_panic_try_some scan_dns_name_no_panic)

lemma question_parts_no_panic: "no_panic (question_parts payload)"
  unfolding question_parts_def case_prod_unfold
  by (intro no_panic_rules scan_dns_name_no_panic read_be16_no_panic) (auto simp: checked_add_Some)

lemma question_of_no_panic: "no_panic (question_of payload)"
  unfolding question_of_def case_prod_unfold
  by (intro no_panic_rules question_parts_no_panic read_dns_name_no_panic)

lemma skip_questions_no_panic: "no_panic (skip_questions payload n offset)"
proof (induction n arbitrary: offset)
  case (Suc n)
  then show ?case
    unfolding skip_questions.simps case_prod_unfold
    by (intro no_panic_rules read_dns_name_no_panic)
qed simp

lemma read_record_no_panic: "no_panic (read_record payload offset)"
  unfolding read_record_def case_prod_unfold
  by (intro no_panic_rules read_dns_name_no_panic read_be16_no_panic read_be32_no_panic slice_no_panic)
    (auto simp: checked_add_Some)

lemma read_records_no_panic: "no_panic (read_records payload n offset)"
proof (induction n arbitrary: offset)
  case (Suc n)
  then show ?case
    by (auto intro!: no_panic_bind read_record_no_panic split: option.split)
qed simp

lemma dns_answer_records_no_panic: "no_panic (dns_answer_records payload)"
  by (auto simp: dns_answer_records_def intro!: no_panic_bind read_be16_no_panic skip_questions_no_panic
      read_records_no_panic split: option.split)

lemma address_record_of_no_panic: "no_panic (address_record_of record)"
  unfolding address_record_of_def v6_of_octets_def
  by (intro no_panic_rules read_be16_no_panic) (auto simp: rd_in)

lemma filter_map_no_panic: "(\<And>x. no_panic (f x)) \<Longrightarrow> no_panic (filter_map f xs)"
  by (induction xs) (auto intro!: no_panic_bind)

lemma cname_edges_no_panic: "no_panic (cname_edges payload records)"
  by (auto simp: cname_edges_def cname_edge_def intro!: filter_map_no_panic no_panic_bind read_dns_name_no_panic)

lemma dns_addresses_with_ttl_no_panic: "no_panic (dns_addresses_with_ttl payload)"
  unfolding dns_addresses_with_ttl_def dns_primary_question_hosts_def Let_def
  by (intro no_panic_rules question_of_no_panic dns_answer_records_no_panic cname_edges_no_panic
      filter_map_no_panic address_record_of_no_panic)

lemma address_records_no_panic: "no_panic (address_records payload)"
  unfolding address_records_def
  by (intro no_panic_rules dns_addresses_with_ttl_no_panic)

section \<open>Addresses of the question\<close>

text \<open>
  What a response says about aliases, and the records that answer a host: class IN, under a name
  that the host reaches through CNAME records.
\<close>

definition cname_step :: "bytes \<Rightarrow> dns_record list \<Rightarrow> (bytes \<times> bytes) set" where
  "cname_step payload records =
     {(dr_name r, target) | r target offset. r \<in> set records \<and> dr_type r = 5 \<and> dr_class r = 1 \<and>
        read_dns_name payload (dr_data_offset r) = Some (Some (target, offset))}"

definition answers_for :: "bytes \<Rightarrow> dns_record list \<Rightarrow> bytes \<Rightarrow> dns_record list" where
  "answers_for payload records host =
     filter (\<lambda>r. dr_class r = 1 \<and> (host, dr_name r) \<in> (cname_step payload records)\<^sup>*) records"

lemma filter_map_pure:
  "(\<And>x. no_panic (f x)) \<Longrightarrow> filter_map f xs = Some (List.map_filter (\<lambda>x. the (f x)) xs)"
proof (induction xs)
  case Nil
  then show ?case by (simp add: map_filter_simps)
next
  case (Cons x xs)
  obtain r where "f x = Some r" using Cons.prems [of x] by (rule no_panic_E)
  then show ?case using Cons by (cases r) (simp_all add: map_filter_simps)
qed

lemma set_map_filter_iff: "y \<in> set (List.map_filter f xs) \<longleftrightarrow> (\<exists>x\<in>set xs. f x = Some y)"
  by (induction xs) (auto simp: map_filter_simps split: option.split)

lemma cname_edges_step:
  assumes "cname_edges payload records = Some edges"
  shows "set edges = cname_step payload records"
proof -
  have "no_panic (cname_edge payload r)" for r
    by (auto simp: cname_edge_def intro!: no_panic_bind read_dns_name_no_panic)
  then have "edges = List.map_filter (\<lambda>r. the (cname_edge payload r))
      (filter (\<lambda>r. dr_type r = 5 \<and> dr_class r = 1) records)"
    using assms by (simp add: cname_edges_def filter_map_pure)
  moreover have "the (cname_edge payload r) = Some e \<longleftrightarrow>
      (\<exists>t off. read_dns_name payload (dr_data_offset r) = Some (Some (t, off)) \<and> e = (dr_name r, t))" for r e
    using read_dns_name_no_panic [of payload "dr_data_offset r"]
    by (auto simp: cname_edge_def no_panic_def)
  ultimately show ?thesis
    by (simp add: set_eq_iff set_map_filter_iff cname_step_def) blast
qed

lemma cname_pass_sound:
  "cname_pass edges accepted changed = (accepted', changed') \<Longrightarrow> set edges \<subseteq> E \<Longrightarrow>
   set accepted \<subseteq> E\<^sup>* `` H \<Longrightarrow> set accepted' \<subseteq> E\<^sup>* `` H"
proof (induction edges accepted changed rule: cname_pass.induct)
  case (2 name target edges accepted changed)
  have "target \<in> E\<^sup>* `` H" if "name \<in> set accepted"
    using that 2(4,5) by (meson Image_iff list.set_intros(1) rtrancl.rtrancl_into_rtrancl subset_iff)
  with 2 show ?case by (auto split: if_splits)
qed simp

lemma cname_pass_closed:
  "cname_pass edges accepted False = (accepted', False) \<Longrightarrow> (n, t) \<in> set edges \<Longrightarrow> n \<in> set accepted' \<Longrightarrow> t \<in> set accepted'"
proof (induction edges accepted "False" rule: cname_pass.induct)
  case (2 name target edges accepted)
  have "\<not> (name \<in> set accepted \<and> target \<notin> set accepted)"
    using 2(3) cname_pass_grows [of edges "accepted @ [target]" True] by (auto split: if_splits)
  then show ?case using 2 cname_pass_grows [of edges accepted False accepted' False] by auto
qed simp

lemma cname_close_reachable: "set (cname_close edges hosts) = (set edges)\<^sup>* `` set hosts"
proof -
  have "set accepted \<subseteq> set (cname_close edges accepted) \<and> set (cname_close edges accepted) \<subseteq> (set edges)\<^sup>* `` set accepted \<and>
      (\<forall>(n, t) \<in> set edges. n \<in> set (cname_close edges accepted) \<longrightarrow> t \<in> set (cname_close edges accepted))" for accepted
  proof (induction edges accepted rule: cname_close.induct)
    case (1 edges accepted)
    obtain accepted' changed where p: "cname_pass edges accepted False = (accepted', changed)" by fastforce
    note grows = cname_pass_grows [OF p]
    note sound = cname_pass_sound [OF p, of "set edges" "set accepted"]
    have unfold: "cname_close edges accepted = (if changed then cname_close edges accepted' else accepted')"
      by (simp add: cname_close.simps [of edges accepted] p)
    show ?case
    proof (cases changed)
      case True
      have ih: "set accepted' \<subseteq> set (cname_close edges accepted')"
        "set (cname_close edges accepted') \<subseteq> (set edges)\<^sup>* `` set accepted'"
        "\<forall>(n, t) \<in> set edges. n \<in> set (cname_close edges accepted') \<longrightarrow> t \<in> set (cname_close edges accepted')"
        using 1 [OF p [symmetric] True] by auto
      have "(set edges)\<^sup>* `` set accepted' \<subseteq> (set edges)\<^sup>* `` set accepted"
        using sound by (auto intro: rtrancl_trans)
      with ih grows show ?thesis unfolding unfold if_P [OF True] by blast
    next
      case False
      then show ?thesis using grows sound cname_pass_closed [of edges accepted accepted'] p
        unfolding unfold by auto
    qed
  qed
  note h = this [of hosts]
  have "y \<in> set (cname_close edges hosts)" if "(x, y) \<in> (set edges)\<^sup>*" "x \<in> set hosts" for x y
    using that h by (induction rule: rtrancl_induct) auto
  with h show ?thesis by blast
qed

lemma fold_min: "fold min (map f xs) (f x) = Min (insert (f x) (f ` set xs))" for f :: "'a \<Rightarrow> 'b :: linorder"
  using Min.set_eq_fold [of "f x" "map f xs"] by simp

text \<open>
  Claim C27.  Reading a message never panics, and the addresses it yields are those of the A and
  AAAA records of class IN whose name the question's host reaches through the CNAME records of
  the message, in the order of the message and none left out; the TTL is the least TTL of those
  records, and a minute when there are none.  A message without a readable question yields no
  address.
\<close>

theorem dns_addresses_follow_cnames:
  "\<exists>records out question. dns_answer_records payload = Some records \<and> address_records payload = Some out \<and>
     question_of payload = Some question \<and>
     (case question of
        None \<Rightarrow> da_addresses out = []
      | Some q \<Rightarrow>
         (let found = List.map_filter (\<lambda>r. the (address_record_of r)) (answers_for payload records (dq_host q)) in
          da_addresses out = map ar_addr found \<and>
          da_ttl out = (if found = [] then 60 else Min (set (map ar_ttl found)))))"
proof -
  obtain records where r: "dns_answer_records payload = Some records"
    using dns_answer_records_no_panic by (rule no_panic_E)
  obtain edges where e: "cname_edges payload records = Some edges"
    using cname_edges_no_panic by (rule no_panic_E)
  obtain question where q: "question_of payload = Some question"
    using question_of_no_panic by (rule no_panic_E)
  have a: "dr_name r \<in> set (cname_close edges [host]) \<longleftrightarrow> (host, dr_name r) \<in> (cname_step payload records)\<^sup>*" for r host
    by (simp add: cname_close_reachable cname_edges_step [OF e])
  have none: "cname_close edges [] = []"
    using cname_close_reachable [of edges "[]"] by simp
  have found: "dns_addresses_with_ttl payload = Some (case question of None \<Rightarrow> []
      | Some q \<Rightarrow> List.map_filter (\<lambda>r. the (address_record_of r)) (answers_for payload records (dq_host q)))"
    by (auto simp: dns_addresses_with_ttl_def dns_primary_question_hosts_def r e q a none answers_for_def
        filter_map_pure address_record_of_no_panic map_filter_simps split: option.split)
  show ?thesis
    by (auto simp: r q address_records_def found Let_def fold_min split: option.split list.split)
qed
end
