(* ===== verification/Classify.thy ===== *)
theory Classify
  imports Dns Http1Text
begin

text \<open>
  The protocol classifier of the network stack, \<open>application/classify.rs\<close>, with the recognisers
  of \<open>quic.rs\<close> and \<open>http3.rs\<close>.
\<close>

datatype application_protocol =
  ProtoDns | ProtoHttp1 | ProtoHttp2 | ProtoGrpc | ProtoWebSocket | ProtoQuic | ProtoHttp3 | ProtoRaw
| ProtoNeedMoreBytes

definition looks_like_quic_initial :: "bytes \<Rightarrow> bool" where
  "looks_like_quic_initial input = (case input of [] \<Rightarrow> False | first # _ \<Rightarrow> first AND 0xC0 = 0xC0)"

definition looks_like_http3_candidate :: "bytes \<Rightarrow> bool" where
  "looks_like_http3_candidate input = looks_like_quic_initial input"

definition classify_plain_tcp :: "bytes \<Rightarrow> application_protocol" where
  "classify_plain_tcp input =
     (if looks_like_h2c input then ProtoHttp2
      else if 10 \<notin> set input then ProtoNeedMoreBytes
      else if is_websocket_upgrade_request input then ProtoWebSocket
      else if is_grpc_request input then ProtoGrpc
      else if looks_like_http1 input then ProtoHttp1
      else ProtoRaw)"

definition classify_udp_datagram :: "bytes \<Rightarrow> application_protocol option" where
  "classify_udp_datagram input =
     has_dns_question input \<bind> (\<lambda>dns. Some
       (if dns then ProtoDns
        else if looks_like_http3_candidate input then ProtoHttp3
        else if looks_like_quic_initial input then ProtoQuic
        else ProtoRaw))"

text \<open>Classifying never panics, and a datagram is never classified as QUIC: HTTP/3 shadows it.\<close>

lemma classify_udp_total: "\<exists>p. classify_udp_datagram input = Some p \<and> p \<noteq> ProtoQuic"
  using question_parts_no_panic [of input]
  by (auto simp: classify_udp_datagram_def has_dns_question_def looks_like_http3_candidate_def no_panic_def)

text \<open>A request that carries a secret placeholder is mediated as HTTP/1 only from its first line feed on.\<close>

lemma classify_tcp_prefix:
  assumes "classify_plain_tcp input = ProtoNeedMoreBytes"
  shows "10 \<notin> set input"
  using assms by (auto simp: classify_plain_tcp_def split: if_splits)

end
