(* ===== verification/DnsMessages.thy ===== *)
theory DnsMessages
  imports Dns
begin

text \<open>
  DNS messages in wire format: a writer for a message with one question and any number of
  answers, whose names are written out or as a compression pointer to the question, and the
  proof that the reader of \<^theory_text>\<open>Dns\<close> returns what was written.
\<close>

section \<open>Wire format\<close>

definition label_bytes :: "bytes \<Rightarrow> bytes" where
  "label_bytes l = of_nat (length l) # l"

definition name_bytes :: "bytes list \<Rightarrow> bytes" where
  "name_bytes labels = concat (map label_bytes labels) @ [0]"

definition good_label :: "bytes \<Rightarrow> bool" where
  "good_label l \<longleftrightarrow> l \<noteq> [] \<and> length l \<le> 63 \<and> utf8_valid l"

definition good_name :: "bytes list \<Rightarrow> bool" where
  "good_name labels \<longleftrightarrow> labels \<noteq> [] \<and> list_all good_label labels"

fun host_text :: "bytes list \<Rightarrow> bytes" where
  "host_text [] = []"
| "host_text [l] = to_ascii_lowercase l"
| "host_text (l # ls) = to_ascii_lowercase l @ [46] @ host_text ls"

datatype answer_name = Written "bytes list" | SameAsQuestion

record answer =
  an_name :: answer_name
  an_type :: u16
  an_class :: u16
  an_ttl :: u32
  an_data :: bytes

fun answer_name_bytes :: "answer_name \<Rightarrow> bytes" where
  "answer_name_bytes (Written labels) = name_bytes labels"
| "answer_name_bytes SameAsQuestion = [0xC0, 12]"

definition answer_bytes :: "answer \<Rightarrow> bytes" where
  "answer_bytes a = answer_name_bytes (an_name a) @ be16_bytes (an_type a) @ be16_bytes (an_class a) @
     be32_bytes (an_ttl a) @ be16_bytes (of_nat (length (an_data a))) @ an_data a"

definition message_bytes :: "u16 \<Rightarrow> u16 \<Rightarrow> bytes list \<Rightarrow> u16 \<Rightarrow> u16 \<Rightarrow> answer list \<Rightarrow> bytes" where
  "message_bytes qid flags labels qtype qclass answers =
     be16_bytes qid @ be16_bytes flags @ be16_bytes 1 @ be16_bytes (of_nat (length answers)) @ [0, 0, 0, 0] @
     name_bytes labels @ be16_bytes qtype @ be16_bytes qclass @ concat (map answer_bytes answers)"

fun good_answer :: "answer \<Rightarrow> bool" where
  "good_answer a \<longleftrightarrow> length (an_data a) < 65536 \<and>
     (case an_name a of Written labels \<Rightarrow> good_name labels | SameAsQuestion \<Rightarrow> True)"

definition answer_host :: "bytes list \<Rightarrow> answer \<Rightarrow> bytes" where
  "answer_host labels a = host_text (case an_name a of Written ls \<Rightarrow> ls | SameAsQuestion \<Rightarrow> labels)"

section \<open>Names\<close>

lemma label_length_byte:
  assumes "0 < n" "n \<le> 63"
  shows "(of_nat n :: u8) \<noteq> 0" "(of_nat n :: u8) AND 0xC0 = 0" "unat (of_nat n :: u8) = n"
proof -
  have "\<forall>k\<in>set [0..<64]. (of_nat k :: u8) AND 0xC0 = 0" by code_simp
  then show "(of_nat n :: u8) AND 0xC0 = 0" using assms by auto
  show u: "unat (of_nat n :: u8) = n" using assms by (simp add: unat_of_nat_small)
  show "(of_nat n :: u8) \<noteq> 0" using u assms by auto
qed

lemma name_bytes_simps [simp]:
  "name_bytes [] = [0]" "name_bytes (l # ls) = label_bytes l @ name_bytes ls"
  by (simp_all add: name_bytes_def)

lemma scan_loop_name:
  assumes "list_all good_label labels" "drop cursor payload = name_bytes labels @ rest"
    "length payload < USIZE_LIMIT" "n + length labels < USIZE_LIMIT"
  shows "scan_loop visit payload n cursor end_offset jumps st =
    Some (if n = 0 \<and> labels = [] then None
      else Some (fold visit labels st, case end_offset of None \<Rightarrow> cursor + length (name_bytes labels) | Some e \<Rightarrow> e))"
  using assms
proof (induction labels arbitrary: n cursor st)
  case Nil
  then have "rd payload cursor = Some 0" "cursor < length payload"
    using drop_length_le [of cursor payload] by (auto simp: rd_drop)
  then show ?case using Nil
    by (simp add: scan_loop.simps [of visit payload n cursor] checked_add_def split: option.split)
next
  case (Cons l labels)
  let ?len = "of_nat (length l) :: u8"
  have l: "0 < length l" "length l \<le> 63" "from_utf8 l = Some l"
    using Cons.prems(1) by (auto simp: good_label_def from_utf8_def)
  have at: "drop cursor payload = ?len # l @ name_bytes labels @ rest"
    using Cons.prems(2) by (simp add: label_bytes_def)
  have rd: "rd payload cursor = Some ?len" using at by (rule rd_drop)
  have inside: "cursor + 1 + length l + length (name_bytes labels @ rest) = length payload"
    using drop_length_le [OF at] by simp
  have at1: "drop (cursor + 1) payload = l @ name_bytes labels @ rest"
    using drop_append_at [of cursor payload "[?len]"] at by simp
  have sl: "slice payload (cursor + 1) (cursor + 1 + length l) = Some l"
    using inside by (intro slice_drop [OF at1]) simp
  have at2: "drop (cursor + 1 + length l) payload = name_bytes labels @ rest"
    by (rule drop_append_at [OF at1])
  have room: "cursor + 1 < USIZE_LIMIT" "cursor + 1 + length l < USIZE_LIMIT"
      "\<not> length payload < cursor + 1 + length l" "n + 1 < USIZE_LIMIT"
    using inside Cons.prems(3,4) by auto
  have ih: "scan_loop visit payload (n + 1) (cursor + 1 + length l) end_offset jumps (visit l st) =
      Some (Some (fold visit labels (visit l st),
        case end_offset of None \<Rightarrow> cursor + 1 + length l + length (name_bytes labels) | Some e \<Rightarrow> e))"
    using Cons.IH [of "cursor + 1 + length l" "n + 1" "visit l st"] Cons.prems at2 by simp
  have ne: "(0 :: u8) \<noteq> 0xC0" by code_simp
  show ?case
    by (subst scan_loop.simps)
      (use room label_length_byte [OF l(1,2)] sl l(3) ih ne in
        \<open>simp add: rd checked_add_def label_bytes_def ac_simps split: option.split\<close>)
qed
lemma push_label_ne: "name \<noteq> [] \<Longrightarrow> push_label l name = name @ [46] @ to_ascii_lowercase l"
  by (simp add: push_label_def)

lemma fold_push_label:
  assumes "list_all good_label labels" "labels \<noteq> []"
  shows "fold push_label labels [] = host_text labels" "host_text labels \<noteq> []"
proof -
  have more: "fold push_label ls name = name @ concat (map (\<lambda>l. [46] @ to_ascii_lowercase l) ls)" if "name \<noteq> []" for ls name
    using that by (induction ls arbitrary: name) (simp_all add: push_label_ne)
  have joined: "host_text (l # ls) = to_ascii_lowercase l @ concat (map (\<lambda>l. [46] @ to_ascii_lowercase l) ls)" for l ls
    by (induction ls arbitrary: l) simp_all
  obtain l ls where "labels = l # ls" "to_ascii_lowercase l \<noteq> []"
    using assms by (cases labels) (auto simp: good_label_def to_ascii_lowercase_def)
  then show "fold push_label labels [] = host_text labels" "host_text labels \<noteq> []"
    by (simp_all add: push_label_def more joined del: host_text.simps)
qed

lemma length_name_bytes_ge: "length labels < length (name_bytes labels)"
  by (induction labels) (simp_all add: label_bytes_def)

lemma name_count:
  assumes "drop cursor payload = name_bytes labels @ rest" "length payload < USIZE_LIMIT"
  shows "length labels < USIZE_LIMIT"
  using drop_length_le [OF assms(1)] assms(2) length_name_bytes_ge [of labels] by (auto simp: name_bytes_def)

lemma read_dns_name_written:
  assumes "good_name labels" "drop cursor payload = name_bytes labels @ rest" "length payload < USIZE_LIMIT"
  shows "read_dns_name payload cursor = Some (Some (host_text labels, cursor + length (name_bytes labels)))"
  using assms fold_push_label [of labels] name_count [OF assms(2,3)]
  by (simp add: read_dns_name_def scan_dns_name_def good_name_def scan_loop_name [OF _ assms(2,3)])

lemma read_dns_name_pointer:
  assumes "good_name labels" "drop 12 payload = name_bytes labels @ rest" "length payload < USIZE_LIMIT"
    and at: "drop cursor payload = [0xC0, 12] @ after"
  shows "read_dns_name payload cursor = Some (Some (host_text labels, cursor + 2))"
proof -
  have rd: "rd payload cursor = Some 0xC0" "rd payload (cursor + 1) = Some 12"
    using rd_drop [of cursor payload] rd_drop [of "cursor + 1" payload] drop_append_at [of cursor payload "[0xC0]"] at
    by simp_all
  have room: "cursor + 2 < USIZE_LIMIT" using drop_length_le [OF at] assms(3) by simp
  have target: "unat (be16 0 12) = 12" by (simp add: unat_be16)
  have mask: "(0xC0 :: u8) AND 0xC0 = 0xC0" "(0xC0 :: u8) \<noteq> 0" by (simp, code_simp)
  have "scan_loop push_label payload 0 cursor None 0 [] =
      Some (Some (fold push_label labels [], cursor + 2))"
    using rd room name_count [OF assms(2,3)] assms(1)
    by (subst scan_loop.simps)
      (simp add: target mask checked_add_def scan_loop_name [OF _ assms(2,3)] good_name_def)
  then show ?thesis
    using fold_push_label [of labels] assms(1) by (simp add: read_dns_name_def scan_dns_name_def good_name_def)
qed

section \<open>Answers\<close>

definition answer_view :: "dns_record \<Rightarrow> bytes \<times> u16 \<times> u16 \<times> nat \<times> bytes" where
  "answer_view r = (dr_name r, dr_type r, dr_class r, dr_ttl r, dr_data r)"

definition written_view :: "bytes list \<Rightarrow> answer \<Rightarrow> bytes \<times> u16 \<times> u16 \<times> nat \<times> bytes" where
  "written_view labels a = (answer_host labels a, an_type a, an_class a, unat (max (an_ttl a) 1), an_data a)"

lemma read_answer_name:
  assumes "good_name labels" "drop 12 payload = name_bytes labels @ rest" "length payload < USIZE_LIMIT"
    and "good_answer a" and at: "drop cursor payload = answer_name_bytes (an_name a) @ after"
  shows "read_dns_name payload cursor =
    Some (Some (answer_host labels a, cursor + length (answer_name_bytes (an_name a))))"
proof (cases "an_name a")
  case (Written ls)
  then show ?thesis using assms read_dns_name_written [of ls cursor payload after] by (simp add: answer_host_def)
next
  case SameAsQuestion
  then show ?thesis using assms read_dns_name_pointer [of labels payload rest cursor after] by (simp add: answer_host_def)
qed

lemma read_record_written:
  assumes q: "good_name labels" "drop 12 payload = name_bytes labels @ rest" "length payload < USIZE_LIMIT"
    and a: "good_answer a" and at: "drop cursor payload = answer_bytes a @ after"
  shows "\<exists>r. read_record payload cursor = Some (Some (r, cursor + length (answer_bytes a))) \<and>
    answer_view r = written_view labels a"
proof -
  let ?n = "answer_name_bytes (an_name a)"
  let ?h = "cursor + length ?n"
  have inside: "cursor + length (answer_bytes a) + length after = length payload"
    using drop_length_le [OF at] by (simp add: answer_bytes_def be16_bytes_def)
  have len: "length (answer_bytes a) = length ?n + 10 + length (an_data a)" by (simp add: answer_bytes_def)
  have at0: "drop ?h payload = be16_bytes (an_type a) @ be16_bytes (an_class a) @ be32_bytes (an_ttl a) @
      be16_bytes (of_nat (length (an_data a))) @ an_data a @ after"
    using drop_append_at [of cursor payload ?n] at by (simp add: answer_bytes_def)
  let ?t = "be16_bytes (an_type a)" and ?c = "be16_bytes (an_class a)" and ?ttl = "be32_bytes (an_ttl a)"
    and ?len = "be16_bytes (of_nat (length (an_data a)))"
  have at2: "drop (?h + 2) payload = ?c @ ?ttl @ ?len @ an_data a @ after"
    using drop_append_at [of ?h payload ?t] at0 by simp
  have at4: "drop (?h + 4) payload = ?ttl @ ?len @ an_data a @ after"
    using drop_append_at [of ?h payload "?t @ ?c"] at0 by simp
  have at8: "drop (?h + 8) payload = ?len @ an_data a @ after"
    using drop_append_at [of ?h payload "?t @ ?c @ ?ttl"] at0 by simp
  have at10: "drop (?h + 10) payload = an_data a @ after"
    using drop_append_at [of ?h payload "?t @ ?c @ ?ttl @ ?len"] at0 by simp
  have name: "read_dns_name payload cursor = Some (Some (answer_host labels a, ?h))"
    using at by (intro read_answer_name [OF q a]) (simp add: answer_bytes_def)
  have reads: "read_be16 payload ?h = Some (an_type a)" "read_be16 payload (?h + 2) = Some (an_class a)"
      "read_be32 payload (?h + 4) = Some (an_ttl a)"
      "read_be16 payload (?h + 8) = Some (of_nat (length (an_data a)))"
    by (rule read_be16_drop [OF at0] read_be16_drop [OF at2] read_be32_drop [OF at4] read_be16_drop [OF at8])+
  have data: "slice payload (?h + 10) (?h + 10 + length (an_data a)) = Some (an_data a)"
    using inside len by (intro slice_drop [OF at10]) simp
  have ulen: "unat (of_nat (length (an_data a)) :: u16) = length (an_data a)"
    using a by (simp add: unat_of_nat_small)
  have room: "checked_add ?h 10 = Some (?h + 10)" "\<not> length payload < ?h + 10"
      "checked_add (?h + 10) (length (an_data a)) = Some (?h + 10 + length (an_data a))"
      "\<not> length payload < ?h + 10 + length (an_data a)"
    using inside len q(3) by (simp_all add: checked_add_def)
  have stop: "cursor + length (answer_bytes a) = ?h + 10 + length (an_data a)" using len by simp
  show ?thesis
    unfolding read_record_def name stop
    by (simp only: reads data ulen room bind.bind_lunit try_some_simps prod.case if_False not_True_eq_False refl
        option.inject prod.inject ex_simps simp_thms) (simp add: answer_view_def written_view_def)
qed

lemma read_records_written:
  assumes q: "good_name labels" "drop 12 payload = name_bytes labels @ rest" "length payload < USIZE_LIMIT"
    and "list_all good_answer answers" "drop cursor payload = concat (map answer_bytes answers)"
  shows "\<exists>rs. read_records payload (length answers) cursor = Some rs \<and>
    map answer_view rs = map (written_view labels) answers"
  using assms(4,5)
proof (induction answers arbitrary: cursor)
  case (Cons a answers)
  then obtain r where r: "read_record payload cursor = Some (Some (r, cursor + length (answer_bytes a)))"
      "answer_view r = written_view labels a"
    using read_record_written [OF q, of a cursor "concat (map answer_bytes answers)"] by auto
  have "drop (cursor + length (answer_bytes a)) payload = concat (map answer_bytes answers)"
    using Cons.prems(2) by (intro drop_append_at [of _ _ "answer_bytes a"]) simp
  from Cons.IH [OF _ this] Cons.prems(1) obtain rs where
    "read_records payload (length answers) (cursor + length (answer_bytes a)) = Some rs"
    "map answer_view rs = map (written_view labels) answers" by auto
  then show ?case using r by simp
qed simp

text \<open>
  Claim C28.  A DNS message with one question and any number of answers reads back as written:
  the identifier, type and class of the question and its host in lower case with dots between the
  labels, and every answer with its name, whether written out or as a compression pointer to the
  question, its type, class, data and its TTL, raised to one second when it is zero.
\<close>

theorem dns_message_roundtrip:
  assumes "good_name labels" "list_all good_answer answers" "length answers < 65536"
    "length (message_bytes qid flags labels qtype qclass answers) < USIZE_LIMIT"
  shows "question_of (message_bytes qid flags labels qtype qclass answers) =
      Some (Some \<lparr> dq_id = qid, dq_host = host_text labels, dq_qtype = qtype, dq_qclass = qclass \<rparr>) \<and>
    (\<exists>rs. dns_answer_records (message_bytes qid flags labels qtype qclass answers) = Some rs \<and>
      map answer_view rs = map (written_view labels) answers)"
proof -
  let ?m = "message_bytes qid flags labels qtype qclass answers"
  let ?n = "12 + length (name_bytes labels)"
  let ?a = "concat (map answer_bytes answers)"
  have at0: "drop 0 ?m = be16_bytes qid @ drop 2 ?m" by (simp add: message_bytes_def be16_bytes_def)
  have at4: "drop 4 ?m = be16_bytes 1 @ drop 6 ?m" by (simp add: message_bytes_def be16_bytes_def)
  have at6: "drop 6 ?m = be16_bytes (of_nat (length answers)) @ drop 8 ?m" by (simp add: message_bytes_def be16_bytes_def)
  have at12: "drop 12 ?m = name_bytes labels @ be16_bytes qtype @ be16_bytes qclass @ ?a"
    by (simp add: message_bytes_def be16_bytes_def)
  note atn = drop_append_at [OF at12]
  have atn2: "drop (?n + 2) ?m = be16_bytes qclass @ ?a" using drop_append_at [OF atn] by simp
  have atn4: "drop (?n + 4) ?m = ?a" using drop_append_at [of ?n ?m "be16_bytes qtype @ be16_bytes qclass"] atn by simp
  have len: "length ?m = ?n + 4 + length ?a" by (simp add: message_bytes_def)
  have room: "checked_add ?n 4 = Some (?n + 4)" "\<not> length ?m < ?n + 4" "\<not> length ?m < 12"
    using assms(4) len by (simp_all add: checked_add_def)
  note reads = read_be16_drop [OF at0] read_be16_drop [OF at4] read_be16_drop [OF at6] read_be16_drop [OF atn]
    read_be16_drop [OF atn2]
  note name = read_dns_name_written [OF assms(1) at12 assms(4)]
  have scan: "scan_dns_name ?m 12 visit () = Some (Some ((), ?n))" for visit
    using assms(1) name_count [OF at12 assms(4)]
    by (simp add: scan_dns_name_def scan_loop_name [OF _ at12 assms(4)] good_name_def)
  have q: "question_parts ?m = Some (Some \<lparr> qp_id = qid, qp_qtype = qtype, qp_qclass = qclass \<rparr>)"
    using reads(5) room(2) by (simp add: question_parts_def scan reads(1-4) room(1,3))
  have u: "unat (of_nat (length answers) :: u16) = length answers" using assms(3) by (simp add: unat_of_nat_small)
  have skip: "skip_questions ?m (Suc 0) 12 = Some (Some (?n + 4))" by (simp only: skip_questions.simps name bind.bind_lunit try_some_simps prod.case room)
  have "dns_answer_records ?m = read_records ?m (length answers) (?n + 4)"
    using room(3) skip by (simp add: dns_answer_records_def reads u del: skip_questions.simps)
  with read_records_written [OF assms(1) at12 assms(4,2) atn4] show ?thesis
    by (simp add: question_of_def q name)
qed
text \<open>A response for \<open>A.b\<close> with an alias through a pointer and an address under a written name.\<close>

definition demo_answers :: "answer list" where
  "demo_answers =
     [\<lparr> an_name = SameAsQuestion, an_type = 5, an_class = 1, an_ttl = 0, an_data = [1, 99, 0] \<rparr>,
      \<lparr> an_name = Written [[67]], an_type = 1, an_class = 1, an_ttl = 7, an_data = [203, 0, 113, 7] \<rparr>]"

theorem dns_message_roundtrip_witness:
  "good_name [[65], [98]] \<and> list_all good_answer demo_answers \<and> length demo_answers < 65536 \<and>
   length (message_bytes 7 0 [[65], [98]] 1 1 demo_answers) < USIZE_LIMIT \<and>
   question_of (message_bytes 7 0 [[65], [98]] 1 1 demo_answers) =
     Some (Some \<lparr> dq_id = 7, dq_host = [97, 46, 98], dq_qtype = 1, dq_qclass = 1 \<rparr>) \<and>
   (\<exists>rs. dns_answer_records (message_bytes 7 0 [[65], [98]] 1 1 demo_answers) = Some rs \<and>
     map answer_view rs = [([97, 46, 98], 5, 1, 1, [1, 99, 0]), ([99], 1, 1, 7, [203, 0, 113, 7])])"
proof -
  have utf8: "utf8_valid [65]" "utf8_valid [67]" "utf8_valid [98]" by code_simp+
  have good: "good_name [[65], [98]]" "list_all good_answer demo_answers" "length demo_answers < 65536"
    using utf8 by (simp_all add: good_name_def good_label_def demo_answers_def)
  have len: "length (message_bytes 7 0 [[65], [98]] 1 1 demo_answers) < USIZE_LIMIT"
    by (simp add: message_bytes_def demo_answers_def answer_bytes_def label_bytes_def)
  have lower: "to_ascii_lowercase [65] = [97]" "to_ascii_lowercase [98] = [98]" "to_ascii_lowercase [67] = [99]"
    by code_simp+
  have views: "map (written_view [[65], [98]]) demo_answers =
      [([97, 46, 98], 5, 1, 1, [1, 99, 0]), ([99], 1, 1, 7, [203, 0, 113, 7])]"
    by (simp add: demo_answers_def written_view_def answer_host_def lower)
  show ?thesis
    using dns_message_roundtrip [OF good len] good len unfolding views by (simp add: lower)
qed
end
