(* ===== verification/DnsTcp.thy ===== *)
theory DnsTcp
  imports Dns "HOL-Library.Multiset"
begin

text \<open>
  DNS over TCP: the length-prefixed frames of \<open>DnsTcpFrames\<close> against a reference splitter, for every
  way the stream is cut into reads, and the pairing of queries and responses by \<open>TcpDnsTracker\<close>.
\<close>

section \<open>The reference splitter\<close>

function split_frames :: "bytes \<Rightarrow> bytes list \<times> bytes" where
  "split_frames xs =
     (case xs of
        a # b # rest \<Rightarrow>
          (if length rest < unat (be16 a b) then ([], xs)
           else case split_frames (drop (unat (be16 a b)) rest) of
             (messages, left) \<Rightarrow> (take (unat (be16 a b)) rest # messages, left))
      | _ \<Rightarrow> ([], xs))"
  by pat_completeness auto

termination by (relation "measure length") auto

declare split_frames.simps [simp del]

lemma split_frames_short: "length xs < 2 \<Longrightarrow> split_frames xs = ([], xs)"
  by (auto simp: split_frames.simps [of xs] split: list.split)

lemma split_frames_Cons2:
  "split_frames (a # b # rest) =
     (if length rest < unat (be16 a b) then ([], a # b # rest)
      else case split_frames (drop (unat (be16 a b)) rest) of
        (messages, left) \<Rightarrow> (take (unat (be16 a b)) rest # messages, left))"
  by (simp add: split_frames.simps [of "a # b # rest"])

lemma split_frames_cases:
  obtains (short) "length xs < 2" | (long) a b rest where "xs = a # b # rest"
  by (cases xs rule: list.exhaust [case_names Nil Cons]) (simp, metis One_nat_def length_Cons length_0_conv less_Suc_eq list.exhaust numeral_2_eq_2)

lemma split_frames_suffix: "\<exists>k. snd (split_frames xs) = drop k xs"
proof (induction xs rule: length_induct)
  case (1 xs)
  show ?case
  proof (cases xs rule: split_frames_cases)
    case short
    then show ?thesis by (auto simp: split_frames_short intro: exI [of _ 0])
  next
    case (long a b rest)
    have shorter: "length (drop (unat (be16 a b)) rest) < length xs" by (simp add: long)
    obtain k where k: "snd (split_frames (drop (unat (be16 a b)) rest)) = drop k (drop (unat (be16 a b)) rest)"
      using 1 [rule_format, OF shorter] by blast
    have "drop (k + unat (be16 a b)) rest = drop (Suc (Suc (k + unat (be16 a b)))) xs" by (simp add: long)
    then have "\<exists>j. drop (k + unat (be16 a b)) rest = drop j xs" by blast
    then show ?thesis
      using k by (auto simp: long split_frames_Cons2 split: prod.splits intro: exI [of _ 0])
  qed
qed

lemma split_frames_left: "split_frames xs = (ms, left) \<Longrightarrow> drop (length xs - length left) xs = left"
  using split_frames_suffix [of xs]
  by (metis append_take_drop_id diff_diff_cancel diff_is_0_eq' drop_all length_drop linorder_linear snd_conv)

lemma split_frames_append:
  "split_frames p = (ms, left) \<Longrightarrow>
   split_frames (p @ q) = (case split_frames (left @ q) of (ms', left') \<Rightarrow> (ms @ ms', left'))"
proof (induction p arbitrary: ms left rule: length_induct)
  case (1 p)
  show ?case
  proof (cases p rule: split_frames_cases)
    case short
    then show ?thesis using 1(2) by (auto simp: split_frames_short split: prod.splits)
  next
    case (long a b rest)
    let ?n = "unat (be16 a b)"
    show ?thesis
    proof (cases "length rest < ?n")
      case True
      then show ?thesis using 1(2) by (auto simp: long split_frames_Cons2 [of a b rest] split: prod.splits)
    next
      case False
      obtain ms1 where s: "split_frames (drop ?n rest) = (ms1, left)" "ms = take ?n rest # ms1"
        using 1(2) False by (auto simp: long split_frames_Cons2 split: prod.splits)
      have "split_frames (drop ?n rest @ q) = (case split_frames (left @ q) of (ms', left') \<Rightarrow> (ms1 @ ms', left'))"
        by (rule 1(1) [rule_format, OF _ s(1)]) (simp add: long)
      then show ?thesis using False s(2) by (simp add: long split_frames_Cons2 split: prod.splits)
    qed
  qed
qed

section \<open>The code against the splitter\<close>

fun fold_opt :: "('a \<Rightarrow> 's \<Rightarrow> 's option) \<Rightarrow> 'a list \<Rightarrow> 's \<Rightarrow> 's option" where
  "fold_opt f [] st = Some st"
| "fold_opt f (x # xs) st = f x st \<bind> fold_opt f xs"

lemma fold_opt_append: "fold_opt f (xs @ ys) st = fold_opt f xs st \<bind> fold_opt f ys"
  by (induction xs arbitrary: st) (auto split: bind_splits)

lemma fold_opt_collect: "fold_opt (\<lambda>m st. Some (st @ [m])) xs st = Some (st @ xs)"
  by (induction xs arbitrary: st) simp_all

lemma frames_loop_split:
  assumes "offset \<le> length buffer"
  shows "frames_loop f buffer offset st =
    (case split_frames (drop offset buffer) of (ms, left) \<Rightarrow>
       fold_opt f ms st \<bind> (\<lambda>st. Some (st, length buffer - length left)))"
  using assms
proof (induction "length buffer - offset" arbitrary: offset st rule: less_induct)
  case less
  show ?case
  proof (cases "drop offset buffer" rule: split_frames_cases)
    case short
    then show ?thesis using less.prems by (simp add: frames_loop.simps [of f buffer offset] split_frames_short)
  next
    case (long a b rest)
    let ?n = "unat (be16 a b)"
    have len: "length buffer = offset + 2 + length rest"
      using arg_cong [OF long, of length] less.prems by simp
    have ab: "buffer ! offset = a" "buffer ! Suc offset = b"
      using nth_drop [of offset buffer 0] nth_drop [of offset buffer 1] less.prems by (simp_all add: long)
    have rest: "rest = drop (offset + 2) buffer"
      using arg_cong [OF long, of "drop 2"] by simp
    have read: "read_be16 buffer offset = Some (be16 a b)"
      using len by (simp add: read_be16_in ab)
    show ?thesis
    proof (cases "length rest < ?n")
      case True
      then show ?thesis using len
        by (simp add: frames_loop.simps [of f buffer offset] read long split_frames_Cons2)
    next
      case False
      have fits: "offset + 2 + ?n \<le> length buffer" using False len by linarith
      have less_offset: "length buffer - (offset + 2 + ?n) < length buffer - offset" using len by linarith
      have sl: "slice buffer (offset + 2) (offset + 2 + ?n) = Some (take ?n rest)"
        using slice_in [OF _ fits, of "offset + 2"] by (simp add: rest)
      have ih: "frames_loop f buffer (offset + 2 + ?n) st' =
          (case split_frames (drop ?n rest) of (ms, left) \<Rightarrow>
             fold_opt f ms st' \<bind> (\<lambda>st. Some (st, length buffer - length left)))" for st'
        using less.hyps [OF less_offset fits, of st'] by (simp add: rest add.commute)
      show ?thesis using False len sl
        by (auto simp: frames_loop.simps [of f buffer offset] read long split_frames_Cons2 ih [simplified] Let_def
            split: prod.splits bind_splits)
    qed
  qed
qed

lemma for_each_message_split:
  assumes "length (fr_buffer fr) + length input \<le> TCP_DNS_FRAME_BUFFER_CAPACITY"
  shows "for_each_message f fr input st =
    (case split_frames (fr_buffer fr @ input) of (ms, left) \<Rightarrow>
       fold_opt f ms st \<bind> (\<lambda>st. Some (fr\<lparr> fr_buffer := left \<rparr>, st)))"
proof -
  obtain ms left where s: "split_frames (fr_buffer fr @ input) = (ms, left)" by fastforce
  show ?thesis
    using assms split_frames_left [OF s]
    by (simp add: for_each_message_def frames_loop_split s)
qed
section \<open>Delivery of a framed stream\<close>

definition frame_of :: "bytes \<Rightarrow> bytes" where
  "frame_of message = [of_nat (length message div 256), of_nat (length message mod 256)] @ message"

definition stream_of :: "bytes list \<Rightarrow> bytes" where
  "stream_of messages = concat (map frame_of messages)"

text \<open>The messages a run of reads hands to a collecting closure, and the frames after it.\<close>

fun deliver :: "dns_tcp_frames \<Rightarrow> bytes list \<Rightarrow> (dns_tcp_frames \<times> bytes list) option" where
  "deliver fr [] = Some (fr, [])"
| "deliver fr (input # inputs) =
     for_each_message (\<lambda>m st. Some (st @ [m])) fr input [] \<bind> (\<lambda>(fr, ms).
       deliver fr inputs \<bind> (\<lambda>(fr, ms'). Some (fr, ms @ ms')))"

lemma be16_length: "n < 65536 \<Longrightarrow> unat (be16 (of_nat (n div 256)) (of_nat (n mod 256))) = n"
  by (simp add: unat_be16 unat_of_nat_small)

lemma split_frames_frame:
  assumes "length m < 65536"
  shows "split_frames (frame_of m @ xs) = (case split_frames xs of (ms, left) \<Rightarrow> (m # ms, left))"
  using be16_length [OF assms] by (simp add: frame_of_def split_frames_Cons2)

text \<open>What is left of a prefix of a framed stream is less than one frame.\<close>

lemma split_frames_prefix:
  assumes "\<forall>m\<in>set messages. length m \<le> 2046" "p @ q = stream_of messages"
  shows "\<exists>ms ms' left. split_frames p = (ms, left) \<and> messages = ms @ ms' \<and> left @ q = stream_of ms' \<and>
    length left < 2048"
  using assms
proof (induction messages arbitrary: p)
  case Nil
  then show ?case by (simp add: stream_of_def split_frames_short)
next
  case (Cons m messages)
  have m: "length m \<le> 2046" "length (frame_of m) = length m + 2" using Cons.prems by (simp_all add: frame_of_def)
  have stream: "p @ q = frame_of m @ stream_of messages" using Cons.prems by (simp add: stream_of_def)
  show ?case
  proof (cases "length (frame_of m) \<le> length p")
    case True
    then obtain p' where p: "p = frame_of m @ p'" "p' @ q = stream_of messages"
      using stream by (metis append_eq_append_conv_if append_eq_conv_conj append_take_drop_id)
    then show ?thesis
      using Cons.IH [of p'] Cons.prems m by (force simp: split_frames_frame split: prod.split)
  next
    case False
    have "split_frames p = ([], p)"
    proof (cases p rule: split_frames_cases)
      case short
      then show ?thesis by (rule split_frames_short)
    next
      case (long a b rest)
      have "a = of_nat (length m div 256)" "b = of_nat (length m mod 256)"
        using stream by (simp_all add: long frame_of_def)
      then show ?thesis using False m be16_length [of "length m"] by (simp add: long split_frames_Cons2)
    qed
    then show ?thesis using False m stream Cons.prems(2) by auto
  qed
qed

lemma deliver_exact:
  assumes "\<forall>m\<in>set messages. length m \<le> 2046" and "\<forall>input\<in>set inputs. length input \<le> 2048"
    and "fr_buffer fr @ concat inputs = stream_of messages" and "split_frames (fr_buffer fr) = ([], fr_buffer fr)"
  shows "deliver fr inputs = Some (\<lparr> fr_buffer = [] \<rparr>, messages)"
  using assms
proof (induction inputs arbitrary: fr messages)
  case Nil
  then have "split_frames (stream_of messages) = ([], stream_of messages)" by simp
  moreover have "split_frames (stream_of messages) = (messages, [])"
    using Nil.prems(1) by (induction messages) (simp_all add: stream_of_def split_frames_short split_frames_frame)
  ultimately show ?case using Nil by simp
next
  case (Cons input inputs)
  let ?p = "fr_buffer fr @ input"
  obtain ms ms' left where s: "split_frames ?p = (ms, left)" "messages = ms @ ms'" "left @ concat inputs = stream_of ms'"
    using split_frames_prefix [of messages ?p "concat inputs"] Cons.prems by auto
  have "length (fr_buffer fr) < 2048"
    using split_frames_prefix [of messages "fr_buffer fr" "input @ concat inputs"] Cons.prems by auto
  then have fits: "length (fr_buffer fr) + length input \<le> TCP_DNS_FRAME_BUFFER_CAPACITY"
    using Cons.prems(2) by (simp add: TCP_DNS_FRAME_BUFFER_CAPACITY_def)
  have left: "split_frames left = ([], left)"
    using split_frames_append [OF s(1), of "[]"] s(1) by (auto split: prod.splits)
  have "deliver (fr\<lparr> fr_buffer := left \<rparr>) inputs = Some (\<lparr> fr_buffer = [] \<rparr>, ms')"
    using Cons.prems s left by (intro Cons.IH) auto
  then show ?case by (simp add: for_each_message_split [OF fits] s fold_opt_collect)
qed

text \<open>
  However the bytes of a framed DNS stream are cut into reads of at most 2048 bytes,
  messages of at most 2046 bytes come out complete, in order, once each, and nothing stays in the
  buffer; the buffer's limit of 4096 bytes is never hit on the way.
\<close>

theorem dns_tcp_frames_exact:
  assumes "\<forall>m\<in>set messages. length m \<le> 2046" and "\<forall>input\<in>set inputs. length input \<le> 2048"
    and "concat inputs = stream_of messages"
  shows "deliver \<lparr> fr_buffer = [] \<rparr> inputs = Some (\<lparr> fr_buffer = [] \<rparr>, messages)"
  using deliver_exact [of messages inputs "\<lparr> fr_buffer = [] \<rparr>"] assms by (simp add: split_frames_short)

theorem dns_tcp_frames_exact_witness:
  "(\<forall>m\<in>set [[1, 2, 3], [], [7 :: u8]]. length m \<le> 2046) \<and>
   (\<forall>input\<in>set [[0], [3, 1], [2, 3, 0, 0 :: u8], [0, 1, 7]]. length input \<le> 2048) \<and>
   concat [[0], [3, 1], [2, 3, 0, 0], [0, 1, 7]] = stream_of [[1, 2, 3], [], [7]] \<and>
   deliver \<lparr> fr_buffer = [] \<rparr> [[0], [3, 1], [2, 3, 0, 0], [0, 1, 7]] = Some (\<lparr> fr_buffer = [] \<rparr>, [[1, 2, 3], [], [7]])"
proof -
  have s: "concat [[0], [3, 1], [2, 3, 0, 0], [0, 1, 7]] = stream_of [[1, 2, 3], [], [7]]"
    by (simp add: stream_of_def frame_of_def)
  have "deliver \<lparr> fr_buffer = [] \<rparr> [[0], [3, 1], [2, 3, 0, 0], [0, 1, 7]] = Some (\<lparr> fr_buffer = [] \<rparr>, [[1, 2, 3], [], [7]])"
    by (rule dns_tcp_frames_exact [OF _ _ s]) simp_all
  with s show ?thesis by simp
qed
section \<open>Queries and responses\<close>

datatype dns_op = GuestBytes bytes | UpstreamBytes bytes

text \<open>The questions of the messages a call of \<open>record_queries\<close> completes.\<close>

definition questions :: "bytes list \<Rightarrow> dns_question list" where
  "questions messages = List.map_filter (\<lambda>m. the (question_of m)) messages"

definition asked_by :: "dns_tcp_frames \<Rightarrow> bytes \<Rightarrow> dns_question list" where
  "asked_by fr input =
     (case for_each_message (\<lambda>m st. Some (st @ [m])) fr input [] of None \<Rightarrow> [] | Some (_, ms) \<Rightarrow> questions ms)"

fun tracker_step :: "tcp_dns_tracker \<Rightarrow> dns_op \<Rightarrow> (tcp_dns_tracker \<times> dns_question list \<times> dns_resolution list) option" where
  "tracker_step t (GuestBytes input) =
     record_queries t input \<bind> (\<lambda>t'. Some (t', asked_by (tt_guest t) input, []))"
| "tracker_step t (UpstreamBytes input) =
     response t input \<bind> (\<lambda>(t', r). Some (t', [], case r of None \<Rightarrow> [] | Some r \<Rightarrow> [r]))"

fun tracker_run :: "tcp_dns_tracker \<Rightarrow> dns_op list \<Rightarrow> (tcp_dns_tracker \<times> dns_question list \<times> dns_resolution list) option" where
  "tracker_run t [] = Some (t, [], [])"
| "tracker_run t (op # ops) =
     tracker_step t op \<bind> (\<lambda>(t, asked, resolved).
       tracker_run t ops \<bind> (\<lambda>(t, asked', resolved'). Some (t, asked @ asked', resolved @ resolved')))"

definition pending_ok :: "tcp_dns_tracker \<Rightarrow> bool" where
  "pending_ok t \<longleftrightarrow> distinct (tt_pending t) \<and> length (tt_pending t) \<le> tt_capacity t \<and> 0 < tt_capacity t"

lemma push_pending_ok:
  assumes "distinct pending" "length pending \<le> capacity" "0 < capacity"
  shows "\<exists>p. push_pending capacity pending q = Some p \<and> distinct p \<and> length p \<le> capacity \<and>
    mset p \<subseteq># add_mset q (mset pending)"
  using assms by (auto simp: push_pending_def subset_mset.add_increasing split: list.split)

lemma record_queries_fold:
  assumes "distinct pending" "length pending \<le> capacity" "0 < capacity"
  shows "\<exists>p. fold_opt (record_query capacity) ms pending = Some p \<and> distinct p \<and> length p \<le> capacity \<and>
    mset p \<subseteq># mset (questions ms) + mset pending"
  using assms
proof (induction ms arbitrary: pending)
  case (Cons m ms)
  obtain r where r: "question_of m = Some r" using question_of_no_panic by (rule no_panic_E)
  show ?case
  proof (cases r)
    case None
    then show ?thesis using Cons by (simp add: record_query_def r questions_def map_filter_simps)
  next
    case (Some q)
    obtain p where p: "push_pending capacity pending q = Some p" "distinct p" "length p \<le> capacity"
        "mset p \<subseteq># add_mset q (mset pending)"
      using push_pending_ok Cons.prems by blast
    obtain p' where "fold_opt (record_query capacity) ms p = Some p'" "distinct p'" "length p' \<le> capacity"
        "mset p' \<subseteq># mset (questions ms) + mset p"
      using Cons.IH [OF p(2,3) Cons.prems(3)] by blast
    moreover have "mset (questions ms) + mset p \<subseteq># add_mset q (mset (questions ms) + mset pending)"
      using p(4) by (metis add_mset_add_single mset_subset_eq_mono_add_left_cancel add.assoc)
    moreover have "record_query capacity m pending = Some p" by (simp add: record_query_def r Some p(1))
    moreover have "questions (m # ms) = q # questions ms" by (simp add: questions_def map_filter_simps r Some)
    ultimately show ?thesis by (auto intro: subset_mset.order_trans)
  qed
qed (simp add: questions_def map_filter_simps)

lemma remove_pending_found:
  assumes "remove_pending pending q = (p, Some q')"
  shows "mset pending = add_mset q' (mset p)"
proof -
  from assms obtain i where i: "position (\<lambda>p. p = q) pending = Some i" "p = take i pending @ drop (Suc i) pending"
      "q' = pending ! i" by (auto simp: remove_pending_def split: option.splits)
  then have "i < length pending" by (simp add: position_less)
  from id_take_nth_drop [OF this] show ?thesis using i by (metis mset.simps(2) mset_append union_mset_add_mset_right)
qed

lemma match_response_step:
  assumes "distinct pending"
  shows "\<exists>p r'. match_response m (pending, r) = Some (p, r') \<and> distinct p \<and> length p \<le> length pending \<and>
    image_mset dq_host (mset p) + image_mset res_host (mset_set (set_option r')) =
    image_mset dq_host (mset pending) + image_mset res_host (mset_set (set_option r))"
proof (cases r)
  case (Some _)
  then show ?thesis using assms by (simp add: match_response_def)
next
  case None
  obtain qr where qr: "question_of m = Some qr" using question_of_no_panic by (rule no_panic_E)
  obtain a where a: "address_records m = Some a" using address_records_no_panic by (rule no_panic_E)
  show ?thesis
  proof (cases qr)
    case None
    then show ?thesis using assms \<open>r = None\<close> by (simp add: match_response_def qr)
  next
    case (Some q)
    obtain p found where rp: "remove_pending pending q = (p, found)" by fastforce
    show ?thesis
    proof (cases found)
      case None
      then have "p = pending" using rp by (auto simp: remove_pending_def split: option.splits)
      then show ?thesis using assms None \<open>r = None\<close> by (simp add: match_response_def qr Some rp)
    next
      case found: (Some q')
      note same = remove_pending_found [OF rp [unfolded found]]
      have "distinct p" using assms same by (metis distinct.simps(2) mset.simps(2) mset_eq_imp_distinct_iff)
      moreover have "length p \<le> length pending" using arg_cong [OF same, of size] by simp
      ultimately show ?thesis using \<open>r = None\<close> same
        by (simp add: match_response_def qr Some rp found a)
    qed
  qed
qed

lemma match_response_fold:
  assumes "distinct pending"
  shows "\<exists>p r'. fold_opt match_response ms (pending, r) = Some (p, r') \<and> distinct p \<and> length p \<le> length pending \<and>
    image_mset dq_host (mset p) + image_mset res_host (mset_set (set_option r')) =
    image_mset dq_host (mset pending) + image_mset res_host (mset_set (set_option r))"
  using assms
proof (induction ms arbitrary: pending r)
  case (Cons m ms)
  obtain p r' where p: "match_response m (pending, r) = Some (p, r')" "distinct p" "length p \<le> length pending"
    "image_mset dq_host (mset p) + image_mset res_host (mset_set (set_option r')) =
     image_mset dq_host (mset pending) + image_mset res_host (mset_set (set_option r))"
    using match_response_step [OF Cons.prems] by blast
  from Cons.IH [OF p(2), of r'] p show ?case by (auto intro: order_trans)
qed simp

lemma for_each_message_dropped:
  "TCP_DNS_FRAME_BUFFER_CAPACITY < length (fr_buffer fr) + length input \<Longrightarrow>
   for_each_message f fr input st = Some (fr\<lparr> fr_buffer := [] \<rparr>, st)"
  by (simp add: for_each_message_def)

lemma tracker_step_ok:
  assumes "pending_ok t"
  shows "\<exists>t' asked resolved. tracker_step t op = Some (t', asked, resolved) \<and> pending_ok t' \<and>
    tt_capacity t' = tt_capacity t \<and>
    image_mset dq_host (mset (tt_pending t')) + image_mset res_host (mset resolved) \<subseteq>#
    image_mset dq_host (mset asked) + image_mset dq_host (mset (tt_pending t))"
proof (cases op)
  case (GuestBytes input)
  show ?thesis
  proof (cases "TCP_DNS_FRAME_BUFFER_CAPACITY < length (fr_buffer (tt_guest t)) + length input")
    case True
    note dropped = for_each_message_dropped [OF True]
    show ?thesis using assms by (simp add: dropped GuestBytes record_queries_def asked_by_def pending_ok_def questions_def map_filter_simps)
  next
    case False
    obtain ms left where ms: "split_frames (fr_buffer (tt_guest t) @ input) = (ms, left)" by fastforce
    note messages = for_each_message_split [OF False [unfolded not_less], unfolded ms prod.case]
    obtain p where "fold_opt (record_query (tt_capacity t)) ms (tt_pending t) = Some p" "distinct p"
        "length p \<le> tt_capacity t" "mset p \<subseteq># mset (questions ms) + mset (tt_pending t)"
      using record_queries_fold assms unfolding pending_ok_def by blast
    then show ?thesis using assms image_mset_subseteq_mono [of "mset p" _ dq_host]
      by (auto simp: GuestBytes record_queries_def asked_by_def messages fold_opt_collect pending_ok_def
          simp flip: image_mset_union)
  qed
next
  case (UpstreamBytes input)
  show ?thesis
  proof (cases "TCP_DNS_FRAME_BUFFER_CAPACITY < length (fr_buffer (tt_upstream t)) + length input")
    case True
    note dropped = for_each_message_dropped [OF True]
    show ?thesis using assms by (simp add: dropped UpstreamBytes response_def pending_ok_def)
  next
    case False
    obtain ms left where ms: "split_frames (fr_buffer (tt_upstream t) @ input) = (ms, left)" by fastforce
    note messages = for_each_message_split [OF False [unfolded not_less], unfolded ms prod.case]
    obtain p r where "fold_opt match_response ms (tt_pending t, None) = Some (p, r)" "distinct p"
        "length p \<le> length (tt_pending t)"
        "image_mset dq_host (mset p) + image_mset res_host (mset_set (set_option r)) = image_mset dq_host (mset (tt_pending t))"
      using match_response_fold [of "tt_pending t" ms None] assms unfolding pending_ok_def by auto
    then show ?thesis using assms
      by (cases r) (auto simp: UpstreamBytes response_def messages pending_ok_def)
  qed
qed

lemma tracker_run_ok:
  assumes "pending_ok t"
  shows "\<exists>t' asked resolved. tracker_run t ops = Some (t', asked, resolved) \<and> pending_ok t' \<and>
    tt_capacity t' = tt_capacity t \<and>
    image_mset dq_host (mset (tt_pending t')) + image_mset res_host (mset resolved) \<subseteq>#
    image_mset dq_host (mset asked) + image_mset dq_host (mset (tt_pending t))"
  using assms
proof (induction ops arbitrary: t)
  case (Cons op ops)
  obtain t1 a1 r1 where 1: "tracker_step t op = Some (t1, a1, r1)" "pending_ok t1" "tt_capacity t1 = tt_capacity t"
      "image_mset dq_host (mset (tt_pending t1)) + image_mset res_host (mset r1) \<subseteq>#
       image_mset dq_host (mset a1) + image_mset dq_host (mset (tt_pending t))"
    using tracker_step_ok [OF Cons.prems] by blast
  obtain t2 a2 r2 where 2: "tracker_run t1 ops = Some (t2, a2, r2)" "pending_ok t2" "tt_capacity t2 = tt_capacity t1"
      "image_mset dq_host (mset (tt_pending t2)) + image_mset res_host (mset r2) \<subseteq>#
       image_mset dq_host (mset a2) + image_mset dq_host (mset (tt_pending t1))"
    using Cons.IH [OF 1(2)] by blast
  have "image_mset dq_host (mset (tt_pending t2)) + image_mset res_host (mset (r1 @ r2)) \<subseteq>#
      image_mset dq_host (mset (a1 @ a2)) + image_mset dq_host (mset (tt_pending t))"
    using subset_mset.add_mono [OF 1(4) 2(4)] by (simp add: ac_simps)
  with 1 2 show ?case by simp
qed simp

text \<open>
  Claim C29.  Over any interleaving of guest and upstream bytes the tracker never panics, keeps at
  most its capacity of distinct open questions, and resolves a host at most as often as the guest
  asked for it: an upstream cannot make it report addresses for a host nobody asked about, nor the
  same question twice.
\<close>

theorem dns_resolutions_solicited:
  assumes "TCP_DNS_PENDING_LIMIT \<le> capacity"
  shows "\<exists>t asked resolved. tracker_run (tcp_dns_default capacity) ops = Some (t, asked, resolved) \<and>
    distinct (tt_pending t) \<and> length (tt_pending t) \<le> capacity \<and>
    (\<forall>host. count (mset (map res_host resolved)) host \<le> count (mset (map dq_host asked)) host)"
proof -
  have "pending_ok (tcp_dns_default capacity)"
    using assms by (simp add: pending_ok_def tcp_dns_default_def TCP_DNS_PENDING_LIMIT_def)
  from tracker_run_ok [OF this, of ops] obtain t asked resolved where
    r: "tracker_run (tcp_dns_default capacity) ops = Some (t, asked, resolved)" "pending_ok t" "tt_capacity t = capacity"
    "image_mset dq_host (mset (tt_pending t)) + image_mset res_host (mset resolved) \<subseteq># image_mset dq_host (mset asked)"
    by (auto simp: tcp_dns_default_def)
  then have "image_mset res_host (mset resolved) \<subseteq># image_mset dq_host (mset asked)"
    by (metis mset_subset_eq_add_right subset_mset.order_trans)
  with r show ?thesis by (auto simp: pending_ok_def subseteq_mset_def)
qed

theorem dns_resolutions_solicited_witness:
  "TCP_DNS_PENDING_LIMIT \<le> 16 \<and>
   (\<exists>t asked resolved. tracker_run (tcp_dns_default 16) [GuestBytes [0, 0], UpstreamBytes [0]] = Some (t, asked, resolved) \<and>
      distinct (tt_pending t) \<and> length (tt_pending t) \<le> 16 \<and>
      (\<forall>host. count (mset (map res_host resolved)) host \<le> count (mset (map dq_host asked)) host))"
proof -
  have "TCP_DNS_PENDING_LIMIT \<le> 16" by (simp add: TCP_DNS_PENDING_LIMIT_def)
  from this dns_resolutions_solicited [OF this, of "[GuestBytes [0, 0], UpstreamBytes [0]]"]
  show ?thesis by (rule conjI)
qed
end
