(* ===== verification/Io.thy ===== *)
theory Io
  imports Prelude
begin

text \<open>
  The answers of the operating system to a non-blocking read or write, as far as the sources
  tell them apart, and sockets as the answers they will give.
\<close>

datatype io_error = WouldBlock | WriteZero | OtherIo

datatype read_event = Chunk bytes | ReadBlock | ReadFail | ReadEof

datatype write_event = Accept nat | WriteBlock | WriteFail

record socket =
  so_in :: "read_event list"
  so_room :: "write_event list"
  so_out :: bytes

text \<open>
  A read into a buffer of \<open>cap\<close> bytes and a write of a slice; both may be short.  The script says
  what each read finds and how much each write accepts, with would-block answers and failures
  anywhere between; past its end every call would block.
\<close>

definition sock_read :: "nat \<Rightarrow> socket \<Rightarrow> socket \<times> (bytes, io_error) result" where
  "sock_read cap s =
     (case so_in s of
        [] \<Rightarrow> (s, Err WouldBlock)
      | ReadBlock # es \<Rightarrow> (s\<lparr> so_in := es \<rparr>, Err WouldBlock)
      | ReadFail # es \<Rightarrow> (s\<lparr> so_in := es \<rparr>, Err OtherIo)
      | ReadEof # es \<Rightarrow> (s, Ok [])
      | Chunk xs # es \<Rightarrow>
          (s\<lparr> so_in := (if length xs \<le> cap then es else Chunk (drop cap xs) # es) \<rparr>, Ok (take cap xs)))"

definition sock_write :: "bytes \<Rightarrow> socket \<Rightarrow> socket \<times> (nat, io_error) result" where
  "sock_write xs s =
     (case so_room s of
        [] \<Rightarrow> (s, Err WouldBlock)
      | WriteBlock # es \<Rightarrow> (s\<lparr> so_room := es \<rparr>, Err WouldBlock)
      | WriteFail # es \<Rightarrow> (s\<lparr> so_room := es \<rparr>, Err OtherIo)
      | Accept k # es \<Rightarrow> (s\<lparr> so_room := es, so_out := so_out s @ take k xs \<rparr>, Ok (min k (length xs))))"

lemma sock_read_le: "sock_read cap s = (s', Ok xs) \<Longrightarrow> length xs \<le> cap"
  by (auto simp: sock_read_def split: list.splits read_event.splits)

lemma sock_write_Ok:
  "sock_write xs s = (s', Ok n) \<Longrightarrow> n \<le> length xs \<and> so_out s' = so_out s @ take n xs"
  by (auto simp: sock_write_def min_def split: list.splits write_event.splits)

lemma sock_write_Err: "sock_write xs s = (s', Err e) \<Longrightarrow> so_out s' = so_out s"
  by (auto simp: sock_write_def split: list.splits write_event.splits)

end
