(* ===== verification/QemuStream.thy ===== *)
theory QemuStream
  imports WireBytes Io
begin

text \<open>
  The frame transport between the network stack and QEMU, \<open>FrameStream\<close> of
  \<open>backends/agentdp-qemu/src/net/stream.rs\<close>: Ethernet frames with a four-byte big-endian length
  over a non-blocking local socket, where every read and write may be short or would block.
  The socket is the scripted one of \<^theory_text>\<open>Io\<close>.
\<close>

section \<open>Frames\<close>

definition FRAME_LENGTH_BYTES :: nat where
  "FRAME_LENGTH_BYTES = 4"

definition MAX_ETHERNET_FRAME_BYTES :: u32 where
  "MAX_ETHERNET_FRAME_BYTES = 65535"

datatype stream_error =
  ReadError io_error
| WriteError io_error
| OversizedFrame u32 u32 bytes

datatype guest_frame_read = FrameRead | ReadBlocked | ReadClosed

datatype guest_frame_write = Flushed | WriteBlocked

record frame_stream =
  fs_stream :: socket
  fs_read_prefix :: bytes
  fs_read_prefix_len :: nat
  fs_read_payload :: bytes
  fs_read_payload_len :: nat
  fs_pending_write :: bytes
  fs_pending_write_offset :: nat

definition stream_connect :: "socket \<Rightarrow> frame_stream" where
  "stream_connect s =
     \<lparr> fs_stream = s, fs_read_prefix = replicate FRAME_LENGTH_BYTES 0, fs_read_prefix_len = 0,
       fs_read_payload = [], fs_read_payload_len = 0, fs_pending_write = [], fs_pending_write_offset = 0 \<rparr>"

text \<open>\<open>{byte:02x}\<close> and the text of an error message.\<close>

definition hex_digit :: "nat \<Rightarrow> u8" where
  "hex_digit n = byte_string ''0123456789abcdef'' ! (n mod 16)"

definition hex_byte :: "u8 \<Rightarrow> bytes" where
  "hex_byte b = [hex_digit (unat b div 16), hex_digit (unat b)]"

fun hex_join :: "nat \<Rightarrow> bytes \<Rightarrow> bytes" where
  "hex_join index [] = []"
| "hex_join index (b # bs) = (if index > 0 then [32] else []) @ hex_byte b @ hex_join (Suc index) bs"

definition hex_prefix :: "bytes \<Rightarrow> nat \<Rightarrow> bytes" where
  "hex_prefix xs max_len =
     hex_join 0 (take (min (length xs) max_len) xs) @ (if max_len < length xs then byte_string '' ...'' else [])"

definition checked_incoming_frame_len :: "bytes \<Rightarrow> (nat, stream_error) result option" where
  "checked_incoming_frame_len length_prefix =
     read_be32 length_prefix 0 \<bind> (\<lambda>len. Some
       (if MAX_ETHERNET_FRAME_BYTES < len
        then Err (OversizedFrame len MAX_ETHERNET_FRAME_BYTES (hex_prefix length_prefix FRAME_LENGTH_BYTES))
        else Ok (unat len)))"

definition checked_outgoing_frame_len :: "bytes \<Rightarrow> (u32, stream_error) result" where
  "checked_outgoing_frame_len frame =
     (if 2 ^ 32 \<le> length frame
      then Err (OversizedFrame (- 1) MAX_ETHERNET_FRAME_BYTES (byte_string ''<outgoing frame too large>''))
      else let len = of_nat (length frame) in
        if MAX_ETHERNET_FRAME_BYTES < len
        then Err (OversizedFrame len MAX_ETHERNET_FRAME_BYTES (hex_prefix (be32_bytes len) FRAME_LENGTH_BYTES))
        else Ok len)"

text \<open>For evaluation: the comparison with \<open>u32::MAX\<close> on integers.\<close>

lemma checked_outgoing_code [code]:
  "checked_outgoing_frame_len frame =
     (if 4294967296 \<le> int (length frame)
      then Err (OversizedFrame (- 1) MAX_ETHERNET_FRAME_BYTES (byte_string ''<outgoing frame too large>''))
      else let len = of_nat (length frame) in
        if MAX_ETHERNET_FRAME_BYTES < len
        then Err (OversizedFrame len MAX_ETHERNET_FRAME_BYTES (hex_prefix (be32_bytes len) FRAME_LENGTH_BYTES))
        else Ok len)"
  unfolding checked_outgoing_frame_len_def by (simp add: Let_def)

section \<open>Reading a frame\<close>

datatype fill_outcome = Filled | FillStopped "(guest_frame_read, stream_error) result"

text \<open>The loop that fills a buffer from its first unread byte on; both loops of the reader have this form.\<close>

function fill :: "socket \<Rightarrow> bytes \<Rightarrow> nat \<Rightarrow> socket \<times> bytes \<times> nat \<times> fill_outcome" where
  "fill s buf n =
     (if n < length buf then
        (case sock_read (length buf - n) s of
           (s, Ok []) \<Rightarrow> (s, buf, n, FillStopped (Ok ReadClosed))
         | (s, Ok (x # xs)) \<Rightarrow> fill s (overwrite buf n (x # xs)) (n + length (x # xs))
         | (s, Err WouldBlock) \<Rightarrow> (s, buf, n, FillStopped (Ok ReadBlocked))
         | (s, Err e) \<Rightarrow> (s, buf, n, FillStopped (Err (ReadError e))))
      else (s, buf, n, Filled))"
  by pat_completeness auto

termination
proof (relation "measure (\<lambda>(_, buf, n). length buf - n)", goal_cases)
  case (2 s buf n s' r y x xs)
  then have "length (x # xs) \<le> length buf - n" using sock_read_le by metis
  then show ?case using 2 by auto
qed simp

declare fill.simps [simp del]

lemma fill_full: "length buf \<le> n \<Longrightarrow> fill s buf n = (s, buf, n, Filled)"
  by (simp add: fill.simps [of s buf n])

text \<open>The second half of \<open>try_read_frame_into\<close>, once the length is known: the payload, and the hand-over.\<close>

definition read_payload ::
    "frame_stream \<Rightarrow> bytes \<Rightarrow> frame_stream \<times> bytes \<times> (guest_frame_read, stream_error) result" where
  "read_payload st frame =
     (case fill (fs_stream st) (fs_read_payload st) (fs_read_payload_len st) of (s, payload, n, outcome) \<Rightarrow>
        let st = st\<lparr> fs_stream := s, fs_read_payload := payload, fs_read_payload_len := n \<rparr> in
        case outcome of
          FillStopped r \<Rightarrow> (st, frame, r)
        | Filled \<Rightarrow>
           (st\<lparr> fs_read_prefix := replicate FRAME_LENGTH_BYTES 0, fs_read_prefix_len := 0,
              fs_read_payload := [], fs_read_payload_len := 0 \<rparr>,
            fs_read_payload st, Ok FrameRead))"

text \<open>
  \<open>try_read_frame_into\<close>: the stream, the caller's frame and the result.  \<open>Vec::resize\<close> grows the empty
  payload with zeros.
\<close>

definition try_read_frame_into ::
    "frame_stream \<Rightarrow> bytes \<Rightarrow> (frame_stream \<times> bytes \<times> (guest_frame_read, stream_error) result) option" where
  "try_read_frame_into st frame =
     (case fill (fs_stream st) (fs_read_prefix st) (fs_read_prefix_len st) of (s, prefix, n, outcome) \<Rightarrow>
        let st = st\<lparr> fs_stream := s, fs_read_prefix := prefix, fs_read_prefix_len := n \<rparr> in
        case outcome of
          FillStopped r \<Rightarrow> Some (st, frame, r)
        | Filled \<Rightarrow>
           if fs_read_payload st = [] then
             checked_incoming_frame_len prefix \<bind> (\<lambda>checked.
               case checked of
                 Err e \<Rightarrow> Some (st, frame, Err e)
               | Ok frame_len \<Rightarrow>
                  Some (read_payload
                    (st\<lparr> fs_read_payload := replicate frame_len 0, fs_read_payload_len := 0 \<rparr>) frame))
           else Some (read_payload st frame))"

section \<open>Writing a frame\<close>

function flush_pending_write :: "frame_stream \<Rightarrow> frame_stream \<times> (guest_frame_write, stream_error) result" where
  "flush_pending_write st =
     (if fs_pending_write_offset st < length (fs_pending_write st) then
        (case sock_write (drop (fs_pending_write_offset st) (fs_pending_write st)) (fs_stream st) of
           (s, Ok written) \<Rightarrow>
             (if written = 0 then (st\<lparr> fs_stream := s \<rparr>, Err (WriteError WriteZero))
              else flush_pending_write
                (st\<lparr> fs_stream := s, fs_pending_write_offset := fs_pending_write_offset st + written \<rparr>))
         | (s, Err WouldBlock) \<Rightarrow> (st\<lparr> fs_stream := s \<rparr>, Ok WriteBlocked)
         | (s, Err e) \<Rightarrow> (st\<lparr> fs_stream := s \<rparr>, Err (WriteError e)))
      else (st\<lparr> fs_pending_write := [], fs_pending_write_offset := 0 \<rparr>, Ok Flushed))"
  by pat_completeness auto

termination
  by (relation "measure (\<lambda>st. length (fs_pending_write st) - fs_pending_write_offset st)") auto

declare flush_pending_write.simps [simp del]

definition extend_pending :: "bytes \<Rightarrow> frame_stream \<Rightarrow> frame_stream" where
  "extend_pending xs st = st\<lparr> fs_pending_write := fs_pending_write st @ xs \<rparr>"

text \<open>The second write of a fresh frame, after its length went out whole.\<close>

definition write_payload :: "frame_stream \<Rightarrow> bytes \<Rightarrow> frame_stream \<times> (guest_frame_write, stream_error) result" where
  "write_payload st frame =
     (case sock_write frame (fs_stream st) of
        (s, Ok written) \<Rightarrow>
          (let st = st\<lparr> fs_stream := s \<rparr> in
           if written = length frame then (st, Ok Flushed)
           else flush_pending_write (extend_pending (drop written frame) st))
      | (s, Err WouldBlock) \<Rightarrow> (extend_pending frame (st\<lparr> fs_stream := s \<rparr>), Ok WriteBlocked)
      | (s, Err e) \<Rightarrow> (st\<lparr> fs_stream := s \<rparr>, Err (WriteError e)))"

definition try_write_frame :: "frame_stream \<Rightarrow> bytes \<Rightarrow> frame_stream \<times> (guest_frame_write, stream_error) result" where
  "try_write_frame st frame =
     (if fs_pending_write st = [] then
        (case checked_outgoing_frame_len frame of
           Err e \<Rightarrow> (st, Err e)
         | Ok len \<Rightarrow>
            (case sock_write (be32_bytes len) (fs_stream st) of
               (s, Ok written) \<Rightarrow>
                 (let st = st\<lparr> fs_stream := s \<rparr> in
                  if written = FRAME_LENGTH_BYTES then write_payload st frame
                  else flush_pending_write (extend_pending frame (extend_pending (drop written (be32_bytes len)) st)))
             | (s, Err WouldBlock) \<Rightarrow>
                 (extend_pending frame (extend_pending (be32_bytes len) (st\<lparr> fs_stream := s \<rparr>)), Ok WriteBlocked)
             | (s, Err e) \<Rightarrow> (st\<lparr> fs_stream := s \<rparr>, Err (WriteError e))))
      else flush_pending_write st)"

section \<open>What is still to be sent\<close>

definition encoded :: "bytes \<Rightarrow> bytes" where
  "encoded frame = be32_bytes (of_nat (length frame)) @ frame"

text \<open>
  The bytes a stream has sent and has still in hand.  A writer calls again with the same frame
  until it is flushed, so while bytes are in hand the frame they belong to is the next one.
\<close>

definition in_hand :: "frame_stream \<Rightarrow> bytes" where
  "in_hand st = drop (fs_pending_write_offset st) (fs_pending_write st)"

definition write_ok :: "frame_stream \<Rightarrow> bool" where
  "write_ok st \<longleftrightarrow> fs_pending_write_offset st \<le> length (fs_pending_write st) \<and>
     (fs_pending_write_offset st = length (fs_pending_write st) \<longrightarrow> fs_pending_write st = [])"

lemma flush_pending_write_sends:
  assumes "flush_pending_write st = (st', r)" "fs_pending_write_offset st \<le> length (fs_pending_write st)"
    and "fs_pending_write st \<noteq> []"
  shows "so_out (fs_stream st') @ in_hand st' = so_out (fs_stream st) @ in_hand st \<and>
    fs_pending_write_offset st' \<le> length (fs_pending_write st') \<and>
    (case r of Ok Flushed \<Rightarrow> fs_pending_write st' = [] \<and> fs_pending_write_offset st' = 0
     | _ \<Rightarrow> fs_pending_write st' \<noteq> [] \<and> fs_pending_write_offset st' < length (fs_pending_write st'))"
  using assms
proof (induction st rule: flush_pending_write.induct)
  case (1 st)
  show ?case
  proof (cases "fs_pending_write_offset st < length (fs_pending_write st)")
    case False
    then show ?thesis using 1 by (auto simp: flush_pending_write.simps [of st] in_hand_def)
  next
    case True
    obtain s w where w: "sock_write (in_hand st) (fs_stream st) = (s, w)" by fastforce
    show ?thesis
    proof (cases w)
      case (Err e)
      then show ?thesis
        using 1 True w sock_write_Err [of "in_hand st" "fs_stream st" s e]
        by (cases e) (auto simp: flush_pending_write.simps [of st] in_hand_def)
    next
      case (Ok n)
      note sent = sock_write_Ok [OF w [unfolded Ok]]
      show ?thesis
      proof (cases "n = 0")
        case zero: True
        then show ?thesis using 1 True w Ok sent by (auto simp: flush_pending_write.simps [of st] in_hand_def)
      next
        case False
        let ?st = "st\<lparr> fs_stream := s, fs_pending_write_offset := fs_pending_write_offset st + n \<rparr>"
        have "flush_pending_write ?st = (st', r)"
          using 1(2) True False w Ok by (simp add: flush_pending_write.simps [of st] in_hand_def)
        moreover have room: "fs_pending_write_offset st + n \<le> length (fs_pending_write st)"
          using sent True by (auto simp: in_hand_def)
        ultimately show ?thesis
          using 1(1) [OF True w [symmetric, unfolded in_hand_def] Ok False] 1(4) sent
          by (simp add: in_hand_def add.commute flip: drop_drop)
      qed
    qed
  qed
qed

lemma checked_outgoing_Ok:
  assumes "checked_outgoing_frame_len frame = Ok len"
  shows "len = of_nat (length frame)" "length frame \<le> 65535"
proof -
  show len: "len = of_nat (length frame)"
    using assms by (auto simp: checked_outgoing_frame_len_def Let_def split: if_splits)
  have small: "length frame < 2 ^ 32" and le: "len \<le> 65535"
    using assms by (auto simp: checked_outgoing_frame_len_def Let_def MAX_ETHERNET_FRAME_BYTES_def split: if_splits)
  have "unat len = length frame" using small by (simp add: len unat_of_nat_small)
  moreover have "unat len \<le> unat (65535 :: u32)" using le by (simp add: word_le_nat_alt)
  ultimately show "length frame \<le> 65535" by simp
qed

text \<open>
  One call: the bytes sent and in hand grow by the frame when nothing was in hand, and only then;
  \<open>Flushed\<close> leaves nothing in hand, \<open>Blocked\<close> leaves something.
\<close>

lemma flush_pending_write_step:
  assumes "flush_pending_write st = (st', Ok r)" "fs_pending_write_offset st \<le> length (fs_pending_write st)"
    "fs_pending_write st \<noteq> []"
  shows "so_out (fs_stream st') @ in_hand st' = so_out (fs_stream st) @ in_hand st" "write_ok st'"
    "in_hand st' = [] \<longleftrightarrow> r = Flushed"
  using flush_pending_write_sends [OF assms] by (cases r; auto simp: write_ok_def in_hand_def)+

lemma write_payload_sends:
  assumes call: "write_payload st frame = (st', Ok r)" and frame: "frame \<noteq> []"
    and idle: "fs_pending_write st = []" "fs_pending_write_offset st = 0"
  shows "so_out (fs_stream st') @ in_hand st' = so_out (fs_stream st) @ frame \<and> write_ok st' \<and>
    (in_hand st' = [] \<longleftrightarrow> r = Flushed)"
proof -
  obtain s w where w: "sock_write frame (fs_stream st) = (s, w)" by fastforce
  show ?thesis
  proof (cases w)
    case (Err e)
    then show ?thesis using call w idle frame sock_write_Err [OF w [unfolded Err]]
      by (cases e) (auto simp: write_payload_def in_hand_def write_ok_def extend_pending_def)
  next
    case (Ok k)
    note sent = sock_write_Ok [OF w [unfolded Ok]]
    show ?thesis
    proof (cases "k = length frame")
      case True
      then show ?thesis using call w Ok idle sent by (auto simp: write_payload_def in_hand_def write_ok_def)
    next
      case False
      let ?s1 = "extend_pending (drop k frame) (st\<lparr> fs_stream := s \<rparr>)"
      have "flush_pending_write ?s1 = (st', Ok r)" using call w Ok False by (simp add: write_payload_def)
      from flush_pending_write_step [OF this] show ?thesis
        using sent False idle by (simp add: in_hand_def extend_pending_def)
    qed
  qed
qed

lemma fresh_frame_sends:
  assumes call: "try_write_frame st frame = (st', Ok r)" and frame: "frame \<noteq> []"
    and idle: "fs_pending_write st = []" "fs_pending_write_offset st = 0"
  shows "so_out (fs_stream st') @ in_hand st' = so_out (fs_stream st) @ encoded frame \<and> write_ok st' \<and>
    (in_hand st' = [] \<longleftrightarrow> r = Flushed)"
proof -
  obtain len where len: "checked_outgoing_frame_len frame = Ok len"
    using call idle by (auto simp: try_write_frame_def split: result.splits)
  have enc: "encoded frame = be32_bytes len @ frame" by (simp add: encoded_def checked_outgoing_Ok(1) [OF len])
  obtain s w where w: "sock_write (be32_bytes len) (fs_stream st) = (s, w)" by fastforce
  note call' = call [unfolded try_write_frame_def if_P [OF idle(1)] len result.case w prod.case]
  show ?thesis
  proof (cases w)
    case (Err e)
    then show ?thesis using call' idle sock_write_Err [OF w [unfolded Err]]
      by (cases e) (auto simp: enc in_hand_def write_ok_def extend_pending_def be32_bytes_def)
  next
    case (Ok n)
    note sent = sock_write_Ok [OF w [unfolded Ok]]
    show ?thesis
    proof (cases "n = FRAME_LENGTH_BYTES")
      case False
      let ?s1 = "extend_pending frame (extend_pending (drop n (be32_bytes len)) (st\<lparr> fs_stream := s \<rparr>))"
      have "flush_pending_write ?s1 = (st', Ok r)" using call' Ok False by simp
      from flush_pending_write_step [OF this] show ?thesis
        using sent frame idle by (simp add: enc in_hand_def extend_pending_def)
    next
      case True
      have "write_payload (st\<lparr> fs_stream := s \<rparr>) frame = (st', Ok r)" using call' Ok True by simp
      from write_payload_sends [OF this frame] show ?thesis
        using sent idle True by (simp add: enc FRAME_LENGTH_BYTES_def)
    qed
  qed
qed

lemma try_write_frame_sends:
  assumes ok: "write_ok st" and call: "try_write_frame st frame = (st', Ok r)" and frame: "frame \<noteq> []"
  shows "so_out (fs_stream st') @ in_hand st' =
      so_out (fs_stream st) @ (if in_hand st = [] then encoded frame else in_hand st) \<and>
    write_ok st' \<and> (in_hand st' = [] \<longleftrightarrow> r = Flushed)"
proof (cases "fs_pending_write st = []")
  case False
  then have "flush_pending_write st = (st', Ok r)" using call by (simp add: try_write_frame_def)
  from flush_pending_write_step [OF this _ False] show ?thesis
    using ok False by (auto simp: write_ok_def in_hand_def)
next
  case True
  then show ?thesis using fresh_frame_sends [OF call frame True] ok by (auto simp: write_ok_def in_hand_def)
qed

section \<open>A writer that retries\<close>

text \<open>
  The caller's loop, for a number of calls: the next frame while the last one was flushed, the same
  frame again while it was not, and no call after an error.
\<close>

fun write_run :: "nat \<Rightarrow> frame_stream \<Rightarrow> bytes list \<Rightarrow> frame_stream \<times> bytes list \<times> stream_error option" where
  "write_run 0 st frames = (st, frames, None)"
| "write_run (Suc n) st [] = (st, [], None)"
| "write_run (Suc n) st (frame # frames) =
     (case try_write_frame st frame of
        (st, Ok Flushed) \<Rightarrow> write_run n st frames
      | (st, Ok WriteBlocked) \<Rightarrow> write_run n st (frame # frames)
      | (st, Err e) \<Rightarrow> (st, frame # frames, Some e))"

definition unsent :: "frame_stream \<Rightarrow> bytes list \<Rightarrow> bytes" where
  "unsent st frames = (if in_hand st = [] then concat (map encoded frames) else in_hand st @ concat (map encoded (tl frames)))"

lemma write_run_sends:
  assumes "write_run n st frames = (st', left, None)" "write_ok st" "\<forall>f\<in>set frames. f \<noteq> []"
    "frames = [] \<longrightarrow> in_hand st = []"
  shows "so_out (fs_stream st') @ unsent st' left = so_out (fs_stream st) @ unsent st frames \<and>
    (left = [] \<longrightarrow> in_hand st' = [])"
  using assms
proof (induction n st frames rule: write_run.induct)
  case (3 n st frame frames)
  obtain st1 w where w: "try_write_frame st frame = (st1, w)" by fastforce
  from 3 w obtain r where r: "w = Ok r" by (cases w) auto
  note sends = try_write_frame_sends [OF 3(4) w [unfolded r]]
  show ?case
    using 3 w r sends by (cases r) (auto simp: unsent_def split: if_splits)
qed auto

section \<open>A reader that retries\<close>

fun read_run :: "nat \<Rightarrow> frame_stream \<Rightarrow> (frame_stream \<times> bytes list \<times> (guest_frame_read, stream_error) result option) option" where
  "read_run 0 st = Some (st, [], None)"
| "read_run (Suc n) st =
     try_read_frame_into st [] \<bind> (\<lambda>(st, frame, r).
       case r of
         Ok FrameRead \<Rightarrow> read_run n st \<bind> (\<lambda>(st, frames, stop). Some (st, frame # frames, stop))
       | Ok ReadBlocked \<Rightarrow> read_run n st
       | _ \<Rightarrow> Some (st, [], Some r))"

text \<open>Scripts without failures: non-empty chunks with would-block answers between them.\<close>

fun clean_event :: "read_event \<Rightarrow> bool" where
  "clean_event (Chunk xs) \<longleftrightarrow> xs \<noteq> []"
| "clean_event ReadBlock \<longleftrightarrow> True"
| "clean_event _ \<longleftrightarrow> False"

definition clean :: "read_event list \<Rightarrow> bool" where
  "clean events \<longleftrightarrow> list_all clean_event events"

fun event_bytes :: "read_event \<Rightarrow> bytes" where
  "event_bytes (Chunk xs) = xs"
| "event_bytes _ = []"

definition incoming :: "read_event list \<Rightarrow> bytes" where
  "incoming events = concat (map event_bytes events)"

definition blocks :: "read_event list \<Rightarrow> nat" where
  "blocks events = length (filter (\<lambda>e. e = ReadBlock) events)"

lemma sock_read_incoming:
  "sock_read cap s = (s', Ok xs) \<Longrightarrow> incoming (so_in s) = xs @ incoming (so_in s')"
  "sock_read cap s = (s', Err e) \<Longrightarrow> incoming (so_in s) = incoming (so_in s')"
  by (auto simp: sock_read_def incoming_def split: list.splits read_event.splits if_splits)

lemma sock_read_clean [consumes 2, case_names data blocked]:
  assumes "clean (so_in s)" "0 < cap"
  obtains (data) s' xs where "sock_read cap s = (s', Ok xs)" "xs \<noteq> []" "incoming (so_in s) = xs @ incoming (so_in s')"
      "clean (so_in s')" "blocks (so_in s') = blocks (so_in s)" "length xs \<le> cap"
  | (blocked) s' where "sock_read cap s = (s', Err WouldBlock)" "incoming (so_in s') = incoming (so_in s)"
      "clean (so_in s')" "blocks (so_in s') < blocks (so_in s) \<or> (so_in s' = [] \<and> blocks (so_in s') = blocks (so_in s))"
proof (cases "so_in s")
  case Nil
  then show ?thesis by (intro blocked [of s]) (simp_all add: sock_read_def clean_def)
next
  case (Cons e es)
  show ?thesis
  proof (cases e)
    case (Chunk ys)
    then have "ys \<noteq> []" using assms Cons by (simp add: clean_def)
    then show ?thesis using assms
      by (intro data [of "fst (sock_read cap s)" "take cap ys"])
        (auto simp: sock_read_def Cons Chunk incoming_def clean_def blocks_def)
  next
    case ReadBlock
    then show ?thesis using assms
      by (intro blocked [of "s\<lparr> so_in := es \<rparr>"]) (auto simp: sock_read_def Cons incoming_def clean_def blocks_def)
  qed (use assms Cons in \<open>simp_all add: clean_def\<close>)
qed

text \<open>Filling a buffer whose contents are known: it is filled with them, or a would-block answer is used up.\<close>

lemma fill_clean:
  assumes "clean (so_in s)" "n \<le> length buf" "take n buf @ incoming (so_in s) = want @ rest" "length want = length buf"
  shows "\<exists>s' buf' n' out. fill s buf n = (s', buf', n', out) \<and> clean (so_in s') \<and> length buf' = length buf \<and>
    n' \<le> length buf \<and> take n' buf' @ incoming (so_in s') = want @ rest \<and>
    (out = Filled \<and> n' = length buf \<and> buf' = want \<and> incoming (so_in s') = rest \<and> blocks (so_in s') \<le> blocks (so_in s) \<or>
     out = FillStopped (Ok ReadBlocked) \<and> blocks (so_in s') < blocks (so_in s))"
  using assms
proof (induction s buf n rule: fill.induct)
  case (1 s buf n)
  show ?case
  proof (cases "n < length buf")
    case False
    then have n: "n = length buf" using 1(3) by simp
    then have "buf = want" "incoming (so_in s) = rest" using 1(4,5) by simp_all
    then show ?thesis using 1(2) n by (simp add: fill_full)
  next
    case True
    then have cap: "0 < length buf - n" by simp
    from 1(2) cap show ?thesis
    proof (cases rule: sock_read_clean)
      case (data s' xs)
      obtain y ys where xs: "xs = y # ys" using data(2) by (cases xs) auto
      have fits: "n + length xs \<le> length buf" using data(6) True by linarith
      have "take (n + length xs) (overwrite buf n xs) = take n buf @ xs"
        using fits by (rule take_overwrite)
      then have "take (n + length xs) (overwrite buf n xs) @ incoming (so_in s') = want @ rest"
        using 1(4) data(3) by simp
      moreover have "length (overwrite buf n xs) = length buf" using fits by simp
      moreover have "fill s buf n = fill s' (overwrite buf n xs) (n + length xs)"
        using True data(1) by (simp add: fill.simps [of s buf n] xs)
      ultimately show ?thesis
        using 1(1) [OF True data(1) [symmetric] refl xs] data(4,5) fits 1(5) by (simp add: xs)
    next
      case (blocked s')
      have "so_in s' \<noteq> []"
      proof
        assume "so_in s' = []"
        then have "length (take n buf) = length (want @ rest)" using 1(4) blocked(2) by (metis append_Nil2 concat.simps(1) incoming_def list.simps(8))
        then show False using True 1(5) by simp
      qed
      then show ?thesis using True blocked 1(3-5)
        by (auto simp: fill.simps [of s buf n])
    qed
  qed
qed

definition held :: "frame_stream \<Rightarrow> bytes" where
  "held st = take (fs_read_prefix_len st) (fs_read_prefix st) @ take (fs_read_payload_len st) (fs_read_payload st)"

definition read_ok :: "frame_stream \<Rightarrow> bytes list \<Rightarrow> bool" where
  "read_ok st frames \<longleftrightarrow> clean (so_in (fs_stream st)) \<and> length (fs_read_prefix st) = 4 \<and> fs_read_prefix_len st \<le> 4 \<and>
     fs_read_payload_len st \<le> length (fs_read_payload st) \<and>
     (fs_read_payload st \<noteq> [] \<longrightarrow> fs_read_prefix_len st = 4 \<and> frames \<noteq> [] \<and> length (fs_read_payload st) = length (hd frames)) \<and>
     held st @ incoming (so_in (fs_stream st)) = concat (map encoded frames)"

lemma read_be32_be32_bytes: "read_be32 (be32_bytes w) 0 = Some w"
  by (rule read_be32_drop [of _ _ _ "[]"]) simp

lemma checked_incoming_encoded:
  assumes "length f \<le> 65535"
  shows "checked_incoming_frame_len (be32_bytes (of_nat (length f))) = Some (Ok (length f))"
proof -
  have u: "unat (of_nat (length f) :: u32) = length f" using assms by (simp add: unat_of_nat_small)
  then have "\<not> (65535 :: u32) < of_nat (length f)" using assms by (simp add: word_less_nat_alt)
  then show ?thesis using u by (simp add: checked_incoming_frame_len_def read_be32_be32_bytes MAX_ETHERNET_FRAME_BYTES_def)
qed

text \<open>A call on a stream that carries no further frame would block and changes nothing that matters.\<close>

lemma try_read_frame_idle:
  assumes "read_ok st []"
  shows "\<exists>st'. try_read_frame_into st frame = Some (st', frame, Ok ReadBlocked) \<and> read_ok st' []"
proof -
  have idle: "fs_read_prefix_len st = 0" "fs_read_payload st = []" "fs_read_payload_len st = 0"
      "clean (so_in (fs_stream st))" "incoming (so_in (fs_stream st)) = []" "length (fs_read_prefix st) = 4"
    using assms by (auto simp: read_ok_def held_def)
  have "0 < (4 :: nat)" by simp
  from idle(4) this show ?thesis
  proof (cases rule: sock_read_clean)
    case (blocked s')
    then show ?thesis using idle
      by (simp add: try_read_frame_into_def fill.simps [of _ "fs_read_prefix st"] read_ok_def held_def)
  qed (use idle in simp)
qed

text \<open>The payload phase of a call, with the length known and part of the payload read.\<close>

lemma read_payload_step:
  assumes s: "clean (so_in (fs_stream st))" "fs_read_payload_len st \<le> length (fs_read_payload st)"
      "take (fs_read_payload_len st) (fs_read_payload st) @ incoming (so_in (fs_stream st)) = f @ concat (map encoded fs)"
    and f: "length f = length (fs_read_payload st)" "fs_read_prefix_len st = 4" "fs_read_prefix st = be32_bytes (of_nat (length f))"
  shows "\<exists>st' frame' r. read_payload st frame = (st', frame', Ok r) \<and>
    (r = FrameRead \<and> frame' = f \<and> read_ok st' fs \<and> blocks (so_in (fs_stream st')) \<le> blocks (so_in (fs_stream st)) \<or>
     r = ReadBlocked \<and> read_ok st' (f # fs) \<and> blocks (so_in (fs_stream st')) < blocks (so_in (fs_stream st)))"
proof -
  obtain s' payload' n' out where p: "fill (fs_stream st) (fs_read_payload st) (fs_read_payload_len st) = (s', payload', n', out)"
      "clean (so_in s')" "length payload' = length (fs_read_payload st)" "n' \<le> length (fs_read_payload st)"
      "take n' payload' @ incoming (so_in s') = f @ concat (map encoded fs)"
      "out = Filled \<and> payload' = f \<and> incoming (so_in s') = concat (map encoded fs) \<and>
         blocks (so_in s') \<le> blocks (so_in (fs_stream st)) \<or>
       out = FillStopped (Ok ReadBlocked) \<and> blocks (so_in s') < blocks (so_in (fs_stream st))"
    using fill_clean [OF s f(1)] by blast
  from p(6) show ?thesis
  proof
    assume "out = Filled \<and> payload' = f \<and> incoming (so_in s') = concat (map encoded fs) \<and>
      blocks (so_in s') \<le> blocks (so_in (fs_stream st))"
    then show ?thesis using p(1,2) by (simp add: read_payload_def read_ok_def held_def FRAME_LENGTH_BYTES_def)
  next
    assume "out = FillStopped (Ok ReadBlocked) \<and> blocks (so_in s') < blocks (so_in (fs_stream st))"
    then show ?thesis using p f by (simp add: read_payload_def read_ok_def held_def encoded_def)
  qed
qed

lemma try_read_frame_step:
  assumes ok: "read_ok st (f # fs)" and f: "length f \<le> 65535"
  shows "\<exists>st' frame' r. try_read_frame_into st frame = Some (st', frame', Ok r) \<and>
    (r = FrameRead \<and> frame' = f \<and> read_ok st' fs \<and> blocks (so_in (fs_stream st')) \<le> blocks (so_in (fs_stream st)) \<or>
     r = ReadBlocked \<and> read_ok st' (f # fs) \<and> blocks (so_in (fs_stream st')) < blocks (so_in (fs_stream st)))"
proof (cases "fs_read_payload st = []")
  let ?p = "be32_bytes (of_nat (length f))" and ?rest = "concat (map encoded fs)"
  let ?s = "fs_stream st"
  case True
  then have h: "fs_read_payload_len st = 0" "clean (so_in ?s)" "length (fs_read_prefix st) = 4" "fs_read_prefix_len st \<le> 4"
      "take (fs_read_prefix_len st) (fs_read_prefix st) @ incoming (so_in ?s) = ?p @ f @ ?rest"
    using ok by (auto simp: read_ok_def held_def encoded_def)
  obtain s1 p1 n1 out1 where p: "fill ?s (fs_read_prefix st) (fs_read_prefix_len st) = (s1, p1, n1, out1)"
      "clean (so_in s1)" "length p1 = 4" "n1 \<le> 4" "take n1 p1 @ incoming (so_in s1) = ?p @ f @ ?rest"
      "out1 = Filled \<and> n1 = 4 \<and> p1 = ?p \<and> incoming (so_in s1) = f @ ?rest \<and> blocks (so_in s1) \<le> blocks (so_in ?s) \<or>
       out1 = FillStopped (Ok ReadBlocked) \<and> blocks (so_in s1) < blocks (so_in ?s)"
    using fill_clean [OF h(2) _ h(5)] h(3,4) by auto
  show ?thesis
  proof (cases "out1 = Filled")
    case False
    then have "try_read_frame_into st frame =
        Some (st\<lparr> fs_stream := s1, fs_read_prefix := p1, fs_read_prefix_len := n1 \<rparr>, frame, Ok ReadBlocked)"
      using p(1,6) by (simp add: try_read_frame_into_def)
    then show ?thesis using False p True h(1) by (auto simp: read_ok_def held_def encoded_def)
  next
    case filled: True
    then have d: "n1 = 4" "p1 = ?p" "incoming (so_in s1) = f @ ?rest" "blocks (so_in s1) \<le> blocks (so_in ?s)" using p(6) by auto
    let ?st = "st\<lparr> fs_stream := s1, fs_read_prefix := p1, fs_read_prefix_len := n1,
      fs_read_payload := replicate (length f) 0, fs_read_payload_len := 0 \<rparr>"
    have "try_read_frame_into st frame = Some (read_payload ?st frame)"
      using p(1) filled True d checked_incoming_encoded [OF f] by (simp add: try_read_frame_into_def)
    moreover have "\<exists>st' frame' r. read_payload ?st frame = (st', frame', Ok r) \<and>
        (r = FrameRead \<and> frame' = f \<and> read_ok st' fs \<and> blocks (so_in (fs_stream st')) \<le> blocks (so_in (fs_stream ?st)) \<or>
         r = ReadBlocked \<and> read_ok st' (f # fs) \<and> blocks (so_in (fs_stream st')) < blocks (so_in (fs_stream ?st)))"
      by (rule read_payload_step) (use p(2) d in simp_all)
    ultimately show ?thesis using d(4) by (auto intro: order_trans order_less_le_trans)
  qed
next
  case False
  then have d: "fs_read_prefix_len st = 4" "length (fs_read_payload st) = length f" "length (fs_read_prefix st) = 4"
    using ok by (auto simp: read_ok_def)
  then have e: "fs_read_prefix st = be32_bytes (of_nat (length f))"
      "take (fs_read_payload_len st) (fs_read_payload st) @ incoming (so_in (fs_stream st)) = f @ concat (map encoded fs)"
    using ok by (auto simp: read_ok_def held_def encoded_def)
  have same: "st\<lparr> fs_read_prefix_len := 4 \<rparr> = st" using d(1) by (cases st) simp
  have "try_read_frame_into st frame = Some (read_payload (st\<lparr> fs_read_prefix_len := 4 \<rparr>) frame)"
    using False d by (simp add: try_read_frame_into_def fill_full)
  then have "try_read_frame_into st frame = Some (read_payload st frame)" unfolding same .
  moreover have "clean (so_in (fs_stream st))" "fs_read_payload_len st \<le> length (fs_read_payload st)"
    using ok by (simp_all add: read_ok_def)
  ultimately show ?thesis
    using read_payload_step [OF _ _ e(2) d(2) [symmetric] d(1) e(1), of frame] by simp
qed

lemma read_run_idle: "read_ok st [] \<Longrightarrow> \<exists>st'. read_run n st = Some (st', [], None)"
proof (induction n arbitrary: st)
  case (Suc n)
  then show ?case using try_read_frame_idle [OF Suc.prems, of "[]"] by auto
qed simp

lemma read_run_frames:
  assumes "read_ok st frames" "\<forall>f\<in>set frames. length f \<le> 65535" "length frames + blocks (so_in (fs_stream st)) \<le> n"
  shows "\<exists>st'. read_run n st = Some (st', frames, None)"
  using assms
proof (induction n arbitrary: st frames)
  case (Suc n)
  show ?case
  proof (cases frames)
    case Nil
    then show ?thesis using read_run_idle Suc.prems(1) by blast
  next
    case (Cons f fs)
    obtain st' frame' r where step: "try_read_frame_into st [] = Some (st', frame', Ok r)"
      "r = FrameRead \<and> frame' = f \<and> read_ok st' fs \<and> blocks (so_in (fs_stream st')) \<le> blocks (so_in (fs_stream st)) \<or>
       r = ReadBlocked \<and> read_ok st' (f # fs) \<and> blocks (so_in (fs_stream st')) < blocks (so_in (fs_stream st))"
      using try_read_frame_step [of st f fs "[]"] Suc.prems Cons by auto
    from step(2) show ?thesis
    proof
      assume "r = FrameRead \<and> frame' = f \<and> read_ok st' fs \<and> blocks (so_in (fs_stream st')) \<le> blocks (so_in (fs_stream st))"
      then show ?thesis using step(1) Suc.IH [of st' fs] Suc.prems Cons by fastforce
    next
      assume "r = ReadBlocked \<and> read_ok st' (f # fs) \<and> blocks (so_in (fs_stream st')) < blocks (so_in (fs_stream st))"
      then show ?thesis using step(1) Suc.IH [of st' "f # fs"] Suc.prems Cons by fastforce
    qed
  qed
qed simp

text \<open>
  Claim C30.  Ethernet frames cross the QEMU socket unchanged: when a writer that retries has had all its
  non-empty frames of at most 65535 bytes flushed, however short the writes were and wherever the
  socket would block, then a reader that retries receives exactly these frames in order, however
  the bytes are cut into reads and wherever those would block.
\<close>

theorem qemu_stream_roundtrip:
  assumes "\<forall>f\<in>set frames. f \<noteq> [] \<and> length f \<le> 65535"
    and "write_run calls (stream_connect \<lparr> so_in = [], so_room = room, so_out = [] \<rparr>) frames = (w, [], None)"
    and "clean events" "incoming events = so_out (fs_stream w)" "length frames + blocks events \<le> n"
  shows "\<exists>r. read_run n (stream_connect \<lparr> so_in = events, so_room = [], so_out = [] \<rparr>) = Some (r, frames, None)"
proof (rule read_run_frames)
  have "so_out (fs_stream w) = concat (map encoded frames)"
    using write_run_sends [OF assms(2)] assms(1)
    by (auto simp: stream_connect_def write_ok_def in_hand_def unsent_def)
  then show "read_ok (stream_connect \<lparr> so_in = events, so_room = [], so_out = [] \<rparr>) frames"
    using assms(3,4) by (simp add: read_ok_def stream_connect_def held_def FRAME_LENGTH_BYTES_def)
qed (use assms in \<open>simp_all add: stream_connect_def\<close>)

text \<open>Two frames, through short writes and a blocked socket on one side and split reads on the other.\<close>

definition demo_room :: "write_event list" where
  "demo_room = [Accept 3, WriteBlock, Accept 2, Accept 9, Accept 4, Accept 9]"

definition demo_events :: "read_event list" where
  "demo_events = [Chunk [0], ReadBlock, Chunk [0, 0, 2, 7], ReadBlock, Chunk [8, 0, 0, 0, 1, 9]]"

theorem qemu_stream_roundtrip_witness:
  "list_all (\<lambda>f. f \<noteq> [] \<and> length f \<le> 65535) [[7, 8], [9 :: u8]] \<and>
   (\<exists>w. write_run 3 (stream_connect \<lparr> so_in = [], so_room = demo_room, so_out = [] \<rparr>) [[7, 8], [9]] = (w, [], None) \<and>
     incoming demo_events = so_out (fs_stream w)) \<and>
   clean demo_events \<and> length [[7, 8], [9 :: u8]] + blocks demo_events \<le> 4 \<and>
   (\<exists>r. read_run 4 (stream_connect \<lparr> so_in = demo_events, so_room = [], so_out = [] \<rparr>) = Some (r, [[7, 8], [9]], None))"
proof -
  let ?w = "fst (write_run 3 (stream_connect \<lparr> so_in = [], so_room = demo_room, so_out = [] \<rparr>) [[7, 8], [9]])"
  have "snd (write_run 3 (stream_connect \<lparr> so_in = [], so_room = demo_room, so_out = [] \<rparr>) [[7, 8], [9]]) = ([], None)"
    by code_simp
  then have w: "write_run 3 (stream_connect \<lparr> so_in = [], so_room = demo_room, so_out = [] \<rparr>) [[7, 8], [9]] = (?w, [], None)"
    by (metis prod.collapse)
  have o: "so_out (fs_stream ?w) = [0, 0, 0, 2, 7, 8, 0, 0, 0, 1, 9]" by code_simp
  have e: "clean demo_events" "incoming demo_events = so_out (fs_stream ?w)" "length [[7, 8], [9 :: u8]] + blocks demo_events \<le> 4"
    by (simp_all add: o demo_events_def clean_def incoming_def blocks_def)
  have l: "list_all (\<lambda>f. f \<noteq> [] \<and> length f \<le> 65535) [[7, 8], [9 :: u8]]" by simp
  then have f: "\<forall>f\<in>set [[7, 8], [9 :: u8]]. f \<noteq> [] \<and> length f \<le> 65535" by (simp only: list_all_iff)
  from w e(2) have "\<exists>w. write_run 3 (stream_connect \<lparr> so_in = [], so_room = demo_room, so_out = [] \<rparr>) [[7, 8], [9]] =
      (w, [], None) \<and> incoming demo_events = so_out (fs_stream w)" by (intro exI [of _ ?w] conjI)
  with l e(1,3) qemu_stream_roundtrip [OF f w e] show ?thesis by (intro conjI)
qed

text \<open>
  An empty frame breaks this: its length goes out, the write of its empty payload would block, and
  since nothing is then in hand the next call sends the length again.
\<close>

lemma empty_frame_repeated:
  "\<exists>w. write_run 2 (stream_connect \<lparr> so_in = [], so_room = [Accept 4, WriteBlock, Accept 4, Accept 0], so_out = [] \<rparr>) [[]] =
    (w, [], None) \<and> so_out (fs_stream w) = encoded [] @ encoded []"
proof -
  let ?r = "write_run 2 (stream_connect \<lparr> so_in = [], so_room = [Accept 4, WriteBlock, Accept 4, Accept 0], so_out = [] \<rparr>) [[]]"
  have "?r = (fst ?r, [], None) \<and> so_out (fs_stream (fst ?r)) = encoded [] @ encoded []" by code_simp
  then show ?thesis by blast
qed

end
