(* ===== verification/Drive.thy ===== *)
theory Drive
  imports WriteQueue Readiness Io RustStr
begin

text \<open>
  One turn of the dataplane, \<open>src/src/libs/agentdp-network/src/drive.rs\<close>: a budget of events, steps
  and bytes, a report of what was done and why it stopped, and the typed operations that spend
  the one and fill the other.

  A \<open>DriveTurn\<close> borrows a budget and a report; here it holds them.  Streams, datagram sockets and
  the TCP sockets of smoltcp are arguments: functions on a state of their own.  A read returns
  the bytes it put at the front of its buffer.  Closures the caller passes are functions on the
  state they capture.  A buffer that goes out of scope returns to its pool.
\<close>

section \<open>Report\<close>

definition saturating_add :: "nat \<Rightarrow> nat \<Rightarrow> nat" where
  "saturating_add a b = min (a + b) (USIZE_LIMIT - 1)"

text \<open>For evaluation: on integers.\<close>

lemma saturating_add_code [code]:
  "saturating_add a b = (if int a + int b < 18446744073709551615 then a + b else nat 18446744073709551615)"
  by (auto simp: saturating_add_def min_def)

record drive_progress =
  bytes_read :: nat
  bytes_written :: nat
  guest_bytes_enqueued :: nat
  guest_bytes_dequeued :: nat
  events_emitted :: nat
  state_changes :: nat

type_synonym drive_wait = u16

record drive_report =
  rp_progress :: drive_progress
  rp_wait :: drive_wait
  rp_local_buffer_continuation :: bool
  rp_budget_exhausted :: bool

definition WAIT_NONE :: drive_wait where "WAIT_NONE = 0"
definition REACTOR_READ :: drive_wait where "REACTOR_READ = push_bit 0 1"
definition REACTOR_WRITE :: drive_wait where "REACTOR_WRITE = push_bit 1 1"
definition REACTOR_READ_WRITE :: drive_wait where "REACTOR_READ_WRITE = push_bit 0 1 OR push_bit 1 1"
definition GUEST_RECV :: drive_wait where "GUEST_RECV = push_bit 2 1"
definition GUEST_SEND_CAPACITY :: drive_wait where "GUEST_SEND_CAPACITY = push_bit 3 1"
definition LOCAL_BUFFER_CAPACITY :: drive_wait where "LOCAL_BUFFER_CAPACITY = push_bit 4 1"
definition CONNECTION_SLOT :: drive_wait where "CONNECTION_SLOT = push_bit 5 1"

definition wait_contains :: "drive_wait \<Rightarrow> drive_wait \<Rightarrow> bool" where
  "wait_contains self wait \<longleftrightarrow> self AND wait \<noteq> 0"

definition wait_merge :: "drive_wait \<Rightarrow> drive_wait \<Rightarrow> drive_wait" where
  "wait_merge self other = self OR other"

definition progress_new :: drive_progress where
  "progress_new = \<lparr> bytes_read = 0, bytes_written = 0, guest_bytes_enqueued = 0, guest_bytes_dequeued = 0,
     events_emitted = 0, state_changes = 0 \<rparr>"

definition progress_made :: "drive_progress \<Rightarrow> bool" where
  "progress_made p \<longleftrightarrow> bytes_read p > 0 \<or> bytes_written p > 0 \<or> guest_bytes_enqueued p > 0 \<or>
     guest_bytes_dequeued p > 0 \<or> events_emitted p > 0 \<or> state_changes p > 0"

definition report_new :: drive_report where
  "report_new = \<lparr> rp_progress = progress_new, rp_wait = WAIT_NONE, rp_local_buffer_continuation = False,
     rp_budget_exhausted = False \<rparr>"

definition blocked_on :: "drive_report \<Rightarrow> drive_wait \<Rightarrow> bool" where
  "blocked_on r wait = wait_contains (rp_wait r) wait"

definition made_progress :: "drive_report \<Rightarrow> bool" where
  "made_progress r = progress_made (rp_progress r)"

definition report_bytes_read :: "nat \<Rightarrow> drive_report \<Rightarrow> drive_report" where
  "report_bytes_read n r = r\<lparr> rp_progress := (rp_progress r)\<lparr> bytes_read := saturating_add (bytes_read (rp_progress r)) n \<rparr> \<rparr>"

definition report_bytes_written :: "nat \<Rightarrow> drive_report \<Rightarrow> drive_report" where
  "report_bytes_written n r = r\<lparr> rp_progress := (rp_progress r)\<lparr> bytes_written := saturating_add (bytes_written (rp_progress r)) n \<rparr> \<rparr>"

definition report_guest_bytes_enqueued :: "nat \<Rightarrow> drive_report \<Rightarrow> drive_report" where
  "report_guest_bytes_enqueued n r =
     r\<lparr> rp_progress := (rp_progress r)\<lparr> guest_bytes_enqueued := saturating_add (guest_bytes_enqueued (rp_progress r)) n \<rparr> \<rparr>"

definition report_guest_bytes_dequeued :: "nat \<Rightarrow> drive_report \<Rightarrow> drive_report" where
  "report_guest_bytes_dequeued n r =
     r\<lparr> rp_progress := (rp_progress r)\<lparr> guest_bytes_dequeued := saturating_add (guest_bytes_dequeued (rp_progress r)) n \<rparr> \<rparr>"

definition report_event_emitted :: "drive_report \<Rightarrow> drive_report" where
  "report_event_emitted r = r\<lparr> rp_progress := (rp_progress r)\<lparr> events_emitted := saturating_add (events_emitted (rp_progress r)) 1 \<rparr> \<rparr>"

definition report_state_changed :: "drive_report \<Rightarrow> drive_report" where
  "report_state_changed r = r\<lparr> rp_progress := (rp_progress r)\<lparr> state_changes := saturating_add (state_changes (rp_progress r)) 1 \<rparr> \<rparr>"

definition mark_budget_exhausted :: "drive_report \<Rightarrow> drive_report" where
  "mark_budget_exhausted r = r\<lparr> rp_budget_exhausted := True \<rparr>"

section \<open>Budget\<close>

record drive_budget =
  db_events :: nat
  db_steps :: nat
  db_bytes :: nat

definition budget_event_loop :: "network_limits \<Rightarrow> drive_budget" where
  "budget_event_loop limits = \<lparr> db_events = drive_event_budget limits, db_steps = drive_step_budget limits,
     db_bytes = drive_byte_budget limits \<rparr>"

definition can_continue :: "drive_budget \<Rightarrow> bool" where
  "can_continue b \<longleftrightarrow> db_events b > 0 \<and> db_steps b > 0 \<and> db_bytes b > 0"

definition budget_step :: "drive_budget \<Rightarrow> drive_budget \<times> bool" where
  "budget_step b = (if db_steps b = 0 then (b, False) else (b\<lparr> db_steps := db_steps b - 1 \<rparr>, True))"

definition budget_event :: "nat \<Rightarrow> drive_budget \<Rightarrow> drive_budget \<times> bool" where
  "budget_event n b =
     (if db_events b = 0 \<or> db_bytes b = 0 then (b, False)
      else (b\<lparr> db_events := db_events b - 1, db_bytes := db_bytes b - max n 1 \<rparr>, True))"

section \<open>The turn\<close>

record drive_turn =
  dt_budget :: drive_budget
  dt_report :: drive_report

definition turn_new :: "drive_budget \<Rightarrow> drive_report \<Rightarrow> drive_turn" where
  "turn_new budget report = \<lparr> dt_budget = budget, dt_report = report \<rparr>"

definition turn_report :: "(drive_report \<Rightarrow> drive_report) \<Rightarrow> drive_turn \<Rightarrow> drive_turn" where
  "turn_report f t = t\<lparr> dt_report := f (dt_report t) \<rparr>"

definition exhausted :: "drive_turn \<Rightarrow> drive_turn" where
  "exhausted = turn_report mark_budget_exhausted"

definition can_continue_or_exhausted :: "drive_turn \<Rightarrow> drive_turn \<times> bool" where
  "can_continue_or_exhausted t = (if can_continue (dt_budget t) then (t, True) else (exhausted t, False))"

definition can_start_operation :: "drive_turn \<Rightarrow> drive_turn \<times> bool" where
  "can_start_operation t = can_continue_or_exhausted t"

text \<open>\<open>self.can_continue() && self.step()\<close>\<close>

definition step_or_exhausted :: "drive_turn \<Rightarrow> drive_turn \<times> bool" where
  "step_or_exhausted t =
     (if can_continue (dt_budget t) then
        (case budget_step (dt_budget t) of (b, ok) \<Rightarrow>
           if ok then (t\<lparr> dt_budget := b \<rparr>, True) else (exhausted (t\<lparr> dt_budget := b \<rparr>), False))
      else (exhausted t, False))"

definition event_step_or_exhausted :: "drive_turn \<Rightarrow> drive_turn \<times> bool" where
  "event_step_or_exhausted t =
     (if db_events (dt_budget t) > 0 \<and> db_steps (dt_budget t) > 0 then
        (case budget_step (dt_budget t) of (b, ok) \<Rightarrow>
           if ok then (t\<lparr> dt_budget := b \<rparr>, True) else (exhausted (t\<lparr> dt_budget := b \<rparr>), False))
      else (exhausted t, False))"

definition can_emit_event_or_exhausted :: "drive_turn \<Rightarrow> drive_turn \<times> bool" where
  "can_emit_event_or_exhausted t =
     (if db_events (dt_budget t) > 0 \<and> db_bytes (dt_budget t) > 0 then (t, True) else (exhausted t, False))"

definition event_or_exhausted :: "nat \<Rightarrow> drive_turn \<Rightarrow> drive_turn \<times> bool" where
  "event_or_exhausted n t =
     (case budget_event n (dt_budget t) of (b, ok) \<Rightarrow>
        if ok then (t\<lparr> dt_budget := b \<rparr>, True) else (exhausted (t\<lparr> dt_budget := b \<rparr>), False))"

definition event_only_or_exhausted :: "drive_turn \<Rightarrow> drive_turn \<times> bool" where
  "event_only_or_exhausted t =
     (if db_events (dt_budget t) > 0
      then (t\<lparr> dt_budget := (dt_budget t)\<lparr> db_events := db_events (dt_budget t) - 1 \<rparr> \<rparr>, True)
      else (exhausted t, False))"

definition remaining_bytes :: "drive_turn \<Rightarrow> nat" where
  "remaining_bytes t = db_bytes (dt_budget t)"

text \<open>\<open>spend_bytes\<close>, that is \<open>consume_bytes_or_exhausted\<close>\<close>

definition spend_bytes :: "nat \<Rightarrow> drive_turn \<Rightarrow> drive_turn" where
  "spend_bytes n t =
     (let b = (dt_budget t)\<lparr> db_bytes := db_bytes (dt_budget t) - max n 1 \<rparr>;
          t = t\<lparr> dt_budget := b \<rparr>
      in if can_continue b then t else exhausted t)"

definition emit_event :: "drive_turn \<Rightarrow> drive_turn \<times> bool" where
  "emit_event t =
     (case event_step_or_exhausted t of (t, ok) \<Rightarrow>
        if \<not> ok then (t, False)
        else case event_only_or_exhausted t of (t, ok) \<Rightarrow>
          if \<not> ok then (t, False) else (turn_report report_event_emitted t, True))"

definition push_event :: "drive_turn \<Rightarrow> 'a list \<Rightarrow> 'a \<Rightarrow> drive_turn \<times> 'a list \<times> (unit, 'a) result" where
  "push_event t events event =
     (case emit_event t of (t, ok) \<Rightarrow>
        if \<not> ok then (t, events, Err event) else (t, events @ [event], Ok ()))"

definition can_prepare_whole_item_operation :: "nat \<Rightarrow> drive_turn \<Rightarrow> drive_turn \<times> bool" where
  "can_prepare_whole_item_operation len t =
     (case can_continue_or_exhausted t of (t, ok) \<Rightarrow>
        if \<not> ok then (t, False)
        else if remaining_bytes t < len then (exhausted t, False)
        else (t, True))"

definition block_on :: "drive_wait \<Rightarrow> drive_turn \<Rightarrow> drive_turn" where
  "block_on wait t = turn_report (\<lambda>r. r\<lparr> rp_wait := wait_merge (rp_wait r) wait \<rparr>) t"

definition wait_for_local_buffer_capacity_with_continuation :: "drive_turn \<Rightarrow> drive_turn" where
  "wait_for_local_buffer_capacity_with_continuation t =
     turn_report (\<lambda>r. r\<lparr> rp_local_buffer_continuation := True \<rparr>) (block_on LOCAL_BUFFER_CAPACITY t)"

definition start_whole_item_operation :: "nat \<Rightarrow> drive_turn \<Rightarrow> drive_turn \<times> bool" where
  "start_whole_item_operation len t =
     (if remaining_bytes t < len then (exhausted t, False) else step_or_exhausted t)"

section \<open>State changes and component output\<close>

datatype ('t, 'e) drive_apply = Applied 't | Deferred | Failed 'e

definition apply_state_change :: "('s \<Rightarrow> 's \<times> 't) \<Rightarrow> drive_turn \<Rightarrow> 's \<Rightarrow> drive_turn \<times> 's \<times> 't option" where
  "apply_state_change apply_fn t s =
     (case step_or_exhausted t of (t, ok) \<Rightarrow>
        if \<not> ok then (t, s, None)
        else case apply_fn s of (s, v) \<Rightarrow> (turn_report report_state_changed t, s, Some v))"

definition try_apply_state_change ::
    "('s \<Rightarrow> 's \<times> ('t, 'e) result) \<Rightarrow> drive_turn \<Rightarrow> 's \<Rightarrow> drive_turn \<times> 's \<times> ('t, 'e) drive_apply" where
  "try_apply_state_change apply_fn t s =
     (case step_or_exhausted t of (t, ok) \<Rightarrow>
        if \<not> ok then (t, s, Deferred)
        else case apply_fn s of
          (s, Ok v) \<Rightarrow> (turn_report report_state_changed t, s, Applied v)
        | (s, Err e) \<Rightarrow> (t, s, Failed e))"

definition apply_component_output :: "('a \<Rightarrow> 's \<Rightarrow> 's) \<Rightarrow> drive_turn \<Rightarrow> 's \<Rightarrow> 'a \<Rightarrow> drive_turn \<times> 's \<times> (unit, 'a) result" where
  "apply_component_output apply_fn t s item =
     (case step_or_exhausted t of (t, ok) \<Rightarrow>
        if \<not> ok then (t, s, Err item)
        else (turn_report report_state_changed t, apply_fn item s, Ok ()))"

text \<open>A bounded \<open>Vec\<close> is its items and its capacity.\<close>

definition push_component_output :: "nat \<Rightarrow> drive_turn \<Rightarrow> 'a list \<Rightarrow> 'a \<Rightarrow> drive_turn \<times> 'a list \<times> (unit, 'a) result" where
  "push_component_output capacity t queue item =
     (if length queue \<ge> capacity then (block_on LOCAL_BUFFER_CAPACITY t, queue, Err item)
      else case step_or_exhausted t of (t, ok) \<Rightarrow>
        if \<not> ok then (t, queue, Err item)
        else (turn_report report_state_changed t, queue @ [item], Ok ()))"

definition push_component_output_after_progress ::
    "nat \<Rightarrow> drive_turn \<Rightarrow> 'a list \<Rightarrow> 'a \<Rightarrow> drive_turn \<times> 'a list \<times> (unit, 'a) result" where
  "push_component_output_after_progress capacity t queue item =
     (if length queue \<ge> capacity then (block_on LOCAL_BUFFER_CAPACITY t, queue, Err item)
      else (turn_report report_state_changed t, queue @ [item], Ok ()))"

definition poll_gateway :: "('s \<Rightarrow> 's \<times> 't) \<Rightarrow> drive_turn \<Rightarrow> 's \<Rightarrow> drive_turn \<times> 's \<times> 't option" where
  "poll_gateway poll_once t s =
     (case step_or_exhausted t of (t, ok) \<Rightarrow>
        if \<not> ok then (t, s, None) else case poll_once s of (s, v) \<Rightarrow> (t, s, Some v))"

definition gateway_poll_progress :: "drive_turn \<Rightarrow> drive_turn" where
  "gateway_poll_progress t = turn_report report_state_changed t"

definition gateway_frames_transmitted :: "nat \<Rightarrow> drive_turn \<Rightarrow> drive_turn" where
  "gateway_frames_transmitted frame_count t = (if frame_count > 0 then turn_report report_state_changed t else t)"
end
