(* ===== verification/DriveIo.thy ===== *)
theory DriveIo
  imports Drive
begin

text \<open>
  The operations of a drive turn that move bytes: protocol output, streams, the guest's TCP
  sockets, datagrams and guest frames.  Each asks the budget first, performs at most one call of
  its socket per step it spends, and records what was moved or why nothing was.

  The \<open>debug_assert!\<close> of \<open>drive_protocol_op\<close> is absent from release builds and not modelled.
\<close>

section \<open>Protocol output\<close>

datatype 't protocol_op = ProtocolProgress nat 't | ProtocolNoProgress 't

datatype 't transport_op = TransportProgress nat 't | TransportWouldBlock 't | TransportNoProgress 't

datatype 't drive_protocol_poll = ProtocolComplete 't | ProtocolBudget

datatype 't drive_transport_poll = TransportComplete 't | TransportPending | TransportBudget

datatype drive_protocol_output = OutputBytes | OutputEmpty

definition protocol_chunk :: "nat \<Rightarrow> drive_turn \<Rightarrow> drive_turn \<times> nat option" where
  "protocol_chunk available_bytes t =
     (case step_or_exhausted t of (t, ok) \<Rightarrow>
        if \<not> ok then (t, None)
        else let chunk = min available_bytes (remaining_bytes t) in
          if chunk = 0 then (exhausted t, None) else (t, Some chunk))"

definition drive_protocol_op ::
    "(nat \<Rightarrow> 's \<Rightarrow> 's \<times> ('t protocol_op, 'e) result) \<Rightarrow> nat \<Rightarrow> drive_turn \<Rightarrow> 's \<Rightarrow>
     drive_turn \<times> 's \<times> ('t drive_protocol_poll, 'e) result" where
  "drive_protocol_op operation available_bytes t s =
     (case protocol_chunk available_bytes t of
        (t, None) \<Rightarrow> (t, s, Ok ProtocolBudget)
      | (t, Some chunk) \<Rightarrow>
         (case operation chunk s of
            (s, Err e) \<Rightarrow> (t, s, Err e)
          | (s, Ok (ProtocolProgress n v)) \<Rightarrow>
             (if n > 0 then turn_report report_state_changed (spend_bytes n t) else t, s, Ok (ProtocolComplete v))
          | (s, Ok (ProtocolNoProgress v)) \<Rightarrow> (t, s, Ok (ProtocolComplete v))))"

definition buf_with :: "bytes \<Rightarrow> byte_buf \<Rightarrow> byte_buf" where
  "buf_with xs b = b\<lparr> bb_bytes := buf_extend_from_slice xs (bb_bytes b) \<rparr>"

definition buf_set_data :: "bytes \<Rightarrow> byte_buf \<Rightarrow> byte_buf" where
  "buf_set_data xs b = b\<lparr> bb_bytes := (bb_bytes b)\<lparr> vec_data := xs \<rparr> \<rparr>"

definition take_protocol_output ::
    "drive_turn \<Rightarrow> byte_buf \<Rightarrow> pool \<Rightarrow> nat \<Rightarrow>
     (drive_turn \<times> byte_buf \<times> pool \<times> (byte_buf option, pool_exhausted) result drive_protocol_poll) option" where
  "take_protocol_output t output buffers max_len =
     (if buf_data output = [] then Some (t, output, buffers, ProtocolComplete (Ok None))
      else case protocol_chunk (min (length (buf_data output)) max_len) t of
        (t, None) \<Rightarrow> Some (t, output, buffers, ProtocolBudget)
      | (t, Some len) \<Rightarrow>
         try_byte_with_capacity buffers len \<bind> (\<lambda>(buffers, r).
           case r of
             Err e \<Rightarrow> Some (block_on LOCAL_BUFFER_CAPACITY t, output, buffers, ProtocolComplete (Err e))
           | Ok b \<Rightarrow>
              slice (buf_data output) 0 len \<bind> (\<lambda>xs.
                Some (turn_report report_state_changed (spend_bytes len t),
                  buf_set_data (drop len (buf_data output)) output, buffers,
                  ProtocolComplete (Ok (Some (buf_with xs b)))))))"

definition queue_protocol_output ::
    "drive_turn \<Rightarrow> write_queue \<Rightarrow> byte_buf \<Rightarrow> nat \<Rightarrow> pool \<Rightarrow> nat \<Rightarrow>
     (drive_turn \<times> write_queue \<times> byte_buf \<times> nat \<times> pool \<times>
      (drive_protocol_output, pool_exhausted) result drive_protocol_poll) option" where
  "queue_protocol_output t queue output output_offset buffers max_len =
     (if length (buf_data output) \<le> output_offset
      then Some (t, queue, buf_set_data [] output, 0, buffers, ProtocolComplete (Ok OutputEmpty))
      else case protocol_chunk (min (length (buf_data output) - output_offset) max_len) t of
        (t, None) \<Rightarrow> Some (t, queue, output, output_offset, buffers, ProtocolBudget)
      | (t, Some len) \<Rightarrow>
         try_byte_with_capacity buffers len \<bind> (\<lambda>(buffers, r).
           case r of
             Err e \<Rightarrow> Some (block_on LOCAL_BUFFER_CAPACITY t, queue, output, output_offset, buffers, ProtocolComplete (Err e))
           | Ok b \<Rightarrow>
              (let stop = output_offset + len in
               slice (buf_data output) output_offset stop \<bind> (\<lambda>xs.
                 let queue = wq_push queue (buf_with xs b);
                     (output, output_offset) = (if length (buf_data output) \<le> stop
                       then (buf_set_data [] output, 0) else (output, stop));
                     t = turn_report report_state_changed (spend_bytes len t)
                 in Some (t, queue, output, output_offset, buffers, ProtocolComplete (Ok OutputBytes))))))"

section \<open>Streams\<close>

datatype drive_stream_read = StreamBytes byte_buf | StreamClosed | StreamNotReady | StreamWouldBlock | StreamBlocked

datatype drive_stream_write_block = BlockBudget | BlockReactorWrite

datatype drive_stream_write = StreamDrained | StreamPending drive_stream_write_block

text \<open>\<open>resize_zeroed\<close>, a read that put \<open>xs\<close> at the front of the buffer, and \<open>truncate\<close> to what was read.\<close>

definition buf_after_read :: "nat \<Rightarrow> bytes \<Rightarrow> byte_buf \<Rightarrow> byte_buf" where
  "buf_after_read len xs b =
     (let v = buf_resize_zeroed len (bb_bytes b) in
      b\<lparr> bb_bytes := buf_truncate (length xs) (v\<lparr> vec_data := overwrite (vec_data v) 0 xs \<rparr>) \<rparr>)"

definition read_stream_unchecked ::
    "(nat \<Rightarrow> 's \<Rightarrow> 's \<times> (bytes, io_error) result) \<Rightarrow> drive_turn \<Rightarrow> pool \<Rightarrow> 's \<Rightarrow>
     (drive_turn \<times> pool \<times> 's \<times> (drive_stream_read, io_error) result) option" where
  "read_stream_unchecked rd_fn t buffers s =
     (if remaining_bytes t = 0 then Some (exhausted t, buffers, s, Ok StreamBlocked)
      else try_tcp_byte buffers \<bind> (\<lambda>(buffers, r).
        case r of
          Err _ \<Rightarrow> Some (wait_for_local_buffer_capacity_with_continuation t, buffers, s, Ok StreamBlocked)
        | Ok b \<Rightarrow>
           (case step_or_exhausted t of (t, ok) \<Rightarrow>
              if \<not> ok then byte_buf_drop buffers b \<bind> (\<lambda>buffers. Some (t, buffers, s, Ok StreamBlocked))
              else let len = min (tcp_byte_capacity (pl_limits buffers)) (remaining_bytes t) in
                case rd_fn len s of
                  (s, Ok []) \<Rightarrow>
                    byte_buf_drop buffers (buf_after_read len [] b) \<bind> (\<lambda>buffers. Some (t, buffers, s, Ok StreamClosed))
                | (s, Ok (x # xs)) \<Rightarrow>
                    Some (turn_report (report_bytes_read (length (x # xs))) (spend_bytes (length (x # xs)) t), buffers, s,
                      Ok (StreamBytes (buf_after_read len (x # xs) b)))
                | (s, Err WouldBlock) \<Rightarrow>
                    byte_buf_drop buffers (buf_after_read len [] b) \<bind> (\<lambda>buffers.
                      Some (block_on REACTOR_READ t, buffers, s, Ok StreamWouldBlock))
                | (s, Err e) \<Rightarrow>
                    byte_buf_drop buffers (buf_after_read len [] b) \<bind> (\<lambda>buffers. Some (t, buffers, s, Err e)))))"

definition read_stream_ready ::
    "(nat \<Rightarrow> 's \<Rightarrow> 's \<times> (bytes, io_error) result) \<Rightarrow> drive_turn \<Rightarrow> io_slot \<Rightarrow> pool \<Rightarrow> 's \<Rightarrow>
     (drive_turn \<times> io_slot \<times> pool \<times> 's \<times> (drive_stream_read, io_error) result) option" where
  "read_stream_ready rd_fn t io buffers s =
     (if \<not> io_can_read io then Some (block_on REACTOR_READ t, io, buffers, s, Ok StreamNotReady)
      else read_stream_unchecked rd_fn t buffers s \<bind> (\<lambda>(t, buffers, s, r).
        Some (t, if r = Ok StreamWouldBlock then io_clear_read_after_would_block io else io, buffers, s, r)))"

lemma turn_report_budget [simp]: "dt_budget (turn_report f t) = dt_budget t"
  by (simp add: turn_report_def)

lemma exhausted_budget [simp]: "dt_budget (exhausted t) = dt_budget t"
  by (simp add: exhausted_def)

lemma spend_bytes_budget: "dt_budget (spend_bytes n t) = (dt_budget t)\<lparr> db_bytes := db_bytes (dt_budget t) - max n 1 \<rparr>"
  by (simp add: spend_bytes_def Let_def)

lemma step_or_exhausted_steps:
  "step_or_exhausted t = (t', True) \<Longrightarrow> Suc (db_steps (dt_budget t')) = db_steps (dt_budget t)"
  by (auto simp: step_or_exhausted_def budget_step_def can_continue_def split: if_splits prod.splits)

text \<open>
  The loop of \<open>write_stream_queue_unchecked\<close>: the queue and what stopped it.  The return of written
  buffers to their pool is left out, as in the model of the queue.
\<close>

function write_stream_loop ::
    "(bytes \<Rightarrow> 's \<Rightarrow> 's \<times> (nat, io_error) result) \<Rightarrow> drive_turn \<Rightarrow> write_queue \<Rightarrow> 's \<Rightarrow>
     drive_turn \<times> write_queue \<times> 's \<times> (drive_stream_write_block option, io_error) result" where
  "write_stream_loop wr_fn t queue s =
     (case wq_front_slice queue of
        None \<Rightarrow> (t, queue, s, Ok None)
      | Some remaining \<Rightarrow>
         (let write_len = min (length remaining) (remaining_bytes t) in
          if write_len = 0 then (exhausted t, queue, s, Ok (Some BlockBudget))
          else case step_or_exhausted t of
            (t', False) \<Rightarrow> (t', queue, s, Ok (Some BlockBudget))
          | (t', True) \<Rightarrow>
             (case wr_fn (take write_len remaining) s of
                (s, Ok written) \<Rightarrow>
                  (if written = 0 then (t', queue, s, Err WriteZero)
                   else let t'' = turn_report (report_bytes_written written) (spend_bytes written t');
                            queue = fst (wq_advance_front queue written)
                        in if \<not> can_continue (dt_budget t'') then (t'', queue, s, Ok (Some BlockBudget))
                           else write_stream_loop wr_fn t'' queue s)
              | (s, Err WouldBlock) \<Rightarrow> (t', queue, s, Ok (Some BlockReactorWrite))
              | (s, Err e) \<Rightarrow> (t', queue, s, Err e))))"
  by pat_completeness auto

termination
proof (relation "measure (\<lambda>(_, t, _, _). db_steps (dt_budget t))", goal_cases)
  case 1
  then show ?case by simp
next
  case (2 wr_fn t queue s remaining len t' ok s' r written x xa)
  then have "Suc (db_steps (dt_budget t')) = db_steps (dt_budget t)"
    using step_or_exhausted_steps by (metis (full_types))
  then show ?case using 2 by (simp add: spend_bytes_budget)
qed

declare write_stream_loop.simps [simp del]

definition write_stream_queue_unchecked ::
    "(bytes \<Rightarrow> 's \<Rightarrow> 's \<times> (nat, io_error) result) \<Rightarrow> drive_turn \<Rightarrow> write_queue \<Rightarrow> 's \<Rightarrow>
     drive_turn \<times> write_queue \<times> 's \<times> (drive_stream_write, io_error) result" where
  "write_stream_queue_unchecked wr_fn t queue s =
     (case write_stream_loop wr_fn t queue s of
        (t, queue, s, Err e) \<Rightarrow> (t, queue, s, Err e)
      | (t, queue, s, Ok stopped) \<Rightarrow>
         (if wq_is_empty queue then (t, queue, s, Ok StreamDrained)
          else let blocked = (case stopped of None \<Rightarrow> BlockReactorWrite | Some b \<Rightarrow> b) in
            (if blocked = BlockReactorWrite then block_on REACTOR_WRITE t else t, queue, s, Ok (StreamPending blocked))))"

definition write_stream_queue_ready ::
    "(bytes \<Rightarrow> 's \<Rightarrow> 's \<times> (nat, io_error) result) \<Rightarrow> drive_turn \<Rightarrow> io_slot \<Rightarrow> write_queue \<Rightarrow> 's \<Rightarrow>
     drive_turn \<times> io_slot \<times> write_queue \<times> 's \<times> (drive_stream_write, io_error) result" where
  "write_stream_queue_ready wr_fn t io queue s =
     (if wq_is_empty queue then (t, io, queue, s, Ok StreamDrained)
      else if \<not> io_can_write io then (block_on REACTOR_WRITE t, io, queue, s, Ok (StreamPending BlockReactorWrite))
      else case write_stream_queue_unchecked wr_fn t queue s of (t, queue, s, r) \<Rightarrow>
        (t, if r = Ok (StreamPending BlockReactorWrite) then io_clear_write_after_would_block io else io, queue, s, r))"

section \<open>Transports\<close>

definition drive_transport_op ::
    "(nat \<Rightarrow> 's \<Rightarrow> 's \<times> ('t transport_op, io_error) result) \<Rightarrow> (io_slot \<Rightarrow> io_slot) \<Rightarrow> drive_wait \<Rightarrow> drive_turn \<Rightarrow>
     io_slot \<Rightarrow> nat \<Rightarrow> 's \<Rightarrow> drive_turn \<times> io_slot \<times> 's \<times> ('t drive_transport_poll, io_error) result" where
  "drive_transport_op op_fn clear_blocked wait t io available_bytes s =
     (case protocol_chunk available_bytes t of
        (t, None) \<Rightarrow> (t, io, s, Ok TransportBudget)
      | (t, Some chunk) \<Rightarrow>
         (case op_fn chunk s of
            (s, Err e) \<Rightarrow> (t, io, s, Err e)
          | (s, Ok (TransportProgress n v)) \<Rightarrow>
             (let t = spend_bytes n t in
              (turn_report (if wait_contains wait REACTOR_READ then report_bytes_read n else report_bytes_written n) t,
               io, s, Ok (TransportComplete v)))
          | (s, Ok (TransportWouldBlock v)) \<Rightarrow> (block_on wait t, clear_blocked io, s, Ok (TransportComplete v))
          | (s, Ok (TransportNoProgress v)) \<Rightarrow> (t, io, s, Ok (TransportComplete v))))"

definition transport_read_ready ::
    "(nat \<Rightarrow> 's \<Rightarrow> 's \<times> ('t transport_op, io_error) result) \<Rightarrow> drive_turn \<Rightarrow> io_slot \<Rightarrow> nat \<Rightarrow> 's \<Rightarrow>
     drive_turn \<times> io_slot \<times> 's \<times> ('t drive_transport_poll, io_error) result" where
  "transport_read_ready op_fn t io available_bytes s =
     (if \<not> io_can_read io then (block_on REACTOR_READ t, io, s, Ok TransportPending)
      else drive_transport_op op_fn io_clear_read_after_would_block REACTOR_READ t io available_bytes s)"

definition transport_write_ready ::
    "(nat \<Rightarrow> 's \<Rightarrow> 's \<times> ('t transport_op, io_error) result) \<Rightarrow> drive_turn \<Rightarrow> io_slot \<Rightarrow> nat \<Rightarrow> 's \<Rightarrow>
     drive_turn \<times> io_slot \<times> 's \<times> ('t drive_transport_poll, io_error) result" where
  "transport_write_ready op_fn t io available_bytes s =
     (if \<not> io_can_write io then (block_on REACTOR_WRITE t, io, s, Ok TransportPending)
      else drive_transport_op op_fn io_clear_write_after_would_block REACTOR_WRITE t io available_bytes s)"

section \<open>The guest's TCP sockets\<close>

datatype drive_smoltcp_tcp_recv = TcpBytes byte_buf | TcpEmpty | TcpBlocked

definition recv_smoltcp_tcp ::
    "('s \<Rightarrow> bool) \<Rightarrow> (nat \<Rightarrow> 's \<Rightarrow> 's \<times> (bytes, 'e) result) \<Rightarrow> drive_turn \<Rightarrow> pool \<Rightarrow> 's \<Rightarrow>
     (drive_turn \<times> pool \<times> 's \<times> drive_smoltcp_tcp_recv) option" where
  "recv_smoltcp_tcp can_recv recv_slice t buffers s =
     (if \<not> can_recv s then Some (t, buffers, s, TcpEmpty)
      else case can_continue_or_exhausted t of (t, ok) \<Rightarrow>
        if \<not> ok then Some (t, buffers, s, TcpBlocked)
        else try_tcp_byte buffers \<bind> (\<lambda>(buffers, r).
          case r of
            Err _ \<Rightarrow> Some (wait_for_local_buffer_capacity_with_continuation t, buffers, s, TcpBlocked)
          | Ok b \<Rightarrow>
             (case step_or_exhausted t of (t, ok) \<Rightarrow>
                if \<not> ok then byte_buf_drop buffers b \<bind> (\<lambda>buffers. Some (t, buffers, s, TcpBlocked))
                else let len = min (tcp_byte_capacity (pl_limits buffers)) (remaining_bytes t) in
                  case recv_slice len s of
                    (s, Ok (x # xs)) \<Rightarrow>
                      Some (turn_report (report_guest_bytes_dequeued (length (x # xs))) (spend_bytes (length (x # xs)) t),
                        buffers, s, TcpBytes (buf_after_read len (x # xs) b))
                  | (s, _) \<Rightarrow>
                      byte_buf_drop buffers (buf_after_read len [] b) \<bind> (\<lambda>buffers. Some (t, buffers, s, TcpEmpty)))))"

function send_smoltcp_loop ::
    "('s \<Rightarrow> bool) \<Rightarrow> (bytes \<Rightarrow> 's \<Rightarrow> 's \<times> (nat, 'e) result) \<Rightarrow> drive_turn \<Rightarrow> write_queue \<Rightarrow> 's \<Rightarrow>
     drive_turn \<times> write_queue \<times> 's" where
  "send_smoltcp_loop can_send send_slice t queue s =
     (if \<not> can_send s then (t, queue, s)
      else case wq_front_slice queue of
        None \<Rightarrow> (t, queue, s)
      | Some remaining \<Rightarrow>
         (let write_len = min (length remaining) (remaining_bytes t) in
          if write_len = 0 then (exhausted t, queue, s)
          else case step_or_exhausted t of
            (t', False) \<Rightarrow> (t', queue, s)
          | (t', True) \<Rightarrow>
             (case send_slice (take write_len remaining) s of
                (s, Ok written) \<Rightarrow>
                  (if written = 0 then (t', queue, s)
                   else let t'' = turn_report (report_guest_bytes_enqueued written) (spend_bytes written t');
                            queue = fst (wq_advance_front queue written)
                        in if \<not> can_continue (dt_budget t'') then (t'', queue, s)
                           else send_smoltcp_loop can_send send_slice t'' queue s)
              | (s, Err _) \<Rightarrow> (t', queue, s))))"
  by pat_completeness auto

termination
proof (relation "measure (\<lambda>(_, _, t, _, _). db_steps (dt_budget t))", goal_cases)
  case 1
  then show ?case by simp
next
  case (2 can_send send_slice t queue s remaining len t' ok s' r written x xa)
  then have "Suc (db_steps (dt_budget t')) = db_steps (dt_budget t)"
    using step_or_exhausted_steps by (metis (full_types))
  then show ?case using 2 by (simp add: spend_bytes_budget)
qed

declare send_smoltcp_loop.simps [simp del]

definition send_smoltcp_tcp_queue ::
    "('s \<Rightarrow> bool) \<Rightarrow> (bytes \<Rightarrow> 's \<Rightarrow> 's \<times> (nat, 'e) result) \<Rightarrow> drive_turn \<Rightarrow> write_queue \<Rightarrow> 's \<Rightarrow>
     drive_turn \<times> write_queue \<times> 's" where
  "send_smoltcp_tcp_queue can_send send_slice t queue s =
     (case send_smoltcp_loop can_send send_slice t queue s of (t, queue, s) \<Rightarrow>
        (if \<not> wq_is_empty queue
         then if \<not> rp_budget_exhausted (dt_report t) then block_on GUEST_SEND_CAPACITY t else t
         else if \<not> can_send s then block_on GUEST_SEND_CAPACITY t else t, queue, s))"

section \<open>Datagrams\<close>

datatype 'p drive_datagram_recv =
  DatagramBytes byte_buf 'p | DatagramNotReady | DatagramWouldBlock | DatagramBlocked | DatagramBudget

datatype drive_datagram_send = SendSent | SendNotReady | SendWouldBlock | SendBudget

text \<open>
  \<open>recv_datagram\<close> and \<open>recv_datagram_from\<close> differ in the call and in the peer it reports; \<open>'p\<close> is
  that peer, or \<open>unit\<close>.
\<close>

definition recv_datagram_unchecked ::
    "(nat \<Rightarrow> 's \<Rightarrow> 's \<times> (bytes \<times> 'p, io_error) result) \<Rightarrow> drive_turn \<Rightarrow> pool \<Rightarrow> 's \<Rightarrow> nat \<Rightarrow>
     (drive_turn \<times> pool \<times> 's \<times> ('p drive_datagram_recv, io_error) result) option" where
  "recv_datagram_unchecked recv_fn t buffers s capacity =
     (case start_whole_item_operation capacity t of (t, ok) \<Rightarrow>
        if \<not> ok then Some (t, buffers, s, Ok DatagramBudget)
        else try_byte_with_capacity buffers capacity \<bind> (\<lambda>(buffers, r).
          case r of
            Err _ \<Rightarrow> Some (wait_for_local_buffer_capacity_with_continuation t, buffers, s, Ok DatagramBlocked)
          | Ok b \<Rightarrow>
             (case recv_fn capacity s of
                (s, Ok (xs, peer)) \<Rightarrow>
                  Some (turn_report (report_bytes_read (length xs)) (spend_bytes (length xs) t), buffers, s,
                    Ok (DatagramBytes (buf_after_read capacity xs b) peer))
              | (s, Err WouldBlock) \<Rightarrow>
                  byte_buf_drop buffers (buf_after_read capacity [] b) \<bind> (\<lambda>buffers.
                    Some (block_on REACTOR_READ t, buffers, s, Ok DatagramWouldBlock))
              | (s, Err e) \<Rightarrow>
                  byte_buf_drop buffers (buf_after_read capacity [] b) \<bind> (\<lambda>buffers. Some (t, buffers, s, Err e)))))"

definition recv_datagram_ready ::
    "(nat \<Rightarrow> 's \<Rightarrow> 's \<times> (bytes \<times> 'p, io_error) result) \<Rightarrow> drive_turn \<Rightarrow> io_slot \<Rightarrow> pool \<Rightarrow> 's \<Rightarrow> nat \<Rightarrow>
     (drive_turn \<times> io_slot \<times> pool \<times> 's \<times> ('p drive_datagram_recv, io_error) result) option" where
  "recv_datagram_ready recv_fn t io buffers s capacity =
     (if \<not> io_can_read io then Some (block_on REACTOR_READ t, io, buffers, s, Ok DatagramNotReady)
      else recv_datagram_unchecked recv_fn t buffers s capacity \<bind> (\<lambda>(t, buffers, s, r).
        Some (t, (case r of Ok DatagramWouldBlock \<Rightarrow> io_clear_read_after_would_block io | _ \<Rightarrow> io), buffers, s, r)))"

text \<open>\<open>send_datagram\<close> and \<open>send_datagram_to\<close> differ in the call only.\<close>

definition send_datagram_unchecked ::
    "(bytes \<Rightarrow> 's \<Rightarrow> 's \<times> (nat, io_error) result) \<Rightarrow> drive_turn \<Rightarrow> 's \<Rightarrow> bytes \<Rightarrow>
     drive_turn \<times> 's \<times> (drive_datagram_send, io_error) result" where
  "send_datagram_unchecked send_fn t s xs =
     (case start_whole_item_operation (length xs) t of (t, ok) \<Rightarrow>
        if \<not> ok then (t, s, Ok SendBudget)
        else case send_fn xs s of
          (s, Ok sent) \<Rightarrow>
            (if sent = length xs then (turn_report (report_bytes_written sent) (spend_bytes sent t), s, Ok SendSent)
             else (t, s, Err WriteZero))
        | (s, Err WouldBlock) \<Rightarrow> (block_on REACTOR_WRITE t, s, Ok SendWouldBlock)
        | (s, Err e) \<Rightarrow> (t, s, Err e))"

definition send_datagram_ready ::
    "(bytes \<Rightarrow> 's \<Rightarrow> 's \<times> (nat, io_error) result) \<Rightarrow> drive_turn \<Rightarrow> io_slot \<Rightarrow> 's \<Rightarrow> bytes \<Rightarrow>
     drive_turn \<times> io_slot \<times> 's \<times> (drive_datagram_send, io_error) result" where
  "send_datagram_ready send_fn t io s xs =
     (if \<not> io_can_write io then (block_on REACTOR_WRITE t, io, s, Ok SendNotReady)
      else case send_datagram_unchecked send_fn t s xs of (t, s, r) \<Rightarrow>
        (t, if r = Ok SendWouldBlock then io_clear_write_after_would_block io else io, s, r))"

section \<open>Guest frames\<close>

datatype drive_guest_frame_enqueue = FrameReserved | FrameBlocked

datatype drive_guest_frame_write = FrameFlushed | FrameWriteWouldBlock | FrameWriteBudget

datatype drive_guest_frame_read = GuestFrame vec | GuestClosed | GuestWouldBlock | GuestBlocked

datatype drive_guest_frame_read_status = StatusFrame | StatusBlocked | StatusClosed

definition enqueue_guest_frame :: "drive_turn \<Rightarrow> nat \<Rightarrow> nat \<Rightarrow> nat \<Rightarrow> drive_turn \<times> drive_guest_frame_enqueue" where
  "enqueue_guest_frame t queued_frames queue_capacity frame_len =
     (if queued_frames \<ge> queue_capacity then (block_on GUEST_SEND_CAPACITY t, FrameBlocked)
      else case start_whole_item_operation frame_len t of (t, ok) \<Rightarrow>
        if \<not> ok then (t, FrameBlocked)
        else (turn_report (report_guest_bytes_enqueued frame_len) (spend_bytes frame_len t), FrameReserved))"

text \<open>\<open>a || b\<close> evaluates its second operand, and marks the report there, only when the first fails.\<close>

definition write_guest_frame ::
    "('s \<Rightarrow> 's \<times> (bool, 'e) result) \<Rightarrow> drive_turn \<Rightarrow> nat \<Rightarrow> 's \<Rightarrow>
     drive_turn \<times> 's \<times> (drive_guest_frame_write, 'e) result" where
  "write_guest_frame write_fn t frame_len s =
     (case can_emit_event_or_exhausted t of (t, ok) \<Rightarrow>
        if \<not> ok then (t, s, Ok FrameWriteBudget)
        else case start_whole_item_operation frame_len t of (t, ok) \<Rightarrow>
          if \<not> ok then (t, s, Ok FrameWriteBudget)
          else case write_fn s of
            (s, Err e) \<Rightarrow> (t, s, Err e)
          | (s, Ok True) \<Rightarrow>
             (case event_or_exhausted frame_len t of (t, ok) \<Rightarrow>
                if \<not> ok then (t, s, Ok FrameWriteBudget)
                else (turn_report (report_guest_bytes_dequeued frame_len) t, s, Ok FrameFlushed))
          | (s, Ok False) \<Rightarrow> (block_on GUEST_SEND_CAPACITY t, s, Ok FrameWriteWouldBlock))"

text \<open>The session's read may panic; then the whole operation does.\<close>

definition read_guest_frame ::
    "(vec \<Rightarrow> 's \<Rightarrow> ('s \<times> vec \<times> (drive_guest_frame_read_status, 'e) result) option) \<Rightarrow> drive_turn \<Rightarrow> pool \<Rightarrow> 's \<Rightarrow>
     (drive_turn \<times> pool \<times> 's \<times> (drive_guest_frame_read, 'e) result) option" where
  "read_guest_frame read_fn t buffers s =
     (case can_emit_event_or_exhausted t of (t, ok) \<Rightarrow>
        if \<not> ok then Some (t, buffers, s, Ok GuestBlocked)
        else case start_whole_item_operation (frame_buffer_capacity (pl_limits buffers)) t of (t, ok) \<Rightarrow>
          if \<not> ok then Some (t, buffers, s, Ok GuestBlocked)
          else case try_guest_frame buffers of
            (buffers, Err _) \<Rightarrow> Some (wait_for_local_buffer_capacity_with_continuation t, buffers, s, Ok GuestBlocked)
          | (buffers, Ok frame) \<Rightarrow>
             read_fn frame s \<bind> (\<lambda>(s, frame, r). Some (case r of
                Err e \<Rightarrow> (t, frame_buf_drop buffers frame, s, Err e)
              | Ok StatusFrame \<Rightarrow>
                 (let len = length (vec_data frame) in
                  case event_or_exhausted len t of (t, ok) \<Rightarrow>
                    if \<not> ok then (t, frame_buf_drop buffers frame, s, Ok GuestBlocked)
                    else (turn_report (report_event_emitted \<circ> report_bytes_read len) t, buffers, s, Ok (GuestFrame frame)))
              | Ok StatusBlocked \<Rightarrow>
                 (block_on GUEST_RECV t, frame_buf_drop buffers frame, s, Ok GuestWouldBlock)
              | Ok StatusClosed \<Rightarrow>
                 (case event_or_exhausted 0 t of (t, ok) \<Rightarrow>
                    if \<not> ok then (t, frame_buf_drop buffers frame, s, Ok GuestBlocked)
                    else (turn_report report_event_emitted t, frame_buf_drop buffers frame, s, Ok GuestClosed)))))"

definition push_guest_frame ::
    "nat \<Rightarrow> drive_turn \<Rightarrow> vec list \<Rightarrow> vec \<Rightarrow> drive_turn \<times> vec list \<times> (unit, vec) result" where
  "push_guest_frame capacity t guest_frames frame =
     (case enqueue_guest_frame t (length guest_frames) capacity (length (vec_data frame)) of
        (t, FrameReserved) \<Rightarrow> (t, guest_frames @ [frame], Ok ())
      | (t, FrameBlocked) \<Rightarrow> (t, guest_frames, Err frame))"

end
