(* ===== verification/DriveSafety.thy ===== *)
theory DriveSafety
  imports DriveIo QemuStream
begin

text \<open>
  What a turn may spend: an accounting relation that every operation of \<^theory_text>\<open>DriveIo\<close> respects
  and that composes, so that a whole turn stays within the budget it started with.
\<close>

section \<open>Accounting\<close>

definition moved :: "drive_turn \<Rightarrow> nat" where
  "moved t = bytes_read (rp_progress (dt_report t)) + bytes_written (rp_progress (dt_report t)) +
     guest_bytes_enqueued (rp_progress (dt_report t)) + guest_bytes_dequeued (rp_progress (dt_report t))"

definition emitted :: "drive_turn \<Rightarrow> nat" where
  "emitted t = events_emitted (rp_progress (dt_report t))"

text \<open>
  A turn may exceed its byte budget once, by less than a guest frame of \<open>m\<close> bytes, and has nothing
  left then.
\<close>

definition spends :: "nat \<Rightarrow> drive_turn \<Rightarrow> drive_turn \<Rightarrow> bool" where
  "spends m t t' \<longleftrightarrow>
     db_events (dt_budget t') \<le> db_events (dt_budget t) \<and> db_steps (dt_budget t') \<le> db_steps (dt_budget t) \<and>
     remaining_bytes t' \<le> remaining_bytes t \<and>
     emitted t' + db_events (dt_budget t') \<le> emitted t + db_events (dt_budget t) \<and>
     (moved t' + remaining_bytes t' \<le> moved t + remaining_bytes t \<or>
      remaining_bytes t' = 0 \<and> 0 < remaining_bytes t \<and> moved t' \<le> moved t + remaining_bytes t + m) \<and>
     (remaining_bytes t = 0 \<longrightarrow> moved t' \<le> moved t)"

lemma spends_refl [intro!, simp]: "spends m t t"
  by (simp add: spends_def)

lemma spends_trans: "spends m t t' \<Longrightarrow> spends m t' t'' \<Longrightarrow> spends m t t''"
  unfolding spends_def by (elim conjE disjE) simp_all

text \<open>Operations on the report that move nothing and emit nothing.\<close>

definition quiet :: "(drive_turn \<Rightarrow> drive_turn) \<Rightarrow> bool" where
  "quiet f \<longleftrightarrow> (\<forall>t. dt_budget (f t) = dt_budget t \<and> moved (f t) = moved t \<and> emitted (f t) = emitted t)"

lemma quiet_ops [simp]:
  "quiet exhausted" "quiet (block_on w)" "quiet wait_for_local_buffer_capacity_with_continuation"
  "quiet (turn_report report_state_changed)"
  by (simp_all add: quiet_def exhausted_def block_on_def turn_report_def mark_budget_exhausted_def moved_def emitted_def
      report_state_changed_def wait_for_local_buffer_capacity_with_continuation_def)

lemma quiet_spends_iff [simp]: "quiet f \<Longrightarrow> spends m t (f t') \<longleftrightarrow> spends m t t'"
  by (simp add: quiet_def spends_def remaining_bytes_def)

lemmas quiet_spends [simp] = quiet_ops [THEN quiet_spends_iff]

lemma spend_bytes_spends [simp]: "spends m t (spend_bytes n t)"
  by (simp add: spends_def spend_bytes_def Let_def exhausted_def turn_report_def mark_budget_exhausted_def moved_def
      emitted_def remaining_bytes_def)

lemma saturating_add_le: "saturating_add a b \<le> a + b"
  by (simp add: saturating_add_def)

lemma saturating_add_0: "saturating_add a b \<le> a \<or> 0 < b"
  by (cases b) (simp_all add: saturating_add_def)

text \<open>Spending what is left for it and reporting it as read, written, enqueued or dequeued.\<close>

lemma moved_report:
  "moved (turn_report (report_bytes_read n) t) \<le> moved t + n" "moved (turn_report (report_bytes_written n) t) \<le> moved t + n"
  "moved (turn_report (report_guest_bytes_enqueued n) t) \<le> moved t + n"
  "moved (turn_report (report_guest_bytes_dequeued n) t) \<le> moved t + n"
  by (simp_all add: moved_def turn_report_def report_bytes_read_def report_bytes_written_def
      report_guest_bytes_enqueued_def report_guest_bytes_dequeued_def saturating_add_le)

lemma emitted_report [simp]:
  "emitted (turn_report (report_bytes_read n) t) = emitted t" "emitted (turn_report (report_bytes_written n) t) = emitted t"
  "emitted (turn_report (report_guest_bytes_enqueued n) t) = emitted t"
  "emitted (turn_report (report_guest_bytes_dequeued n) t) = emitted t"
  by (simp_all add: emitted_def turn_report_def report_bytes_read_def report_bytes_written_def
      report_guest_bytes_enqueued_def report_guest_bytes_dequeued_def)

lemma remaining_report [simp]: "remaining_bytes (turn_report f t) = remaining_bytes t"
  by (simp add: remaining_bytes_def)

lemma spend_bytes_simps [simp]:
  "remaining_bytes (spend_bytes n t) = remaining_bytes t - max n 1" "moved (spend_bytes n t) = moved t"
  "emitted (spend_bytes n t) = emitted t" "db_events (dt_budget (spend_bytes n t)) = db_events (dt_budget t)"
  "db_steps (dt_budget (spend_bytes n t)) = db_steps (dt_budget t)"
  by (simp_all add: remaining_bytes_def spend_bytes_def Let_def moved_def emitted_def exhausted_def turn_report_def
      mark_budget_exhausted_def)

lemma spend_report_spends:
  assumes "n \<le> remaining_bytes t" "0 < remaining_bytes t"
    and "f \<in> {report_bytes_read n, report_bytes_written n, report_guest_bytes_enqueued n, report_guest_bytes_dequeued n}"
  shows "spends m t (turn_report f (spend_bytes n t))"
proof -
  have "moved (turn_report f (spend_bytes n t)) \<le> moved t + n" "emitted (turn_report f (spend_bytes n t)) = emitted t"
    using assms(3) moved_report [of n "spend_bytes n t"] by auto
  then show ?thesis using assms(1,2) by (auto simp: spends_def max_def)
qed

section \<open>The gates of the budget\<close>

lemma step_spends:
  assumes "step_or_exhausted t = (t', ok)"
  shows "spends m t t'" "ok \<Longrightarrow> 0 < remaining_bytes t'" "ok \<Longrightarrow> remaining_bytes t' = remaining_bytes t"
    "ok \<Longrightarrow> db_steps (dt_budget t') < db_steps (dt_budget t)"
  using assms
  by (auto simp: step_or_exhausted_def budget_step_def can_continue_def spends_def remaining_bytes_def moved_def emitted_def
      exhausted_def turn_report_def mark_budget_exhausted_def split: if_splits prod.splits)

lemma whole_item_spends:
  assumes "start_whole_item_operation n t = (t', ok)"
  shows "spends m t t'" "ok \<Longrightarrow> n \<le> remaining_bytes t' \<and> 0 < remaining_bytes t'"
    "ok \<Longrightarrow> db_steps (dt_budget t') < db_steps (dt_budget t)"
  using assms step_spends [of t t' ok] by (auto simp: start_whole_item_operation_def split: if_splits)

lemma chunk_spends:
  assumes "protocol_chunk n t = (t', r)"
  shows "spends m t t'" "r = Some c \<Longrightarrow> c \<le> remaining_bytes t' \<and> 0 < remaining_bytes t' \<and> 0 < c \<and> c \<le> n"
    "r = Some c \<Longrightarrow> db_steps (dt_budget t') < db_steps (dt_budget t)"
  using assms step_spends [of t]
  by (auto simp: protocol_chunk_def Let_def split: prod.splits if_splits)

lemma can_continue_spends: "can_continue_or_exhausted t = (t', ok) \<Longrightarrow> spends m t t' \<and> (ok \<longrightarrow> t' = t)"
  by (auto simp: can_continue_or_exhausted_def split: if_splits)

lemma can_emit_spends: "can_emit_event_or_exhausted t = (t', ok) \<Longrightarrow> spends m t t' \<and> (ok \<longrightarrow> t' = t \<and> 0 < db_events (dt_budget t))"
  by (auto simp: can_emit_event_or_exhausted_def split: if_splits)

lemma emit_spends: "emit_event t = (t', ok) \<Longrightarrow> spends m t t'"
  by (auto simp: emit_event_def event_step_or_exhausted_def event_only_or_exhausted_def budget_step_def spends_def
      remaining_bytes_def moved_def emitted_def exhausted_def turn_report_def mark_budget_exhausted_def
      report_event_emitted_def saturating_add_def min_def split: if_splits prod.splits)

text \<open>
  Accounting for an event together with its bytes, after the guards of a frame operation: it
  succeeds, and it may overdraw by what the frame exceeds the rest of the budget.
\<close>

lemma event_available:
  assumes "0 < db_events (dt_budget t)" "0 < remaining_bytes t"
  shows "event_or_exhausted n t =
    (t\<lparr> dt_budget := (dt_budget t)\<lparr> db_events := db_events (dt_budget t) - 1, db_bytes := remaining_bytes t - max n 1 \<rparr> \<rparr>, True)"
  using assms by (simp add: event_or_exhausted_def budget_event_def remaining_bytes_def)

lemma event_spends:
  assumes "event_or_exhausted n t = (t', True)" "n \<le> remaining_bytes t + m"
  shows "spends m t (turn_report (report_event_emitted \<circ> report_bytes_read n) t')"
    "spends m t (turn_report (report_guest_bytes_dequeued n) t')" "spends m t (turn_report report_event_emitted t')"
  using assms
  by (auto simp: event_or_exhausted_def budget_event_def remaining_bytes_def spends_def moved_def emitted_def turn_report_def
      report_event_emitted_def report_bytes_read_def report_guest_bytes_dequeued_def saturating_add_def min_def max_def
      split: if_splits prod.splits)

section \<open>Operations on a stream\<close>

text \<open>
  The sockets an operation calls, by what the system promises of them: a read returns at most
  what its buffer holds, a write takes at most what it was given.
\<close>

locale byte_io =
  fixes rd :: "nat \<Rightarrow> 's \<Rightarrow> 's \<times> (bytes, io_error) result"
    and wr :: "bytes \<Rightarrow> 's \<Rightarrow> 's \<times> (nat, io_error) result"
  assumes rd_le: "rd cap s = (s', Ok xs) \<Longrightarrow> length xs \<le> cap"
    and wr_le: "wr xs s = (s', Ok n) \<Longrightarrow> n \<le> length xs"
begin

lemma read_stream_spends:
  assumes "read_stream_ready rd t io pool s = Some (t', io', pool', s', r)"
  shows "spends m t t'"
proof -
  have report: "spends m t (turn_report (report_bytes_read (length ys)) (spend_bytes (length ys) t1))"
    if "step_or_exhausted t = (t1, True)" "rd (min cap (remaining_bytes t1)) s = (s1, Ok ys)" for t1 cap s1 ys
    using step_spends(1) [OF that(1), of m] step_spends(2) [OF that(1)] spend_report_spends [of "length ys" t1 "report_bytes_read (length ys)" m] rd_le [OF that(2)]
    by (auto intro: spends_trans)
  show ?thesis using assms step_spends(1) [of t _ _ m] report [of _ _ _ "_ # _"]
    by (auto simp: read_stream_ready_def read_stream_unchecked_def Let_def
        split: if_splits bind_splits result.splits list.splits io_error.splits prod.splits)
qed

lemma recv_tcp_spends:
  assumes "recv_smoltcp_tcp can_recv rd t pool s = Some (t', pool', s', r)"
  shows "spends m t t'"
proof -
  have report: "spends m t (turn_report (report_guest_bytes_dequeued (length ys)) (spend_bytes (length ys) t1))"
    if "step_or_exhausted t = (t1, True)" "rd (min cap (remaining_bytes t1)) s = (s1, Ok ys)" for t1 cap s1 ys
    using step_spends(1) [OF that(1), of m] step_spends(2) [OF that(1)] rd_le [OF that(2)]
      spend_report_spends [of "length ys" t1 "report_guest_bytes_dequeued (length ys)" m]
    by (auto intro: spends_trans)
  show ?thesis using assms step_spends(1) [of t _ _ m] report [of _ _ _ "_ # _"] can_continue_spends [of t _ _ m]
    by (auto simp: recv_smoltcp_tcp_def Let_def
        split: if_splits bind_splits result.splits list.splits prod.splits)
qed

text \<open>One round of the two writing loops: a step, a write of what the budget allows, its accounting.\<close>

lemma write_round_spends:
  assumes "step_or_exhausted t = (t1, True)" "wr (take (min (length xs) (remaining_bytes t)) xs) s = (s', Ok n)"
    and "f \<in> {report_bytes_written n, report_guest_bytes_enqueued n}"
  shows "spends m t (turn_report f (spend_bytes n t1))"
proof -
  have "n \<le> remaining_bytes t1" "0 < remaining_bytes t1"
    using step_spends(2,3) [OF assms(1)] wr_le [OF assms(2)] by auto
  then show ?thesis
    using step_spends(1) [OF assms(1), of m] spend_report_spends [of n t1 f m] assms(3) by (auto intro: spends_trans)
qed

lemma write_loop_spends:
  "write_stream_loop wr t queue s = (t', queue', s', r) \<Longrightarrow> spends m t t'"
proof (induction "db_steps (dt_budget t)" arbitrary: t queue s rule: less_induct)
  case less
  have rec: "spends m t t'"
    if "step_or_exhausted t = (t1, True)" "wr (take (min (length xs) (remaining_bytes t)) xs) s = (s1, Ok n)"
      "write_stream_loop wr (turn_report (report_bytes_written n) (spend_bytes n t1)) q1 s1 = (t', queue', s', r)"
    for t1 xs s1 n q1
    using less(1) [OF _ that(3)] step_spends(4) [OF that(1)] write_round_spends [OF that(1,2)] by (auto intro: spends_trans)
  show ?case
    using less(2) step_spends(1) [of t _ _ m] write_round_spends [of t _ _ s _ _ "report_bytes_written _" m] rec
    by (subst (asm) write_stream_loop.simps)
      (auto simp: Let_def split: if_splits option.splits prod.splits bool.splits result.splits io_error.splits)
qed

lemma write_queue_spends:
  assumes "write_stream_queue_ready wr t io queue s = (t', io', queue', s', r)"
  shows "spends m t t'"
  using assms write_loop_spends [of t queue s _ _ _ _ m]
  by (auto simp: write_stream_queue_ready_def write_stream_queue_unchecked_def Let_def split: if_splits prod.splits result.splits)

lemma send_loop_spends:
  "send_smoltcp_loop can_send wr t queue s = (t', queue', s') \<Longrightarrow> spends m t t'"
proof (induction "db_steps (dt_budget t)" arbitrary: t queue s rule: less_induct)
  case less
  have rec: "spends m t t'"
    if "step_or_exhausted t = (t1, True)" "wr (take (min (length xs) (remaining_bytes t)) xs) s = (s1, Ok n)"
      "send_smoltcp_loop can_send wr (turn_report (report_guest_bytes_enqueued n) (spend_bytes n t1)) q1 s1 = (t', queue', s')"
    for t1 xs s1 n q1
    using less(1) [OF _ that(3)] step_spends(4) [OF that(1)] write_round_spends [OF that(1,2)] by (auto intro: spends_trans)
  show ?case
    using less(2) step_spends(1) [of t _ _ m] write_round_spends [of t _ _ s _ _ "report_guest_bytes_enqueued _" m] rec
    by (subst (asm) send_smoltcp_loop.simps)
      (auto simp: Let_def split: if_splits option.splits prod.splits bool.splits result.splits)
qed

lemma send_tcp_spends:
  assumes "send_smoltcp_tcp_queue can_send wr t queue s = (t', queue', s')"
  shows "spends m t t'"
  using assms send_loop_spends [of can_send t queue s _ _ _ m]
  by (auto simp: send_smoltcp_tcp_queue_def split: if_splits prod.splits)

lemma send_datagram_spends:
  assumes "send_datagram_ready wr t io s xs = (t', io', s', r)"
  shows "spends m t t'"
proof -
  have "spends m t (turn_report (report_bytes_written (length xs)) (spend_bytes (length xs) t1))"
    if "start_whole_item_operation (length xs) t = (t1, True)" for t1
    using whole_item_spends(1) [OF that, of m] whole_item_spends(2) [OF that]
      spend_report_spends [of "length xs" t1 "report_bytes_written (length xs)" m] by (auto intro: spends_trans)
  then show ?thesis using assms whole_item_spends(1) [of "length xs" t _ _ m]
    by (auto simp: send_datagram_ready_def send_datagram_unchecked_def split: if_splits prod.splits result.splits io_error.splits)
qed

end

interpretation bio: byte_io sock_read sock_write
  by unfold_locales (use sock_read_le sock_write_Ok in blast)+

lemma recv_datagram_spends:
  assumes "recv_datagram_ready rcv t io pool s cap = Some (t', io', pool', s', r)"
    and le: "\<And>s1 xs p. rcv cap s = (s1, Ok (xs, p)) \<Longrightarrow> length xs \<le> cap"
  shows "spends m t t'"
proof -
  have "spends m t (turn_report (report_bytes_read (length xs)) (spend_bytes (length xs) t1))"
    if "start_whole_item_operation cap t = (t1, True)" "rcv cap s = (s1, Ok (xs, p))" for t1 s1 xs p
    using whole_item_spends(1) [OF that(1), of m] whole_item_spends(2) [OF that(1)] le [OF that(2)]
      spend_report_spends [of "length xs" t1 "report_bytes_read (length xs)" m] by (auto intro: spends_trans)
  then show ?thesis using assms(1) whole_item_spends(1) [of cap t _ _ m]
    by (auto simp: recv_datagram_ready_def recv_datagram_unchecked_def
        split: if_splits bind_splits prod.splits result.splits io_error.splits)
qed

section \<open>Protocol output, transports and guest frames\<close>

lemma chunk_report_spends:
  assumes "protocol_chunk n t = (t1, Some c)" "k \<le> c" "f \<in> {report_bytes_read k, report_bytes_written k}"
  shows "spends m t (turn_report f (spend_bytes k t1))"
  using chunk_spends(1) [OF assms(1), of m] chunk_spends(2) [OF assms(1)] assms(2,3)
    spend_report_spends [of k t1 f m] by (auto intro: spends_trans)

lemma chunk_spend_spends:
  assumes "protocol_chunk n t = (t1, Some c)"
  shows "spends m t (turn_report report_state_changed (spend_bytes k t1))"
  using chunk_spends(1) [OF assms, of m] by (auto intro: spends_trans)

lemma protocol_op_spends:
  assumes "drive_protocol_op op n t s = (t', s', r)"
  shows "spends m t t'"
  using assms chunk_spends(1) [of n t _ _ m] chunk_spend_spends [of n t _ _ m]
  by (auto simp: drive_protocol_op_def split: if_splits prod.splits option.splits result.splits protocol_op.splits)

lemma take_protocol_output_spends:
  assumes "take_protocol_output t output1 pool n = Some (t', output', pool', r)"
  shows "spends m t t'"
  using assms chunk_spends(1) [of _ t _ _ m] chunk_spend_spends [of _ t _ _ m]
  by (auto simp: take_protocol_output_def split: if_splits bind_splits prod.splits option.splits result.splits)

lemma queue_protocol_output_spends:
  assumes "queue_protocol_output t queue output1 off pool n = Some (t', queue', output', off', pool', r)"
  shows "spends m t t'"
  using assms chunk_spends(1) [of _ t _ _ m] chunk_spend_spends [of _ t _ _ m]
  by (auto simp: queue_protocol_output_def Let_def split: if_splits bind_splits prod.splits option.splits result.splits)

lemma transport_op_spends:
  assumes "drive_transport_op op clr w t io n s = (t', io', s', r)"
    and "\<And>c s1 k v. op c s = (s1, Ok (TransportProgress k v)) \<Longrightarrow> k \<le> c"
  shows "spends m t t'"
  using assms chunk_spends(1) [of n t _ _ m] chunk_report_spends [of n t _ _ _ _ m]
  by (auto simp: drive_transport_op_def Let_def
      split: prod.splits option.splits result.splits transport_op.splits)

lemma enqueue_guest_frame_spends:
  assumes "enqueue_guest_frame t queued cap len = (t', r)"
  shows "spends m t t'"
proof -
  have "spends m t (turn_report (report_guest_bytes_enqueued len) (spend_bytes len t1))"
    if "start_whole_item_operation len t = (t1, True)" for t1
    using whole_item_spends(1) [OF that, of m] whole_item_spends(2) [OF that]
      spend_report_spends [of len t1 "report_guest_bytes_enqueued len" m] by (auto intro: spends_trans)
  then show ?thesis using assms whole_item_spends(1) [of len t _ _ m]
    by (auto simp: enqueue_guest_frame_def split: if_splits prod.splits)
qed

text \<open>The guards of the two frame operations: afterwards the event cannot be refused.\<close>

lemma frame_guards:
  assumes "can_emit_event_or_exhausted t = (t1, True)" "start_whole_item_operation n t1 = (t2, True)"
  shows "spends m t t2" "0 < db_events (dt_budget t2)" "0 < remaining_bytes t2" "n \<le> remaining_bytes t2"
proof -
  have t1: "t1 = t" "0 < db_events (dt_budget t)" using can_emit_spends [OF assms(1)] by auto
  then show "spends m t t2" "0 < remaining_bytes t2" "n \<le> remaining_bytes t2"
    using whole_item_spends [OF assms(2)] by auto
  show "0 < db_events (dt_budget t2)" using assms(2) t1
    by (auto simp: start_whole_item_operation_def step_or_exhausted_def budget_step_def split: if_splits prod.splits)
qed

lemma frame_event:
  assumes "can_emit_event_or_exhausted t = (t1, True)" "start_whole_item_operation n t1 = (t2, True)"
  obtains t3 where "event_or_exhausted k t2 = (t3, True)"
  using event_available [OF frame_guards(2,3) [OF assms]] by blast

text \<open>A frame operation is refused by its guards, or calls the session once and answers for that call.\<close>

definition write_answer :: "drive_turn \<Rightarrow> nat \<Rightarrow> (bool, 'e) result \<Rightarrow> drive_turn \<times> (drive_guest_frame_write, 'e) result" where
  "write_answer t len w =
     (case w of
        Err e \<Rightarrow> (t, Err e)
      | Ok True \<Rightarrow> (turn_report (report_guest_bytes_dequeued len) (fst (event_or_exhausted len t)), Ok FrameFlushed)
      | Ok False \<Rightarrow> (block_on GUEST_SEND_CAPACITY t, Ok FrameWriteWouldBlock))"

lemma write_guest_frame_cases [consumes 1]:
  assumes call: "write_guest_frame write_fn t len s = (t', s', r)"
  obtains (refused) "s' = s" "r = Ok FrameWriteBudget" "t' \<in> range exhausted" "\<And>m. spends m t t'"
    | (called) t2 w where "\<And>m. spends m t t2" "0 < db_events (dt_budget t2)" "0 < remaining_bytes t2"
      "len \<le> remaining_bytes t2" "write_fn s = (s', w)" "(t', r) = write_answer t2 len w"
proof (cases "snd (can_emit_event_or_exhausted t)")
  case False
  then have "t' = exhausted t" "s' = s" "r = Ok FrameWriteBudget"
    using call by (auto simp: write_guest_frame_def can_emit_event_or_exhausted_def split: if_splits)
  then show ?thesis using that(1) by auto
next
  case True
  then have emit: "can_emit_event_or_exhausted t = (t, True)" by (auto simp: can_emit_event_or_exhausted_def split: if_splits)
  obtain t2 ok where item: "start_whole_item_operation len t = (t2, ok)" by fastforce
  show ?thesis
  proof (cases ok)
    case False
    have "t2 \<in> range exhausted" using item False
      by (auto simp: start_whole_item_operation_def step_or_exhausted_def split: if_splits prod.splits)
    then show ?thesis using call emit item False whole_item_spends(1) [OF item] that(1) by (auto simp: write_guest_frame_def)
  next
    case True
    with item have item': "start_whole_item_operation len t = (t2, True)" by simp
    note guards = frame_guards [OF emit item']
    obtain s1 w where w: "write_fn s = (s1, w)" by fastforce
    have "(t', s', r) = (case write_answer t2 len w of (t, r) \<Rightarrow> (t, s1, r))"
      using call emit item' w
      by (auto simp: write_guest_frame_def write_answer_def event_available [OF guards(2,3)] split: result.splits bool.splits)
    then show ?thesis using that(2) [OF guards, of w] w by (auto split: prod.splits)
  qed
qed

lemma write_guest_frame_spends:
  assumes "write_guest_frame write_fn t len s = (t', s', r)"
  shows "spends m t t'"
  using assms
proof (cases rule: write_guest_frame_cases)
  case (called t2 w)
  have event: "event_or_exhausted len t2 = (fst (event_or_exhausted len t2), True)"
    using event_available [OF called(2,3), of len] by simp
  have "spends m t2 t'"
    using called(4,6) event_spends(2) [OF event, of m] by (auto simp: write_answer_def split: result.splits bool.splits)
  then show ?thesis using called(1) spends_trans by blast
qed simp

definition read_answer ::
    "drive_turn \<Rightarrow> pool \<Rightarrow> vec \<Rightarrow> (drive_guest_frame_read_status, 'e) result \<Rightarrow> drive_turn \<times> pool \<times> (drive_guest_frame_read, 'e) result" where
  "read_answer t pool v st =
     (case st of
        Err e \<Rightarrow> (t, frame_buf_drop pool v, Err e)
      | Ok StatusFrame \<Rightarrow>
          (turn_report (report_event_emitted \<circ> report_bytes_read (length (vec_data v)))
             (fst (event_or_exhausted (length (vec_data v)) t)), pool, Ok (GuestFrame v))
      | Ok StatusBlocked \<Rightarrow> (block_on GUEST_RECV t, frame_buf_drop pool v, Ok GuestWouldBlock)
      | Ok StatusClosed \<Rightarrow>
          (turn_report report_event_emitted (fst (event_or_exhausted 0 t)), frame_buf_drop pool v, Ok GuestClosed))"

lemma read_guest_frame_cases [consumes 1]:
  assumes call: "read_guest_frame read_fn t pool s = Some (t', pool', s', r)"
  obtains (refused) "s' = s" "r = Ok GuestBlocked" "t' \<in> range exhausted \<union> range wait_for_local_buffer_capacity_with_continuation"
      "\<And>m. spends m t t'"
    | (called) t2 pool2 frame v st where "\<And>m. spends m t t2" "0 < db_events (dt_budget t2)" "0 < remaining_bytes t2"
      "db_steps (dt_budget t2) < db_steps (dt_budget t)"
      "read_fn frame s = Some (s', v, st)" "(t', pool', r) = read_answer t2 pool2 v st"
proof (cases "snd (can_emit_event_or_exhausted t)")
  case False
  then have "t' = exhausted t" "s' = s" "r = Ok GuestBlocked"
    using call by (auto simp: read_guest_frame_def can_emit_event_or_exhausted_def split: if_splits)
  then show ?thesis using that(1) by auto
next
  case True
  then have emit: "can_emit_event_or_exhausted t = (t, True)" by (auto simp: can_emit_event_or_exhausted_def split: if_splits)
  obtain t2 ok where item: "start_whole_item_operation (frame_buffer_capacity (pl_limits pool)) t = (t2, ok)" by fastforce
  note sp = whole_item_spends(1) [OF item]
  show ?thesis
  proof (cases ok)
    case False
    have "t2 \<in> range exhausted" using item False
      by (auto simp: start_whole_item_operation_def step_or_exhausted_def split: if_splits prod.splits)
    then show ?thesis using call emit item False sp that(1) by (auto simp: read_guest_frame_def)
  next
    case True
    with item have item': "start_whole_item_operation (frame_buffer_capacity (pl_limits pool)) t = (t2, True)" by simp
    note guards = frame_guards [OF emit item']
    obtain pool2 g where take_frame: "try_guest_frame pool = (pool2, g)" by fastforce
    show ?thesis
    proof (cases g)
      case (Err e)
      then show ?thesis using call emit item True take_frame sp that(1) by (auto simp: read_guest_frame_def)
    next
      case (Ok frame)
      then obtain s1 v st where rd: "read_fn frame s = Some (s1, v, st)" and
        answer: "(t', pool', s', r) = (case read_answer t2 pool2 v st of (t, p, r) \<Rightarrow> (t, p, s1, r))"
        using call emit item True take_frame
        by (auto simp: read_guest_frame_def read_answer_def Let_def event_available [OF guards(2,3)]
            split: bind_splits result.splits drive_guest_frame_read_status.splits)
      then show ?thesis using that(2) [OF guards(1-3), of frame v st pool2] whole_item_spends(3) [OF item'] by (auto split: prod.splits)
    qed
  qed
qed

lemma read_guest_frame_spends:
  assumes "read_guest_frame read_fn t pool s = Some (t', pool', s', r)"
    and short: "\<And>frame s1 v. read_fn frame s = Some (s1, v, Ok StatusFrame) \<Longrightarrow> length (vec_data v) \<le> m"
  shows "spends m t t'"
  using assms(1)
proof (cases rule: read_guest_frame_cases)
  case (called t2 pool2 frame v st)
  have event: "event_or_exhausted k t2 = (fst (event_or_exhausted k t2), True)" for k
    using event_available [OF called(2,3), of k] by simp
  have "spends m t2 t'"
    using called(5,6) short [of frame s' v] event_spends(1,3) [OF event, of _ m]
    by (auto simp: read_answer_def intro: trans_le_add2 split: result.splits drive_guest_frame_read_status.splits)
  then show ?thesis using called(1) spends_trans by blast
qed

text \<open>Small limits, for examples that are evaluated.\<close>

definition small_limits :: network_limits where
  "small_limits = \<lparr>
     command_inbox_capacity = 2, reactor_event_capacity = 2, component_output_batch_capacity = 2, component_event_batch_capacity = 2,
     frame_device_queue_capacity = 4, frame_buffer_capacity = 16, max_pooled_frame_capacity = 32, frame_buffer_pool_capacity = 4,
     small_byte_capacity = 2, medium_byte_capacity = 4, tcp_byte_capacity = 8, small_byte_pool_capacity = 2,
     medium_byte_pool_capacity = 2, tcp_byte_pool_capacity = 2, tcp_socket_buffer_capacity = 2, udp_datagram_buffer_capacity = 2,
     ingress_udp_datagram_buffer_capacity = 2, client_hello_limit = 2, tls_relay_buffer_capacity = 2, transport_connect_retry_delay = 2,
     status_publish_interval = 2, idle_poll_delay = 2, udp_proxy_timeout = 2, drive_event_budget = 3,
     drive_step_budget = 6, drive_byte_budget = 64, tcp_proxy_limit = 2, ingress_tcp_connection_limit = 2,
     ingress_udp_peer_limit = 2, udp_proxy_limit = 2, timer_queue_capacity = 2, telemetry_event_capacity = 2 \<rparr>"

end
