(* ===== verification/GuestIo.thy ===== *)
theory GuestIo
  imports DriveSafety Policy
begin

text \<open>
  The guest's end of the frame path: \<open>GuestIo\<close> of \<open>libs/agentdp-network/src/guest.rs\<close> queues frames
  for the guest, flushes them through a session and reads frames from it, each call paid from the
  budget of the turn.  The session is any \<open>GuestFrameSession\<close>: its two calls are arguments, and the
  locale below states what they promise.  \<open>FrameStream\<close> of \<^theory_text>\<open>QemuStream\<close> is the session the
  program has (\<open>backends/agentdp-qemu/src/net.rs\<close>).

  The reactor is an argument: a function that registers the session anew, with or without write
  interest, on a state of its own.
\<close>

section \<open>Sessions\<close>

datatype 'm transport_error = Operation string 'm

datatype frame_read = SessionFrame | SessionReadBlocked | SessionClosed

datatype frame_write = SessionFlushed | SessionWriteBlocked

text \<open>The session calls of \<open>FrameStream\<close>; the message of an error is the error it prints.\<close>

definition fs_read_frame_into ::
    "vec \<Rightarrow> frame_stream \<Rightarrow> (frame_stream \<times> vec \<times> (frame_read, stream_error transport_error) result) option" where
  "fs_read_frame_into frame st =
     try_read_frame_into st (vec_data frame) \<bind> (\<lambda>(st, bytes, r). Some (case r of
         Ok FrameRead \<Rightarrow> (st, buf_extend_from_slice bytes (frame\<lparr> vec_data := [] \<rparr>), Ok SessionFrame)
       | Ok ReadBlocked \<Rightarrow> (st, frame, Ok SessionReadBlocked)
       | Ok ReadClosed \<Rightarrow> (st, frame, Ok SessionClosed)
       | Err e \<Rightarrow> (st, frame, Err (Operation ''read QEMU stream frame'' e))))"

definition fs_write_frame :: "bytes \<Rightarrow> frame_stream \<Rightarrow> frame_stream \<times> (frame_write, stream_error transport_error) result" where
  "fs_write_frame frame st =
     (case try_write_frame st frame of
        (st, Ok Flushed) \<Rightarrow> (st, Ok SessionFlushed)
      | (st, Ok WriteBlocked) \<Rightarrow> (st, Ok SessionWriteBlocked)
      | (st, Err e) \<Rightarrow> (st, Err (Operation ''write QEMU stream frame'' e)))"

section \<open>Guest input and output\<close>

type_synonym socket_addr = "ip_addr \<times> u16"

record udp_proxy_key =
  guest_src :: socket_addr
  guest_dst :: socket_addr
  host_dst :: socket_addr

datatype reactor_item_id =
  Guest
| IngressTcpListener u16
| IngressTcpConnection u64
| IngressUdpSocket u16
| TcpProxy u64
| UdpProxy udp_proxy_key

datatype reactor_ready = Wake | ReadyIo reactor_item_id bool bool

datatype 'e guest_event = FrameEvent u64 vec | DisconnectedEvent u64 "(unit, 'e) result"

datatype guest_frame_enqueue = Queued | EnqueueBlocked vec

record 's guest_io =
  gi_session :: 's
  gi_generation :: u64
  gi_outbound :: "vec list"
  gi_outbound_capacity :: nat
  gi_io :: io_slot

definition guest_register :: "(unit, 'e) result \<Rightarrow> 's \<Rightarrow> u64 \<Rightarrow> pool \<Rightarrow> ('s guest_io, 'e) result" where
  "guest_register registered session generation buffers =
     (case registered of
        Err e \<Rightarrow> Err e
      | Ok _ \<Rightarrow> Ok \<lparr> gi_session = session, gi_generation = generation, gi_outbound = [],
          gi_outbound_capacity = frame_device_queue_capacity (pl_limits buffers),
          gi_io = io_registered Readable \<rparr>)"

text \<open>\<open>enable_write\<close> and \<open>disable_write\<close> of \<open>RegisteredGuestSource\<close>.\<close>

definition enable_write :: "(bool \<Rightarrow> 'k \<Rightarrow> 'k \<times> (unit, 'e) result) \<Rightarrow> 'k \<Rightarrow> io_slot \<Rightarrow> 'k \<times> io_slot \<times> (unit, 'e) result" where
  "enable_write reregister k io =
     (if io_interest io = ReadWrite then (k, io, Ok ())
      else case reregister True k of
        (k, Err e) \<Rightarrow> (k, io, Err e)
      | (k, Ok _) \<Rightarrow> (k, io_set_registered_interest ReadWrite io, Ok ()))"

definition disable_write :: "(bool \<Rightarrow> 'k \<Rightarrow> 'k \<times> (unit, 'e) result) \<Rightarrow> 'k \<Rightarrow> io_slot \<Rightarrow> 'k \<times> io_slot \<times> (unit, 'e) result" where
  "disable_write reregister k io =
     (if io_interest io = Readable then (k, io, Ok ())
      else case reregister False k of
        (k, Err e) \<Rightarrow> (k, io, Err e)
      | (k, Ok _) \<Rightarrow> (k, io_set_registered_interest Readable io, Ok ()))"

definition guest_enqueue ::
    "(bool \<Rightarrow> 'k \<Rightarrow> 'k \<times> (unit, 'e) result) \<Rightarrow> drive_turn \<Rightarrow> 'k \<Rightarrow> 's guest_io \<Rightarrow> vec \<Rightarrow>
     drive_turn \<times> 'k \<times> 's guest_io \<times> (guest_frame_enqueue, 'e) result" where
  "guest_enqueue reregister t k gi frame =
     (case enqueue_guest_frame t (length (gi_outbound gi)) (gi_outbound_capacity gi) (length (vec_data frame)) of
        (t, FrameBlocked) \<Rightarrow> (t, k, gi, Ok (EnqueueBlocked frame))
      | (t, FrameReserved) \<Rightarrow>
         (let gi = gi\<lparr> gi_outbound := gi_outbound gi @ [frame] \<rparr> in
          case enable_write reregister k (gi_io gi) of
            (k, io, Err e) \<Rightarrow> (t, k, gi\<lparr> gi_io := io \<rparr>, Err e)
          | (k, io, Ok _) \<Rightarrow> (t, k, gi\<lparr> gi_io := io \<rparr>, Ok Queued)))"

text \<open>
  The loop of \<open>flush_outbound\<close> over the queued frames: what is left of them, and the pool the
  flushed ones returned to.
\<close>

fun flush_frames ::
    "(bytes \<Rightarrow> 's \<Rightarrow> 's \<times> (frame_write, 'e) result) \<Rightarrow> drive_turn \<Rightarrow> pool \<Rightarrow> io_slot \<Rightarrow> 's \<Rightarrow> vec list \<Rightarrow>
     drive_turn \<times> pool \<times> io_slot \<times> 's \<times> vec list \<times> (unit, 'e) result" where
  "flush_frames write_fn t pool io s [] = (t, pool, io, s, [], Ok ())"
| "flush_frames write_fn t pool io s (frame # frames) =
     (if \<not> io_can_write io then (t, pool, io, s, frame # frames, Ok ())
      else case write_guest_frame
          (\<lambda>s. case write_fn (vec_data frame) s of (s, Ok status) \<Rightarrow> (s, Ok (status = SessionFlushed)) | (s, Err e) \<Rightarrow> (s, Err e))
          t (length (vec_data frame)) s of
        (t, s, Err e) \<Rightarrow> (t, pool, io, s, frame # frames, Err e)
      | (t, s, Ok FrameFlushed) \<Rightarrow> flush_frames write_fn t (frame_buf_drop pool frame) io s frames
      | (t, s, Ok FrameWriteWouldBlock) \<Rightarrow>
          (t, pool, io_clear_write_after_would_block io, s, frame # frames, Ok ())
      | (t, s, Ok FrameWriteBudget) \<Rightarrow> (t, pool, io, s, frame # frames, Ok ()))"

definition flush_outbound ::
    "(bytes \<Rightarrow> 's \<Rightarrow> 's \<times> (frame_write, 'e) result) \<Rightarrow> (bool \<Rightarrow> 'k \<Rightarrow> 'k \<times> (unit, 'e) result) \<Rightarrow> drive_turn \<Rightarrow> 'k \<Rightarrow>
     pool \<Rightarrow> 's guest_io \<Rightarrow> drive_turn \<times> 'k \<times> pool \<times> 's guest_io \<times> (unit, 'e) result" where
  "flush_outbound write_fn reregister t k pool gi =
     (case flush_frames write_fn t pool (gi_io gi) (gi_session gi) (gi_outbound gi) of (t, pool, io, s, frames, r) \<Rightarrow>
        let gi = gi\<lparr> gi_session := s, gi_outbound := frames, gi_io := io \<rparr> in
        case r of
          Err e \<Rightarrow> (t, k, pool, gi, Err e)
        | Ok _ \<Rightarrow>
           if frames = [] \<and> io_watches_write io then
             (case try_apply_state_change
                 (\<lambda>(k, io). case disable_write reregister k io of (k, io, r) \<Rightarrow> ((k, io), r)) t (k, io) of
                (t, (k, io), Failed e) \<Rightarrow> (t, k, pool, gi\<lparr> gi_io := io \<rparr>, Err e)
              | (t, (k, io), _) \<Rightarrow> (t, k, pool, gi\<lparr> gi_io := io \<rparr>, Ok ()))
           else if frames \<noteq> [] \<and> \<not> io_can_write io then (block_on GUEST_SEND_CAPACITY t, k, pool, gi, Ok ())
           else (t, k, pool, gi, Ok ()))"

lemma read_guest_frame_steps:
  assumes "read_guest_frame read_fn t pool s = Some (t', pool', s', Ok (GuestFrame frame))"
  shows "db_steps (dt_budget t') < db_steps (dt_budget t)"
  using assms
proof (cases rule: read_guest_frame_cases)
  case (called t2 pool2 frame v st)
  then show ?thesis
    by (auto simp: read_answer_def event_or_exhausted_def budget_event_def
        split: result.splits drive_guest_frame_read_status.splits prod.splits if_splits)
qed simp

text \<open>\<open>drain_ready_reads\<close>: the session, its pool and latch, and the events pushed.\<close>

definition read_status :: "(vec \<Rightarrow> 's \<Rightarrow> ('s \<times> vec \<times> (frame_read, 'e) result) option) \<Rightarrow> vec \<Rightarrow> 's \<Rightarrow>
    ('s \<times> vec \<times> (drive_guest_frame_read_status, 'e) result) option" where
  "read_status read_fn frame s =
     read_fn frame s \<bind> (\<lambda>(s, frame, r). Some (s, frame, (case r of
         Ok SessionFrame \<Rightarrow> Ok StatusFrame
       | Ok SessionReadBlocked \<Rightarrow> Ok StatusBlocked
       | Ok SessionClosed \<Rightarrow> Ok StatusClosed
       | Err e \<Rightarrow> Err e)))"

function drain_ready_reads ::
    "(vec \<Rightarrow> 's \<Rightarrow> ('s \<times> vec \<times> (frame_read, 'e) result) option) \<Rightarrow> drive_turn \<Rightarrow> pool \<Rightarrow> 's guest_io \<Rightarrow> 'e guest_event list \<Rightarrow>
     (drive_turn \<times> pool \<times> 's guest_io \<times> 'e guest_event list \<times> (unit, 'e) result) option" where
  "drain_ready_reads read_fn t pool gi events =
     (if \<not> io_can_read (gi_io gi) then Some (t, pool, gi, events, Ok ())
      else case read_guest_frame (read_status read_fn) t pool (gi_session gi) of
        None \<Rightarrow> None
      | Some (t', pool', s, r) \<Rightarrow>
         (let gi = gi\<lparr> gi_session := s \<rparr>; cleared = gi\<lparr> gi_io := io_clear_read_after_would_block (gi_io gi) \<rparr> in
          case r of
            Err e \<Rightarrow> Some (t', pool', gi, events, Err e)
          | Ok (GuestFrame frame) \<Rightarrow>
              drain_ready_reads read_fn t' pool' gi (events @ [FrameEvent (gi_generation gi) frame])
          | Ok GuestWouldBlock \<Rightarrow> Some (t', pool', cleared, events, Ok ())
          | Ok GuestBlocked \<Rightarrow> Some (t', pool', gi, events, Ok ())
          | Ok GuestClosed \<Rightarrow> Some (t', pool', cleared, events @ [DisconnectedEvent (gi_generation gi) (Ok ())], Ok ())))"
  by pat_completeness auto

termination
  by (relation "measure (\<lambda>(_, t, _, _, _). db_steps (dt_budget t))") (auto intro: read_guest_frame_steps)

declare drain_ready_reads.simps [simp del]

text \<open>The readiness of a turn: what concerns the guest is latched, and the guest is driven if any did.\<close>

fun mark_guest_ready :: "reactor_ready list \<Rightarrow> io_slot \<Rightarrow> bool \<Rightarrow> io_slot \<times> bool" where
  "mark_guest_ready [] io guest_ready = (io, guest_ready)"
| "mark_guest_ready (Wake # readiness) io guest_ready = mark_guest_ready readiness io guest_ready"
| "mark_guest_ready (ReadyIo item rd_ready wr_ready # readiness) io guest_ready =
     (if item \<noteq> Guest then mark_guest_ready readiness io guest_ready
      else mark_guest_ready readiness (io_mark_reactor_ready rd_ready wr_ready io) True)"

definition guest_drive_ready ::
    "(vec \<Rightarrow> 's \<Rightarrow> ('s \<times> vec \<times> (frame_read, 'e) result) option) \<Rightarrow> (bytes \<Rightarrow> 's \<Rightarrow> 's \<times> (frame_write, 'e) result) \<Rightarrow>
     (bool \<Rightarrow> 'k \<Rightarrow> 'k \<times> (unit, 'e) result) \<Rightarrow> drive_turn \<Rightarrow> 'k \<Rightarrow> pool \<Rightarrow> 's guest_io \<Rightarrow> reactor_ready list \<Rightarrow> 'e guest_event list \<Rightarrow>
     (drive_turn \<times> 'k \<times> pool \<times> 's guest_io \<times> 'e guest_event list \<times> (unit, 'e) result) option" where
  "guest_drive_ready read_fn write_fn reregister t k pool gi readiness events =
     (case mark_guest_ready readiness (gi_io gi) False of (io, guest_ready) \<Rightarrow>
        let gi = gi\<lparr> gi_io := io \<rparr> in
        if \<not> guest_ready then Some (t, k, pool, gi, events, Ok ())
        else case flush_outbound write_fn reregister t k pool gi of
          (t, k, pool, gi, Err e) \<Rightarrow> Some (t, k, pool, gi, events, Err e)
        | (t, k, pool, gi, Ok _) \<Rightarrow>
            drain_ready_reads read_fn t pool gi events \<bind> (\<lambda>(t, pool, gi, events, r).
              Some (t, k, pool, gi, events, r)))"

text \<open>\<open>shutdown\<close>: the registration is dropped and the session's writer shut down, both answers ignored.\<close>

definition guest_shutdown :: "('s \<Rightarrow> 's) \<Rightarrow> 's guest_io \<Rightarrow> 's guest_io" where
  "guest_shutdown shutdown_write gi =
     gi\<lparr> gi_io := io_clear_for_drop_or_reset (gi_io gi), gi_session := shutdown_write (gi_session gi) \<rparr>"

end
