(* ===== verification/GuestIoSafety.thy ===== *)
theory GuestIoSafety
  imports GuestIo
begin

text \<open>
  Frames to and from the guest over any sequence of turns: what the locale \<open>frame_session\<close> asks of
  a session is enough for frames to leave in order, once each, and for frames to arrive as the
  session reads them.  The session of \<^theory_text>\<open>QemuStream\<close> meets it.
\<close>

section \<open>Turns\<close>

text \<open>One call of the network on the guest, with the turn that pays for it.\<close>

datatype guest_call = Enqueue vec | Ready "reactor_ready list" | Flush

record ('s, 'k, 'e) guest_sys =
  gs_io :: "'s guest_io"
  gs_reactor :: 'k
  gs_pool :: pool
  gs_events :: "'e guest_event list"
  gs_accepted :: "bytes list"

definition guest_step ::
    "(vec \<Rightarrow> 's \<Rightarrow> ('s \<times> vec \<times> (frame_read, 'e) result) option) \<Rightarrow> (bytes \<Rightarrow> 's \<Rightarrow> 's \<times> (frame_write, 'e) result) \<Rightarrow>
     (bool \<Rightarrow> 'k \<Rightarrow> 'k \<times> (unit, 'e) result) \<Rightarrow> drive_turn \<Rightarrow> guest_call \<Rightarrow> ('s, 'k, 'e) guest_sys \<Rightarrow>
     (drive_turn \<times> ('s, 'k, 'e) guest_sys \<times> (unit, 'e) result) option" where
  "guest_step read_fn write_fn reregister t call g =
     (case call of
        Enqueue frame \<Rightarrow>
          (case guest_enqueue reregister t (gs_reactor g) (gs_io g) frame of
             (t, k, gi, r) \<Rightarrow>
               Some (t, g\<lparr> gs_io := gi, gs_reactor := k,
                 gs_accepted := gs_accepted g @ (case r of Ok (EnqueueBlocked _) \<Rightarrow> [] | _ \<Rightarrow> [vec_data frame]) \<rparr>,
                 (case r of Err e \<Rightarrow> Err e | Ok _ \<Rightarrow> Ok ())))
      | Ready readiness \<Rightarrow>
          guest_drive_ready read_fn write_fn reregister t (gs_reactor g) (gs_pool g) (gs_io g) readiness (gs_events g) \<bind>
            (\<lambda>(t, k, pool, gi, events, r).
              Some (t, g\<lparr> gs_io := gi, gs_reactor := k, gs_pool := pool, gs_events := events \<rparr>, r))
      | Flush \<Rightarrow>
          (case flush_outbound write_fn reregister t (gs_reactor g) (gs_pool g) (gs_io g) of
             (t, k, pool, gi, r) \<Rightarrow> Some (t, g\<lparr> gs_io := gi, gs_reactor := k, gs_pool := pool \<rparr>, r)))"

text \<open>A run of calls; the session is given up at the first error.\<close>

fun guest_run ::
    "(vec \<Rightarrow> 's \<Rightarrow> ('s \<times> vec \<times> (frame_read, 'e) result) option) \<Rightarrow> (bytes \<Rightarrow> 's \<Rightarrow> 's \<times> (frame_write, 'e) result) \<Rightarrow>
     (bool \<Rightarrow> 'k \<Rightarrow> 'k \<times> (unit, 'e) result) \<Rightarrow> (drive_turn \<times> guest_call) list \<Rightarrow> ('s, 'k, 'e) guest_sys \<Rightarrow>
     (('s, 'k, 'e) guest_sys \<times> (unit, 'e) result) option" where
  "guest_run read_fn write_fn reregister [] g = Some (g, Ok ())"
| "guest_run read_fn write_fn reregister ((t, call) # calls) g =
     guest_step read_fn write_fn reregister t call g \<bind> (\<lambda>(_, g, r).
       case r of Err e \<Rightarrow> Some (g, Err e) | Ok _ \<Rightarrow> guest_run read_fn write_fn reregister calls g)"

fun event_frames :: "'e guest_event list \<Rightarrow> bytes list" where
  "event_frames [] = []"
| "event_frames (FrameEvent _ v # events) = vec_data v # event_frames events"
| "event_frames (DisconnectedEvent _ _ # events) = event_frames events"

lemma event_frames_append [simp]: "event_frames (xs @ ys) = event_frames xs @ event_frames ys"
  by (induction xs rule: event_frames.induct) simp_all

lemma flush_frames_shorter:
  "flush_frames write_fn t pool io s frames = (t', pool', io', s', frames', r) \<Longrightarrow> length frames' \<le> length frames"
  by (induction frames arbitrary: t pool io s)
    (auto split: if_splits prod.splits result.splits drive_guest_frame_write.splits intro: le_SucI)

lemma read_guest_frame_total:
  assumes "\<And>frame. \<exists>s' v st. f frame s = Some (s', v, st)"
  shows "\<exists>t' pool' s' r. read_guest_frame f t pool s = Some (t', pool', s', r)"
proof -
  have "f frame s \<noteq> None" for frame using assms [of frame] by auto
  then have "read_guest_frame f t pool s \<noteq> None"
    by (auto simp: read_guest_frame_def Option.bind_eq_None_conv simp del: not_None_eq split: prod.splits result.splits)
  then show ?thesis by auto
qed

section \<open>Any session\<close>

locale frame_session =
  fixes read_fn :: "vec \<Rightarrow> 's \<Rightarrow> ('s \<times> vec \<times> (frame_read, 'e) result) option"
    and write_fn :: "bytes \<Rightarrow> 's \<Rightarrow> 's \<times> (frame_write, 'e) result"
    and enc :: "bytes \<Rightarrow> bytes" and sent :: "'s \<Rightarrow> bytes" and pend :: "'s \<Rightarrow> bytes"
    and valid :: "'s \<Rightarrow> bool" and coming :: "'s \<Rightarrow> bytes list \<Rightarrow> bool"
  assumes write_sends: "valid s \<Longrightarrow> f \<noteq> [] \<Longrightarrow> write_fn f s = (s', Ok r) \<Longrightarrow>
      sent s' @ pend s' = sent s @ (if pend s = [] then enc f else pend s) \<and> valid s' \<and> (pend s' = [] \<longleftrightarrow> r = SessionFlushed)"
    and write_reads: "write_fn f s = (s', written) \<Longrightarrow> coming s' = coming s"
    and read_step: "coming s frames \<Longrightarrow> \<exists>s' v r. read_fn frame s = Some (s', v, Ok r) \<and>
      (r = SessionFrame \<and> frames \<noteq> [] \<and> vec_data v = hd frames \<and> coming s' (tl frames) \<or>
       r = SessionReadBlocked \<and> coming s' frames)"
    and read_writes: "read_fn frame s = Some (s', v, status) \<Longrightarrow> sent s' = sent s \<and> pend s' = pend s \<and> valid s' = valid s"
begin

text \<open>The bytes the session still owes for the frames queued; the first of them may be half sent.\<close>

definition owed :: "'s \<Rightarrow> vec list \<Rightarrow> bytes" where
  "owed s frames = (if pend s = [] then concat (map (enc \<circ> vec_data) frames)
     else pend s @ concat (map (enc \<circ> vec_data) (tl frames)))"

definition out_ok :: "'s \<Rightarrow> vec list \<Rightarrow> bytes list \<Rightarrow> bool" where
  "out_ok s frames accepted \<longleftrightarrow> valid s \<and> (\<forall>v\<in>set frames. vec_data v \<noteq> []) \<and> (frames = [] \<longrightarrow> pend s = []) \<and>
     sent s @ owed s frames = concat (map enc accepted)"

lemma write_guest_frame_session:
  assumes "write_guest_frame (\<lambda>s. case write_fn (vec_data frame) s of (s, Ok w) \<Rightarrow> (s, Ok (w = SessionFlushed)) | (s, Err e) \<Rightarrow> (s, Err e))
      t len s = (t', s', Ok r)" and ok: "out_ok s (frame # frames) accepted"
  shows "out_ok s' (if r = FrameFlushed then frames else frame # frames) accepted" "coming s' = coming s"
proof -
  consider "s' = s" "r = FrameWriteBudget"
    | w where "write_fn (vec_data frame) s = (s', Ok w)" "r = FrameFlushed \<longleftrightarrow> w = SessionFlushed"
    using assms(1)
    by (cases rule: write_guest_frame_cases) (auto simp: write_answer_def split: prod.splits result.splits bool.splits)
  then have "out_ok s' (if r = FrameFlushed then frames else frame # frames) accepted \<and> coming s' = coming s"
  proof cases
    case 2
    have "vec_data frame \<noteq> []" "valid s" using ok by (simp_all add: out_ok_def)
    from write_sends [OF this(2,1) 2(1)] write_reads [OF 2(1)] show ?thesis
      using ok 2(2) by (auto simp: out_ok_def owed_def split: if_splits) (metis append_assoc)+
  qed (use ok in simp)
  then show "out_ok s' (if r = FrameFlushed then frames else frame # frames) accepted" "coming s' = coming s" by auto
qed

lemma flush_frames_session:
  "flush_frames write_fn t pool io s frames = (t', pool', io', s', frames', Ok ()) \<Longrightarrow> out_ok s frames accepted \<Longrightarrow>
   out_ok s' frames' accepted \<and> coming s' = coming s"
proof (induction frames arbitrary: t pool io s)
  case (Cons frame frames)
  let ?call = "write_guest_frame (\<lambda>s. case write_fn (vec_data frame) s of (s, Ok w) \<Rightarrow> (s, Ok (w = SessionFlushed))
    | (s, Err e) \<Rightarrow> (s, Err e)) t (length (vec_data frame)) s"
  obtain t1 s1 r1 where call: "?call = (t1, s1, r1)" using prod_cases3 by blast
  show ?case
  proof (cases r1)
    case (Ok r)
    note step = write_guest_frame_session [OF call [unfolded Ok] Cons.prems(2)]
    show ?thesis using Cons.prems(1) call Ok step Cons.IH Cons.prems(2)
      by (cases r) (auto split: if_splits)
  qed (use Cons.prems call in \<open>auto split: if_splits\<close>)
qed auto

lemma flush_outbound_session:
  assumes "flush_outbound write_fn reregister t k pool gi = (t', k', pool', gi', Ok ())"
    and "out_ok (gi_session gi) (gi_outbound gi) accepted"
  shows "out_ok (gi_session gi') (gi_outbound gi') accepted" "coming (gi_session gi') = coming (gi_session gi)"
    "gi_outbound_capacity gi' = gi_outbound_capacity gi"
    "length (gi_outbound gi') \<le> length (gi_outbound gi)"
proof -
  obtain t1 pool1 io1 s1 frames1 r1 where
    fl: "flush_frames write_fn t pool (gi_io gi) (gi_session gi) (gi_outbound gi) = (t1, pool1, io1, s1, frames1, r1)"
    by (metis prod_cases6)
  have ok: "r1 = Ok ()" and gi': "gi_session gi' = s1" "gi_outbound gi' = frames1" "gi_outbound_capacity gi' = gi_outbound_capacity gi"
    using assms(1) fl by (auto simp: flush_outbound_def Let_def split: if_splits prod.splits result.splits drive_apply.splits)
  show "out_ok (gi_session gi') (gi_outbound gi') accepted" "coming (gi_session gi') = coming (gi_session gi)"
    "gi_outbound_capacity gi' = gi_outbound_capacity gi"
    using flush_frames_session [OF fl [unfolded ok] assms(2)] gi' by simp_all
  show "length (gi_outbound gi') \<le> length (gi_outbound gi)" using flush_frames_shorter [OF fl] gi' by simp
qed

lemma out_ok_read: "read_fn frame s = Some (s', v, status) \<Longrightarrow> out_ok s' frames accepted = out_ok s frames accepted"
  using read_writes by (auto simp: out_ok_def owed_def)

lemma read_status_step:
  assumes "coming s frames"
  shows "\<exists>s' v st. read_status read_fn frame s = Some (s', v, Ok st) \<and>
      (st = StatusFrame \<and> frames \<noteq> [] \<and> vec_data v = hd frames \<and> coming s' (tl frames) \<or>
       st = StatusBlocked \<and> coming s' frames) \<and> (\<forall>queued accepted. out_ok s' queued accepted = out_ok s queued accepted)"
  using read_step [OF assms, of frame] out_ok_read by (fastforce simp: read_status_def)

lemma read_guest_frame_session:
  assumes "coming s frames"
  obtains t' pool' s' r where "read_guest_frame (read_status read_fn) t pool s = Some (t', pool', s', Ok r)"
    "\<And>queued accepted. out_ok s' queued accepted = out_ok s queued accepted"
    "case r of GuestFrame v \<Rightarrow> frames \<noteq> [] \<and> vec_data v = hd frames \<and> coming s' (tl frames)
     | GuestClosed \<Rightarrow> False | _ \<Rightarrow> coming s' frames"
proof -
  obtain t' pool' s' r where call: "read_guest_frame (read_status read_fn) t pool s = Some (t', pool', s', r)"
    using read_guest_frame_total [of "read_status read_fn" s t pool] read_status_step [OF assms] by fast
  from call show ?thesis
  proof (cases rule: read_guest_frame_cases)
    case refused
    then show ?thesis using that [OF call [unfolded refused]] assms by simp
  next
    case (called t2 pool2 frame v st)
    then obtain st1 where st1: "st = Ok st1" using read_status_step [OF assms, of frame] by auto
    show ?thesis
      using called(5,6) st1 read_status_step [OF assms, of frame] call
      by (cases st1) (auto simp: read_answer_def intro!: that)
  qed
qed

text \<open>Reading as long as the session has frames: it never panics or fails, and what it delivers comes next.\<close>

lemma drain_session:
  assumes "coming (gi_session gi) rest" "out_ok (gi_session gi) (gi_outbound gi) accepted"
  shows "\<exists>t' pool' gi' events' rest'. drain_ready_reads read_fn t pool gi events = Some (t', pool', gi', events', Ok ()) \<and>
    coming (gi_session gi') rest' \<and> event_frames events' @ rest' = event_frames events @ rest \<and>
    out_ok (gi_session gi') (gi_outbound gi') accepted \<and> gi_outbound gi' = gi_outbound gi \<and>
    gi_outbound_capacity gi' = gi_outbound_capacity gi"
  using assms
proof (induction "db_steps (dt_budget t)" arbitrary: t pool gi events rest rule: less_induct)
  case less
  show ?case
  proof (cases "io_can_read (gi_io gi)")
    case False
    then show ?thesis using less.prems by (auto simp: drain_ready_reads.simps [of read_fn t])
  next
    case True
    obtain t1 pool1 s1 r where
      call: "read_guest_frame (read_status read_fn) t pool (gi_session gi) = Some (t1, pool1, s1, Ok r)"
      and keep: "\<And>queued accepted. out_ok s1 queued accepted = out_ok (gi_session gi) queued accepted"
      and r: "case r of GuestFrame v \<Rightarrow> rest \<noteq> [] \<and> vec_data v = hd rest \<and> coming s1 (tl rest)
        | GuestClosed \<Rightarrow> False | _ \<Rightarrow> coming s1 rest"
      using read_guest_frame_session [OF less.prems(1), of t pool] by blast
    show ?thesis
    proof (cases r)
      case (GuestFrame v)
      let ?gi = "gi\<lparr> gi_session := s1 \<rparr>" and ?events = "events @ [FrameEvent (gi_generation gi) v]"
      have "drain_ready_reads read_fn t pool gi events = drain_ready_reads read_fn t1 pool1 ?gi ?events"
        using True call GuestFrame by (simp add: drain_ready_reads.simps [of read_fn t] Let_def)
      then show ?thesis
        using less.hyps [OF read_guest_frame_steps [OF call [unfolded GuestFrame]], of ?gi "tl rest" pool1 ?events]
          r keep less.prems(2) GuestFrame by simp
    qed (use True call r keep less.prems(2) in \<open>auto simp: drain_ready_reads.simps [of read_fn t] Let_def\<close>)
  qed
qed

definition sys_ok :: "bytes list \<Rightarrow> ('s, 'k, 'e) guest_sys \<Rightarrow> bool" where
  "sys_ok arriving g \<longleftrightarrow> out_ok (gi_session (gs_io g)) (gi_outbound (gs_io g)) (gs_accepted g) \<and>
     (\<exists>rest. coming (gi_session (gs_io g)) rest \<and> event_frames (gs_events g) @ rest = arriving) \<and>
     length (gi_outbound (gs_io g)) \<le> gi_outbound_capacity (gs_io g)"

definition call_ok :: "guest_call \<Rightarrow> bool" where
  "call_ok call \<longleftrightarrow> (case call of Enqueue v \<Rightarrow> vec_data v \<noteq> [] | _ \<Rightarrow> True)"

lemma out_ok_enqueue:
  "out_ok s frames accepted \<Longrightarrow> vec_data v \<noteq> [] \<Longrightarrow> out_ok s (frames @ [v]) (accepted @ [vec_data v])"
  by (cases frames) (auto simp: out_ok_def owed_def)

lemma guest_step_session:
  assumes ok: "sys_ok arriving g" and call: "call_ok call"
  shows "\<exists>t' g' r. guest_step read_fn write_fn reregister t call g = Some (t', g', r) \<and> (r = Ok () \<longrightarrow> sys_ok arriving g')"
proof (cases call)
  case (Enqueue v)
  then show ?thesis using ok call out_ok_enqueue [of "gi_session (gs_io g)" "gi_outbound (gs_io g)" "gs_accepted g" v]
    by (auto simp: guest_step_def guest_enqueue_def enqueue_guest_frame_def sys_ok_def call_ok_def Let_def
        split: prod.splits result.splits drive_guest_frame_enqueue.splits if_splits guest_frame_enqueue.splits)
next
  case Flush
  obtain t' k' pool' gi' r where fl: "flush_outbound write_fn reregister t (gs_reactor g) (gs_pool g) (gs_io g) = (t', k', pool', gi', r)"
    by (metis prod_cases5)
  show ?thesis
  proof (cases r)
    case (Ok u)
    then show ?thesis using Flush fl ok flush_outbound_session [of reregister t "gs_reactor g" "gs_pool g" "gs_io g" t' k' pool' gi' "gs_accepted g"]
      by (auto simp: guest_step_def sys_ok_def)
  qed (use Flush fl in \<open>simp add: guest_step_def\<close>)
next
  case (Ready readiness)
  obtain io ready where mark: "mark_guest_ready readiness (gi_io (gs_io g)) False = (io, ready)" by fastforce
  let ?gi = "(gs_io g)\<lparr> gi_io := io \<rparr>"
  obtain t1 k1 pool1 gi1 r where fl: "flush_outbound write_fn reregister t (gs_reactor g) (gs_pool g) ?gi = (t1, k1, pool1, gi1, r)"
    by (metis prod_cases5)
  show ?thesis
  proof (cases "ready \<and> r = Ok ()")
    case False
    then show ?thesis using Ready mark fl ok
      by (cases r) (auto simp: guest_step_def guest_drive_ready_def sys_ok_def Let_def)
  next
    case True
    from ok obtain rest where rest: "coming (gi_session (gs_io g)) rest" "event_frames (gs_events g) @ rest = arriving"
      and out: "out_ok (gi_session ?gi) (gi_outbound ?gi) (gs_accepted g)"
      and len: "length (gi_outbound (gs_io g)) \<le> gi_outbound_capacity (gs_io g)"
      by (auto simp: sys_ok_def)
    note flushed = flush_outbound_session [OF fl [unfolded conjunct2 [OF True]] out]
    have "coming (gi_session gi1) rest" using flushed(2) rest(1) by simp
    from drain_session [OF this flushed(1), of t1 pool1 "gs_events g"] show ?thesis
      using Ready mark fl True flushed(3,4) rest(2) len
      by (auto simp: guest_step_def guest_drive_ready_def sys_ok_def Let_def)
  qed
qed

lemma guest_run_session:
  assumes "sys_ok arriving g" "\<forall>(t, call)\<in>set calls. call_ok call"
  shows "\<exists>g' r. guest_run read_fn write_fn reregister calls g = Some (g', r) \<and> (r = Ok () \<longrightarrow> sys_ok arriving g')"
  using assms
proof (induction calls arbitrary: g)
  case (Cons c calls)
  obtain t call where c: "c = (t, call)" by fastforce
  from Cons.prems c have "call_ok call" by simp
  from guest_step_session [OF Cons.prems(1) this, of reregister t] obtain t' g1 r1 where
    step: "guest_step read_fn write_fn reregister t call g = Some (t', g1, r1)" "r1 = Ok () \<longrightarrow> sys_ok arriving g1" by auto
  show ?case
  proof (cases r1)
    case (Ok u)
    then show ?thesis using step c Cons.IH [of g1] Cons.prems(2) by simp
  qed (use step c in simp)
qed auto

end

section \<open>The session of the program\<close>

lemma sock_read_out: "sock_read cap s = (s', r) \<Longrightarrow> so_out s' = so_out s"
  by (auto simp: sock_read_def split: list.splits read_event.splits)

lemma sock_write_in: "sock_write xs s = (s', r) \<Longrightarrow> so_in s' = so_in s"
  by (auto simp: sock_write_def split: list.splits write_event.splits)

lemma fill_out: "so_out (fst (fill s buf n)) = so_out s"
proof (induction s buf n rule: fill.induct)
  case (1 s buf n)
  obtain s1 r where rd: "sock_read (length buf - n) s = (s1, r)" by fastforce
  show ?case
  proof (cases "n < length buf")
    case True
    show ?thesis
    proof (cases r)
      case (Ok xs)
      then show ?thesis using 1 [OF True rd [symmetric] Ok] True rd sock_read_out [OF rd]
        by (cases xs) (simp_all add: fill.simps [of s buf n])
    next
      case (Err e)
      then show ?thesis using True rd sock_read_out [OF rd] by (cases e) (simp_all add: fill.simps [of s buf n])
    qed
  qed (simp add: fill.simps [of s buf n])
qed

definition same_writer :: "frame_stream \<Rightarrow> frame_stream \<Rightarrow> bool" where
  "same_writer st st' \<longleftrightarrow> so_out (fs_stream st') = so_out (fs_stream st) \<and> fs_pending_write st' = fs_pending_write st \<and>
     fs_pending_write_offset st' = fs_pending_write_offset st"

lemma read_payload_writer: "same_writer st (fst (read_payload st frame))"
  using fill_out [of "fs_stream st" "fs_read_payload st" "fs_read_payload_len st"]
  by (auto simp: read_payload_def same_writer_def Let_def split: prod.splits fill_outcome.splits)

lemma try_read_frame_writer:
  assumes "try_read_frame_into st frame = Some (st', frame', r)"
  shows "same_writer st st'"
proof -
  obtain s1 prefix n out1 where f: "fill (fs_stream st) (fs_read_prefix st) (fs_read_prefix_len st) = (s1, prefix, n, out1)"
    using prod_cases4 by blast
  let ?st = "st\<lparr> fs_stream := s1, fs_read_prefix := prefix, fs_read_prefix_len := n \<rparr>"
  have "same_writer st ?st" using fill_out [of "fs_stream st" "fs_read_prefix st" "fs_read_prefix_len st"] f
    by (simp add: same_writer_def)
  moreover have "same_writer ?st st'"
    using assms f read_payload_writer [of ?st frame]
      read_payload_writer [of "?st\<lparr> fs_read_payload := replicate _ 0, fs_read_payload_len := 0 \<rparr>" frame]
    by (auto simp: try_read_frame_into_def same_writer_def Let_def
        split: fill_outcome.splits bind_splits result.splits if_splits) (metis fst_conv)+
  ultimately show ?thesis by (simp add: same_writer_def)
qed

definition same_reader :: "frame_stream \<Rightarrow> frame_stream \<Rightarrow> bool" where
  "same_reader st st' \<longleftrightarrow> so_in (fs_stream st') = so_in (fs_stream st) \<and> fs_read_prefix st' = fs_read_prefix st \<and>
     fs_read_prefix_len st' = fs_read_prefix_len st \<and> fs_read_payload st' = fs_read_payload st \<and>
     fs_read_payload_len st' = fs_read_payload_len st"

lemma same_reader_trans: "same_reader a b \<Longrightarrow> same_reader b c \<Longrightarrow> same_reader a c"
  by (simp add: same_reader_def)

lemma sock_write_reader:
  "sock_write xs (fs_stream st) = (s, r) \<Longrightarrow> same_reader st (st\<lparr> fs_stream := s \<rparr>)"
  using sock_write_in by (auto simp: same_reader_def)

lemma extend_pending_reader [simp]: "same_reader st (extend_pending xs st') \<longleftrightarrow> same_reader st st'"
  by (simp add: same_reader_def extend_pending_def)

lemma flush_pending_reader: "same_reader st (fst (flush_pending_write st))"
proof (induction st rule: flush_pending_write.induct)
  case (1 st)
  let ?xs = "drop (fs_pending_write_offset st) (fs_pending_write st)"
  obtain s r where w: "sock_write ?xs (fs_stream st) = (s, r)" by fastforce
  note same = sock_write_in [OF w]
  show ?case
  proof (cases "fs_pending_write_offset st < length (fs_pending_write st)")
    case True
    show ?thesis
    proof (cases r)
      case (Ok n)
      then show ?thesis using 1 [OF True w [symmetric] Ok] True w same
        by (auto simp: flush_pending_write.simps [of st] same_reader_def)
    next
      case (Err e)
      then show ?thesis using True w same by (cases e) (simp_all add: flush_pending_write.simps [of st] same_reader_def)
    qed
  qed (simp add: flush_pending_write.simps [of st] same_reader_def)
qed

lemma flush_extended_reader:
  "same_reader st st' \<Longrightarrow> same_reader st (fst (flush_pending_write (extend_pending xs st')))"
  using same_reader_trans [of st "extend_pending xs st'"] flush_pending_reader by simp

lemma write_payload_reader: "same_reader st (fst (write_payload st frame))"
proof -
  obtain s r where w: "sock_write frame (fs_stream st) = (s, r)" by fastforce
  note same = sock_write_reader [OF w]
  have "same_reader st (fst (flush_pending_write (extend_pending xs (st\<lparr> fs_stream := s \<rparr>))))" for xs
    using same by (rule flush_extended_reader)
  then show ?thesis using w same by (auto simp: write_payload_def Let_def split: result.splits io_error.splits)
qed

lemma try_write_frame_reader: "same_reader st (fst (try_write_frame st frame))"
proof (cases "fs_pending_write st = [] \<and> (\<exists>len. checked_outgoing_frame_len frame = Ok len)")
  case False
  then show ?thesis using flush_pending_reader [of st]
    by (auto simp: try_write_frame_def same_reader_def split: result.splits)
next
  case True
  then obtain len where len: "checked_outgoing_frame_len frame = Ok len" and idle: "fs_pending_write st = []" by auto
  obtain s r where w: "sock_write (be32_bytes len) (fs_stream st) = (s, r)" by fastforce
  let ?st = "st\<lparr> fs_stream := s \<rparr>"
  note same = sock_write_reader [OF w]
  have "same_reader st (fst (flush_pending_write (extend_pending xs (extend_pending ys ?st))))"
    "same_reader st (fst (write_payload ?st frame))" for xs ys
    using same flush_extended_reader [of st "extend_pending ys ?st" xs]
      same_reader_trans [OF same write_payload_reader [of ?st frame]] by simp_all
  then show ?thesis using len idle w same
    by (auto simp: try_write_frame_def Let_def split: result.splits io_error.splits)
qed

lemma same_reader_ok: "same_reader st st' \<Longrightarrow> read_ok st' = read_ok st"
  by (auto simp: same_reader_def read_ok_def held_def fun_eq_iff)

definition frames_coming :: "frame_stream \<Rightarrow> bytes list \<Rightarrow> bool" where
  "frames_coming st frames \<longleftrightarrow> read_ok st frames \<and> (\<forall>f\<in>set frames. length f \<le> 65535)"

interpretation qemu: frame_session fs_read_frame_into fs_write_frame encoded "\<lambda>st. so_out (fs_stream st)" in_hand write_ok frames_coming
proof
  fix s s' f and r :: frame_write
  assume "write_ok s" "f \<noteq> []" "fs_write_frame f s = (s', Ok r)"
  then show "so_out (fs_stream s') @ in_hand s' = so_out (fs_stream s) @ (if in_hand s = [] then encoded f else in_hand s) \<and>
      write_ok s' \<and> (in_hand s' = [] \<longleftrightarrow> r = SessionFlushed)"
    using try_write_frame_sends [of s f]
    by (auto simp: fs_write_frame_def split: prod.splits result.splits guest_frame_write.splits)
next
  fix s s' f and r :: "(frame_write, stream_error transport_error) result"
  assume "fs_write_frame f s = (s', r)"
  then have "s' = fst (try_write_frame s f)"
    by (auto simp: fs_write_frame_def split: prod.splits result.splits guest_frame_write.splits)
  then show "frames_coming s' = frames_coming s"
    using same_reader_ok [OF try_write_frame_reader [of s f]] by (simp add: frames_coming_def fun_eq_iff)
next
  fix s frames frame
  assume "frames_coming s frames"
  then show "\<exists>s' v r. fs_read_frame_into frame s = Some (s', v, Ok r) \<and>
      (r = SessionFrame \<and> frames \<noteq> [] \<and> vec_data v = hd frames \<and> frames_coming s' (tl frames) \<or>
       r = SessionReadBlocked \<and> frames_coming s' frames)"
    using try_read_frame_idle [of s "vec_data frame"] try_read_frame_step [of s "hd frames" "tl frames" "vec_data frame"]
    by (cases frames) (auto simp: fs_read_frame_into_def frames_coming_def buf_extend_from_slice_def vec_set_def Let_def)
next
  fix s s' frame v and status :: "(frame_read, stream_error transport_error) result"
  assume "fs_read_frame_into frame s = Some (s', v, status)"
  then obtain bytes r where "try_read_frame_into s (vec_data frame) = Some (s', bytes, r)"
    by (auto simp: fs_read_frame_into_def split: bind_splits result.splits guest_frame_read.splits)
  from try_read_frame_writer [OF this]
  show "so_out (fs_stream s') = so_out (fs_stream s) \<and> in_hand s' = in_hand s \<and> write_ok s' = write_ok s"
    by (simp add: same_writer_def in_hand_def write_ok_def)
qed

section \<open>Frames through the guest's session\<close>

text \<open>The bytes still owed for the frames in the queue, the first of which may be half sent.\<close>

definition guest_owed :: "frame_stream guest_io \<Rightarrow> bytes" where
  "guest_owed gi = (if in_hand (gi_session gi) = [] then concat (map (encoded \<circ> vec_data) (gi_outbound gi))
     else in_hand (gi_session gi) @ concat (map (encoded \<circ> vec_data) (tl (gi_outbound gi))))"

definition nonempty_call :: "guest_call \<Rightarrow> bool" where
  "nonempty_call call = (case call of Enqueue v \<Rightarrow> vec_data v \<noteq> [] | _ \<Rightarrow> True)"

definition guest_sys_new :: "frame_stream guest_io \<Rightarrow> 'k \<Rightarrow> pool \<Rightarrow> (frame_stream, 'k, stream_error transport_error) guest_sys" where
  "guest_sys_new gi k pool = \<lparr> gs_io = gi, gs_reactor = k, gs_pool = pool, gs_events = [], gs_accepted = [] \<rparr>"

text \<open>
  Claim C34.  Over any sequence of turns on a fresh QEMU session, with any budgets, reactor answers and
  readiness, short or blocked writes, and reads cut anywhere: no call panics, and unless a call
  failed, the bytes on the wire followed by the bytes still owed are exactly the accepted frames
  in order, each once, the queue is within its capacity, and the frames delivered as events are
  the first of the frames that arrive, unchanged and in order.
\<close>

theorem guest_frames_in_order:
  assumes "guest_register registered (stream_connect s) generation pool = Ok gi"
    and "clean (so_in s)" "incoming (so_in s) = concat (map encoded frames)" "so_out s = []"
    and "\<forall>f\<in>set frames. length f \<le> 65535" "\<forall>(t, call)\<in>set calls. nonempty_call call"
  shows "\<exists>g r. guest_run fs_read_frame_into fs_write_frame reregister calls (guest_sys_new gi k pool) = Some (g, r) \<and>
    (r = Ok () \<longrightarrow>
      so_out (fs_stream (gi_session (gs_io g))) @ guest_owed (gs_io g) = concat (map encoded (gs_accepted g)) \<and>
      length (gi_outbound (gs_io g)) \<le> gi_outbound_capacity (gs_io g) \<and>
      (\<exists>rest. event_frames (gs_events g) @ rest = frames))"
proof -
  have gi: "gi_session gi = stream_connect s" "gi_outbound gi = []"
    using assms(1) by (auto simp: guest_register_def split: result.splits)
  have "qemu.sys_ok frames (guest_sys_new gi k pool)"
    using assms(2-5) gi by (simp add: qemu.sys_ok_def qemu.out_ok_def qemu.owed_def guest_sys_new_def frames_coming_def
        read_ok_def held_def write_ok_def in_hand_def stream_connect_def FRAME_LENGTH_BYTES_def)
  moreover have "\<forall>(t, call)\<in>set calls. qemu.call_ok call"
    using assms(6) by (simp add: qemu.call_ok_def nonempty_call_def)
  ultimately obtain g r where "guest_run fs_read_frame_into fs_write_frame reregister calls (guest_sys_new gi k pool) = Some (g, r)"
      "r = Ok () \<longrightarrow> qemu.sys_ok frames g"
    using qemu.guest_run_session by blast
  then show ?thesis by (auto simp: qemu.sys_ok_def qemu.out_ok_def qemu.owed_def guest_owed_def)
qed

text \<open>Two frames out through a writer that takes three bytes at first and blocks, one frame in.\<close>

definition demo_guest_pool :: pool where
  "demo_guest_pool = (pool_new small_limits)\<lparr> pl_frames := [vec_with_capacity 16, vec_with_capacity 16] \<rparr>"

definition demo_turn :: drive_turn where
  "demo_turn = turn_new (budget_event_loop small_limits) report_new"

definition demo_guest_calls :: "(drive_turn \<times> guest_call) list" where
  "demo_guest_calls = [(demo_turn, Enqueue \<lparr> vec_data = [7, 8], vec_cap = 16 \<rparr>), (demo_turn, Enqueue \<lparr> vec_data = [9], vec_cap = 16 \<rparr>),
     (demo_turn, Ready [Wake, ReadyIo Guest True True]), (demo_turn, Ready [ReadyIo Guest False True])]"

definition demo_guest_socket :: socket where
  "demo_guest_socket = \<lparr> so_in = [Chunk [0, 0], ReadBlock, Chunk [0, 1, 5]], so_room = [Accept 3, WriteBlock, Accept 9, Accept 4, Accept 9], so_out = [] \<rparr>"

definition demo_guest_io :: "frame_stream guest_io" where
  "demo_guest_io = \<lparr> gi_session = stream_connect demo_guest_socket, gi_generation = 1, gi_outbound = [],
     gi_outbound_capacity = frame_device_queue_capacity small_limits, gi_io = io_registered Readable \<rparr>"

theorem guest_frames_in_order_witness:
  "guest_register (Ok ()) (stream_connect demo_guest_socket) 1 demo_guest_pool = (Ok demo_guest_io :: (_, unit) result) \<and>
   clean (so_in demo_guest_socket) \<and> incoming (so_in demo_guest_socket) = concat (map encoded [[5]]) \<and>
   (\<exists>g r. guest_run fs_read_frame_into fs_write_frame (\<lambda>_ k. (k, Ok ())) demo_guest_calls
       (guest_sys_new demo_guest_io () demo_guest_pool) = Some (g, r) \<and>
     (r = Ok () \<longrightarrow>
       so_out (fs_stream (gi_session (gs_io g))) @ guest_owed (gs_io g) = concat (map encoded (gs_accepted g)) \<and>
       length (gi_outbound (gs_io g)) \<le> gi_outbound_capacity (gs_io g) \<and>
       (\<exists>rest. event_frames (gs_events g) @ rest = [[5]])))"
proof -
  have register: "guest_register (Ok ()) (stream_connect demo_guest_socket) 1 demo_guest_pool = (Ok demo_guest_io :: (_, unit) result)"
    by (simp add: guest_register_def demo_guest_io_def demo_guest_pool_def pool_new_def)
  have arriving: "clean (so_in demo_guest_socket)" "incoming (so_in demo_guest_socket) = concat (map encoded [[5]])"
      "so_out demo_guest_socket = []"
    by (simp_all add: demo_guest_socket_def clean_def incoming_def encoded_def be32_bytes_def)
  have "\<forall>f\<in>set [[5 :: u8]]. length f \<le> 65535" "\<forall>(t, call)\<in>set demo_guest_calls. nonempty_call call"
    by (simp_all add: demo_guest_calls_def nonempty_call_def)
  with guest_frames_in_order [OF register arriving, of demo_guest_calls "\<lambda>_ k. (k, Ok ())" "()"] register arriving
  show ?thesis by blast
qed

end
