(* ===== verification/DriveTurns.thy ===== *)
theory DriveTurns
  imports GuestIoSafety
begin

text \<open>
  A whole turn: any sequence of drive operations on an upstream stream, a datagram socket, the
  guest's TCP socket and the guest's session, sharing one budget and one report.
\<close>

section \<open>Frames a session can deliver\<close>

definition payload_ok :: "frame_stream \<Rightarrow> bool" where
  "payload_ok st \<longleftrightarrow> length (fs_read_payload st) \<le> 65535"

lemma fill_length: "length (fst (snd (fill s buf n))) = length buf"
proof (induction s buf n rule: fill.induct)
  case (1 s buf n)
  obtain s1 r where rd: "sock_read (length buf - n) s = (s1, r)" by fastforce
  show ?case
  proof (cases "n < length buf")
    case True
    show ?thesis
    proof (cases r)
      case (Ok xs)
      then have "n + length xs \<le> length buf" using sock_read_le [OF rd [unfolded Ok]] True by simp
      then show ?thesis using 1 [OF True rd [symmetric] Ok] True rd Ok length_overwrite [of n xs buf]
        by (cases xs) (simp_all add: fill.simps [of s buf n])
    next
      case (Err e)
      then show ?thesis using True rd by (cases e) (simp_all add: fill.simps [of s buf n])
    qed
  qed (simp add: fill.simps [of s buf n])
qed

lemma fill_never_frame: "snd (snd (snd (fill s buf n))) \<noteq> FillStopped (Ok FrameRead)"
proof (induction s buf n rule: fill.induct)
  case (1 s buf n)
  obtain s1 r where rd: "sock_read (length buf - n) s = (s1, r)" by fastforce
  show ?case
  proof (cases "n < length buf")
    case True
    show ?thesis
    proof (cases r)
      case (Ok xs)
      then show ?thesis using 1 [OF True rd [symmetric] Ok] True rd by (cases xs) (simp_all add: fill.simps [of s buf n])
    next
      case (Err e)
      then show ?thesis using True rd by (cases e) (simp_all add: fill.simps [of s buf n])
    qed
  qed (simp add: fill.simps [of s buf n])
qed

lemma read_payload_le:
  assumes "read_payload st frame = (st', frame', r)" "payload_ok st"
  shows "payload_ok st'" "r = Ok FrameRead \<Longrightarrow> length frame' \<le> 65535"
  using assms fill_length [of "fs_stream st" "fs_read_payload st" "fs_read_payload_len st"]
    fill_never_frame [of "fs_stream st" "fs_read_payload st" "fs_read_payload_len st"]
  by (auto simp: read_payload_def payload_ok_def Let_def split: prod.splits fill_outcome.splits)

lemma checked_incoming_le: "checked_incoming_frame_len xs = Some (Ok n) \<Longrightarrow> n \<le> 65535"
proof -
  assume "checked_incoming_frame_len xs = Some (Ok n)"
  then obtain len where "n = unat len" "len \<le> (65535 :: u32)"
    by (auto simp: checked_incoming_frame_len_def MAX_ETHERNET_FRAME_BYTES_def split: bind_splits if_splits)
  then show "n \<le> 65535" using word_le_nat_alt [of len 65535] by simp
qed

lemma read_frame_le:
  assumes "fs_read_frame_into frame st = Some (st', v, r)" "payload_ok st"
  shows "payload_ok st' \<and> (r = Ok SessionFrame \<longrightarrow> length (vec_data v) \<le> 65535)"
proof -
  obtain bs r1 where rd: "try_read_frame_into st (vec_data frame) = Some (st', bs, r1)"
      and v: "r = Ok SessionFrame \<longrightarrow> r1 = Ok FrameRead \<and> vec_data v = bs"
    using assms(1)
    by (auto simp: fs_read_frame_into_def buf_extend_from_slice_def vec_set_def Let_def
        split: bind_splits result.splits guest_frame_read.splits)
  obtain s1 prefix n out1 where f: "fill (fs_stream st) (fs_read_prefix st) (fs_read_prefix_len st) = (s1, prefix, n, out1)"
    using prod_cases4 by blast
  let ?st = "st\<lparr> fs_stream := s1, fs_read_prefix := prefix, fs_read_prefix_len := n \<rparr>"
  consider "out1 \<noteq> Filled" "payload_ok st'" "r1 \<noteq> Ok FrameRead"
    | st1 where "payload_ok st1" "read_payload st1 (vec_data frame) = (st', bs, r1)"
    | "payload_ok st'" "\<exists>e. r1 = Err e"
  proof (cases out1)
    case Filled
    then show ?thesis using rd f that(2) [of ?st] that(2) [of "?st\<lparr> fs_read_payload := replicate _ 0, fs_read_payload_len := 0 \<rparr>"]
        that(3) assms(2)
      by (auto simp: try_read_frame_into_def payload_ok_def Let_def dest: checked_incoming_le split: if_splits bind_splits result.splits)
  next
    case (FillStopped r2)
    then show ?thesis using rd f that(1) assms(2) fill_never_frame [of "fs_stream st" "fs_read_prefix st" "fs_read_prefix_len st"]
      by (auto simp: try_read_frame_into_def payload_ok_def Let_def)
  qed
  then show ?thesis using v by cases (auto dest: read_payload_le)
qed

section \<open>The guest within a turn\<close>

lemma state_change_spends: "try_apply_state_change f t1 s = (t', s', r) \<Longrightarrow> spends m t t1 \<Longrightarrow> spends m t t'"
  using step_spends(1) [of t1 _ _ m] spends_trans [of m t t1]
  by (auto simp: try_apply_state_change_def split: if_splits prod.splits result.splits)

lemma flush_frames_spends:
  "flush_frames write_fn t pool io s frames = (t', pool', io', s', frames', r) \<Longrightarrow> spends m t t'"
proof (induction frames arbitrary: t pool io s)
  case (Cons frame frames)
  let ?w = "\<lambda>s. case write_fn (vec_data frame) s of (s, Ok w) \<Rightarrow> (s, Ok (w = SessionFlushed)) | (s, Err e) \<Rightarrow> (s, Err e)"
  obtain t1 s1 r1 where call: "write_guest_frame ?w t (length (vec_data frame)) s = (t1, s1, r1)" using prod_cases3 by blast
  note sp = write_guest_frame_spends [OF call, of m]
  show ?case using Cons.prems call sp Cons.IH [of t1 "frame_buf_drop pool frame" io s1]
    by (auto split: if_splits result.splits drive_guest_frame_write.splits intro: spends_trans)
qed auto

lemma flush_outbound_spends:
  "flush_outbound write_fn reregister t k pool gi = (t', k', pool', gi', r) \<Longrightarrow> spends m t t'"
  using flush_frames_spends [of write_fn t pool "gi_io gi" "gi_session gi" "gi_outbound gi" _ _ _ _ _ _ m]
  by (auto simp: flush_outbound_def Let_def split: if_splits prod.splits result.splits drive_apply.splits dest: state_change_spends)

lemma flush_frames_reader:
  "flush_frames fs_write_frame t pool io s frames = (t', pool', io', s', frames', r) \<Longrightarrow> payload_ok s \<Longrightarrow> payload_ok s'"
proof (induction frames arbitrary: t pool io s)
  case (Cons frame frames)
  let ?w = "\<lambda>s. case fs_write_frame (vec_data frame) s of (s, Ok w) \<Rightarrow> (s, Ok (w = SessionFlushed)) | (s, Err e) \<Rightarrow> (s, Err e)"
  obtain t1 s1 r1 where call: "write_guest_frame ?w t (length (vec_data frame)) s = (t1, s1, r1)" using prod_cases3 by blast
  have w: "fst (?w s) = fst (try_write_frame s (vec_data frame))"
    by (auto simp: fs_write_frame_def split: prod.splits result.splits guest_frame_write.splits)
  have "s1 = s \<or> s1 = fst (?w s)"
    using call by (cases rule: write_guest_frame_cases) auto
  then have "payload_ok s1" using Cons.prems(2) try_write_frame_reader [of s "vec_data frame"] w
    by (auto simp: payload_ok_def same_reader_def)
  then show ?case using Cons.prems call Cons.IH [of t1 "frame_buf_drop pool frame" io s1]
    by (auto split: if_splits result.splits drive_guest_frame_write.splits)
qed auto

lemma flush_outbound_reader:
  "flush_outbound fs_write_frame reregister t k pool gi = (t', k', pool', gi', r) \<Longrightarrow> payload_ok (gi_session gi) \<Longrightarrow> payload_ok (gi_session gi')"
  using flush_frames_reader [of t pool "gi_io gi" "gi_session gi" "gi_outbound gi"]
  by (auto simp: flush_outbound_def Let_def split: if_splits prod.splits result.splits drive_apply.splits)

lemma drain_spends:
  "drain_ready_reads fs_read_frame_into t pool gi events = Some (t', pool', gi', events', r) \<Longrightarrow> payload_ok (gi_session gi) \<Longrightarrow>
   spends 65535 t t' \<and> payload_ok (gi_session gi')"
proof (induction "db_steps (dt_budget t)" arbitrary: t pool gi events rule: less_induct)
  case less
  show ?case
  proof (cases "io_can_read (gi_io gi)")
    case False
    then show ?thesis using less.prems by (simp add: drain_ready_reads.simps [of _ t])
  next
    case True
    then obtain t1 pool1 s1 r1 where
      call: "read_guest_frame (read_status fs_read_frame_into) t pool (gi_session gi) = Some (t1, pool1, s1, r1)"
      using less.prems(1) by (auto simp: drain_ready_reads.simps [of _ t] split: option.splits)
    have short: "length (vec_data v) \<le> 65535" "payload_ok s2"
      if "read_status fs_read_frame_into frame (gi_session gi) = Some (s2, v, Ok StatusFrame)" for frame v s2
      using that less.prems(2) by (auto simp: read_status_def dest: read_frame_le split: bind_splits result.splits frame_read.splits)
    have kept: "payload_ok s2" if "read_status fs_read_frame_into frame (gi_session gi) = Some (s2, v, st)" for frame v s2 st
      using that less.prems(2) by (auto simp: read_status_def dest: read_frame_le split: bind_splits)
    from call have ok: "payload_ok s1" by (cases rule: read_guest_frame_cases) (use less.prems(2) kept in auto)
    have sp: "spends 65535 t t1" using read_guest_frame_spends [OF call] short(1) by blast
    show ?thesis
    proof (cases "\<exists>v. r1 = Ok (GuestFrame v)")
      case False
      then show ?thesis using less.prems(1) True call sp ok
        by (auto simp: drain_ready_reads.simps [of _ t] Let_def split: result.splits drive_guest_frame_read.splits)
    next
      case True
      then obtain v where v: "r1 = Ok (GuestFrame v)" by auto
      have "drain_ready_reads fs_read_frame_into t1 pool1 (gi\<lparr> gi_session := s1 \<rparr>)
          (events @ [FrameEvent (gi_generation gi) v]) = Some (t', pool', gi', events', r)"
        using less.prems(1) \<open>io_can_read (gi_io gi)\<close> call v by (simp add: drain_ready_reads.simps [of _ t] Let_def)
      then show ?thesis
        using less.hyps [OF read_guest_frame_steps [OF call [unfolded v]]] ok sp by (auto intro: spends_trans)
    qed
  qed
qed

lemma guest_step_spends:
  assumes "guest_step fs_read_frame_into fs_write_frame reregister t call g = Some (t', g', r)"
    and ok: "payload_ok (gi_session (gs_io g))"
  shows "spends (case call of Ready _ \<Rightarrow> 65535 | _ \<Rightarrow> 0) t t' \<and> payload_ok (gi_session (gs_io g'))"
proof (cases call)
  case (Enqueue v)
  then show ?thesis using assms enqueue_guest_frame_spends [of t _ _ _ _ _ 0]
    by (auto simp: guest_step_def guest_enqueue_def Let_def split: prod.splits drive_guest_frame_enqueue.splits result.splits)
next
  case Flush
  then show ?thesis using assms flush_outbound_spends [of fs_write_frame reregister t _ _ _ _ _ _ _ _ 0] flush_outbound_reader
    by (fastforce simp: guest_step_def split: prod.splits)
next
  case (Ready readiness)
  obtain io ready where mark: "mark_guest_ready readiness (gi_io (gs_io g)) False = (io, ready)" by fastforce
  let ?gi = "(gs_io g)\<lparr> gi_io := io \<rparr>"
  obtain t1 k1 pool1 gi1 r1 where fl: "flush_outbound fs_write_frame reregister t (gs_reactor g) (gs_pool g) ?gi = (t1, k1, pool1, gi1, r1)"
    by (metis prod_cases5)
  have "payload_ok (gi_session gi1)" using flush_outbound_reader [OF fl] ok by simp
  then show ?thesis using assms Ready mark fl flush_outbound_spends [OF fl, of 65535] drain_spends [of t1 pool1 gi1 "gs_events g"]
    by (cases r1; cases ready) (auto simp: guest_step_def guest_drive_ready_def Let_def split: bind_splits intro: spends_trans)
qed

section \<open>A turn over everything\<close>

text \<open>
  A relay: bytes read upstream are queued for the guest's TCP socket and bytes received there are
  queued upstream; datagrams are received and dropped, or sent; frames go through the guest's
  session.  A call gives the amounts its caller chooses.
\<close>

record 'k drive_sys =
  ds_turn :: drive_turn
  ds_stream :: socket
  ds_stream_io :: io_slot
  ds_to_stream :: write_queue
  ds_tcp :: socket
  ds_to_tcp :: write_queue
  ds_udp :: socket
  ds_udp_io :: io_slot
  ds_proto :: byte_buf
  ds_proto_offset :: nat
  ds_guest :: "(frame_stream, 'k, stream_error transport_error) guest_sys"

datatype drive_call =
  ReadStream
| WriteStream
| RecvTcp
| SendTcp
| RecvDatagram nat
| SendDatagram bytes
| QueueProtocolOutput nat
| OnGuest guest_call
| EmitEvent
| StateChange
| MarkReady bool bool

definition ds_pool :: "'k drive_sys \<Rightarrow> pool" where
  "ds_pool d = gs_pool (ds_guest d)"

definition ds_set_pool :: "pool \<Rightarrow> 'k drive_sys \<Rightarrow> 'k drive_sys" where
  "ds_set_pool p d = d\<lparr> ds_guest := (ds_guest d)\<lparr> gs_pool := p \<rparr> \<rparr>"

definition sock_recv :: "nat \<Rightarrow> socket \<Rightarrow> socket \<times> (bytes \<times> unit, io_error) result" where
  "sock_recv cap s = (case sock_read cap s of (s, Ok xs) \<Rightarrow> (s, Ok (xs, ())) | (s, Err e) \<Rightarrow> (s, Err e))"

fun drive_call_step :: "(bool \<Rightarrow> 'k \<Rightarrow> 'k \<times> (unit, stream_error transport_error) result) \<Rightarrow> drive_call \<Rightarrow> 'k drive_sys \<Rightarrow> 'k drive_sys option" where
  "drive_call_step reregister ReadStream d =
     read_stream_ready sock_read (ds_turn d) (ds_stream_io d) (ds_pool d) (ds_stream d) \<bind> (\<lambda>(t, io, pool, s, r).
       let d = ds_set_pool pool d\<lparr> ds_turn := t, ds_stream_io := io, ds_stream := s \<rparr> in
       Some (case r of Ok (StreamBytes b) \<Rightarrow> d\<lparr> ds_to_tcp := wq_push (ds_to_tcp d) b \<rparr> | _ \<Rightarrow> d))"
| "drive_call_step reregister WriteStream d =
     (case write_stream_queue_ready sock_write (ds_turn d) (ds_stream_io d) (ds_to_stream d) (ds_stream d) of
        (t, io, queue, s, r) \<Rightarrow> Some (d\<lparr> ds_turn := t, ds_stream_io := io, ds_to_stream := queue, ds_stream := s \<rparr>))"
| "drive_call_step reregister RecvTcp d =
     recv_smoltcp_tcp (\<lambda>s. so_in s \<noteq> []) sock_read (ds_turn d) (ds_pool d) (ds_tcp d) \<bind> (\<lambda>(t, pool, s, r).
       let d = ds_set_pool pool d\<lparr> ds_turn := t, ds_tcp := s \<rparr> in
       Some (case r of TcpBytes b \<Rightarrow> d\<lparr> ds_to_stream := wq_push (ds_to_stream d) b \<rparr> | _ \<Rightarrow> d))"
| "drive_call_step reregister SendTcp d =
     (case send_smoltcp_tcp_queue (\<lambda>s. so_room s \<noteq> []) sock_write (ds_turn d) (ds_to_tcp d) (ds_tcp d) of
        (t, queue, s) \<Rightarrow> Some (d\<lparr> ds_turn := t, ds_to_tcp := queue, ds_tcp := s \<rparr>))"
| "drive_call_step reregister (RecvDatagram cap) d =
     recv_datagram_ready sock_recv (ds_turn d) (ds_udp_io d) (ds_pool d) (ds_udp d) cap \<bind> (\<lambda>(t, io, pool, s, r).
       (case r of Ok (DatagramBytes b _) \<Rightarrow> byte_buf_drop pool b | _ \<Rightarrow> Some pool) \<bind> (\<lambda>pool.
         Some (ds_set_pool pool d\<lparr> ds_turn := t, ds_udp_io := io, ds_udp := s \<rparr>)))"
| "drive_call_step reregister (SendDatagram xs) d =
     (case send_datagram_ready sock_write (ds_turn d) (ds_udp_io d) (ds_udp d) xs of
        (t, io, s, r) \<Rightarrow> Some (d\<lparr> ds_turn := t, ds_udp_io := io, ds_udp := s \<rparr>))"
| "drive_call_step reregister (QueueProtocolOutput max_len) d =
     queue_protocol_output (ds_turn d) (ds_to_stream d) (ds_proto d) (ds_proto_offset d) (ds_pool d) max_len \<bind>
       (\<lambda>(t, queue, proto, offset, pool, r).
         Some (ds_set_pool pool d\<lparr> ds_turn := t, ds_to_stream := queue, ds_proto := proto, ds_proto_offset := offset \<rparr>))"
| "drive_call_step reregister (OnGuest call) d =
     guest_step fs_read_frame_into fs_write_frame reregister (ds_turn d) call (ds_guest d) \<bind> (\<lambda>(t, g, r).
       Some (d\<lparr> ds_turn := t, ds_guest := g \<rparr>))"
| "drive_call_step reregister EmitEvent d = Some (d\<lparr> ds_turn := fst (emit_event (ds_turn d)) \<rparr>)"
| "drive_call_step reregister StateChange d =
     Some (d\<lparr> ds_turn := fst (apply_state_change (\<lambda>s. (s, ())) (ds_turn d) ()) \<rparr>)"
| "drive_call_step reregister (MarkReady rd_ready wr_ready) d =
     Some (d\<lparr> ds_stream_io := io_mark_reactor_ready rd_ready wr_ready (ds_stream_io d),
       ds_udp_io := io_mark_reactor_ready rd_ready wr_ready (ds_udp_io d) \<rparr>)"

primrec drive_calls :: "(bool \<Rightarrow> 'k \<Rightarrow> 'k \<times> (unit, stream_error transport_error) result) \<Rightarrow> drive_call list \<Rightarrow> 'k drive_sys \<Rightarrow> 'k drive_sys option" where
  "drive_calls reregister [] d = Some d"
| "drive_calls reregister (call # calls) d = drive_call_step reregister call d \<bind> drive_calls reregister calls"

text \<open>What a call may overdraw: only a read from the guest's session can.\<close>

definition overdraft :: "drive_call \<Rightarrow> nat" where
  "overdraft call = (case call of OnGuest (Ready _) \<Rightarrow> 65535 | _ \<Rightarrow> 0)"

lemma spends_mono: "spends m t t' \<Longrightarrow> m \<le> n \<Longrightarrow> spends n t t'"
  by (auto simp: spends_def)

lemma set_pool_guest [simp]:
  "gs_io (ds_guest (ds_set_pool p d)) = gs_io (ds_guest d)" "ds_turn (ds_set_pool p d) = ds_turn d"
  by (simp_all add: ds_set_pool_def)

lemma apply_spends: "spends m t (fst (apply_state_change f t s))"
  using step_spends(1) [of t _ _ m] by (auto simp: apply_state_change_def split: if_splits prod.splits)

lemma sock_recv_le: "sock_recv cap s = (s', Ok (xs, p)) \<Longrightarrow> length xs \<le> cap"
  using sock_read_le by (auto simp: sock_recv_def split: prod.splits result.splits)

lemma drive_call_spends:
  assumes "drive_call_step reregister call d = Some d'" "payload_ok (gi_session (gs_io (ds_guest d)))"
  shows "spends (overdraft call) (ds_turn d) (ds_turn d') \<and> payload_ok (gi_session (gs_io (ds_guest d')))"
proof (cases call)
  case ReadStream
  then show ?thesis using assms bio.read_stream_spends
    by (fastforce simp: Let_def split: bind_splits result.splits drive_stream_read.splits)
next
  case WriteStream
  then show ?thesis using assms bio.write_queue_spends by (fastforce split: prod.splits)
next
  case RecvTcp
  then show ?thesis using assms bio.recv_tcp_spends
    by (fastforce simp: Let_def split: bind_splits drive_smoltcp_tcp_recv.splits)
next
  case SendTcp
  then show ?thesis using assms bio.send_tcp_spends by (fastforce split: prod.splits)
next
  case (RecvDatagram cap)
  then obtain t io pool s r where
    call: "recv_datagram_ready sock_recv (ds_turn d) (ds_udp_io d) (ds_pool d) (ds_udp d) cap = Some (t, io, pool, s, r)"
      "ds_turn d' = t" "gs_io (ds_guest d') = gs_io (ds_guest d)"
    using assms(1) by (auto split: bind_splits)
  then show ?thesis using recv_datagram_spends [OF call(1) sock_recv_le] assms(2) by simp
next
  case (SendDatagram xs)
  then show ?thesis using assms bio.send_datagram_spends by (fastforce split: prod.splits)
next
  case (QueueProtocolOutput n)
  then show ?thesis using assms queue_protocol_output_spends by (fastforce split: bind_splits)
next
  case (OnGuest gcall)
  then obtain t g r where step: "guest_step fs_read_frame_into fs_write_frame reregister (ds_turn d) gcall (ds_guest d) = Some (t, g, r)"
      "d' = d\<lparr> ds_turn := t, ds_guest := g \<rparr>"
    using assms(1) by (auto split: bind_splits)
  have "overdraft call = (case gcall of Ready _ \<Rightarrow> 65535 | _ \<Rightarrow> 0)" using OnGuest by (simp add: overdraft_def)
  then show ?thesis using guest_step_spends [OF step(1) assms(2)] step(2) by simp
next
  case EmitEvent
  then show ?thesis using assms emit_spends [of "ds_turn d"] by (auto simp: prod_eq_iff)
qed (use assms apply_spends in auto)

lemma drive_calls_spend:
  assumes "drive_calls reregister calls d = Some d'" "payload_ok (gi_session (gs_io (ds_guest d)))"
    and "\<forall>call\<in>set calls. overdraft call \<le> m"
  shows "spends m (ds_turn d) (ds_turn d')"
  using assms
proof (induction calls arbitrary: d)
  case (Cons call calls)
  then obtain d1 where d1: "drive_call_step reregister call d = Some d1" "drive_calls reregister calls d1 = Some d'"
    by (auto split: bind_splits)
  show ?case
    using drive_call_spends [OF d1(1) Cons.prems(2)] Cons.IH [OF d1(2)] Cons.prems(3)
    by (auto intro: spends_trans spends_mono)
qed simp

end
