(* ===== verification/Relay.thy ===== *)
theory Relay
  imports DriveTurns
begin

text \<open>
  What a turn promises: it stays within its budget, it loses no byte between a stream and the
  guest, and where it stops it says why.
\<close>

section \<open>Budget\<close>

text \<open>
  Claim C31.  A turn stays within its budget.  Over any sequence of operations that starts with the
  event loop's budget, the report counts at most the budgeted events, and the bytes read,
  written, enqueued and dequeued together are at most the budgeted bytes, whatever the sockets
  answer.  Only a read from the guest can exceed the byte budget, once and by at most one frame:
  it is admitted when a buffer of \<open>frame_buffer_capacity\<close> bytes fits, and the session may
  deliver a frame of up to 65535.
\<close>

theorem turn_within_budget:
  assumes "drive_calls reregister calls d = Some d'"
    and "ds_turn d = turn_new (budget_event_loop limits) report_new"
    and "gi_session (gs_io (ds_guest d)) = stream_connect s"
  shows "emitted (ds_turn d') \<le> drive_event_budget limits \<and>
    moved (ds_turn d') \<le> drive_byte_budget limits + 65535 \<and>
    ((\<forall>readiness. OnGuest (Ready readiness) \<notin> set calls) \<longrightarrow> moved (ds_turn d') \<le> drive_byte_budget limits)"
proof -
  have ok: "payload_ok (gi_session (gs_io (ds_guest d)))" using assms(3) by (simp add: payload_ok_def stream_connect_def)
  have fresh: "moved (ds_turn d) = 0" "emitted (ds_turn d) = 0" "remaining_bytes (ds_turn d) = drive_byte_budget limits"
      "db_events (dt_budget (ds_turn d)) = drive_event_budget limits"
    using assms(2) by (simp_all add: turn_new_def moved_def emitted_def report_new_def progress_new_def remaining_bytes_def
        budget_event_loop_def)
  have "\<forall>call\<in>set calls. overdraft call \<le> 65535"
    by (simp add: overdraft_def split: drive_call.splits guest_call.splits)
  from drive_calls_spend [OF assms(1) ok this] have "emitted (ds_turn d') \<le> drive_event_budget limits"
      "moved (ds_turn d') \<le> drive_byte_budget limits + 65535"
    using fresh by (auto simp: spends_def)
  moreover have "moved (ds_turn d') \<le> drive_byte_budget limits" if "\<forall>readiness. OnGuest (Ready readiness) \<notin> set calls"
  proof -
    have "\<forall>call\<in>set calls. overdraft call \<le> 0"
      using that by (auto simp: overdraft_def split: drive_call.splits guest_call.splits)
    from drive_calls_spend [OF assms(1) ok this] show ?thesis using fresh by (auto simp: spends_def)
  qed
  ultimately show ?thesis by blast
qed

section \<open>Bytes through the queues\<close>

lemma push_stream:
  assumes "wq_invar q"
  shows "wq_invar (wq_push q b)" "wq_stream (wq_push q b) = wq_stream q @ buf_data b"
  using wq_step_stream [OF assms, of "WPush b"] by simp_all

lemma advance_stream:
  assumes "wq_invar q" "wq_front_slice q = Some f" "n \<le> length f"
  shows "wq_invar (fst (wq_advance_front q n))" "take n f @ wq_stream (fst (wq_advance_front q n)) = wq_stream q"
  using wq_step_stream [OF assms(1), of "WAccept n"] assms(2,3) by (simp_all add: min_def)

text \<open>One round of a writing loop: what the socket took has left the queue.\<close>

lemma write_round_exact:
  assumes "wq_invar q" "wq_front_slice q = Some f" "sock_write (take k f) s = (s', Ok n)"
  shows "wq_invar (fst (wq_advance_front q n))"
    "so_out s' @ wq_stream (fst (wq_advance_front q n)) = so_out s @ wq_stream q"
proof -
  have n: "n \<le> length f" "so_out s' = so_out s @ take n f"
    using sock_write_Ok [OF assms(3)] by (auto simp: min_def split: if_splits)
  from advance_stream [OF assms(1,2) n(1)]
  show "wq_invar (fst (wq_advance_front q n))" "so_out s' @ wq_stream (fst (wq_advance_front q n)) = so_out s @ wq_stream q"
    by (simp_all add: n(2))
qed

definition sends_exactly :: "write_queue \<Rightarrow> socket \<Rightarrow> write_queue \<Rightarrow> socket \<Rightarrow> bool" where
  "sends_exactly q s q' s' \<longleftrightarrow> wq_invar q' \<and> so_out s' @ wq_stream q' = so_out s @ wq_stream q \<and> so_in s' = so_in s"

lemma sends_refl [simp]: "sends_exactly q s q s \<longleftrightarrow> wq_invar q"
  by (simp add: sends_exactly_def)

lemma sends_trans: "sends_exactly q s q1 s1 \<Longrightarrow> sends_exactly q1 s1 q2 s2 \<Longrightarrow> sends_exactly q s q2 s2"
  by (simp add: sends_exactly_def)

lemma sends_invar: "sends_exactly q s q' s' \<Longrightarrow> wq_invar q'"
  by (simp add: sends_exactly_def)

lemma round_sends:
  assumes "wq_invar q" "wq_front_slice q = Some f" "sock_write (take k f) s = (s', r)"
  shows "r = Ok n \<Longrightarrow> sends_exactly q s (fst (wq_advance_front q n)) s'" "r = Err e \<or> r = Ok 0 \<Longrightarrow> sends_exactly q s q s'"
  using write_round_exact [OF assms(1,2)] sock_write_Err [of "take k f" s s'] sock_write_Ok [of "take k f" s s' 0]
    sock_write_in [OF assms(3)] assms by (auto simp: sends_exactly_def)

lemma write_loop_exact:
  "write_stream_loop sock_write t q s = (t', q', s', r) \<Longrightarrow> wq_invar q \<Longrightarrow> sends_exactly q s q' s'"
proof (induction "db_steps (dt_budget t)" arbitrary: t q s rule: less_induct)
  case less
  have rec: "sends_exactly q s q' s'"
    if "wq_front_slice q = Some f" "step_or_exhausted t = (t1, True)" "sock_write (take k f) s = (s1, Ok n)"
      "write_stream_loop sock_write (turn_report (report_bytes_written n) (spend_bytes n t1)) (fst (wq_advance_front q n)) s1 =
        (t', q', s', r)" for f t1 k s1 n
    using less(1) [OF _ that(4)] step_spends(4) [OF that(2)] round_sends(1) [OF less(3) that(1,3) refl]
    by (auto intro: sends_trans dest: sends_invar)
  show ?case
    using less(2,3) round_sends [OF less(3)] rec
    by (subst (asm) write_stream_loop.simps)
      (auto simp: Let_def split: if_splits option.splits prod.splits bool.splits result.splits io_error.splits)
qed

lemma write_queue_exact:
  assumes "write_stream_queue_ready sock_write t io q s = (t', io', q', s', r)" "wq_invar q"
  shows "sends_exactly q s q' s'"
  using assms write_loop_exact [of t q s]
  by (auto simp: write_stream_queue_ready_def write_stream_queue_unchecked_def Let_def split: if_splits prod.splits result.splits)

lemma send_loop_exact:
  "send_smoltcp_loop can_send sock_write t q s = (t', q', s') \<Longrightarrow> wq_invar q \<Longrightarrow> sends_exactly q s q' s'"
proof (induction "db_steps (dt_budget t)" arbitrary: t q s rule: less_induct)
  case less
  have rec: "sends_exactly q s q' s'"
    if "wq_front_slice q = Some f" "step_or_exhausted t = (t1, True)" "sock_write (take k f) s = (s1, Ok n)"
      "send_smoltcp_loop can_send sock_write (turn_report (report_guest_bytes_enqueued n) (spend_bytes n t1))
        (fst (wq_advance_front q n)) s1 = (t', q', s')" for f t1 k s1 n
    using less(1) [OF _ that(4)] step_spends(4) [OF that(2)] round_sends(1) [OF less(3) that(1,3) refl]
    by (auto intro: sends_trans dest: sends_invar)
  show ?case
    using less(2,3) round_sends [OF less(3)] rec
    by (subst (asm) send_smoltcp_loop.simps)
      (auto simp: Let_def split: if_splits option.splits prod.splits bool.splits result.splits)
qed

lemma send_tcp_exact:
  assumes "send_smoltcp_tcp_queue can_send sock_write t q s = (t', q', s')" "wq_invar q"
  shows "sends_exactly q s q' s'"
  using assms send_loop_exact [of can_send t q s]
  by (auto simp: send_smoltcp_tcp_queue_def split: if_splits prod.splits)

text \<open>A buffer after a read holds what was read.\<close>

lemma buf_after_read_data: "length xs \<le> n \<Longrightarrow> buf_data (buf_after_read n xs b) = xs"
  by (simp add: buf_after_read_def buf_truncate_def buf_resize_zeroed_def vec_set_def overwrite_def Let_def)

lemma sock_read_buffer:
  assumes "sock_read n s = (s', Ok xs)"
  shows "\<forall>b. buf_data (buf_after_read n xs b) = xs \<and> incoming (so_in s) = xs @ incoming (so_in s') \<and> so_out s' = so_out s"
  using sock_read_le [OF assms] sock_read_incoming(1) [OF assms] sock_read_out [OF assms] by (simp add: buf_after_read_data)

lemma read_stream_exact:
  assumes "read_stream_ready sock_read t io pool s = Some (t', io', pool', s', r)"
  shows "incoming (so_in s) = (case r of Ok (StreamBytes b) \<Rightarrow> buf_data b | _ \<Rightarrow> []) @ incoming (so_in s')" "so_out s' = so_out s"
  using assms sock_read_out [of _ s]
  by (auto simp: read_stream_ready_def read_stream_unchecked_def Let_def dest: sock_read_incoming(2) sock_read_buffer
      split: if_splits bind_splits result.splits list.splits io_error.splits prod.splits)

lemma recv_tcp_exact:
  assumes "recv_smoltcp_tcp can_recv sock_read t pool s = Some (t', pool', s', r)"
  shows "incoming (so_in s) = (case r of TcpBytes b \<Rightarrow> buf_data b | _ \<Rightarrow> []) @ incoming (so_in s')" "so_out s' = so_out s"
  using assms sock_read_out [of _ s]
  by (auto simp: recv_smoltcp_tcp_def Let_def dest: sock_read_incoming(2) sock_read_buffer
      split: if_splits bind_splits result.splits list.splits prod.splits)

section \<open>The relay\<close>

text \<open>What has gone to the guest's socket, is queued for it, and is still to arrive upstream; and the other way.\<close>

definition downstream :: "'k drive_sys \<Rightarrow> bytes" where
  "downstream d = so_out (ds_tcp d) @ wq_stream (ds_to_tcp d) @ incoming (so_in (ds_stream d))"

definition upstream :: "'k drive_sys \<Rightarrow> bytes" where
  "upstream d = so_out (ds_stream d) @ wq_stream (ds_to_stream d) @ incoming (so_in (ds_tcp d))"

definition relays :: "'k drive_sys \<Rightarrow> 'k drive_sys \<Rightarrow> bool" where
  "relays d d' \<longleftrightarrow> wq_invar (ds_to_tcp d') \<and> wq_invar (ds_to_stream d') \<and> downstream d' = downstream d \<and> upstream d' = upstream d"

lemma set_pool_relay [simp]:
  "ds_tcp (ds_set_pool p d) = ds_tcp d" "ds_to_tcp (ds_set_pool p d) = ds_to_tcp d"
  "ds_stream (ds_set_pool p d) = ds_stream d" "ds_to_stream (ds_set_pool p d) = ds_to_stream d"
  by (simp_all add: ds_set_pool_def)

lemma drive_call_relays:
  assumes step: "drive_call_step reregister call d = Some d'" and ok: "wq_invar (ds_to_tcp d)" "wq_invar (ds_to_stream d)"
    and plain: "\<And>n. call \<noteq> QueueProtocolOutput n"
  shows "relays d d'"
proof (cases call)
  case ReadStream
  then show ?thesis using step ok
    by (auto simp: relays_def downstream_def upstream_def Let_def push_stream dest: read_stream_exact
        split: bind_splits result.splits drive_stream_read.splits)
next
  case WriteStream
  then show ?thesis using step ok write_queue_exact [OF _ ok(2)]
    by (fastforce simp: relays_def downstream_def upstream_def sends_exactly_def split: prod.splits)
next
  case RecvTcp
  then show ?thesis using step ok
    by (auto simp: relays_def downstream_def upstream_def Let_def push_stream dest: recv_tcp_exact
        split: bind_splits drive_smoltcp_tcp_recv.splits)
next
  case SendTcp
  then show ?thesis using step ok send_tcp_exact [OF _ ok(1)]
    by (fastforce simp: relays_def downstream_def upstream_def sends_exactly_def split: prod.splits)
qed (use step ok plain in \<open>auto simp: relays_def downstream_def upstream_def split: bind_splits prod.splits\<close>)

text \<open>
  Claim C32.  A relay between a stream and the guest's TCP socket loses, repeats and reorders no byte.
  Whatever operations a turn performs, whatever the budget allows and the sockets answer, in each
  direction the bytes delivered, the bytes queued and the bytes still to arrive make up the same
  stream as before; a buffer pool that runs dry or a budget that ends only delays them.
\<close>

theorem relay_streams_exact:
  assumes "drive_calls reregister calls d = Some d'"
    and "wq_invar (ds_to_tcp d)" "wq_invar (ds_to_stream d)" "\<forall>n. QueueProtocolOutput n \<notin> set calls"
  shows "so_out (ds_tcp d') @ wq_stream (ds_to_tcp d') @ incoming (so_in (ds_stream d')) =
      so_out (ds_tcp d) @ wq_stream (ds_to_tcp d) @ incoming (so_in (ds_stream d)) \<and>
    so_out (ds_stream d') @ wq_stream (ds_to_stream d') @ incoming (so_in (ds_tcp d')) =
      so_out (ds_stream d) @ wq_stream (ds_to_stream d) @ incoming (so_in (ds_tcp d))"
proof -
  have "relays d d'" using assms
  proof (induction calls arbitrary: d)
    case (Cons call calls)
    then obtain d1 where d1: "drive_call_step reregister call d = Some d1" "drive_calls reregister calls d1 = Some d'"
      by (auto split: bind_splits)
    have "relays d d1" using drive_call_relays [OF d1(1) Cons.prems(2,3)] Cons.prems(4) by auto
    then show ?case using Cons.IH [OF d1(2)] Cons.prems(4) by (auto simp: relays_def)
  qed (simp add: relays_def)
  then show ?thesis by (simp add: relays_def downstream_def upstream_def)
qed

section \<open>Why a turn stopped\<close>

lemma blocked_on_block_on [simp]: "w \<noteq> 0 \<Longrightarrow> blocked_on (dt_report (block_on w t)) w"
  by (simp add: blocked_on_def block_on_def turn_report_def wait_contains_def wait_merge_def bit.conj_disj_distrib2 or_eq_0_iff)

lemma wait_bits [simp]:
  "REACTOR_READ \<noteq> 0" "REACTOR_WRITE \<noteq> 0" "LOCAL_BUFFER_CAPACITY \<noteq> 0" "GUEST_SEND_CAPACITY \<noteq> 0"
  by (simp_all add: REACTOR_READ_def REACTOR_WRITE_def LOCAL_BUFFER_CAPACITY_def GUEST_SEND_CAPACITY_def)

lemma exhausted_says [simp]: "rp_budget_exhausted (dt_report (exhausted t))"
  by (simp add: exhausted_def turn_report_def mark_budget_exhausted_def)

lemma local_buffer_says [simp]:
  "blocked_on (dt_report (wait_for_local_buffer_capacity_with_continuation t)) LOCAL_BUFFER_CAPACITY"
  "rp_local_buffer_continuation (dt_report (wait_for_local_buffer_capacity_with_continuation t))"
proof -
  have "blocked_on (dt_report (turn_report (\<lambda>r. r\<lparr> rp_local_buffer_continuation := True \<rparr>) (block_on LOCAL_BUFFER_CAPACITY t))) w \<longleftrightarrow>
      blocked_on (dt_report (block_on LOCAL_BUFFER_CAPACITY t)) w" for w
    by (simp add: turn_report_def blocked_on_def)
  then show "blocked_on (dt_report (wait_for_local_buffer_capacity_with_continuation t)) LOCAL_BUFFER_CAPACITY"
    by (simp add: wait_for_local_buffer_capacity_with_continuation_def)
qed (simp add: wait_for_local_buffer_capacity_with_continuation_def turn_report_def)

lemma step_refused: "step_or_exhausted t = (t', False) \<Longrightarrow> rp_budget_exhausted (dt_report t')"
  by (auto simp: step_or_exhausted_def split: if_splits prod.splits)

lemma spend_exhausts:
  "\<not> can_continue (dt_budget (spend_bytes n t)) \<Longrightarrow> rp_budget_exhausted (dt_report (spend_bytes n t))"
  by (simp add: spend_bytes_def Let_def split: if_splits)

lemma report_keeps [simp]:
  "rp_budget_exhausted (dt_report (turn_report (report_bytes_written n) t)) = rp_budget_exhausted (dt_report t)"
  "rp_budget_exhausted (dt_report (turn_report (report_guest_bytes_enqueued n) t)) = rp_budget_exhausted (dt_report t)"
  "rp_budget_exhausted (dt_report (block_on w t)) = rp_budget_exhausted (dt_report t)"
  by (simp_all add: turn_report_def report_bytes_written_def report_guest_bytes_enqueued_def block_on_def)

lemma write_loop_stops:
  "write_stream_loop wrf t q s = (t', q', s', Ok (Some BlockBudget)) \<Longrightarrow> rp_budget_exhausted (dt_report t')"
proof (induction "db_steps (dt_budget t)" arbitrary: t q s rule: less_induct)
  case less
  have rec: "rp_budget_exhausted (dt_report t')"
    if "step_or_exhausted t = (t1, True)" "write_stream_loop wrf (turn_report (report_bytes_written n) (spend_bytes n t1)) q1 s1 =
        (t', q', s', Ok (Some BlockBudget))" for t1 n q1 s1
    using less(1) [OF _ that(2)] step_spends(4) [OF that(1)] by simp
  show ?case
    using less(2) rec step_refused [of t] spend_exhausts
    by (subst (asm) write_stream_loop.simps)
      (auto simp: Let_def split: if_splits option.splits prod.splits bool.splits result.splits io_error.splits)
qed

lemma read_stop_reason:
  assumes "read_stream_ready rdf t io pool s = Some (t', io', pool', s', Ok r)"
  shows "r = StreamNotReady \<or> r = StreamWouldBlock \<Longrightarrow> blocked_on (dt_report t') REACTOR_READ"
    "r = StreamBlocked \<Longrightarrow> rp_budget_exhausted (dt_report t') \<or>
       blocked_on (dt_report t') LOCAL_BUFFER_CAPACITY \<and> rp_local_buffer_continuation (dt_report t')"
    "io' = (if r = StreamWouldBlock then io_clear_read_after_would_block io else io)"
  using assms step_refused [of t]
  by (auto simp: read_stream_ready_def read_stream_unchecked_def Let_def
      split: if_splits bind_splits result.splits list.splits io_error.splits prod.splits)

lemma write_stop_reason:
  assumes "write_stream_queue_ready wrf t io q s = (t', io', q', s', Ok r)"
  shows "r = StreamPending BlockReactorWrite \<Longrightarrow> blocked_on (dt_report t') REACTOR_WRITE"
    "r = StreamPending BlockBudget \<Longrightarrow> rp_budget_exhausted (dt_report t')"
    "r = StreamDrained \<longleftrightarrow> wq_is_empty q'"
    "io' \<noteq> io \<Longrightarrow> r = StreamPending BlockReactorWrite \<and> io' = io_clear_write_after_would_block io"
  using assms write_loop_stops [of wrf t q s]
  by (auto simp: write_stream_queue_ready_def write_stream_queue_unchecked_def Let_def
      split: if_splits prod.splits result.splits option.splits)

lemma flush_frames_stops:
  "flush_frames write_fn t pool io s frames = (t', pool', io', s', frames', Ok ()) \<Longrightarrow> frames' \<noteq> [] \<Longrightarrow> io_can_write io' \<Longrightarrow>
   rp_budget_exhausted (dt_report t')"
proof (induction frames arbitrary: t pool io s)
  case (Cons frame frames)
  let ?w = "\<lambda>s. case write_fn (vec_data frame) s of (s, Ok w) \<Rightarrow> (s, Ok (w = SessionFlushed)) | (s, Err e) \<Rightarrow> (s, Err e)"
  obtain t1 s1 r1 where call: "write_guest_frame ?w t (length (vec_data frame)) s = (t1, s1, r1)" using prod_cases3 by blast
  have budget: "rp_budget_exhausted (dt_report t1)" if "r1 = Ok FrameWriteBudget"
    using call that by (cases rule: write_guest_frame_cases) (auto simp: write_answer_def split: result.splits bool.splits)
  have cleared: "\<not> io_can_write (io_clear_write_after_would_block io)"
    by (simp add: io_can_write_def io_clear_write_after_would_block_def ior_writable_def ior_clear_write_def and.assoc)
  show ?case using Cons.prems call budget cleared Cons.IH [of t1 "frame_buf_drop pool frame" io s1]
    by (auto split: if_splits result.splits drive_guest_frame_write.splits)
qed auto

lemma flush_stop_reason:
  assumes "flush_outbound write_fn reregister t k pool gi = (t', k', pool', gi', Ok ())" "gi_outbound gi' \<noteq> []"
  shows "rp_budget_exhausted (dt_report t') \<or> blocked_on (dt_report t') GUEST_SEND_CAPACITY"
  using assms flush_frames_stops [of write_fn t pool "gi_io gi" "gi_session gi" "gi_outbound gi"]
  by (auto simp: flush_outbound_def Let_def split: if_splits prod.splits result.splits drive_apply.splits)

lemma send_stop_reason:
  assumes "send_smoltcp_tcp_queue can_send wrf t q s = (t', q', s')" "\<not> wq_is_empty q'"
  shows "rp_budget_exhausted (dt_report t') \<or> blocked_on (dt_report t') GUEST_SEND_CAPACITY"
  using assms by (auto simp: send_smoltcp_tcp_queue_def split: if_splits prod.splits)

text \<open>
  Claim C33.  No turn stops silently.  A stream read that returns without bytes and without having
  reached the end has recorded the reactor or the buffer pool as what it waits for, or the budget
  as spent; a write queue, a guest TCP queue or a guest frame queue that is left with work
  records the same; and a readiness latch is cleared only where the socket said it would block.
  So work that is left is always picked up by the reactor, by freed capacity or by the next turn.
\<close>

theorem turn_stops_with_reason:
  "(read_stream_ready rdf t io pool s = Some (t1, io1, pool1, s1, Ok rd_result) \<longrightarrow>
      (rd_result = StreamNotReady \<or> rd_result = StreamWouldBlock \<longrightarrow> blocked_on (dt_report t1) REACTOR_READ) \<and>
      (rd_result = StreamBlocked \<longrightarrow> rp_budget_exhausted (dt_report t1) \<or>
         blocked_on (dt_report t1) LOCAL_BUFFER_CAPACITY \<and> rp_local_buffer_continuation (dt_report t1)) \<and>
      io1 = (if rd_result = StreamWouldBlock then io_clear_read_after_would_block io else io)) \<and>
   (write_stream_queue_ready wrf t io q s = (t2, io2, q2, s2, Ok wr_result) \<longrightarrow>
      (wr_result = StreamDrained \<longleftrightarrow> wq_is_empty q2) \<and>
      (wr_result = StreamPending BlockReactorWrite \<longrightarrow> blocked_on (dt_report t2) REACTOR_WRITE) \<and>
      (wr_result = StreamPending BlockBudget \<longrightarrow> rp_budget_exhausted (dt_report t2)) \<and>
      (io2 \<noteq> io \<longrightarrow> wr_result = StreamPending BlockReactorWrite)) \<and>
   (send_smoltcp_tcp_queue can_send wrf t q s = (t3, q3, s3) \<and> \<not> wq_is_empty q3 \<longrightarrow>
      rp_budget_exhausted (dt_report t3) \<or> blocked_on (dt_report t3) GUEST_SEND_CAPACITY) \<and>
   (flush_outbound write_fn reregister t k pool gi = (t4, k4, pool4, gi4, Ok ()) \<and> gi_outbound gi4 \<noteq> [] \<longrightarrow>
      rp_budget_exhausted (dt_report t4) \<or> blocked_on (dt_report t4) GUEST_SEND_CAPACITY)"
proof (intro conjI impI, goal_cases)
  case 1 then show ?case by (rule read_stop_reason(1))
next
  case 2 then show ?case by (rule read_stop_reason(2))
next
  case 3 then show ?case by (rule read_stop_reason(3))
next
  case 4 then show ?case by (rule write_stop_reason(3))
next
  case 5 then show ?case by (rule write_stop_reason(1))
next
  case 6 then show ?case by (rule write_stop_reason(2))
next
  case 7 then show ?case using write_stop_reason(4) [OF 7(1)] by simp
next
  case 8 then show ?case using send_stop_reason [of can_send wrf t q s t3 q3 s3] by simp
next
  case 9 then show ?case using flush_stop_reason [of write_fn reregister t k pool gi t4 k4 pool4 gi4] by simp
qed

section \<open>An example\<close>

text \<open>A relay with three bytes coming from upstream, two from the guest, and sockets that take one and two.\<close>

definition small_pool :: pool where
  "small_pool = (pool_new small_limits)\<lparr> pl_bytes := \<lparr> bk_small = [], bk_medium = [],
     bk_tcp = [vec_with_capacity 8, vec_with_capacity 8] \<rparr> \<rparr>"

definition demo_relay :: "unit drive_sys" where
  "demo_relay = \<lparr> ds_turn = turn_new (budget_event_loop small_limits) report_new,
     ds_stream = \<lparr> so_in = [Chunk [1, 2, 3]], so_room = [Accept 1], so_out = [] \<rparr>,
     ds_stream_io = io_registered_with_read_probe ReadWrite, ds_to_stream = wq_new,
     ds_tcp = \<lparr> so_in = [Chunk [8, 9]], so_room = [Accept 2], so_out = [] \<rparr>, ds_to_tcp = wq_new,
     ds_udp = \<lparr> so_in = [], so_room = [], so_out = [] \<rparr>, ds_udp_io = io_registered Readable,
     ds_proto = \<lparr> bb_bytes = vec_with_capacity 8, bb_class = Tcp \<rparr>, ds_proto_offset = 0,
     ds_guest = guest_sys_new demo_guest_io () small_pool \<rparr>"

definition demo_relay_calls :: "drive_call list" where
  "demo_relay_calls = [ReadStream, SendTcp, RecvTcp, WriteStream, EmitEvent]"

definition demo_reregister :: "bool \<Rightarrow> unit \<Rightarrow> unit \<times> (unit, stream_error transport_error) result" where
  "demo_reregister writable k = (k, Ok ())"

lemma demo_relay_run:
  obtains d where "drive_calls demo_reregister demo_relay_calls demo_relay = Some d"
    "so_out (ds_tcp d) = [1, 2]" "wq_stream (ds_to_tcp d) = [3]"
proof -
  have "map_option (\<lambda>d. (so_out (ds_tcp d), wq_stream (ds_to_tcp d)))
      (drive_calls demo_reregister demo_relay_calls demo_relay) = Some ([1, 2], [3])" by code_simp
  then show ?thesis using that by auto
qed

theorem turn_within_budget_witness:
  "\<exists>d. drive_calls demo_reregister demo_relay_calls demo_relay = Some d \<and>
     emitted (ds_turn d) \<le> 3 \<and> moved (ds_turn d) \<le> 64 + 65535 \<and> moved (ds_turn d) \<le> 64"
proof -
  obtain d where d: "drive_calls demo_reregister demo_relay_calls demo_relay = Some d" by (rule demo_relay_run)
  have turn: "ds_turn demo_relay = turn_new (budget_event_loop small_limits) report_new" by (simp add: demo_relay_def)
  have session: "gi_session (gs_io (ds_guest demo_relay)) = stream_connect demo_guest_socket"
    by (simp add: demo_relay_def guest_sys_new_def demo_guest_io_def)
  have plain: "\<forall>readiness. OnGuest (Ready readiness) \<notin> set demo_relay_calls" by (simp add: demo_relay_calls_def)
  show ?thesis using turn_within_budget [OF d turn session] plain d by (simp add: small_limits_def)
qed

theorem relay_streams_exact_witness:
  "\<exists>d. drive_calls demo_reregister demo_relay_calls demo_relay = Some d \<and> so_out (ds_tcp d) = [1, 2] \<and> wq_stream (ds_to_tcp d) = [3] \<and>
     so_out (ds_tcp d) @ wq_stream (ds_to_tcp d) @ incoming (so_in (ds_stream d)) = [1, 2, 3] \<and>
     so_out (ds_stream d) @ wq_stream (ds_to_stream d) @ incoming (so_in (ds_tcp d)) = [8, 9]"
proof -
  obtain d where d: "drive_calls demo_reregister demo_relay_calls demo_relay = Some d" "so_out (ds_tcp d) = [1, 2]" "wq_stream (ds_to_tcp d) = [3]"
    by (rule demo_relay_run)
  have ok: "wq_invar (ds_to_tcp demo_relay)" "wq_invar (ds_to_stream demo_relay)" "\<forall>n. QueueProtocolOutput n \<notin> set demo_relay_calls"
    by (simp_all add: demo_relay_def demo_relay_calls_def wq_new_def wq_invar_def wq_defs)
  have start: "so_out (ds_tcp demo_relay) @ wq_stream (ds_to_tcp demo_relay) @ incoming (so_in (ds_stream demo_relay)) = [1, 2, 3]"
      "so_out (ds_stream demo_relay) @ wq_stream (ds_to_stream demo_relay) @ incoming (so_in (ds_tcp demo_relay)) = [8, 9]"
    by (simp_all add: demo_relay_def wq_new_def wq_defs incoming_def)
  show ?thesis using relay_streams_exact [OF d(1) ok] d unfolding start by blast
qed

text \<open>A read on a socket with nothing to read.\<close>

theorem turn_stops_with_reason_witness:
  "\<exists>t pool s. read_stream_ready sock_read (ds_turn demo_relay) (ds_stream_io demo_relay) small_pool (ds_udp demo_relay) =
       Some (t, io_clear_read_after_would_block (ds_stream_io demo_relay), pool, s, Ok StreamWouldBlock) \<and>
     blocked_on (dt_report t) REACTOR_READ"
proof -
  let ?call = "read_stream_ready sock_read (ds_turn demo_relay) (ds_stream_io demo_relay) small_pool (ds_udp demo_relay)"
  have "map_option (\<lambda>(t, io, pool, s, r). (io, r)) ?call =
      Some (io_clear_read_after_would_block (ds_stream_io demo_relay), Ok StreamWouldBlock)" by code_simp
  then obtain t pool s where call: "?call = Some (t, io_clear_read_after_would_block (ds_stream_io demo_relay), pool, s, Ok StreamWouldBlock)"
    by auto
  show ?thesis using conjunct1 [OF turn_stops_with_reason, THEN mp, OF call] call by auto
qed

end
