(* ===== verification/Sni.thy ===== *)
theory Sni
  imports WireBytes
begin

text \<open>
  The server name of a TLS ClientHello, \<open>src/src/libs/agentdp-network/src/tls/sni.rs\<close>.  An outer
  \<open>None\<close> is a panic, the inner one the \<open>None\<close> of the source.  The positions are sums of a few
  lengths of at most three bytes each and cannot overflow a \<open>usize\<close>.
\<close>

section \<open>Model\<close>

text \<open>\<open>xs.get(a..b)\<close> and \<open>String::from_utf8(..).ok()\<close>.\<close>

definition get_range :: "'a list \<Rightarrow> nat \<Rightarrow> nat \<Rightarrow> 'a list option" where
  "get_range xs a b = (if a \<le> b \<and> b \<le> length xs then Some (take (b - a) (drop a xs)) else None)"

definition be24 :: "u8 \<Rightarrow> u8 \<Rightarrow> u8 \<Rightarrow> nat" where
  "be24 a b c = push_bit 16 (unat a) OR push_bit 8 (unat b) OR unat c"

text \<open>\<open>u16::from_be_bytes([*xs.get(i)?, *xs.get(i + 1)?])\<close>.\<close>

definition get_be16 :: "bytes \<Rightarrow> nat \<Rightarrow> u16 option" where
  "get_be16 xs i = read_be16 xs i"

function sni_names :: "bytes \<Rightarrow> nat \<Rightarrow> bytes option option" where
  "sni_names lst pos =
     (if pos + 3 \<le> length lst then
        rd lst pos \<bind> (\<lambda>name_type.
          read_be16 lst (pos + 1) \<bind> (\<lambda>name_len.
            let pos = pos + 3 in
            if name_type = 0 then try_some (get_range lst pos (pos + unat name_len)) (\<lambda>name. Some (from_utf8 name))
            else sni_names lst (pos + unat name_len)))
      else Some None)"
  by pat_completeness auto

termination by (relation "measure (\<lambda>(lst, pos). length lst - pos)") auto

declare sni_names.simps [simp del]

definition parse_sni_extension :: "bytes \<Rightarrow> bytes option option" where
  "parse_sni_extension data =
     (if length data < 2 then Some None
      else read_be16 data 0 \<bind> (\<lambda>list_len.
        try_some (get_range data 2 (2 + unat list_len)) (\<lambda>lst. sni_names lst 0)))"

function sni_extensions :: "bytes \<Rightarrow> nat \<Rightarrow> nat \<Rightarrow> bytes option option" where
  "sni_extensions hello end_pos pos =
     (if pos + 4 \<le> end_pos \<and> pos + 4 \<le> length hello then
        read_be16 hello pos \<bind> (\<lambda>extension_type.
          read_be16 hello (pos + 2) \<bind> (\<lambda>extension_data_len.
            let pos = pos + 4 in
            if extension_type = 0
            then try_some (get_range hello pos (pos + unat extension_data_len)) parse_sni_extension
            else sni_extensions hello end_pos (pos + unat extension_data_len)))
      else Some None)"
  by pat_completeness auto

termination by (relation "measure (\<lambda>(hello, end_pos, pos). length hello - pos)") auto

declare sni_extensions.simps [simp del]

text \<open>The part of \<open>extract_sni\<close> behind the handshake header.\<close>

definition hello_sni :: "bytes \<Rightarrow> bytes option option" where
  "hello_sni hello =
     (if length hello < 34 then Some None
      else let pos = 34 in
        try_some (rd hello pos) (\<lambda>session_len.
        let pos = pos + 1 + unat session_len in
        try_some (get_be16 hello pos) (\<lambda>suites_len.
        let pos = pos + 2 + unat suites_len in
        try_some (rd hello pos) (\<lambda>compression_len.
        let pos = pos + 1 + unat compression_len in
        try_some (get_be16 hello pos) (\<lambda>extensions_total_len.
        let pos = pos + 2 in
          sni_extensions hello (pos + unat extensions_total_len) pos)))))"

definition extract_sni :: "bytes \<Rightarrow> bytes option option" where
  "extract_sni data =
     (if length data < 5 then Some None
      else rd data 0 \<bind> (\<lambda>record_type.
        if record_type \<noteq> 0x16 then Some None
        else read_be16 data 3 \<bind> (\<lambda>record_len.
          try_some (get_range data 5 (5 + unat record_len)) (\<lambda>rcd.
            if rd rcd 0 \<noteq> Some 0x01 \<or> length rcd < 4 then Some None
            else rd rcd 1 \<bind> (\<lambda>a. rd rcd 2 \<bind> (\<lambda>b. rd rcd 3 \<bind> (\<lambda>c.
              try_some (get_range rcd 4 (4 + be24 a b c)) hello_sni)))))))"

section \<open>No panic\<close>

lemma sni_names_no_panic: "no_panic (sni_names lst pos)"
proof (induction lst pos rule: sni_names.induct)
  case (1 lst pos)
  show ?case
  proof (cases "pos + 3 \<le> length lst")
    case True
    then obtain name_type name_len where r: "rd lst pos = Some name_type" "read_be16 lst (pos + 1) = Some name_len"
      by (simp add: rd_in read_be16_in)
    show ?thesis
      unfolding sni_names.simps [of lst pos] using True r 1 [OF True r refl]
      by (auto simp: Let_def intro!: no_panic_rules)
  next
    case False
    then show ?thesis by (simp add: sni_names.simps [of lst pos])
  qed
qed

lemma parse_sni_extension_no_panic: "no_panic (parse_sni_extension data)"
  unfolding parse_sni_extension_def by (intro no_panic_rules sni_names_no_panic read_be16_no_panic) auto

lemma sni_extensions_no_panic: "no_panic (sni_extensions hello end_pos pos)"
proof (induction hello end_pos pos rule: sni_extensions.induct)
  case (1 hello end_pos pos)
  show ?case
  proof (cases "pos + 4 \<le> end_pos \<and> pos + 4 \<le> length hello")
    case True
    then obtain t n where r: "read_be16 hello pos = Some t" "read_be16 hello (pos + 2) = Some n"
      by (simp add: read_be16_in)
    show ?thesis
      unfolding sni_extensions.simps [of hello end_pos pos] using True r 1 [OF True r refl]
      by (auto simp: Let_def intro!: no_panic_rules parse_sni_extension_no_panic)
  next
    case False
    then show ?thesis unfolding sni_extensions.simps [of hello end_pos pos] by (simp only: if_False no_panic_Some)
  qed
qed

lemma rd_no_panic: "i < length xs \<Longrightarrow> no_panic (rd xs i)"
  by (simp add: rd_in)

lemma extract_sni_no_panic: "no_panic (extract_sni data)"
  unfolding extract_sni_def hello_sni_def Let_def
  by (intro no_panic_rules sni_extensions_no_panic rd_no_panic read_be16_no_panic) auto

section \<open>A writer of ClientHello records\<close>

definition be24_bytes :: "nat \<Rightarrow> bytes" where
  "be24_bytes n = [of_nat (drop_bit 16 n), of_nat (drop_bit 8 n), of_nat n]"

definition len16 :: "bytes \<Rightarrow> bytes" where
  "len16 xs = be16_bytes (of_nat (length xs)) @ xs"

definition len8 :: "bytes \<Rightarrow> bytes" where
  "len8 xs = of_nat (length xs) # xs"

definition name_entry :: "u8 \<times> bytes \<Rightarrow> bytes" where
  "name_entry e = fst e # len16 (snd e)"

definition hello_extension :: "u16 \<times> bytes \<Rightarrow> bytes" where
  "hello_extension e = be16_bytes (fst e) @ len16 (snd e)"

record client_hello =
  ch_version_random :: bytes
  ch_session :: bytes
  ch_suites :: bytes
  ch_compression :: bytes
  ch_extensions :: "(u16 \<times> bytes) list"

definition hello_bytes :: "client_hello \<Rightarrow> bytes" where
  "hello_bytes h = ch_version_random h @ len8 (ch_session h) @ len16 (ch_suites h) @ len8 (ch_compression h) @
     len16 (concat (map hello_extension (ch_extensions h)))"

definition record_bytes :: "u8 \<Rightarrow> u8 \<Rightarrow> client_hello \<Rightarrow> bytes" where
  "record_bytes major minor h =
     [0x16, major, minor] @ len16 (0x01 # be24_bytes (length (hello_bytes h)) @ hello_bytes h)"

text \<open>The name of a list of extensions: the first \<open>host_name\<close> entry of the first \<open>server_name\<close> extension.\<close>

definition server_name :: "(u8 \<times> bytes) list \<Rightarrow> bytes" where
  "server_name entries = len16 (concat (map name_entry entries))"

definition hello_ok :: "client_hello \<Rightarrow> bool" where
  "hello_ok h \<longleftrightarrow> length (ch_version_random h) = 34 \<and> length (ch_session h) < 256 \<and> length (ch_compression h) < 256 \<and>
     length (hello_bytes h) + 4 < 65536"

section \<open>Reading what was written\<close>

lemma get_range_drop: "drop c xs = ys @ zs \<Longrightarrow> c \<le> length xs \<Longrightarrow> get_range xs c (c + length ys) = Some ys"
  using slice_drop [of c xs ys zs] by (auto simp: get_range_def slice_def split: if_splits)

lemma drop_Cons_at: "drop c xs = y # ys \<Longrightarrow> drop (Suc c) xs = ys"
  by (metis drop_Suc list.sel(3) tl_drop)

lemma len16_at:
  assumes "drop c ys = len16 xs @ zs" "length xs < 65536"
  shows "\<exists>n. read_be16 ys c = Some n \<and> unat n = length xs" "drop (c + 2) ys = xs @ zs"
proof -
  have "unat (of_nat (length xs) :: u16) = length xs" using assms(2) by (intro unat_of_nat_small) simp
  moreover have "read_be16 ys c = Some (of_nat (length xs))"
    using assms(1) by (intro read_be16_drop [of _ _ _ "xs @ zs"]) (simp add: len16_def)
  ultimately show "\<exists>n. read_be16 ys c = Some n \<and> unat n = length xs" by blast
  show "drop (c + 2) ys = xs @ zs"
    using drop_append_at [of c ys "be16_bytes (of_nat (length xs))"] assms(1) by (simp add: len16_def)
qed

lemma len8_at:
  assumes "drop c ys = len8 xs @ zs" "length xs < 256"
  shows "\<exists>n. rd ys c = Some n \<and> unat n = length xs" "drop (Suc c) ys = xs @ zs"
proof -
  have "unat (of_nat (length xs) :: u8) = length xs" using assms(2) by (intro unat_of_nat_small) simp
  then show "\<exists>n. rd ys c = Some n \<and> unat n = length xs" using assms(1) by (auto simp: len8_def rd_drop)
  show "drop (Suc c) ys = xs @ zs" using assms(1) by (intro drop_Cons_at) (simp add: len8_def)
qed

lemma be24_be24_bytes:
  assumes "n < 2 ^ 24"
  shows "be24 (of_nat (drop_bit 16 n)) (of_nat (drop_bit 8 n)) (of_nat n) = n"
proof -
  have "take_bit 24 n = n" using assms by (simp add: take_bit_nat_eq_self)
  moreover have "push_bit 16 (take_bit 8 (drop_bit 16 n)) OR push_bit 8 (take_bit 8 (drop_bit 8 n)) OR take_bit 8 n = take_bit 24 n"
  proof (rule bit_eqI)
    fix k :: nat
    consider "k < 8" | "8 \<le> k" "k < 16" | "16 \<le> k" by linarith
    then show "bit (push_bit 16 (take_bit 8 (drop_bit 16 n)) OR push_bit 8 (take_bit 8 (drop_bit 8 n)) OR take_bit 8 n) k =
        bit (take_bit 24 n) k"
      by cases (auto simp: bit_simps)
  qed
  ultimately show ?thesis by (simp add: be24_def unsigned_of_nat)
qed

lemma sni_names_written:
  assumes "drop pos lst = concat (map name_entry (before @ (0, host) # after)) @ rest"
    and "length lst < 65536" "\<forall>e\<in>set before. fst e \<noteq> 0"
  shows "sni_names lst pos = Some (from_utf8 host)"
  using assms
proof (induction before arbitrary: pos)
  case (Cons e before)
  let ?tl = "concat (map name_entry (before @ (0, host) # after)) @ rest"
  have d: "drop pos lst = fst e # len16 (snd e) @ ?tl" using Cons.prems(1) by (simp add: name_entry_def [of e])
  have len: "pos + 3 + length (snd e) \<le> length lst" using drop_length_le [OF d] by (simp add: len16_def)
  then have small: "length (snd e) < 65536" using Cons.prems(2) by simp
  note at = len16_at [OF drop_Cons_at [OF d] small]
  have "drop (pos + 3 + length (snd e)) lst = ?tl"
    using drop_append_at [OF at(2)] by (simp add: numeral_3_eq_3)
  from Cons.IH [OF this Cons.prems(2)] Cons.prems(3)
  show ?case using d at(1) len rd_drop [OF d] by (auto simp: sni_names.simps [of lst pos] Let_def)
next
  case Nil
  let ?tl = "concat (map name_entry after) @ rest"
  have d: "drop pos lst = 0 # len16 host @ ?tl" using Nil.prems(1) by (simp add: name_entry_def [of "(0, host)"])
  have len: "pos + 3 + length host \<le> length lst" using drop_length_le [OF d] by (simp add: len16_def)
  then have small: "length host < 65536" using Nil.prems(2) by simp
  note at = len16_at [OF drop_Cons_at [OF d] small]
  have "get_range lst (pos + 3) (pos + 3 + length host) = Some host"
    using at(2) len by (intro get_range_drop) (simp_all add: numeral_3_eq_3)
  then show ?case using at(1) len rd_drop [OF d] by (auto simp: sni_names.simps [of lst pos] Let_def)
qed

lemma parse_sni_written:
  assumes "length (server_name entries) < 65536" "entries = before @ (0, host) # after" "\<forall>e\<in>set before. fst e \<noteq> 0"
  shows "parse_sni_extension (server_name entries) = Some (from_utf8 host)"
proof -
  let ?list = "concat (map name_entry entries)"
  have small: "length ?list < 65536" using assms(1) by (simp add: server_name_def len16_def)
  note at = len16_at [of 0 "server_name entries" ?list "[]", unfolded server_name_def, simplified, OF small]
  have "get_range (len16 ?list) 2 (2 + length ?list) = Some ?list"
    by (rule get_range_drop [of _ _ _ "[]"]) (simp_all add: len16_def)
  moreover have "sni_names ?list 0 = Some (from_utf8 host)"
    using assms(2,3) small by (intro sni_names_written [of _ _ before host after "[]"]) simp_all
  moreover have "\<not> length (len16 ?list) < 2" by (simp add: len16_def)
  ultimately show ?thesis using at(1) by (auto simp: parse_sni_extension_def server_name_def)
qed

lemma sni_extensions_written:
  assumes "drop pos hello = concat (map hello_extension (before @ (0, data) # after)) @ rest"
    and "length hello < 65536" "\<forall>e\<in>set before. fst e \<noteq> 0"
    and "pos + length (concat (map hello_extension (before @ (0, data) # after))) \<le> end_pos"
  shows "sni_extensions hello end_pos pos = parse_sni_extension data"
  using assms
proof (induction before arbitrary: pos)
  case (Cons e before)
  let ?tl = "concat (map hello_extension (before @ (0, data) # after)) @ rest"
  have d: "drop pos hello = be16_bytes (fst e) @ len16 (snd e) @ ?tl" using Cons.prems(1) by (simp add: hello_extension_def [of e])
  have len: "pos + 4 + length (snd e) \<le> length hello" using drop_length_le [OF d] by (simp add: len16_def be16_bytes_def)
  then have small: "length (snd e) < 65536" using Cons.prems(2) by simp
  note at = len16_at [OF drop_append_at [OF d] small]
  have e: "pos + 4 \<le> end_pos" using Cons.prems(4) by (simp add: hello_extension_def len16_def)
  have "drop (pos + 4 + length (snd e)) hello = ?tl"
    using drop_append_at [OF at(2)] by (simp add: eval_nat_numeral)
  from Cons.IH [OF this Cons.prems(2)] Cons.prems(3,4)
  have "sni_extensions hello end_pos (pos + 4 + length (snd e)) = parse_sni_extension data"
    by (simp add: hello_extension_def len16_def)
  then show ?case using at(1) len e read_be16_drop [OF d] Cons.prems(3)
    by (auto simp: sni_extensions.simps [of hello end_pos pos] Let_def)
next
  case Nil
  let ?tl = "concat (map hello_extension after) @ rest"
  have d: "drop pos hello = be16_bytes 0 @ len16 data @ ?tl" using Nil.prems(1) by (simp add: hello_extension_def [of "(0, data)"])
  have len: "pos + 4 + length data \<le> length hello" using drop_length_le [OF d] by (simp add: len16_def be16_bytes_def)
  then have small: "length data < 65536" using Nil.prems(2) by simp
  note at = len16_at [OF drop_append_at [OF d] small]
  have e: "pos + 4 \<le> end_pos" using Nil.prems(4) by (simp add: hello_extension_def len16_def)
  have "get_range hello (pos + 4) (pos + 4 + length data) = Some data"
    using at(2) len by (intro get_range_drop [of _ _ _ ?tl]) (simp_all add: eval_nat_numeral)
  then show ?case using at(1) len e read_be16_drop [OF d] by (auto simp: sni_extensions.simps [of hello end_pos pos] Let_def)
qed

lemma hello_sni_written:
  assumes "hello_ok h" "ch_extensions h = before @ (0, server_name (names @ (0, host) # others)) # after"
    and "\<forall>e\<in>set before. fst e \<noteq> 0" "\<forall>e\<in>set names. fst e \<noteq> 0"
  shows "hello_sni (hello_bytes h) = Some (from_utf8 host)"
proof -
  let ?hello = "hello_bytes h" and ?exts = "concat (map hello_extension (ch_extensions h))"
  let ?sn = "server_name (names @ (0, host) # others)"
  let ?s = "35 + length (ch_session h)"
  let ?c = "?s + 2 + length (ch_suites h)"
  let ?e = "?c + 1 + length (ch_compression h)"
  have ok: "length (ch_version_random h) = 34" "length (ch_session h) < 256" "length (ch_compression h) < 256"
      "length ?hello < 65532" using assms(1) by (simp_all add: hello_ok_def)
  have size: "length ?hello = ?e + 2 + length ?exts" by (simp add: hello_bytes_def len8_def len16_def ok(1))
  have "drop 34 ?hello = len8 (ch_session h) @ len16 (ch_suites h) @ len8 (ch_compression h) @ len16 ?exts"
    using ok(1) by (simp add: hello_bytes_def)
  note s = len8_at [OF this ok(2)]
  have "drop ?s ?hello = len16 (ch_suites h) @ len8 (ch_compression h) @ len16 ?exts"
    using drop_append_at [OF s(2)] by simp
  note u = len16_at [OF this]
  have "drop ?c ?hello = len8 (ch_compression h) @ len16 ?exts @ []"
    using drop_append_at [OF u(2)] size ok(4) by simp
  note c = len8_at [OF this ok(3)]
  have "drop ?e ?hello = len16 ?exts @ []" using drop_append_at [OF c(2)] by simp
  note e = len16_at [OF this]
  have "length ?sn < 65536" using size ok(4) by (simp add: assms(2) hello_extension_def len16_def)
  from parse_sni_written [OF this refl assms(4)]
  have "sni_extensions ?hello (?e + 2 + length ?exts) (?e + 2) = Some (from_utf8 host)"
    using e(2) size ok(4) assms(2,3) by (subst sni_extensions_written [where rest = "[]"]) (auto simp: assms(2))
  then show ?thesis
    using s(1) u(1) c(1) e(1) size ok(4) by (auto simp: hello_sni_def get_be16_def Let_def add.assoc)
qed

lemma record_written:
  assumes "length (hello_bytes h) < 65532"
  shows "extract_sni (record_bytes major minor h @ rest) = hello_sni (hello_bytes h)"
proof -
  let ?hello = "hello_bytes h"
  let ?rcd = "0x01 # be24_bytes (length ?hello) @ ?hello" and ?data = "record_bytes major minor h @ rest"
  have "drop 3 ?data = len16 ?rcd @ rest" by (simp add: record_bytes_def)
  note r = len16_at [OF this]
  have small: "length ?rcd < 65536" using assms by (simp add: be24_bytes_def)
  have 1: "get_range ?data 5 (5 + length ?rcd) = Some ?rcd"
    using r(2) [OF small] by (intro get_range_drop [of _ _ _ rest]) (simp_all add: record_bytes_def len16_def be24_bytes_def)
  have 2: "get_range ?rcd 4 (4 + length ?hello) = Some ?hello"
    by (intro get_range_drop [of _ _ _ "[]"]) (simp_all add: be24_bytes_def)
  have 3: "rd ?rcd 1 = Some (of_nat (drop_bit 16 (length ?hello)))" "rd ?rcd 2 = Some (of_nat (drop_bit 8 (length ?hello)))"
      "rd ?rcd 3 = Some (of_nat (length ?hello))" "rd ?rcd 0 = Some 1" "\<not> length ?rcd < 4"
    by (simp_all add: be24_bytes_def rd_def numeral_2_eq_2 numeral_3_eq_3)
  have 4: "be24 (of_nat (drop_bit 16 (length ?hello))) (of_nat (drop_bit 8 (length ?hello))) (of_nat (length ?hello)) = length ?hello"
    using assms by (intro be24_be24_bytes) simp
  have 5: "rd ?data 0 = Some 0x16" "\<not> length ?data < 5" by (simp_all add: record_bytes_def rd_def len16_def)
  obtain n where n: "read_be16 ?data 3 = Some n" "unat n = length ?rcd" using r(1) [OF small] by blast
  show ?thesis
    unfolding extract_sni_def n(1) 5(1) by (simp only: n(2) 1 2 3 4 5 bind.bind_lunit try_some_simps if_False simp_thms)
qed

lemma record_cut:
  assumes "length (hello_bytes h) < 65532" "k < length (record_bytes major minor h)"
  shows "extract_sni (take k (record_bytes major minor h)) = Some None"
proof (cases "k < 5")
  case True
  then have "length (take k (record_bytes major minor h)) < 5" by simp
  then show ?thesis unfolding extract_sni_def by (simp only: if_True)
next
  case False
  let ?rcd = "0x01 # be24_bytes (length (hello_bytes h)) @ hello_bytes h"
  let ?w = "of_nat (length ?rcd) :: u16"
  have size: "length (record_bytes major minor h) = 5 + length ?rcd" by (simp add: record_bytes_def len16_def)
  have w: "unat ?w = length ?rcd" using assms(1) by (intro unat_of_nat_small) (simp add: be24_bytes_def)
  have "drop 3 (take k (record_bytes major minor h)) = be16_bytes ?w @ take (k - 5) ?rcd"
    using False by (simp add: record_bytes_def len16_def drop_take take_append)
  then have "read_be16 (take k (record_bytes major minor h)) 3 = Some ?w" by (rule read_be16_drop)
  moreover have "get_range (take k (record_bytes major minor h)) 5 (5 + length ?rcd) = None"
    using assms(2) size by (simp add: get_range_def)
  moreover have "rd (take k (record_bytes major minor h)) 0 = Some 0x16" "\<not> length (take k (record_bytes major minor h)) < 5"
    using False assms(2) size by (simp_all add: record_bytes_def rd_def len16_def)
  ultimately show ?thesis
    unfolding extract_sni_def by (simp only: w bind.bind_lunit try_some_simps if_False simp_thms)
qed

text \<open>
  Claim C40.  The server name is read back from every ClientHello that fits a TLS record: whatever
  session id, cipher suites, compression methods and extensions it has, whatever other names stand
  before the host name, and whatever bytes follow the record, the name of the first \<open>host_name\<close>
  entry of the first \<open>server_name\<close> extension is returned when it is UTF-8; while the record is not
  complete there is no name; and no input at all makes the reader panic.
\<close>

theorem sni_roundtrip:
  assumes "hello_ok h" "ch_extensions h = before @ (0, server_name (names @ (0, host) # others)) # after"
    and "\<forall>e\<in>set before. fst e \<noteq> 0" "\<forall>e\<in>set names. fst e \<noteq> 0"
  shows "extract_sni (record_bytes major minor h @ rest) = Some (from_utf8 host) \<and>
    (\<forall>k < length (record_bytes major minor h). extract_sni (take k (record_bytes major minor h)) = Some None) \<and>
    (\<forall>data. no_panic (extract_sni data))"
  using assms(1) hello_sni_written [OF assms] record_written record_cut extract_sni_no_panic by (simp add: hello_ok_def)

definition demo_hello :: client_hello where
  "demo_hello = \<lparr> ch_version_random = [3, 3] @ replicate 32 0, ch_session = [], ch_suites = [0x13, 1], ch_compression = [0],
     ch_extensions = [(10, [1, 2]), (0, server_name [(1, [9]), (0, [97, 46, 98])])] \<rparr>"

theorem sni_roundtrip_witness:
  "hello_ok demo_hello \<and> extract_sni (record_bytes 3 3 demo_hello) = Some (Some [97, 46, 98]) \<and>
   extract_sni (take 60 (record_bytes 3 3 demo_hello)) = Some None"
proof -
  have ok: "hello_ok demo_hello"
    by (simp add: hello_ok_def demo_hello_def hello_bytes_def len8_def len16_def hello_extension_def server_name_def name_entry_def)
  have exts: "ch_extensions demo_hello = [(10, [1, 2])] @ (0, server_name ([(1, [9])] @ (0, [97, 46, 98]) # [])) # []"
    by (simp add: demo_hello_def)
  have utf8: "from_utf8 [97, 46, 98] = Some [97, 46, 98]" by code_simp
  have size: "60 < length (record_bytes 3 3 demo_hello)"
    by (simp add: demo_hello_def record_bytes_def hello_bytes_def be24_bytes_def len8_def len16_def hello_extension_def
        server_name_def name_entry_def)
  show ?thesis
    using sni_roundtrip [OF ok exts, of 3 3 "[]"] size ok utf8 by simp
qed

end
