(* ===== verification/Attribution.thy ===== *)
theory Attribution
  imports Drive Dns
begin

text \<open>
  \<open>DnsAttribution\<close> of \<open>src/src/libs/agentdp-network/src/gateway/dns.rs\<close>: which names the guest may
  mean by an address.  Names enter through answers to recorded queries and through resolutions the
  proxies report, and leave when their time to live is over.  Instants and durations are
  nanoseconds; the clock is an argument.  An outer \<open>None\<close> is a panic of the message reader.
\<close>

section \<open>Model\<close>

definition dns_attribution_capacity :: "network_limits \<Rightarrow> nat" where
  "dns_attribution_capacity limits =
     saturating_add (saturating_add (tcp_proxy_limit limits) (udp_proxy_limit limits)) (ingress_udp_peer_limit limits)"

record attribution_record =
  at_address :: ip_addr
  at_host :: bytes
  at_expires :: nat

record dns_attribution =
  at_pending :: "dns_question list"
  at_records :: "attribution_record list"
  at_capacity :: nat

definition attribution_new :: "nat \<Rightarrow> dns_attribution" where
  "attribution_new capacity = \<lparr> at_pending = [], at_records = [], at_capacity = capacity \<rparr>"

definition at_record_query :: "bytes \<Rightarrow> dns_attribution \<Rightarrow> dns_attribution option" where
  "at_record_query payload a =
     question_of payload \<bind> (\<lambda>r. Some
       (case r of
          None \<Rightarrow> a
        | Some question \<Rightarrow>
            if question \<in> set (at_pending a) then a
            else if length (at_pending a) < at_capacity a then a\<lparr> at_pending := at_pending a @ [question] \<rparr>
            else a))"

text \<open>\<open>Duration::from_secs\<close>.\<close>

definition from_secs :: "nat \<Rightarrow> nat" where
  "from_secs n = n * 1000000000"

text \<open>One round of the loop of \<open>record\<close>: the first record of the pair is renewed, or one is added.\<close>

definition at_record_address :: "bytes \<Rightarrow> nat \<Rightarrow> ip_addr \<Rightarrow> dns_attribution \<Rightarrow> dns_attribution" where
  "at_record_address host expires address a =
     (case position (\<lambda>r. at_address r = address \<and> at_host r = host) (at_records a) of
        Some i \<Rightarrow> a\<lparr> at_records := (at_records a)[i := (at_records a ! i)\<lparr> at_expires := expires \<rparr>] \<rparr>
      | None \<Rightarrow>
          if length (at_records a) < at_capacity a
          then a\<lparr> at_records := at_records a @ [\<lparr> at_address = address, at_host = host, at_expires = expires \<rparr>] \<rparr>
          else a)"

definition at_record :: "nat \<Rightarrow> bytes \<Rightarrow> ip_addr list \<Rightarrow> nat \<Rightarrow> dns_attribution \<Rightarrow> dns_attribution" where
  "at_record now host addresses ttl a =
     fold (at_record_address (normalized_host host) (now + max ttl (from_secs 1))) addresses a"

definition at_record_response :: "nat \<Rightarrow> bytes \<Rightarrow> dns_attribution \<Rightarrow> dns_attribution option" where
  "at_record_response now payload a =
     question_of payload \<bind> (\<lambda>r.
       case r of
         None \<Rightarrow> Some a
       | Some question \<Rightarrow>
          (case position (\<lambda>p. p = question) (at_pending a) of
             None \<Rightarrow> Some a
           | Some i \<Rightarrow>
               let question = at_pending a ! i;
                   a = a\<lparr> at_pending := take i (at_pending a) @ drop (Suc i) (at_pending a) \<rparr>
               in address_records payload \<bind> (\<lambda>records.
                    Some (at_record now (dq_host question) (da_addresses records) (from_secs (da_ttl records)) a))))"

definition at_purge :: "nat \<Rightarrow> dns_attribution \<Rightarrow> dns_attribution" where
  "at_purge now a = a\<lparr> at_records := filter (\<lambda>r. now < at_expires r) (at_records a) \<rparr>"

definition hosts_for_ip :: "nat \<Rightarrow> ip_addr \<Rightarrow> dns_attribution \<Rightarrow> dns_attribution \<times> bytes list" where
  "hosts_for_ip now address a =
     (let a = at_purge now a in (a, map at_host (filter (\<lambda>r. at_address r = address) (at_records a))))"

definition has_allowed_authority_for_ip ::
    "nat \<Rightarrow> ip_addr \<Rightarrow> egress_policy \<Rightarrow> dns_attribution \<Rightarrow> dns_attribution \<times> bool" where
  "has_allowed_authority_for_ip now address p a =
     (if \<not> restricts_authorities p then (a, True)
      else let a = at_purge now a in
        (a, list_ex (\<lambda>h. allows_authority p (authority_new h)) (map at_host (filter (\<lambda>r. at_address r = address) (at_records a)))))"

section \<open>Where a name comes from\<close>

text \<open>
  The calls the gateway makes, with the time of each: a query of the guest passed on, a datagram
  handed back to it, a resolution reported by a proxy, and the two lookups.
\<close>

datatype attribution_call =
  AtQuery bytes
| AtResponse nat bytes
| AtResolution nat bytes "ip_addr list" nat
| AtHosts nat ip_addr
| AtAllowed nat ip_addr egress_policy

fun attribution_step :: "attribution_call \<Rightarrow> dns_attribution \<Rightarrow> dns_attribution option" where
  "attribution_step (AtQuery payload) a = at_record_query payload a"
| "attribution_step (AtResponse now payload) a = at_record_response now payload a"
| "attribution_step (AtResolution now host addresses ttl) a = Some (at_record now host addresses ttl a)"
| "attribution_step (AtHosts now address) a = Some (fst (hosts_for_ip now address a))"
| "attribution_step (AtAllowed now address p) a = Some (fst (has_allowed_authority_for_ip now address p a))"

fun attribution_run :: "attribution_call list \<Rightarrow> dns_attribution \<Rightarrow> dns_attribution option" where
  "attribution_run [] a = Some a"
| "attribution_run (c # cs) a = attribution_step c a \<bind> attribution_run cs"

text \<open>
  A call says that an address belongs to a name until some time: a resolution says so itself; a
  response does when its question was asked in an earlier call.
\<close>

definition asked :: "attribution_call list \<Rightarrow> dns_question \<Rightarrow> bool" where
  "asked cs q \<longleftrightarrow> (\<exists>payload. AtQuery payload \<in> set cs \<and> question_of payload = Some (Some q))"

fun attributes :: "attribution_call list \<Rightarrow> attribution_call \<Rightarrow> ip_addr \<Rightarrow> bytes \<Rightarrow> nat \<Rightarrow> bool" where
  "attributes before (AtResolution now host addresses ttl) address name expires \<longleftrightarrow>
     address \<in> set addresses \<and> name = normalized_host host \<and> expires = now + max ttl (from_secs 1)"
| "attributes before (AtResponse now payload) address name expires \<longleftrightarrow>
     (\<exists>q records. question_of payload = Some (Some q) \<and> asked before q \<and> address_records payload = Some records \<and>
        address \<in> set (da_addresses records) \<and> name = normalized_host (dq_host q) \<and>
        expires = now + max (from_secs (da_ttl records)) (from_secs 1))"
| "attributes before _ address name expires \<longleftrightarrow> False"

definition attributed :: "attribution_call list \<Rightarrow> ip_addr \<Rightarrow> bytes \<Rightarrow> nat \<Rightarrow> bool" where
  "attributed cs address name expires \<longleftrightarrow>
     (\<exists>before c after. cs = before @ c # after \<and> attributes before c address name expires)"

lemma asked_append: "asked (cs @ ds) q \<longleftrightarrow> asked cs q \<or> asked ds q"
  by (auto simp: asked_def)

lemma attributed_snoc:
  "attributed (cs @ [c]) address name expires \<longleftrightarrow> attributed cs address name expires \<or> attributes cs c address name expires"
proof
  assume "attributed (cs @ [c]) address name expires"
  then obtain before d after where *: "cs @ [c] = before @ d # after" "attributes before d address name expires"
    by (auto simp: attributed_def)
  then show "attributed cs address name expires \<or> attributes cs c address name expires"
    by (cases after rule: rev_cases) (auto simp: attributed_def)
next
  assume "attributed cs address name expires \<or> attributes cs c address name expires"
  then show "attributed (cs @ [c]) address name expires"
    unfolding attributed_def by (metis append_Cons append_assoc)
qed

definition at_ok :: "attribution_call list \<Rightarrow> nat \<Rightarrow> dns_attribution \<Rightarrow> bool" where
  "at_ok cs capacity a \<longleftrightarrow>
     at_capacity a = capacity \<and> length (at_pending a) \<le> capacity \<and> length (at_records a) \<le> capacity \<and>
     distinct (at_pending a) \<and> distinct (map (\<lambda>r. (at_address r, at_host r)) (at_records a)) \<and>
     (\<forall>q\<in>set (at_pending a). asked cs q) \<and>
     (\<forall>r\<in>set (at_records a). attributed cs (at_address r) (at_host r) (at_expires r))"

lemma at_ok_more: "at_ok cs capacity a \<Longrightarrow> at_ok (cs @ [c]) capacity a"
  by (auto simp: at_ok_def asked_append attributed_snoc)

lemma at_purge_ok: "at_ok cs capacity a \<Longrightarrow> at_ok cs capacity (at_purge now a)"
  by (auto simp: at_ok_def at_purge_def distinct_map_filter intro: order_trans [OF length_filter_le])

lemma at_record_address_ok:
  assumes "at_ok cs capacity a" "attributed cs address host expires"
  shows "at_ok cs capacity (at_record_address host expires address a)"
proof (cases "position (\<lambda>r. at_address r = address \<and> at_host r = host) (at_records a)")
  case None
  then have "\<forall>r\<in>set (at_records a). (at_address r, at_host r) \<noteq> (address, host)" by (auto simp: position_None)
  then show ?thesis using assms None by (auto simp: at_record_address_def at_ok_def)
next
  case (Some i)
  note i = Some [unfolded position_Some]
  have "map (\<lambda>r. (at_address r, at_host r)) ((at_records a)[i := (at_records a ! i)\<lparr> at_expires := expires \<rparr>]) =
    map (\<lambda>r. (at_address r, at_host r)) (at_records a)"
    using i by (simp add: map_update) (metis (no_types, lifting) list_update_id length_map nth_map)
  then show ?thesis
    using assms Some i by (auto simp: at_record_address_def at_ok_def dest!: subsetD [OF set_update_subset_insert])
qed

lemma at_record_ok:
  assumes "at_ok cs capacity a"
    and "\<And>address. address \<in> set addresses \<Longrightarrow>
      attributed cs address (normalized_host host) (now + max ttl (from_secs 1))"
  shows "at_ok cs capacity (at_record now host addresses ttl a)"
  using assms unfolding at_record_def by (induction addresses arbitrary: a) (auto intro: at_record_address_ok)

lemma at_record_pending [simp]: "at_pending (at_record now host addresses ttl a) = at_pending a"
  unfolding at_record_def
  by (induction addresses arbitrary: a) (auto simp: at_record_address_def split: option.split)

lemma at_record_query_ok:
  assumes "at_ok cs capacity a"
  shows "\<exists>a'. at_record_query payload a = Some a' \<and> at_ok (cs @ [AtQuery payload]) capacity a'"
proof -
  obtain r where "question_of payload = Some r" using question_of_no_panic by (rule no_panic_E)
  with at_ok_more [OF assms, of "AtQuery payload"] show ?thesis
    by (cases r) (auto simp: at_record_query_def at_ok_def asked_append, auto simp: asked_def)
qed

lemma at_record_response_ok:
  assumes "at_ok cs capacity a"
  shows "\<exists>a'. at_record_response now payload a = Some a' \<and> at_ok (cs @ [AtResponse now payload]) capacity a'"
proof -
  let ?cs = "cs @ [AtResponse now payload]"
  obtain r where q: "question_of payload = Some r" using question_of_no_panic by (rule no_panic_E)
  obtain records where records: "address_records payload = Some records" using address_records_no_panic by (rule no_panic_E)
  note ok = at_ok_more [OF assms, of "AtResponse now payload"]
  show ?thesis
  proof (cases "r = None \<or> position (\<lambda>p. p = the r) (at_pending a) = None")
    case True
    then show ?thesis using q ok by (cases r) (auto simp: at_record_response_def)
  next
    case False
    then obtain question i where r: "r = Some question" and p: "position (\<lambda>p. p = question) (at_pending a) = Some i" by auto
    let ?a = "a\<lparr> at_pending := take i (at_pending a) @ drop (Suc i) (at_pending a) \<rparr>"
    have i: "i < length (at_pending a)" "at_pending a ! i = question" using p by (auto simp: position_Some)
    have split: "at_pending a = take i (at_pending a) @ question # drop (Suc i) (at_pending a)"
      using i by (metis id_take_nth_drop)
    have "asked cs question" using assms i nth_mem by (fastforce simp: at_ok_def)
    then have "attributed ?cs address (normalized_host (dq_host question)) (now + max (from_secs (da_ttl records)) (from_secs 1))"
      if "address \<in> set (da_addresses records)" for address
      using that q r records by (auto simp: attributed_snoc)
    moreover have "distinct (at_pending ?a)" "set (at_pending ?a) \<subseteq> set (at_pending a)" "length (at_pending ?a) \<le> length (at_pending a)"
      using ok split by (auto simp: at_ok_def dest: in_set_takeD in_set_dropD)
        (metis distinct.simps(2) distinct_append disjoint_insert(1) list.simps(15) Int_commute disjoint_iff)
    then have "at_ok ?cs capacity ?a" using ok by (auto simp: at_ok_def)
    ultimately have "at_ok ?cs capacity (at_record now (dq_host question) (da_addresses records) (from_secs (da_ttl records)) ?a)"
      by (intro at_record_ok)
    then show ?thesis using q r p records i by (simp add: at_record_response_def Let_def)
  qed
qed

lemma attribution_step_ok:
  assumes "at_ok cs capacity a"
  shows "\<exists>a'. attribution_step c a = Some a' \<and> at_ok (cs @ [c]) capacity a'"
proof (cases c)
  case (AtQuery payload)
  then show ?thesis using at_record_query_ok [OF assms] by simp
next
  case (AtResponse now payload)
  then show ?thesis using at_record_response_ok [OF assms] by simp
next
  case (AtResolution now host addresses ttl)
  then show ?thesis using at_ok_more [OF assms, of c] by (auto intro!: at_record_ok simp: attributed_snoc)
next
  case (AtHosts now address)
  then show ?thesis using at_purge_ok [OF at_ok_more [OF assms, of c]] by (simp add: hosts_for_ip_def Let_def)
next
  case (AtAllowed now address p)
  then show ?thesis
    using at_purge_ok [OF at_ok_more [OF assms, of c]] at_ok_more [OF assms, of c]
    by (simp add: has_allowed_authority_for_ip_def Let_def)
qed

lemma attribution_run_ok:
  assumes "at_ok before capacity a"
  shows "\<exists>a'. attribution_run cs a = Some a' \<and> at_ok (before @ cs) capacity a'"
  using assms
proof (induction cs arbitrary: before a)
  case (Cons c cs)
  then obtain a1 where a1: "attribution_step c a = Some a1" "at_ok (before @ [c]) capacity a1"
    using attribution_step_ok by blast
  then show ?case using Cons.IH [OF a1(2)] by simp
qed simp

lemma attribution_new_ok: "at_ok [] capacity (attribution_new capacity)"
  by (simp add: at_ok_def attribution_new_def)

lemma normalized_attribution: "attributed cs address name expires \<Longrightarrow> normalized_host name = name"
  by (auto simp: attributed_def normalized_host_idem elim!: attributes.elims)

lemma hosts_for_ip_iff:
  "host \<in> set (snd (hosts_for_ip now address a)) \<longleftrightarrow>
     (\<exists>r\<in>set (at_records a). now < at_expires r \<and> at_address r = address \<and> at_host r = host)"
  by (auto simp: hosts_for_ip_def at_purge_def Let_def)

lemma has_allowed_iff:
  "snd (has_allowed_authority_for_ip now address p a) \<longleftrightarrow>
     (restricts_authorities p \<longrightarrow>
       (\<exists>host\<in>set (snd (hosts_for_ip now address a)). normalized_host host \<in> allowed_authorities p))"
  by (auto simp: has_allowed_authority_for_ip_def hosts_for_ip_def at_purge_def Let_def list_ex_iff
      allows_authority_def authority_new_def)

text \<open>
  Claim C11.  Addresses are tied to names only by evidence that is still valid: whatever calls were
  made, no call panics, both tables stay within their capacity, an address is looked up as a name
  only while an answer to a query the guest made, or a resolution a proxy reported, gave that
  name that address and its time to live (at least a second) is not over, and an egress policy
  with an allow list accepts an address only when such a name is on the list.
\<close>

theorem attribution_sound:
  assumes "restricts_authorities p"
  shows "\<exists>a. attribution_run cs (attribution_new capacity) = Some a \<and>
    length (at_pending a) \<le> capacity \<and> length (at_records a) \<le> capacity \<and>
    (\<forall>now address host. host \<in> set (snd (hosts_for_ip now address a)) \<longrightarrow>
       (\<exists>expires. attributed cs address host expires \<and> now < expires)) \<and>
    (\<forall>now address. snd (has_allowed_authority_for_ip now address p a) \<longrightarrow>
       (\<exists>host expires. attributed cs address host expires \<and> now < expires \<and> host \<in> allowed_authorities p))"
proof -
  obtain a where a: "attribution_run cs (attribution_new capacity) = Some a" "at_ok cs capacity a"
    using attribution_run_ok [OF attribution_new_ok] by fastforce
  have hosts: "\<exists>expires. attributed cs address host expires \<and> now < expires"
    if "host \<in> set (snd (hosts_for_ip now address a))" for now address host
    using that a(2) by (auto simp: hosts_for_ip_iff at_ok_def)
  have "\<exists>host expires. attributed cs address host expires \<and> now < expires \<and> host \<in> allowed_authorities p"
    if "snd (has_allowed_authority_for_ip now address p a)" for now address
    using that assms hosts normalized_attribution by (auto simp: has_allowed_iff) metis
  with a hosts show ?thesis by (auto simp: at_ok_def)
qed

text \<open>
  What a proxy reports is found again while it is valid, as long as the table has room for every
  address of the answer.
\<close>

lemma at_record_address_found:
  assumes "length (at_records a) < at_capacity a"
  shows "\<exists>r\<in>set (at_records (at_record_address host expires address a)). at_address r = address \<and> at_host r = host \<and> at_expires r = expires"
proof (cases "position (\<lambda>r. at_address r = address \<and> at_host r = host) (at_records a)")
  case None
  then show ?thesis using assms by (simp add: at_record_address_def)
next
  case (Some i)
  then have i: "i < length (at_records a)" "at_address (at_records a ! i) = address" "at_host (at_records a ! i) = host"
    by (auto simp: position_Some)
  have "(at_records a ! i)\<lparr> at_expires := expires \<rparr> \<in> set ((at_records a)[i := (at_records a ! i)\<lparr> at_expires := expires \<rparr>])"
    using i(1) by (rule set_update_memI)
  then show ?thesis using Some i by (simp add: at_record_address_def) (rule bexI, simp_all)
qed

lemma at_record_address_keeps:
  assumes "\<exists>r\<in>set (at_records a). at_address r = address \<and> at_host r = host \<and> at_expires r = expires"
  shows "\<exists>r\<in>set (at_records (at_record_address host expires other a)). at_address r = address \<and> at_host r = host \<and> at_expires r = expires"
proof (cases "position (\<lambda>r. at_address r = other \<and> at_host r = host) (at_records a)")
  case None
  then show ?thesis using assms by (auto simp: at_record_address_def)
next
  case (Some i)
  from assms obtain k where k: "k < length (at_records a)" "at_address (at_records a ! k) = address"
      "at_host (at_records a ! k) = host" "at_expires (at_records a ! k) = expires"
    by (auto simp: in_set_conv_nth)
  let ?rs = "(at_records a)[i := (at_records a ! i)\<lparr> at_expires := expires \<rparr>]"
  have nth: "?rs ! k = (if k = i then (at_records a ! k)\<lparr> at_expires := expires \<rparr> else at_records a ! k)"
    using k(1) by (simp add: nth_list_update)
  have "at_address (?rs ! k) = address \<and> at_host (?rs ! k) = host \<and> at_expires (?rs ! k) = expires"
    unfolding nth using k by auto
  moreover have "?rs ! k \<in> set ?rs" using k(1) by (intro nth_mem) simp
  ultimately have "\<exists>r\<in>set ?rs. at_address r = address \<and> at_host r = host \<and> at_expires r = expires" by blast
  then show ?thesis using Some by (simp add: at_record_address_def)
qed

lemma at_record_address_length:
  "length (at_records (at_record_address host expires address a)) \<le> Suc (length (at_records a))"
  "at_capacity (at_record_address host expires address a) = at_capacity a"
  by (auto simp: at_record_address_def split: option.split)

lemma at_record_found:
  assumes "address \<in> set addresses" "length (at_records a) + length addresses \<le> at_capacity a"
    and "later < now + max ttl (from_secs 1)"
  shows "normalized_host host \<in> set (snd (hosts_for_ip later address (at_record now host addresses ttl a)))"
proof -
  let ?e = "now + max ttl (from_secs 1)"
  let ?has = "\<lambda>a. \<exists>r\<in>set (at_records a). at_address r = address \<and> at_host r = normalized_host host \<and> at_expires r = ?e"
  have keeps: "?has a \<Longrightarrow> ?has (fold (at_record_address (normalized_host host) ?e) addresses a)" for addresses a
    by (induction addresses arbitrary: a) (simp_all add: at_record_address_keeps)
  have "?has (fold (at_record_address (normalized_host host) ?e) addresses a)" using assms(1,2)
  proof (induction addresses arbitrary: a)
    case (Cons x addresses)
    show ?case
    proof (cases "x = address")
      case True
      have "?has (at_record_address (normalized_host host) ?e address a)"
        by (rule at_record_address_found) (use Cons.prems(2) in simp)
      then show ?thesis unfolding True fold_simps by (rule keeps)
    next
      case False
      then show ?thesis
        using Cons at_record_address_length [of "normalized_host host" ?e x a] by simp
    qed
  qed simp
  then show ?thesis unfolding hosts_for_ip_iff at_record_def using assms(3) by metis
qed

text \<open>
  With a full table it is not, even when all its records are out of date: recording does not purge.
\<close>

lemma expired_records_block_new_ones:
  "snd (hosts_for_ip (from_secs 100) (V4 (Ipv4 2 2 2 2))
     (at_record (from_secs 100) [98] [V4 (Ipv4 2 2 2 2)] (from_secs 60)
       (at_record 0 [97] [V4 (Ipv4 1 1 1 1)] (from_secs 60) (attribution_new 1)))) = []"
proof -
  have "normalized_host [97] = [97]" "normalized_host [98] = [98]" by code_simp+
  then show ?thesis
    by (simp add: at_record_def at_record_address_def attribution_new_def from_secs_def hosts_for_ip_def at_purge_def Let_def)
qed

theorem attribution_sound_witness:
  "restricts_authorities (with_allowed_authority [97] allow_all) \<and>
   (\<exists>a. attribution_run [AtResolution 0 [65] [V4 (Ipv4 1 1 1 1)] 5] (attribution_new 1) = Some a \<and>
      snd (has_allowed_authority_for_ip 4 (V4 (Ipv4 1 1 1 1)) (with_allowed_authority [97] allow_all) a) \<and>
      (\<exists>host expires. attributed [AtResolution 0 [65] [V4 (Ipv4 1 1 1 1)] 5] (V4 (Ipv4 1 1 1 1)) host expires \<and>
         4 < expires \<and> host \<in> allowed_authorities (with_allowed_authority [97] allow_all)))"
proof -
  let ?cs = "[AtResolution 0 [65] [V4 (Ipv4 1 1 1 1)] 5]" and ?p = "with_allowed_authority [97] allow_all"
  have p: "restricts_authorities ?p" by (simp add: restricts_authorities_def with_allowed_authority_def)
  have n: "normalized_host [65] = [97]" "normalized_host [97] = [97]" by code_simp+
  from attribution_sound [OF p, of ?cs 1] obtain a where a: "attribution_run ?cs (attribution_new 1) = Some a"
    and sound: "\<forall>now address. snd (has_allowed_authority_for_ip now address ?p a) \<longrightarrow>
      (\<exists>host expires. attributed ?cs address host expires \<and> now < expires \<and> host \<in> allowed_authorities ?p)"
    by blast
  have "normalized_host [65] \<in> set (snd (hosts_for_ip 4 (V4 (Ipv4 1 1 1 1)) a))"
    using a by (auto intro!: at_record_found simp: attribution_new_def from_secs_def)
  then have "snd (has_allowed_authority_for_ip 4 (V4 (Ipv4 1 1 1 1)) ?p a)"
    by (auto simp: has_allowed_iff n with_allowed_authority_def intro!: bexI [of _ "[97]"])
  with p a sound show ?thesis by blast
qed

end
