(* ===== verification/TlsRoute.thy ===== *)
theory TlsRoute
  imports Sni Attribution GuestIo
begin

text \<open>
  Which TLS connections of the guest are mediated, passed through or refused:
  \<open>tls/intercept.rs\<close>, which prepares a policy per connection, the lookups of \<open>TlsEgressPolicy\<close> in
  \<open>network.rs\<close>, and of \<open>egress/tcp/tls.rs\<close> the reading of the ClientHello and \<open>tls_route\<close>.

  Certificates are an argument: how the authority is loaded, how the client configuration is made
  and how a certificate for a host is issued.  \<open>SystemTime\<close> is nanoseconds since the epoch; the time
  read by the clock and the one read while a certificate is issued are arguments.
\<close>

section \<open>Policies and routes\<close>

datatype block_reason = AuthorityNotAllowed | TlsInterceptUnavailable

datatype application_policy = PolicyRaw | PolicyHttp1 runtime_secrets | PolicyBlock block_reason

record egress_decision =
  ed_application :: application_policy

record tcp_egress_policy =
  tp_decision :: egress_decision
  tp_reject_secret_placeholders :: bool

record ('ca, 'cc, 'sc) tls_egress_policy =
  te_dst :: socket_addr
  te_client_config :: 'cc
  te_certificate_authority :: 'ca
  te_egress :: egress_policy
  te_secrets :: runtime_secrets
  te_bypass_hosts :: "bytes list"
  te_server_configs :: "(authority \<times> 'sc) list"
  te_decisions :: "(authority \<times> egress_decision) list"

datatype ('ca, 'cc, 'sc) tcp_route =
  RoutePlain tcp_egress_policy
| RouteDns socket_addr
| RouteTls "('ca, 'cc, 'sc) tls_egress_policy"

definition authority_value :: "(authority \<times> 'v) list \<Rightarrow> authority \<Rightarrow> 'v option" where
  "authority_value entries authority = map_option snd (find (\<lambda>(candidate, _). candidate = authority) entries)"

definition decision_for :: "('ca, 'cc, 'sc) tls_egress_policy \<Rightarrow> authority \<Rightarrow> egress_decision option" where
  "decision_for p authority = authority_value (te_decisions p) authority"

definition policy_server_config_for :: "('ca, 'cc, 'sc) tls_egress_policy \<Rightarrow> authority \<Rightarrow> 'sc option" where
  "policy_server_config_for p authority = authority_value (te_server_configs p) authority"

section \<open>Interception\<close>

record tls_intercept_config =
  ca_cert_pem :: bytes
  ca_key_pem :: bytes
  upstream_root_ca_pems :: "bytes list"
  intercepted_ports :: "u16 list"
  bypass_hosts :: "bytes list"

definition is_enabled :: "tls_intercept_config \<Rightarrow> bool" where
  "is_enabled c \<longleftrightarrow> ca_cert_pem c \<noteq> [] \<and> ca_key_pem c \<noteq> []"

definition config_intercepts_port :: "tls_intercept_config \<Rightarrow> u16 \<Rightarrow> bool" where
  "config_intercepts_port c port \<longleftrightarrow> port \<in> set (intercepted_ports c)"

record 'sc cached_server_cert =
  cert_expires_at :: nat
  cert_server_config :: 'sc

record ('ca, 'cc, 'sc) tls_intercept_state =
  ts_ca :: 'ca
  ts_client_config :: 'cc
  ts_bypass_hosts :: "bytes list"
  ts_certs :: "(authority \<times> 'sc cached_server_cert) list"

record ('ca, 'cc, 'sc) tls_intercept =
  ti_config :: tls_intercept_config
  ti_state :: "('ca, 'cc, 'sc) tls_intercept_state option"

record ('ca, 'cc, 'sc, 'e) crypto =
  load_ca :: "bytes \<Rightarrow> bytes \<Rightarrow> ('ca, 'e) result"
  client_config_with_roots :: "bytes list \<Rightarrow> ('cc, 'e) result"
  server_config_for_host :: "'ca \<Rightarrow> bytes \<Rightarrow> nat \<Rightarrow> nat \<Rightarrow> ('sc, 'e) result"

definition tls_intercept_new :: "tls_intercept_config \<Rightarrow> ('ca, 'cc, 'sc) tls_intercept" where
  "tls_intercept_new config = \<lparr> ti_config = config, ti_state = None \<rparr>"

definition intercepts_port :: "('ca, 'cc, 'sc) tls_intercept \<Rightarrow> u16 \<Rightarrow> bool" where
  "intercepts_port ti port \<longleftrightarrow> is_enabled (ti_config ti) \<and> config_intercepts_port (ti_config ti) port"

definition CERT_VALIDITY :: nat where "CERT_VALIDITY = from_secs (24 * 60 * 60)"
definition CERT_REFRESH_MARGIN :: nat where "CERT_REFRESH_MARGIN = from_secs (5 * 60)"

text \<open>\<open>CertificateValidity::valid_for\<close>: \<open>not_before\<close> saturates at the epoch.\<close>

definition generate_server_cert ::
    "('ca, 'cc, 'sc, 'e) crypto \<Rightarrow> nat \<Rightarrow> bytes \<Rightarrow> 'ca \<Rightarrow> ('sc cached_server_cert, 'e) result" where
  "generate_server_cert cr issue_time host ca =
     (case server_config_for_host cr ca host (issue_time - CERT_REFRESH_MARGIN) (issue_time + CERT_VALIDITY) of
        Err e \<Rightarrow> Err e
      | Ok config \<Rightarrow> Ok \<lparr> cert_expires_at = issue_time + CERT_VALIDITY, cert_server_config = config \<rparr>)"

definition tls_normalize_host :: "bytes \<Rightarrow> bytes" where
  "tls_normalize_host host = to_ascii_lowercase (trim_end_dots host)"

definition tls_state_new ::
    "('ca, 'cc, 'sc, 'e) crypto \<Rightarrow> tls_intercept_config \<Rightarrow> (('ca, 'cc, 'sc) tls_intercept_state, 'e) result" where
  "tls_state_new cr config =
     (case load_ca cr (ca_cert_pem config) (ca_key_pem config) of
        Err e \<Rightarrow> Err e
      | Ok ca \<Rightarrow>
         (case client_config_with_roots cr (upstream_root_ca_pems config) of
            Err e \<Rightarrow> Err e
          | Ok cc \<Rightarrow> Ok \<lparr> ts_ca = ca, ts_client_config = cc,
              ts_bypass_hosts = map tls_normalize_host (bypass_hosts config), ts_certs = [] \<rparr>))"

text \<open>The clock's time and the time of issue; a certificate is replaced five minutes before it expires.\<close>

definition state_server_config_for ::
    "('ca, 'cc, 'sc, 'e) crypto \<Rightarrow> nat \<Rightarrow> nat \<Rightarrow> authority \<Rightarrow> ('ca, 'cc, 'sc) tls_intercept_state \<Rightarrow>
     ('ca, 'cc, 'sc) tls_intercept_state \<times> ('sc, 'e) result" where
  "state_server_config_for cr now issue_time authority st =
     (let existing = position (\<lambda>(candidate, _). candidate = authority) (ts_certs st);
          fresh = (case existing of
              None \<Rightarrow> None
            | Some index \<Rightarrow>
                let cert = snd (ts_certs st ! index) in
                if now \<le> cert_expires_at cert \<and> cert_expires_at cert - now > CERT_REFRESH_MARGIN then Some cert else None)
      in case fresh of
        Some cert \<Rightarrow> (st, Ok (cert_server_config cert))
      | None \<Rightarrow>
         (case generate_server_cert cr issue_time (as_str authority) (ts_ca st) of
            Err e \<Rightarrow> (st, Err e)
          | Ok cert \<Rightarrow>
              (st\<lparr> ts_certs := (case existing of
                    Some index \<Rightarrow> (ts_certs st)[index := (authority, cert)]
                  | None \<Rightarrow> ts_certs st @ [(authority, cert)]) \<rparr>,
               Ok (cert_server_config cert))))"

definition upsert_authority_value :: "authority \<Rightarrow> 'v \<Rightarrow> (authority \<times> 'v) list \<Rightarrow> (authority \<times> 'v) list" where
  "upsert_authority_value authority v entries =
     (case position (\<lambda>(candidate, _). candidate = authority) entries of
        Some i \<Rightarrow> entries[i := (authority, v)]
      | None \<Rightarrow> entries @ [(authority, v)])"

text \<open>The loop of \<open>tls_egress_policy\<close>, with one time of issue per authority.\<close>

fun prepare_authorities ::
    "('ca, 'cc, 'sc, 'e) crypto \<Rightarrow> nat \<Rightarrow> network_policy \<Rightarrow> (nat \<times> authority) list \<Rightarrow>
     (authority \<times> 'sc) list \<Rightarrow> (authority \<times> egress_decision) list \<Rightarrow> ('ca, 'cc, 'sc) tls_intercept_state \<Rightarrow>
     ('ca, 'cc, 'sc) tls_intercept_state \<times> ((authority \<times> 'sc) list \<times> (authority \<times> egress_decision) list, 'e) result" where
  "prepare_authorities cr now p [] configs decisions st = (st, Ok (configs, decisions))"
| "prepare_authorities cr now p ((issue_time, authority) # rest) configs decisions st =
     (if restricts_authorities (egress p) \<and> \<not> allows_authority (egress p) authority
      then prepare_authorities cr now p rest configs decisions st
      else case state_server_config_for cr now issue_time authority st of
        (st, Err e) \<Rightarrow> (st, Err e)
      | (st, Ok config) \<Rightarrow>
          prepare_authorities cr now p rest (upsert_authority_value authority config configs)
            (upsert_authority_value authority \<lparr> ed_application = PolicyHttp1 (secrets p) \<rparr> decisions) st)"

definition tls_egress_policy_for ::
    "('ca, 'cc, 'sc, 'e) crypto \<Rightarrow> nat \<Rightarrow> socket_addr \<Rightarrow> (nat \<times> authority) list \<Rightarrow> network_policy \<Rightarrow>
     ('ca, 'cc, 'sc) tls_intercept \<Rightarrow> ('ca, 'cc, 'sc) tls_intercept \<times> (('ca, 'cc, 'sc) tls_egress_policy, 'e) result" where
  "tls_egress_policy_for cr now dst authorities p ti =
     (case (case ti_state ti of Some st \<Rightarrow> Ok st | None \<Rightarrow> tls_state_new cr (ti_config ti)) of
        Err e \<Rightarrow> (ti, Err e)
      | Ok st \<Rightarrow>
         (case prepare_authorities cr now p authorities [] [] st of
            (st, Err e) \<Rightarrow> (ti\<lparr> ti_state := Some st \<rparr>, Err e)
          | (st, Ok (configs, decisions)) \<Rightarrow>
              (ti\<lparr> ti_state := Some st \<rparr>,
               Ok \<lparr> te_dst = dst, te_client_config = ts_client_config st, te_certificate_authority = ts_ca st,
                 te_egress = egress p, te_secrets = secrets p, te_bypass_hosts = ts_bypass_hosts st,
                 te_server_configs = configs, te_decisions = decisions \<rparr>)))"

definition server_config_for_sni ::
    "('ca, 'cc, 'sc, 'e) crypto \<Rightarrow> nat \<Rightarrow> ('ca, 'cc, 'sc) tls_egress_policy \<Rightarrow> authority \<Rightarrow> ('sc, 'e) result" where
  "server_config_for_sni cr issue_time p authority =
     (case policy_server_config_for p authority of
        Some config \<Rightarrow> Ok config
      | None \<Rightarrow>
         (case generate_server_cert cr issue_time (as_str authority) (te_certificate_authority p) of
            Err e \<Rightarrow> Err e
          | Ok cert \<Rightarrow> Ok (cert_server_config cert)))"

section \<open>The route of a server name\<close>

datatype tls_route_kind = TlsBypass | TlsDrop block_reason

record 'sc intercepted_tls =
  it_authority :: authority
  it_secrets :: runtime_secrets
  it_server_config :: 'sc

definition bypass_matches :: "bytes \<Rightarrow> bytes \<Rightarrow> bool" where
  "bypass_matches pattern host \<longleftrightarrow> pattern = host \<or>
     (case strip_prefix pattern (byte_string ''*.'') of
        None \<Rightarrow> False
      | Some suffix \<Rightarrow> host = suffix \<or> ends_with host (byte_string ''.'' @ suffix))"

definition should_bypass_tls :: "bytes list \<Rightarrow> bytes \<Rightarrow> bool" where
  "should_bypass_tls patterns host = list_ex (\<lambda>pattern. bypass_matches pattern (tls_normalize_host host)) patterns"

text \<open>\<open>Result<TlsRoute, InterceptedTls>\<close>, whose error is the connection that is to be mediated.\<close>

definition tls_route ::
    "('ca, 'cc, 'sc, 'e) crypto \<Rightarrow> nat \<Rightarrow> ('ca, 'cc, 'sc) tls_egress_policy \<Rightarrow> bytes \<Rightarrow> (tls_route_kind, 'sc intercepted_tls) result" where
  "tls_route cr issue_time p host =
     (let authority = authority_new host;
          with_secrets = (\<lambda>bindings.
            if should_bypass_tls (te_bypass_hosts p) (as_str authority) then Ok TlsBypass
            else case server_config_for_sni cr issue_time p authority of
              Err _ \<Rightarrow> Ok (TlsDrop TlsInterceptUnavailable)
            | Ok config \<Rightarrow> Err \<lparr> it_authority = authority, it_secrets = bindings, it_server_config = config \<rparr>)
      in case map_option ed_application (decision_for p authority) of
        Some PolicyRaw \<Rightarrow> Ok TlsBypass
      | Some (PolicyBlock reason) \<Rightarrow> Ok (TlsDrop reason)
      | Some (PolicyHttp1 bindings) \<Rightarrow> with_secrets bindings
      | None \<Rightarrow>
          if restricts_authorities (te_egress p) \<and> \<not> allows_authority (te_egress p) authority
          then Ok (TlsDrop AuthorityNotAllowed)
          else with_secrets (te_secrets p))"

section \<open>Only allowed names are forwarded\<close>

lemma authority_value_upsert:
  "authority_value (upsert_authority_value a v entries) b = (if a = b then Some v else authority_value entries b)"
proof (induction entries)
  case Nil
  then show ?case by (auto simp: authority_value_def upsert_authority_value_def)
next
  case (Cons e entries)
  then show ?case
    by (cases e) (auto simp: authority_value_def upsert_authority_value_def split: option.splits)
qed

definition admits :: "egress_policy \<Rightarrow> authority \<Rightarrow> bool" where
  "admits p authority \<longleftrightarrow> (restricts_authorities p \<longrightarrow> allows_authority p authority)"

lemma prepare_authorities_decisions:
  assumes "prepare_authorities cr now p authorities configs decisions st = (st', Ok (configs', decisions'))"
  shows "authority_value decisions' a =
    (if a \<in> snd ` set authorities \<and> admits (egress p) a then Some \<lparr> ed_application = PolicyHttp1 (secrets p) \<rparr>
     else authority_value decisions a)"
  using assms
proof (induction authorities arbitrary: configs decisions st)
  case (Cons x authorities)
  obtain issue_time authority where x: "x = (issue_time, authority)" by force
  show ?case
  proof (cases "restricts_authorities (egress p) \<and> \<not> allows_authority (egress p) authority")
    case True
    then show ?thesis using Cons.IH [of configs decisions st] Cons.prems by (auto simp: x admits_def)
  next
    case False
    then obtain config st1 where step: "state_server_config_for cr now issue_time authority st = (st1, Ok config)"
      using Cons.prems by (auto simp: x split: prod.splits result.splits)
    then have "prepare_authorities cr now p authorities (upsert_authority_value authority config configs)
        (upsert_authority_value authority \<lparr> ed_application = PolicyHttp1 (secrets p) \<rparr> decisions) st1 = (st', Ok (configs', decisions'))"
      using Cons.prems False by (simp add: x)
    from Cons.IH [OF this] False show ?thesis by (auto simp: x authority_value_upsert admits_def)
  qed
qed simp

lemma policy_decision:
  assumes "tls_egress_policy_for cr now dst authorities p ti = (ti', Ok pol)"
  shows "decision_for pol a =
      (if a \<in> snd ` set authorities \<and> admits (egress p) a then Some \<lparr> ed_application = PolicyHttp1 (secrets p) \<rparr> else None)"
    and "te_egress pol = egress p" "te_secrets pol = secrets p" "te_dst pol = dst"
proof -
  obtain st st1 configs where prep: "prepare_authorities cr now p authorities [] [] st = (st1, Ok (configs, te_decisions pol))"
    and fields: "te_egress pol = egress p" "te_secrets pol = secrets p" "te_dst pol = dst"
    using assms by (auto simp: tls_egress_policy_for_def split: result.splits prod.splits)
  show "decision_for pol a =
      (if a \<in> snd ` set authorities \<and> admits (egress p) a then Some \<lparr> ed_application = PolicyHttp1 (secrets p) \<rparr> else None)"
    unfolding decision_for_def prepare_authorities_decisions [OF prep] by (simp add: authority_value_def)
qed (use assms in \<open>auto simp: tls_egress_policy_for_def split: result.splits prod.splits\<close>)

text \<open>Cached certificates were issued by the loaded authority for the name they are kept under.\<close>

definition issued_for :: "('ca, 'cc, 'sc, 'e) crypto \<Rightarrow> 'ca \<Rightarrow> authority \<Rightarrow> 'sc \<Rightarrow> nat \<Rightarrow> bool" where
  "issued_for cr ca authority config expires \<longleftrightarrow>
     (\<exists>t. expires = t + CERT_VALIDITY \<and>
        server_config_for_host cr ca (as_str authority) (t - CERT_REFRESH_MARGIN) (t + CERT_VALIDITY) = Ok config)"

definition certs_ok :: "('ca, 'cc, 'sc, 'e) crypto \<Rightarrow> 'ca \<Rightarrow> (authority \<times> 'sc cached_server_cert) list \<Rightarrow> bool" where
  "certs_ok cr ca certs \<longleftrightarrow> (\<forall>(a, c)\<in>set certs. issued_for cr ca a (cert_server_config c) (cert_expires_at c))"

lemma generate_issued:
  "generate_server_cert cr t (as_str a) ca = Ok cert \<Longrightarrow> issued_for cr ca a (cert_server_config cert) (cert_expires_at cert)"
  by (auto simp: generate_server_cert_def issued_for_def split: result.splits)

lemma state_server_config_issued:
  assumes "certs_ok cr (ts_ca st) (ts_certs st)" "state_server_config_for cr now t a st = (st', r)"
  shows "certs_ok cr (ts_ca st') (ts_certs st') \<and> ts_ca st' = ts_ca st \<and> ts_bypass_hosts st' = ts_bypass_hosts st \<and>
    (\<forall>config. r = Ok config \<longrightarrow> (\<exists>expires. issued_for cr (ts_ca st) a config expires))"
proof -
  have cached: "issued_for cr (ts_ca st) a (cert_server_config (snd (ts_certs st ! i))) (cert_expires_at (snd (ts_certs st ! i)))"
    if pos: "position (\<lambda>(candidate, _). candidate = a) (ts_certs st) = Some i" for i
  proof -
    obtain c where c: "ts_certs st ! i = (a, c)" and i: "i < length (ts_certs st)"
      using pos by (auto simp: position_Some split: prod.splits)
    from nth_mem [OF i] have "(a, c) \<in> set (ts_certs st)" unfolding c .
    with c show ?thesis using assms(1) by (auto simp: certs_ok_def)
  qed
  have update: "certs_ok cr (ts_ca st) ((ts_certs st)[i := (a, cert)])"
    if "issued_for cr (ts_ca st) a (cert_server_config cert) (cert_expires_at cert)" for i cert
    using that assms(1) by (auto simp: certs_ok_def dest!: subsetD [OF set_update_subset_insert])
  have add: "certs_ok cr (ts_ca st) (ts_certs st @ [(a, cert)])"
    if "issued_for cr (ts_ca st) a (cert_server_config cert) (cert_expires_at cert)" for cert
    using that assms(1) by (auto simp: certs_ok_def)
  show ?thesis
    using assms cached update add generate_issued [of cr t a "ts_ca st"]
    by (auto simp: state_server_config_for_def Let_def split: option.splits if_splits result.splits)
qed

lemma prepare_authorities_issued:
  assumes "prepare_authorities cr now p authorities configs decisions st = (st', r)"
    and "certs_ok cr (ts_ca st) (ts_certs st)"
    and "\<And>a config. authority_value configs a = Some config \<Longrightarrow> \<exists>expires. issued_for cr (ts_ca st) a config expires"
  shows "certs_ok cr (ts_ca st') (ts_certs st') \<and> ts_ca st' = ts_ca st \<and> ts_bypass_hosts st' = ts_bypass_hosts st \<and>
    (\<forall>configs' decisions' a config. r = Ok (configs', decisions') \<longrightarrow> authority_value configs' a = Some config \<longrightarrow>
       (\<exists>expires. issued_for cr (ts_ca st) a config expires))"
  using assms
proof (induction authorities arbitrary: configs decisions st)
  case (Cons x authorities)
  obtain t authority where x: "x = (t, authority)" by force
  show ?case
  proof (cases "restricts_authorities (egress p) \<and> \<not> allows_authority (egress p) authority")
    case True
    then show ?thesis using Cons.IH [of configs decisions st] Cons.prems by (auto simp: x)
  next
    case False
    obtain st1 r1 where step: "state_server_config_for cr now t authority st = (st1, r1)" by force
    note ok = state_server_config_issued [OF Cons.prems(2) step]
    show ?thesis
    proof (cases r1)
      case (Err e)
      then show ?thesis using Cons.prems(1) False step ok by (auto simp: x)
    next
      case (Ok config)
      let ?configs = "upsert_authority_value authority config configs"
      have keeps: "\<exists>expires. issued_for cr (ts_ca st1) a c expires" if "authority_value ?configs a = Some c" for a c
        using that ok Ok Cons.prems(3) by (auto simp: authority_value_upsert split: if_splits)
      have prep: "prepare_authorities cr now p authorities ?configs
          (upsert_authority_value authority \<lparr> ed_application = PolicyHttp1 (secrets p) \<rparr> decisions) st1 = (st', r)"
        using Cons.prems(1) False step Ok by (simp add: x)
      have "certs_ok cr (ts_ca st1) (ts_certs st1)" using ok by blast
      from Cons.IH [OF prep this keeps] ok show ?thesis by auto
    qed
  qed
qed auto

definition ti_ok :: "('ca, 'cc, 'sc, 'e) crypto \<Rightarrow> ('ca, 'cc, 'sc) tls_intercept \<Rightarrow> bool" where
  "ti_ok cr ti \<longleftrightarrow>
     (case ti_state ti of
        None \<Rightarrow> True
      | Some st \<Rightarrow> load_ca cr (ca_cert_pem (ti_config ti)) (ca_key_pem (ti_config ti)) = Ok (ts_ca st) \<and>
          ts_bypass_hosts st = map tls_normalize_host (bypass_hosts (ti_config ti)) \<and>
          certs_ok cr (ts_ca st) (ts_certs st))"

lemma ti_ok_new: "ti_ok cr (tls_intercept_new config)"
  by (simp add: ti_ok_def tls_intercept_new_def)

lemma policy_issued:
  assumes "ti_ok cr ti" "tls_egress_policy_for cr now dst authorities p ti = (ti', r)"
  shows "ti_ok cr ti' \<and> ti_config ti' = ti_config ti \<and>
    (\<forall>pol. r = Ok pol \<longrightarrow>
       load_ca cr (ca_cert_pem (ti_config ti)) (ca_key_pem (ti_config ti)) = Ok (te_certificate_authority pol) \<and>
       te_bypass_hosts pol = map tls_normalize_host (bypass_hosts (ti_config ti)) \<and>
       (\<forall>a config. policy_server_config_for pol a = Some config \<longrightarrow>
          (\<exists>expires. issued_for cr (te_certificate_authority pol) a config expires)))"
proof -
  obtain r0 where r0: "(case ti_state ti of Some st \<Rightarrow> Ok st | None \<Rightarrow> tls_state_new cr (ti_config ti)) = r0" by blast
  show ?thesis
  proof (cases r0)
    case (Err e)
    then show ?thesis using assms r0 by (auto simp: tls_egress_policy_for_def)
  next
    case (Ok st)
    obtain st1 r1 where prep: "prepare_authorities cr now p authorities [] [] st = (st1, r1)" by force
    have st: "load_ca cr (ca_cert_pem (ti_config ti)) (ca_key_pem (ti_config ti)) = Ok (ts_ca st)"
        "ts_bypass_hosts st = map tls_normalize_host (bypass_hosts (ti_config ti))" "certs_ok cr (ts_ca st) (ts_certs st)"
      using assms(1) r0 Ok by (auto simp: ti_ok_def tls_state_new_def certs_ok_def split: option.splits result.splits)
    from prepare_authorities_issued [OF prep st(3)] st assms(2) r0 Ok prep show ?thesis
      by (auto simp: tls_egress_policy_for_def ti_ok_def authority_value_def policy_server_config_for_def
          split: result.splits)
  qed
qed

text \<open>
  A TLS connection is forwarded by its server name only: for every connection policy the
  interception prepares, and every server name, the route drops the connection exactly when the
  egress policy has an allow list without that name (or no certificate can be issued for it),
  passes it through untouched only for a name the configured bypass list matches, and otherwise
  mediates it under that name, normalised, with the secrets of the policy and a certificate that the
  configured authority issued for that very name.
\<close>

lemma tls_flow_confined:
  assumes "ti_ok cr ti" "tls_egress_policy_for cr now dst authorities p ti = (ti', Ok pol)"
  shows "ti_ok cr ti' \<and> tls_route cr issue_time pol host =
    (let authority = authority_new host in
     if \<not> admits (egress p) authority then Ok (TlsDrop AuthorityNotAllowed)
     else if should_bypass_tls (map tls_normalize_host (bypass_hosts (ti_config ti))) (as_str authority) then Ok TlsBypass
     else case server_config_for_sni cr issue_time pol authority of
       Err _ \<Rightarrow> Ok (TlsDrop TlsInterceptUnavailable)
     | Ok config \<Rightarrow> Err \<lparr> it_authority = authority, it_secrets = secrets p, it_server_config = config \<rparr>) \<and>
    (\<forall>config. server_config_for_sni cr issue_time pol (authority_new host) = Ok config \<longrightarrow>
       (\<exists>ca expires. load_ca cr (ca_cert_pem (ti_config ti)) (ca_key_pem (ti_config ti)) = Ok ca \<and>
          issued_for cr ca (authority_new host) config expires))"
proof -
  note issued = policy_issued [OF assms, rule_format]
  have "tls_route cr issue_time pol host =
    (let authority = authority_new host in
     if \<not> admits (egress p) authority then Ok (TlsDrop AuthorityNotAllowed)
     else if should_bypass_tls (map tls_normalize_host (bypass_hosts (ti_config ti))) (as_str authority) then Ok TlsBypass
     else case server_config_for_sni cr issue_time pol authority of
       Err _ \<Rightarrow> Ok (TlsDrop TlsInterceptUnavailable)
     | Ok config \<Rightarrow> Err \<lparr> it_authority = authority, it_secrets = secrets p, it_server_config = config \<rparr>)"
    unfolding tls_route_def Let_def policy_decision [OF assms(2)] using issued by (simp add: admits_def)
  moreover have "\<exists>ca expires. load_ca cr (ca_cert_pem (ti_config ti)) (ca_key_pem (ti_config ti)) = Ok ca \<and>
      issued_for cr ca (authority_new host) config expires"
    if "server_config_for_sni cr issue_time pol (authority_new host) = Ok config" for config
    using that issued generate_issued by (fastforce simp: server_config_for_sni_def split: option.splits result.splits)
  ultimately show ?thesis using issued by blast
qed

end
