(* ===== verification/TlsHello.thy ===== *)
theory TlsHello
  imports TlsRoute
begin

text \<open>
  Reading the ClientHello of a connection on an intercepted port and routing it by its server
  name: \<open>poll_client_hello\<close> and \<open>route_client_hello\<close> of \<open>egress/tcp/tls.rs\<close>, up to the start of the
  handshake, which belongs to rustls.
\<close>

section \<open>Model\<close>

datatype hello_error = NotClientHello | HelloTooLarge

text \<open>The next write of the guest is appended to what was read; its buffer returns to the pool.\<close>

definition hello_take :: "write_queue \<Rightarrow> byte_buf \<Rightarrow> pool \<Rightarrow> (write_queue \<times> byte_buf \<times> pool) option option" where
  "hello_take q initial pool =
     (case wq_pop_front q of
        (q, None) \<Rightarrow> Some None
      | (q, Some w) \<Rightarrow>
          slice (buf_data (pw_bytes w)) (pw_offset w) (length (buf_data (pw_bytes w))) \<bind> (\<lambda>bytes.
            byte_buf_drop pool (pw_bytes w) \<bind> (\<lambda>pool. Some (Some (q, buf_with bytes initial, pool)))))"

definition hello_check :: "nat \<Rightarrow> bytes \<Rightarrow> (bytes, hello_error) result option option" where
  "hello_check limit initial =
     (if initial \<noteq> [] \<and> hd initial \<noteq> 0x16 then Some (Some (Err NotClientHello))
      else if limit \<le> length initial then Some (Some (Err HelloTooLarge))
      else extract_sni initial \<bind> (\<lambda>host. Some (map_option Ok host)))"

lemma wq_pop_writes:
  assumes "wq_pop_front q = (q', Some w)"
  shows "wq_writes q = w # wq_writes q'" "wq_stream q = pw_data w @ wq_stream q'" "wq_invar q \<Longrightarrow> wq_invar q'"
  using assms by (cases "wq_rest q";
      auto simp: wq_pop_front_def wq_next_def wq_writes_def wq_stream_def wq_invar_def split: option.splits)+

lemma hello_take_shorter: "hello_take q b pool = Some (Some (q', b', pool')) \<Longrightarrow> length (wq_writes q') < length (wq_writes q)"
  by (auto simp: hello_take_def split: option.splits prod.splits bind_splits dest: wq_pop_writes)

text \<open>The loop of \<open>poll_client_hello\<close>; \<open>None\<close> when it has to wait for more bytes.\<close>

function hello_loop :: "nat \<Rightarrow> write_queue \<Rightarrow> byte_buf \<Rightarrow> pool \<Rightarrow>
    (write_queue \<times> byte_buf \<times> pool \<times> (bytes, hello_error) result option) option" where
  "hello_loop limit q initial pool =
     (case (if buf_data initial = [] then hello_take q initial pool else Some (Some (q, initial, pool))) of
        None \<Rightarrow> None
      | Some None \<Rightarrow> Some (q, initial, pool, None)
      | Some (Some (q1, initial1, pool1)) \<Rightarrow>
         (case hello_check limit (buf_data initial1) of
            None \<Rightarrow> None
          | Some (Some r) \<Rightarrow> Some (q1, initial1, pool1, Some r)
          | Some None \<Rightarrow>
             (case hello_take q1 initial1 pool1 of
                None \<Rightarrow> None
              | Some None \<Rightarrow> Some (q1, initial1, pool1, None)
              | Some (Some (q2, initial2, pool2)) \<Rightarrow> hello_loop limit q2 initial2 pool2)))"
  by pat_completeness auto

termination
  by (relation "measure (\<lambda>(_, q, _, _). length (wq_writes q))") (auto split: if_splits dest!: hello_take_shorter)

declare hello_loop.simps [simp del]

record hello_proxy =
  hp_authority :: "bytes option"
  hp_pending :: write_queue
  hp_close_requested :: bool
  hp_reading :: "byte_buf option"

datatype 'sc hello_poll =
  HelloClosed
| HelloFailed hello_error
| HelloBlocked block_reason bytes
| HelloPending
| HelloBypass socket_addr byte_buf write_queue
| HelloIntercept "'sc intercepted_tls" byte_buf

definition route_client_hello ::
    "('ca, 'cc, 'sc, 'e) crypto \<Rightarrow> nat \<Rightarrow> ('ca, 'cc, 'sc) tls_egress_policy \<Rightarrow> byte_buf \<Rightarrow> bytes \<Rightarrow> pool \<Rightarrow> hello_proxy \<Rightarrow>
     (pool \<times> hello_proxy \<times> 'sc hello_poll) option" where
  "route_client_hello cr issue_time policy initial host pool hp =
     (let host = tls_normalize_host host;
          hp = hp\<lparr> hp_authority := Some host \<rparr>
      in case tls_route cr issue_time policy host of
        Ok (TlsDrop reason) \<Rightarrow> byte_buf_drop pool initial \<bind> (\<lambda>pool. Some (pool, hp, HelloBlocked reason host))
      | Ok TlsBypass \<Rightarrow>
          Some (pool, hp\<lparr> hp_pending := wq_new \<rparr>, HelloBypass (te_dst policy) initial (hp_pending hp))
      | Err intercept \<Rightarrow> Some (pool, hp, HelloIntercept intercept initial))"

definition poll_client_hello ::
    "('ca, 'cc, 'sc, 'e) crypto \<Rightarrow> nat \<Rightarrow> nat \<Rightarrow> ('ca, 'cc, 'sc) tls_egress_policy \<Rightarrow> drive_turn \<Rightarrow> pool \<Rightarrow> hello_proxy \<Rightarrow>
     (drive_turn \<times> pool \<times> hello_proxy \<times> 'sc hello_poll) option" where
  "poll_client_hello cr issue_time limit policy t pool hp =
     (if hp_close_requested hp then Some (t, pool, hp, HelloClosed)
      else case hp_reading hp of
        None \<Rightarrow> Some (block_on GUEST_RECV t, pool, hp, HelloPending)
      | Some initial \<Rightarrow>
          hello_loop limit (hp_pending hp) initial pool \<bind> (\<lambda>(q, initial, pool, r).
            let hp = hp\<lparr> hp_pending := q, hp_reading := None \<rparr> in
            case r of
              None \<Rightarrow> Some (block_on GUEST_RECV t, pool, hp\<lparr> hp_reading := Some initial \<rparr>, HelloPending)
            | Some (Err e) \<Rightarrow> byte_buf_drop pool initial \<bind> (\<lambda>pool. Some (t, pool, hp, HelloFailed e))
            | Some (Ok host) \<Rightarrow>
                route_client_hello cr issue_time policy initial host pool hp \<bind> (\<lambda>(pool, hp, poll).
                  Some (t, pool, hp, poll))))"

section \<open>No byte of the hello is lost\<close>

lemma buf_with_data [simp]: "buf_data (buf_with xs b) = buf_data b @ xs"
  by (simp add: buf_with_def buf_extend_from_slice_def vec_set_def)

lemma hello_take_stream:
  assumes "hello_take q b pool = Some (Some (q', b', pool'))" "wq_invar q"
  shows "wq_invar q'" "buf_data b' @ wq_stream q' = buf_data b @ wq_stream q"
  using assms
  by (auto simp: hello_take_def slice_def pw_data_def split: option.splits prod.splits bind_splits if_splits dest: wq_pop_writes)

lemma hello_take_None: "hello_take q b pool = Some None \<Longrightarrow> wq_invar q \<Longrightarrow> wq_stream q = []"
  by (auto simp: hello_take_def wq_pop_front_def wq_invar_def wq_stream_def wq_writes_def split: option.splits prod.splits bind_splits)

lemma hello_loop_exact:
  assumes "hello_loop limit q b pool = Some (q', b', pool', r)" "wq_invar q"
  shows "wq_invar q' \<and> buf_data b' @ wq_stream q' = buf_data b @ wq_stream q \<and>
    (case r of
       None \<Rightarrow> wq_stream q' = [] \<and> (buf_data b' \<noteq> [] \<longrightarrow> hello_check limit (buf_data b') = Some None)
     | Some x \<Rightarrow> hello_check limit (buf_data b') = Some (Some x))"
  using assms
proof (induction "length (wq_writes q)" arbitrary: q b pool rule: less_induct)
  case less
  let ?m = "if buf_data b = [] then hello_take q b pool else Some (Some (q, b, pool))"
  consider (wait) "?m = Some None" | (got) q1 b1 pool1 where "?m = Some (Some (q1, b1, pool1))" "wq_invar q1"
      "buf_data b1 @ wq_stream q1 = buf_data b @ wq_stream q" "length (wq_writes q1) \<le> length (wq_writes q)"
    using less.prems hello_take_stream [of q b pool] hello_take_shorter [of q b pool]
    by (cases ?m) (auto simp: hello_loop.simps [of limit q b pool] split: if_splits option.splits intro: less_imp_le)
  then show ?case
  proof cases
    case wait
    then show ?thesis
      using less.prems hello_take_None [of q b pool] by (auto simp: hello_loop.simps [of limit q b pool] split: if_splits)
  next
    case got
    show ?thesis
    proof (cases "hello_check limit (buf_data b1)")
      case None
      then show ?thesis using less.prems(1) got(1) by (simp add: hello_loop.simps [of limit q b pool])
    next
      case (Some c)
      note check = this
      show ?thesis
      proof (cases c)
        case (Some x)
        then show ?thesis using less.prems(1) got check by (auto simp: hello_loop.simps [of limit q b pool])
      next
        case None
        show ?thesis
        proof (cases "hello_take q1 b1 pool1")
          case None
          then show ?thesis using less.prems(1) got(1) check \<open>c = None\<close> by (simp add: hello_loop.simps [of limit q b pool])
        next
          case (Some m)
          show ?thesis
          proof (cases m)
            case None
            then show ?thesis
              using less.prems(1) got check \<open>c = None\<close> Some hello_take_None [of q1 b1 pool1]
              by (simp add: hello_loop.simps [of limit q b pool])
          next
            fix x assume m: "m = Some x"
            then obtain q2 b2 pool2 where x: "hello_take q1 b1 pool1 = Some (Some (q2, b2, pool2))"
              using Some by (cases x) simp
            then have "hello_loop limit q2 b2 pool2 = Some (q', b', pool', r)"
              using less.prems(1) got(1) check \<open>c = None\<close> by (simp add: hello_loop.simps [of limit q b pool])
            moreover have "length (wq_writes q2) < length (wq_writes q)" using hello_take_shorter [OF x] got(4) by simp
            ultimately show ?thesis using less.hyps hello_take_stream [OF x got(2)] got(3) by metis
          qed
        qed
      qed
    qed
  qed
qed

lemma authority_normalized: "authority_new (tls_normalize_host host) = authority_new host"
  using normalized_host_idem [of host] by (simp add: authority_new_def tls_normalize_host_def normalized_host_def)

lemma hello_check_Ok: "hello_check limit xs = Some (Some (Ok host)) \<longleftrightarrow>
    (xs \<noteq> [] \<longrightarrow> hd xs = 0x16) \<and> length xs < limit \<and> extract_sni xs = Some (Some host)"
  by (auto simp: hello_check_def split: bind_splits)

text \<open>
  The reference reading of the bypass list: a configured pattern is the name itself, or a star, a dot
  and a domain that is the name or that the name ends in after a dot.
\<close>

definition bypass_listed :: "tls_intercept_config \<Rightarrow> authority \<Rightarrow> bool" where
  "bypass_listed config authority \<longleftrightarrow>
     (\<exists>pattern\<in>set (bypass_hosts config).
        let pat = normalized_host pattern; name = as_str authority in
        pat = name \<or>
        (\<exists>domain. pat = byte_string ''*.'' @ domain \<and>
           (name = domain \<or> (\<exists>sub. name = sub @ byte_string ''.'' @ domain))))"

lemma strip_prefix_Some: "strip_prefix s p = Some r \<longleftrightarrow> s = p @ r"
  by (auto simp: strip_prefix_def starts_with_def) (metis append_take_drop_id)

lemma strip_prefix_None: "strip_prefix s p = None \<longleftrightarrow> (\<forall>r. s \<noteq> p @ r)"
  by (metis not_None_eq strip_prefix_Some)

lemma ends_with_iff: "ends_with s p \<longleftrightarrow> (\<exists>r. s = r @ p)"
  by (auto simp: ends_with_def) (metis append_take_drop_id)

lemma should_bypass_listed:
  "should_bypass_tls (map tls_normalize_host (bypass_hosts config)) (as_str (authority_new host)) =
    bypass_listed config (authority_new host)"
proof -
  have "tls_normalize_host (as_str (authority_new host)) = as_str (authority_new host)"
    using normalized_host_idem [of host] by (simp add: authority_new_def tls_normalize_host_def normalized_host_def)
  then show ?thesis
    by (auto simp: should_bypass_tls_def bypass_listed_def bypass_matches_def list_ex_iff Let_def
        strip_prefix_Some strip_prefix_None ends_with_iff tls_normalize_host_def normalized_host_def
        split: option.split)
qed

text \<open>Asked for a certificate for the name, the configured authority issues none.\<close>

definition issue_refused :: "('ca, 'cc, 'sc, 'e) crypto \<Rightarrow> tls_intercept_config \<Rightarrow> authority \<Rightarrow> bool" where
  "issue_refused cr config authority \<longleftrightarrow>
     (\<exists>ca not_before not_after e. load_ca cr (ca_cert_pem config) (ca_key_pem config) = Ok ca \<and>
        server_config_for_host cr ca (as_str authority) not_before not_after = Err e)"

lemma config_refused:
  assumes "ti_ok cr ti" "tls_egress_policy_for cr now dst authorities p ti = (ti', Ok pol)"
    and "server_config_for_sni cr issue_time pol authority = Err e"
  shows "issue_refused cr (ti_config ti) authority"
  using policy_issued [OF assms(1,2)] assms(3)
  by (auto simp: server_config_for_sni_def generate_server_cert_def issue_refused_def
      split: option.splits result.splits)

text \<open>
  Claim C5.  A connection on an intercepted port goes nowhere before its ClientHello is read, and
  then only where the policy says.  However the guest's bytes are cut into writes, the outcome is
  decided by what was read and by the policy.  It is closed exactly when a close was requested.
  Otherwise all bytes are accounted for, and it waits only while the handshake record is short of its
  name and under the limit; it fails only when the bytes read are no handshake or reach the limit; and
  once the name is read it is refused for the name exactly when the allow list lacks it, passed
  through exactly when the name is allowed and on the bypass list, with every byte the guest sent,
  and else mediated under that name, with the secrets of the policy and a certificate the configured
  authority issued for that name, or refused because that authority issues none.
\<close>

theorem tls_hello_routed:
  assumes "ti_ok cr ti" "tls_egress_policy_for cr now dst authorities p ti = (ti', Ok pol)"
    and "hp_reading hp = Some b" "wq_invar (hp_pending hp)"
    and "poll_client_hello cr issue_time limit pol t pool hp = Some (t', pool', hp', poll)"
  shows "if hp_close_requested hp then poll = HelloClosed \<and> hp' = hp \<and> pool' = pool \<and> t' = t
    else \<exists>read unread. read @ unread = buf_data b @ wq_stream (hp_pending hp) \<and>
      (let handshake = (read \<noteq> [] \<longrightarrow> hd read = 0x16);
           named = (\<lambda>host. handshake \<and> length read < limit \<and> extract_sni read = Some (Some host) \<and>
             hp_authority hp' = Some (as_str (authority_new host)));
           admitted = (\<lambda>host. admits (egress p) (authority_new host));
           bypassed = (\<lambda>host. bypass_listed (ti_config ti) (authority_new host))
       in case poll of
         HelloClosed \<Rightarrow> False
       | HelloPending \<Rightarrow>
           unread = [] \<and> (\<exists>b'. hp_reading hp' = Some b' \<and> buf_data b' = read) \<and> wq_stream (hp_pending hp') = [] \<and>
           (read \<noteq> [] \<longrightarrow> handshake \<and> length read < limit \<and> extract_sni read = Some None)
       | HelloFailed NotClientHello \<Rightarrow> \<not> handshake
       | HelloFailed HelloTooLarge \<Rightarrow> handshake \<and> limit \<le> length read
       | HelloBlocked reason name \<Rightarrow>
           \<exists>host. named host \<and> name = as_str (authority_new host) \<and>
             (reason = AuthorityNotAllowed \<and> \<not> admitted host \<or>
              reason = TlsInterceptUnavailable \<and> admitted host \<and> \<not> bypassed host \<and>
                issue_refused cr (ti_config ti) (authority_new host))
       | HelloBypass to initial pending \<Rightarrow>
           to = dst \<and> buf_data initial = read \<and> wq_stream pending = unread \<and>
           (\<exists>host. named host \<and> admitted host \<and> bypassed host)
       | HelloIntercept it initial \<Rightarrow>
           buf_data initial = read \<and> wq_stream (hp_pending hp') = unread \<and>
           (\<exists>host ca expires. named host \<and> admitted host \<and> \<not> bypassed host \<and>
              it_authority it = authority_new host \<and> it_secrets it = secrets p \<and>
              load_ca cr (ca_cert_pem (ti_config ti)) (ca_key_pem (ti_config ti)) = Ok ca \<and>
              issued_for cr ca (authority_new host) (it_server_config it) expires))"
proof (cases "hp_close_requested hp")
  case True
  then show ?thesis using assms(5) by (simp add: poll_client_hello_def)
next
  case False
  obtain q b1 pool1 r where loop: "hello_loop limit (hp_pending hp) b pool = Some (q, b1, pool1, r)"
    using assms(3,5) False by (auto simp: poll_client_hello_def split: bind_splits)
  note exact = hello_loop_exact [OF loop assms(4)]
  then have bytes: "buf_data b1 @ wq_stream q = buf_data b @ wq_stream (hp_pending hp)" by blast
  show ?thesis
  proof (cases r)
    case None
    then show ?thesis
      unfolding if_not_P [OF False] using assms(3,5) False loop exact bytes
      by (intro exI [where x = "buf_data b1"] exI [where x = "wq_stream q"])
        (auto simp: poll_client_hello_def Let_def hello_check_def split: if_splits bind_splits)
  next
    case (Some x)
    show ?thesis
    proof (cases x)
      case (Err e)
      then have "poll = HelloFailed e" "hello_check limit (buf_data b1) = Some (Some (Err e))"
        using assms(3,5) False loop Some exact by (auto simp: poll_client_hello_def Let_def split: bind_splits)
      then show ?thesis
        unfolding if_not_P [OF False] using bytes
        by (intro exI [where x = "buf_data b1"] exI [where x = "wq_stream q"])
          (auto simp: hello_check_def Let_def split: if_splits bind_splits)
    next
      case (Ok host)
      let ?hp = "hp\<lparr> hp_pending := q, hp_reading := None \<rparr>"
      have sni: "buf_data b1 \<noteq> [] \<longrightarrow> hd (buf_data b1) = 0x16" "length (buf_data b1) < limit"
          "extract_sni (buf_data b1) = Some (Some host)"
        using exact Some Ok by (simp_all add: hello_check_Ok)
      have route: "route_client_hello cr issue_time pol b1 host pool1 ?hp = Some (pool', hp', poll)"
        using assms(3,5) False loop Some Ok by (auto simp: poll_client_hello_def Let_def split: bind_splits)
      note flow = tls_flow_confined [OF assms(1,2), of issue_time "tls_normalize_host host",
          unfolded authority_normalized Let_def should_bypass_listed]
      have dst: "te_dst pol = dst" by (rule policy_decision(4) [OF assms(2)])
      have name: "tls_normalize_host host = as_str (authority_new host)"
        by (simp add: authority_new_def tls_normalize_host_def normalized_host_def)
      show ?thesis
        unfolding if_not_P [OF False]
        using route flow sni bytes dst name config_refused [OF assms(1,2), of issue_time "authority_new host"]
        by (intro exI [where x = "buf_data b1"] exI [where x = "wq_stream q"])
          (auto simp: route_client_hello_def Let_def split: bind_splits if_splits result.splits)
    qed
  qed
qed

definition demo_crypto :: "(unit, unit, bytes, unit) crypto" where
  "demo_crypto = \<lparr> load_ca = (\<lambda>_ _. Ok ()), client_config_with_roots = (\<lambda>_. Ok ()),
     server_config_for_host = (\<lambda>_ host _ _. Ok host) \<rparr>"

definition demo_intercept :: "(unit, unit, bytes) tls_intercept" where
  "demo_intercept = tls_intercept_new \<lparr> ca_cert_pem = [1], ca_key_pem = [2], upstream_root_ca_pems = [],
     intercepted_ports = [443], bypass_hosts = [] \<rparr>"

definition demo_policy :: network_policy where
  "demo_policy = policy_new (with_allowed_authority [97, 46, 98] default_deny_private)"

definition demo_reading :: hello_proxy where
  "demo_reading = \<lparr> hp_authority = None, hp_pending = wq_new, hp_close_requested = False,
     hp_reading = Some \<lparr> bb_bytes = \<lparr> vec_data = record_bytes 3 3 demo_hello, vec_cap = 4096 \<rparr>, bb_class = Medium \<rparr> \<rparr>"

lemma demo_extract: "extract_sni (record_bytes 3 3 demo_hello) = Some (Some [97, 46, 98])"
proof -
  have ok: "hello_ok demo_hello"
    by (simp add: hello_ok_def demo_hello_def hello_bytes_def len8_def len16_def hello_extension_def server_name_def name_entry_def)
  have "hello_sni (hello_bytes demo_hello) = Some (from_utf8 [97, 46, 98])"
    by (rule hello_sni_written [OF ok, of "[(10, [1, 2])]" "[(1, [9])]" _ "[]" "[]"]) (simp_all add: demo_hello_def)
  moreover have "from_utf8 [97, 46, 98] = Some [97, 46, 98]" by code_simp
  ultimately show ?thesis using record_written [of demo_hello 3 3 "[]"] ok by (simp add: hello_ok_def)
qed

definition demo_turn :: drive_turn where
  "demo_turn = turn_new (budget_event_loop default_local) report_new"

theorem tls_hello_routed_witness:
  "\<exists>ti' pol hp' initial it. ti_ok demo_crypto demo_intercept \<and>
     tls_egress_policy_for demo_crypto 0 (V4 (Ipv4 1 1 1 1), 443) [] demo_policy demo_intercept = (ti', Ok pol) \<and>
     poll_client_hello demo_crypto 0 1000 pol demo_turn (pool_new default_local) demo_reading =
       Some (demo_turn, pool_new default_local, hp', HelloIntercept it initial) \<and>
     buf_data initial = record_bytes 3 3 demo_hello \<and> it_secrets it = secrets demo_policy \<and>
     admits (egress demo_policy) (it_authority it) \<and> \<not> bypass_listed (ti_config demo_intercept) (it_authority it)"
proof -
  let ?dst = "(V4 (Ipv4 1 1 1 1), 443)" and ?a = "authority_new [97, 46, 98]"
  have ti: "ti_ok demo_crypto demo_intercept" by (simp add: demo_intercept_def ti_ok_new)
  obtain ti' pol where pol: "tls_egress_policy_for demo_crypto 0 ?dst [] demo_policy demo_intercept = (ti', Ok pol)"
      "te_server_configs pol = []"
    by (simp add: tls_egress_policy_for_def demo_intercept_def tls_intercept_new_def tls_state_new_def demo_crypto_def)
  have n: "tls_normalize_host [97, 46, 98] = [97, 46, 98]" "normalized_host [97, 46, 98] = [97, 46, 98]" by code_simp+
  have a: "admits (egress demo_policy) ?a"
    by (simp add: admits_def demo_policy_def policy_new_def allows_authority_def with_allowed_authority_def authority_new_def n)
  have check: "hello_check 1000 (record_bytes 3 3 demo_hello) = Some (Some (Ok [97, 46, 98]))" "record_bytes 3 3 demo_hello \<noteq> []"
    using demo_extract unfolding hello_check_Ok
    by (simp_all add: demo_hello_def record_bytes_def hello_bytes_def be24_bytes_def len8_def len16_def hello_extension_def
        server_name_def name_entry_def)
  have config: "server_config_for_sni demo_crypto 0 pol ?a = Ok (as_str ?a)"
    using pol(2) by (simp add: server_config_for_sni_def policy_server_config_for_def authority_value_def
        generate_server_cert_def demo_crypto_def)
  have "tls_route demo_crypto 0 pol [97, 46, 98] =
      Err \<lparr> it_authority = ?a, it_secrets = secrets demo_policy, it_server_config = as_str ?a \<rparr>"
    using tls_flow_confined [OF ti pol(1), of 0 "[97, 46, 98]"] a config
    by (simp add: should_bypass_tls_def demo_intercept_def tls_intercept_new_def Let_def)
  then obtain hp' initial where poll: "poll_client_hello demo_crypto 0 1000 pol demo_turn (pool_new default_local) demo_reading =
      Some (demo_turn, pool_new default_local, hp',
        HelloIntercept \<lparr> it_authority = ?a, it_secrets = secrets demo_policy, it_server_config = as_str ?a \<rparr> initial)"
      "wq_stream (hp_pending hp') = []"
    using check by (simp add: poll_client_hello_def demo_reading_def hello_loop.simps route_client_hello_def Let_def n
        wq_stream_def wq_writes_def wq_new_def)
  have "hp_reading demo_reading = Some \<lparr> bb_bytes = \<lparr> vec_data = record_bytes 3 3 demo_hello, vec_cap = 4096 \<rparr>, bb_class = Medium \<rparr>"
      "wq_invar (hp_pending demo_reading)" "wq_stream (hp_pending demo_reading) = []"
    by (simp_all add: demo_reading_def wq_invar_def wq_writes_def wq_new_def wq_stream_def)
  moreover have "\<not> hp_close_requested demo_reading" by (simp add: demo_reading_def)
  ultimately have "buf_data initial = record_bytes 3 3 demo_hello \<and> \<not> bypass_listed (ti_config demo_intercept) ?a"
    using tls_hello_routed [OF ti pol(1) _ _ poll(1)] poll(2) by (auto simp: Let_def)
  then show ?thesis
    using ti pol(1) poll(1) a
    by (intro exI conjI) (assumption | simp)+
qed

end
