(* ===== verification/Gateway.thy ===== *)
theory Gateway
  imports TlsRoute Classify FixedTable Raw
begin

text \<open>
  The gateway of a guest's network, \<open>gateway/mod.rs\<close>, \<open>gateway/packet.rs\<close> and \<open>gateway/device.rs\<close> of
  \<open>src/src/libs/agentdp-network/src\<close>, with the UDP peers of published ports, \<open>ingress/udp.rs\<close>: what it
  does with every frame of the guest, and which connections it lets out.

  smoltcp is an argument: the checked views of its packet types, the writing of UDP frames, its
  interface with the sockets, polled against the frame device, and the delay it asks for.  A bounded
  output vector is its items and its capacity.  The debug assertions are absent from release builds.
\<close>

section \<open>Packets\<close>

record wire =
  eth_view :: "bytes \<Rightarrow> (u16 \<times> bytes) option"
  ipv4_view :: "bytes \<Rightarrow> (u8 \<times> ipv4 \<times> ipv4 \<times> bytes) option"
  tcp_view :: "bytes \<Rightarrow> (bool \<times> bool \<times> u16 \<times> u16) option"
  udp_view :: "bytes \<Rightarrow> (u16 \<times> u16 \<times> bytes) option"
  write_udp :: "bytes \<Rightarrow> bytes \<Rightarrow> ipv4 \<times> u16 \<Rightarrow> ipv4 \<times> u16 \<Rightarrow> bytes \<Rightarrow> bytes \<Rightarrow> bytes"

definition ETHERTYPE_IPV4 :: u16 where "ETHERTYPE_IPV4 = 0x0800"
definition PROTO_TCP :: u8 where "PROTO_TCP = 6"
definition PROTO_UDP :: u8 where "PROTO_UDP = 17"

record tcp_syn =
  syn_src :: socket_addr
  syn_dst :: socket_addr

definition tcp_syn_from_frame :: "wire \<Rightarrow> bytes \<Rightarrow> tcp_syn option" where
  "tcp_syn_from_frame w frame = do {
     (ethertype, payload) \<leftarrow> eth_view w frame;
     if ethertype \<noteq> ETHERTYPE_IPV4 then None else do {
       (next_header, src, dst, payload) \<leftarrow> ipv4_view w payload;
       if next_header \<noteq> PROTO_TCP then None else do {
         (syn, ack, src_port, dst_port) \<leftarrow> tcp_view w payload;
         if \<not> syn \<or> ack then None else Some \<lparr> syn_src = (V4 src, src_port), syn_dst = (V4 dst, dst_port) \<rparr>
       }
     }
   }"

record udp_datagram =
  dg_src :: socket_addr
  dg_dst :: socket_addr
  dg_payload :: byte_buf

text \<open>The datagram without its buffer, then with it.\<close>

definition udp_view_of :: "wire \<Rightarrow> bytes \<Rightarrow> (socket_addr \<times> socket_addr \<times> bytes) option" where
  "udp_view_of w frame = do {
     (ethertype, payload) \<leftarrow> eth_view w frame;
     if ethertype \<noteq> ETHERTYPE_IPV4 then None else do {
       (next_header, src, dst, payload) \<leftarrow> ipv4_view w payload;
       if next_header \<noteq> PROTO_UDP then None else do {
         (src_port, dst_port, payload) \<leftarrow> udp_view w payload;
         Some ((V4 src, src_port), (V4 dst, dst_port), payload)
       }
     }
   }"

definition udp_datagram_from_frame :: "wire \<Rightarrow> bytes \<Rightarrow> pool \<Rightarrow> (pool \<times> udp_datagram option) option" where
  "udp_datagram_from_frame w frame buffers =
     (case udp_view_of w frame of
        None \<Rightarrow> Some (buffers, None)
      | Some (src, dst, payload) \<Rightarrow>
          try_byte_with_capacity buffers (length payload) \<bind> (\<lambda>(buffers, r). Some (buffers,
            case r of
              Err _ \<Rightarrow> None
            | Ok b \<Rightarrow> Some \<lparr> dg_src = src, dg_dst = dst, dg_payload = buf_with payload b \<rparr>)))"

record instance_mac_addresses =
  mac_gateway :: bytes
  mac_guest :: bytes

definition ETHERNET_HEADER_LEN :: nat where "ETHERNET_HEADER_LEN = 14"
definition IPV4_HEADER_LEN :: nat where "IPV4_HEADER_LEN = 20"
definition UDP_HEADER_LEN :: nat where "UDP_HEADER_LEN = 8"

definition udp_frame ::
    "wire \<Rightarrow> socket_addr \<Rightarrow> socket_addr \<Rightarrow> bytes \<Rightarrow> bytes \<Rightarrow> bytes \<Rightarrow> pool \<Rightarrow> pool \<times> vec option" where
  "udp_frame w src dst payload source_mac destination_mac buffers =
     (case (fst src, fst dst) of
        (V4 src_addr, V4 dst_addr) \<Rightarrow>
          (let frame_len = ETHERNET_HEADER_LEN + IPV4_HEADER_LEN + UDP_HEADER_LEN + length payload in
           case try_output_frame_with_capacity buffers frame_len of
             (buffers, Err _) \<Rightarrow> (buffers, None)
           | (buffers, Ok frame) \<Rightarrow>
               (let frame = buf_resize_zeroed frame_len frame in
                (buffers, Some (frame\<lparr> vec_data :=
                   write_udp w source_mac destination_mac (src_addr, snd src) (dst_addr, snd dst) payload (vec_data frame) \<rparr>))))
      | _ \<Rightarrow>
         (case try_output_frame buffers of (buffers, Err _) \<Rightarrow> (buffers, None) | (buffers, Ok frame) \<Rightarrow> (buffers, Some frame)))"

definition udp_response_frame ::
    "wire \<Rightarrow> udp_proxy_key \<Rightarrow> bytes \<Rightarrow> instance_mac_addresses \<Rightarrow> pool \<Rightarrow> pool \<times> vec option" where
  "udp_response_frame w proxy payload mac buffers =
     udp_frame w (guest_dst proxy) (guest_src proxy) payload (mac_gateway mac) (mac_guest mac) buffers"

definition LOCALHOST :: ipv4 where "LOCALHOST = Ipv4 127 0 0 1"

definition resolve_gateway_destination :: "socket_addr \<Rightarrow> ipv4 \<Rightarrow> socket_addr" where
  "resolve_gateway_destination dst gateway = (if fst dst = V4 gateway then (V4 LOCALHOST, snd dst) else dst)"

section \<open>Peers of published UDP ports\<close>

record ingress_udp_send =
  iu_port :: u16
  iu_peer :: socket_addr
  iu_bytes :: byte_buf

type_synonym udp_peers = "(u16, socket_addr) fixed_table"

definition udp_peers_new :: "nat \<Rightarrow> udp_peers" where
  "udp_peers_new max_host_peers = ft_with_capacity max_host_peers"

definition can_open_host_port :: "udp_peers \<Rightarrow> u16 \<Rightarrow> bool" where
  "can_open_host_port peers port \<longleftrightarrow> ft_get peers port \<noteq> None \<or> ft_len peers < ft_capacity peers"

definition open_host_port :: "udp_peers \<Rightarrow> u16 \<Rightarrow> socket_addr \<Rightarrow> udp_peers \<times> bool" where
  "open_host_port peers port peer =
     (if \<not> can_open_host_port peers port then (peers, False) else (fst (ft_insert peers port peer), True))"

definition host_port_response :: "udp_peers \<Rightarrow> socket_addr \<Rightarrow> ip_addr \<Rightarrow> byte_buf \<Rightarrow> (ingress_udp_send, byte_buf) result" where
  "host_port_response peers dst gateway payload =
     (if fst dst \<noteq> gateway then Err payload
      else case ft_get peers (snd dst) of
        None \<Rightarrow> Err payload
      | Some peer \<Rightarrow> Ok \<lparr> iu_port = snd dst, iu_peer = peer, iu_bytes = payload \<rparr>)"

section \<open>The frame device\<close>

record frame_device =
  fd_mtu :: nat
  fd_queue_capacity :: nat
  fd_rx :: "vec list"
  fd_tx :: "vec list"
  fd_rx_budget :: nat

definition device_new :: "nat \<Rightarrow> nat \<Rightarrow> frame_device" where
  "device_new mtu queue_capacity =
     \<lparr> fd_mtu = mtu, fd_queue_capacity = queue_capacity, fd_rx = [], fd_tx = [], fd_rx_budget = USIZE_LIMIT - 1 \<rparr>"

definition can_receive_frame :: "frame_device \<Rightarrow> bool" where
  "can_receive_frame d \<longleftrightarrow> length (fd_rx d) < fd_queue_capacity d"

definition receive_frame :: "frame_device \<Rightarrow> vec \<Rightarrow> frame_device \<times> bool" where
  "receive_frame d frame =
     (if length (fd_rx d) \<ge> fd_queue_capacity d then (d, False) else (d\<lparr> fd_rx := fd_rx d @ [frame] \<rparr>, True))"

definition allow_one_receive :: "frame_device \<Rightarrow> frame_device" where
  "allow_one_receive d = d\<lparr> fd_rx_budget := 1 \<rparr>"

text \<open>
  The two calls smoltcp makes of its device.  A receive hands out the next frame of the guest and
  a frame for the answer; a transmit hands out a frame; \<open>consume\<close> puts it into the queue.
\<close>

definition device_receive :: "frame_device \<Rightarrow> pool \<Rightarrow> frame_device \<times> pool \<times> (vec \<times> vec) option" where
  "device_receive d buffers =
     (if length (fd_tx d) \<ge> fd_queue_capacity d \<or> fd_rx_budget d = 0 then (d, buffers, None)
      else case fd_rx d of
        [] \<Rightarrow> (d, buffers, None)
      | frame # rx \<Rightarrow>
         (case try_gateway_response_frame_with_capacity buffers (fd_mtu d + ETHERNET_HEADER_LEN) of
            (buffers, Err _) \<Rightarrow> (d, buffers, None)
          | (buffers, Ok tx_frame) \<Rightarrow>
              (d\<lparr> fd_rx := rx, fd_rx_budget := fd_rx_budget d - 1 \<rparr>, buffers, Some (frame, tx_frame))))"

definition device_transmit :: "frame_device \<Rightarrow> pool \<Rightarrow> pool \<times> vec option" where
  "device_transmit d buffers =
     (if length (fd_tx d) \<ge> fd_queue_capacity d then (buffers, None)
      else case try_output_frame_with_capacity buffers (fd_mtu d + ETHERNET_HEADER_LEN) of
        (buffers, Err _) \<Rightarrow> (buffers, None)
      | (buffers, Ok frame) \<Rightarrow> (buffers, Some frame))"

definition tx_consume :: "nat \<Rightarrow> (bytes \<Rightarrow> bytes \<times> 'r) \<Rightarrow> vec \<Rightarrow> frame_device \<Rightarrow> frame_device \<times> 'r" where
  "tx_consume len f frame d =
     (let frame = buf_resize_zeroed len frame in
      case f (vec_data frame) of (data, r) \<Rightarrow> (d\<lparr> fd_tx := fd_tx d @ [frame\<lparr> vec_data := data \<rparr>] \<rparr>, r))"

end
