(* ===== verification/GatewayFlow.thy ===== *)
theory GatewayFlow
  imports Gateway
begin

text \<open>
  The gateway itself: admission of the guest's frames, the route of its TCP connections, and the
  frames it sends back.  Of the TCP connection table of \<open>egress/tcp/mod.rs\<close> the part the gateway
  calls is here: \<open>has_connection\<close> and \<open>listen\<close>.
\<close>

section \<open>State\<close>

record ('ca, 'cc, 'sc) gateway_config =
  gc_policy :: network_policy
  gc_mac :: instance_mac_addresses
  gc_gateway :: ipv4
  gc_guest :: ipv4
  gc_dns_upstream :: socket_addr
  gc_tls :: "('ca, 'cc, 'sc) tls_intercept option"
  gc_idle_poll_delay :: nat

record ('i, 'ca, 'cc, 'sc) gateway =
  gw_iface :: 'i
  gw_device :: frame_device
  gw_dns :: dns_attribution
  gw_config :: "('ca, 'cc, 'sc) gateway_config"

record egress_udp_send =
  eu_proxy :: udp_proxy_key
  eu_bytes :: byte_buf
  eu_is_dns :: bool

text \<open>smoltcp's interface: a poll of it against the device, and the delay until the next.\<close>

record 'i smoltcp =
  sm_poll :: "nat \<Rightarrow> 'i \<Rightarrow> frame_device \<Rightarrow> pool \<Rightarrow> 'i \<times> frame_device \<times> pool \<times> bool"
  sm_poll_delay :: "nat \<Rightarrow> 'i \<Rightarrow> nat option"

record clock =
  ck_now :: nat
  ck_system :: nat
  ck_smoltcp :: nat
  ck_issue :: "authority \<Rightarrow> nat"

datatype udp_frame_write = FrameQueued | FrameWriteBlocked | FrameDropped

text \<open>The bounded vectors the gateway writes to, each with its capacity.\<close>

record gateway_outputs =
  go_egress_udp_sends :: "egress_udp_send list"
  go_egress_capacity :: nat
  go_ingress_udp_sends :: "ingress_udp_send list"
  go_ingress_capacity :: nat
  go_guest_frames :: "vec list"
  go_frames_capacity :: nat

datatype guest_frame_ingest = IngestQueued | IngestBlocked vec

section \<open>The connection table\<close>

record ('h, 'x) tcp_proxy_slot =
  sl_handle :: 'h
  sl_requested :: "(socket_addr \<times> socket_addr) option"
  sl_active :: "u64 option"
  sl_upstream_read_masked :: bool
  sl_pending_writes :: write_queue
  sl_guest_write_closed :: bool
  sl_proxy_closed :: bool
  sl_proxy :: "'x option"

record ('h, 'k, 'x) tcp_proxy_slots =
  ps_slots :: "('h, 'x) tcp_proxy_slot option list"
  ps_idle_sockets :: "'k list"

text \<open>smoltcp's TCP sockets outside a set, and the set they are added to.\<close>

record ('h, 'k, 'i) socket_ops =
  sk_abort :: "'k \<Rightarrow> 'k"
  sk_listen :: "ipv4 \<times> u16 \<Rightarrow> 'k \<Rightarrow> 'k \<times> bool"
  sk_add :: "'k \<Rightarrow> 'i \<Rightarrow> 'h \<times> 'i"

definition entry_listening :: "'h \<Rightarrow> socket_addr \<Rightarrow> socket_addr \<Rightarrow> ('h, 'x) tcp_proxy_slot" where
  "entry_listening handle src dst = \<lparr> sl_handle = handle, sl_requested = Some (src, dst), sl_active = None,
     sl_upstream_read_masked = False, sl_pending_writes = wq_new, sl_guest_write_closed = False,
     sl_proxy_closed = False, sl_proxy = None \<rparr>"

definition has_connection :: "('h, 'k, 'x) tcp_proxy_slots \<Rightarrow> socket_addr \<Rightarrow> socket_addr \<Rightarrow> bool" where
  "has_connection ps src dst = list_ex (\<lambda>slot. sl_requested slot = Some (src, dst)) (List.map_filter id (ps_slots ps))"

fun tcp_listen_endpoint :: "socket_addr \<Rightarrow> (ipv4 \<times> u16) option" where
  "tcp_listen_endpoint (V4 address, port) = Some (address, port)"
| "tcp_listen_endpoint (V6 _, port) = None"

text \<open>\<open>Vec::pop\<close> takes the last socket.\<close>

definition slots_listen ::
    "('h, 'k, 'i) socket_ops \<Rightarrow> socket_addr \<Rightarrow> socket_addr \<Rightarrow> ('h, 'k, 'x) tcp_proxy_slots \<Rightarrow> 'i \<Rightarrow>
     ('h, 'k, 'x) tcp_proxy_slots \<times> 'i \<times> bool" where
  "slots_listen so src dst ps sockets =
     (case position Option.is_none (ps_slots ps) of
        None \<Rightarrow> (ps, sockets, False)
      | Some i \<Rightarrow>
         (case tcp_listen_endpoint dst of
            None \<Rightarrow> (ps, sockets, False)
          | Some endpoint \<Rightarrow>
             (if ps_idle_sockets ps = [] then (ps, sockets, False)
              else case sk_listen so endpoint (sk_abort so (last (ps_idle_sockets ps))) of
                (socket, False) \<Rightarrow> (ps\<lparr> ps_idle_sockets := butlast (ps_idle_sockets ps) @ [socket] \<rparr>, sockets, False)
              | (socket, True) \<Rightarrow>
                 (case sk_add so socket sockets of (handle, sockets) \<Rightarrow>
                    (ps\<lparr> ps_idle_sockets := butlast (ps_idle_sockets ps),
                        ps_slots := (ps_slots ps)[i := Some (entry_listening handle src dst)] \<rparr>, sockets, True)))))"

section \<open>Polling\<close>

text \<open>The loop of \<open>drain_transmitted_frames\<close>.\<close>

fun drain_tx :: "nat \<Rightarrow> drive_turn \<Rightarrow> vec list \<Rightarrow> vec list \<Rightarrow> nat \<Rightarrow> drive_turn \<times> vec list \<times> vec list \<times> nat" where
  "drain_tx capacity t guest_frames [] n = (t, guest_frames, [], n)"
| "drain_tx capacity t guest_frames (frame # tx) n =
     (case enqueue_guest_frame t (length guest_frames) capacity (length (vec_data frame)) of
        (t, FrameBlocked) \<Rightarrow> (t, guest_frames, frame # tx, n)
      | (t, FrameReserved) \<Rightarrow> drain_tx capacity t (guest_frames @ [frame]) tx (saturating_add n 1))"

definition drain_transmitted_frames ::
    "nat \<Rightarrow> drive_turn \<Rightarrow> vec list \<Rightarrow> frame_device \<Rightarrow> drive_turn \<times> vec list \<times> frame_device" where
  "drain_transmitted_frames capacity t guest_frames d =
     (case drain_tx capacity t guest_frames (fd_tx d) 0 of
        (t, guest_frames, tx, frame_count) \<Rightarrow>
          (let t = (if tx \<noteq> [] then block_on GUEST_SEND_CAPACITY t else t) in
           (gateway_frames_transmitted frame_count t, guest_frames, d\<lparr> fd_tx := tx \<rparr>)))"

definition has_poll_work :: "'i smoltcp \<Rightarrow> clock \<Rightarrow> ('i, 'ca, 'cc, 'sc) gateway \<Rightarrow> bool" where
  "has_poll_work sm ck gw \<longleftrightarrow> fd_rx (gw_device gw) \<noteq> [] \<or> fd_tx (gw_device gw) \<noteq> [] \<or>
     sm_poll_delay sm (ck_smoltcp ck) (gw_iface gw) = Some 0"

definition next_poll_delay :: "'i smoltcp \<Rightarrow> clock \<Rightarrow> ('i, 'ca, 'cc, 'sc) gateway \<Rightarrow> nat" where
  "next_poll_delay sm ck gw =
     (case sm_poll_delay sm (ck_smoltcp ck) (gw_iface gw) of None \<Rightarrow> gc_idle_poll_delay (gw_config gw) | Some d \<Rightarrow> d)"

definition gateway_poll ::
    "'i smoltcp \<Rightarrow> clock \<Rightarrow> nat \<Rightarrow> drive_turn \<Rightarrow> pool \<Rightarrow> vec list \<Rightarrow> ('i, 'ca, 'cc, 'sc) gateway \<Rightarrow>
     drive_turn \<times> pool \<times> vec list \<times> ('i, 'ca, 'cc, 'sc) gateway" where
  "gateway_poll sm ck capacity t buffers guest_frames gw =
     (case drain_transmitted_frames capacity t guest_frames (gw_device gw) of
        (t, guest_frames, d) \<Rightarrow>
          let gw = gw\<lparr> gw_device := d \<rparr> in
          if \<not> has_poll_work sm ck gw then (t, buffers, guest_frames, gw)
          else
            let now = ck_smoltcp ck;
                delay_before = sm_poll_delay sm now (gw_iface gw);
                rx_before = length (fd_rx d);
                tx_before = length (fd_tx d)
            in case poll_gateway
                (\<lambda>(i, d, buffers). case sm_poll sm now i (allow_one_receive d) buffers of
                   (i, d, buffers, changed) \<Rightarrow> ((i, d, buffers), changed))
                t (gw_iface gw, d, buffers) of
              (t, (i, d, buffers), None) \<Rightarrow> (t, buffers, guest_frames, gw\<lparr> gw_iface := i, gw_device := d \<rparr>)
            | (t, (i, d, buffers), Some changed) \<Rightarrow>
               (let t = (if changed \<or> sm_poll_delay sm now i \<noteq> delay_before \<or> length (fd_rx d) < rx_before \<or>
                           length (fd_tx d) > tx_before
                         then gateway_poll_progress t else t)
                in case drain_transmitted_frames capacity t guest_frames d of
                  (t, guest_frames, d) \<Rightarrow> (t, buffers, guest_frames, gw\<lparr> gw_iface := i, gw_device := d \<rparr>)))"

section \<open>Admission\<close>

definition udp_host_destination :: "socket_addr \<Rightarrow> ('ca, 'cc, 'sc) gateway_config \<Rightarrow> socket_addr" where
  "udp_host_destination dst config =
     (if fst dst = V4 (gc_gateway config) \<and> snd dst = 53 then gc_dns_upstream config
      else resolve_gateway_destination dst (gc_gateway config))"

definition is_dns_udp :: "('ca, 'cc, 'sc) gateway_config \<Rightarrow> socket_addr \<Rightarrow> bool" where
  "is_dns_udp config dst \<longleftrightarrow> fst dst = V4 (gc_gateway config) \<and> snd dst = 53"

text \<open>All errors of \<open>prepare_udp_payload\<close> are treated alike; a failed output buffer returns to the pool.\<close>

definition prepare_udp_payload ::
    "network_policy \<Rightarrow> application_protocol \<Rightarrow> bytes \<Rightarrow> pool \<Rightarrow> (pool \<times> (byte_buf, unit) result) option" where
  "prepare_udp_payload p protocol payload buffers =
     (if (protocol = ProtoQuic \<or> protocol = ProtoHttp3) \<and> \<not> secrets_is_empty (secrets p) then Some (buffers, Err ())
      else try_byte_with_capacity buffers (length payload) \<bind> (\<lambda>(buffers, r).
        case r of
          Err _ \<Rightarrow> Some (buffers, Err ())
        | Ok b \<Rightarrow>
            if protocol = ProtoDns then Some (buffers, Ok (buf_with payload b))
            else case process payload (buf_data b) of
              (_, Err _) \<Rightarrow> byte_buf_drop buffers b \<bind> (\<lambda>buffers. Some (buffers, Err ()))
            | (data, Ok _) \<Rightarrow> Some (buffers, Ok (b\<lparr> bb_bytes := vec_set data (bb_bytes b) \<rparr>))))"

definition handle_guest_udp ::
    "clock \<Rightarrow> nat \<Rightarrow> socket_addr \<Rightarrow> socket_addr \<Rightarrow> bytes \<Rightarrow> drive_turn \<Rightarrow> pool \<Rightarrow> egress_udp_send list \<Rightarrow>
     ('i, 'ca, 'cc, 'sc) gateway \<Rightarrow>
     (drive_turn \<times> pool \<times> egress_udp_send list \<times> ('i, 'ca, 'cc, 'sc) gateway \<times> bool) option" where
  "handle_guest_udp ck capacity src dst payload t buffers sends gw =
     classify_udp_datagram payload \<bind> (\<lambda>protocol.
       let is_dns = (is_dns_udp (gw_config gw) dst \<or> protocol = ProtoDns) in
       prepare_udp_payload (gc_policy (gw_config gw)) protocol payload buffers \<bind> (\<lambda>(buffers, r).
         case r of
           Err _ \<Rightarrow> Some (t, buffers, sends, gw, True)
         | Ok bytes \<Rightarrow>
            (let host = udp_host_destination dst (gw_config gw);
                 dropped = (\<lambda>gw. byte_buf_drop buffers bytes \<bind> (\<lambda>buffers. Some (t, buffers, sends, gw, True)))
             in if check_destination (egress (gc_policy (gw_config gw))) (fst host) \<noteq> Ok () then dropped gw
                else case (if is_dns then (gw_dns gw, True)
                    else has_allowed_authority_for_ip (ck_now ck) (fst host) (egress (gc_policy (gw_config gw))) (gw_dns gw)) of
                  (dns, False) \<Rightarrow> dropped (gw\<lparr> gw_dns := dns \<rparr>)
                | (dns, True) \<Rightarrow>
                   (let gw = gw\<lparr> gw_dns := dns \<rparr>;
                        send = \<lparr> eu_proxy = \<lparr> guest_src = src, guest_dst = dst, host_dst = host \<rparr>, eu_bytes = bytes, eu_is_dns = is_dns \<rparr>
                    in case push_component_output capacity t sends send of
                      (t, sends, Err _) \<Rightarrow> byte_buf_drop buffers bytes \<bind> (\<lambda>buffers. Some (t, buffers, sends, gw, False))
                    | (t, sends, Ok _) \<Rightarrow>
                        if is_dns then at_record_query payload (gw_dns gw) \<bind> (\<lambda>dns.
                          Some (t, buffers, sends, gw\<lparr> gw_dns := dns \<rparr>, True))
                        else Some (t, buffers, sends, gw, True)))))"

definition allows_tcp_syn :: "clock \<Rightarrow> tcp_syn \<Rightarrow> ('i, 'ca, 'cc, 'sc) gateway \<Rightarrow> ('i, 'ca, 'cc, 'sc) gateway \<times> bool" where
  "allows_tcp_syn ck syn gw =
     (let config = gw_config gw; dst = syn_dst syn in
      if fst dst = V4 (gc_gateway config) \<and> snd dst = 53 then (gw, True)
      else
        let tls_can_authorize_sni = (case gc_tls config of None \<Rightarrow> False | Some tls \<Rightarrow> intercepts_port tls (snd dst)) in
        if check_destination (egress (gc_policy config)) (fst dst) \<noteq> Ok () then (gw, False)
        else if tls_can_authorize_sni then (gw, True)
        else case has_allowed_authority_for_ip (ck_now ck) (fst dst) (egress (gc_policy config)) (gw_dns gw) of
          (dns, ok) \<Rightarrow> (gw\<lparr> gw_dns := dns \<rparr>, ok))"

text \<open>
  The whole of \<open>ingest_guest_frame\<close>: \<open>offer_frame\<close> is its end, which hands a frame to smoltcp, and
  \<open>make_room\<close> the poll before it when the device's queue is full.
\<close>

definition make_room ::
    "'i smoltcp \<Rightarrow> clock \<Rightarrow> gateway_outputs \<Rightarrow> drive_turn \<Rightarrow> pool \<Rightarrow> ('i, 'ca, 'cc, 'sc) gateway \<Rightarrow>
     gateway_outputs \<times> drive_turn \<times> pool \<times> ('i, 'ca, 'cc, 'sc) gateway \<times> bool" where
  "make_room sm ck outs t buffers gw =
     (case (if can_receive_frame (gw_device gw) then (t, buffers, go_guest_frames outs, gw)
            else gateway_poll sm ck (go_frames_capacity outs) t buffers (go_guest_frames outs) gw) of
        (t, buffers, guest_frames, gw) \<Rightarrow>
          let outs = outs\<lparr> go_guest_frames := guest_frames \<rparr> in
          if can_receive_frame (gw_device gw) then (outs, t, buffers, gw, True)
          else (outs, block_on LOCAL_BUFFER_CAPACITY t, buffers, gw, False))"

definition offer_frame ::
    "'i smoltcp \<Rightarrow> clock \<Rightarrow> vec \<Rightarrow> gateway_outputs \<Rightarrow> drive_turn \<Rightarrow> pool \<Rightarrow> ('i, 'ca, 'cc, 'sc) gateway \<Rightarrow>
     gateway_outputs \<times> drive_turn \<times> pool \<times> ('i, 'ca, 'cc, 'sc) gateway \<times> guest_frame_ingest" where
  "offer_frame sm ck frame outs t buffers gw =
     (case make_room sm ck outs t buffers gw of
        (outs, t, buffers, gw, False) \<Rightarrow> (outs, t, buffers, gw, IngestBlocked frame)
      | (outs, t, buffers, gw, True) \<Rightarrow>
         (case receive_frame (gw_device gw) frame of (d, queued) \<Rightarrow>
            case gateway_poll sm ck (go_frames_capacity outs) t
                (if queued then buffers else frame_buf_drop buffers frame) (go_guest_frames outs) (gw\<lparr> gw_device := d \<rparr>) of
              (t, buffers, guest_frames, gw) \<Rightarrow> (outs\<lparr> go_guest_frames := guest_frames \<rparr>, t, buffers, gw, IngestQueued)))"

definition ingest_udp ::
    "clock \<Rightarrow> udp_peers \<Rightarrow> udp_datagram \<Rightarrow> gateway_outputs \<Rightarrow> drive_turn \<Rightarrow> pool \<Rightarrow> ('i, 'ca, 'cc, 'sc) gateway \<Rightarrow>
     (gateway_outputs \<times> drive_turn \<times> pool \<times> ('i, 'ca, 'cc, 'sc) gateway \<times> bool) option" where
  "ingest_udp ck udp dg outs t buffers gw =
     (case host_port_response udp (dg_dst dg) (V4 (gc_gateway (gw_config gw))) (dg_payload dg) of
        Ok send \<Rightarrow>
         (case push_component_output (go_ingress_capacity outs) t (go_ingress_udp_sends outs) send of
            (t, sends, Err send) \<Rightarrow> byte_buf_drop buffers (iu_bytes send) \<bind> (\<lambda>buffers. Some (outs, t, buffers, gw, False))
          | (t, sends, Ok _) \<Rightarrow> Some (outs\<lparr> go_ingress_udp_sends := sends \<rparr>, t, buffers, gw, True))
      | Err payload \<Rightarrow>
          handle_guest_udp ck (go_egress_capacity outs) (dg_src dg) (dg_dst dg) (buf_data payload) t buffers
              (go_egress_udp_sends outs) gw \<bind> (\<lambda>(t, buffers, sends, gw, ok).
            byte_buf_drop buffers payload \<bind> (\<lambda>buffers.
              Some (outs\<lparr> go_egress_udp_sends := sends \<rparr>, t, buffers, gw, ok))))"

definition ingest_guest_frame ::
    "wire \<Rightarrow> ('h, 'k, 'i) socket_ops \<Rightarrow> 'i smoltcp \<Rightarrow> clock \<Rightarrow> ('h, 'k, 'x) tcp_proxy_slots \<Rightarrow> udp_peers \<Rightarrow> vec \<Rightarrow>
     gateway_outputs \<Rightarrow> drive_turn \<Rightarrow> pool \<Rightarrow> ('i, 'ca, 'cc, 'sc) gateway \<Rightarrow>
     (('h, 'k, 'x) tcp_proxy_slots \<times> gateway_outputs \<times> drive_turn \<times> pool \<times> ('i, 'ca, 'cc, 'sc) gateway \<times> guest_frame_ingest) option"
  where
  "ingest_guest_frame w so sm ck tcp udp frame outs t buffers gw =
     udp_datagram_from_frame w (vec_data frame) buffers \<bind> (\<lambda>(buffers, datagram).
       case datagram of
         Some dg \<Rightarrow>
           ingest_udp ck udp dg outs t buffers gw \<bind> (\<lambda>(outs, t, buffers, gw, ok).
             if ok then Some (tcp, outs, t, frame_buf_drop buffers frame, gw, IngestQueued)
             else Some (tcp, outs, t, buffers, gw, IngestBlocked frame))
       | None \<Rightarrow> Some (
           case tcp_syn_from_frame w (vec_data frame) of
             None \<Rightarrow> (tcp, offer_frame sm ck frame outs t buffers gw)
           | Some syn \<Rightarrow>
              (case allows_tcp_syn ck syn gw of (gw, allowed) \<Rightarrow>
                 if \<not> allowed \<or> has_connection tcp (syn_src syn) (syn_dst syn) then (tcp, offer_frame sm ck frame outs t buffers gw)
                 else case make_room sm ck outs t buffers gw of
                   (outs, t, buffers, gw, False) \<Rightarrow> (tcp, outs, t, buffers, gw, IngestBlocked frame)
                 | (outs, t, buffers, gw, True) \<Rightarrow>
                    (case slots_listen so (syn_src syn) (syn_dst syn) tcp (gw_iface gw) of (tcp, sockets, listening) \<Rightarrow>
                       (tcp, offer_frame sm ck frame outs t buffers (gw\<lparr> gw_iface := sockets \<rparr>))))))"

section \<open>Frames for the guest\<close>

definition write_udp_response ::
    "wire \<Rightarrow> 'i smoltcp \<Rightarrow> clock \<Rightarrow> udp_proxy_key \<Rightarrow> bytes \<Rightarrow> bool \<Rightarrow> nat \<Rightarrow> vec list \<Rightarrow> drive_turn \<Rightarrow> pool \<Rightarrow>
     ('i, 'ca, 'cc, 'sc) gateway \<Rightarrow>
     (vec list \<times> drive_turn \<times> pool \<times> ('i, 'ca, 'cc, 'sc) gateway \<times> udp_frame_write) option" where
  "write_udp_response w sm ck proxy payload is_dns capacity guest_frames t buffers gw =
     (case udp_response_frame w proxy payload (gc_mac (gw_config gw)) buffers of
        (buffers, None) \<Rightarrow> Some (guest_frames, block_on LOCAL_BUFFER_CAPACITY t, buffers, gw, FrameWriteBlocked)
      | (buffers, Some frame) \<Rightarrow>
         (case push_guest_frame capacity t guest_frames frame of
            (t, guest_frames, Err frame) \<Rightarrow> Some (guest_frames, t, frame_buf_drop buffers frame, gw, FrameWriteBlocked)
          | (t, guest_frames, Ok _) \<Rightarrow>
              (if is_dns then at_record_response (ck_now ck) payload (gw_dns gw) else Some (gw_dns gw)) \<bind> (\<lambda>dns.
                case gateway_poll sm ck capacity t buffers guest_frames (gw\<lparr> gw_dns := dns \<rparr>) of
                  (t, buffers, guest_frames, gw) \<Rightarrow> Some (guest_frames, t, buffers, gw, FrameQueued))))"

definition ingest_ingress_udp_datagram ::
    "wire \<Rightarrow> 'i smoltcp \<Rightarrow> clock \<Rightarrow> udp_peers \<Rightarrow> u16 \<Rightarrow> socket_addr \<Rightarrow> bytes \<Rightarrow> nat \<Rightarrow> vec list \<Rightarrow> drive_turn \<Rightarrow> pool \<Rightarrow>
     ('i, 'ca, 'cc, 'sc) gateway \<Rightarrow>
     udp_peers \<times> vec list \<times> drive_turn \<times> pool \<times> ('i, 'ca, 'cc, 'sc) gateway \<times> udp_frame_write" where
  "ingest_ingress_udp_datagram w sm ck udp port peer payload capacity guest_frames t buffers gw =
     (if \<not> can_open_host_port udp port then (udp, guest_frames, t, buffers, gw, FrameDropped)
      else case udp_frame w (V4 (gc_gateway (gw_config gw)), port) (V4 (gc_guest (gw_config gw)), port) payload
          (mac_gateway (gc_mac (gw_config gw))) (mac_guest (gc_mac (gw_config gw))) buffers of
        (buffers, None) \<Rightarrow> (udp, guest_frames, block_on LOCAL_BUFFER_CAPACITY t, buffers, gw, FrameWriteBlocked)
      | (buffers, Some frame) \<Rightarrow>
         (case push_guest_frame capacity t guest_frames frame of
            (t, guest_frames, Err frame) \<Rightarrow> (udp, guest_frames, t, frame_buf_drop buffers frame, gw, FrameWriteBlocked)
          | (t, guest_frames, Ok _) \<Rightarrow>
             (case open_host_port udp port peer of
                (udp, False) \<Rightarrow> (udp, guest_frames, t, buffers, gw, FrameDropped)
              | (udp, True) \<Rightarrow>
                 (case gateway_poll sm ck capacity t buffers guest_frames gw of
                    (t, buffers, guest_frames, gw) \<Rightarrow> (udp, guest_frames, t, buffers, gw, FrameQueued)))))"

section \<open>Routes\<close>

definition blocked_plain :: "network_policy \<Rightarrow> tcp_egress_policy" where
  "blocked_plain p = \<lparr> tp_decision = \<lparr> ed_application = PolicyBlock TlsInterceptUnavailable \<rparr>,
     tp_reject_secret_placeholders = (\<not> secrets_is_empty (secrets p)) \<rparr>"

definition tcp_egress_route ::
    "('ca, 'cc, 'sc, 'e) crypto \<Rightarrow> clock \<Rightarrow> socket_addr \<Rightarrow> ('i, 'ca, 'cc, 'sc) gateway \<Rightarrow>
     ('i, 'ca, 'cc, 'sc) gateway \<times> ('ca, 'cc, 'sc) tcp_route" where
  "tcp_egress_route cr ck dst gw =
     (let config = gw_config gw; p = gc_policy config in
      if fst dst = V4 (gc_gateway config) \<and> snd dst = 53 then (gw, RouteDns (gc_dns_upstream config))
      else case gc_tls config of
        Some tls \<Rightarrow>
          (if intercepts_port tls (snd dst) then
             let upstream = resolve_gateway_destination dst (gc_gateway config) in
             case hosts_for_ip (ck_now ck) (fst dst) (gw_dns gw) of (dns, hosts) \<Rightarrow>
               let authorities = map authority_new hosts in
               case tls_egress_policy_for cr (ck_system ck) upstream (map (\<lambda>a. (ck_issue ck a, a)) authorities) p tls of
                 (tls, r) \<Rightarrow>
                   (gw\<lparr> gw_dns := dns, gw_config := config\<lparr> gc_tls := Some tls \<rparr> \<rparr>,
                    case r of Err _ \<Rightarrow> RoutePlain (blocked_plain p) | Ok policy \<Rightarrow> RouteTls policy)
           else (gw, RoutePlain \<lparr> tp_decision = \<lparr> ed_application = PolicyRaw \<rparr>,
                  tp_reject_secret_placeholders = (\<not> secrets_is_empty (secrets p)) \<rparr>))
      | None \<Rightarrow> (gw, RoutePlain \<lparr> tp_decision = \<lparr> ed_application = PolicyRaw \<rparr>,
          tp_reject_secret_placeholders = (\<not> secrets_is_empty (secrets p)) \<rparr>))"

definition gateway_tcp_egress_route ::
    "('ca, 'cc, 'sc, 'e) crypto \<Rightarrow> clock \<Rightarrow> socket_addr \<Rightarrow> ('i, 'ca, 'cc, 'sc) gateway \<Rightarrow>
     ('i, 'ca, 'cc, 'sc) gateway \<times> socket_addr \<times> ('ca, 'cc, 'sc) tcp_route" where
  "gateway_tcp_egress_route cr ck dst gw =
     (case tcp_egress_route cr ck dst gw of (gw, route) \<Rightarrow>
        (gw, resolve_gateway_destination dst (gc_gateway (gw_config gw)), route))"

definition update_runtime_secrets ::
    "runtime_secrets \<Rightarrow> ('i, 'ca, 'cc, 'sc) gateway \<Rightarrow> ('i, 'ca, 'cc, 'sc) gateway \<times> authority set option" where
  "update_runtime_secrets bindings gw =
     (let config = gw_config gw; p = gc_policy config in
      if secrets p = bindings then (gw, None)
      else (gw\<lparr> gw_config := config\<lparr> gc_policy := p\<lparr> secrets := bindings \<rparr> \<rparr> \<rparr>, Some (changed_authorities (secrets p) bindings)))"

definition record_dns_resolution ::
    "clock \<Rightarrow> bytes \<Rightarrow> ip_addr list \<Rightarrow> nat \<Rightarrow> ('i, 'ca, 'cc, 'sc) gateway \<Rightarrow> ('i, 'ca, 'cc, 'sc) gateway" where
  "record_dns_resolution ck host addresses ttl gw = gw\<lparr> gw_dns := at_record (ck_now ck) host addresses ttl (gw_dns gw) \<rparr>"

end
