(* ===== verification/GatewaySafety.thy ===== *)
theory GatewaySafety
  imports GatewayFlow DriveSafety
begin

text \<open>
  What leaves the guest through the gateway: every datagram and every connection it admits is within
  the policy, and a frame it refuses for want of room has had no effect on what goes out.
\<close>

section \<open>What the gateway keeps\<close>

lemma gateway_poll_keeps:
  assumes "gateway_poll sm ck capacity t buffers guest_frames gw = (t', buffers', guest_frames', gw')"
  shows "gw_config gw' = gw_config gw \<and> gw_dns gw' = gw_dns gw"
  using assms by (auto simp: gateway_poll_def Let_def split: prod.splits option.splits if_splits)

lemma make_room_keeps:
  assumes "make_room sm ck outs t buffers gw = (outs', t', buffers', gw', ok)"
  shows "gw_config gw' = gw_config gw \<and> gw_dns gw' = gw_dns gw \<and>
    go_egress_udp_sends outs' = go_egress_udp_sends outs \<and> go_ingress_udp_sends outs' = go_ingress_udp_sends outs"
  using assms by (auto simp: make_room_def Let_def dest!: gateway_poll_keeps split: prod.splits if_splits)

lemma offer_frame_keeps:
  assumes "offer_frame sm ck frame outs t buffers gw = (outs', t', buffers', gw', r)"
  shows "gw_config gw' = gw_config gw \<and> gw_dns gw' = gw_dns gw \<and>
    go_egress_udp_sends outs' = go_egress_udp_sends outs \<and> go_ingress_udp_sends outs' = go_ingress_udp_sends outs \<and>
    (r = IngestQueued \<or> r = IngestBlocked frame)"
  using assms by (auto simp: offer_frame_def Let_def dest!: gateway_poll_keeps make_room_keeps split: prod.splits bool.splits)

section \<open>Datagrams\<close>

text \<open>
  A pooled buffer holds no bytes: it is new, or was cleared when it came back, so what is written into
  a buffer taken from the pool is all it holds.
\<close>

definition pool_blank :: "pool \<Rightarrow> bool" where
  "pool_blank p \<longleftrightarrow> (\<forall>v\<in>set (bk_small (pl_bytes p) @ bk_medium (pl_bytes p) @ bk_tcp (pl_bytes p)). vec_data v = [])"

lemma pool_blank_buckets:
  "pool_blank p \<longleftrightarrow> (\<forall>c vs. bucket_of c (pl_bytes p) = Some vs \<longrightarrow> (\<forall>v\<in>set vs. vec_data v = []))"
proof
  assume "pool_blank p"
  then show "\<forall>c vs. bucket_of c (pl_bytes p) = Some vs \<longrightarrow> (\<forall>v\<in>set vs. vec_data v = [])"
    by (intro allI) (rename_tac c vs, case_tac c; auto simp: pool_blank_def)
next
  assume "\<forall>c vs. bucket_of c (pl_bytes p) = Some vs \<longrightarrow> (\<forall>v\<in>set vs. vec_data v = [])"
  from this [rule_format, of Small] this [rule_format, of Medium] this [rule_format, of Tcp] show "pool_blank p"
    by (auto simp: pool_blank_def)
qed

lemma bucket_set_of:
  "bucket_set c vs b = Some b' \<Longrightarrow> bucket_of d b' = (if c = d then Some vs else bucket_of d b)"
  by (cases c; cases d) auto

lemma pool_blank_take:
  assumes "try_byte_with_capacity p n = Some (p', r)" "pool_blank p"
  shows "pool_blank p'" "r = Ok b \<Longrightarrow> buf_data b = []"
  using assms
  by (auto simp: try_byte_with_capacity_def byte_try_take_def buckets_take_def buckets_recycle_def pool_blank_buckets Let_def
      bucket_set_of dest!: in_set_butlastD last_in_set split: if_splits option.splits bind_splits)

lemma pool_blank_drop:
  assumes "byte_buf_drop p b = Some p'" "pool_blank p"
  shows "pool_blank p'"
  using assms
  by (auto simp: byte_buf_drop_def byte_recycle_def buckets_recycle_def pool_blank_buckets Let_def vec_clear_def
      vec_with_capacity_def bucket_set_of split: if_splits bind_splits)

lemma prepare_udp_payload_Ok:
  assumes "prepare_udp_payload p protocol payload buffers = Some (buffers', Ok b)" "pool_blank buffers"
  shows "buf_data b = payload \<and> (protocol = ProtoQuic \<or> protocol = ProtoHttp3 \<longrightarrow> secrets_is_empty (secrets p)) \<and>
    (protocol \<noteq> ProtoDns \<longrightarrow> reject_unresolved_secret_placeholders payload = Ok ())"
proof -
  obtain buffers1 b0 where b0: "try_byte_with_capacity buffers (length payload) = Some (buffers1, Ok b0)"
      and ok: "protocol = ProtoQuic \<or> protocol = ProtoHttp3 \<longrightarrow> secrets_is_empty (secrets p)"
      and b: "(if protocol = ProtoDns then Some (buffers1, Ok (buf_with payload b0))
        else case process payload (buf_data b0) of
          (_, Err _) \<Rightarrow> byte_buf_drop buffers1 b0 \<bind> (\<lambda>buffers. Some (buffers, Err ()))
        | (data, Ok _) \<Rightarrow> Some (buffers1, Ok (b0\<lparr> bb_bytes := vec_set data (bb_bytes b0) \<rparr>))) = Some (buffers', Ok b)"
    using assms(1) unfolding prepare_udp_payload_def by (auto split: if_split_asm bind_split_asm result.split_asm prod.split_asm)
  have "buf_data b0 = []" using pool_blank_take(2) [OF b0 assms(2)] by blast
  then show ?thesis using b ok
    by (auto simp: process_def buf_with_def buf_extend_from_slice_def vec_set_def bind_eq_Some_conv split: if_splits result.splits)
qed

text \<open>What the policy asks of a datagram to \<open>dst\<close> with \<open>payload\<close> that leaves as \<open>send\<close>.\<close>

definition udp_permitted ::
    "clock \<Rightarrow> ('ca, 'cc, 'sc) gateway_config \<Rightarrow> dns_attribution \<Rightarrow> socket_addr \<Rightarrow> socket_addr \<Rightarrow> bytes \<Rightarrow> egress_udp_send \<Rightarrow> bool"
  where
  "udp_permitted ck config dns src dst payload send \<longleftrightarrow>
     (let p = gc_policy config; host = udp_host_destination dst config; proto = classify_udp_datagram payload in
      eu_proxy send = \<lparr> guest_src = src, guest_dst = dst, host_dst = host \<rparr> \<and> buf_data (eu_bytes send) = payload \<and>
      check_destination (egress p) (fst host) = Ok () \<and>
      (proto = Some ProtoQuic \<or> proto = Some ProtoHttp3 \<longrightarrow> secrets_is_empty (secrets p)) \<and>
      (proto \<noteq> Some ProtoDns \<longrightarrow> reject_unresolved_secret_placeholders payload = Ok ()) \<and>
      (eu_is_dns send \<longleftrightarrow> is_dns_udp config dst \<or> proto = Some ProtoDns) \<and>
      (\<not> eu_is_dns send \<longrightarrow> snd (has_allowed_authority_for_ip (ck_now ck) (fst host) (egress p) dns)))"

lemma handle_guest_udp_permitted:
  assumes "handle_guest_udp ck capacity src dst payload t buffers sends gw = Some (t', buffers', sends', gw', ok)" "pool_blank buffers"
  shows "gw_config gw' = gw_config gw \<and>
    (sends' = sends \<or> ok \<and> (\<exists>send. sends' = sends @ [send] \<and> udp_permitted ck (gw_config gw) (gw_dns gw) src dst payload send))"
  using assms unfolding handle_guest_udp_def Let_def
  by (auto simp: udp_permitted_def push_component_output_def Let_def dest: prepare_udp_payload_Ok
      split: prod.split_asm result.split_asm if_split_asm bind_split_asm bool.split_asm)

lemma udp_datagram_from_frame_Some:
  assumes "udp_datagram_from_frame w frame buffers = Some (buffers', r)" "pool_blank buffers"
  shows "pool_blank buffers' \<and> (\<forall>dg. r = Some dg \<longrightarrow> udp_view_of w frame = Some (dg_src dg, dg_dst dg, buf_data (dg_payload dg)))"
  using assms pool_blank_take [of buffers]
  by (auto simp: udp_datagram_from_frame_def buf_with_def buf_extend_from_slice_def vec_set_def
      split: option.split_asm prod.split_asm bind_split_asm result.split_asm)

text \<open>
  The peer a datagram to \<open>dst\<close> answers: the one recorded for a published port of the gateway.  Such an
  answer is sent to that peer as it is, whatever the policy says; every other datagram is the policy's.
\<close>

definition published_peer :: "('ca, 'cc, 'sc) gateway_config \<Rightarrow> udp_peers \<Rightarrow> socket_addr \<Rightarrow> socket_addr option" where
  "published_peer config udp dst = (if fst dst = V4 (gc_gateway config) then ft_get udp (snd dst) else None)"

text \<open>
  What becomes of a datagram: \<open>sends\<close> and \<open>answers\<close> are what leaves for the network and for the peers of
  published ports, before and after.
\<close>

definition datagram_confined ::
    "clock \<Rightarrow> ('i, 'ca, 'cc, 'sc) gateway \<Rightarrow> udp_peers \<Rightarrow> socket_addr \<Rightarrow> socket_addr \<Rightarrow> bytes \<Rightarrow> bool \<Rightarrow>
     egress_udp_send list \<times> ingress_udp_send list \<Rightarrow> egress_udp_send list \<times> ingress_udp_send list \<Rightarrow> bool" where
  "datagram_confined ck gw udp src dst payload accepted before after \<longleftrightarrow>
     after = before \<or>
     accepted \<and>
     (case published_peer (gw_config gw) udp dst of
        Some peer \<Rightarrow> \<exists>bytes. after =
            (fst before, snd before @ [\<lparr> iu_port = snd dst, iu_peer = peer, iu_bytes = bytes \<rparr>]) \<and> buf_data bytes = payload
      | None \<Rightarrow> \<exists>send. after = (fst before @ [send], snd before) \<and>
          udp_permitted ck (gw_config gw) (gw_dns gw) src dst payload send)"

lemma ingest_udp_permitted:
  assumes "ingest_udp ck udp dg outs t buffers gw = Some (outs', t', buffers', gw', ok)" "pool_blank buffers"
  shows "gw_config gw' = gw_config gw \<and>
    datagram_confined ck gw udp (dg_src dg) (dg_dst dg) (buf_data (dg_payload dg)) ok
      (go_egress_udp_sends outs, go_ingress_udp_sends outs) (go_egress_udp_sends outs', go_ingress_udp_sends outs')"
  using assms unfolding ingest_udp_def datagram_confined_def
  by (auto simp: host_port_response_def push_component_output_def published_peer_def prod_eq_iff dest!: handle_guest_udp_permitted
      split: result.split_asm prod.split_asm bind_split_asm if_split_asm option.split_asm)

section \<open>Connections\<close>

definition tcp_permitted :: "clock \<Rightarrow> ('ca, 'cc, 'sc) gateway_config \<Rightarrow> dns_attribution \<Rightarrow> socket_addr \<Rightarrow> bool" where
  "tcp_permitted ck config dns dst \<longleftrightarrow> dst = (V4 (gc_gateway config), 53) \<or>
     check_destination (egress (gc_policy config)) (fst dst) = Ok () \<and>
     ((\<exists>tls. gc_tls config = Some tls \<and> intercepts_port tls (snd dst)) \<or>
      snd (has_allowed_authority_for_ip (ck_now ck) (fst dst) (egress (gc_policy config)) dns))"

lemma allows_tcp_syn_permitted:
  assumes "allows_tcp_syn ck syn gw = (gw', allowed)"
  shows "gw_config gw' = gw_config gw \<and> (allowed \<longleftrightarrow> tcp_permitted ck (gw_config gw) (gw_dns gw) (syn_dst syn))"
  using assms
  by (auto simp: allows_tcp_syn_def tcp_permitted_def Let_def prod_eq_iff split: if_splits option.splits prod.splits)

lemma has_connection_iff:
  "has_connection ps a b \<longleftrightarrow> (\<exists>i slot. i < length (ps_slots ps) \<and> ps_slots ps ! i = Some slot \<and> sl_requested slot = Some (a, b))"
  by (auto simp: has_connection_def list_ex_iff List.map_filter_def in_set_conv_nth Bex_def)

lemma slots_listen_connections:
  assumes "slots_listen so src dst ps sockets = (ps', sockets', listening)"
  shows "has_connection ps' a b \<longleftrightarrow> has_connection ps a b \<or> listening \<and> (a, b) = (src, dst)"
proof (cases listening)
  case False
  then have "ps_slots ps' = ps_slots ps"
    using assms by (auto simp: slots_listen_def split: option.splits if_splits prod.splits bool.splits)
  then show ?thesis using False by (simp add: has_connection_def)
next
  case True
  then obtain i handle where i: "i < length (ps_slots ps)" "ps_slots ps ! i = None"
      "ps_slots ps' = (ps_slots ps)[i := Some (entry_listening handle src dst)]"
    using assms by (auto simp: slots_listen_def position_Some Option.is_none_def split: option.splits if_splits prod.splits bool.splits)
  show ?thesis
    using True i(1,2) unfolding has_connection_iff i(3)
    by (auto simp: nth_list_update entry_listening_def split: if_splits) (metis option.distinct(1))+
qed

text \<open>Once there is room a frame that is offered is taken.\<close>

lemma make_room_receives:
  "make_room sm ck outs t buffers gw = (outs', t', buffers', gw', True) \<Longrightarrow> can_receive_frame (gw_device gw')"
  by (auto simp: make_room_def Let_def split: prod.splits if_splits)

lemma offer_frame_taken:
  assumes "offer_frame sm ck frame outs t buffers gw = (outs', t', buffers', gw', r)" "can_receive_frame (gw_device gw)"
  shows "r = IngestQueued"
  using assms by (auto simp: offer_frame_def make_room_def Let_def split: prod.splits)

text \<open>
  Claim C4.  What one frame of the guest can let out: at most one datagram, and that only when the
  frame is a UDP frame that is accepted.  If its destination is a published port of the gateway with a
  recorded peer, the datagram goes to that peer, from that port and unchanged, and to nobody else; these
  answers are not subject to the egress policy.  Every other datagram leaves unchanged for the
  destination the configuration gives it, an address the egress policy permits; with secrets
  configured no QUIC or HTTP/3 leaves, a payload with an unresolved placeholder leaves only inside a
  DNS message, and whatever is not DNS goes only to an address a resolved, unexpired, allowed name
  stands for.  A connection appears in the table only for the frame's own SYN, when its destination is
  the gateway's resolver or a permitted address that is attributed to an allowed name or reached on an
  intercepted port.  A frame refused for want of room comes back as it was, has let nothing out and has
  left the table of connections alone, so it can be offered again; and the configuration never changes.
\<close>

theorem gateway_egress_confined:
  assumes "ingest_guest_frame w so sm ck tcp udp frame outs t buffers gw = Some (tcp', outs', t', buffers', gw', r)"
    and "pool_blank buffers"
  shows "gw_config gw' = gw_config gw \<and>
    (let before = (go_egress_udp_sends outs, go_ingress_udp_sends outs);
         after = (go_egress_udp_sends outs', go_ingress_udp_sends outs')
     in (case udp_view_of w (vec_data frame) of
           None \<Rightarrow> after = before
         | Some (src, dst, payload) \<Rightarrow> datagram_confined ck gw udp src dst payload (r = IngestQueued) before after) \<and>
        (r = IngestQueued \<or> r = IngestBlocked frame \<and> after = before \<and> tcp' = tcp)) \<and>
    (\<forall>src dst. (has_connection tcp src dst \<longrightarrow> has_connection tcp' src dst) \<and>
       (has_connection tcp' src dst \<and> \<not> has_connection tcp src dst \<longrightarrow>
         tcp_syn_from_frame w (vec_data frame) = Some \<lparr> syn_src = src, syn_dst = dst \<rparr> \<and>
         tcp_permitted ck (gw_config gw) (gw_dns gw) dst))"
proof -
  obtain buffers1 dg where dg: "udp_datagram_from_frame w (vec_data frame) buffers = Some (buffers1, dg)"
    using assms(1) by (auto simp: ingest_guest_frame_def split: bind_split_asm)
  note view = udp_datagram_from_frame_Some [OF dg assms(2)]
  show ?thesis
  proof (cases dg)
    case (Some d)
    then obtain outs1 t1 buffers2 gw1 ok where d: "ingest_udp ck udp d outs t buffers1 gw = Some (outs1, t1, buffers2, gw1, ok)"
        "tcp' = tcp" "outs' = outs1" "gw' = gw1" "r = (if ok then IngestQueued else IngestBlocked frame)"
      using assms(1) dg by (auto simp: ingest_guest_frame_def split: bind_split_asm if_split_asm)
    then show ?thesis
      using ingest_udp_permitted [OF d(1)] view Some by (auto simp: Let_def datagram_confined_def)
  next
    case None
    note split = option.split_asm prod.split_asm if_split_asm bool.split_asm
    have silent: "gw_config gw' = gw_config gw \<and> go_egress_udp_sends outs' = go_egress_udp_sends outs \<and>
        go_ingress_udp_sends outs' = go_ingress_udp_sends outs \<and> (r = IngestQueued \<or> r = IngestBlocked frame)"
      using assms(1) dg None
      by (auto simp: ingest_guest_frame_def split: split dest!: offer_frame_keeps allows_tcp_syn_permitted make_room_keeps)
    have "r = IngestQueued \<or> tcp' = tcp"
      using assms(1) dg None
      by (auto simp: ingest_guest_frame_def split: split dest!: make_room_receives dest: offer_frame_taken)
    moreover have "\<forall>src dst. (has_connection tcp src dst \<longrightarrow> has_connection tcp' src dst) \<and>
       (has_connection tcp' src dst \<and> \<not> has_connection tcp src dst \<longrightarrow>
         tcp_syn_from_frame w (vec_data frame) = Some \<lparr> syn_src = src, syn_dst = dst \<rparr> \<and>
         tcp_permitted ck (gw_config gw) (gw_dns gw) dst)"
      using assms(1) dg None
      by (auto simp: ingest_guest_frame_def split: split dest!: allows_tcp_syn_permitted dest: slots_listen_connections)
    ultimately show ?thesis using silent by (auto simp: Let_def datagram_confined_def split: option.split)
  qed
qed

section \<open>Limits of the confinement\<close>

text \<open>
  A datagram that has the form of a DNS query is let out to every permitted address and port, whatever the
  allow list and the attribution table hold: the exemption goes by the payload, not by the resolver.
\<close>

lemma dns_shaped_datagram_leaves:
  assumes "classify_udp_datagram payload = Some ProtoDns"
    and "check_destination (egress (gc_policy (gw_config gw))) (fst (udp_host_destination dst (gw_config gw))) = Ok ()"
    and "try_byte_with_capacity buffers (length payload) = Some (buffers1, Ok b)"
    and "length sends < capacity" "step_or_exhausted t = (t1, True)"
    and "handle_guest_udp ck capacity src dst payload t buffers sends gw = Some (t', buffers', sends', gw', ok)"
  shows "ok \<and> (\<exists>send. sends' = sends @ [send] \<and> host_dst (eu_proxy send) = udp_host_destination dst (gw_config gw))"
  using assms
  by (auto simp: handle_guest_udp_def prepare_udp_payload_def push_component_output_def Let_def split: bind_split_asm)

text \<open>
  The guest's queries to the gateway's resolver go to the configured upstream.  Over UDP that address is
  checked like any other, so with a private or loopback upstream and private destinations denied they are
  dropped without an answer; over TCP the same query is admitted and routed to the same upstream.
\<close>

lemma private_resolver_udp_dropped:
  assumes "check_destination (egress (gc_policy (gw_config gw))) (fst (gc_dns_upstream (gw_config gw))) \<noteq> Ok ()"
    and "dst = (V4 (gc_gateway (gw_config gw)), 53)"
    and "handle_guest_udp ck capacity src dst payload t buffers sends gw = Some (t', buffers', sends', gw', ok)"
  shows "ok \<and> sends' = sends \<and> tcp_permitted ck (gw_config gw) (gw_dns gw) dst \<and>
    snd (tcp_egress_route cr ck dst gw) = RouteDns (gc_dns_upstream (gw_config gw))"
  using assms unfolding handle_guest_udp_def Let_def
  by (auto simp: udp_host_destination_def tcp_permitted_def tcp_egress_route_def Let_def
      split: bind_split_asm prod.split_asm result.split_asm)

text \<open>
  A resolution a proxy reports is recorded without a question of the guest: whoever answers on a flow that
  is treated as DNS attributes an allowed name to any permitted address, and the guest may then open
  connections to it.
\<close>

lemma reported_resolution_opens:
  assumes "normalized_host (normalized_host host) \<in> allowed_authorities (egress (gc_policy (gw_config gw)))"
    and "check_destination (egress (gc_policy (gw_config gw))) address = Ok ()"
    and "length (at_records (gw_dns gw)) < at_capacity (gw_dns gw)"
  shows "tcp_permitted ck (gw_config gw) (gw_dns (record_dns_resolution ck host [address] ttl gw)) (address, port)"
proof -
  have "normalized_host host \<in> set (snd (hosts_for_ip (ck_now ck) address (at_record (ck_now ck) host [address] ttl (gw_dns gw))))"
    by (rule at_record_found) (use assms(3) in \<open>auto simp: from_secs_def\<close>)
  then show ?thesis using assms(1,2) by (auto simp: tcp_permitted_def record_dns_resolution_def has_allowed_iff)
qed

section \<open>A datagram\<close>

definition demo_wire :: wire where
  "demo_wire = \<lparr> eth_view = (\<lambda>f. Some (0x0800, f)), ipv4_view = (\<lambda>f. Some (17, Ipv4 10 73 0 10, Ipv4 9 9 9 9, f)),
     tcp_view = (\<lambda>f. None), udp_view = (\<lambda>f. Some (1000, 4000, f)), write_udp = (\<lambda>_ _ _ _ _ f. f) \<rparr>"

definition demo_sockets :: "(nat, unit, unit) socket_ops" where
  "demo_sockets = \<lparr> sk_abort = id, sk_listen = (\<lambda>_ k. (k, True)), sk_add = (\<lambda>_ i. (0, i)) \<rparr>"

definition demo_smoltcp :: "unit smoltcp" where
  "demo_smoltcp = \<lparr> sm_poll = (\<lambda>_ i d p. (i, d, p, False)), sm_poll_delay = (\<lambda>_ _. None) \<rparr>"

definition demo_clock :: clock where
  "demo_clock = \<lparr> ck_now = 5, ck_system = 5, ck_smoltcp = 5, ck_issue = (\<lambda>_. 5) \<rparr>"

definition demo_gateway :: "(unit, unit, unit, unit) gateway" where
  "demo_gateway = \<lparr> gw_iface = (), gw_device = \<lparr> fd_mtu = 8, fd_queue_capacity = 4, fd_rx = [], fd_tx = [], fd_rx_budget = 1 \<rparr>,
     gw_dns = (attribution_new 2)\<lparr> at_records := [\<lparr> at_address = V4 (Ipv4 9 9 9 9), at_host = [97], at_expires = 9 \<rparr>] \<rparr>,
     gw_config = \<lparr> gc_policy = policy_new (with_allowed_authority [97] default_deny_private),
       gc_mac = \<lparr> mac_gateway = [2, 0, 0, 0, 0, 1], mac_guest = [2, 0, 0, 0, 0, 2] \<rparr>,
       gc_gateway = Ipv4 10 73 0 1, gc_guest = Ipv4 10 73 0 10, gc_dns_upstream = (V4 (Ipv4 8 8 8 8), 53), gc_tls = None,
       gc_idle_poll_delay = 1 \<rparr> \<rparr>"

definition demo_buffers :: pool where
  "demo_buffers = (pool_new small_limits)\<lparr> pl_bytes :=
     \<lparr> bk_small = [vec_with_capacity 2, vec_with_capacity 2], bk_medium = [], bk_tcp = [] \<rparr> \<rparr>"

definition demo_outputs :: gateway_outputs where
  "demo_outputs = \<lparr> go_egress_udp_sends = [], go_egress_capacity = 2, go_ingress_udp_sends = [], go_ingress_capacity = 2,
     go_guest_frames = [], go_frames_capacity = 2 \<rparr>"

definition demo_slots :: "(nat, unit, unit) tcp_proxy_slots" where
  "demo_slots = \<lparr> ps_slots = [None], ps_idle_sockets = [()] \<rparr>"

lemma demo_udp_sent:
  "map_option (\<lambda>(tcp, outs, t, p, gw, r). (map (\<lambda>s. (host_dst (eu_proxy s), buf_data (eu_bytes s))) (go_egress_udp_sends outs), r))
     (ingest_guest_frame demo_wire demo_sockets demo_smoltcp demo_clock demo_slots (udp_peers_new 1) \<lparr> vec_data = [1, 2], vec_cap = 32 \<rparr>
       demo_outputs (turn_new (budget_event_loop small_limits) report_new) demo_buffers demo_gateway) =
   Some ([((V4 (Ipv4 9 9 9 9), 4000), [1, 2])], IngestQueued)"
  by code_simp

theorem gateway_egress_confined_witness:
  "\<exists>tcp outs t p gw send. pool_blank demo_buffers \<and>
     ingest_guest_frame demo_wire demo_sockets demo_smoltcp demo_clock demo_slots (udp_peers_new 1) \<lparr> vec_data = [1, 2], vec_cap = 32 \<rparr>
       demo_outputs (turn_new (budget_event_loop small_limits) report_new) demo_buffers demo_gateway = Some (tcp, outs, t, p, gw, IngestQueued) \<and>
     go_egress_udp_sends outs = [send] \<and>
     udp_permitted demo_clock (gw_config demo_gateway) (gw_dns demo_gateway) (V4 (Ipv4 10 73 0 10), 1000) (V4 (Ipv4 9 9 9 9), 4000) [1, 2] send"
proof -
  have blank: "pool_blank demo_buffers" by (simp add: pool_blank_def demo_buffers_def vec_with_capacity_def)
  obtain tcp outs t p gw where run: "ingest_guest_frame demo_wire demo_sockets demo_smoltcp demo_clock demo_slots (udp_peers_new 1)
       \<lparr> vec_data = [1, 2], vec_cap = 32 \<rparr> demo_outputs (turn_new (budget_event_loop small_limits) report_new) demo_buffers demo_gateway =
         Some (tcp, outs, t, p, gw, IngestQueued)" and sent: "go_egress_udp_sends outs \<noteq> []"
    using demo_udp_sent by auto
  have view: "udp_view_of demo_wire [1, 2] = Some ((V4 (Ipv4 10 73 0 10), 1000), (V4 (Ipv4 9 9 9 9), 4000), [1, 2])"
    by (simp add: udp_view_of_def demo_wire_def ETHERTYPE_IPV4_def PROTO_UDP_def)
  have "published_peer (gw_config demo_gateway) (udp_peers_new 1) (V4 (Ipv4 9 9 9 9), 4000) = None"
    by (simp add: published_peer_def demo_gateway_def)
  with gateway_egress_confined [OF run blank] run sent view blank show ?thesis
    by (auto simp: demo_outputs_def datagram_confined_def Let_def)
qed

end
