(* ===== verification/PlainTcp.thy ===== *)
theory PlainTcp
  imports TlsRoute Raw Classify DnsTcp Relay
begin

text \<open>
  The plain TCP proxy, \<open>egress/tcp/plain.rs\<close> of \<open>src/src/libs/agentdp-network/src\<close>: one connection of
  the guest relayed to its upstream as it is, for destinations that are not intercepted, for DNS over
  TCP and for bypassed TLS.

  The upstream socket is read and written by two functions on its state; the rest of the host, which
  is the reactor, \<open>take_error\<close> and \<open>shutdown_write\<close>, is a state of its own.  Of the addresses, names
  and phases kept for error reports nothing is here, and an error is the value its text is made from.
\<close>

section \<open>The proxy\<close>

datatype plain_route = PolicyRoute tcp_egress_policy | DnsRoute | BypassRoute

datatype plain_error =
  PlainPolicy policy_error
| PlainBlocked block_reason application_protocol
| PlainHttp1 application_protocol
| PlainIo io_error
| PlainPool pool_exhausted
| PlainRouteMissing
| PlainMessage bytes

datatype tcp_proxy_event = ProxyClosed | ProxyError plain_error | ProxyDnsResolved dns_resolution

datatype tcp_proxy_poll = PollBytes byte_buf | PollEvent tcp_proxy_event | PollPending

record 's registered_stream =
  rs_source :: 's
  rs_io :: io_slot

datatype 's plain_state =
  PlainConnecting "plain_route option" "'s registered_stream" bool
| PlainOpen "'s registered_stream" plain_route "tcp_dns_tracker option" bool
| PlainFailed bytes

record 's plain_tcp_proxy =
  pt_pending :: write_queue
  pt_pending_polls :: "tcp_proxy_poll list"
  pt_guest_write_finished :: bool
  pt_close_requested :: bool
  pt_read_pending :: bool
  pt_state :: "'s plain_state"

datatype shutdown_result = ShutdownDone | ShutdownNotConnected | ShutdownFailed io_error

record 'k host_ops =
  ho_reregister :: "reactor_interest \<Rightarrow> 'k \<Rightarrow> 'k \<times> (unit, io_error) result"
  ho_take_error :: "'k \<Rightarrow> 'k \<times> (unit, io_error) result"
  ho_shutdown_write :: "'k \<Rightarrow> 'k \<times> shutdown_result"

type_synonym tcp_proxy_permit = u8

definition READ_UPSTREAM :: tcp_proxy_permit where "READ_UPSTREAM = push_bit 0 1"
definition WRITE_UPSTREAM :: tcp_proxy_permit where "WRITE_UPSTREAM = push_bit 1 1"

definition permit_contains :: "tcp_proxy_permit \<Rightarrow> tcp_proxy_permit \<Rightarrow> bool" where
  "permit_contains p permit \<longleftrightarrow> (p AND permit) \<noteq> 0"

text \<open>A registered stream changes its interest only when it differs from the registered one.\<close>

definition stream_reregister ::
    "'k host_ops \<Rightarrow> reactor_interest \<Rightarrow> 'k \<Rightarrow> 's registered_stream \<Rightarrow> 'k \<times> 's registered_stream \<times> (unit, io_error) result" where
  "stream_reregister ho interest k rs =
     (if interest = io_interest (rs_io rs) then (k, rs, Ok ())
      else case ho_reregister ho interest k of
        (k, Err e) \<Rightarrow> (k, rs, Err e)
      | (k, Ok _) \<Rightarrow> (k, rs\<lparr> rs_io := io_set_registered_interest interest (rs_io rs) \<rparr>, Ok ()))"

definition plain_connecting :: "plain_route \<Rightarrow> 's \<Rightarrow> 's plain_tcp_proxy" where
  "plain_connecting route s =
     \<lparr> pt_pending = wq_new, pt_pending_polls = [], pt_guest_write_finished = False, pt_close_requested = False,
       pt_read_pending = False,
       pt_state = PlainConnecting (Some route) \<lparr> rs_source = s, rs_io = io_registered_with_read_probe ReadWrite \<rparr> False \<rparr>"

definition plain_failed :: "bytes \<Rightarrow> 's plain_tcp_proxy" where
  "plain_failed message =
     \<lparr> pt_pending = wq_new, pt_pending_polls = [PollEvent (ProxyError (PlainMessage message))], pt_guest_write_finished = False,
       pt_close_requested = False, pt_read_pending = False, pt_state = PlainFailed [] \<rparr>"

section \<open>Bytes of the guest\<close>

text \<open>A refused buffer returns to the pool.\<close>

definition process_plain_bytes :: "tcp_egress_policy \<Rightarrow> bytes \<Rightarrow> (unit, plain_error) result" where
  "process_plain_bytes p bytes =
     (case ed_application (tp_decision p) of
        PolicyRaw \<Rightarrow>
          (if tp_reject_secret_placeholders p then
             (case reject_unresolved_secret_placeholders bytes of Err e \<Rightarrow> Err (PlainPolicy e) | Ok _ \<Rightarrow> Ok ())
           else Ok ())
      | PolicyBlock reason \<Rightarrow> Err (PlainBlocked reason (classify_plain_tcp bytes))
      | PolicyHttp1 _ \<Rightarrow> Err (PlainHttp1 (classify_plain_tcp bytes)))"

definition process_guest_bytes ::
    "plain_route \<Rightarrow> bytes \<Rightarrow> tcp_dns_tracker option \<Rightarrow> (tcp_dns_tracker option \<times> (unit, plain_error) result) option" where
  "process_guest_bytes route bytes dns_tracker =
     (case route of
        PolicyRoute p \<Rightarrow> Some (dns_tracker, process_plain_bytes p bytes)
      | DnsRoute \<Rightarrow>
         (case dns_tracker of
            None \<Rightarrow> Some (None, Ok ())
          | Some tracker \<Rightarrow> record_queries tracker bytes \<bind> (\<lambda>tracker. Some (Some tracker, Ok ())))
      | BypassRoute \<Rightarrow> Some (dns_tracker, Ok ()))"

definition plain_write :: "byte_buf \<Rightarrow> pool \<Rightarrow> 's plain_tcp_proxy \<Rightarrow> (pool \<times> 's plain_tcp_proxy) option" where
  "plain_write b pool p =
     (case pt_state p of
        PlainOpen stream route dns_tracker finished \<Rightarrow>
          process_guest_bytes route (buf_data b) dns_tracker \<bind> (\<lambda>(dns_tracker, r).
            let p = p\<lparr> pt_state := PlainOpen stream route dns_tracker finished \<rparr> in
            case r of
              Ok _ \<Rightarrow> Some (pool, p\<lparr> pt_pending := wq_push (pt_pending p) b \<rparr>)
            | Err e \<Rightarrow> byte_buf_drop pool b \<bind> (\<lambda>pool.
                Some (pool, p\<lparr> pt_pending_polls := pt_pending_polls p @ [PollEvent (ProxyError e)] \<rparr>)))
      | _ \<Rightarrow> Some (pool, p\<lparr> pt_pending := wq_push (pt_pending p) b \<rparr>))"

definition plain_finish_guest_write :: "'s plain_tcp_proxy \<Rightarrow> 's plain_tcp_proxy" where
  "plain_finish_guest_write p = p\<lparr> pt_guest_write_finished := True \<rparr>"

definition plain_close :: "'s plain_tcp_proxy \<Rightarrow> 's plain_tcp_proxy" where
  "plain_close p = p\<lparr> pt_close_requested := True \<rparr>"

section \<open>What there is to do\<close>

definition plain_upstream_write_pending :: "'s plain_tcp_proxy \<Rightarrow> bool \<Rightarrow> bool" where
  "plain_upstream_write_pending p finished \<longleftrightarrow> \<not> wq_is_empty (pt_pending p) \<or> pt_guest_write_finished p \<and> \<not> finished"

definition plain_has_local_work :: "bool \<Rightarrow> 's plain_tcp_proxy \<Rightarrow> bool" where
  "plain_has_local_work guest_can_send p =
     (if pt_close_requested p then True
      else case pt_pending_polls p of
        PollBytes _ # _ \<Rightarrow> guest_can_send
      | PollEvent _ # _ \<Rightarrow> True
      | PollPending # _ \<Rightarrow> False
      | [] \<Rightarrow>
         (case pt_state p of
            PlainConnecting _ _ _ \<Rightarrow> False
          | PlainOpen stream _ _ finished \<Rightarrow>
              plain_upstream_write_pending p finished \<and> (\<not> io_watches_write (rs_io stream) \<or> io_can_write (rs_io stream))
          | PlainFailed _ \<Rightarrow> True))"

definition plain_has_reactor_write_work :: "'s plain_tcp_proxy \<Rightarrow> bool" where
  "plain_has_reactor_write_work p =
     (case pt_state p of
        PlainConnecting _ _ _ \<Rightarrow> True
      | PlainOpen _ _ _ finished \<Rightarrow> plain_upstream_write_pending p finished
      | PlainFailed _ \<Rightarrow> False)"

definition plain_io :: "'s plain_tcp_proxy \<Rightarrow> io_slot" where
  "plain_io p = (case pt_state p of
     PlainConnecting _ stream _ \<Rightarrow> rs_io stream | PlainOpen stream _ _ _ \<Rightarrow> rs_io stream | PlainFailed _ \<Rightarrow> io_new Disabled)"

definition plain_mark_reactor_ready :: "bool \<Rightarrow> bool \<Rightarrow> 's plain_tcp_proxy \<Rightarrow> 's plain_tcp_proxy" where
  "plain_mark_reactor_ready readable writable p =
     (let marked = (\<lambda>stream. stream\<lparr> rs_io := io_mark_reactor_ready readable writable (rs_io stream) \<rparr>) in
      case pt_state p of
        PlainConnecting route stream connect_ready \<Rightarrow>
          p\<lparr> pt_state := PlainConnecting route (marked stream) (connect_ready \<or> readable \<or> writable) \<rparr>
      | PlainOpen stream route dns_tracker finished \<Rightarrow> p\<lparr> pt_state := PlainOpen (marked stream) route dns_tracker finished \<rparr>
      | PlainFailed _ \<Rightarrow> p)"

section \<open>Driving\<close>

definition finish_upstream_write_if_needed ::
    "'k host_ops \<Rightarrow> 'k \<Rightarrow> 's plain_tcp_proxy \<Rightarrow> 'k \<times> 's plain_tcp_proxy \<times> tcp_proxy_event option" where
  "finish_upstream_write_if_needed ho k p =
     (if \<not> pt_guest_write_finished p \<or> \<not> wq_is_empty (pt_pending p) then (k, p, None)
      else case pt_state p of
        PlainOpen stream route dns_tracker False \<Rightarrow>
          (let p = p\<lparr> pt_state := PlainOpen stream route dns_tracker True \<rparr> in
           case ho_shutdown_write ho k of
             (k, ShutdownFailed e) \<Rightarrow> (k, p, Some (ProxyError (PlainIo e)))
           | (k, _) \<Rightarrow> (k, p, None))
      | _ \<Rightarrow> (k, p, None))"

definition update_interest ::
    "'k host_ops \<Rightarrow> tcp_proxy_permit \<Rightarrow> 'k \<Rightarrow> 's plain_tcp_proxy \<Rightarrow> 'k \<times> 's plain_tcp_proxy \<times> (unit, tcp_proxy_event) result" where
  "update_interest ho permit k p =
     (case pt_state p of
        PlainOpen stream route dns_tracker finished \<Rightarrow>
          (let interest = (case (permit_contains permit READ_UPSTREAM, \<not> wq_is_empty (pt_pending p)) of
                 (True, True) \<Rightarrow> ReadWrite | (False, True) \<Rightarrow> Writable | (True, False) \<Rightarrow> Readable | (False, False) \<Rightarrow> Disabled)
           in case stream_reregister ho interest k stream of
                (k, stream, r) \<Rightarrow> (k, p\<lparr> pt_state := PlainOpen stream route dns_tracker finished \<rparr>,
                  case r of Err e \<Rightarrow> Err (ProxyError (PlainIo e)) | Ok _ \<Rightarrow> Ok ()))
      | _ \<Rightarrow> (k, p, Ok ()))"

definition try_read ::
    "(nat \<Rightarrow> 's \<Rightarrow> 's \<times> (bytes, io_error) result) \<Rightarrow> drive_turn \<Rightarrow> pool \<Rightarrow> 's plain_tcp_proxy \<Rightarrow>
     (drive_turn \<times> pool \<times> 's plain_tcp_proxy \<times> tcp_proxy_poll option) option" where
  "try_read rd_fn t pool p =
     (case pt_state p of
        PlainOpen stream route dns_tracker finished \<Rightarrow>
          read_stream_ready rd_fn t (rs_io stream) pool (rs_source stream) \<bind> (\<lambda>(t, io, pool, s, r).
            let opened = (\<lambda>tracker. PlainOpen \<lparr> rs_source = s, rs_io = io \<rparr> route tracker finished);
                p = p\<lparr> pt_state := opened dns_tracker \<rparr>
            in case r of
              Ok StreamClosed \<Rightarrow> Some (t, pool, p, Some (PollEvent ProxyClosed))
            | Ok (StreamBytes b) \<Rightarrow>
               (let p = p\<lparr> pt_read_pending := True \<rparr> in
                case dns_tracker of
                  None \<Rightarrow> Some (t, pool, p, Some (PollBytes b))
                | Some tracker \<Rightarrow> response tracker (buf_data b) \<bind> (\<lambda>(tracker, resolution).
                    let p = p\<lparr> pt_state := opened (Some tracker) \<rparr> in
                    case resolution of
                      None \<Rightarrow> Some (t, pool, p, Some (PollBytes b))
                    | Some resolution \<Rightarrow>
                        Some (t, pool, p\<lparr> pt_pending_polls := pt_pending_polls p @ [PollBytes b] \<rparr>,
                          Some (PollEvent (ProxyDnsResolved resolution)))))
            | Ok _ \<Rightarrow> Some (t, pool, p\<lparr> pt_read_pending := False \<rparr>, None)
            | Err e \<Rightarrow> Some (t, pool, p, Some (PollEvent (ProxyError (PlainIo e)))))
      | _ \<Rightarrow> Some (t, pool, p, None))"

text \<open>
  \<open>drive_open\<close>, its writing half first: the queue; then the interest, the shutdown and the close.  \<open>Err\<close>
  is the event it returns with.
\<close>

definition drive_open_queue ::
    "(bytes \<Rightarrow> 's \<Rightarrow> 's \<times> (nat, io_error) result) \<Rightarrow> tcp_proxy_permit \<Rightarrow> drive_turn \<Rightarrow> 's plain_tcp_proxy \<Rightarrow>
     drive_turn \<times> 's plain_tcp_proxy \<times> (unit, tcp_proxy_event) result" where
  "drive_open_queue wr_fn permit t p =
     (if permit_contains permit WRITE_UPSTREAM then
        (case pt_state p of
           PlainOpen stream route dns_tracker finished \<Rightarrow>
             (case write_stream_queue_ready wr_fn t (rs_io stream) (pt_pending p) (rs_source stream) of
                (t, io, queue, s, r) \<Rightarrow>
                  (t, p\<lparr> pt_pending := queue, pt_state := PlainOpen \<lparr> rs_source = s, rs_io = io \<rparr> route dns_tracker finished \<rparr>,
                   case r of Err e \<Rightarrow> Err (ProxyError (PlainIo e)) | Ok _ \<Rightarrow> Ok ()))
         | _ \<Rightarrow> (t, p, Ok ()))
      else (if \<not> wq_is_empty (pt_pending p) then block_on REACTOR_WRITE t else t, p, Ok ()))"

definition drive_open_write ::
    "(bytes \<Rightarrow> 's \<Rightarrow> 's \<times> (nat, io_error) result) \<Rightarrow> 'k host_ops \<Rightarrow> tcp_proxy_permit \<Rightarrow> drive_turn \<Rightarrow> 'k \<Rightarrow> 's plain_tcp_proxy \<Rightarrow>
     drive_turn \<times> 'k \<times> 's plain_tcp_proxy \<times> (unit, tcp_proxy_event) result" where
  "drive_open_write wr_fn ho permit t k p =
     (case drive_open_queue wr_fn permit t p of
        (t, p, Err event) \<Rightarrow> (t, k, p, Err event)
      | (t, p, Ok _) \<Rightarrow>
         (case (if permit_contains permit WRITE_UPSTREAM then update_interest ho permit k p else (k, p, Ok ())) of
            (k, p, Err event) \<Rightarrow> (t, k, p, Err event)
          | (k, p, Ok _) \<Rightarrow>
             (case finish_upstream_write_if_needed ho k p of
                (k, p, Some event) \<Rightarrow> (t, k, p, Err event)
              | (k, p, None) \<Rightarrow>
                  if pt_close_requested p \<and> wq_is_empty (pt_pending p) then (t, k, p, Err ProxyClosed) else (t, k, p, Ok ()))))"

definition drive_open ::
    "(nat \<Rightarrow> 's \<Rightarrow> 's \<times> (bytes, io_error) result) \<Rightarrow> (bytes \<Rightarrow> 's \<Rightarrow> 's \<times> (nat, io_error) result) \<Rightarrow> 'k host_ops \<Rightarrow>
     tcp_proxy_permit \<Rightarrow> drive_turn \<Rightarrow> 'k \<Rightarrow> pool \<Rightarrow> 's plain_tcp_proxy \<Rightarrow>
     (drive_turn \<times> 'k \<times> pool \<times> 's plain_tcp_proxy \<times> tcp_proxy_poll) option" where
  "drive_open rd_fn wr_fn ho permit t k pool p =
     (case drive_open_write wr_fn ho permit t k p of
        (t, k, p, Err event) \<Rightarrow> Some (t, k, pool, p, PollEvent event)
      | (t, k, p, Ok _) \<Rightarrow>
          if permit_contains permit READ_UPSTREAM then
            try_read rd_fn t pool p \<bind> (\<lambda>(t, pool, p, r).
              Some (t, k, pool, p, case r of None \<Rightarrow> PollPending | Some poll \<Rightarrow> poll))
          else Some (if pt_read_pending p then block_on GUEST_SEND_CAPACITY t else t, k, pool, p, PollPending))"

text \<open>The loop of \<open>open_plain\<close> over the bytes queued while connecting; the rest is dropped when a buffer is missing.\<close>

fun drop_writes :: "pool \<Rightarrow> pending_write list \<Rightarrow> pool option" where
  "drop_writes pool [] = Some pool"
| "drop_writes pool (w # ws) = byte_buf_drop pool (pw_bytes w) \<bind> (\<lambda>pool. drop_writes pool ws)"

lemma wq_pop_front_shorter: "wq_pop_front q = (q', Some w) \<Longrightarrow> length (wq_writes q') < length (wq_writes q)"
  by (auto simp: wq_pop_front_def wq_next_def wq_writes_def split: option.splits list.splits)

function open_plain_writes ::
    "write_queue \<Rightarrow> pool \<Rightarrow> 's plain_tcp_proxy \<Rightarrow> (pool \<times> 's plain_tcp_proxy \<times> (unit, tcp_proxy_event) result) option" where
  "open_plain_writes pending pool p =
     (case wq_pop_front pending of
        (pending', None) \<Rightarrow> Some (pool, p, Ok ())
      | (pending', Some w) \<Rightarrow>
          pw_into_remaining w pool \<bind> (\<lambda>(pool, r).
            case r of
              Err e \<Rightarrow> drop_writes pool (wq_writes pending') \<bind> (\<lambda>pool. Some (pool, p, Err (ProxyError (PlainPool e))))
            | Ok b \<Rightarrow> plain_write b pool p \<bind> (\<lambda>(pool, p). open_plain_writes pending' pool p)))"
  by pat_completeness auto

termination
  by (relation "measure (\<lambda>(q, _, _). length (wq_writes q))") (auto dest: wq_pop_front_shorter [OF sym])

declare open_plain_writes.simps [simp del]

definition open_plain ::
    "'k host_ops \<Rightarrow> nat \<Rightarrow> 'k \<Rightarrow> pool \<Rightarrow> 's plain_tcp_proxy \<Rightarrow>
     ('k \<times> pool \<times> 's plain_tcp_proxy \<times> (unit, tcp_proxy_event) result) option" where
  "open_plain ho tracker_capacity k pool p =
     (case pt_state p of
        PlainConnecting route stream _ \<Rightarrow>
          (let p = p\<lparr> pt_state := PlainFailed [] \<rparr> in
           case route of
             None \<Rightarrow> Some (k, pool, p, Err (ProxyError PlainRouteMissing))
           | Some route \<Rightarrow>
              (case stream_reregister ho Readable k stream of
                 (k, stream, Err e) \<Rightarrow> Some (k, pool, p, Err (ProxyError (PlainIo e)))
               | (k, stream, Ok _) \<Rightarrow>
                  (let tracker = (if route = DnsRoute then Some (tcp_dns_default tracker_capacity) else None)
                   in open_plain_writes (pt_pending p) pool
                        (p\<lparr> pt_state := PlainOpen stream route tracker False, pt_pending := wq_new \<rparr>) \<bind> (\<lambda>(pool, p, r).
                      Some (k, pool, p, r)))))
      | _ \<Rightarrow> Some (k, pool, p\<lparr> pt_state := PlainFailed [] \<rparr>, Ok ()))"

text \<open>\<open>drive\<close>: what is queued for the guest first, then the state.  It calls itself once, when the connection opens.\<close>

fun plain_is_connecting :: "'s plain_state \<Rightarrow> bool" where
  "plain_is_connecting (PlainConnecting _ _ _) = True"
| "plain_is_connecting _ = False"

lemma plain_write_opens: "plain_write b pool p = Some (pool', p') \<Longrightarrow> plain_is_connecting (pt_state p') = plain_is_connecting (pt_state p)"
  by (auto simp: plain_write_def Let_def split: plain_state.splits bind_splits result.splits)

lemma open_plain_writes_opens:
  "open_plain_writes q pool p = Some (pool', p', r) \<Longrightarrow> plain_is_connecting (pt_state p') = plain_is_connecting (pt_state p)"
proof (induction q pool p rule: open_plain_writes.induct)
  case (1 q pool p)
  then show ?case
    by (simp add: open_plain_writes.simps [of q] split: prod.splits option.splits bind_splits result.splits)
      (auto dest: plain_write_opens)
qed

lemma open_plain_opens: "open_plain ho cap k pool p = Some (k', pool', p', r) \<Longrightarrow> \<not> plain_is_connecting (pt_state p')"
  by (auto simp: open_plain_def Let_def dest: open_plain_writes_opens
      split: plain_state.splits option.splits prod.splits result.splits bind_splits)

function plain_drive ::
    "(nat \<Rightarrow> 's \<Rightarrow> 's \<times> (bytes, io_error) result) \<Rightarrow> (bytes \<Rightarrow> 's \<Rightarrow> 's \<times> (nat, io_error) result) \<Rightarrow> 'k host_ops \<Rightarrow> nat \<Rightarrow>
     tcp_proxy_permit \<Rightarrow> drive_turn \<Rightarrow> 'k \<Rightarrow> pool \<Rightarrow> 's plain_tcp_proxy \<Rightarrow>
     (drive_turn \<times> 'k \<times> pool \<times> 's plain_tcp_proxy \<times> tcp_proxy_poll) option" where
  "plain_drive rd_fn wr_fn ho cap permit t k pool p =
     (case pt_pending_polls p of
        PollBytes b # polls \<Rightarrow>
          (if permit_contains permit READ_UPSTREAM then Some (t, k, pool, p\<lparr> pt_pending_polls := polls \<rparr>, PollBytes b)
           else case pt_state p of
             PlainOpen _ _ _ _ \<Rightarrow>
               (if permit_contains permit WRITE_UPSTREAM then
                  drive_open rd_fn wr_fn ho permit t k pool p \<bind> (\<lambda>(t, k, pool, p, poll).
                    Some (if poll = PollPending then block_on GUEST_SEND_CAPACITY t else t, k, pool, p, poll))
                else Some (block_on GUEST_SEND_CAPACITY t, k, pool, p, PollPending))
           | _ \<Rightarrow> Some (block_on GUEST_SEND_CAPACITY t, k, pool, p, PollPending))
      | poll # polls \<Rightarrow> Some (t, k, pool, p\<lparr> pt_pending_polls := polls \<rparr>, poll)
      | [] \<Rightarrow>
         (case pt_state p of
            PlainConnecting route stream connect_ready \<Rightarrow>
              (if pt_close_requested p then Some (t, k, pool, p, PollEvent ProxyClosed)
               else if \<not> connect_ready then Some (block_on REACTOR_READ_WRITE t, k, pool, p, PollPending)
               else case ho_take_error ho k of
                 (k, Err e) \<Rightarrow> Some (t, k, pool, p, PollEvent (ProxyError (PlainIo e)))
               | (k, Ok _) \<Rightarrow>
                   open_plain ho cap k pool p \<bind> (\<lambda>(k, pool, p, r).
                     case r of
                       Err event \<Rightarrow> Some (t, k, pool, p, PollEvent event)
                     | Ok _ \<Rightarrow> plain_drive rd_fn wr_fn ho cap permit t k pool p))
          | PlainOpen _ _ _ _ \<Rightarrow> drive_open rd_fn wr_fn ho permit t k pool p
          | PlainFailed message \<Rightarrow>
              Some (t, k, pool, p\<lparr> pt_state := PlainFailed [] \<rparr>, PollEvent (ProxyError (PlainMessage message)))))"
  by pat_completeness auto

termination
  by (relation "measure (\<lambda>(_, _, _, _, _, _, _, _, p). if plain_is_connecting (pt_state p) then 1 else 0)")
    (auto dest: open_plain_opens)

declare plain_drive.simps [simp del]

end
