(* ===== verification/PlainRelay.thy ===== *)
theory PlainRelay
  imports PlainTcp
begin

text \<open>
  What a plain proxy sends and delivers over any sequence of calls: the guest's bytes reach the upstream
  in order and once, less the buffers the route refuses; the upstream's bytes reach the guest in order
  and once; and the upstream is told of the end only after its last byte.
\<close>

section \<open>Calls\<close>

datatype plain_call =
  PlainWrite byte_buf
| PlainFinish
| PlainClose
| PlainReady bool bool
| PlainDrive tcp_proxy_permit drive_turn

definition poll_data :: "tcp_proxy_poll \<Rightarrow> bytes" where
  "poll_data poll = (case poll of PollBytes b \<Rightarrow> buf_data b | _ \<Rightarrow> [])"

fun plain_step ::
    "'k host_ops \<Rightarrow> nat \<Rightarrow> plain_call \<Rightarrow> 'k \<times> pool \<times> socket plain_tcp_proxy \<times> bytes \<Rightarrow> ('k \<times> pool \<times> socket plain_tcp_proxy \<times> bytes) option"
  where
  "plain_step ho cap (PlainWrite b) (k, pool, p, delivered) = plain_write b pool p \<bind> (\<lambda>(pool, p). Some (k, pool, p, delivered))"
| "plain_step ho cap PlainFinish (k, pool, p, delivered) = Some (k, pool, plain_finish_guest_write p, delivered)"
| "plain_step ho cap PlainClose (k, pool, p, delivered) = Some (k, pool, plain_close p, delivered)"
| "plain_step ho cap (PlainReady r w) (k, pool, p, delivered) = Some (k, pool, plain_mark_reactor_ready r w p, delivered)"
| "plain_step ho cap (PlainDrive permit t) (k, pool, p, delivered) =
     plain_drive sock_read sock_write ho cap permit t k pool p \<bind> (\<lambda>(t, k, pool, p, poll).
       Some (k, pool, p, delivered @ poll_data poll))"

fun plain_run ::
    "'k host_ops \<Rightarrow> nat \<Rightarrow> plain_call list \<Rightarrow> 'k \<times> pool \<times> socket plain_tcp_proxy \<times> bytes \<Rightarrow>
     ('k \<times> pool \<times> socket plain_tcp_proxy \<times> bytes) option" where
  "plain_run ho cap [] st = Some st"
| "plain_run ho cap (c # cs) st = plain_step ho cap c st \<bind> plain_run ho cap cs"

text \<open>What the guest wrote, what of it the route lets through, and a guest that writes nothing after its end.\<close>

fun written :: "plain_call list \<Rightarrow> bytes list" where
  "written [] = []"
| "written (PlainWrite b # cs) = buf_data b # written cs"
| "written (_ # cs) = written cs"

definition through :: "plain_route \<Rightarrow> bytes \<Rightarrow> bytes" where
  "through route xs = (case route of PolicyRoute p \<Rightarrow> if process_plain_bytes p xs = Ok () then xs else [] | _ \<Rightarrow> xs)"

fun writes_first :: "plain_call list \<Rightarrow> bool" where
  "writes_first [] = True"
| "writes_first (PlainFinish # cs) = (written cs = [] \<and> writes_first cs)"
| "writes_first (_ # cs) = writes_first cs"

section \<open>The invariant\<close>

definition open_inv :: "plain_route \<Rightarrow> bytes \<Rightarrow> bytes \<Rightarrow> socket plain_tcp_proxy \<Rightarrow> bool" where
  "open_inv route up down p \<longleftrightarrow>
     (case pt_state p of
        PlainOpen stream r tracker finished \<Rightarrow> r = route \<and> wq_invar (pt_pending p) \<and>
        so_out (rs_source stream) @ wq_stream (pt_pending p) = up \<and>
        concat (map poll_data (pt_pending_polls p)) @ incoming (so_in (rs_source stream)) = down \<and>
        (finished \<longrightarrow> pt_guest_write_finished p \<and> wq_stream (pt_pending p) = [])
      | _ \<Rightarrow> False)"

definition connecting_inv :: "plain_route \<Rightarrow> bytes \<Rightarrow> bytes \<Rightarrow> socket plain_tcp_proxy \<Rightarrow> bool" where
  "connecting_inv route up down p \<longleftrightarrow>
     (case pt_state p of
        PlainConnecting r stream ready \<Rightarrow> r = Some route \<and> wq_invar (pt_pending p) \<and>
        pt_pending_polls p = [] \<and> (\<forall>w\<in>set (wq_writes (pt_pending p)). pw_offset w = 0) \<and>
        so_out (rs_source stream) @ concat (map (\<lambda>w. through route (buf_data (pw_bytes w))) (wq_writes (pt_pending p))) = up \<and>
        incoming (so_in (rs_source stream)) = down
      | _ \<Rightarrow> False)"

lemma poll_data_simps [simp]: "poll_data (PollBytes b) = buf_data b" "poll_data (PollEvent e) = []" "poll_data PollPending = []"
  by (simp_all add: poll_data_def)

lemma process_guest_bytes_through:
  assumes "process_guest_bytes route xs tracker = Some (tracker', r)"
  shows "r = Ok () \<Longrightarrow> through route xs = xs" "r = Err e \<Longrightarrow> through route xs = []"
  using assms by (auto simp: process_guest_bytes_def through_def split: plain_route.splits option.splits bind_splits)

definition plain_shut :: "'s plain_tcp_proxy \<Rightarrow> bool" where
  "plain_shut p \<longleftrightarrow> (case pt_state p of PlainOpen _ _ _ finished \<Rightarrow> finished | _ \<Rightarrow> False)"

lemma plain_write_open:
  assumes "plain_write b pool p = Some (pool', p')" "open_inv route up down p" "\<not> plain_shut p"
  shows "open_inv route (up @ through route (buf_data b)) down p' \<and> \<not> plain_shut p' \<and>
    pt_guest_write_finished p' = pt_guest_write_finished p"
  using assms process_guest_bytes_through [of route "buf_data b"]
  by (auto simp: open_inv_def plain_shut_def plain_write_def Let_def push_stream split: plain_state.splits bind_splits result.splits)

lemma wq_is_empty_stream: "wq_invar q \<Longrightarrow> wq_is_empty q \<longleftrightarrow> wq_stream q = []"
  by (cases "wq_first q") (auto simp: wq_is_empty_def wq_invar_def wq_defs pw_is_empty_def)

text \<open>Steps that move bytes between the queue and the socket only.\<close>

definition keeps_open :: "socket plain_tcp_proxy \<Rightarrow> socket plain_tcp_proxy \<Rightarrow> bool" where
  "keeps_open p p' \<longleftrightarrow> (\<forall>route up down. open_inv route up down p \<longrightarrow> open_inv route up down p') \<and>
     pt_pending_polls p' = pt_pending_polls p \<and> pt_guest_write_finished p' = pt_guest_write_finished p"

lemma keeps_open_trans: "keeps_open p p1 \<Longrightarrow> keeps_open p1 p2 \<Longrightarrow> keeps_open p p2"
  by (auto simp: keeps_open_def)

lemma update_interest_keeps: "update_interest ho permit k p = (k', p', r) \<Longrightarrow> keeps_open p p'"
  by (auto simp: update_interest_def keeps_open_def open_inv_def stream_reregister_def Let_def
      split: plain_state.splits prod.splits result.splits if_splits)

lemma finish_upstream_keeps: "finish_upstream_write_if_needed ho k p = (k', p', r) \<Longrightarrow> keeps_open p p'"
  by (auto simp: finish_upstream_write_if_needed_def keeps_open_def open_inv_def wq_is_empty_stream Let_def
      split: plain_state.splits prod.splits shutdown_result.splits if_splits bool.splits)

lemma write_ready_open:
  assumes "write_stream_queue_ready sock_write t (rs_io stream) (pt_pending p) (rs_source stream) = (t', io, q, s, r)"
    and "pt_state p = PlainOpen stream route tracker finished" "open_inv route up down p"
  shows "open_inv route up down (p\<lparr> pt_pending := q, pt_state := PlainOpen \<lparr> rs_source = s, rs_io = io \<rparr> route tracker finished \<rparr>)"
proof -
  have inv: "wq_invar (pt_pending p)" "finished \<longrightarrow> pt_guest_write_finished p \<and> wq_stream (pt_pending p) = []"
    using assms(2,3) by (auto simp: open_inv_def)
  have "q = pt_pending p" if finished
    using that inv assms(1) by (simp add: write_stream_queue_ready_def wq_is_empty_stream)
  then show ?thesis
    using write_queue_exact [OF assms(1) inv(1)] assms(2,3) by (auto simp: open_inv_def sends_exactly_def)
qed

lemma drive_open_queue_keeps:
  assumes "drive_open_queue sock_write permit t p = (t', p', r)"
  shows "keeps_open p p'"
proof (cases "pt_state p")
  case (PlainOpen stream route tracker finished)
  obtain t1 io q s w where sent: "write_stream_queue_ready sock_write t (rs_io stream) (pt_pending p) (rs_source stream) = (t1, io, q, s, w)"
    by (metis prod_cases5)
  have "open_inv r up down p \<Longrightarrow> r = route" for r up down
    using PlainOpen by (simp add: open_inv_def)
  then show ?thesis
    using assms write_ready_open [OF sent PlainOpen] PlainOpen sent
    by (auto simp: drive_open_queue_def keeps_open_def open_inv_def split: if_splits)
qed (use assms in \<open>auto simp: drive_open_queue_def keeps_open_def split: if_splits\<close>)

lemma drive_open_write_open:
  assumes "drive_open_write sock_write ho permit t k p = (t', k', p', r)"
  shows "keeps_open p p'"
proof -
  obtain t1 p1 w where q: "drive_open_queue sock_write permit t p = (t1, p1, w)" by (metis prod_cases3)
  obtain k2 p2 u where i: "(if permit_contains permit WRITE_UPSTREAM then update_interest ho permit k p1 else (k, p1, Ok ())) = (k2, p2, u)"
    by (metis prod_cases3)
  obtain k3 p3 f where f: "finish_upstream_write_if_needed ho k2 p2 = (k3, p3, f)" by (metis prod_cases3)
  have "keeps_open p p1" by (rule drive_open_queue_keeps [OF q])
  moreover have "keeps_open p1 p2"
    using i update_interest_keeps [of ho permit k p1] by (auto simp: keeps_open_def split: if_splits)
  moreover have "keeps_open p2 p3" by (rule finish_upstream_keeps [OF f])
  moreover have "p' = p1 \<or> p' = p2 \<or> p' = p3"
    using assms unfolding drive_open_write_def q by (auto simp: i f split: if_splits result.splits option.splits)
  ultimately show ?thesis by (auto intro: keeps_open_trans)
qed

lemma try_read_open:
  assumes "try_read sock_read t pool p = Some (t', pool', p', r)" "open_inv route up down p" "pt_pending_polls p = []"
  shows "(\<exists>down'. down = (case r of None \<Rightarrow> [] | Some poll \<Rightarrow> poll_data poll) @ down' \<and> open_inv route up down' p') \<and>
    pt_guest_write_finished p' = pt_guest_write_finished p"
proof -
  obtain stream tracker finished where state: "pt_state p = PlainOpen stream route tracker finished"
    using assms(2) by (auto simp: open_inv_def split: plain_state.splits)
  obtain t1 io pool1 s x where rd: "read_stream_ready sock_read t (rs_io stream) pool (rs_source stream) = Some (t1, io, pool1, s, x)"
    using assms(1) state by (auto simp: try_read_def split: bind_split_asm)
  note exact = read_stream_exact [OF rd]
  show ?thesis
    using assms(1,2,3) exact unfolding try_read_def state
    by (auto simp: rd open_inv_def Let_def state
        split: result.split_asm drive_stream_read.split_asm option.split_asm bind_split_asm)
qed

lemma drive_open_open:
  assumes "drive_open sock_read sock_write ho permit t k pool p = Some (t', k', pool', p', poll)" "open_inv route up down p"
    and "pt_pending_polls p = [] \<or> \<not> permit_contains permit READ_UPSTREAM"
  shows "(\<exists>down'. down = poll_data poll @ down' \<and> open_inv route up down' p') \<and> pt_guest_write_finished p' = pt_guest_write_finished p"
proof -
  obtain t1 k1 p1 r where w: "drive_open_write sock_write ho permit t k p = (t1, k1, p1, r)" by (metis prod_cases4)
  have p1: "open_inv route up down p1" "pt_pending_polls p1 = pt_pending_polls p" "pt_guest_write_finished p1 = pt_guest_write_finished p"
    using drive_open_write_open [OF w] assms(2) by (auto simp: keeps_open_def)
  show ?thesis
    using assms(1,3) p1 try_read_open [of t1 pool p1 _ _ _ _ route up down]
    by (auto simp: drive_open_def w split: result.split_asm if_split_asm bind_split_asm option.splits)
qed

section \<open>Opening\<close>

lemma wq_pop_front_writes:
  "wq_invar q \<Longrightarrow> wq_pop_front q = (q', r) \<Longrightarrow>
     wq_invar q' \<and> wq_writes q = (case r of None \<Rightarrow> [] | Some w \<Rightarrow> w # wq_writes q')"
  by (auto simp: wq_pop_front_def wq_next_def wq_invar_def wq_defs split: option.splits list.splits)

lemma open_plain_writes_open:
  assumes "open_plain_writes q pool p = Some (pool', p', r)" "open_inv route up down p" "\<not> plain_shut p" "wq_invar q"
    and "\<forall>w\<in>set (wq_writes q). pw_offset w = 0"
  shows "r = Ok () \<and> open_inv route (up @ concat (map (\<lambda>w. through route (buf_data (pw_bytes w))) (wq_writes q))) down p' \<and>
    pt_guest_write_finished p' = pt_guest_write_finished p"
  using assms
proof (induction q pool p arbitrary: up rule: open_plain_writes.induct)
  case (1 q pool p)
  obtain q1 w where pop: "wq_pop_front q = (q1, w)" by fastforce
  note front = wq_pop_front_writes [OF 1(5) pop]
  show ?case
  proof (cases w)
    case None
    then show ?thesis using 1(2,3) front pop by (simp add: open_plain_writes.simps [of q])
  next
    case (Some w1)
    then have offset: "pw_offset w1 = 0" using front 1(6) by simp
    then obtain pool1 p1 where p1: "plain_write (pw_bytes w1) pool p = Some (pool1, p1)"
        "open_plain_writes q1 pool1 p1 = Some (pool', p', r)"
      using 1(2) Some pop by (auto simp: open_plain_writes.simps [of q] pw_into_remaining_def split: bind_split_asm)
    note wrote = plain_write_open [OF p1(1) 1(3,4)]
    show ?thesis
      using 1(1) [OF pop [symmetric] Some, of "(pool, Ok (pw_bytes w1))" pool "Ok (pw_bytes w1)" "pw_bytes w1" "(pool1, p1)" pool1 p1]
        p1 wrote front Some 1(6) offset by (simp add: pw_into_remaining_def) (metis append_assoc)
  qed
qed

lemma open_plain_connecting:
  assumes "open_plain ho cap k pool p = Some (k', pool', p', r)" "connecting_inv route up down p"
  shows "(r = Ok () \<and> open_inv route up down p' \<or> (\<exists>e m. r = Err (ProxyError e) \<and> pt_state p' = PlainFailed m \<and> pt_pending_polls p' = [])) \<and>
    pt_guest_write_finished p' = pt_guest_write_finished p"
proof -
  obtain stream ready where c: "pt_state p = PlainConnecting (Some route) stream ready" "wq_invar (pt_pending p)" "pt_pending_polls p = []"
      "\<forall>w\<in>set (wq_writes (pt_pending p)). pw_offset w = 0" "incoming (so_in (rs_source stream)) = down"
      "so_out (rs_source stream) @ concat (map (\<lambda>w. through route (buf_data (pw_bytes w))) (wq_writes (pt_pending p))) = up"
    using assms(2) by (auto simp: connecting_inv_def split: plain_state.splits)
  obtain k1 stream1 x where reg: "stream_reregister ho Readable k stream = (k1, stream1, x)" by (metis prod_cases3)
  have source: "rs_source stream1 = rs_source stream"
    using reg by (auto simp: stream_reregister_def split: if_splits prod.splits result.splits)
  show ?thesis
  proof (cases x)
    case (Err e)
    then show ?thesis using assms(1) c(1,3) reg by (auto simp: open_plain_def Let_def)
  next
    case (Ok u)
    let ?tracker = "if route = DnsRoute then Some (tcp_dns_default cap) else None"
    let ?p = "p\<lparr> pt_state := PlainOpen stream1 route ?tracker False, pt_pending := wq_new \<rparr>"
    have start: "open_inv route (so_out (rs_source stream)) down ?p" "\<not> plain_shut ?p"
      using c(3,5) by (simp_all add: open_inv_def plain_shut_def source wq_new_def wq_invar_def wq_defs)
    obtain pool1 where "open_plain_writes (pt_pending p) pool ?p = Some (pool1, p', r)"
      using assms(1) c(1) reg Ok by (auto simp: open_plain_def Let_def split: bind_split_asm)
    from open_plain_writes_open [OF this start c(2,4)] show ?thesis using c(6) by simp
  qed
qed

section \<open>A turn\<close>

definition plain_inv :: "plain_route \<Rightarrow> bytes \<Rightarrow> bytes \<Rightarrow> socket plain_tcp_proxy \<Rightarrow> bool" where
  "plain_inv route up down p \<longleftrightarrow> open_inv route up down p \<or> connecting_inv route up down p \<or>
     (\<exists>m. pt_state p = PlainFailed m \<and> concat (map poll_data (pt_pending_polls p)) = [])"

definition plain_is_open :: "'s plain_tcp_proxy \<Rightarrow> bool" where
  "plain_is_open p \<longleftrightarrow> (case pt_state p of PlainOpen _ _ _ _ \<Rightarrow> True | _ \<Rightarrow> False)"

lemma open_inv_is_open: "open_inv route up down p \<Longrightarrow> plain_is_open p"
  by (simp add: open_inv_def plain_is_open_def split: plain_state.splits)

definition plain_moves :: "plain_route \<Rightarrow> bytes \<Rightarrow> bytes \<Rightarrow> socket plain_tcp_proxy \<Rightarrow> socket plain_tcp_proxy \<Rightarrow> bytes \<Rightarrow> bool" where
  "plain_moves route up down p p' out \<longleftrightarrow>
     (\<exists>down'. down = out @ down' \<and> plain_inv route up down' p') \<and> (\<not> plain_is_open p' \<longrightarrow> out = [] \<and> \<not> plain_is_open p) \<and>
     pt_guest_write_finished p' = pt_guest_write_finished p"

lemma plain_drive_open:
  assumes "plain_drive sock_read sock_write ho cap permit t k pool p = Some (t', k', pool', p', poll)" "open_inv route up down p"
  shows "plain_moves route up down p p' (poll_data poll)"
proof -
  obtain stream tracker finished where state: "pt_state p = PlainOpen stream route tracker finished"
    using assms(2) by (auto simp: open_inv_def split: plain_state.splits)
  have popped: "plain_moves route up down p (p\<lparr> pt_pending_polls := polls \<rparr>) (poll_data poll1)"
    if "pt_pending_polls p = poll1 # polls" for poll1 polls
    using assms(2) that state by (auto simp: plain_moves_def plain_inv_def open_inv_def plain_is_open_def)
  have driven: "plain_moves route up down p p2 (poll_data poll2)"
    if "drive_open sock_read sock_write ho permit t k pool p = Some (t2, k2, pool2, p2, poll2)"
      "pt_pending_polls p = [] \<or> \<not> permit_contains permit READ_UPSTREAM" for t2 k2 pool2 p2 poll2
    using drive_open_open [OF that(1) assms(2) that(2)] by (auto simp: plain_moves_def plain_inv_def dest: open_inv_is_open)
  have same: "plain_moves route up down p p []"
    using assms(2) by (auto simp: plain_moves_def plain_inv_def dest: open_inv_is_open)
  show ?thesis
    using assms(1) popped driven same
    by (simp add: plain_drive.simps [of _ _ _ _ _ _ _ _ p] state
        split: list.split_asm tcp_proxy_poll.split_asm if_split_asm bind_split_asm)
      (auto split: prod.split_asm)
qed

lemma plain_drive_moves:
  assumes "plain_drive sock_read sock_write ho cap permit t k pool p = Some (t', k', pool', p', poll)" "plain_inv route up down p"
  shows "plain_moves route up down p p' (poll_data poll)"
proof (cases "pt_state p")
  case (PlainOpen stream r tracker finished)
  then show ?thesis using assms plain_drive_open [OF assms(1)] by (auto simp: plain_inv_def connecting_inv_def)
next
  case (PlainFailed m)
  then show ?thesis using assms
    by (auto simp: plain_drive.simps [of _ _ _ _ _ _ _ _ p] plain_moves_def plain_inv_def open_inv_def connecting_inv_def plain_is_open_def
        split: list.split_asm tcp_proxy_poll.split_asm if_split_asm)
next
  case (PlainConnecting r stream ready)
  then have c: "connecting_inv route up down p" using assms(2) by (auto simp: plain_inv_def open_inv_def)
  then have polls: "pt_pending_polls p = []" by (auto simp: connecting_inv_def split: plain_state.splits)
  have same: "plain_moves route up down p p []" using c PlainConnecting by (auto simp: plain_moves_def plain_inv_def plain_is_open_def)
  have opened: "plain_moves route up down p p' (poll_data poll)"
    if o: "open_plain ho cap k1 pool p = Some (k2, pool2, p2, u)"
      and r: "(case u of Err event \<Rightarrow> Some (t, k2, pool2, p2, PollEvent event)
         | Ok _ \<Rightarrow> plain_drive sock_read sock_write ho cap permit t k2 pool2 p2) = Some (t', k', pool', p', poll)" for k1 k2 pool2 p2 u
  proof (cases u)
    case (Ok v)
    then show ?thesis
      using open_plain_connecting [OF o c] r plain_drive_open [of ho cap permit t k2 pool2 p2] PlainConnecting
      by (auto simp: plain_moves_def plain_is_open_def)
  next
    case (Err event)
    then show ?thesis using open_plain_connecting [OF o c] r PlainConnecting by (auto simp: plain_moves_def plain_inv_def plain_is_open_def)
  qed
  show ?thesis
    using assms(1) same opened
    by (simp add: plain_drive.simps [of _ _ _ _ _ _ _ _ p] polls PlainConnecting
        split: if_split_asm prod.split_asm result.split_asm bind_split_asm) auto
qed

section \<open>Any sequence of calls\<close>

lemma plain_write_moves:
  assumes "plain_write b pool p = Some (pool', p')" "plain_inv route up down p" "\<not> pt_guest_write_finished p"
  shows "plain_inv route (up @ through route (buf_data b)) down p' \<and> pt_guest_write_finished p' = pt_guest_write_finished p \<and>
    plain_is_open p' = plain_is_open p"
proof -
  consider (opened) "open_inv route up down p" | (connecting) "connecting_inv route up down p"
    | (failed) m where "pt_state p = PlainFailed m" "concat (map poll_data (pt_pending_polls p)) = []"
    using assms(2) by (auto simp: plain_inv_def)
  then show ?thesis
  proof cases
    case opened
    then have "\<not> plain_shut p" using assms(3) by (auto simp: open_inv_def plain_shut_def split: plain_state.splits)
    then show ?thesis using plain_write_open [OF assms(1) opened] opened by (auto simp: plain_inv_def dest: open_inv_is_open)
  next
    case connecting
    have push: "wq_invar (wq_push q b)" "wq_writes (wq_push q b) = wq_writes q @ (if buf_data b = [] then [] else [\<lparr> pw_bytes = b, pw_offset = 0 \<rparr>])"
      if "wq_invar q" for q
      using push_stream(1) [OF that] that by (auto simp: wq_push_def wq_invar_def wq_defs Let_def split: option.splits)
    have "through route [] = []" by (simp add: through_def split: plain_route.splits)
    then show ?thesis using connecting assms(1) push [of "pt_pending p"]
      by (auto simp: connecting_inv_def plain_inv_def plain_write_def plain_is_open_def split: if_splits plain_state.splits)
  next
    case failed
    then show ?thesis using assms(1) by (auto simp: plain_write_def plain_inv_def plain_is_open_def)
  qed
qed

lemma plain_mark_moves:
  assumes "plain_inv route up down p"
  shows "plain_inv route up down (plain_mark_reactor_ready r w p)" "plain_is_open (plain_mark_reactor_ready r w p) = plain_is_open p"
    "pt_guest_write_finished (plain_mark_reactor_ready r w p) = pt_guest_write_finished p"
  using assms
  by (auto simp: plain_inv_def open_inv_def connecting_inv_def plain_mark_reactor_ready_def plain_is_open_def Let_def split: plain_state.splits)

lemma plain_flag_moves:
  assumes "plain_inv route up down p"
  shows "plain_inv route up down (plain_finish_guest_write p)" "plain_inv route up down (plain_close p)"
    "plain_is_open (plain_finish_guest_write p) = plain_is_open p" "plain_is_open (plain_close p) = plain_is_open p"
    "pt_guest_write_finished (plain_close p) = pt_guest_write_finished p"
  using assms
  by (auto simp: plain_inv_def open_inv_def connecting_inv_def plain_finish_guest_write_def plain_close_def plain_is_open_def
      split: plain_state.splits)

lemma plain_run_inv:
  assumes "plain_run ho cap calls (k, pool, p, out) = Some (k', pool', p', out')" "plain_inv route up down p" "writes_first calls"
    and "pt_guest_write_finished p \<longrightarrow> written calls = []" "\<not> plain_is_open p \<longrightarrow> out = []"
  shows "\<exists>down'. plain_inv route (up @ concat (map (through route) (written calls))) down' p' \<and> out @ down = out' @ down' \<and>
    (\<not> plain_is_open p' \<longrightarrow> out' = [])"
  using assms
proof (induction calls arbitrary: k pool p out up down)
  case (Cons c cs)
  note IH = Cons.IH
  obtain k1 pool1 p1 out1 where c: "plain_step ho cap c (k, pool, p, out) = Some (k1, pool1, p1, out1)"
      "plain_run ho cap cs (k1, pool1, p1, out1) = Some (k', pool', p', out')"
    using Cons.prems(1) by (auto split: bind_split_asm)
  show ?case
  proof (cases c)
    case (PlainWrite b)
    then have "plain_write b pool p = Some (pool1, p1)" "out1 = out" "\<not> pt_guest_write_finished p"
      using c(1) Cons.prems(4) by (auto split: bind_split_asm)
    then show ?thesis using plain_write_moves [of b pool p pool1 p1 route up down] IH [OF c(2)] Cons.prems PlainWrite by fastforce
  next
    case (PlainDrive permit t)
    then obtain t1 poll where d: "plain_drive sock_read sock_write ho cap permit t k pool p = Some (t1, k1, pool1, p1, poll)"
        "out1 = out @ poll_data poll"
      using c(1) by (auto split: bind_split_asm)
    from plain_drive_moves [OF d(1) Cons.prems(2)] obtain down1 where down1: "down = poll_data poll @ down1" "plain_inv route up down1 p1"
        "\<not> plain_is_open p1 \<longrightarrow> poll_data poll = [] \<and> \<not> plain_is_open p" "pt_guest_write_finished p1 = pt_guest_write_finished p"
      by (auto simp: plain_moves_def)
    then show ?thesis using IH [OF c(2) down1(2)] Cons.prems PlainDrive d(2) by auto
  next
    case PlainFinish
    then show ?thesis using IH [OF c(2)] Cons.prems c(1) plain_flag_moves [OF Cons.prems(2)] by auto
  next
    case PlainClose
    then show ?thesis using IH [OF c(2)] Cons.prems c(1) plain_flag_moves [OF Cons.prems(2)] by auto
  next
    case (PlainReady r w)
    then show ?thesis using IH [OF c(2)] Cons.prems c(1) plain_mark_moves [OF Cons.prems(2), of r w] by auto
  qed
qed auto

text \<open>
  Claim C9.  A plain proxy, over any sequence of writes of the guest, its end, closes, readiness events and
  turns with any permit and budget: once the connection is open, what has been sent upstream and what is
  still queued are exactly the guest's buffers in order, less those its policy refuses; what has been
  handed to the guest, what waits for it and what is still in the socket are exactly what the upstream
  sent; the upstream is told of the end of the stream only when every such byte has been sent.  Before
  the connection is open, or when it never opens, nothing has been handed to the guest.
\<close>

theorem plain_proxy_exact:
  assumes "plain_run ho cap calls (k, pool, plain_connecting route s, []) = Some (k', pool', p', out)" "writes_first calls"
  shows "case pt_state p' of
      PlainOpen stream r tracker finished \<Rightarrow> r = route \<and>
        so_out (rs_source stream) @ wq_stream (pt_pending p') = so_out s @ concat (map (through route) (written calls)) \<and>
        out @ concat (map poll_data (pt_pending_polls p')) @ incoming (so_in (rs_source stream)) = incoming (so_in s) \<and>
        (finished \<longrightarrow> pt_guest_write_finished p' \<and>
          so_out (rs_source stream) = so_out s @ concat (map (through route) (written calls)))
    | _ \<Rightarrow> out = []"
proof -
  have "connecting_inv route (so_out s) (incoming (so_in s)) (plain_connecting route s)"
    by (auto simp: connecting_inv_def plain_connecting_def wq_new_def wq_invar_def wq_defs)
  then have start: "plain_inv route (so_out s) (incoming (so_in s)) (plain_connecting route s)" "\<not> plain_is_open (plain_connecting route s)"
      "\<not> pt_guest_write_finished (plain_connecting route s)"
    by (simp_all add: plain_inv_def plain_is_open_def plain_connecting_def)
  from plain_run_inv [OF assms(1) start(1) assms(2)] start(2,3)
  obtain down where "plain_inv route (so_out s @ concat (map (through route) (written calls))) down p'"
      "incoming (so_in s) = out @ down" "\<not> plain_is_open p' \<longrightarrow> out = []" by auto
  then show ?thesis by (auto simp: plain_inv_def open_inv_def connecting_inv_def plain_is_open_def split: plain_state.splits)
qed

section \<open>A connection\<close>

definition demo_host :: "unit host_ops" where
  "demo_host = \<lparr> ho_reregister = (\<lambda>_ k. (k, Ok ())), ho_take_error = (\<lambda>k. (k, Ok ())), ho_shutdown_write = (\<lambda>k. (k, ShutdownDone)) \<rparr>"

definition demo_raw :: plain_route where
  "demo_raw = PolicyRoute \<lparr> tp_decision = \<lparr> ed_application = PolicyRaw \<rparr>, tp_reject_secret_placeholders = True \<rparr>"

definition demo_upstream :: socket where
  "demo_upstream = \<lparr> so_in = [Chunk [7, 8]], so_room = [Accept 1, Accept 4], so_out = [] \<rparr>"

definition demo_plain_pool :: pool where
  "demo_plain_pool = (pool_new small_limits)\<lparr> pl_bytes := \<lparr> bk_small = [], bk_medium = [], bk_tcp = [vec_with_capacity 8] \<rparr> \<rparr>"

definition demo_plain_calls :: "plain_call list" where
  "demo_plain_calls =
     (let t = turn_new (budget_event_loop small_limits) report_new in
      [PlainWrite \<lparr> bb_bytes = \<lparr> vec_data = [1, 2, 3], vec_cap = 4 \<rparr>, bb_class = Medium \<rparr>, PlainReady False True, PlainFinish,
       PlainDrive 3 t, PlainReady True True, PlainDrive 3 t])"

lemma demo_plain_run:
  "map_option (\<lambda>(k, pool, p, out). (case pt_state p of PlainOpen stream _ _ finished \<Rightarrow> Some (so_out (rs_source stream), finished) | _ \<Rightarrow> None, out))
     (plain_run demo_host 4 demo_plain_calls ((), demo_plain_pool, plain_connecting demo_raw demo_upstream, [])) =
   Some (Some ([1, 2, 3], True), [7, 8])"
  by code_simp

theorem plain_proxy_exact_witness:
  "\<exists>k pool p out stream tracker. writes_first demo_plain_calls \<and>
     plain_run demo_host 4 demo_plain_calls ((), demo_plain_pool, plain_connecting demo_raw demo_upstream, []) = Some (k, pool, p, out) \<and>
     pt_state p = PlainOpen stream demo_raw tracker True \<and>
     so_out (rs_source stream) = concat (map (through demo_raw) (written demo_plain_calls)) \<and>
     out @ concat (map poll_data (pt_pending_polls p)) @ incoming (so_in (rs_source stream)) = [7, 8]"
proof -
  have first: "writes_first demo_plain_calls" by (simp add: demo_plain_calls_def Let_def)
  obtain k pool p out where run: "plain_run demo_host 4 demo_plain_calls ((), demo_plain_pool, plain_connecting demo_raw demo_upstream, []) =
      Some (k, pool, p, out)"
    and state: "(case pt_state p of PlainOpen stream _ _ finished \<Rightarrow> Some (so_out (rs_source stream), finished) | _ \<Rightarrow> None) = Some ([1, 2, 3], True)"
    using demo_plain_run by auto
  have "so_out demo_upstream = []" "incoming (so_in demo_upstream) = [7, 8]" by (simp_all add: demo_upstream_def incoming_def)
  then show ?thesis using plain_proxy_exact [OF run first] run first state by (auto split: plain_state.splits)
qed

end
