(* ===== verification/UdpFlows.thy ===== *)
theory UdpFlows
  imports GuestIo FixedTable Dns DriveSafety
begin

text \<open>
  UDP egress, \<open>egress/udp.rs\<close> of \<open>src/src/libs/agentdp-network/src\<close>: one connected host socket for each flow
  of the guest, a flow being the guest's source, the destination it wrote and the host address it is
  sent to.

  The calls of the host are arguments: connecting a socket, its registration with the reactor, a send
  and a receive on it.  \<open>'k\<close> is the state of the host outside the sockets.  The clock is the time of the
  call.  A buffer that is dropped goes back to the pool.
\<close>

section \<open>State\<close>

record ('s, 'k) udp_ops =
  uo_connect :: "socket_addr \<Rightarrow> 'k \<Rightarrow> 'k \<times> ('s, io_error) result"
  uo_register :: "udp_proxy_key \<Rightarrow> reactor_interest \<Rightarrow> 's \<Rightarrow> 'k \<Rightarrow> 'k \<times> (unit, io_error) result"
  uo_reregister :: "udp_proxy_key \<Rightarrow> reactor_interest \<Rightarrow> 's \<Rightarrow> 'k \<Rightarrow> 'k \<times> (unit, io_error) result"
  uo_deregister :: "udp_proxy_key \<Rightarrow> 's \<Rightarrow> 'k \<Rightarrow> 'k"
  uo_send :: "bytes \<Rightarrow> 's \<Rightarrow> 's \<times> (nat, io_error) result"
  uo_recv :: "nat \<Rightarrow> 's \<Rightarrow> 's \<times> (bytes \<times> unit, io_error) result"

datatype udp_error = UdpIo io_error | UdpExists | UdpLimit nat | UdpDisappeared

datatype udp_proxy_event =
  UdpBytes udp_proxy_key byte_buf bool
| UdpDnsResolved bytes "ip_addr list" nat
| UdpClosed
| UdpFailed udp_error

record 's udp_proxy_socket =
  us_source :: 's
  us_io :: io_slot
  us_is_dns :: bool
  us_expires :: nat

record udp_send =
  ud_proxy :: udp_proxy_key
  ud_bytes :: byte_buf
  ud_is_dns :: bool

type_synonym 's udp_table = "(udp_proxy_key, 's udp_proxy_socket) fixed_table"

record 's udp_proxies =
  up_table :: "'s udp_table"
  up_timeout :: nat
  up_sends :: "udp_send list"
  up_pending :: "udp_proxy_event list"
  up_scratch :: "udp_proxy_key list"

definition udp_proxies_new :: "network_limits \<Rightarrow> 's udp_proxies" where
  "udp_proxies_new limits =
     \<lparr> up_table = ft_with_capacity (udp_proxy_limit limits), up_timeout = udp_proxy_timeout limits, up_sends = [], up_pending = [],
       up_scratch = [] \<rparr>"

definition udp_enqueue :: "udp_proxy_key \<Rightarrow> byte_buf \<Rightarrow> bool \<Rightarrow> 's udp_proxies \<Rightarrow> 's udp_proxies" where
  "udp_enqueue proxy b is_dns up = up\<lparr> up_sends := up_sends up @ [\<lparr> ud_proxy = proxy, ud_bytes = b, ud_is_dns = is_dns \<rparr>] \<rparr>"

section \<open>The table\<close>

definition udp_reregister ::
    "('s, 'k) udp_ops \<Rightarrow> udp_proxy_key \<Rightarrow> reactor_interest \<Rightarrow> 's \<Rightarrow> io_slot \<Rightarrow> 'k \<Rightarrow> 'k \<times> io_slot \<times> (unit, udp_error) result" where
  "udp_reregister uo key interest s io k =
     (if interest = io_interest io then (k, io, Ok ())
      else case uo_reregister uo key interest s k of
        (k, Err e) \<Rightarrow> (k, io, Err (UdpIo e))
      | (k, Ok _) \<Rightarrow> (k, io_set_registered_interest interest io, Ok ()))"

definition udp_watch_write ::
    "('s, 'k) udp_ops \<Rightarrow> udp_proxy_key \<Rightarrow> 's \<Rightarrow> io_slot \<Rightarrow> 'k \<Rightarrow> 'k \<times> io_slot \<times> (unit, udp_error) result" where
  "udp_watch_write uo key s io k = (if io_watches_write io then (k, io, Ok ()) else udp_reregister uo key ReadWrite s io k)"

definition udp_unwatch_write ::
    "('s, 'k) udp_ops \<Rightarrow> udp_proxy_key \<Rightarrow> 's \<Rightarrow> io_slot \<Rightarrow> 'k \<Rightarrow> 'k \<times> io_slot \<times> (unit, udp_error) result" where
  "udp_unwatch_write uo key s io k = (if io_watches_write io then udp_reregister uo key Readable s io k else (k, io, Ok ()))"

definition udp_send_existing ::
    "('s, 'k) udp_ops \<Rightarrow> nat \<Rightarrow> nat \<Rightarrow> udp_proxy_key \<Rightarrow> bytes \<Rightarrow> bool \<Rightarrow> drive_turn \<Rightarrow> 'k \<Rightarrow> 's udp_proxy_socket \<Rightarrow>
     drive_turn \<times> 'k \<times> 's udp_proxy_socket \<times> (drive_datagram_send, udp_error) result" where
  "udp_send_existing uo now timeout key xs is_dns t k u =
     (let u = u\<lparr> us_is_dns := (us_is_dns u \<or> is_dns), us_expires := now + timeout \<rparr> in
      case udp_watch_write uo key (us_source u) (us_io u) k of
        (k, io, Err e) \<Rightarrow> (t, k, u\<lparr> us_io := io \<rparr>, Err e)
      | (k, io, Ok _) \<Rightarrow>
         (case send_datagram_ready (uo_send uo) t io (us_source u) xs of
            (t, io, s, Err e) \<Rightarrow> (t, k, u\<lparr> us_source := s, us_io := io \<rparr>, Err (UdpIo e))
          | (t, io, s, Ok SendSent) \<Rightarrow>
             (case udp_unwatch_write uo key s io k of
                (k, io, Err e) \<Rightarrow> (t, k, u\<lparr> us_source := s, us_io := io \<rparr>, Err e)
              | (k, io, Ok _) \<Rightarrow> (t, k, u\<lparr> us_source := s, us_io := io \<rparr>, Ok SendSent))
          | (t, io, s, Ok SendBudget) \<Rightarrow> (t, k, u\<lparr> us_source := s, us_io := io \<rparr>, Ok SendBudget)
          | (t, io, s, Ok _) \<Rightarrow> (t, k, u\<lparr> us_source := s, us_io := io \<rparr>, Ok SendWouldBlock)))"

text \<open>The socket of a new flow: a registration that is not committed is undone.\<close>

definition udp_send_new ::
    "('s, 'k) udp_ops \<Rightarrow> nat \<Rightarrow> nat \<Rightarrow> udp_proxy_key \<Rightarrow> bytes \<Rightarrow> bool \<Rightarrow> drive_turn \<Rightarrow> 'k \<Rightarrow>
     drive_turn \<times> 'k \<times> ('s udp_proxy_socket \<times> drive_datagram_send, udp_error) result" where
  "udp_send_new uo now timeout key xs is_dns t k =
     (case uo_connect uo (host_dst key) k of
        (k, Err e) \<Rightarrow> (t, k, Err (UdpIo e))
      | (k, Ok s) \<Rightarrow>
         (case uo_register uo key ReadWrite s k of
            (k, Err e) \<Rightarrow> (t, k, Err (UdpIo e))
          | (k, Ok _) \<Rightarrow>
             (case send_datagram_ready (uo_send uo) t (io_registered ReadWrite) s xs of
                (t, io, s, Err e) \<Rightarrow> (t, uo_deregister uo key s k, Err (UdpIo e))
              | (t, io, s, Ok r) \<Rightarrow>
                 (case (if r = SendSent then udp_reregister uo key Readable s io k else (k, io, Ok ())) of
                    (k, io, Err e) \<Rightarrow> (t, uo_deregister uo key s k, Err e)
                  | (k, io, Ok _) \<Rightarrow>
                      (t, k, Ok (\<lparr> us_source = s, us_io = io, us_is_dns = is_dns, us_expires = now + timeout \<rparr>, r))))))"

definition udp_table_send ::
    "('s, 'k) udp_ops \<Rightarrow> nat \<Rightarrow> nat \<Rightarrow> udp_proxy_key \<Rightarrow> bytes \<Rightarrow> bool \<Rightarrow> drive_turn \<Rightarrow> 'k \<Rightarrow> 's udp_table \<Rightarrow>
     (drive_turn \<times> 'k \<times> 's udp_table \<times> (drive_datagram_send, udp_error) result) option" where
  "udp_table_send uo now timeout key xs is_dns t k table =
     (case ft_get table key of
        Some u \<Rightarrow>
         (case udp_send_existing uo now timeout key xs is_dns t k u of
            (t, k, u, r) \<Rightarrow> Some (t, k, fst (ft_get_mut table key (\<lambda>_. u)), r))
      | None \<Rightarrow>
         (case can_prepare_whole_item_operation (length xs) t of
            (t, False) \<Rightarrow> Some (t, k, table, Ok SendBudget)
          | (t, True) \<Rightarrow>
             (case ft_reserve_vacant table key of
                Err KeyExists \<Rightarrow> Some (t, k, table, Err UdpExists)
              | Err ReserveFull \<Rightarrow> Some (t, k, table, Err (UdpLimit (ft_capacity table)))
              | Ok reservation \<Rightarrow>
                 (case udp_send_new uo now timeout key xs is_dns t k of
                    (t, k, Err e) \<Rightarrow> Some (t, k, table, Err e)
                  | (t, k, Ok (u, r)) \<Rightarrow>
                      ft_reservation_insert table reservation u \<bind> (\<lambda>table. Some (t, k, table, Ok r))))))"

definition udp_table_remove :: "('s, 'k) udp_ops \<Rightarrow> udp_proxy_key \<Rightarrow> 'k \<Rightarrow> 's udp_table \<Rightarrow> 'k \<times> 's udp_table" where
  "udp_table_remove uo key k table =
     (case ft_remove table key of
        (table, None) \<Rightarrow> (k, table)
      | (table, Some u) \<Rightarrow> (uo_deregister uo key (us_source u) k, table))"

definition udp_table_expire_next :: "('s, 'k) udp_ops \<Rightarrow> nat \<Rightarrow> 'k \<Rightarrow> 's udp_table \<Rightarrow> 'k \<times> 's udp_table \<times> udp_proxy_key option" where
  "udp_table_expire_next uo now k table =
     (case List.find (\<lambda>(key, u). us_expires u \<le> now) (ft_iter table) of
        None \<Rightarrow> (k, table, None)
      | Some (key, _) \<Rightarrow> (case udp_table_remove uo key k table of (k, table) \<Rightarrow> (k, table, Some key)))"

definition udp_next_expiry :: "'s udp_proxies \<Rightarrow> nat option" where
  "udp_next_expiry up = (case map us_expires (ft_values (up_table up)) of [] \<Rightarrow> None | e # es \<Rightarrow> Some (fold min es e))"

definition udp_mark_ready :: "udp_proxy_key \<Rightarrow> bool \<Rightarrow> bool \<Rightarrow> 's udp_table \<Rightarrow> 's udp_table" where
  "udp_mark_ready key readable writable table =
     fst (ft_get_mut table key (\<lambda>u. u\<lparr> us_io := io_mark_reactor_ready readable writable (us_io u) \<rparr>))"

definition udp_has_readable :: "'s udp_table \<Rightarrow> bool" where
  "udp_has_readable table = list_ex (\<lambda>u. io_can_read (us_io u)) (ft_values table)"

definition udp_readable_keys :: "'s udp_table \<Rightarrow> udp_proxy_key list" where
  "udp_readable_keys table = map fst (filter (\<lambda>(key, u). io_can_read (us_io u)) (ft_iter table))"

section \<open>Queues\<close>

fun drop_bufs :: "byte_buf list \<Rightarrow> pool \<Rightarrow> pool option" where
  "drop_bufs [] pool = Some pool"
| "drop_bufs (b # bs) pool = byte_buf_drop pool b \<bind> drop_bufs bs"

definition udp_drop_queues :: "udp_proxy_key \<Rightarrow> pool \<Rightarrow> 's udp_proxies \<Rightarrow> (pool \<times> 's udp_proxies) option" where
  "udp_drop_queues key pool up =
     drop_bufs (map ud_bytes (filter (\<lambda>s. ud_proxy s = key) (up_sends up))) pool \<bind> (\<lambda>pool.
       Some (pool, up\<lparr> up_sends := filter (\<lambda>s. ud_proxy s \<noteq> key) (up_sends up),
         up_scratch := filter (\<lambda>r. r \<noteq> key) (up_scratch up) \<rparr>))"

definition udp_remove_proxy ::
    "('s, 'k) udp_ops \<Rightarrow> udp_proxy_key \<Rightarrow> 'k \<Rightarrow> pool \<Rightarrow> 's udp_proxies \<Rightarrow> ('k \<times> pool \<times> 's udp_proxies) option" where
  "udp_remove_proxy uo key k pool up =
     (case udp_table_remove uo key k (up_table up) of
        (k, table) \<Rightarrow> udp_drop_queues key pool (up\<lparr> up_table := table \<rparr>) \<bind> (\<lambda>(pool, up). Some (k, pool, up)))"

definition udp_emit_or_queue ::
    "udp_proxy_event list \<Rightarrow> drive_turn \<Rightarrow> udp_proxy_event \<Rightarrow> 's udp_proxies \<Rightarrow> udp_proxy_event list \<times> drive_turn \<times> 's udp_proxies \<times> bool"
  where
  "udp_emit_or_queue events t event up =
     (case push_event t events event of
        (t, events, Ok _) \<Rightarrow> (events, t, up, True)
      | (t, events, Err event) \<Rightarrow> (events, t, up\<lparr> up_pending := event # up_pending up \<rparr>, False))"

definition udp_latch_ready :: "reactor_ready list \<Rightarrow> 's udp_proxies \<Rightarrow> 's udp_proxies" where
  "udp_latch_ready readiness up =
     fold (\<lambda>ready up. case ready of
         ReadyIo (UdpProxy key) readable writable \<Rightarrow> up\<lparr> up_table := udp_mark_ready key readable writable (up_table up) \<rparr>
       | _ \<Rightarrow> up) readiness up"

section \<open>What a turn pays\<close>

text \<open>Whoever makes progress has taken a step of the budget, so the loops below end.\<close>

definition pays :: "drive_turn \<Rightarrow> drive_turn \<Rightarrow> bool" where
  "pays t t' \<longleftrightarrow> db_steps (dt_budget t') \<le> db_steps (dt_budget t) \<and>
     (rp_progress (dt_report t') \<noteq> rp_progress (dt_report t) \<longrightarrow> db_steps (dt_budget t') < db_steps (dt_budget t))"

lemma pays_refl [simp]: "pays t t"
  by (simp add: pays_def)

lemma pays_trans: "pays t t1 \<Longrightarrow> pays t1 t2 \<Longrightarrow> pays t t2"
  by (auto simp: pays_def)

lemma waits_budget [simp]: "dt_budget (block_on w t) = dt_budget t"
    "dt_budget (wait_for_local_buffer_capacity_with_continuation t) = dt_budget t"
    "rp_progress (dt_report (block_on w t)) = rp_progress (dt_report t)"
  by (simp_all add: block_on_def turn_report_def wait_for_local_buffer_capacity_with_continuation_def)

lemma pays_wait [simp]: "pays t (exhausted t')  \<longleftrightarrow> pays t t'" "pays t (block_on w t') \<longleftrightarrow> pays t t'"
    "pays t (wait_for_local_buffer_capacity_with_continuation t') \<longleftrightarrow> pays t t'"
  by (simp_all add: pays_def exhausted_def block_on_def turn_report_def mark_budget_exhausted_def
      wait_for_local_buffer_capacity_with_continuation_def)

lemma step_pays:
  "step_or_exhausted t = (t', ok) \<Longrightarrow> pays t t' \<and> (ok \<longrightarrow> db_steps (dt_budget t') < db_steps (dt_budget t))"
  by (auto simp: pays_def step_or_exhausted_def budget_step_def can_continue_def exhausted_def turn_report_def mark_budget_exhausted_def
      split: if_splits prod.splits)

lemma can_start_pays: "can_start_operation t = (t', ok) \<Longrightarrow> pays t t'"
  by (auto simp: can_start_operation_def can_continue_or_exhausted_def split: if_splits)

lemma can_prepare_pays: "can_prepare_whole_item_operation n t = (t', ok) \<Longrightarrow> pays t t'"
  by (auto simp: can_prepare_whole_item_operation_def can_continue_or_exhausted_def split: if_splits)

lemma push_event_pays:
  "push_event t events event = (t', events', r) \<Longrightarrow> pays t t' \<and> (r = Ok () \<longrightarrow> db_steps (dt_budget t') < db_steps (dt_budget t))"
  by (auto simp: push_event_def emit_event_def event_step_or_exhausted_def event_only_or_exhausted_def budget_step_def pays_def
      exhausted_def turn_report_def mark_budget_exhausted_def report_event_emitted_def split: if_splits prod.splits)

lemma whole_item_pays:
  "start_whole_item_operation n t = (t', ok) \<Longrightarrow> pays t t' \<and> (ok \<longrightarrow> db_steps (dt_budget t') < db_steps (dt_budget t))"
  by (auto simp: start_whole_item_operation_def dest: step_pays split: if_splits)

lemma send_datagram_pays: "send_datagram_ready wr_fn t io s xs = (t', io', s', r) \<Longrightarrow> pays t t'"
  by (auto simp: send_datagram_ready_def send_datagram_unchecked_def pays_def spend_bytes_budget report_bytes_written_def
      dest!: whole_item_pays split: if_splits prod.splits result.splits io_error.splits)

lemma recv_datagram_pays:
  "recv_datagram_ready rcv t io pool s cap = Some (t', io', pool', s', r) \<Longrightarrow>
     pays t t' \<and> (\<forall>b p. r = Ok (DatagramBytes b p) \<longrightarrow> db_steps (dt_budget t') < db_steps (dt_budget t))"
  by (auto simp: recv_datagram_ready_def recv_datagram_unchecked_def pays_def spend_bytes_budget
      dest!: whole_item_pays split: if_splits prod.splits result.splits io_error.splits bind_splits)

section \<open>Sending\<close>

fun udp_drain_sends ::
    "('s, 'k) udp_ops \<Rightarrow> nat \<Rightarrow> nat \<Rightarrow> udp_proxy_event list \<Rightarrow> drive_turn \<Rightarrow> 'k \<Rightarrow> pool \<Rightarrow> 's udp_proxies \<Rightarrow> bool \<Rightarrow>
     (udp_proxy_event list \<times> drive_turn \<times> 'k \<times> pool \<times> 's udp_proxies \<times> bool) option" where
  "udp_drain_sends uo now 0 events t k pool up blocked = Some (events, t, k, pool, up, blocked)"
| "udp_drain_sends uo now (Suc attempts) events t k pool up blocked =
     (case can_start_operation t of
        (t, False) \<Rightarrow> Some (events, t, k, pool, up, blocked)
      | (t, True) \<Rightarrow>
         (case up_sends up of
            [] \<Rightarrow> Some (events, t, k, pool, up, blocked)
          | send # sends \<Rightarrow>
              udp_table_send uo now (up_timeout up) (ud_proxy send) (buf_data (ud_bytes send)) (ud_is_dns send) t k (up_table up) \<bind>
              (\<lambda>(t, k, table, r).
                let up = up\<lparr> up_table := table, up_sends := sends \<rparr> in
                case r of
                  Ok SendSent \<Rightarrow> byte_buf_drop pool (ud_bytes send) \<bind> (\<lambda>pool.
                    udp_drain_sends uo now attempts events t k pool up blocked)
                | Ok SendBudget \<Rightarrow> Some (events, t, k, pool, up\<lparr> up_sends := send # sends \<rparr>, blocked)
                | Ok _ \<Rightarrow> udp_drain_sends uo now attempts events t k pool (up\<lparr> up_sends := sends @ [send] \<rparr>) True
                | Err e \<Rightarrow>
                    udp_remove_proxy uo (ud_proxy send) k pool up \<bind> (\<lambda>(k, pool, up).
                      case udp_emit_or_queue events t (UdpFailed e) up of
                        (events, t, up, ok) \<Rightarrow> byte_buf_drop pool (ud_bytes send) \<bind> (\<lambda>pool.
                          if ok then udp_drain_sends uo now attempts events t k pool up blocked
                          else Some (events, t, k, pool, up, blocked))))))"

lemma udp_send_existing_pays:
  assumes "udp_send_existing uo now timeout key xs is_dns t k u = (t', k', u', r)"
  shows "pays t t'"
proof -
  obtain k1 io1 r1 where pre: "udp_watch_write uo key (us_source u) (us_io u) k = (k1, io1, r1)" by (metis prod_cases3)
  obtain t2 io2 s2 r2 where sent: "send_datagram_ready (uo_send uo) t io1 (us_source u) xs = (t2, io2, s2, r2)" by (metis prod_cases4)
  obtain k3 io3 r3 where post: "udp_unwatch_write uo key s2 io2 k1 = (k3, io3, r3)" by (metis prod_cases3)
  have "t' = t \<or> t' = t2"
    using assms unfolding udp_send_existing_def Let_def
    by (cases r1; cases r2) (auto simp: pre sent post split: drive_datagram_send.split_asm result.split_asm)
  then show ?thesis using send_datagram_pays [OF sent] by auto
qed

lemma udp_send_new_pays: "udp_send_new uo now timeout key xs is_dns t k = (t', k', r) \<Longrightarrow> pays t t'"
  by (auto simp: udp_send_new_def dest: send_datagram_pays split: prod.split_asm if_split_asm result.split_asm)

lemma udp_send_pays:
  assumes "udp_table_send uo now timeout key xs is_dns t k table = Some (t', k', table', r)"
  shows "pays t t'"
proof (cases "ft_get table key")
  case (Some u)
  then show ?thesis using assms by (auto simp: udp_table_send_def dest: udp_send_existing_pays split: prod.split_asm)
next
  case None
  obtain t1 ok where t1: "can_prepare_whole_item_operation (length xs) t = (t1, ok)" by fastforce
  have "t' = t1 \<or> pays t1 t'" using assms None t1
    by (auto simp: udp_table_send_def dest: udp_send_new_pays
        split: bool.split_asm prod.split_asm result.split_asm bind_split_asm fixed_table_reserve_error.split_asm)
  then show ?thesis using can_prepare_pays [OF t1] by (blast intro: pays_trans)
qed

lemma udp_emit_pays:
  "udp_emit_or_queue events t event up = (events', t', up', ok) \<Longrightarrow>
     pays t t' \<and> (ok \<longrightarrow> db_steps (dt_budget t') < db_steps (dt_budget t)) \<and> up_scratch up' = up_scratch up"
  by (auto simp: udp_emit_or_queue_def split: prod.splits result.splits dest!: push_event_pays)

lemma udp_drain_sends_pays:
  "udp_drain_sends uo now n events t k pool up blocked = Some (events', t', k', pool', up', blocked') \<Longrightarrow> pays t t'"
proof (induction n arbitrary: events t k pool up blocked)
  case (Suc n)
  obtain t1 ok where start: "can_start_operation t = (t1, ok)" by fastforce
  show ?case
  proof (cases "ok \<and> up_sends up \<noteq> []")
    case False
    then show ?thesis using Suc.prems start can_start_pays [OF start] by (cases ok) (auto split: list.splits)
  next
    case True
    then obtain send sends where sends: "up_sends up = send # sends" by (cases "up_sends up") auto
    then obtain t2 k2 table r where sent: "udp_table_send uo now (up_timeout up) (ud_proxy send) (buf_data (ud_bytes send)) (ud_is_dns send)
        t1 k (up_table up) = Some (t2, k2, table, r)"
      using Suc.prems start True by (auto split: bind_splits)
    have pre: "pays t t2" using can_start_pays [OF start] udp_send_pays [OF sent] by (rule pays_trans)
    have rec: "pays t t'" if "udp_drain_sends uo now n e3 t3 k3 pool3 up3 b3 = Some (events', t', k', pool', up', blocked')" "pays t2 t3"
      for e3 t3 k3 pool3 up3 b3
      using Suc.IH [OF that(1)] that(2) pre by (blast intro: pays_trans)
    have emitted: "pays t t3" if "udp_emit_or_queue e2 t2 ev up2 = (e3, t3, up3, ok3)" for e2 ev up2 e3 t3 up3 ok3
      using udp_emit_pays [OF that] pre by (blast intro: pays_trans)
    show ?thesis
    proof (cases r)
      case (Ok x)
      then show ?thesis using Suc.prems start True sends sent pre rec
        by (cases x) (auto split: bind_splits)
    next
      case (Err e)
      then show ?thesis using Suc.prems start True sends sent
        by (auto split: bind_splits prod.splits if_splits dest: emitted rec [OF _ udp_emit_pays [THEN conjunct1]])
    qed
  qed
qed simp

section \<open>Receiving\<close>

datatype read_end = ReadNext | ReadStop

definition udp_dns_event :: "bool \<Rightarrow> bytes \<Rightarrow> udp_proxy_event option option" where
  "udp_dns_event is_dns xs =
     (if \<not> is_dns then Some None
      else question_of xs \<bind> (\<lambda>q.
        case q of
          None \<Rightarrow> Some None
        | Some question \<Rightarrow> address_records xs \<bind> (\<lambda>records.
            Some (Some (UdpDnsResolved (dq_host question) (da_addresses records) (da_ttl records))))))"

text \<open>The two events of a datagram; \<open>None\<close> when one of them had to wait and the function returns.\<close>

definition udp_push_events ::
    "udp_proxy_event list \<Rightarrow> drive_turn \<Rightarrow> udp_proxy_event \<Rightarrow> udp_proxy_event option \<Rightarrow> 's udp_proxies \<Rightarrow>
     udp_proxy_event list \<times> drive_turn \<times> 's udp_proxies \<times> bool" where
  "udp_push_events events t bytes_event dns_event up =
     (case push_event t events bytes_event of
        (t, events, Err event) \<Rightarrow>
          (events, t, up\<lparr> up_pending := event # (case dns_event of None \<Rightarrow> [] | Some d \<Rightarrow> [d]) @ up_pending up \<rparr>, False)
      | (t, events, Ok _) \<Rightarrow>
         (case dns_event of
            None \<Rightarrow> (events, t, up, True)
          | Some d \<Rightarrow> udp_emit_or_queue events t d up))"

lemma udp_push_events_pays:
  "udp_push_events events t e d up = (events', t', up', ok) \<Longrightarrow> pays t t' \<and> up_scratch up' = up_scratch up"
  by (auto simp: udp_push_events_def dest!: push_event_pays udp_emit_pays intro: pays_trans split: prod.splits result.splits option.splits)

function udp_read_flow ::
    "('s, 'k) udp_ops \<Rightarrow> nat \<Rightarrow> udp_proxy_key \<Rightarrow> udp_proxy_event list \<Rightarrow> drive_turn \<Rightarrow> 'k \<Rightarrow> pool \<Rightarrow> 's udp_proxies \<Rightarrow>
     (udp_proxy_event list \<times> drive_turn \<times> 'k \<times> pool \<times> 's udp_proxies \<times> read_end) option" where
  "udp_read_flow uo now key events t k pool up =
     (case ft_get (up_table up) key of
        None \<Rightarrow> Some (events, t, k, pool, up, ReadNext)
      | Some u \<Rightarrow>
          recv_datagram_ready (uo_recv uo) t (us_io u) pool (us_source u) (udp_datagram_buffer_capacity (pl_limits pool)) \<bind>
          (\<lambda>(t1, io, pool, s, r).
            let u = u\<lparr> us_source := s, us_io := io \<rparr>;
                put = (\<lambda>u. up\<lparr> up_table := fst (ft_get_mut (up_table up) key (\<lambda>_. u)) \<rparr>)
            in case r of
              Ok (DatagramBytes b _) \<Rightarrow>
                udp_dns_event (us_is_dns u) (buf_data b) \<bind> (\<lambda>dns_event.
                  case udp_push_events events t1 (UdpBytes key b (us_is_dns u)) dns_event
                      (put (u\<lparr> us_expires := now + up_timeout up \<rparr>)) of
                    (events, t2, up, False) \<Rightarrow> Some (events, t2, k, pool, up, ReadStop)
                  | (events, t2, up, True) \<Rightarrow>
                     (case can_start_operation t2 of
                        (t3, False) \<Rightarrow> Some (events, t3, k, pool, up, ReadStop)
                      | (t3, True) \<Rightarrow> udp_read_flow uo now key events t3 k pool up))
            | Ok DatagramWouldBlock \<Rightarrow> Some (events, t1, k, pool, put u, ReadNext)
            | Ok _ \<Rightarrow> Some (events, t1, k, pool, put u, ReadStop)
            | Err e \<Rightarrow>
                udp_remove_proxy uo key k pool (put u) \<bind> (\<lambda>(k, pool, up).
                  case udp_emit_or_queue events t1 (UdpFailed (UdpIo e)) up of
                    (events, t2, up, ok) \<Rightarrow> Some (events, t2, k, pool, up, if ok then ReadNext else ReadStop))))"
  by pat_completeness auto

termination
proof (relation "measure (\<lambda>(_, _, _, _, t, _, _, _). db_steps (dt_budget t))", goal_cases)
  case 2
  then show ?case
    by (auto simp: pays_def dest!: recv_datagram_pays udp_push_events_pays [OF sym] can_start_pays [OF sym])
qed simp

declare udp_read_flow.simps [simp del]

lemma udp_remove_scratch:
  "udp_remove_proxy uo key k pool up = Some (k', pool', up') \<Longrightarrow> length (up_scratch up') \<le> length (up_scratch up)"
  by (auto simp: udp_remove_proxy_def udp_drop_queues_def split: prod.splits bind_splits)

lemma udp_read_flow_pays:
  "udp_read_flow uo now key events t k pool up = Some (events', t', k', pool', up', r) \<Longrightarrow>
     pays t t' \<and> length (up_scratch up') \<le> length (up_scratch up)"
proof (induction "db_steps (dt_budget t)" arbitrary: events t k pool up rule: less_induct)
  case less
  show ?case
  proof (cases "ft_get (up_table up) key")
    case None
    then show ?thesis using less.prems by (simp add: udp_read_flow.simps [of uo now key events t k pool up])
  next
    case (Some u)
    then obtain t1 io pool1 s x where x: "recv_datagram_ready (uo_recv uo) t (us_io u) pool (us_source u)
        (udp_datagram_buffer_capacity (pl_limits pool)) = Some (t1, io, pool1, s, x)"
      using less.prems by (auto simp: udp_read_flow.simps [of uo now key events t k pool up] split: bind_splits)
    note paid = recv_datagram_pays [OF x]
    have bytes: "pays t t' \<and> length (up_scratch up') \<le> length (up_scratch up)"
      if pushed: "udp_push_events events t1 e d up1 = (e2, t2, up2, ok)" and same: "up_scratch up1 = up_scratch up"
        and got: "x = Ok (DatagramBytes b p)"
        and rest: "(case ok of False \<Rightarrow> Some (e2, t2, k, pool1, up2, ReadStop)
          | True \<Rightarrow> (case can_start_operation t2 of
              (t3, False) \<Rightarrow> Some (e2, t3, k, pool1, up2, ReadStop)
            | (t3, True) \<Rightarrow> udp_read_flow uo now key e2 t3 k pool1 up2)) = Some (events', t', k', pool', up', r)"
      for e d up1 e2 t2 up2 ok b p
    proof -
      obtain t3 ok3 where t3: "can_start_operation t2 = (t3, ok3)" by fastforce
      have chain: "pays t t2" "pays t t3" "db_steps (dt_budget t3) < db_steps (dt_budget t)" "up_scratch up2 = up_scratch up"
        using paid got udp_push_events_pays [OF pushed] can_start_pays [OF t3] same by (auto simp: pays_def)
      show ?thesis
        using rest t3 chain less.hyps [OF chain(3), of e2 k pool1 up2]
        by (auto split: bool.split_asm intro: pays_trans)
    qed
    show ?thesis
    proof (cases x)
      case (Ok y)
      show ?thesis
      proof (cases y)
        case (DatagramBytes b p)
        obtain d where d: "udp_dns_event (us_is_dns u) (buf_data b) = Some d"
          using less.prems Some x Ok DatagramBytes by (auto simp: udp_read_flow.simps [of uo now key events t k pool up] split: bind_split_asm)
        obtain e2 t2 up2 ok where pushed: "udp_push_events events t1 (UdpBytes key b (us_is_dns u)) d (up\<lparr> up_table :=
            fst (ft_get_mut (up_table up) key (\<lambda>_. u\<lparr> us_source := s, us_io := io, us_expires := now + up_timeout up \<rparr>)) \<rparr>) =
          (e2, t2, up2, ok)" by (metis prod_cases4)
        show ?thesis
          by (rule bytes [OF pushed]) (use less.prems Some x Ok DatagramBytes d pushed in
              \<open>simp_all add: udp_read_flow.simps [of uo now key events t k pool up] Let_def\<close>)
      qed (use less.prems Some x Ok paid in \<open>auto simp: udp_read_flow.simps [of uo now key events t k pool up] Let_def\<close>)
    next
      case (Err e)
      then show ?thesis using less.prems Some x paid
        by (auto simp: udp_read_flow.simps [of uo now key events t k pool up] Let_def split: bind_split_asm prod.split_asm
            dest!: udp_remove_scratch udp_emit_pays intro: pays_trans)
    qed
  qed
qed

text \<open>The loop over the flows that can be read; \<open>Vec::pop\<close> takes the last.\<close>

function udp_drain_scratch ::
    "('s, 'k) udp_ops \<Rightarrow> nat \<Rightarrow> udp_proxy_event list \<Rightarrow> drive_turn \<Rightarrow> 'k \<Rightarrow> pool \<Rightarrow> 's udp_proxies \<Rightarrow>
     (udp_proxy_event list \<times> drive_turn \<times> 'k \<times> pool \<times> 's udp_proxies) option" where
  "udp_drain_scratch uo now events t k pool up =
     (if up_scratch up = [] then Some (events, t, k, pool, up)
      else let key = last (up_scratch up); up = up\<lparr> up_scratch := butlast (up_scratch up) \<rparr> in
        case can_start_operation t of
          (t, False) \<Rightarrow> Some (events, t, k, pool, up)
        | (t, True) \<Rightarrow>
            udp_read_flow uo now key events t k pool up \<bind> (\<lambda>(events, t, k, pool, up, r).
              if r = ReadStop then Some (events, t, k, pool, up) else udp_drain_scratch uo now events t k pool up))"
  by pat_completeness auto

termination
  by (relation "measure (\<lambda>(_, _, _, _, _, _, up). length (up_scratch up))")
    (auto dest!: udp_read_flow_pays simp flip: length_greater_0_conv)

declare udp_drain_scratch.simps [simp del]

definition udp_drain_ready_reads ::
    "('s, 'k) udp_ops \<Rightarrow> nat \<Rightarrow> udp_proxy_event list \<Rightarrow> drive_turn \<Rightarrow> 'k \<Rightarrow> pool \<Rightarrow> 's udp_proxies \<Rightarrow>
     (udp_proxy_event list \<times> drive_turn \<times> 'k \<times> pool \<times> 's udp_proxies) option" where
  "udp_drain_ready_reads uo now events t k pool up =
     udp_drain_scratch uo now events t k pool (up\<lparr> up_scratch := udp_readable_keys (up_table up) \<rparr>)"

lemma udp_drain_scratch_pays:
  "udp_drain_scratch uo now events t k pool up = Some (events', t', k', pool', up') \<Longrightarrow> pays t t'"
proof (induction uo now events t k pool up rule: udp_drain_scratch.induct)
  case (1 uo now events t k pool up)
  show ?case
  proof (cases "up_scratch up = []")
    case True
    then show ?thesis using 1(2) by (simp add: udp_drain_scratch.simps [of uo])
  next
    case False
    obtain t1 ok where t1: "can_start_operation t = (t1, ok)" by fastforce
    show ?thesis
    proof (cases ok)
      case True
      let ?up = "up\<lparr> up_scratch := butlast (up_scratch up) \<rparr>"
      obtain events2 t2 k2 pool2 up2 r where rd: "udp_read_flow uo now (last (up_scratch up)) events t1 k pool ?up =
          Some (events2, t2, k2, pool2, up2, r)"
        and rest: "(if r = ReadStop then Some (events2, t2, k2, pool2, up2) else udp_drain_scratch uo now events2 t2 k2 pool2 up2) =
          Some (events', t', k', pool', up')"
        using 1(2) False t1 True by (auto simp: udp_drain_scratch.simps [of uo now events] Let_def split: bind_split_asm)
      have "pays t t2" using can_start_pays [OF t1] udp_read_flow_pays [OF rd] by (blast intro: pays_trans)
      moreover have "pays t2 t'" if "r \<noteq> ReadStop"
        using 1(1) [OF False refl refl t1 [symmetric]] True rd rest that by auto
      ultimately show ?thesis using rest by (auto intro: pays_trans split: if_splits)
    next
      case ok: False
      then show ?thesis using 1(2) False t1 can_start_pays [OF t1] by (auto simp: udp_drain_scratch.simps [of uo] Let_def)
    qed
  qed
qed

lemma udp_drain_reads_pays:
  "udp_drain_ready_reads uo now events t k pool up = Some (events', t', k', pool', up') \<Longrightarrow> pays t t'"
  by (simp add: udp_drain_ready_reads_def udp_drain_scratch_pays)

section \<open>A turn\<close>

function udp_drive ::
    "('s, 'k) udp_ops \<Rightarrow> nat \<Rightarrow> udp_proxy_event list \<Rightarrow> drive_turn \<Rightarrow> 'k \<Rightarrow> pool \<Rightarrow> 's udp_proxies \<Rightarrow>
     (udp_proxy_event list \<times> drive_turn \<times> 'k \<times> pool \<times> 's udp_proxies) option" where
  "udp_drive uo now events t k pool up =
     (if up_pending up = [] \<and> up_sends up = [] \<and> \<not> udp_has_readable (up_table up) then Some (events, t, k, pool, up)
      else case can_start_operation t of
        (t, False) \<Rightarrow> Some (events, t, k, pool, up)
      | (t, True) \<Rightarrow>
         (case up_pending up of
            event # pending \<Rightarrow>
             (case udp_emit_or_queue events t event (up\<lparr> up_pending := pending \<rparr>) of
                (events, t, up, False) \<Rightarrow> Some (events, t, k, pool, up)
              | (events, t, up, True) \<Rightarrow> udp_drive uo now events t k pool up)
          | [] \<Rightarrow>
              udp_drain_sends uo now (length (up_sends up)) events t k pool up False \<bind> (\<lambda>(events, t1, k, pool, up, blocked).
                udp_drain_ready_reads uo now events t1 k pool up \<bind> (\<lambda>(events, t2, k, pool, up).
                  if rp_progress (dt_report t2) \<noteq> rp_progress (dt_report t1) then udp_drive uo now events t2 k pool up
                  else Some (events, t2, k, pool, up)))))"
  by pat_completeness auto

termination
proof (relation "measure (\<lambda>(_, _, _, t, _, _, _). db_steps (dt_budget t))", goal_cases)
  case 2
  then show ?case by (auto simp: pays_def dest!: udp_drain_sends_pays udp_drain_reads_pays can_start_pays [OF sym])
next
  case 3
  then show ?case by (auto simp: pays_def dest!: udp_emit_pays [OF sym] can_start_pays [OF sym])
qed simp

declare udp_drive.simps [simp del]

definition udp_drive_ready ::
    "('s, 'k) udp_ops \<Rightarrow> nat \<Rightarrow> reactor_ready list \<Rightarrow> udp_proxy_event list \<Rightarrow> drive_turn \<Rightarrow> 'k \<Rightarrow> pool \<Rightarrow> 's udp_proxies \<Rightarrow>
     (udp_proxy_event list \<times> drive_turn \<times> 'k \<times> pool \<times> 's udp_proxies) option" where
  "udp_drive_ready uo now readiness events t k pool up = udp_drive uo now events t k pool (udp_latch_ready readiness up)"

definition udp_expire_next ::
    "('s, 'k) udp_ops \<Rightarrow> nat \<Rightarrow> 'k \<Rightarrow> pool \<Rightarrow> 's udp_proxies \<Rightarrow> ('k \<times> pool \<times> 's udp_proxies \<times> udp_proxy_event option) option" where
  "udp_expire_next uo now k pool up =
     (case udp_table_expire_next uo now k (up_table up) of
        (k, table, None) \<Rightarrow> Some (k, pool, up\<lparr> up_table := table \<rparr>, None)
      | (k, table, Some key) \<Rightarrow>
          udp_drop_queues key pool (up\<lparr> up_table := table \<rparr>) \<bind> (\<lambda>(pool, up). Some (k, pool, up, Some UdpClosed)))"

function udp_expire_due ::
    "('s, 'k) udp_ops \<Rightarrow> nat \<Rightarrow> udp_proxy_event list \<Rightarrow> drive_turn \<Rightarrow> 'k \<Rightarrow> pool \<Rightarrow> 's udp_proxies \<Rightarrow>
     (udp_proxy_event list \<times> drive_turn \<times> 'k \<times> pool \<times> 's udp_proxies) option" where
  "udp_expire_due uo now events t k pool up =
     (case can_start_operation t of
        (t, False) \<Rightarrow> Some (events, t, k, pool, up)
      | (t, True) \<Rightarrow>
          udp_expire_next uo now k pool up \<bind> (\<lambda>(k, pool, up, event).
            case event of
              None \<Rightarrow> Some (events, t, k, pool, up)
            | Some event \<Rightarrow>
               (case udp_emit_or_queue events t event up of
                  (events, t, up, False) \<Rightarrow> Some (events, t, k, pool, up)
                | (events, t, up, True) \<Rightarrow> udp_expire_due uo now events t k pool up)))"
  by pat_completeness auto

termination
  by (relation "measure (\<lambda>(_, _, _, t, _, _, _). db_steps (dt_budget t))")
    (auto simp: pays_def dest!: udp_emit_pays [OF sym] can_start_pays [OF sym])

declare udp_expire_due.simps [simp del]

text \<open>\<open>shutdown\<close>: the queues are cleared, then every flow is removed.\<close>

definition udp_event_bufs :: "udp_proxy_event list \<Rightarrow> byte_buf list" where
  "udp_event_bufs events = List.map_filter (\<lambda>e. case e of UdpBytes _ b _ \<Rightarrow> Some b | _ \<Rightarrow> None) events"

definition udp_shutdown :: "('s, 'k) udp_ops \<Rightarrow> 'k \<Rightarrow> pool \<Rightarrow> 's udp_proxies \<Rightarrow> ('k \<times> pool \<times> 's udp_proxies) option" where
  "udp_shutdown uo k pool up =
     drop_bufs (map ud_bytes (up_sends up)) pool \<bind> drop_bufs (udp_event_bufs (up_pending up)) \<bind> (\<lambda>pool.
       case fold (\<lambda>key (k, table). udp_table_remove uo key k table) (map fst (ft_iter (up_table up))) (k, up_table up) of
         (k, table) \<Rightarrow> Some (k, pool, up\<lparr> up_table := table, up_sends := [], up_pending := [], up_scratch := [] \<rparr>))"

end
