(* ===== verification/UdpSafety.thy ===== *)
theory UdpSafety
  imports UdpFlows "HOL-Library.Multiset"
begin

text \<open>
  What the flows of UDP egress send and hand back, over any sequence of calls and whatever the host
  answers: every datagram goes out at most once, on the flow it was queued for, and every datagram that
  comes in is reported exactly once, on the flow whose socket it came in on.
\<close>

section \<open>The host\<close>

text \<open>
  A socket is the list of answers it will give, with a log of what was sent and received on it.  The
  host is the list of sockets it will create and of answers to registrations, with the sockets that
  were deregistered, under the key of their registration.
\<close>

datatype dgram_send = DgramSent | DgramSendBlocks | DgramSendFails

datatype dgram_recv = DgramIn bytes | DgramRecvBlocks | DgramRecvFails

record dgram_socket =
  ds_peer :: socket_addr
  ds_room :: "dgram_send list"
  ds_in :: "dgram_recv list"
  ds_sent :: "bytes list"
  ds_received :: "bytes list"

definition dgram_send_to :: "bytes \<Rightarrow> dgram_socket \<Rightarrow> dgram_socket \<times> (nat, io_error) result" where
  "dgram_send_to xs s =
     (case ds_room s of
        [] \<Rightarrow> (s, Err WouldBlock)
      | DgramSendBlocks # r \<Rightarrow> (s\<lparr> ds_room := r \<rparr>, Err WouldBlock)
      | DgramSendFails # r \<Rightarrow> (s\<lparr> ds_room := r \<rparr>, Err OtherIo)
      | DgramSent # r \<Rightarrow> (s\<lparr> ds_room := r, ds_sent := ds_sent s @ [xs] \<rparr>, Ok (length xs)))"

definition dgram_recv_from :: "nat \<Rightarrow> dgram_socket \<Rightarrow> dgram_socket \<times> (bytes \<times> unit, io_error) result" where
  "dgram_recv_from cap s =
     (case ds_in s of
        [] \<Rightarrow> (s, Err WouldBlock)
      | DgramRecvBlocks # r \<Rightarrow> (s\<lparr> ds_in := r \<rparr>, Err WouldBlock)
      | DgramRecvFails # r \<Rightarrow> (s\<lparr> ds_in := r \<rparr>, Err OtherIo)
      | DgramIn xs # r \<Rightarrow> (s\<lparr> ds_in := r, ds_received := ds_received s @ [take cap xs] \<rparr>, Ok (take cap xs, ())))"

record udp_host =
  uh_sockets :: "(dgram_send list \<times> dgram_recv list) option list"
  uh_answers :: "bool list"
  uh_closed :: "(udp_proxy_key \<times> dgram_socket) list"

definition host_connect :: "socket_addr \<Rightarrow> udp_host \<Rightarrow> udp_host \<times> (dgram_socket, io_error) result" where
  "host_connect dst k =
     (case uh_sockets k of
        Some (room, arriving) # r \<Rightarrow> (k\<lparr> uh_sockets := r \<rparr>,
          Ok \<lparr> ds_peer = dst, ds_room = room, ds_in = arriving, ds_sent = [], ds_received = [] \<rparr>)
      | _ \<Rightarrow> (k\<lparr> uh_sockets := tl (uh_sockets k) \<rparr>, Err OtherIo))"

definition host_answer :: "udp_host \<Rightarrow> udp_host \<times> (unit, io_error) result" where
  "host_answer k =
     (case uh_answers k of [] \<Rightarrow> (k, Ok ()) | ok # r \<Rightarrow> (k\<lparr> uh_answers := r \<rparr>, if ok then Ok () else Err OtherIo))"

definition host_udp :: "(dgram_socket, udp_host) udp_ops" where
  "host_udp = \<lparr> uo_connect = host_connect, uo_register = (\<lambda>_ _ _. host_answer), uo_reregister = (\<lambda>_ _ _. host_answer),
     uo_deregister = (\<lambda>key s k. k\<lparr> uh_closed := (key, s) # uh_closed k \<rparr>), uo_send = dgram_send_to, uo_recv = dgram_recv_from \<rparr>"

lemma host_udp_simps [simp]:
  "uo_connect host_udp = host_connect" "uo_send host_udp = dgram_send_to" "uo_recv host_udp = dgram_recv_from"
  "uo_register host_udp key interest s = host_answer" "uo_reregister host_udp key interest s = host_answer"
  "uh_closed (uo_deregister host_udp key s k) = (key, s) # uh_closed k"
  by (simp_all add: host_udp_def)

lemma host_answer_closed: "host_answer k = (k', r) \<Longrightarrow> uh_closed k' = uh_closed k"
  by (auto simp: host_answer_def split: list.splits)

lemma host_connect_closed:
  "host_connect dst k = (k', r) \<Longrightarrow> uh_closed k' = uh_closed k \<and> (\<forall>s. r = Ok s \<longrightarrow> ds_peer s = dst \<and> ds_sent s = [] \<and> ds_received s = [])"
  by (auto simp: host_connect_def split: list.splits option.splits prod.splits)

lemma udp_reregister_closed:
  "udp_reregister host_udp key interest s io k = (k', io', r) \<Longrightarrow> uh_closed k' = uh_closed k"
  "udp_watch_write host_udp key s io k = (k', io', r) \<Longrightarrow> uh_closed k' = uh_closed k"
  "udp_unwatch_write host_udp key s io k = (k', io', r) \<Longrightarrow> uh_closed k' = uh_closed k"
  by (auto simp: udp_watch_write_def udp_unwatch_write_def udp_reregister_def split: if_splits prod.splits result.splits
      dest: host_answer_closed)

section \<open>One call on a socket\<close>

lemma dgram_send_exact:
  assumes "send_datagram_ready dgram_send_to t io s xs = (t', io', s', r)"
  shows "ds_peer s' = ds_peer s \<and> ds_received s' = ds_received s \<and>
    ds_sent s' = ds_sent s @ (if r = Ok SendSent then [xs] else [])"
  using assms
  by (auto simp: send_datagram_ready_def send_datagram_unchecked_def dgram_send_to_def
      split: if_splits prod.splits result.splits io_error.splits list.splits dgram_send.splits)

text \<open>A buffer of a pooled class can always be given back.\<close>

definition buf_pooled :: "byte_buf \<Rightarrow> bool" where
  "buf_pooled b \<longleftrightarrow> bb_class b \<noteq> Oversized"

lemma buf_pooled_drop: "buf_pooled b \<Longrightarrow> \<exists>pool'. byte_buf_drop pool b = Some pool'"
  by (cases "bb_class b") (auto simp: buf_pooled_def byte_buf_drop_def byte_recycle_def buckets_recycle_def Let_def)

lemma drop_bufs_total: "list_all buf_pooled bs \<Longrightarrow> \<exists>pool'. drop_bufs bs pool = Some pool'"
proof (induction bs arbitrary: pool)
  case (Cons b bs)
  then show ?case using buf_pooled_drop [of b pool] by fastforce
qed simp

lemma try_byte_pooled:
  "\<exists>pool' r. try_byte_with_capacity pool n = Some (pool', r) \<and> (\<forall>b. r = Ok b \<longrightarrow> buf_pooled b) \<and> pl_limits pool' = pl_limits pool"
  by (cases "class_for_capacity n (pl_limits pool)")
    (auto simp: try_byte_with_capacity_def byte_try_take_def buckets_take_def buckets_recycle_def buf_pooled_def Let_def)

lemma buf_after_read_pooled: "buf_pooled b \<Longrightarrow> buf_pooled (buf_after_read n xs b)"
  by (simp add: buf_pooled_def buf_after_read_def Let_def)

lemma dgram_recv_exact:
  "\<exists>t' io' pool' s' r. recv_datagram_ready dgram_recv_from t io pool s cap = Some (t', io', pool', s', r) \<and>
     ds_peer s' = ds_peer s \<and> ds_sent s' = ds_sent s \<and>
     (case r of
        Ok (DatagramBytes b _) \<Rightarrow> buf_pooled b \<and> ds_received s' = ds_received s @ [buf_data b]
      | _ \<Rightarrow> ds_received s' = ds_received s)"
proof (cases "io_can_read io")
  case False
  then show ?thesis by (simp add: recv_datagram_ready_def)
next
  case True
  obtain t1 ok where t1: "start_whole_item_operation cap t = (t1, ok)" by fastforce
  obtain pool1 r1 where pool1: "try_byte_with_capacity pool cap = Some (pool1, r1)" "\<forall>b. r1 = Ok b \<longrightarrow> buf_pooled b"
    using try_byte_pooled [of pool cap] by blast
  have data: "buf_data (buf_after_read cap (take cap xs) b) = take cap xs" for xs b
    by (simp add: buf_after_read_def buf_truncate_def buf_resize_zeroed_def vec_set_def overwrite_def Let_def min_def)
  show ?thesis
  proof (cases r1)
    case (Ok b)
    then have "buf_pooled (buf_after_read cap xs b)" for xs using pool1(2) by (simp add: buf_after_read_pooled)
    moreover obtain pool2 where "byte_buf_drop pool1 (buf_after_read cap [] b) = Some pool2"
      using buf_pooled_drop [OF calculation] by blast
    ultimately show ?thesis using True t1 pool1 Ok
      by (auto simp: recv_datagram_ready_def recv_datagram_unchecked_def dgram_recv_from_def data
          split: list.split dgram_recv.split)
  next
    case (Err e)
    then show ?thesis using True t1 pool1 by (auto simp: recv_datagram_ready_def recv_datagram_unchecked_def)
  qed
qed

section \<open>The table\<close>

lemma ft_set_mset:
  assumes "ft_get table key = Some u"
  shows "(key, u) \<in> set (ft_iter table)"
    "mset (ft_iter (fst (ft_get_mut table key (\<lambda>_. v)))) + {#(key, u)#} = mset (ft_iter table) + {#(key, v)#}"
proof -
  obtain i where i: "position (ft_holds key) table = Some i" using assms by (auto simp: ft_get_def split: option.splits)
  from position_split [OF this] obtain as x bs where xs: "table = as @ x # bs" "ft_holds key x" "length as = i" by metis
  then obtain w where w: "x = Some (key, w)" by (auto simp: ft_holds_iff)
  then have "u = w" using assms i xs by (auto simp: ft_get_def nth_append)
  then show "(key, u) \<in> set (ft_iter table)"
    "mset (ft_iter (fst (ft_get_mut table key (\<lambda>_. v)))) + {#(key, u)#} = mset (ft_iter table) + {#(key, v)#}"
    using xs i w by (auto simp: ft_get_mut_def ft_iter_append)
qed

lemma ft_remove_mset:
  assumes "ft_remove table key = (table', r)"
  shows "mset (ft_iter table) = mset (ft_iter table') + (case r of None \<Rightarrow> {#} | Some u \<Rightarrow> {#(key, u)#})"
proof (cases "position (ft_holds key) table")
  case None
  then show ?thesis using assms by (auto simp: ft_remove_def)
next
  case (Some i)
  from position_split [OF this] obtain as x bs where xs: "table = as @ x # bs" "ft_holds key x" "length as = i" by metis
  then obtain w where "x = Some (key, w)" by (auto simp: ft_holds_iff)
  then show ?thesis using assms Some xs by (auto simp: ft_remove_def ft_iter_append)
qed

lemma ft_reserve_mset:
  assumes "ft_reserve_vacant table key = Ok reservation"
  shows "\<exists>table'. ft_reservation_insert table reservation u = Some table' \<and> mset (ft_iter table') = mset (ft_iter table) + {#(key, u)#}"
proof -
  obtain i where i: "position Option.is_none table = Some i" "reservation = (i, key)"
    using assms by (auto simp: ft_reserve_vacant_def split: if_splits option.splits)
  from position_split [OF i(1)] obtain as x bs where xs: "table = as @ x # bs" "Option.is_none x" "length as = i" by metis
  then have "x = None" by (simp add: Option.is_none_def)
  then show ?thesis using xs i by (auto simp: ft_reservation_insert_def rd_def wr_def ft_iter_append)
qed

section \<open>Logs\<close>

definition flows :: "udp_host \<Rightarrow> dgram_socket udp_table \<Rightarrow> (udp_proxy_key \<times> dgram_socket) multiset" where
  "flows k table = image_mset (\<lambda>(key, u). (key, us_source u)) (mset (ft_iter table)) + mset (uh_closed k)"

definition flow_log :: "(dgram_socket \<Rightarrow> bytes list) \<Rightarrow> udp_proxy_key \<times> dgram_socket \<Rightarrow> (udp_proxy_key \<times> bytes) multiset" where
  "flow_log f x = image_mset (Pair (fst x)) (mset (f (snd x)))"

definition sent_log :: "udp_host \<Rightarrow> dgram_socket udp_table \<Rightarrow> (udp_proxy_key \<times> bytes) multiset" where
  "sent_log k table = (\<Sum>x\<in>#flows k table. flow_log ds_sent x)"

definition received_log :: "udp_host \<Rightarrow> dgram_socket udp_table \<Rightarrow> (udp_proxy_key \<times> bytes) multiset" where
  "received_log k table = (\<Sum>x\<in>#flows k table. flow_log ds_received x)"

definition peers_ok :: "udp_host \<Rightarrow> dgram_socket udp_table \<Rightarrow> bool" where
  "peers_ok k table \<longleftrightarrow> (\<forall>x\<in>#flows k table. ds_peer (snd x) = host_dst (fst x))"

definition dns_ok :: "(udp_proxy_key \<times> bytes \<times> bool) set \<Rightarrow> dgram_socket udp_table \<Rightarrow> bool" where
  "dns_ok reqs table \<longleftrightarrow> (\<forall>(key, u)\<in>set (ft_iter table). us_is_dns u \<longrightarrow> (\<exists>xs. (key, xs, True) \<in> reqs))"

lemmas log_defs = sent_log_def received_log_def peers_ok_def flow_log_def

text \<open>A step replaces one flow by another, or adds one.\<close>

lemma logs_replace:
  assumes "flows k' table' + {#(key, s)#} = flows k table + {#(key, s')#}"
  shows "sent_log k' table' + flow_log ds_sent (key, s) = sent_log k table + flow_log ds_sent (key, s')"
    "received_log k' table' + flow_log ds_received (key, s) = received_log k table + flow_log ds_received (key, s')"
    "peers_ok k table \<Longrightarrow> ds_peer s' = host_dst key \<Longrightarrow> peers_ok k' table'"
proof -
  from arg_cong [OF assms, of "\<lambda>M. \<Sum>x\<in>#M. flow_log ds_sent x"] arg_cong [OF assms, of "\<lambda>M. \<Sum>x\<in>#M. flow_log ds_received x"]
  show "sent_log k' table' + flow_log ds_sent (key, s) = sent_log k table + flow_log ds_sent (key, s')"
    "received_log k' table' + flow_log ds_received (key, s) = received_log k table + flow_log ds_received (key, s')"
    by (simp_all add: sent_log_def received_log_def add.commute)
  have "x \<in># flows k table \<or> x = (key, s')" if "x \<in># flows k' table'" for x
    using arg_cong [OF assms, of set_mset] that by auto
  then show "peers_ok k table \<Longrightarrow> ds_peer s' = host_dst key \<Longrightarrow> peers_ok k' table'"
    unfolding peers_ok_def by fastforce
qed

lemma flows_set:
  assumes "ft_get table key = Some u" "uh_closed k' = uh_closed k"
  shows "flows k' (fst (ft_get_mut table key (\<lambda>_. v))) + {#(key, us_source u)#} = flows k table + {#(key, us_source v)#}"
  using arg_cong [OF ft_set_mset(2) [OF assms(1), of v], of "image_mset (\<lambda>(key, u). (key, us_source u))"] assms(2)
  by (simp add: flows_def)

lemma flows_remove:
  assumes "udp_table_remove host_udp key k table = (k', table')"
  shows "flows k' table' = flows k table" "set (ft_iter table') \<subseteq> set (ft_iter table)"
proof -
  obtain table1 r where r: "ft_remove table key = (table1, r)" by fastforce
  note mset = ft_remove_mset [OF r]
  show "flows k' table' = flows k table"
    using assms r mset by (auto simp: udp_table_remove_def flows_def split: option.splits)
  show "set (ft_iter table') \<subseteq> set (ft_iter table)"
    using assms r arg_cong [OF mset, of set_mset] by (auto simp: udp_table_remove_def split: option.splits)
qed

lemma dns_ok_set:
  assumes "dns_ok reqs table" "ft_get table key = Some u" "us_is_dns v \<longrightarrow> us_is_dns u \<or> (\<exists>xs. (key, xs, True) \<in> reqs)"
  shows "dns_ok reqs (fst (ft_get_mut table key (\<lambda>_. v)))"
proof -
  have "x \<in> set (ft_iter table) \<or> x = (key, v)" if "x \<in> set (ft_iter (fst (ft_get_mut table key (\<lambda>_. v))))" for x
    using arg_cong [OF ft_set_mset(2) [OF assms(2), of v], of set_mset] that by auto
  then show ?thesis using assms ft_set_mset(1) [OF assms(2)] by (fastforce simp: dns_ok_def)
qed

text \<open>What a send does to the logs: at most the one datagram is added, and it is when the send says so.\<close>

definition sends_once ::
    "udp_proxy_key \<Rightarrow> bytes \<Rightarrow> (drive_datagram_send, udp_error) result \<Rightarrow> udp_host \<Rightarrow> dgram_socket udp_table \<Rightarrow> udp_host \<Rightarrow> dgram_socket udp_table \<Rightarrow> bool"
  where
  "sends_once key xs r k table k' table' \<longleftrightarrow>
     (sent_log k' table' = sent_log k table \<or> sent_log k' table' = sent_log k table + {#(key, xs)#} \<and> r \<notin> Ok ` (UNIV - {SendSent})) \<and>
     received_log k' table' = received_log k table \<and> peers_ok k' table'"

lemma udp_send_existing_exact:
  assumes "udp_send_existing host_udp now timeout key xs is_dns t k u = (t', k', u', r)"
  shows "uh_closed k' = uh_closed k \<and> ds_peer (us_source u') = ds_peer (us_source u) \<and>
    ds_received (us_source u') = ds_received (us_source u) \<and> us_is_dns u' = (us_is_dns u \<or> is_dns) \<and>
    (ds_sent (us_source u') = ds_sent (us_source u) \<or> ds_sent (us_source u') = ds_sent (us_source u) @ [xs] \<and> r \<notin> Ok ` (UNIV - {SendSent}))"
proof -
  obtain k1 io1 r1 where pre: "udp_watch_write host_udp key (us_source u) (us_io u) k = (k1, io1, r1)" by (metis prod_cases3)
  obtain t2 io2 s2 r2 where sent: "send_datagram_ready dgram_send_to t io1 (us_source u) xs = (t2, io2, s2, r2)" by (metis prod_cases4)
  obtain k3 io3 r3 where post: "udp_unwatch_write host_udp key s2 io2 k1 = (k3, io3, r3)" by (metis prod_cases3)
  note closed = udp_reregister_closed(2) [OF pre] udp_reregister_closed(3) [OF post]
  show ?thesis
    using assms dgram_send_exact [OF sent] closed unfolding udp_send_existing_def Let_def
    by (cases r1; cases r2) (auto simp: pre sent post split: drive_datagram_send.split_asm result.split_asm)
qed

lemma udp_send_new_exact:
  assumes "udp_send_new host_udp now timeout key xs is_dns t k = (t', k', r)"
  shows "(case r of
      Err e \<Rightarrow> uh_closed k' = uh_closed k \<or>
        (\<exists>s. uh_closed k' = (key, s) # uh_closed k \<and> ds_peer s = host_dst key \<and> ds_received s = [] \<and> (ds_sent s = [] \<or> ds_sent s = [xs]))
    | Ok (u, x) \<Rightarrow> uh_closed k' = uh_closed k \<and> ds_peer (us_source u) = host_dst key \<and> ds_received (us_source u) = [] \<and>
        us_is_dns u = is_dns \<and> ds_sent (us_source u) = (if x = SendSent then [xs] else []))"
  using assms
  by (auto simp: udp_send_new_def dest!: host_connect_closed host_answer_closed dgram_send_exact udp_reregister_closed(1)
      split: prod.split_asm result.split_asm if_split_asm)

lemma peers_ok_get:
  assumes "peers_ok k table" "ft_get table key = Some u"
  shows "ds_peer (us_source u) = host_dst key"
proof -
  have "(key, us_source u) \<in># flows k table" using ft_set_mset(1) [OF assms(2)] by (force simp: flows_def)
  then show ?thesis using assms(1) by (auto simp: peers_ok_def)
qed

lemma udp_table_send_exact:
  assumes "peers_ok k table" "dns_ok reqs table" "(key, xs, is_dns) \<in> reqs"
  shows "\<exists>t' k' table' r. udp_table_send host_udp now timeout key xs is_dns t k table = Some (t', k', table', r) \<and>
    sends_once key xs r k table k' table' \<and> dns_ok reqs table'"
proof (cases "ft_get table key")
  case (Some u)
  obtain t1 k1 u1 r where e: "udp_send_existing host_udp now timeout key xs is_dns t k u = (t1, k1, u1, r)" by (metis prod_cases4)
  note exact = udp_send_existing_exact [OF e]
  have peer: "ds_peer (us_source u) = host_dst key"
    by (rule peers_ok_get [OF assms(1) Some])
  note logs = logs_replace [OF flows_set [OF Some, of k1 k u1]]
  have "sends_once key xs r k table k1 (fst (ft_get_mut table key (\<lambda>_. u1)))"
    using logs exact assms(1) peer by (auto simp: sends_once_def flow_log_def)
  moreover have "dns_ok reqs (fst (ft_get_mut table key (\<lambda>_. u1)))"
    by (rule dns_ok_set [OF assms(2) Some]) (use exact assms(3) in auto)
  ultimately show ?thesis using Some e by (simp add: udp_table_send_def)
next
  case None
  have same: "sends_once key xs r k table k table" for r using assms(1) by (simp add: sends_once_def)
  obtain t1 ok where t1: "can_prepare_whole_item_operation (length xs) t = (t1, ok)" by fastforce
  show ?thesis
  proof (cases "ok \<and> is_ok (ft_reserve_vacant table key)")
    case False
    then show ?thesis using None t1 same assms(2)
      by (auto simp: udp_table_send_def split: bool.split result.split fixed_table_reserve_error.split)
  next
    case True
    then obtain reservation where res: "ft_reserve_vacant table key = Ok reservation" by (auto simp: is_ok_iff)
    obtain t2 k2 r where new: "udp_send_new host_udp now timeout key xs is_dns t1 k = (t2, k2, r)" by (metis prod_cases3)
    note exact = udp_send_new_exact [OF new]
    show ?thesis
    proof (cases r)
      case (Err e)
      have "sends_once key xs (Err e) k table k2 table"
        using exact Err assms(1) by (auto simp: sends_once_def log_defs flows_def)
      then show ?thesis using None t1 True res new Err assms(2) by (simp add: udp_table_send_def)
    next
      case (Ok ux)
      obtain u x where ux: "ux = (u, x)" by fastforce
      obtain table2 where table2: "ft_reservation_insert table reservation u = Some table2"
          "mset (ft_iter table2) = mset (ft_iter table) + {#(key, u)#}"
        using ft_reserve_mset [OF res] by blast
      have "sends_once key xs (Ok x) k table k2 table2"
        using exact Ok ux assms(1) table2(2) by (auto simp: sends_once_def log_defs flows_def)
      moreover have "dns_ok reqs table2"
        using assms(2,3) exact Ok ux arg_cong [OF table2(2), of set_mset] by (auto simp: dns_ok_def)
      ultimately show ?thesis using None t1 True res new Ok ux table2(1) by (simp add: udp_table_send_def)
    qed
  qed
qed

section \<open>The invariant\<close>

type_synonym udp_request = "udp_proxy_key \<times> bytes \<times> bool"

definition bytes_events :: "udp_proxy_event list \<Rightarrow> (udp_proxy_key \<times> bytes) multiset" where
  "bytes_events es = mset (List.map_filter (\<lambda>e. case e of UdpBytes key b _ \<Rightarrow> Some (key, buf_data b) | _ \<Rightarrow> None) es)"

definition event_ok :: "udp_request set \<Rightarrow> udp_proxy_event \<Rightarrow> bool" where
  "event_ok reqs e \<longleftrightarrow> (case e of UdpBytes key b is_dns \<Rightarrow> buf_pooled b \<and> (is_dns \<longrightarrow> (\<exists>xs. (key, xs, True) \<in> reqs)) | _ \<Rightarrow> True)"

definition send_request :: "udp_send \<Rightarrow> udp_request" where
  "send_request s = (ud_proxy s, buf_data (ud_bytes s), ud_is_dns s)"

definition request_log :: "udp_request list \<Rightarrow> (udp_proxy_key \<times> bytes) multiset" where
  "request_log rs = image_mset (\<lambda>(key, xs, _). (key, xs)) (mset rs)"

definition udp_inv :: "udp_request list \<Rightarrow> udp_proxy_event list \<Rightarrow> udp_host \<Rightarrow> dgram_socket udp_proxies \<Rightarrow> bool" where
  "udp_inv reqs events k up \<longleftrightarrow>
     peers_ok k (up_table up) \<and> dns_ok (set reqs) (up_table up) \<and>
     sent_log k (up_table up) + request_log (map send_request (up_sends up)) \<subseteq># request_log reqs \<and>
     received_log k (up_table up) = bytes_events events + bytes_events (up_pending up) \<and>
     (\<forall>e\<in>set events \<union> set (up_pending up). event_ok (set reqs) e) \<and>
     (\<forall>s\<in>set (up_sends up). send_request s \<in> set reqs \<and> buf_pooled (ud_bytes s))"

lemma bytes_events_simps [simp]:
  "bytes_events [] = {#}" "bytes_events (UdpBytes key b d # es) = add_mset (key, buf_data b) (bytes_events es)"
  "bytes_events (UdpFailed e # es) = bytes_events es" "bytes_events (UdpClosed # es) = bytes_events es"
  "bytes_events (UdpDnsResolved h a ttl # es) = bytes_events es" "bytes_events (es @ fs) = bytes_events es + bytes_events fs"
  by (simp_all add: bytes_events_def List.map_filter_def)

lemma request_log_simps [simp]:
  "request_log [] = {#}" "request_log ((key, xs, d) # rs) = add_mset (key, xs) (request_log rs)"
  "request_log (rs @ ss) = request_log rs + request_log ss"
  by (simp_all add: request_log_def)

lemma send_request_log [simp]: "request_log [send_request s] = {#(ud_proxy s, buf_data (ud_bytes s))#}"
    "request_log (send_request s # rs) = add_mset (ud_proxy s, buf_data (ud_bytes s)) (request_log rs)"
  by (simp_all add: send_request_def)

lemma bytes_events_Cons: "bytes_events (e # es) = bytes_events [e] + bytes_events es"
  by (cases e) simp_all

text \<open>An event goes to the list or in front of the queue, and nowhere else.\<close>

lemma udp_emit_inv:
  assumes "udp_inv reqs events k (up\<lparr> up_pending := e # up_pending up \<rparr>)"
    and "udp_emit_or_queue events t e up = (events', t', up', ok)"
  shows "udp_inv reqs events' k up'"
  using assms bytes_events_Cons [of e "up_pending up"]
  by (auto simp: udp_emit_or_queue_def push_event_def udp_inv_def add.assoc split: prod.split_asm if_split_asm)

lemma udp_inv_event:
  "udp_inv reqs events k (up\<lparr> up_pending := UdpFailed e # up_pending up \<rparr>) \<longleftrightarrow> udp_inv reqs events k up"
  "udp_inv reqs events k (up\<lparr> up_pending := UdpClosed # up_pending up \<rparr>) \<longleftrightarrow> udp_inv reqs events k up"
  by (simp_all add: udp_inv_def event_ok_def)

lemma udp_drop_queues_inv:
  assumes "udp_inv reqs events k up"
  shows "\<exists>pool' up'. udp_drop_queues key pool up = Some (pool', up') \<and> udp_inv reqs events k up'"
proof -
  have "list_all buf_pooled (map ud_bytes (filter (\<lambda>s. ud_proxy s = key) (up_sends up)))"
    using assms by (auto simp: udp_inv_def list_all_iff)
  then obtain pool' where "drop_bufs (map ud_bytes (filter (\<lambda>s. ud_proxy s = key) (up_sends up))) pool = Some pool'"
    using drop_bufs_total by blast
  moreover have "request_log (map send_request (filter p xs)) \<subseteq># request_log (map send_request xs)" for p xs
    by (simp add: request_log_def image_mset_subseteq_mono multiset_filter_subset)
  ultimately show ?thesis
    using assms by (auto simp: udp_drop_queues_def udp_inv_def intro: subset_mset.order_trans [OF subset_mset.add_left_mono])
qed

lemma udp_table_remove_inv:
  assumes "udp_table_remove host_udp key k (up_table up) = (k1, table)" "udp_inv reqs events k up"
  shows "udp_inv reqs events k1 (up\<lparr> up_table := table \<rparr>)"
  using assms(2) flows_remove [OF assms(1)] by (auto simp: udp_inv_def log_defs dns_ok_def)

lemma udp_remove_proxy_inv:
  assumes "udp_inv reqs events k up"
  shows "\<exists>k' pool' up'. udp_remove_proxy host_udp key k pool up = Some (k', pool', up') \<and> udp_inv reqs events k' up'"
proof -
  obtain k1 table where rm: "udp_table_remove host_udp key k (up_table up) = (k1, table)" by fastforce
  have "udp_inv reqs events k1 (up\<lparr> up_table := table \<rparr>)" by (rule udp_table_remove_inv [OF rm assms])
  from udp_drop_queues_inv [OF this, of key pool] show ?thesis using rm by (auto simp: udp_remove_proxy_def)
qed

section \<open>Every operation keeps it\<close>

lemma udp_drain_sends_inv:
  assumes "udp_inv reqs events k up"
  shows "\<exists>events' t' k' pool' up' blocked'. udp_drain_sends host_udp now n events t k pool up blocked =
    Some (events', t', k', pool', up', blocked') \<and> udp_inv reqs events' k' up'"
  using assms
proof (induction n arbitrary: events t k pool up blocked)
  case (Suc n)
  obtain t1 ok where t1: "can_start_operation t = (t1, ok)" by fastforce
  show ?case
  proof (cases "ok \<and> up_sends up \<noteq> []")
    case False
    then show ?thesis using Suc.prems t1 by (cases ok) (auto split: list.split)
  next
    case True
    then obtain send sends where sends: "up_sends up = send # sends" by (cases "up_sends up") auto
    let ?xs = "buf_data (ud_bytes send)"
    have inv: "peers_ok k (up_table up)" "dns_ok (set reqs) (up_table up)" "(ud_proxy send, ?xs, ud_is_dns send) \<in> set reqs"
        "buf_pooled (ud_bytes send)"
      using Suc.prems sends by (auto simp: udp_inv_def send_request_def)
    obtain t2 k2 table r where sent: "udp_table_send host_udp now (up_timeout up) (ud_proxy send) ?xs (ud_is_dns send) t1 k (up_table up) =
        Some (t2, k2, table, r)" "sends_once (ud_proxy send) ?xs r k (up_table up) k2 table" "dns_ok (set reqs) table"
      using udp_table_send_exact [OF inv(1-3)] by blast
    obtain pool2 where pool2: "byte_buf_drop pool (ud_bytes send) = Some pool2" using buf_pooled_drop [OF inv(4)] by blast
    let ?up = "up\<lparr> up_table := table, up_sends := sends \<rparr>"
    have gone: "udp_inv reqs events k2 ?up"
      using Suc.prems sent(2,3) sends inv(4)
      by (auto simp: udp_inv_def sends_once_def dest: mset_subset_eq_insertD intro: subset_mset.less_imp_le)
    have kept: "udp_inv reqs events k2 (?up\<lparr> up_sends := sends @ [send] \<rparr>)" "udp_inv reqs events k2 (?up\<lparr> up_sends := send # sends \<rparr>)"
      if "r = Ok x" "x \<noteq> SendSent" for x
      using Suc.prems sent(2,3) sends that by (auto simp: udp_inv_def sends_once_def)
    show ?thesis
    proof (cases r)
      case (Ok x)
      then show ?thesis using t1 True sends sent(1) pool2 Suc.IH [OF gone] Suc.IH [OF kept(1)] kept(2)
        by (cases x) auto
    next
      case (Err e)
      obtain k3 pool3 up3 where rm: "udp_remove_proxy host_udp (ud_proxy send) k2 pool ?up = Some (k3, pool3, up3)"
          "udp_inv reqs events k3 up3"
        using udp_remove_proxy_inv [OF gone] by blast
      obtain events4 t4 up4 ok4 where em: "udp_emit_or_queue events t2 (UdpFailed e) up3 = (events4, t4, up4, ok4)" by (metis prod_cases4)
      have "udp_inv reqs events4 k3 up4" by (rule udp_emit_inv [OF _ em]) (simp add: udp_inv_event rm(2))
      moreover obtain pool4 where "byte_buf_drop pool3 (ud_bytes send) = Some pool4" using buf_pooled_drop [OF inv(4)] by blast
      ultimately show ?thesis using t1 True sends sent(1) Err rm(1) em Suc.IH [of events4 k3 up4] by auto
    qed
  qed
qed auto

lemma udp_dns_event_total: "\<exists>d. udp_dns_event is_dns xs = Some d \<and> (\<forall>e. d = Some e \<longrightarrow> (\<exists>h a ttl. e = UdpDnsResolved h a ttl))"
proof -
  obtain q where "question_of xs = Some q" using question_of_no_panic by (rule no_panic_E)
  moreover obtain r where "address_records xs = Some r" using address_records_no_panic by (rule no_panic_E)
  ultimately show ?thesis by (cases q) (simp_all add: udp_dns_event_def)
qed

lemma udp_push_events_inv:
  assumes "udp_inv reqs events k (up\<lparr> up_pending := e # up_pending up \<rparr>)" "udp_push_events events t e d up = (events', t', up', ok)"
    and "\<forall>x. d = Some x \<longrightarrow> (\<exists>h a ttl. x = UdpDnsResolved h a ttl)"
  shows "udp_inv reqs events' k up'"
proof (cases d)
  case None
  then have "udp_emit_or_queue events t e up = (events', t', up', ok)"
    using assms(2) by (auto simp: udp_push_events_def udp_emit_or_queue_def split: prod.splits result.splits)
  then show ?thesis by (rule udp_emit_inv [OF assms(1)])
next
  case (Some x)
  then obtain h a ttl where x: "x = UdpDnsResolved h a ttl" using assms(3) by blast
  obtain t1 events1 r where push: "push_event t events e = (t1, events1, r)" by (metis prod_cases3)
  show ?thesis
  proof (cases r)
    case (Ok y)
    then have "udp_inv reqs events1 k up"
      using push assms(1) bytes_events_Cons [of e "up_pending up"]
      by (auto simp: push_event_def udp_inv_def add.assoc split: prod.split_asm if_split_asm)
    then have "udp_inv reqs events1 k (up\<lparr> up_pending := x # up_pending up \<rparr>)" by (simp add: udp_inv_def event_ok_def x)
    then show ?thesis using assms(2) Ok push Some by (auto simp: udp_push_events_def intro: udp_emit_inv)
  next
    case (Err y)
    then have "y = e" "events1 = events" using push by (auto simp: push_event_def split: prod.split_asm if_split_asm)
    then show ?thesis using assms(1,2) Err push Some bytes_events_Cons [of e "up_pending up"] bytes_events_Cons [of e "x # up_pending up"]
      by (auto simp: udp_push_events_def udp_inv_def event_ok_def x)
  qed
qed

lemma udp_read_flow_inv:
  assumes "udp_inv reqs events k up"
  shows "\<exists>events' t' k' pool' up' r. udp_read_flow host_udp now key events t k pool up = Some (events', t', k', pool', up', r) \<and>
    udp_inv reqs events' k' up'"
  using assms
proof (induction "db_steps (dt_budget t)" arbitrary: events t k pool up rule: less_induct)
  case less
  note unf = udp_read_flow.simps [of host_udp now key events t k pool up]
  show ?case
  proof (cases "ft_get (up_table up) key")
    case None
    then show ?thesis using less.prems by (simp add: unf)
  next
    case (Some u)
    let ?cap = "udp_datagram_buffer_capacity (pl_limits pool)"
    obtain t1 io pool1 s x where rx: "recv_datagram_ready dgram_recv_from t (us_io u) pool (us_source u) ?cap = Some (t1, io, pool1, s, x)"
        "ds_peer s = ds_peer (us_source u)" "ds_sent s = ds_sent (us_source u)"
        "(case x of Ok (DatagramBytes b _) \<Rightarrow> buf_pooled b \<and> ds_received s = ds_received (us_source u) @ [buf_data b]
          | _ \<Rightarrow> ds_received s = ds_received (us_source u))"
      using dgram_recv_exact [of t "us_io u" pool "us_source u" ?cap] by blast
    let ?put = "\<lambda>v. up\<lparr> up_table := fst (ft_get_mut (up_table up) key (\<lambda>_. v)) \<rparr>"
    have peers: "peers_ok k (up_table up)" and dns: "dns_ok (set reqs) (up_table up)" using less.prems by (auto simp: udp_inv_def)
    note peer = peers_ok_get [OF peers Some]
    have table: "peers_ok k (up_table (?put v))" "dns_ok (set reqs) (up_table (?put v))"
        "sent_log k (up_table (?put v)) = sent_log k (up_table up)"
        "received_log k (up_table (?put v)) + flow_log ds_received (key, us_source u) = received_log k (up_table up) + flow_log ds_received (key, s)"
      if "us_source v = s" "us_is_dns v = us_is_dns u" for v
      using logs_replace [OF flows_set [OF Some refl, of k v]] dns_ok_set [OF dns Some, of v] peers peer that rx(2,3)
      by (simp_all add: flow_log_def)
    have quiet: "udp_inv reqs events k (?put v)"
      if "us_source v = s" "us_is_dns v = us_is_dns u" "ds_received s = ds_received (us_source u)" for v
      using table [OF that(1,2)] less.prems that(3) by (simp add: udp_inv_def flow_log_def)
    show ?thesis
    proof (cases x)
      case (Err e)
      let ?v = "u\<lparr> us_source := s, us_io := io \<rparr>"
      have "udp_inv reqs events k (?put ?v)" using rx(4) Err by (intro quiet) simp_all
      from udp_remove_proxy_inv [OF this, of key pool1] obtain k2 pool2 up2
        where rm: "udp_remove_proxy host_udp key k pool1 (?put ?v) = Some (k2, pool2, up2)" "udp_inv reqs events k2 up2" by blast
      obtain events3 t3 up3 ok where em: "udp_emit_or_queue events t1 (UdpFailed (UdpIo e)) up2 = (events3, t3, up3, ok)" by (metis prod_cases4)
      have "udp_inv reqs events3 k2 up3" by (rule udp_emit_inv [OF _ em]) (simp add: udp_inv_event rm(2))
      then show ?thesis using Some rx(1) Err rm(1) em by (simp add: unf)
    next
      case (Ok y)
      show ?thesis
      proof (cases y)
        case (DatagramBytes b p)
        let ?v = "u\<lparr> us_source := s, us_io := io, us_expires := now + up_timeout up \<rparr>"
        let ?e = "UdpBytes key b (us_is_dns u)"
        have b: "buf_pooled b" "ds_received s = ds_received (us_source u) @ [buf_data b]" using rx(4) Ok DatagramBytes by auto
        obtain d where d: "udp_dns_event (us_is_dns u) (buf_data b) = Some d" "\<forall>e. d = Some e \<longrightarrow> (\<exists>h a ttl. e = UdpDnsResolved h a ttl)"
          using udp_dns_event_total by blast
        have "received_log k (up_table (?put ?v)) = received_log k (up_table up) + {#(key, buf_data b)#}"
          using table(4) [of ?v] b(2) by (simp add: flow_log_def)
        moreover have "event_ok (set reqs) ?e"
          using b(1) dns ft_set_mset(1) [OF Some] by (auto simp: event_ok_def dns_ok_def)
        ultimately have inv: "udp_inv reqs events k ((?put ?v)\<lparr> up_pending := ?e # up_pending (?put ?v) \<rparr>)"
          using table(1-3) [of ?v] less.prems by (simp add: udp_inv_def)
        obtain events2 t2 up2 ok where pushed: "udp_push_events events t1 ?e d (?put ?v) = (events2, t2, up2, ok)" by (metis prod_cases4)
        have inv2: "udp_inv reqs events2 k up2" by (rule udp_push_events_inv [OF inv pushed d(2)])
        obtain t3 ok3 where t3: "can_start_operation t2 = (t3, ok3)" by fastforce
        have "db_steps (dt_budget t3) < db_steps (dt_budget t)"
          using recv_datagram_pays [OF rx(1)] udp_push_events_pays [OF pushed] can_start_pays [OF t3] Ok DatagramBytes by (auto simp: pays_def)
        from less.hyps [OF this inv2, of pool1] show ?thesis
          using Some rx(1) Ok DatagramBytes d(1) pushed t3 inv2 by (cases ok; cases ok3) (auto simp: unf)
      qed (use Some rx Ok quiet [of "u\<lparr> us_source := s, us_io := io \<rparr>"] in \<open>auto simp: unf\<close>)
    qed
  qed
qed

lemma udp_drain_scratch_inv:
  assumes "udp_inv reqs events k up"
  shows "\<exists>events' t' k' pool' up'. udp_drain_scratch host_udp now events t k pool up = Some (events', t', k', pool', up') \<and>
    udp_inv reqs events' k' up'"
  using assms
proof (induction "length (up_scratch up)" arbitrary: events t k pool up rule: less_induct)
  case less
  note unf = udp_drain_scratch.simps [of host_udp now events t k pool up]
  show ?case
  proof (cases "up_scratch up = []")
    case True
    then show ?thesis using less.prems by (simp add: unf)
  next
    case False
    let ?up = "up\<lparr> up_scratch := butlast (up_scratch up) \<rparr>"
    have inv: "udp_inv reqs events k ?up" using less.prems by (simp add: udp_inv_def)
    obtain t1 ok where t1: "can_start_operation t = (t1, ok)" by fastforce
    obtain events2 t2 k2 pool2 up2 r where rd: "udp_read_flow host_udp now (last (up_scratch up)) events t1 k pool ?up =
        Some (events2, t2, k2, pool2, up2, r)" "udp_inv reqs events2 k2 up2"
      using udp_read_flow_inv [OF inv] by blast
    have "length (up_scratch up2) < length (up_scratch up)" 
      using conjunct2 [OF udp_read_flow_pays [OF rd(1)]] False by (cases "up_scratch up" rule: rev_cases) auto
    from less.hyps [OF this rd(2), of t2 pool2] show ?thesis using False t1 rd inv by (cases ok) (auto simp: unf)
  qed
qed

lemma udp_drive_inv:
  assumes "udp_inv reqs events k up"
  shows "\<exists>events' t' k' pool' up'. udp_drive host_udp now events t k pool up = Some (events', t', k', pool', up') \<and>
    udp_inv reqs events' k' up'"
  using assms
proof (induction "db_steps (dt_budget t)" arbitrary: events t k pool up rule: less_induct)
  case less
  note unf = udp_drive.simps [of host_udp now events t k pool up]
  obtain t1 ok where t1: "can_start_operation t = (t1, ok)" by fastforce
  show ?case
  proof (cases "\<not> ok \<or> up_pending up = [] \<and> up_sends up = [] \<and> \<not> udp_has_readable (up_table up)")
    case True
    then show ?thesis using less.prems t1 by (cases ok) (auto simp: unf)
  next
    case False
    show ?thesis
    proof (cases "up_pending up")
      case (Cons e pending)
      obtain events2 t2 up2 ok2 where em: "udp_emit_or_queue events t1 e (up\<lparr> up_pending := pending \<rparr>) = (events2, t2, up2, ok2)"
        by (metis prod_cases4)
      have "udp_inv reqs events k ((up\<lparr> up_pending := pending \<rparr>)\<lparr> up_pending := e # up_pending (up\<lparr> up_pending := pending \<rparr>) \<rparr>)"
        using less.prems Cons by (simp add: udp_inv_def)
      then have inv: "udp_inv reqs events2 k up2" using em by (rule udp_emit_inv)
      show ?thesis
      proof (cases ok2)
        case True
        then have "db_steps (dt_budget t2) < db_steps (dt_budget t)"
          using udp_emit_pays [OF em] can_start_pays [OF t1] by (auto simp: pays_def)
        from less.hyps [OF this inv, of pool] show ?thesis using False t1 Cons em True by (auto simp: unf)
      qed (use False t1 Cons em inv in \<open>auto simp: unf\<close>)
    next
      case Nil
      obtain events2 t2 k2 pool2 up2 b where s: "udp_drain_sends host_udp now (length (up_sends up)) events t1 k pool up False =
          Some (events2, t2, k2, pool2, up2, b)" "udp_inv reqs events2 k2 up2"
        using udp_drain_sends_inv [OF less.prems] by blast
      have "udp_inv reqs events2 k2 (up2\<lparr> up_scratch := udp_readable_keys (up_table up2) \<rparr>)" using s(2) by (simp add: udp_inv_def)
      from udp_drain_scratch_inv [OF this] obtain events3 t3 k3 pool3 up3
        where r: "udp_drain_ready_reads host_udp now events2 t2 k2 pool2 up2 = Some (events3, t3, k3, pool3, up3)" "udp_inv reqs events3 k3 up3"
        unfolding udp_drain_ready_reads_def by blast
      show ?thesis
      proof (cases "rp_progress (dt_report t3) = rp_progress (dt_report t2)")
        case True
        then show ?thesis using False t1 Nil s r by (auto simp: unf)
      next
        case progress: False
        then have "db_steps (dt_budget t3) < db_steps (dt_budget t)"
          using can_start_pays [OF t1] udp_drain_sends_pays [OF s(1)] udp_drain_reads_pays [OF r(1)] by (auto simp: pays_def)
        from less.hyps [OF this r(2), of pool3] show ?thesis using False t1 Nil s(1) r(1) progress by (auto simp: unf)
      qed
    qed
  qed
qed

lemma udp_expire_due_inv:
  assumes "udp_inv reqs events k up"
  shows "\<exists>events' t' k' pool' up'. udp_expire_due host_udp now events t k pool up = Some (events', t', k', pool', up') \<and>
    udp_inv reqs events' k' up'"
  using assms
proof (induction "db_steps (dt_budget t)" arbitrary: events t k pool up rule: less_induct)
  case less
  note unf = udp_expire_due.simps [of host_udp now events t k pool up]
  obtain t1 ok where t1: "can_start_operation t = (t1, ok)" by fastforce
  obtain k2 table key where ex: "udp_table_expire_next host_udp now k (up_table up) = (k2, table, key)" by (metis prod_cases3)
  have inv: "udp_inv reqs events k2 (up\<lparr> up_table := table \<rparr>)"
    using less.prems ex by (auto simp: udp_table_expire_next_def split: option.split_asm prod.split_asm intro: udp_table_remove_inv)
  obtain pool3 up3 where q: "udp_drop_queues (the key) pool (up\<lparr> up_table := table \<rparr>) = Some (pool3, up3)" "udp_inv reqs events k2 up3"
    using udp_drop_queues_inv [OF inv] by blast
  obtain events4 t4 up4 ok4 where em: "udp_emit_or_queue events t1 UdpClosed up3 = (events4, t4, up4, ok4)" by (metis prod_cases4)
  have inv4: "udp_inv reqs events4 k2 up4" by (rule udp_emit_inv [OF _ em]) (simp add: udp_inv_event q(2))
  show ?case
  proof (cases "ok \<and> key \<noteq> None \<and> ok4")
    case True
    then have "db_steps (dt_budget t4) < db_steps (dt_budget t)"
      using udp_emit_pays [OF em] can_start_pays [OF t1] by (auto simp: pays_def)
    from less.hyps [OF this inv4, of pool3] show ?thesis using True t1 ex q(1) em by (auto simp: unf udp_expire_next_def)
  next
    case False
    then show ?thesis using t1 ex q(1) em inv inv4 less.prems
      by (cases ok; cases key; cases ok4) (auto simp: unf udp_expire_next_def)
  qed
qed

section \<open>Any sequence of calls\<close>

datatype udp_call =
  UdpQueue udp_proxy_key byte_buf bool
| UdpTurn nat drive_turn "reactor_ready list"
| UdpExpire nat drive_turn

fun udp_step :: "udp_call \<Rightarrow> udp_proxy_event list \<times> udp_host \<times> pool \<times> dgram_socket udp_proxies \<Rightarrow>
    (udp_proxy_event list \<times> udp_host \<times> pool \<times> dgram_socket udp_proxies) option" where
  "udp_step (UdpQueue key b is_dns) (events, k, pool, up) = Some (events, k, pool, udp_enqueue key b is_dns up)"
| "udp_step (UdpTurn now t readiness) (events, k, pool, up) =
     udp_drive_ready host_udp now readiness events t k pool up \<bind> (\<lambda>(events, t, k, pool, up). Some (events, k, pool, up))"
| "udp_step (UdpExpire now t) (events, k, pool, up) =
     udp_expire_due host_udp now events t k pool up \<bind> (\<lambda>(events, t, k, pool, up). Some (events, k, pool, up))"

fun udp_run where
  "udp_run [] st = Some st"
| "udp_run (c # cs) st = udp_step c st \<bind> udp_run cs"

definition udp_requests :: "udp_call list \<Rightarrow> udp_request list" where
  "udp_requests cs = List.map_filter (\<lambda>c. case c of UdpQueue key b is_dns \<Rightarrow> Some (key, buf_data b, is_dns) | _ \<Rightarrow> None) cs"

definition queued_pooled :: "udp_call list \<Rightarrow> bool" where
  "queued_pooled cs \<longleftrightarrow> list_all (\<lambda>c. case c of UdpQueue _ b _ \<Rightarrow> buf_pooled b | _ \<Rightarrow> True) cs"

lemma udp_latch_inv:
  assumes "udp_inv reqs events k up"
  shows "udp_inv reqs events k (udp_latch_ready readiness up)"
  using assms
proof (induction readiness arbitrary: up)
  case (Cons ready readiness)
  have "udp_inv reqs events k (up\<lparr> up_table := udp_mark_ready key r w (up_table up) \<rparr>)" for key r w
  proof (cases "ft_get (up_table up) key")
    case None
    then have "udp_mark_ready key r w (up_table up) = up_table up"
      by (simp add: udp_mark_ready_def ft_get_mut_def ft_absent [symmetric])
    then show ?thesis using Cons.prems by (simp add: udp_inv_def)
  next
    case (Some u)
    let ?v = "u\<lparr> us_io := io_mark_reactor_ready r w (us_io u) \<rparr>"
    have same: "udp_mark_ready key r w (up_table up) = fst (ft_get_mut (up_table up) key (\<lambda>_. ?v))"
      using Some by (auto simp: udp_mark_ready_def ft_get_mut_def ft_get_def map_option_case split: option.splits)
    have peers: "peers_ok k (up_table up)" and dns: "dns_ok (set reqs) (up_table up)" using Cons.prems by (auto simp: udp_inv_def)
    show ?thesis
      using Cons.prems logs_replace [OF flows_set [OF Some refl, of k ?v]] dns_ok_set [OF dns Some, of ?v] peers peers_ok_get [OF peers Some]
      by (simp add: udp_inv_def same)
  qed
  then show ?case using Cons.IH by (auto simp: udp_latch_ready_def Cons.prems split: reactor_ready.split reactor_item_id.split)
qed (simp add: udp_latch_ready_def)

lemma requests_mono:
  "A \<subseteq> B \<Longrightarrow> event_ok A e \<Longrightarrow> event_ok B e" "A \<subseteq> B \<Longrightarrow> dns_ok A table \<Longrightarrow> dns_ok B table"
proof -
  show "A \<subseteq> B \<Longrightarrow> event_ok A e \<Longrightarrow> event_ok B e" by (cases e) (auto simp: event_ok_def)
  show "A \<subseteq> B \<Longrightarrow> dns_ok A table \<Longrightarrow> dns_ok B table" unfolding dns_ok_def by fastforce
qed

lemma udp_inv_more:
  assumes "udp_inv reqs events k up" "buf_pooled b"
  shows "udp_inv (reqs @ [(key, buf_data b, is_dns)]) events k (udp_enqueue key b is_dns up)"
proof -
  have "set reqs \<subseteq> set (reqs @ [(key, buf_data b, is_dns)])" by auto
  note mono = requests_mono [OF this]
  show ?thesis using assms mono by (auto simp: udp_inv_def udp_enqueue_def send_request_def)
qed

lemma udp_run_inv:
  assumes "udp_inv reqs events k up" "queued_pooled calls"
  shows "\<exists>events' k' pool' up'. udp_run calls (events, k, pool, up) = Some (events', k', pool', up') \<and>
    udp_inv (reqs @ udp_requests calls) events' k' up'"
  using assms
proof (induction calls arbitrary: reqs events k pool up)
  case Nil
  then show ?case by (simp add: udp_requests_def List.map_filter_def)
next
  case (Cons c cs)
  have rest: "queued_pooled cs" using Cons.prems(2) by (simp add: queued_pooled_def)
  show ?case
  proof (cases c)
    case (UdpQueue key b d)
    then have "udp_inv (reqs @ [(key, buf_data b, d)]) events k (udp_enqueue key b d up)"
      using Cons.prems by (intro udp_inv_more) (simp_all add: queued_pooled_def)
    from Cons.IH [OF this rest, of pool] show ?thesis using UdpQueue by (simp add: udp_requests_def List.map_filter_def)
  next
    case (UdpTurn now t readiness)
    obtain events2 t2 k2 pool2 up2 where d: "udp_drive host_udp now events t k pool (udp_latch_ready readiness up) = Some (events2, t2, k2, pool2, up2)"
        "udp_inv reqs events2 k2 up2"
      using udp_drive_inv [OF udp_latch_inv [OF Cons.prems(1)]] by blast
    from Cons.IH [OF d(2) rest, of pool2] show ?thesis using UdpTurn d(1) by (simp add: udp_drive_ready_def udp_requests_def List.map_filter_def)
  next
    case (UdpExpire now t)
    obtain events2 t2 k2 pool2 up2 where d: "udp_expire_due host_udp now events t k pool up = Some (events2, t2, k2, pool2, up2)"
        "udp_inv reqs events2 k2 up2"
      using udp_expire_due_inv [OF Cons.prems(1)] by blast
    from Cons.IH [OF d(2) rest, of pool2] show ?thesis using UdpExpire d(1) by (simp add: udp_requests_def List.map_filter_def)
  qed
qed

text \<open>
  Claim C10.  UDP egress over any sequence of queued datagrams, turns and expiries, with any readiness,
  budget, clock and pool, and whatever the host answers: no call panics and every loop ends.  Each
  socket is connected to the address of its flow; every datagram a socket sent was queued for its flow,
  and none is sent more often than it was queued; every datagram a socket received is reported exactly
  once, under the flow of that socket, so an answer can only go to the guest address and port that
  opened the flow; and a datagram is only treated as DNS on a flow that was queued a DNS query.
\<close>

theorem udp_flows_exact:
  assumes "queued_pooled calls"
  shows "\<exists>events k' pool' up. udp_run calls ([], k\<lparr> uh_closed := [] \<rparr>, pool, udp_proxies_new limits) = Some (events, k', pool', up) \<and>
    peers_ok k' (up_table up) \<and>
    sent_log k' (up_table up) + request_log (map send_request (up_sends up)) \<subseteq># request_log (udp_requests calls) \<and>
    received_log k' (up_table up) = bytes_events (events @ up_pending up) \<and>
    (\<forall>key b. UdpBytes key b True \<in> set (events @ up_pending up) \<longrightarrow> (\<exists>xs. (key, xs, True) \<in> set (udp_requests calls)))"
proof -
  have "ft_iter (ft_with_capacity n :: dgram_socket udp_table) = []" for n by (induction n) (simp_all add: ft_with_capacity_def)
  then have "udp_inv [] [] (k\<lparr> uh_closed := [] \<rparr>) (udp_proxies_new limits)"
    by (simp add: udp_inv_def udp_proxies_new_def log_defs flows_def dns_ok_def)
  from udp_run_inv [OF this assms, of pool] obtain events k' pool' up
    where run: "udp_run calls ([], k\<lparr> uh_closed := [] \<rparr>, pool, udp_proxies_new limits) = Some (events, k', pool', up)"
      and inv: "udp_inv (udp_requests calls) events k' up" by auto
  have "\<exists>xs. (key, xs, True) \<in> set (udp_requests calls)" if "UdpBytes key b True \<in> set (events @ up_pending up)" for key b
    using inv that by (auto simp: udp_inv_def event_ok_def dest!: bspec)
  moreover have "peers_ok k' (up_table up)" "received_log k' (up_table up) = bytes_events (events @ up_pending up)"
      "sent_log k' (up_table up) + request_log (map send_request (up_sends up)) \<subseteq># request_log (udp_requests calls)"
    using inv by (simp_all add: udp_inv_def)
  ultimately show ?thesis using run by blast
qed

text \<open>
  On such a flow every datagram that reads as a DNS message is reported as a resolution of the name in
  its question, whether or not the guest asked for that name.
\<close>

lemma unsolicited_answer_reported:
  assumes "question_of xs = Some (Some question)" "address_records xs = Some records"
  shows "udp_dns_event True xs = Some (Some (UdpDnsResolved (dq_host question) (da_addresses records) (da_ttl records)))"
  using assms by (simp add: udp_dns_event_def)

section \<open>A flow\<close>

definition demo_flow :: udp_proxy_key where
  "demo_flow = \<lparr> guest_src = (V4 (Ipv4 10 73 0 10), 1000), guest_dst = (V4 (Ipv4 9 9 9 9), 4000), host_dst = (V4 (Ipv4 9 9 9 9), 4000) \<rparr>"

definition demo_udp_host :: udp_host where
  "demo_udp_host = \<lparr> uh_sockets = [Some ([DgramSent], [DgramIn [7]])], uh_answers = [], uh_closed = [] \<rparr>"

definition demo_udp_pool :: pool where
  "demo_udp_pool = (pool_new small_limits)\<lparr> pl_bytes := \<lparr> bk_small = [vec_with_capacity 2], bk_medium = [], bk_tcp = [] \<rparr> \<rparr>"

definition demo_udp_calls :: "udp_call list" where
  "demo_udp_calls =
     (let t = turn_new (budget_event_loop small_limits) report_new in
      [UdpQueue demo_flow \<lparr> bb_bytes = \<lparr> vec_data = [1], vec_cap = 2 \<rparr>, bb_class = Small \<rparr> False, UdpTurn 0 t [],
       UdpTurn 1 t [ReadyIo (UdpProxy demo_flow) True False]])"

lemma demo_udp_run:
  "map_option (\<lambda>(events, k, pool, up). (map (\<lambda>e. case e of UdpBytes key b d \<Rightarrow> Some (key = demo_flow, buf_data b, d) | _ \<Rightarrow> None) events,
       map (\<lambda>(key, u). (key = demo_flow, ds_sent (us_source u))) (ft_iter (up_table up))))
     (udp_run demo_udp_calls ([], demo_udp_host\<lparr> uh_closed := [] \<rparr>, demo_udp_pool, udp_proxies_new small_limits)) =
   Some ([Some (True, [7], False)], [(True, [[1]])])"
  by code_simp

theorem udp_flows_exact_witness:
  "queued_pooled demo_udp_calls \<and>
   (\<exists>events k pool up. udp_run demo_udp_calls ([], demo_udp_host\<lparr> uh_closed := [] \<rparr>, demo_udp_pool, udp_proxies_new small_limits) =
      Some (events, k, pool, up) \<and> length events = 1 \<and> length (ft_iter (up_table up)) = 1 \<and>
      sent_log k (up_table up) + request_log (map send_request (up_sends up)) \<subseteq># request_log (udp_requests demo_udp_calls) \<and>
      received_log k (up_table up) = bytes_events (events @ up_pending up))"
proof -
  have ok: "queued_pooled demo_udp_calls" by (simp add: queued_pooled_def demo_udp_calls_def buf_pooled_def Let_def)
  obtain events k pool up where run: "udp_run demo_udp_calls ([], demo_udp_host\<lparr> uh_closed := [] \<rparr>, demo_udp_pool, udp_proxies_new small_limits) =
      Some (events, k, pool, up)" "length events = 1" "length (ft_iter (up_table up)) = 1"
    using demo_udp_run by (auto simp: map_eq_Cons_conv)
  then show ?thesis using udp_flows_exact [OF ok, of demo_udp_host demo_udp_pool small_limits] ok by auto
qed

end
