(* ===== verification/TcpFlows.thy ===== *)
theory TcpFlows
  imports GatewayFlow PlainTcp
begin

text \<open>
  The table of TCP egress flows, \<open>egress/tcp/mod.rs\<close> of \<open>src/src/libs/agentdp-network/src\<close>: one slot per
  connection of the guest, with its socket, the proxy that serves it and the bytes that wait for the
  guest, and the turn that moves bytes between the sockets and their proxies.

  The sockets are smoltcp's, kept in the gateway \<open>'i\<close> under handles \<open>'h\<close>: a use of a handle that is not in
  the set panics, as in smoltcp.  A proxy \<open>'x\<close> is used through the operations of \<open>TcpProxy\<close>, which are an
  argument; below they are given for a proxy that is plain or intercepting.  \<open>'r\<close> is the runtime with its
  reactor.  Buffers in a queue or a proxy that is dropped return to the pool, which is not followed here.
\<close>

section \<open>State\<close>

datatype 'e flow_event = FlowClosed u64 | FlowError u64 'e | FlowDnsResolved dns_resolution

datatype 'e flow_poll = FlowBytes byte_buf | FlowEvent "'e flow_event" | FlowPending

datatype tcp_state =
  StClosed | StListen | StSynSent | StSynReceived | StEstablished | StFinWait1 | StFinWait2 | StCloseWait | StClosing | StLastAck | StTimeWait

text \<open>smoltcp's set of sockets, its sockets, and the route the gateway gives to a destination.\<close>

record ('h, 'k, 'i, 'q) flow_sockets =
  fs_base :: "('h, 'k, 'i) socket_ops"
  fs_get :: "'h \<Rightarrow> 'i \<Rightarrow> 'k option"
  fs_put :: "'h \<Rightarrow> 'k \<Rightarrow> 'i \<Rightarrow> 'i"
  fs_remove :: "'h \<Rightarrow> 'i \<Rightarrow> ('k \<times> 'i) option"
  fs_state :: "'k \<Rightarrow> tcp_state"
  fs_local_endpoint :: "'k \<Rightarrow> socket_addr option"
  fs_can_recv :: "'k \<Rightarrow> bool"
  fs_can_send :: "'k \<Rightarrow> bool"
  fs_may_send :: "'k \<Rightarrow> bool"
  fs_is_active :: "'k \<Rightarrow> bool"
  fs_close :: "'k \<Rightarrow> 'k"
  fs_recv :: "nat \<Rightarrow> 'k \<Rightarrow> 'k \<times> (bytes, unit) result"
  fs_send :: "bytes \<Rightarrow> 'k \<Rightarrow> 'k \<times> (nat, unit) result"
  fs_route :: "socket_addr \<Rightarrow> 'i \<Rightarrow> 'i \<times> socket_addr \<times> 'q"

record ('x, 'q, 'r, 'e) proxy_ops =
  px_connecting :: "u64 \<Rightarrow> socket_addr \<Rightarrow> socket_addr \<Rightarrow> 'q \<Rightarrow> 'r \<Rightarrow> 'r \<times> ('x, io_error) result"
  px_failed :: "u64 \<Rightarrow> io_error \<Rightarrow> 'x"
  px_write :: "byte_buf \<Rightarrow> pool \<Rightarrow> 'x \<Rightarrow> (pool \<times> 'x) option"
  px_finish_guest_write :: "'x \<Rightarrow> 'x"
  px_close :: "'x \<Rightarrow> 'x"
  px_mark_reactor_ready :: "bool \<Rightarrow> bool \<Rightarrow> 'x \<Rightarrow> 'x"
  px_deregister :: "'x \<Rightarrow> 'r \<Rightarrow> 'r"
  px_authority :: "'x \<Rightarrow> bytes option"
  px_has_local_work :: "bool \<Rightarrow> 'x \<Rightarrow> bool"
  px_io :: "'x \<Rightarrow> io_slot"
  px_has_reactor_write_work :: "'x \<Rightarrow> bool"
  px_drive :: "tcp_proxy_permit \<Rightarrow> drive_turn \<Rightarrow> 'r \<Rightarrow> pool \<Rightarrow> 'x \<Rightarrow> (drive_turn \<times> 'r \<times> pool \<times> 'x \<times> 'e flow_poll) option"

definition PERMIT_ALL :: tcp_proxy_permit where "PERMIT_ALL = push_bit 0 1 OR push_bit 1 1"

text \<open>\<open>TcpProxySlots\<close>, of which \<open>tf_slots\<close> holds the slots and the idle sockets.\<close>

record ('h, 'k, 'x, 'e) tcp_flows =
  tf_slots :: "('h, 'k, 'x) tcp_proxy_slots"
  tf_pending_events :: "'e flow_event list"
  tf_next_proxy :: u64

text \<open>What a turn works on.\<close>

record ('h, 'k, 'x, 'e, 'i, 'r) flow_turn =
  fw_flows :: "('h, 'k, 'x, 'e) tcp_flows"
  fw_sockets :: 'i
  fw_events :: "'e flow_event list"
  fw_turn :: drive_turn
  fw_pool :: pool
  fw_runtime :: 'r

definition tcp_flows_new :: "'k \<Rightarrow> nat \<Rightarrow> ('h, 'k, 'x, 'e) tcp_flows" where
  "tcp_flows_new socket max_connections =
     \<lparr> tf_slots = \<lparr> ps_slots = replicate max_connections None, ps_idle_sockets = replicate max_connections socket \<rparr>,
       tf_pending_events = [], tf_next_proxy = 0 \<rparr>"

fun terminal_proxy :: "'e flow_event \<Rightarrow> u64 option" where
  "terminal_proxy (FlowClosed proxy) = Some proxy"
| "terminal_proxy (FlowError proxy _) = Some proxy"
| "terminal_proxy (FlowDnsResolved _) = None"

fun is_terminal :: "'e flow_event \<Rightarrow> bool" where
  "is_terminal (FlowClosed _) = True"
| "is_terminal (FlowError _ _) = True"
| "is_terminal (FlowDnsResolved _) = False"

section \<open>Slots\<close>

definition serves :: "u64 \<Rightarrow> ('h, 'x) tcp_proxy_slot option \<Rightarrow> bool" where
  "serves proxy slot = (case slot of None \<Rightarrow> False | Some slot \<Rightarrow> sl_active slot = Some proxy)"

definition fw_slots :: "('h, 'k, 'x, 'e, 'i, 'r) flow_turn \<Rightarrow> ('h, 'x) tcp_proxy_slot option list" where
  "fw_slots w = ps_slots (tf_slots (fw_flows w))"

definition set_slots ::
    "('h, 'x) tcp_proxy_slot option list \<Rightarrow> ('h, 'k, 'x, 'e, 'i, 'r) flow_turn \<Rightarrow> ('h, 'k, 'x, 'e, 'i, 'r) flow_turn" where
  "set_slots slots w = w\<lparr> fw_flows := (fw_flows w)\<lparr> tf_slots := (tf_slots (fw_flows w))\<lparr> ps_slots := slots \<rparr> \<rparr> \<rparr>"

definition slot_by_proxy :: "u64 \<Rightarrow> ('h, 'k, 'x, 'e, 'i, 'r) flow_turn \<Rightarrow> (nat \<times> ('h, 'x) tcp_proxy_slot) option" where
  "slot_by_proxy proxy w =
     (case position (serves proxy) (fw_slots w) of None \<Rightarrow> None | Some i \<Rightarrow> map_option (Pair i) (fw_slots w ! i))"

definition set_slot :: "nat \<Rightarrow> ('h, 'x) tcp_proxy_slot \<Rightarrow> ('h, 'k, 'x, 'e, 'i, 'r) flow_turn \<Rightarrow> ('h, 'k, 'x, 'e, 'i, 'r) flow_turn" where
  "set_slot i slot w = set_slots ((fw_slots w)[i := Some slot]) w"

text \<open>The indexed slots whose socket the guest has connected and that have no proxy yet.\<close>

fun established_from ::
    "('h, 'k, 'i, 'q) flow_sockets \<Rightarrow> 'i \<Rightarrow> nat \<Rightarrow> ('h, 'x) tcp_proxy_slot option list \<Rightarrow> (nat \<times> socket_addr) list option" where
  "established_from fs sockets index [] = Some []"
| "established_from fs sockets index (None # slots) = established_from fs sockets (Suc index) slots"
| "established_from fs sockets index (Some slot # slots) =
     (if sl_active slot \<noteq> None then established_from fs sockets (Suc index) slots
      else fs_get fs (sl_handle slot) sockets \<bind> (\<lambda>socket.
        established_from fs sockets (Suc index) slots \<bind> (\<lambda>rest.
          Some (if fs_state fs socket \<in> {StEstablished, StCloseWait}
            then case fs_local_endpoint fs socket of None \<Rightarrow> rest | Some endpoint \<Rightarrow> (index, endpoint) # rest
            else rest))))"

definition append_established_destinations ::
    "('h, 'k, 'i, 'q) flow_sockets \<Rightarrow> ('h, 'k, 'x, 'e, 'i, 'r) flow_turn \<Rightarrow> (nat \<times> socket_addr) list option" where
  "append_established_destinations fs w = established_from fs (fw_sockets w) 0 (fw_slots w)"

definition slots_activate :: "nat \<Rightarrow> u64 \<Rightarrow> 'x \<Rightarrow> ('h, 'k, 'x, 'e, 'i, 'r) flow_turn \<Rightarrow> ('h, 'k, 'x, 'e, 'i, 'r) flow_turn" where
  "slots_activate index proxy_id proxy w =
     (if index < length (fw_slots w) then
        case fw_slots w ! index of
          None \<Rightarrow> w
        | Some slot \<Rightarrow> set_slot index (slot\<lparr> sl_active := Some proxy_id, sl_proxy := Some proxy \<rparr>) w
      else w)"

definition entry_is_runnable ::
    "('h, 'k, 'i, 'q) flow_sockets \<Rightarrow> ('x, 'q, 'r, 'e) proxy_ops \<Rightarrow> ('h, 'x) tcp_proxy_slot \<Rightarrow> 'k \<Rightarrow> bool" where
  "entry_is_runnable fs px slot socket =
     (if sl_active slot = None then False
      else let queued = \<not> wq_is_empty (sl_pending_writes slot) \<and> fs_can_send fs socket in
        case sl_proxy slot of
          None \<Rightarrow> sl_proxy_closed slot \<and> fs_may_send fs socket \<or> \<not> fs_is_active fs socket \<or> queued
        | Some proxy \<Rightarrow>
            fs_can_recv fs socket \<or>
            fs_state fs socket = StCloseWait \<and> \<not> fs_can_recv fs socket \<and> \<not> sl_guest_write_closed slot \<or>
            \<not> fs_is_active fs socket \<or> queued \<or>
            sl_upstream_read_masked slot \<and> wq_is_empty (sl_pending_writes slot) \<and> fs_can_send fs socket \<or>
            \<not> sl_upstream_read_masked slot \<and> io_can_read (px_io px proxy) \<or>
            io_can_write (px_io px proxy) \<and> px_has_reactor_write_work px proxy \<or>
            px_has_local_work px (fs_can_send fs socket) proxy)"

fun append_runnable_proxies ::
    "('h, 'k, 'i, 'q) flow_sockets \<Rightarrow> ('x, 'q, 'r, 'e) proxy_ops \<Rightarrow> 'i \<Rightarrow> ('h, 'x) tcp_proxy_slot option list \<Rightarrow> u64 list \<Rightarrow> u64 list option"
  where
  "append_runnable_proxies fs px sockets [] proxies = Some proxies"
| "append_runnable_proxies fs px sockets (None # slots) proxies = append_runnable_proxies fs px sockets slots proxies"
| "append_runnable_proxies fs px sockets (Some slot # slots) proxies =
     (case sl_active slot of
        None \<Rightarrow> append_runnable_proxies fs px sockets slots proxies
      | Some proxy_id \<Rightarrow>
          fs_get fs (sl_handle slot) sockets \<bind> (\<lambda>socket.
            append_runnable_proxies fs px sockets slots
              (if entry_is_runnable fs px slot socket \<and> proxy_id \<notin> set proxies then proxies @ [proxy_id] else proxies)))"

definition slots_mark_reactor_ready ::
    "('x, 'q, 'r, 'e) proxy_ops \<Rightarrow> u64 \<Rightarrow> bool \<Rightarrow> bool \<Rightarrow> ('h, 'k, 'x, 'e, 'i, 'r) flow_turn \<Rightarrow> ('h, 'k, 'x, 'e, 'i, 'r) flow_turn" where
  "slots_mark_reactor_ready px proxy_id readable writable w =
     (case slot_by_proxy proxy_id w of
        None \<Rightarrow> w
      | Some (i, slot) \<Rightarrow>
          set_slot i (slot\<lparr> sl_proxy := map_option (px_mark_reactor_ready px readable writable) (sl_proxy slot) \<rparr>) w)"

section \<open>Closing\<close>

definition close_guest ::
    "('h, 'k, 'i, 'q) flow_sockets \<Rightarrow> u64 \<Rightarrow> ('h, 'k, 'x, 'e, 'i, 'r) flow_turn \<Rightarrow> ('h, 'k, 'x, 'e, 'i, 'r) flow_turn option" where
  "close_guest fs proxy_id w =
     (case slot_by_proxy proxy_id w of
        None \<Rightarrow> Some w
      | Some (i, slot) \<Rightarrow>
          fs_get fs (sl_handle slot) (fw_sockets w) \<bind> (\<lambda>socket.
            case send_smoltcp_tcp_queue (fs_can_send fs) (fs_send fs) (fw_turn w) (sl_pending_writes slot) socket of
              (t, queue, socket) \<Rightarrow>
                let socket = (if wq_is_empty queue \<and> fs_may_send fs socket then fs_close fs socket else socket) in
                Some ((set_slot i (slot\<lparr> sl_proxy_closed := True, sl_pending_writes := queue \<rparr>) w)
                  \<lparr> fw_turn := t, fw_sockets := fs_put fs (sl_handle slot) socket (fw_sockets w) \<rparr>)))"

definition remove_proxy ::
    "('x, 'q, 'r, 'e) proxy_ops \<Rightarrow> u64 \<Rightarrow> ('h, 'k, 'x, 'e, 'i, 'r) flow_turn \<Rightarrow> ('h, 'k, 'x, 'e, 'i, 'r) flow_turn" where
  "remove_proxy px proxy_id w =
     (case slot_by_proxy proxy_id w of
        None \<Rightarrow> w
      | Some (i, slot) \<Rightarrow>
         (case sl_proxy slot of
            None \<Rightarrow> w
          | Some proxy \<Rightarrow> (set_slot i (slot\<lparr> sl_proxy := None \<rparr>) w)\<lparr> fw_runtime := px_deregister px proxy (fw_runtime w) \<rparr>))"

fun deregister_all ::
    "('x, 'q, 'r, 'e) proxy_ops \<Rightarrow> ('h, 'x) tcp_proxy_slot option list \<Rightarrow> 'r \<Rightarrow> ('h, 'x) tcp_proxy_slot option list \<times> 'r" where
  "deregister_all px [] r = ([], r)"
| "deregister_all px (slot # slots) r =
     (case slot of
        Some s \<Rightarrow>
         (case sl_proxy s of
            Some proxy \<Rightarrow>
             (case deregister_all px slots (px_deregister px proxy r) of (slots, r) \<Rightarrow> (Some (s\<lparr> sl_proxy := None \<rparr>) # slots, r))
          | None \<Rightarrow> (case deregister_all px slots r of (slots, r) \<Rightarrow> (Some s # slots, r)))
      | None \<Rightarrow> (case deregister_all px slots r of (slots, r) \<Rightarrow> (None # slots, r)))"

definition flows_shutdown ::
    "('x, 'q, 'r, 'e) proxy_ops \<Rightarrow> ('h, 'k, 'x, 'e, 'i, 'r) flow_turn \<Rightarrow> ('h, 'k, 'x, 'e, 'i, 'r) flow_turn" where
  "flows_shutdown px w =
     (case deregister_all px (fw_slots w) (fw_runtime w) of (slots, r) \<Rightarrow>
        (set_slots slots (w\<lparr> fw_flows := (fw_flows w)\<lparr> tf_pending_events := [] \<rparr> \<rparr>))\<lparr> fw_runtime := r \<rparr>)"

definition is_retired ::
    "('x, 'q, 'r, 'e) proxy_ops \<Rightarrow> authority set \<Rightarrow> ('h, 'x) tcp_proxy_slot \<Rightarrow> bool" where
  "is_retired px authorities slot \<longleftrightarrow> sl_active slot \<noteq> None \<and>
     (case sl_proxy slot \<bind> px_authority px of None \<Rightarrow> False | Some host \<Rightarrow> authority_new host \<in> authorities)"

text \<open>The loop of \<open>retire_authorities\<close>, over the rest of the slots.\<close>

fun retire_slots ::
    "('h, 'k, 'i, 'q) flow_sockets \<Rightarrow> ('x, 'q, 'r, 'e) proxy_ops \<Rightarrow> authority set \<Rightarrow> ('h, 'x) tcp_proxy_slot option list \<Rightarrow> 'i \<Rightarrow> 'r \<Rightarrow>
     (('h, 'x) tcp_proxy_slot option list \<times> 'i \<times> 'r) option" where
  "retire_slots fs px authorities [] sockets r = Some ([], sockets, r)"
| "retire_slots fs px authorities (slot # slots) sockets r =
     (case slot of
        None \<Rightarrow> retire_slots fs px authorities slots sockets r \<bind> (\<lambda>(slots, sockets, r). Some (None # slots, sockets, r))
      | Some s \<Rightarrow>
          if \<not> is_retired px authorities s
          then retire_slots fs px authorities slots sockets r \<bind> (\<lambda>(slots, sockets, r). Some (Some s # slots, sockets, r))
          else fs_get fs (sl_handle s) sockets \<bind> (\<lambda>socket.
            retire_slots fs px authorities slots (fs_put fs (sl_handle s) (sk_abort (fs_base fs) socket) sockets)
                (case sl_proxy s of None \<Rightarrow> r | Some proxy \<Rightarrow> px_deregister px proxy r) \<bind> (\<lambda>(slots, sockets, r).
              Some (Some (s\<lparr> sl_proxy := None, sl_pending_writes := wq_clear (sl_pending_writes s), sl_proxy_closed := True \<rparr>) # slots,
                sockets, r))))"

definition flows_retire_authorities ::
    "('h, 'k, 'i, 'q) flow_sockets \<Rightarrow> ('x, 'q, 'r, 'e) proxy_ops \<Rightarrow> authority set \<Rightarrow> ('h, 'k, 'x, 'e, 'i, 'r) flow_turn \<Rightarrow>
     ('h, 'k, 'x, 'e, 'i, 'r) flow_turn option" where
  "flows_retire_authorities fs px authorities w =
     retire_slots fs px authorities (fw_slots w) (fw_sockets w) (fw_runtime w) \<bind> (\<lambda>(slots, sockets, r).
       Some ((set_slots slots w)\<lparr> fw_sockets := sockets, fw_runtime := r \<rparr>))"

definition flow_emit_or_queue ::
    "'e flow_event \<Rightarrow> ('h, 'k, 'x, 'e, 'i, 'r) flow_turn \<Rightarrow> ('h, 'k, 'x, 'e, 'i, 'r) flow_turn \<times> bool" where
  "flow_emit_or_queue event w =
     (case push_event (fw_turn w) (fw_events w) event of
        (t, events, Ok _) \<Rightarrow> (w\<lparr> fw_turn := t, fw_events := events \<rparr>, True)
      | (t, events, Err event) \<Rightarrow>
          (w\<lparr> fw_turn := t, fw_events := events,
             fw_flows := (fw_flows w)\<lparr> tf_pending_events := event # tf_pending_events (fw_flows w) \<rparr> \<rparr>, False))"

text \<open>\<open>remove_slot_by_handle\<close> and \<open>recycle_socket\<close>, which are called together.\<close>

definition remove_slot_by_handle ::
    "'h \<Rightarrow> ('h, 'k, 'x, 'e, 'i, 'r) flow_turn \<Rightarrow> ('h, 'k, 'x, 'e, 'i, 'r) flow_turn" where
  "remove_slot_by_handle handle w =
     (case position (\<lambda>slot. case slot of None \<Rightarrow> False | Some slot \<Rightarrow> sl_handle slot = handle) (fw_slots w) of
        None \<Rightarrow> w
      | Some i \<Rightarrow> set_slots ((fw_slots w)[i := None]) w)"

definition recycle_socket ::
    "('h, 'k, 'i, 'q) flow_sockets \<Rightarrow> 'h \<Rightarrow> ('h, 'k, 'x, 'e, 'i, 'r) flow_turn \<Rightarrow> ('h, 'k, 'x, 'e, 'i, 'r) flow_turn option" where
  "recycle_socket fs handle w =
     fs_remove fs handle (fw_sockets w) \<bind> (\<lambda>(socket, sockets).
       let ps = tf_slots (fw_flows w) in
       Some (w\<lparr> fw_sockets := sockets,
         fw_flows := (fw_flows w)\<lparr> tf_slots := ps\<lparr> ps_idle_sockets := ps_idle_sockets ps @ [sk_abort (fs_base fs) socket] \<rparr> \<rparr> \<rparr>))"

section \<open>Driving a proxy\<close>

text \<open>
  What the loop of \<open>drive_proxy\<close> does with the answer of the proxy, and whether it goes on.
\<close>

definition settle_poll ::
    "('h, 'k, 'i, 'q) flow_sockets \<Rightarrow> ('x, 'q, 'r, 'e) proxy_ops \<Rightarrow> u64 \<Rightarrow> bool \<Rightarrow> 'e flow_poll \<Rightarrow> ('h, 'k, 'x, 'e, 'i, 'r) flow_turn \<Rightarrow>
     (('h, 'k, 'x, 'e, 'i, 'r) flow_turn \<times> bool) option" where
  "settle_poll fs px proxy_id direct_progress poll w =
     (case poll of
        FlowBytes bytes \<Rightarrow>
         (case slot_by_proxy proxy_id w of
            None \<Rightarrow> Some (w, True)
          | Some (i, slot) \<Rightarrow>
              fs_get fs (sl_handle slot) (fw_sockets w) \<bind> (\<lambda>socket.
                case send_smoltcp_tcp_queue (fs_can_send fs) (fs_send fs) (fw_turn w) (wq_push (sl_pending_writes slot) bytes) socket of
                  (t, queue, socket) \<Rightarrow>
                    let w = (set_slot i (slot\<lparr> sl_pending_writes := queue \<rparr>) w)
                          \<lparr> fw_turn := t, fw_sockets := fs_put fs (sl_handle slot) socket (fw_sockets w) \<rparr> in
                    if \<not> wq_is_empty queue \<or> \<not> fs_can_send fs socket
                    then Some (w\<lparr> fw_turn := block_on GUEST_SEND_CAPACITY t \<rparr>, False)
                    else Some (w, True)))
      | FlowEvent event \<Rightarrow>
         (case flow_emit_or_queue event w of
            (w, False) \<Rightarrow> Some (w, False)
          | (w, True) \<Rightarrow>
              if is_terminal event then close_guest fs proxy_id (remove_proxy px proxy_id w) \<bind> (\<lambda>w. Some (w, False))
              else Some (w, True))
      | FlowPending \<Rightarrow> Some (w, direct_progress))"

text \<open>One round of the loop, up to the answer.\<close>

definition poll_proxy ::
    "('h, 'k, 'i, 'q) flow_sockets \<Rightarrow> ('x, 'q, 'r, 'e) proxy_ops \<Rightarrow> tcp_proxy_permit \<Rightarrow> u64 \<Rightarrow> ('h, 'k, 'x, 'e, 'i, 'r) flow_turn \<Rightarrow>
     (('h, 'k, 'x, 'e, 'i, 'r) flow_turn \<times> bool) option" where
  "poll_proxy fs px permit proxy_id w =
     (case can_start_operation (fw_turn w) of
        (t, False) \<Rightarrow> Some (w\<lparr> fw_turn := t \<rparr>, False)
      | (t, True) \<Rightarrow>
         (case slot_by_proxy proxy_id w of
            None \<Rightarrow> Some (w\<lparr> fw_turn := t \<rparr>, False)
          | Some (i, slot) \<Rightarrow>
             (case sl_proxy slot of
                None \<Rightarrow> Some (w\<lparr> fw_turn := t \<rparr>, False)
              | Some proxy \<Rightarrow>
                  px_drive px permit t (fw_runtime w) (fw_pool w) proxy \<bind> (\<lambda>(t', r, pool, proxy, poll).
                    settle_poll fs px proxy_id (rp_progress (dt_report t') \<noteq> rp_progress (dt_report t)) poll
                      ((set_slot i (slot\<lparr> sl_proxy := Some proxy \<rparr>) w)\<lparr> fw_turn := t', fw_runtime := r, fw_pool := pool \<rparr>)))))"

text \<open>The loop; it has a value only when it ends.\<close>

partial_function (option) drive_proxy ::
    "('h, 'k, 'i, 'q) flow_sockets \<Rightarrow> ('x, 'q, 'r, 'e) proxy_ops \<Rightarrow> tcp_proxy_permit \<Rightarrow> u64 \<Rightarrow> ('h, 'k, 'x, 'e, 'i, 'r) flow_turn \<Rightarrow>
     ('h, 'k, 'x, 'e, 'i, 'r) flow_turn option" where
  "drive_proxy fs px permit proxy_id w =
     poll_proxy fs px permit proxy_id w \<bind> (\<lambda>(w, again). if again then drive_proxy fs px permit proxy_id w else Some w)"

declare drive_proxy.simps [code]

section \<open>An entry\<close>

text \<open>The bytes of the guest go to the proxy.\<close>

lemma recv_smoltcp_tcp_steps:
  assumes "recv_smoltcp_tcp can_recv recv t pool s = Some (t', pool', s', TcpBytes b)"
  shows "db_steps (dt_budget t') < db_steps (dt_budget t)"
proof -
  have "db_steps (dt_budget t1) < db_steps (dt_budget t)" if "step_or_exhausted t = (t1, True)" for t1
    using step_or_exhausted_steps [OF that] by simp
  then show ?thesis using assms
    by (auto simp: recv_smoltcp_tcp_def can_continue_or_exhausted_def Let_def spend_bytes_budget turn_report_def
        split: if_split_asm bind_split_asm prod.split_asm result.split_asm list.split_asm)
qed

function guest_to_proxy ::
    "('h, 'k, 'i, 'q) flow_sockets \<Rightarrow> ('x, 'q, 'r, 'e) proxy_ops \<Rightarrow> drive_turn \<Rightarrow> pool \<Rightarrow> 'k \<Rightarrow> 'x \<Rightarrow>
     (drive_turn \<times> pool \<times> 'k \<times> 'x) option" where
  "guest_to_proxy fs px t pool socket proxy =
     (case recv_smoltcp_tcp (fs_can_recv fs) (fs_recv fs) t pool socket of
        None \<Rightarrow> None
      | Some (t', pool', socket', TcpBytes bytes) \<Rightarrow>
         (case px_write px bytes pool' proxy of
            None \<Rightarrow> None
          | Some (pool'', proxy') \<Rightarrow> guest_to_proxy fs px t' pool'' socket' proxy')
      | Some (t', pool', socket', _) \<Rightarrow> Some (t', pool', socket', proxy))"
  by pat_completeness auto

termination
  by (relation "measure (\<lambda>(_, _, t, _, _, _). db_steps (dt_budget t))") (auto dest: recv_smoltcp_tcp_steps)

declare guest_to_proxy.simps [simp del]

definition entry_exchange ::
    "('h, 'k, 'i, 'q) flow_sockets \<Rightarrow> ('x, 'q, 'r, 'e) proxy_ops \<Rightarrow> drive_turn \<Rightarrow> pool \<Rightarrow> ('h, 'x) tcp_proxy_slot \<Rightarrow> 'k \<Rightarrow>
     (drive_turn \<times> pool \<times> ('h, 'x) tcp_proxy_slot \<times> 'k \<times> tcp_proxy_permit) option" where
  "entry_exchange fs px t pool slot socket =
     (case sl_proxy slot of
        None \<Rightarrow> Some (t, pool, socket, None)
      | Some proxy \<Rightarrow> guest_to_proxy fs px t pool socket proxy \<bind> (\<lambda>(t, pool, socket, proxy). Some (t, pool, socket, Some proxy)))
     \<bind> (\<lambda>(t, pool, socket, proxy).
       case send_smoltcp_tcp_queue (fs_can_send fs) (fs_send fs) t (sl_pending_writes slot) socket of
         (t, queue, socket) \<Rightarrow>
           let permit = (if wq_is_empty queue \<and> fs_can_send fs socket then PERMIT_ALL else WRITE_UPSTREAM) in
           Some (t, pool,
             slot\<lparr> sl_proxy := proxy, sl_pending_writes := queue,
               sl_upstream_read_masked := (\<not> permit_contains permit READ_UPSTREAM \<and> proxy \<noteq> None) \<rparr>,
             socket, permit))"

datatype entry_outcome = EntryReturns | EntryDrives | EntryCloses

text \<open>The three conditions after the exchange; a state change that the budget refuses returns.\<close>

definition entry_finish_guest_write ::
    "('h, 'k, 'i, 'q) flow_sockets \<Rightarrow> ('x, 'q, 'r, 'e) proxy_ops \<Rightarrow> drive_turn \<Rightarrow> ('h, 'x) tcp_proxy_slot \<Rightarrow> 'k \<Rightarrow>
     drive_turn \<times> ('h, 'x) tcp_proxy_slot \<times> bool" where
  "entry_finish_guest_write fs px t slot socket =
     (if fs_state fs socket = StCloseWait \<and> \<not> fs_can_recv fs socket \<and> \<not> sl_guest_write_closed slot then
        (case apply_state_change (\<lambda>slot.
             (slot\<lparr> sl_guest_write_closed := True, sl_proxy := map_option (px_finish_guest_write px) (sl_proxy slot) \<rparr>, ())) t slot of
           (t, slot, r) \<Rightarrow> (t, slot, r \<noteq> None))
      else (t, slot, True))"

definition entry_close_socket ::
    "('h, 'k, 'i, 'q) flow_sockets \<Rightarrow> drive_turn \<Rightarrow> ('h, 'x) tcp_proxy_slot \<Rightarrow> 'k \<Rightarrow> drive_turn \<times> 'k \<times> bool" where
  "entry_close_socket fs t slot socket =
     (if sl_proxy_closed slot \<and> wq_is_empty (sl_pending_writes slot) \<and> fs_may_send fs socket then
        (case apply_state_change (\<lambda>socket. (fs_close fs socket, ())) t socket of (t, socket, r) \<Rightarrow> (t, socket, r \<noteq> None))
      else (t, socket, True))"

definition entry_close_proxy ::
    "('h, 'k, 'i, 'q) flow_sockets \<Rightarrow> ('x, 'q, 'r, 'e) proxy_ops \<Rightarrow> drive_turn \<Rightarrow> ('h, 'x) tcp_proxy_slot \<Rightarrow> 'k \<Rightarrow>
     drive_turn \<times> ('h, 'x) tcp_proxy_slot \<times> entry_outcome" where
  "entry_close_proxy fs px t slot socket =
     (if \<not> fs_is_active fs socket then
        (case apply_state_change (\<lambda>slot. (slot\<lparr> sl_proxy := map_option (px_close px) (sl_proxy slot) \<rparr>, ())) t slot of
           (t, slot, r) \<Rightarrow> (t, slot, if r = None then EntryReturns else EntryCloses))
      else (t, slot, EntryDrives))"

definition entry_settle ::
    "('h, 'k, 'i, 'q) flow_sockets \<Rightarrow> ('x, 'q, 'r, 'e) proxy_ops \<Rightarrow> drive_turn \<Rightarrow> ('h, 'x) tcp_proxy_slot \<Rightarrow> 'k \<Rightarrow>
     drive_turn \<times> ('h, 'x) tcp_proxy_slot \<times> 'k \<times> entry_outcome" where
  "entry_settle fs px t slot socket =
     (case entry_finish_guest_write fs px t slot socket of
        (t, slot, False) \<Rightarrow> (t, slot, socket, EntryReturns)
      | (t, slot, True) \<Rightarrow>
         (case entry_close_socket fs t slot socket of
            (t, socket, False) \<Rightarrow> (t, slot, socket, EntryReturns)
          | (t, socket, True) \<Rightarrow>
             (case entry_close_proxy fs px t slot socket of (t, slot, outcome) \<Rightarrow> (t, slot, socket, outcome))))"

definition drive_proxy_entry ::
    "('h, 'k, 'i, 'q) flow_sockets \<Rightarrow> ('x, 'q, 'r, 'e) proxy_ops \<Rightarrow> u64 \<Rightarrow> ('h, 'k, 'x, 'e, 'i, 'r) flow_turn \<Rightarrow>
     ('h, 'k, 'x, 'e, 'i, 'r) flow_turn option" where
  "drive_proxy_entry fs px proxy_id w =
     (case slot_by_proxy proxy_id w of
        None \<Rightarrow> drive_proxy fs px PERMIT_ALL proxy_id w
      | Some (i, slot) \<Rightarrow>
          fs_get fs (sl_handle slot) (fw_sockets w) \<bind> (\<lambda>socket.
          entry_exchange fs px (fw_turn w) (fw_pool w) slot socket \<bind> (\<lambda>(t, pool, slot, socket, permit).
            case entry_settle fs px t slot socket of
              (t, slot, socket, outcome) \<Rightarrow>
                let w = (set_slot i slot w)
                      \<lparr> fw_turn := t, fw_pool := pool, fw_sockets := fs_put fs (sl_handle slot) socket (fw_sockets w) \<rparr> in
                case outcome of
                  EntryReturns \<Rightarrow> Some w
                | EntryDrives \<Rightarrow> drive_proxy fs px permit proxy_id w
                | EntryCloses \<Rightarrow>
                    drive_proxy fs px permit proxy_id w \<bind> (\<lambda>w.
                      recycle_socket fs (sl_handle slot) (remove_slot_by_handle (sl_handle slot) (remove_proxy px proxy_id w))))))"

section \<open>The turn\<close>

text \<open>\<open>TcpProxyId\<close> counts up and saturates.\<close>

definition next_proxy_id :: "u64 \<Rightarrow> u64" where
  "next_proxy_id n = (if n = - 1 then n else n + 1)"

definition connect_flow ::
    "('h, 'k, 'i, 'q) flow_sockets \<Rightarrow> ('x, 'q, 'r, 'e) proxy_ops \<Rightarrow> nat \<Rightarrow> socket_addr \<Rightarrow> ('h, 'k, 'x, 'e, 'i, 'r) flow_turn \<Rightarrow>
     ('h, 'k, 'x, 'e, 'i, 'r) flow_turn" where
  "connect_flow fs px slot_index requested_dst w =
     (let proxy_id = tf_next_proxy (fw_flows w) in
      case fs_route fs requested_dst (fw_sockets w) of
        (sockets, upstream_dst, route) \<Rightarrow>
         (case px_connecting px proxy_id requested_dst upstream_dst route (fw_runtime w) of
            (r, result) \<Rightarrow>
              slots_activate slot_index proxy_id (case result of Ok proxy \<Rightarrow> proxy | Err error \<Rightarrow> px_failed px proxy_id error)
                (w\<lparr> fw_sockets := sockets, fw_runtime := r,
                   fw_flows := (fw_flows w)\<lparr> tf_next_proxy := next_proxy_id proxy_id \<rparr> \<rparr>)))"

fun activate_established ::
    "('h, 'k, 'i, 'q) flow_sockets \<Rightarrow> ('x, 'q, 'r, 'e) proxy_ops \<Rightarrow> (nat \<times> socket_addr) list \<Rightarrow> ('h, 'k, 'x, 'e, 'i, 'r) flow_turn \<Rightarrow>
     ('h, 'k, 'x, 'e, 'i, 'r) flow_turn" where
  "activate_established fs px [] w = w"
| "activate_established fs px ((slot_index, requested_dst) # established) w =
     (case apply_state_change (\<lambda>w. (connect_flow fs px slot_index requested_dst w, ())) (fw_turn w) w of
        (t, w, r) \<Rightarrow> if r = None then w\<lparr> fw_turn := t \<rparr> else activate_established fs px established (w\<lparr> fw_turn := t \<rparr>))"

definition activate_guest_connections ::
    "('h, 'k, 'i, 'q) flow_sockets \<Rightarrow> ('x, 'q, 'r, 'e) proxy_ops \<Rightarrow> ('h, 'k, 'x, 'e, 'i, 'r) flow_turn \<Rightarrow>
     ('h, 'k, 'x, 'e, 'i, 'r) flow_turn option" where
  "activate_guest_connections fs px w =
     append_established_destinations fs w \<bind> (\<lambda>established. Some (activate_established fs px established w))"

text \<open>Of the reactor's events those of TCP proxies: the proxy, readable, writable.\<close>

fun latch_reactor_readiness ::
    "('x, 'q, 'r, 'e) proxy_ops \<Rightarrow> (u64 \<times> bool \<times> bool) list \<Rightarrow> ('h, 'k, 'x, 'e, 'i, 'r) flow_turn \<Rightarrow> ('h, 'k, 'x, 'e, 'i, 'r) flow_turn" where
  "latch_reactor_readiness px [] w = w"
| "latch_reactor_readiness px ((proxy_id, readable, writable) # readiness) w =
     latch_reactor_readiness px readiness (slots_mark_reactor_ready px proxy_id readable writable w)"

text \<open>The loop over the pending events, and whether the turn goes on after it.\<close>

definition emit_pending_event ::
    "('h, 'k, 'i, 'q) flow_sockets \<Rightarrow> ('x, 'q, 'r, 'e) proxy_ops \<Rightarrow> 'e flow_event \<Rightarrow> ('h, 'k, 'x, 'e, 'i, 'r) flow_turn \<Rightarrow>
     (('h, 'k, 'x, 'e, 'i, 'r) flow_turn \<times> bool) option" where
  "emit_pending_event fs px event w =
     (case flow_emit_or_queue event w of
        (w, False) \<Rightarrow> Some (w, False)
      | (w, True) \<Rightarrow>
         (case terminal_proxy event of
            None \<Rightarrow> Some w
          | Some proxy_id \<Rightarrow> close_guest fs proxy_id (remove_proxy px proxy_id w)) \<bind> (\<lambda>w.
          case can_start_operation (fw_turn w) of (t, ok) \<Rightarrow> Some (w\<lparr> fw_turn := t \<rparr>, ok)))"

fun emit_pending_events ::
    "('h, 'k, 'i, 'q) flow_sockets \<Rightarrow> ('x, 'q, 'r, 'e) proxy_ops \<Rightarrow> 'e flow_event list \<Rightarrow> ('h, 'k, 'x, 'e, 'i, 'r) flow_turn \<Rightarrow>
     (('h, 'k, 'x, 'e, 'i, 'r) flow_turn \<times> bool) option" where
  "emit_pending_events fs px [] w = Some (w, True)"
| "emit_pending_events fs px (event # events) w =
     emit_pending_event fs px event (w\<lparr> fw_flows := (fw_flows w)\<lparr> tf_pending_events := events \<rparr> \<rparr>) \<bind> (\<lambda>(w, ok).
       if ok then emit_pending_events fs px events w else Some (w, False))"

fun drive_entries ::
    "('h, 'k, 'i, 'q) flow_sockets \<Rightarrow> ('x, 'q, 'r, 'e) proxy_ops \<Rightarrow> u64 list \<Rightarrow> ('h, 'k, 'x, 'e, 'i, 'r) flow_turn \<Rightarrow>
     ('h, 'k, 'x, 'e, 'i, 'r) flow_turn option" where
  "drive_entries fs px [] w = Some w"
| "drive_entries fs px (proxy_id # proxies) w =
     (case can_start_operation (fw_turn w) of
        (t, False) \<Rightarrow> Some (w\<lparr> fw_turn := t \<rparr>)
      | (t, True) \<Rightarrow> drive_proxy_entry fs px proxy_id (w\<lparr> fw_turn := t \<rparr>) \<bind> drive_entries fs px proxies)"

definition flows_drive_gateway ::
    "('h, 'k, 'i, 'q) flow_sockets \<Rightarrow> ('x, 'q, 'r, 'e) proxy_ops \<Rightarrow> (u64 \<times> bool \<times> bool) list \<Rightarrow> ('h, 'k, 'x, 'e, 'i, 'r) flow_turn \<Rightarrow>
     ('h, 'k, 'x, 'e, 'i, 'r) flow_turn option" where
  "flows_drive_gateway fs px readiness w =
     activate_guest_connections fs px w \<bind> (\<lambda>w.
     let w = latch_reactor_readiness px readiness w in
     append_runnable_proxies fs px (fw_sockets w) (fw_slots w) [] \<bind> (\<lambda>proxies.
     emit_pending_events fs px (tf_pending_events (fw_flows w)) w \<bind> (\<lambda>(w, ok).
       if ok then drive_entries fs px proxies w else Some w)))"

definition flows_listen ::
    "('h, 'k, 'i, 'q) flow_sockets \<Rightarrow> socket_addr \<Rightarrow> socket_addr \<Rightarrow> ('h, 'k, 'x, 'e, 'i, 'r) flow_turn \<Rightarrow>
     ('h, 'k, 'x, 'e, 'i, 'r) flow_turn \<times> bool" where
  "flows_listen fs src dst w =
     (case slots_listen (fs_base fs) src dst (tf_slots (fw_flows w)) (fw_sockets w) of
        (ps, sockets, ok) \<Rightarrow> (w\<lparr> fw_flows := (fw_flows w)\<lparr> tf_slots := ps \<rparr>, fw_sockets := sockets \<rparr>, ok))"

end
