(* ===== verification/TcpProxy.thy ===== *)
theory TcpProxy
  imports TcpFlows
begin

text \<open>
  The proxies of the table, the enum \<open>TcpProxy\<close> of \<open>egress/tcp/mod.rs\<close>: a plain one, or one that intercepts
  TLS and becomes plain when the server name is to be passed through.  The intercepting proxy past
  its ClientHello belongs to rustls, so its operations are an argument; what it hands over when it
  gives up is not.
\<close>

section \<open>Runtime\<close>

text \<open>Connecting, and the registration of a stream under its proxy; reads and writes are those of the stream.\<close>

record ('s, 'r) runtime_ops =
  rt_connect :: "socket_addr \<Rightarrow> 'r \<Rightarrow> 'r \<times> ('s, io_error) result"
  rt_register :: "u64 \<Rightarrow> 's \<Rightarrow> 'r \<Rightarrow> 'r \<times> (unit, io_error) result"
  rt_deregister :: "u64 \<Rightarrow> 's \<Rightarrow> 'r \<Rightarrow> 'r"
  rt_host :: "u64 \<Rightarrow> 'r host_ops"
  rt_read :: "nat \<Rightarrow> 's \<Rightarrow> 's \<times> (bytes, io_error) result"
  rt_write :: "bytes \<Rightarrow> 's \<Rightarrow> 's \<times> (nat, io_error) result"
  rt_error_text :: "io_error \<Rightarrow> bytes"
  rt_tracker_capacity :: nat

record 's plain_flow =
  pf_proxy :: u64
  pf_authority :: "bytes option"
  pf_plain :: "'s plain_tcp_proxy"

datatype 'te tls_proxy_poll =
  TlsPollBytes byte_buf
| TlsPollEvent "'te flow_event"
| TlsPollPending
| TlsPollBypass socket_addr byte_buf write_queue

record ('t, 'p, 'r, 'te) tls_ops =
  tl_new :: "u64 \<Rightarrow> socket_addr \<Rightarrow> 'p \<Rightarrow> 't"
  tl_proxy :: "'t \<Rightarrow> u64"
  tl_authority :: "'t \<Rightarrow> bytes option"
  tl_guest_write_finished :: "'t \<Rightarrow> bool"
  tl_close_requested :: "'t \<Rightarrow> bool"
  tl_write :: "byte_buf \<Rightarrow> 't \<Rightarrow> 't"
  tl_finish_guest_write :: "'t \<Rightarrow> 't"
  tl_close :: "'t \<Rightarrow> 't"
  tl_mark_reactor_ready :: "bool \<Rightarrow> bool \<Rightarrow> 't \<Rightarrow> 't"
  tl_deregister :: "'t \<Rightarrow> 'r \<Rightarrow> 'r"
  tl_has_local_work :: "bool \<Rightarrow> 't \<Rightarrow> bool"
  tl_io :: "'t \<Rightarrow> io_slot"
  tl_has_reactor_write_work :: "'t \<Rightarrow> bool"
  tl_drive :: "tcp_proxy_permit \<Rightarrow> drive_turn \<Rightarrow> 'r \<Rightarrow> pool \<Rightarrow> 't \<Rightarrow> (drive_turn \<times> 'r \<times> pool \<times> 't \<times> 'te tls_proxy_poll) option"

datatype ('s, 't) tcp_proxy = PlainProxy "'s plain_flow" | TlsProxy 't

type_synonym 'te flow_error = "plain_error + 'te"

section \<open>Plain flows\<close>

definition plain_flow_connecting ::
    "('s, 'r) runtime_ops \<Rightarrow> u64 \<Rightarrow> socket_addr \<Rightarrow> bytes option \<Rightarrow> plain_route \<Rightarrow> 'r \<Rightarrow> 'r \<times> ('s plain_flow, io_error) result" where
  "plain_flow_connecting rt proxy dst authority route r =
     (case rt_connect rt dst r of
        (r, Err e) \<Rightarrow> (r, Err e)
      | (r, Ok stream) \<Rightarrow>
         (case rt_register rt proxy stream r of
            (r, Err e) \<Rightarrow> (r, Err e)
          | (r, Ok _) \<Rightarrow> (r, Ok \<lparr> pf_proxy = proxy, pf_authority = authority, pf_plain = plain_connecting route stream \<rparr>)))"

fun plain_flow_event :: "u64 \<Rightarrow> tcp_proxy_event \<Rightarrow> 'te flow_error flow_event" where
  "plain_flow_event proxy ProxyClosed = FlowClosed proxy"
| "plain_flow_event proxy (ProxyError e) = FlowError proxy (Inl e)"
| "plain_flow_event proxy (ProxyDnsResolved resolution) = FlowDnsResolved resolution"

fun plain_flow_poll :: "u64 \<Rightarrow> tcp_proxy_poll \<Rightarrow> 'te flow_error flow_poll" where
  "plain_flow_poll proxy (PollBytes b) = FlowBytes b"
| "plain_flow_poll proxy (PollEvent e) = FlowEvent (plain_flow_event proxy e)"
| "plain_flow_poll proxy PollPending = FlowPending"

definition plain_flow_drive ::
    "('s, 'r) runtime_ops \<Rightarrow> tcp_proxy_permit \<Rightarrow> drive_turn \<Rightarrow> 'r \<Rightarrow> pool \<Rightarrow> 's plain_flow \<Rightarrow>
     (drive_turn \<times> 'r \<times> pool \<times> 's plain_flow \<times> 'te flow_error flow_poll) option" where
  "plain_flow_drive rt permit t r pool f =
     plain_drive (rt_read rt) (rt_write rt) (rt_host rt (pf_proxy f)) (rt_tracker_capacity rt) permit t r pool (pf_plain f) \<bind>
       (\<lambda>(t, r, pool, p, poll). Some (t, r, pool, f\<lparr> pf_plain := p \<rparr>, plain_flow_poll (pf_proxy f) poll))"

definition plain_flow_deregister :: "('s, 'r) runtime_ops \<Rightarrow> 's plain_flow \<Rightarrow> 'r \<Rightarrow> 'r" where
  "plain_flow_deregister rt f r =
     (case pt_state (pf_plain f) of
        PlainConnecting _ stream _ \<Rightarrow> rt_deregister rt (pf_proxy f) (rs_source stream) r
      | PlainOpen stream _ _ _ \<Rightarrow> rt_deregister rt (pf_proxy f) (rs_source stream) r
      | PlainFailed _ \<Rightarrow> r)"

section \<open>The proxy\<close>

definition proxy_connecting ::
    "('s, 'r) runtime_ops \<Rightarrow> ('t, ('ca, 'cc, 'sc) tls_egress_policy, 'r, 'te) tls_ops \<Rightarrow> u64 \<Rightarrow> socket_addr \<Rightarrow> socket_addr \<Rightarrow>
     ('ca, 'cc, 'sc) tcp_route \<Rightarrow> 'r \<Rightarrow> 'r \<times> (('s, 't) tcp_proxy, io_error) result" where
  "proxy_connecting rt tls proxy requested_dst dst route r =
     (let plain = (\<lambda>dst route. case plain_flow_connecting rt proxy dst None route r of
            (r, Err e) \<Rightarrow> (r, Err e)
          | (r, Ok f) \<Rightarrow> (r, Ok (PlainProxy f)))
      in case route of
        RouteTls policy \<Rightarrow> (r, Ok (TlsProxy (tl_new tls proxy requested_dst policy)))
      | RoutePlain policy \<Rightarrow> plain dst (PolicyRoute policy)
      | RouteDns upstream_dst \<Rightarrow> plain upstream_dst DnsRoute)"

definition proxy_failed :: "('s, 'r) runtime_ops \<Rightarrow> u64 \<Rightarrow> io_error \<Rightarrow> ('s, 't) tcp_proxy" where
  "proxy_failed rt proxy error =
     PlainProxy \<lparr> pf_proxy = proxy, pf_authority = None, pf_plain = plain_failed (rt_error_text rt error) \<rparr>"

definition proxy_write :: "('t, 'p, 'r, 'te) tls_ops \<Rightarrow> byte_buf \<Rightarrow> pool \<Rightarrow> ('s, 't) tcp_proxy \<Rightarrow> (pool \<times> ('s, 't) tcp_proxy) option" where
  "proxy_write tls bytes pool proxy =
     (case proxy of
        PlainProxy f \<Rightarrow> plain_write bytes pool (pf_plain f) \<bind> (\<lambda>(pool, p). Some (pool, PlainProxy (f\<lparr> pf_plain := p \<rparr>)))
      | TlsProxy x \<Rightarrow> Some (pool, TlsProxy (tl_write tls bytes x)))"

definition on_proxy :: "('s plain_tcp_proxy \<Rightarrow> 's plain_tcp_proxy) \<Rightarrow> ('t \<Rightarrow> 't) \<Rightarrow> ('s, 't) tcp_proxy \<Rightarrow> ('s, 't) tcp_proxy" where
  "on_proxy plain tls proxy = (case proxy of PlainProxy f \<Rightarrow> PlainProxy (f\<lparr> pf_plain := plain (pf_plain f) \<rparr>) | TlsProxy x \<Rightarrow> TlsProxy (tls x))"

definition proxy_deregister :: "('s, 'r) runtime_ops \<Rightarrow> ('t, 'p, 'r, 'te) tls_ops \<Rightarrow> ('s, 't) tcp_proxy \<Rightarrow> 'r \<Rightarrow> 'r" where
  "proxy_deregister rt tls proxy r =
     (case proxy of PlainProxy f \<Rightarrow> plain_flow_deregister rt f r | TlsProxy x \<Rightarrow> tl_deregister tls x r)"

text \<open>
  The plain proxy a passed-through connection becomes: it is given the ClientHello, then what the guest
  wrote after it, then its end.
\<close>

definition bypass_proxy ::
    "('s, 'r) runtime_ops \<Rightarrow> ('t, 'p, 'r, 'te) tls_ops \<Rightarrow> 't \<Rightarrow> byte_buf \<Rightarrow> write_queue \<Rightarrow> pool \<Rightarrow> 's plain_flow \<Rightarrow>
     (pool \<times> ('s plain_flow, tcp_proxy_event) result) option" where
  "bypass_proxy rt tls x bytes pending pool f =
     plain_write bytes pool (pf_plain f) \<bind> (\<lambda>(pool, p).
     open_plain_writes pending pool p \<bind> (\<lambda>(pool, p, r).
       case r of
         Err event \<Rightarrow> Some (pool, Err event)
       | Ok _ \<Rightarrow>
          (let p = (if tl_guest_write_finished tls x then plain_finish_guest_write p else p);
               p = (if tl_close_requested tls x then plain_close p else p)
           in Some (pool, Ok (f\<lparr> pf_plain := p \<rparr>)))))"

definition proxy_drive ::
    "('s, 'r) runtime_ops \<Rightarrow> ('t, 'p, 'r, 'te) tls_ops \<Rightarrow> tcp_proxy_permit \<Rightarrow> drive_turn \<Rightarrow> 'r \<Rightarrow> pool \<Rightarrow> ('s, 't) tcp_proxy \<Rightarrow>
     (drive_turn \<times> 'r \<times> pool \<times> ('s, 't) tcp_proxy \<times> 'te flow_error flow_poll) option" where
  "proxy_drive rt tls permit t r pool proxy =
     (case proxy of
        PlainProxy f \<Rightarrow>
          plain_flow_drive rt permit t r pool f \<bind> (\<lambda>(t, r, pool, f, poll). Some (t, r, pool, PlainProxy f, poll))
      | TlsProxy x \<Rightarrow>
          tl_drive tls permit t r pool x \<bind> (\<lambda>(t, r, pool, x, poll).
            case poll of
              TlsPollBytes b \<Rightarrow> Some (t, r, pool, TlsProxy x, FlowBytes b)
            | TlsPollEvent event \<Rightarrow> Some (t, r, pool, TlsProxy x, FlowEvent (map_flow_event Inr event))
            | TlsPollPending \<Rightarrow> Some (t, r, pool, TlsProxy x, FlowPending)
            | TlsPollBypass dst bytes pending \<Rightarrow>
               (case plain_flow_connecting rt (tl_proxy tls x) dst (tl_authority tls x) BypassRoute r of
                  (r, Err e) \<Rightarrow>
                    byte_buf_drop pool bytes \<bind> (\<lambda>pool. drop_writes pool (wq_writes pending) \<bind> (\<lambda>pool.
                      Some (t, r, pool, TlsProxy x, FlowEvent (FlowError (tl_proxy tls x) (Inl (PlainIo e))))))
                | (r, Ok f) \<Rightarrow>
                    bypass_proxy rt tls x bytes pending pool f \<bind> (\<lambda>(pool, result).
                      case result of
                        Err event \<Rightarrow> Some (t, r, pool, TlsProxy x, FlowEvent (plain_flow_event (tl_proxy tls x) event))
                      | Ok f \<Rightarrow>
                          plain_flow_drive rt permit t r pool f \<bind> (\<lambda>(t, r, pool, f, poll).
                            Some (t, r, pool, PlainProxy f, poll))))))"

definition tcp_proxy_ops ::
    "('s, 'r) runtime_ops \<Rightarrow> ('t, ('ca, 'cc, 'sc) tls_egress_policy, 'r, 'te) tls_ops \<Rightarrow>
     (('s, 't) tcp_proxy, ('ca, 'cc, 'sc) tcp_route, 'r, 'te flow_error) proxy_ops" where
  "tcp_proxy_ops rt tls = \<lparr>
     px_connecting = proxy_connecting rt tls,
     px_failed = proxy_failed rt,
     px_write = proxy_write tls,
     px_finish_guest_write = on_proxy plain_finish_guest_write (tl_finish_guest_write tls),
     px_close = on_proxy plain_close (tl_close tls),
     px_mark_reactor_ready = (\<lambda>readable writable.
       on_proxy (plain_mark_reactor_ready readable writable) (tl_mark_reactor_ready tls readable writable)),
     px_deregister = proxy_deregister rt tls,
     px_authority = (\<lambda>proxy. case proxy of PlainProxy f \<Rightarrow> pf_authority f | TlsProxy x \<Rightarrow> tl_authority tls x),
     px_has_local_work = (\<lambda>guest_can_send proxy. case proxy of
         PlainProxy f \<Rightarrow> plain_has_local_work guest_can_send (pf_plain f) | TlsProxy x \<Rightarrow> tl_has_local_work tls guest_can_send x),
     px_io = (\<lambda>proxy. case proxy of PlainProxy f \<Rightarrow> plain_io (pf_plain f) | TlsProxy x \<Rightarrow> tl_io tls x),
     px_has_reactor_write_work = (\<lambda>proxy. case proxy of
         PlainProxy f \<Rightarrow> plain_has_reactor_write_work (pf_plain f) | TlsProxy x \<Rightarrow> tl_has_reactor_write_work tls x),
     px_drive = proxy_drive rt tls \<rparr>"

section \<open>The gateway's sockets\<close>

text \<open>The table's view of the gateway: the sockets of its interface, and its routes.\<close>

definition gateway_sockets ::
    "('ca, 'cc, 'sc, 'err) crypto \<Rightarrow> clock \<Rightarrow> ('h, 'k, 'i, 'q) flow_sockets \<Rightarrow>
     ('h, 'k, ('i, 'ca, 'cc, 'sc) gateway, ('ca, 'cc, 'sc) tcp_route) flow_sockets" where
  "gateway_sockets cr ck fs = \<lparr>
     fs_base = \<lparr> sk_abort = sk_abort (fs_base fs), sk_listen = sk_listen (fs_base fs),
       sk_add = (\<lambda>socket gw. case sk_add (fs_base fs) socket (gw_iface gw) of (handle, i) \<Rightarrow> (handle, gw\<lparr> gw_iface := i \<rparr>)) \<rparr>,
     fs_get = (\<lambda>handle gw. fs_get fs handle (gw_iface gw)),
     fs_put = (\<lambda>handle socket gw. gw\<lparr> gw_iface := fs_put fs handle socket (gw_iface gw) \<rparr>),
     fs_remove = (\<lambda>handle gw. map_option (\<lambda>(socket, i). (socket, gw\<lparr> gw_iface := i \<rparr>)) (fs_remove fs handle (gw_iface gw))),
     fs_state = fs_state fs, fs_local_endpoint = fs_local_endpoint fs, fs_can_recv = fs_can_recv fs, fs_can_send = fs_can_send fs,
     fs_may_send = fs_may_send fs, fs_is_active = fs_is_active fs, fs_close = fs_close fs, fs_recv = fs_recv fs, fs_send = fs_send fs,
     fs_route = gateway_tcp_egress_route cr ck \<rparr>"

end
