(* ===== verification/BootstrapOrder.thy ===== *)
theory BootstrapOrder
  imports Prelude "HOL-Library.List_Lexorder" "HOL-Library.Multiset"
begin

text \<open>
  The order in which a guest bootstraps: \<open>ordered_steps\<close> of
  \<open>apps/agentdp-guest/src/system/bootstrap/scheduler.rs\<close>, Kahn's algorithm over the steps of a plan
  with two ready sets, one per phase.

  Strings are their bytes, compared in byte order.  A \<open>BTreeSet\<close> is the sorted list of its
  elements; a \<open>BTreeMap\<close> that is only looked up is a partial map.  Error messages are the values
  they mention.  The loop over the ready sets runs on fuel, which is shown never to run out.
\<close>

section \<open>Steps and plans\<close>

datatype bootstrap_phase = SystemPhase | UserPhase

datatype bootstrap_resource =
  AgentHome | CodeDir | GuestTooling | Mise | NpmGlobal | PackageManager | Systemd | UserDb

record bootstrap_step =
  bs_id :: bytes
  bs_label :: bytes
  bs_phase :: bootstrap_phase
  bs_depends_on :: "bytes list"
  bs_resources :: "bootstrap_resource list"
  bs_script :: bytes
  bs_working_directory :: bytes
  bs_timeout_seconds :: u64

datatype order_error =
  DuplicateStep bytes
| UnknownDependency bytes bytes
| SystemOnUser bytes bytes
| StepDisappeared bytes
| DependencyCycle

section \<open>Ordering\<close>

definition bt_insert :: "bytes \<Rightarrow> bytes list \<Rightarrow> bytes list" where
  "bt_insert x xs = (if x \<in> set xs then xs else insort x xs)"

fun pop_first :: "bytes list \<Rightarrow> bytes list \<times> bytes option" where
  "pop_first [] = ([], None)"
| "pop_first (x # xs) = (xs, Some x)"

definition pop_next_ready :: "bytes list \<Rightarrow> bytes list \<Rightarrow> bytes list \<times> bytes list \<times> bytes option" where
  "pop_next_ready ready_system ready_user =
     (case pop_first ready_system of
        (ready_system, Some x) \<Rightarrow> (ready_system, ready_user, Some x)
      | (ready_system, None) \<Rightarrow> (case pop_first ready_user of (ready_user, r) \<Rightarrow> (ready_system, ready_user, r)))"

definition ready_insert :: "bootstrap_step \<Rightarrow> bytes list \<times> bytes list \<Rightarrow> bytes list \<times> bytes list" where
  "ready_insert step = (\<lambda>(ready_system, ready_user).
     case bs_phase step of
       SystemPhase \<Rightarrow> (bt_insert (bs_id step) ready_system, ready_user)
     | UserPhase \<Rightarrow> (ready_system, bt_insert (bs_id step) ready_user))"

fun index_steps :: "bootstrap_step list \<Rightarrow> (bytes \<rightharpoonup> bootstrap_step) \<Rightarrow> (bytes \<rightharpoonup> bootstrap_step, order_error) result" where
  "index_steps [] steps_by_id = Ok steps_by_id"
| "index_steps (step # steps) steps_by_id =
     (if steps_by_id (bs_id step) \<noteq> None then Err (DuplicateStep (bs_id step))
      else index_steps steps (steps_by_id(bs_id step \<mapsto> step)))"

definition entry_push :: "bytes \<Rightarrow> bytes \<Rightarrow> (bytes \<rightharpoonup> bytes list) \<Rightarrow> (bytes \<rightharpoonup> bytes list)" where
  "entry_push k v m = m(k \<mapsto> (case m k of None \<Rightarrow> [] | Some vs \<Rightarrow> vs) @ [v])"

fun link_dependencies ::
    "(bytes \<rightharpoonup> bootstrap_step) \<Rightarrow> bootstrap_step \<Rightarrow> bytes list \<Rightarrow> (bytes \<rightharpoonup> bytes list) \<Rightarrow> (bytes \<rightharpoonup> bytes list, order_error) result" where
  "link_dependencies steps_by_id step [] dependents = Ok dependents"
| "link_dependencies steps_by_id step (dependency # deps) dependents =
     (case steps_by_id dependency of
        None \<Rightarrow> Err (UnknownDependency (bs_id step) dependency)
      | Some dependency_step \<Rightarrow>
         if bs_phase step = SystemPhase \<and> bs_phase dependency_step = UserPhase
         then Err (SystemOnUser (bs_id step) dependency)
         else link_dependencies steps_by_id step deps (entry_push dependency (bs_id step) dependents))"

fun link_steps ::
    "(bytes \<rightharpoonup> bootstrap_step) \<Rightarrow> bootstrap_step list \<Rightarrow> (bytes \<rightharpoonup> bytes list) \<Rightarrow> (bytes \<rightharpoonup> nat) \<Rightarrow>
     ((bytes \<rightharpoonup> bytes list) \<times> (bytes \<rightharpoonup> nat), order_error) result" where
  "link_steps steps_by_id [] dependents remaining = Ok (dependents, remaining)"
| "link_steps steps_by_id (step # steps) dependents remaining =
     (case link_dependencies steps_by_id step (bs_depends_on step) dependents of
        Err e \<Rightarrow> Err e
      | Ok dependents \<Rightarrow> link_steps steps_by_id steps dependents (remaining(bs_id step \<mapsto> length (bs_depends_on step))))"

fun ready_initial :: "bootstrap_step list \<Rightarrow> bytes list \<times> bytes list \<Rightarrow> bytes list \<times> bytes list" where
  "ready_initial [] ready = ready"
| "ready_initial (step # steps) ready =
     ready_initial steps (if bs_depends_on step = [] then ready_insert step ready else ready)"

fun release ::
    "(bytes \<rightharpoonup> bootstrap_step) \<Rightarrow> bytes list \<Rightarrow> (bytes \<rightharpoonup> nat) \<Rightarrow> bytes list \<times> bytes list \<Rightarrow>
     ((bytes \<rightharpoonup> nat) \<times> bytes list \<times> bytes list, order_error) result" where
  "release steps_by_id [] remaining ready = Ok (remaining, ready)"
| "release steps_by_id (dependent # dependents) remaining ready =
     (case remaining dependent of
        None \<Rightarrow> Err (StepDisappeared dependent)
      | Some n \<Rightarrow>
         (let n = n - 1; remaining = remaining(dependent \<mapsto> n) in
          if n = 0 then
            (case steps_by_id dependent of
               None \<Rightarrow> Err (StepDisappeared dependent)
             | Some step \<Rightarrow> release steps_by_id dependents remaining (ready_insert step ready))
          else release steps_by_id dependents remaining ready))"

fun order_loop ::
    "nat \<Rightarrow> (bytes \<rightharpoonup> bootstrap_step) \<Rightarrow> (bytes \<rightharpoonup> bytes list) \<Rightarrow> (bytes \<rightharpoonup> nat) \<Rightarrow> bytes list \<times> bytes list \<Rightarrow> bootstrap_step list \<Rightarrow>
     (bootstrap_step list, order_error) result option" where
  "order_loop 0 steps_by_id dependents remaining ready ordered = None"
| "order_loop (Suc fuel) steps_by_id dependents remaining (ready_system, ready_user) ordered =
     (case pop_next_ready ready_system ready_user of
        (_, _, None) \<Rightarrow> Some (Ok ordered)
      | (ready_system, ready_user, Some step_id) \<Rightarrow>
         (case steps_by_id step_id of
            None \<Rightarrow> Some (Err (StepDisappeared step_id))
          | Some step \<Rightarrow>
             (case release steps_by_id (case dependents step_id of None \<Rightarrow> [] | Some ds \<Rightarrow> ds) remaining (ready_system, ready_user) of
                Err e \<Rightarrow> Some (Err e)
              | Ok (remaining, ready) \<Rightarrow> order_loop fuel steps_by_id dependents remaining ready (ordered @ [step]))))"

definition ordered_steps :: "bootstrap_step list \<Rightarrow> (bootstrap_step list, order_error) result option" where
  "ordered_steps steps =
     (case index_steps steps Map.empty of
        Err e \<Rightarrow> Some (Err e)
      | Ok steps_by_id \<Rightarrow>
         (case link_steps steps_by_id steps Map.empty Map.empty of
            Err e \<Rightarrow> Some (Err e)
          | Ok (dependents, remaining) \<Rightarrow>
             order_loop (Suc (length steps)) steps_by_id dependents remaining (ready_initial steps ([], [])) [] \<bind> (\<lambda>r.
               case r of
                 Err e \<Rightarrow> Some (Err e)
               | Ok ordered \<Rightarrow> Some (if length ordered \<noteq> length steps then Err DependencyCycle else Ok ordered))))"

section \<open>Index and links\<close>

definition by_id :: "bootstrap_step list \<Rightarrow> bytes \<rightharpoonup> bootstrap_step" where
  "by_id steps = map_of (map (\<lambda>s. (bs_id s, s)) steps)"

definition ids :: "bootstrap_step list \<Rightarrow> bytes list" where
  "ids steps = map bs_id steps"

lemma index_steps_Ok:
  "index_steps steps m = Ok m' \<longleftrightarrow> distinct (ids steps) \<and> (\<forall>s\<in>set steps. m (bs_id s) = None) \<and> m' = m ++ by_id steps"
proof (induction steps arbitrary: m)
  case (Cons step steps)
  define m1 where "m1 = m(bs_id step \<mapsto> step)"
  show ?case
  proof (cases "m (bs_id step) = None")
    case True
    have new: "m1 ++ by_id steps = m ++ by_id (step # steps)" if "bs_id step \<notin> set (ids steps)"
    proof -
      have "bs_id step \<notin> dom (by_id steps)" using that by (auto simp: by_id_def ids_def dom_map_of_conv_image_fst image_image)
      then show ?thesis by (auto simp: m1_def by_id_def map_add_def fun_eq_iff split: option.splits)
    qed
    have "index_steps (step # steps) m = index_steps steps m1" using True by (simp add: m1_def)
    moreover have "(\<forall>s\<in>set steps. m1 (bs_id s) = None) \<longleftrightarrow> bs_id step \<notin> set (ids steps) \<and> (\<forall>s\<in>set steps. m (bs_id s) = None)"
      by (auto simp: m1_def ids_def) (metis imageI)
    ultimately show ?thesis using Cons.IH [of m1] new True by (auto simp: ids_def)
  qed auto
qed (auto simp: by_id_def ids_def)

lemma by_id_Some:
  "distinct (ids steps) \<Longrightarrow> by_id steps x = Some s \<longleftrightarrow> s \<in> set steps \<and> bs_id s = x"
  unfolding by_id_def by (subst map_of_eq_Some_iff) (auto simp: ids_def comp_def)

lemma by_id_None: "by_id steps x = None \<longleftrightarrow> x \<notin> set (ids steps)"
  by (simp add: by_id_def ids_def map_of_eq_None_iff image_image)

text \<open>The entries of a map of lists, and those a list of steps adds.\<close>

definition entries :: "(bytes \<rightharpoonup> bytes list) \<Rightarrow> bytes \<Rightarrow> bytes list" where
  "entries m x = (case m x of None \<Rightarrow> [] | Some vs \<Rightarrow> vs)"

definition needers :: "bootstrap_step list \<Rightarrow> bytes \<Rightarrow> bytes list" where
  "needers steps x = concat (map (\<lambda>s. replicate (count_list (bs_depends_on s) x) (bs_id s)) steps)"

lemma entries_push [simp]: "entries (entry_push k v m) x = entries m x @ (if x = k then [v] else [])"
  by (simp add: entries_def entry_push_def)

definition allowed :: "(bytes \<rightharpoonup> bootstrap_step) \<Rightarrow> bootstrap_step \<Rightarrow> bytes \<Rightarrow> bool" where
  "allowed m step d \<longleftrightarrow> (case m d of None \<Rightarrow> False | Some ds \<Rightarrow> \<not> (bs_phase step = SystemPhase \<and> bs_phase ds = UserPhase))"

lemma replicate_snoc: "replicate n x @ [x] = x # replicate n x"
  by (simp add: replicate_append_same)

lemma link_dependencies_Ok:
  "case link_dependencies m step deps dependents of
     Ok dependents' \<Rightarrow> (\<forall>d\<in>set deps. allowed m step d) \<and>
       (\<forall>x. entries dependents' x = entries dependents x @ replicate (count_list deps x) (bs_id step))
   | Err e \<Rightarrow> \<not> (\<forall>d\<in>set deps. allowed m step d)"
proof (induction m step deps dependents rule: link_dependencies.induct)
  case (2 m step d deps dependents)
  show ?case
  proof (cases "allowed m step d")
    case True
    then obtain ds where ds: "m d = Some ds" "\<not> (bs_phase step = SystemPhase \<and> bs_phase ds = UserPhase)"
      by (auto simp: allowed_def split: option.splits)
    show ?thesis using 2 [OF ds] True ds
      by (auto simp: replicate_snoc split: result.splits)
  qed (auto simp: allowed_def split: option.splits)
qed simp

definition counts :: "bootstrap_step list \<Rightarrow> bytes \<rightharpoonup> nat" where
  "counts steps = map_of (map (\<lambda>s. (bs_id s, length (bs_depends_on s))) steps)"

lemma link_steps_Ok:
  "distinct (ids steps) \<Longrightarrow> case link_steps m steps dependents remaining of
     Ok (dependents', remaining') \<Rightarrow> (\<forall>s\<in>set steps. \<forall>d\<in>set (bs_depends_on s). allowed m s d) \<and>
       (\<forall>x. entries dependents' x = entries dependents x @ needers steps x) \<and> remaining' = remaining ++ counts steps
   | Err e \<Rightarrow> \<not> (\<forall>s\<in>set steps. \<forall>d\<in>set (bs_depends_on s). allowed m s d)"
proof (induction steps arbitrary: dependents remaining)
  case (Cons step steps)
  define rem1 where "rem1 = remaining(bs_id step \<mapsto> length (bs_depends_on step))"
  have upd: "rem1 ++ counts steps = remaining ++ counts (step # steps)"
  proof -
    have "bs_id step \<notin> dom (counts steps)" using Cons.prems by (auto simp: counts_def ids_def dom_map_of_conv_image_fst image_image)
    then show ?thesis by (auto simp: rem1_def counts_def map_add_def fun_eq_iff split: option.splits)
  qed
  have d: "distinct (ids steps)" using Cons.prems by (simp add: ids_def)
  show ?case
  proof (cases "link_dependencies m step (bs_depends_on step) dependents")
    case (Ok dependents1)
    let ?rest = "link_steps m steps dependents1 rem1"
    have head: "(\<forall>x\<in>set (bs_depends_on step). allowed m step x)"
        "\<And>x. entries dependents1 x = entries dependents x @ replicate (count_list (bs_depends_on step) x) (bs_id step)"
      using link_dependencies_Ok [where m = m and step = step and deps = "bs_depends_on step" and dependents = dependents] Ok by auto
    have whole: "link_steps m (step # steps) dependents remaining = ?rest" using Ok by (simp add: rem1_def)
    show ?thesis
    proof (cases ?rest)
      case rest: (Ok r)
      then show ?thesis using Cons.IH [OF d, of dependents1 rem1] head upd unfolding whole by (auto simp: needers_def)
    next
      case rest: (Err e)
      then show ?thesis using Cons.IH [OF d, of dependents1 rem1] unfolding whole by auto
    qed
  next
    case (Err e)
    then show ?thesis using link_dependencies_Ok [where m = m and step = step and deps = "bs_depends_on step" and dependents = dependents] by auto
  qed
qed (simp add: needers_def counts_def)

section \<open>The loop\<close>

lemma set_bt_insert [simp]: "set (bt_insert x xs) = insert x (set xs)"
  by (auto simp: bt_insert_def set_insort_key)

lemma distinct_bt_insert [simp]: "distinct xs \<Longrightarrow> distinct (bt_insert x xs)"
  by (simp add: bt_insert_def distinct_insort)

text \<open>Steps of one phase among those that are ready.\<close>

definition of_phase :: "bootstrap_step list \<Rightarrow> bootstrap_phase \<Rightarrow> bytes set \<Rightarrow> bytes set" where
  "of_phase steps p R = {x \<in> R. \<exists>s\<in>set steps. bs_id s = x \<and> bs_phase s = p}"

definition ready_ok :: "bootstrap_step list \<Rightarrow> bytes set \<Rightarrow> bytes list \<times> bytes list \<Rightarrow> bool" where
  "ready_ok steps R ready \<longleftrightarrow> distinct (fst ready) \<and> distinct (snd ready) \<and> R \<subseteq> set (ids steps) \<and>
     set (fst ready) = of_phase steps SystemPhase R \<and> set (snd ready) = of_phase steps UserPhase R"

lemma of_phase_insert:
  assumes "s \<in> set steps" "distinct (ids steps)"
  shows "of_phase steps p (insert (bs_id s) R) = (if bs_phase s = p then insert (bs_id s) else (\<lambda>X. X)) (of_phase steps p R)"
proof -
  have "t = s" if "t \<in> set steps" "bs_id t = bs_id s" for t
    using that assms by (auto simp: ids_def distinct_map inj_on_def)
  then show ?thesis using assms(1) by (auto simp: of_phase_def)
qed

lemma of_phase_remove: "of_phase steps p (R - {x}) = of_phase steps p R - {x}"
  by (auto simp: of_phase_def)

lemma of_phase_disjoint:
  assumes "distinct (ids steps)" "x \<in> of_phase steps p R" "x \<in> of_phase steps q R"
  shows "p = q"
proof -
  obtain s t where "s \<in> set steps" "bs_id s = x" "bs_phase s = p" "t \<in> set steps" "bs_id t = x" "bs_phase t = q"
    using assms(2,3) by (auto simp: of_phase_def)
  moreover from this have "s = t" using assms(1) by (auto simp: ids_def distinct_map inj_on_def)
  ultimately show ?thesis by simp
qed

lemma ready_insert_ok:
  assumes "ready_ok steps R ready" "s \<in> set steps" "distinct (ids steps)"
  shows "ready_ok steps (insert (bs_id s) R) (ready_insert s ready)"
  using assms of_phase_insert [OF assms(2,3)]
  by (auto simp: ready_ok_def ready_insert_def ids_def split: prod.splits bootstrap_phase.splits)

text \<open>
  Releasing a list of dependents: each count drops by how often its step is listed, and exactly
  the listed steps whose count is used up become ready.
\<close>

lemma release_Ok:
  assumes "ready_ok steps R ready" "distinct (ids steps)"
    and "\<forall>x\<in>set ys. x \<in> set (ids steps) \<and> remaining x \<noteq> None"
  shows "\<exists>remaining' ready'. release (by_id steps) ys remaining ready = Ok (remaining', ready') \<and>
    (\<forall>x. remaining' x = map_option (\<lambda>n. n - count_list ys x) (remaining x)) \<and>
    ready_ok steps (R \<union> {x \<in> set ys. the (remaining x) \<le> count_list ys x}) ready'"
  using assms
proof (induction ys arbitrary: remaining ready R)
  case (Cons y ys)
  then obtain n where n: "remaining y = Some n" by auto
  obtain s where s: "by_id steps y = Some s" "s \<in> set steps" "bs_id s = y"
    using Cons.prems(2,3) by_id_None [of steps y] by_id_Some [of steps y] by (cases "by_id steps y") auto
  define rem1 where "rem1 = remaining(y \<mapsto> n - 1)"
  define ready1 where "ready1 = (if n - 1 = 0 then ready_insert s ready else ready)"
  define R1 where "R1 = (if n - 1 = 0 then insert y R else R)"
  have step: "release (by_id steps) (y # ys) remaining ready = release (by_id steps) ys rem1 ready1"
    using n s by (simp add: rem1_def ready1_def Let_def)
  have "ready_ok steps R1 ready1"
    using ready_insert_ok [OF Cons.prems(1) s(2) Cons.prems(2)] Cons.prems(1) s(3) by (simp add: R1_def ready1_def)
  moreover have "\<forall>x\<in>set ys. x \<in> set (ids steps) \<and> rem1 x \<noteq> None" using Cons.prems(3) by (simp add: rem1_def)
  ultimately obtain remaining' ready' where r: "release (by_id steps) ys rem1 ready1 = Ok (remaining', ready')"
      "\<forall>x. remaining' x = map_option (\<lambda>n. n - count_list ys x) (rem1 x)"
      "ready_ok steps (R1 \<union> {x \<in> set ys. the (rem1 x) \<le> count_list ys x}) ready'"
    using Cons.IH [of R1 ready1 rem1] Cons.prems(2) by blast
  have "R1 \<union> {x \<in> set ys. the (rem1 x) \<le> count_list ys x} = R \<union> {x \<in> set (y # ys). the (remaining x) \<le> count_list (y # ys) x}"
    using n by (cases "y \<in> set ys") (auto simp: R1_def rem1_def)
  moreover have "\<forall>x. remaining' x = map_option (\<lambda>n. n - count_list (y # ys) x) (remaining x)"
    using r(2) n by (auto simp: rem1_def)
  ultimately show ?case using r(1,3) step by auto
qed (auto simp: option.map_ident)

text \<open>The number of a step's dependencies that have not been ordered yet.\<close>

definition missing :: "bootstrap_step \<Rightarrow> bytes set \<Rightarrow> nat" where
  "missing s done = length (filter (\<lambda>d. d \<notin> done) (bs_depends_on s))"

lemma missing_insert: "x \<notin> done \<Longrightarrow> missing s (insert x done) = missing s done - count_list (bs_depends_on s) x"
proof -
  assume x: "x \<notin> done"
  have "length (filter (\<lambda>d. d \<notin> done) ds) = length (filter (\<lambda>d. d \<notin> insert x done) ds) + count_list ds x" for ds
    using x by (induction ds) auto
  then show ?thesis by (simp add: missing_def)
qed

lemma count_needers:
  "distinct (ids steps) \<Longrightarrow> s \<in> set steps \<Longrightarrow> count_list (needers steps x) (bs_id s) = count_list (bs_depends_on s) x"
proof (induction steps)
  case (Cons t steps)
  have rep: "count_list (replicate n a) b = (if a = b then n else 0)" for n and a b :: bytes by (induction n) auto
  have none: "count_list (needers steps x) (bs_id t) = 0" if "bs_id t \<notin> set (ids steps)"
    using that by (auto simp: count_list_0_iff needers_def ids_def)
  show ?case using Cons none by (auto simp: needers_def ids_def rep count_list_append image_iff)
qed simp

section \<open>Orders\<close>

text \<open>Every step comes after its dependencies.\<close>

fun deps_first :: "bytes set \<Rightarrow> bootstrap_step list \<Rightarrow> bool" where
  "deps_first done [] \<longleftrightarrow> True"
| "deps_first done (s # steps) \<longleftrightarrow> set (bs_depends_on s) \<subseteq> done \<and> deps_first (insert (bs_id s) done) steps"

lemma deps_first_append: "deps_first done (xs @ ys) \<longleftrightarrow> deps_first done xs \<and> deps_first (done \<union> set (ids xs)) ys"
  by (induction xs arbitrary: "done") (auto simp: ids_def)

definition phases_sorted :: "bootstrap_step list \<Rightarrow> bool" where
  "phases_sorted steps \<longleftrightarrow> sorted_wrt (\<lambda>s t. bs_phase s = UserPhase \<longrightarrow> bs_phase t = UserPhase) steps"

lemma phases_sorted_snoc:
  "phases_sorted (steps @ [s]) \<longleftrightarrow> phases_sorted steps \<and> (bs_phase s = SystemPhase \<longrightarrow> (\<forall>t\<in>set steps. bs_phase t = SystemPhase))"
proof -
  have "p \<noteq> UserPhase \<longleftrightarrow> p = SystemPhase" for p by (cases p) auto
  then show ?thesis by (auto simp: phases_sorted_def sorted_wrt_append)
qed

definition links_ok :: "bootstrap_step list \<Rightarrow> bool" where
  "links_ok steps \<longleftrightarrow> distinct (ids steps) \<and> (\<forall>s\<in>set steps. \<forall>d\<in>set (bs_depends_on s). allowed (by_id steps) s d)"

definition order_ok :: "bootstrap_step list \<Rightarrow> (bytes \<rightharpoonup> nat) \<Rightarrow> bytes set \<Rightarrow> bytes list \<times> bytes list \<Rightarrow> bootstrap_step list \<Rightarrow> bool" where
  "order_ok steps remaining R ready ordered \<longleftrightarrow>
     distinct (ids ordered) \<and> set ordered \<subseteq> set steps \<and> ready_ok steps R ready \<and> R \<inter> set (ids ordered) = {} \<and>
     (\<forall>s\<in>set steps. remaining (bs_id s) = Some (missing s (set (ids ordered)))) \<and>
     (\<forall>s\<in>set steps. bs_id s \<in> set (ids ordered) \<union> R \<longleftrightarrow> missing s (set (ids ordered)) = 0) \<and>
     deps_first {} ordered \<and> phases_sorted ordered \<and> ((\<exists>s\<in>set ordered. bs_phase s = UserPhase) \<longrightarrow> fst ready = [])"

lemma ready_ok_pop:
  assumes ok: "ready_ok steps R ready" and d: "distinct (ids steps)" and pop: "pop_next_ready (fst ready) (snd ready) = (rs, ru, r)"
  shows "case r of None \<Rightarrow> R = {}
    | Some x \<Rightarrow> (\<exists>s. by_id steps x = Some s \<and> x \<in> R \<and> ready_ok steps (R - {x}) (rs, ru) \<and>
        (bs_phase s = UserPhase \<longrightarrow> fst ready = [] \<and> rs = []) \<and> (bs_phase s = SystemPhase \<longrightarrow> fst ready \<noteq> []))"
proof -
  obtain ys us where ready: "ready = (ys, us)" by fastforce
  have sets: "set ys = of_phase steps SystemPhase R" "set us = of_phase steps UserPhase R" "distinct ys" "distinct us"
      "R \<subseteq> set (ids steps)"
    using ok by (simp_all add: ready_ok_def ready)
  have found: "\<exists>s. by_id steps y = Some s \<and> y \<in> R \<and> bs_phase s = p" if "y \<in> of_phase steps p R" for y p
    using that by (auto simp: of_phase_def by_id_Some [OF d])
  show ?thesis
  proof (cases ys)
    case (Cons y ys')
    then have y: "y \<in> of_phase steps SystemPhase R" using sets(1) by auto
    then have "y \<notin> of_phase steps UserPhase R" using of_phase_disjoint [OF d] by blast
    then have "ready_ok steps (R - {y}) (ys', us)"
      using sets Cons by (auto simp: ready_ok_def of_phase_remove)
    then show ?thesis using pop ready Cons found [OF y] by (auto simp: pop_next_ready_def)
  next
    case Nil
    show ?thesis
    proof (cases us)
      case (Cons y us')
      then have y: "y \<in> of_phase steps UserPhase R" using sets(2) by auto
      have "ready_ok steps (R - {y}) ([], us')"
        using sets Cons Nil by (auto simp: ready_ok_def of_phase_remove)
      then show ?thesis using pop ready Cons Nil found [OF y] by (auto simp: pop_next_ready_def)
    next
      case none: Nil
      have "x \<in> of_phase steps SystemPhase R \<union> of_phase steps UserPhase R" if "x \<in> R" for x
      proof -
        from that sets(5) obtain s where "s \<in> set steps" "bs_id s = x" by (auto simp: ids_def)
        then show ?thesis using that by (cases "bs_phase s") (auto simp: of_phase_def)
      qed
      then have "R = {}" using sets(1,2) Nil none by auto
      then show ?thesis using pop ready Nil none by (simp add: pop_next_ready_def)
    qed
  qed
qed

lemma missing_0: "missing s done = 0 \<longleftrightarrow> set (bs_depends_on s) \<subseteq> done"
  by (auto simp: missing_def filter_empty_conv)

lemma set_needers: "set (needers steps x) = {bs_id s | s. s \<in> set steps \<and> x \<in> set (bs_depends_on s)}"
proof -
  have "count_list ds x \<noteq> 0 \<longleftrightarrow> x \<in> set ds" for ds by (simp add: count_list_0_iff)
  then show ?thesis by (force simp: needers_def set_replicate_conv_if)
qed

text \<open>One round: the step that is popped is appended, and what it released is ready.\<close>

lemma order_step:
  assumes ok: "order_ok steps remaining R ready ordered" and links: "links_ok steps"
    and pop: "pop_next_ready (fst ready) (snd ready) = (rs, ru, Some x)"
  shows "\<exists>s remaining' R' ready'. by_id steps x = Some s \<and>
    release (by_id steps) (needers steps x) remaining (rs, ru) = Ok (remaining', ready') \<and>
    order_ok steps remaining' R' ready' (ordered @ [s])"
proof -
  let ?D = "set (ids ordered)" and ?ys = "needers steps x"
  have d: "distinct (ids steps)" using links by (simp add: links_ok_def)
  have rok: "ready_ok steps R ready" using ok by (simp add: order_ok_def)
  from ready_ok_pop [OF rok d pop] obtain s where s: "by_id steps x = Some s" "x \<in> R" "ready_ok steps (R - {x}) (rs, ru)"
      "bs_phase s = UserPhase \<longrightarrow> rs = []" "bs_phase s = SystemPhase \<longrightarrow> fst ready \<noteq> []" by auto
  have sx: "s \<in> set steps" "bs_id s = x" using by_id_Some [OF d] s(1) by auto
  have x: "x \<notin> ?D" using ok s(2) by (auto simp: order_ok_def)
  have rem: "remaining (bs_id t) = Some (missing t ?D)" if "t \<in> set steps" for t using ok that by (simp add: order_ok_def)
  have zero: "bs_id t \<in> ?D \<union> R \<longleftrightarrow> missing t ?D = 0" if "t \<in> set steps" for t using ok that by (simp add: order_ok_def)
  have cnt: "count_list ?ys (bs_id t) = count_list (bs_depends_on t) x" if "t \<in> set steps" for t
    using count_needers [OF d that] .
  have miss: "missing t (insert x ?D) = missing t ?D - count_list (bs_depends_on t) x" for t by (rule missing_insert [OF x])
  have "\<forall>y\<in>set ?ys. y \<in> set (ids steps) \<and> remaining y \<noteq> None" using rem by (auto simp: set_needers ids_def)
  from release_Ok [OF s(3) d this] obtain remaining' ready' where rel:
      "release (by_id steps) ?ys remaining (rs, ru) = Ok (remaining', ready')"
      "\<And>y. remaining' y = map_option (\<lambda>n. n - count_list ?ys y) (remaining y)"
      "ready_ok steps (R - {x} \<union> {y \<in> set ?ys. the (remaining y) \<le> count_list ?ys y}) ready'" by auto
  let ?R = "R - {x} \<union> {y \<in> set ?ys. the (remaining y) \<le> count_list ?ys y}"
  have listed: "bs_id t \<in> set ?ys \<longleftrightarrow> 0 < count_list (bs_depends_on t) x" if "t \<in> set steps" for t
    using cnt [OF that] count_list_0_iff [of ?ys "bs_id t"] by auto
  have R: "bs_id t \<in> ?R \<longleftrightarrow> bs_id t \<in> R - {x} \<or> 0 < count_list (bs_depends_on t) x \<and> missing t ?D \<le> count_list (bs_depends_on t) x"
    if "t \<in> set steps" for t using listed [OF that] cnt [OF that] rem [OF that] by auto
  have waits: "missing t ?D \<noteq> 0" if "x \<in> set (bs_depends_on t)" for t using that x by (auto simp: missing_0)
  have D': "set (ids (ordered @ [s])) = insert x ?D" using sx(2) by (auto simp: ids_def)
  have "order_ok steps remaining' ?R ready' (ordered @ [s])"
    unfolding order_ok_def D'
  proof (intro conjI ballI)
    show "distinct (ids (ordered @ [s]))" using ok x sx by (simp add: order_ok_def ids_def)
    show "set (ordered @ [s]) \<subseteq> set steps" using ok sx by (simp add: order_ok_def)
    show "?R \<inter> insert x ?D = {}"
    proof -
      have "y \<notin> insert x ?D" if "y \<in> set ?ys" for y
      proof -
        obtain t where t: "t \<in> set steps" "bs_id t = y" "x \<in> set (bs_depends_on t)" using \<open>y \<in> set ?ys\<close> by (auto simp: set_needers)
        then show ?thesis using zero [OF t(1)] waits [OF t(3)] s(2) by auto
      qed
      then show ?thesis using ok by (auto simp: order_ok_def)
    qed
    show "remaining' (bs_id t) = Some (missing t (insert x ?D))" if "t \<in> set steps" for t
      using rel(2) [of "bs_id t"] rem [OF that] cnt [OF that] miss by simp
    show "bs_id t \<in> insert x ?D \<union> ?R \<longleftrightarrow> missing t (insert x ?D) = 0" if "t \<in> set steps" for t
      using R [OF that] zero [OF that] miss [of t] s(2) by auto
    have "missing s ?D = 0" using zero [OF sx(1)] sx(2) s(2) by simp
    then show "deps_first {} (ordered @ [s])" using ok by (auto simp: order_ok_def deps_first_append missing_0)
    have late: "\<forall>t\<in>set ordered. bs_phase t = SystemPhase" if "bs_phase s = SystemPhase"
      using ok s(5) that by (auto simp: order_ok_def) (metis bootstrap_phase.exhaust)
    then show "phases_sorted (ordered @ [s])" using ok by (simp add: order_ok_def phases_sorted_snoc)
    show "(\<exists>t\<in>set (ordered @ [s]). bs_phase t = UserPhase) \<longrightarrow> fst ready' = []"
    proof
      assume "\<exists>t\<in>set (ordered @ [s]). bs_phase t = UserPhase"
      then have user: "bs_phase s = UserPhase" using late by (cases "bs_phase s") auto
      have "y \<notin> of_phase steps SystemPhase ?R" for y
      proof
        assume "y \<in> of_phase steps SystemPhase ?R"
        then obtain t where t: "t \<in> set steps" "bs_id t = y" "bs_phase t = SystemPhase" "y \<in> ?R" by (auto simp: of_phase_def)
        have "y \<notin> R - {x}" using s(3,4) user t by (auto simp: ready_ok_def of_phase_def)
        then have "0 < count_list (bs_depends_on t) x" using R [OF t(1)] t(2,4) by auto
        then have "x \<in> set (bs_depends_on t)" by (metis count_notin less_irrefl)
        then have "allowed (by_id steps) t x" using links t(1) by (simp add: links_ok_def)
        then show False using s(1) user t(3) by (simp add: allowed_def)
      qed
      then have none: "of_phase steps SystemPhase ?R = {}" by (intro equals0I) (rule notE)
      have "set (fst ready') = of_phase steps SystemPhase ?R" using rel(3) unfolding ready_ok_def by (elim conjE)
      then show "fst ready' = []" unfolding none by simp
    qed
  qed (use rel(3) in simp)
  then show ?thesis using s(1) rel(1) by blast
qed

lemma distinct_ids: "distinct (ids steps) \<Longrightarrow> distinct steps"
  by (simp add: ids_def distinct_map)

lemma ordered_length:
  assumes "order_ok steps remaining R ready ordered"
  shows "length ordered \<le> length steps"
proof -
  have "distinct ordered" "set ordered \<subseteq> set steps" using assms distinct_ids by (auto simp: order_ok_def)
  then have "length ordered \<le> card (set steps)" by (metis card_mono distinct_card List.finite_set)
  then show ?thesis using card_length [of steps] by linarith
qed

lemma order_loop_ends:
  assumes "order_ok steps remaining R ready ordered" "links_ok steps" "\<And>x. entries dependents x = needers steps x"
    and "length steps < fuel + length ordered"
  shows "\<exists>ordered' remaining' ready'. order_loop fuel (by_id steps) dependents remaining ready ordered = Some (Ok ordered') \<and>
    order_ok steps remaining' {} ready' ordered'"
  using assms
proof (induction fuel arbitrary: remaining R ready ordered)
  case 0
  then show ?case using ordered_length [OF 0(1)] by simp
next
  case (Suc fuel)
  obtain rs ru r where pop: "pop_next_ready (fst ready) (snd ready) = (rs, ru, r)" using prod_cases3 by blast
  show ?case
  proof (cases r)
    case None
    have "R = {}" using ready_ok_pop [of steps R ready rs ru r] Suc.prems(1,2) pop None by (simp add: order_ok_def links_ok_def)
    then show ?thesis using Suc.prems(1) pop None by (cases ready) auto
  next
    case (Some x)
    from order_step [OF Suc.prems(1,2) pop [unfolded Some]] obtain s remaining' R' ready' where
      step: "by_id steps x = Some s" "release (by_id steps) (needers steps x) remaining (rs, ru) = Ok (remaining', ready')"
        "order_ok steps remaining' R' ready' (ordered @ [s])" by blast
    have "(case dependents x of None \<Rightarrow> [] | Some ds \<Rightarrow> ds) = needers steps x" using Suc.prems(3) by (simp add: entries_def)
    then have "order_loop (Suc fuel) (by_id steps) dependents remaining ready ordered =
        order_loop fuel (by_id steps) dependents remaining' ready' (ordered @ [s])"
      using pop Some step by (cases ready) simp
    then show ?thesis using Suc.IH [OF step(3) Suc.prems(2,3)] Suc.prems(4) by simp
  qed
qed

lemma ready_initial_ok:
  assumes "ready_ok steps R ready" "set xs \<subseteq> set steps" "distinct (ids steps)"
  shows "ready_ok steps (R \<union> {bs_id s | s. s \<in> set xs \<and> bs_depends_on s = []}) (ready_initial xs ready)"
  using assms
proof (induction xs arbitrary: R ready)
  case (Cons s xs)
  let ?R = "if bs_depends_on s = [] then insert (bs_id s) R else R"
  have "ready_ok steps ?R (if bs_depends_on s = [] then ready_insert s ready else ready)"
    using Cons.prems ready_insert_ok [of steps R ready s] by simp
  from Cons.IH [OF this] Cons.prems have "ready_ok steps (?R \<union> {bs_id t | t. t \<in> set xs \<and> bs_depends_on t = []}) (ready_initial (s # xs) ready)"
    by simp
  moreover have "?R \<union> {bs_id t | t. t \<in> set xs \<and> bs_depends_on t = []} = R \<union> {bs_id t | t. t \<in> set (s # xs) \<and> bs_depends_on t = []}"
    by auto
  ultimately show ?case by simp
qed simp

lemma order_start:
  assumes "links_ok steps"
  shows "order_ok steps (counts steps) {bs_id s | s. s \<in> set steps \<and> bs_depends_on s = []} (ready_initial steps ([], [])) []"
proof -
  have d: "distinct (ids steps)" using assms by (simp add: links_ok_def)
  have "ready_ok steps {} ([], [])" by (simp add: ready_ok_def of_phase_def)
  from ready_initial_ok [OF this _ d, of steps]
  have ready: "ready_ok steps {bs_id s | s. s \<in> set steps \<and> bs_depends_on s = []} (ready_initial steps ([], []))" by simp
  have counts: "counts steps (bs_id s) = Some (length (bs_depends_on s))" if "s \<in> set steps" for s
    unfolding counts_def using that d by (subst map_of_eq_Some_iff) (auto simp: ids_def comp_def)
  have same: "t = s" if "t \<in> set steps" "s \<in> set steps" "bs_id s = bs_id t" for s t
    using that d by (auto simp: ids_def distinct_map inj_on_def)
  show ?thesis unfolding order_ok_def
    using ready counts same by (auto simp: ids_def missing_def phases_sorted_def)
qed

text \<open>The loop stops with every step, unless some steps wait for each other.\<close>

lemma order_complete:
  assumes ok: "order_ok steps remaining {} ready ordered" and d: "distinct (ids steps)"
    and order: "mset order = mset steps" "deps_first {} order"
  shows "set ordered = set steps"
proof (rule ccontr)
  assume "set ordered \<noteq> set steps"
  moreover have same: "set order = set steps" using order(1) by (rule mset_eq_setD)
  moreover have sub: "set ordered \<subseteq> set steps" using ok by (simp add: order_ok_def)
  ultimately obtain s0 where "s0 \<in> set order" "s0 \<notin> set ordered" by blast
  then obtain pre s post where split: "order = pre @ s # post" "s \<notin> set ordered" "\<forall>t\<in>set pre. t \<in> set ordered"
    using split_list_first_prop [of order "\<lambda>s. s \<notin> set ordered"] by blast
  have "set (bs_depends_on s) \<subseteq> set (ids pre)" using order(2) split(1) by (simp add: deps_first_append)
  also have "\<dots> \<subseteq> set (ids ordered)" using split(3) by (auto simp: ids_def)
  finally have "missing s (set (ids ordered)) = 0" by (simp add: missing_0)
  moreover have s: "s \<in> set steps" using split(1) same by auto
  ultimately have "bs_id s \<in> set (ids ordered)" using ok by (simp add: order_ok_def)
  then obtain t where t: "t \<in> set ordered" "bs_id t = bs_id s" by (auto simp: ids_def)
  moreover have "t \<in> set steps" using t sub by blast
  ultimately have "t = s" using d s by (auto simp: ids_def distinct_map inj_on_def)
  then show False using split(2) t(1) by simp
qed

lemma permutation:
  assumes "set ordered \<subseteq> set steps" "distinct ordered" "distinct steps"
  shows "length ordered = length steps \<longleftrightarrow> mset ordered = mset steps" "set ordered = set steps \<longleftrightarrow> mset ordered = mset steps"
proof -
  show sets: "set ordered = set steps \<longleftrightarrow> mset ordered = mset steps"
    using assms(2,3) by (simp add: set_eq_iff_mset_eq_distinct)
  have "length ordered = length steps \<Longrightarrow> set ordered = set steps"
    using assms by (metis card_subset_eq distinct_card List.finite_set)
  then show "length ordered = length steps \<longleftrightarrow> mset ordered = mset steps" using sets by (metis mset_eq_length)
qed

lemma ordered_steps_unfold:
  shows "links_ok steps \<Longrightarrow> \<exists>ordered remaining ready. order_ok steps remaining {} ready ordered \<and>
      ordered_steps steps = Some (if length ordered \<noteq> length steps then Err DependencyCycle else Ok ordered)"
    and "\<not> links_ok steps \<Longrightarrow> \<exists>e. ordered_steps steps = Some (Err e)"
proof -
  assume ok: "links_ok steps"
  then have d: "distinct (ids steps)" by (simp add: links_ok_def)
  have index: "index_steps steps Map.empty = Ok (by_id steps)" using d by (simp add: index_steps_Ok)
  have linked: "\<forall>s\<in>set steps. \<forall>x\<in>set (bs_depends_on s). allowed (by_id steps) s x" using ok by (simp add: links_ok_def)
  obtain dependents where link: "link_steps (by_id steps) steps Map.empty Map.empty = Ok (dependents, counts steps)"
      "\<And>x. entries dependents x = needers steps x"
  proof (cases "link_steps (by_id steps) steps Map.empty Map.empty")
    case (Ok r)
    then show ?thesis using link_steps_Ok [OF d, where m = "by_id steps" and dependents = Map.empty and remaining = Map.empty] that
      by (cases r) (simp add: entries_def)
  next
    case (Err e)
    then show ?thesis using link_steps_Ok [OF d, where m = "by_id steps" and dependents = Map.empty and remaining = Map.empty] linked by simp
  qed
  from order_loop_ends [OF order_start [OF ok] ok link(2), of "Suc (length steps)"]
  obtain ordered remaining ready where run: "order_loop (Suc (length steps)) (by_id steps) dependents (counts steps)
      (ready_initial steps ([], [])) [] = Some (Ok ordered)" and final: "order_ok steps remaining {} ready ordered" by auto
  have "ordered_steps steps = Some (if length ordered \<noteq> length steps then Err DependencyCycle else Ok ordered)"
    using run index link(1) unfolding ordered_steps_def by simp
  with final show "\<exists>ordered remaining ready. order_ok steps remaining {} ready ordered \<and>
      ordered_steps steps = Some (if length ordered \<noteq> length steps then Err DependencyCycle else Ok ordered)"
    by blast
next
  assume bad: "\<not> links_ok steps"
  show "\<exists>e. ordered_steps steps = Some (Err e)"
  proof (cases "distinct (ids steps)")
    case False
    then have "index_steps steps Map.empty \<noteq> Ok m" for m by (simp add: index_steps_Ok)
    then show ?thesis by (cases "index_steps steps Map.empty") (auto simp: ordered_steps_def)
  next
    case True
    then have index: "index_steps steps Map.empty = Ok (by_id steps)" by (simp add: index_steps_Ok)
    have "\<exists>e. link_steps (by_id steps) steps Map.empty Map.empty = Err e"
      using link_steps_Ok [OF True, where m = "by_id steps" and dependents = Map.empty and remaining = Map.empty] bad True
      by (auto simp: links_ok_def split: result.splits)
    then show ?thesis using index by (auto simp: ordered_steps_def)
  qed
qed

lemma ordered_steps_facts:
  assumes "ordered_steps steps = Some (Ok ordered)"
  shows "distinct (ids ordered)" "set ordered = set steps" "deps_first {} ordered" "phases_sorted ordered" "mset ordered = mset steps"
proof -
  have links: "links_ok steps" using ordered_steps_unfold(2) [of steps] assms by auto
  from ordered_steps_unfold(1) [OF links] obtain o1 remaining ready where o1: "order_ok steps remaining {} ready o1"
    "ordered_steps steps = Some (if length o1 \<noteq> length steps then Err DependencyCycle else Ok o1)" by blast
  then have ok: "order_ok steps remaining {} ready ordered" "length ordered = length steps"
    using assms by (simp_all split: if_splits)
  then show "distinct (ids ordered)" "deps_first {} ordered" "phases_sorted ordered" by (simp_all add: order_ok_def)
  have "mset ordered = mset steps"
    using permutation(1) [of ordered steps] ok links distinct_ids [of ordered] distinct_ids [of steps]
    by (simp add: order_ok_def links_ok_def)
  then show "mset ordered = mset steps" "set ordered = set steps" by (assumption, rule mset_eq_setD)
qed

text \<open>
  Claim C35.  A bootstrap plan is ordered exactly when it can be.  \<open>ordered_steps\<close> always returns; it
  succeeds if and only if the step ids are distinct, no system step depends on a user step and
  some arrangement of the steps puts every dependency first; and then the order it returns is a
  permutation of the plan's steps with every step after its dependencies and all system steps
  before all user steps.
\<close>

theorem ordered_steps_correct:
  "ordered_steps steps \<noteq> None \<and>
   ((\<exists>ordered. ordered_steps steps = Some (Ok ordered)) \<longleftrightarrow>
      distinct (ids steps) \<and>
      (\<forall>s\<in>set steps. \<forall>t\<in>set steps. bs_id t \<in> set (bs_depends_on s) \<longrightarrow> bs_phase s = SystemPhase \<longrightarrow> bs_phase t = SystemPhase) \<and>
      (\<exists>order. mset order = mset steps \<and> deps_first {} order)) \<and>
   (\<forall>ordered. ordered_steps steps = Some (Ok ordered) \<longrightarrow>
      mset ordered = mset steps \<and> deps_first {} ordered \<and> phases_sorted ordered)"
proof (cases "links_ok steps")
  case False
  have "links_ok steps" if d: "distinct (ids steps)"
      and phases: "\<forall>s\<in>set steps. \<forall>t\<in>set steps. bs_id t \<in> set (bs_depends_on s) \<longrightarrow> bs_phase s = SystemPhase \<longrightarrow> bs_phase t = SystemPhase"
      and perm: "mset order = mset steps" and first: "deps_first {} order" for order
  proof -
    have "allowed (by_id steps) s d" if sd: "s \<in> set steps" "d \<in> set (bs_depends_on s)" for s d
    proof -
      have "s \<in> set order" using sd(1) mset_eq_setD [OF perm] by simp
      then obtain pre post where "order = pre @ s # post" by (meson split_list)
      then have "d \<in> set (ids pre)" using first sd(2) by (auto simp: deps_first_append)
      then obtain t where t: "t \<in> set steps" "bs_id t = d"
        using mset_eq_setD [OF perm] \<open>order = pre @ s # post\<close> by (auto simp: ids_def)
      then have "by_id steps d = Some t" using d by (simp add: by_id_Some)
      then show ?thesis using phases sd t by (auto simp: allowed_def)
    qed
    then show ?thesis using d by (simp add: links_ok_def)
  qed
  then show ?thesis using ordered_steps_unfold(2) [OF False] False by auto
next
  case True
  then obtain ordered remaining ready where ok: "order_ok steps remaining {} ready ordered"
      "ordered_steps steps = Some (if length ordered \<noteq> length steps then Err DependencyCycle else Ok ordered)"
    using ordered_steps_unfold(1) by blast
  have d: "distinct (ids steps)" using True by (simp add: links_ok_def)
  have o: "deps_first {} ordered" "phases_sorted ordered" "set ordered \<subseteq> set steps" "distinct ordered"
    using ok(1) distinct_ids by (auto simp: order_ok_def)
  note perm = permutation [OF o(3,4) distinct_ids [OF d]]
  have "(\<exists>order. mset order = mset steps \<and> deps_first {} order) \<longleftrightarrow> length ordered = length steps"
    using order_complete [OF ok(1) d] perm o(1) by metis
  moreover have "bs_phase t = SystemPhase"
    if "s \<in> set steps" "t \<in> set steps" "bs_id t \<in> set (bs_depends_on s)" "bs_phase s = SystemPhase" for s t
  proof -
    have "by_id steps (bs_id t) = Some t" using that(2) d by (simp add: by_id_Some)
    moreover have "allowed (by_id steps) s (bs_id t)" using True that(1,3) by (simp add: links_ok_def)
    ultimately show ?thesis using that(4) by (cases "bs_phase t") (auto simp: allowed_def)
  qed
  ultimately show ?thesis using ok(2) d perm(1) o(1,2) by auto
qed

text \<open>Three steps out of order, a user step first.\<close>

definition demo_step :: "u8 \<Rightarrow> bootstrap_phase \<Rightarrow> bytes list \<Rightarrow> bootstrap_step" where
  "demo_step i phase deps = \<lparr> bs_id = [i], bs_label = [], bs_phase = phase, bs_depends_on = deps, bs_resources = [],
     bs_script = [], bs_working_directory = [], bs_timeout_seconds = 60 \<rparr>"

theorem ordered_steps_correct_witness:
  "let steps = [demo_step 1 UserPhase [], demo_step 2 SystemPhase [[3]], demo_step 3 SystemPhase []];
       ordered = [demo_step 3 SystemPhase [], demo_step 2 SystemPhase [[3]], demo_step 1 UserPhase []] in
   ordered_steps steps = Some (Ok ordered) \<and> mset ordered = mset steps \<and> deps_first {} ordered \<and> phases_sorted ordered"
proof -
  let ?steps = "[demo_step 1 UserPhase [], demo_step 2 SystemPhase [[3]], demo_step 3 SystemPhase []]"
  let ?ordered = "[demo_step 3 SystemPhase [], demo_step 2 SystemPhase [[3]], demo_step 1 UserPhase []]"
  have run: "ordered_steps ?steps = Some (Ok ?ordered)" by code_simp
  show ?thesis using ordered_steps_correct [of ?steps] run unfolding Let_def by blast
qed

end
