(* ===== verification/BootstrapRun.thy ===== *)
theory BootstrapRun
  imports BootstrapOrder
begin

text \<open>
  Running a bootstrap plan: the scheduler of \<open>bootstrap/scheduler.rs\<close>, the persisted state and the
  executor of \<open>apps/agentdp-guest/src/system/bootstrap.rs\<close>.

  The executor's loop starts steps while it can and then waits for one of the running tasks, in
  any order; \<open>exec_step\<close> is that loop as a relation.  A task is its result, chosen freely: an exit
  status, whether it timed out, and the tails of its output; or the error of a step that could not be
  started, waited for or read; or a task that panicked and has no result at all.  The errors end the
  run.  Saving the state and sending a message may fail as well and then end the run in the middle of
  a move; those ends are not modelled.  Output chunks are forwarded without touching the state and are
  left out.  A \<open>BTreeMap\<close> whose values
  are searched is the list of its entries in key order.  \<open>bx_saved\<close> is the state on disk.
\<close>

section \<open>Persisted state\<close>

type_synonym i32 = "32 word"

datatype step_record_status = RecordPending | RecordRunning | RecordPassed | RecordFailed

record step_record =
  sr_id :: bytes
  sr_phase :: bootstrap_phase
  sr_status :: step_record_status
  sr_attempt :: u32
  sr_exit_status :: "i32 option"
  sr_duration_ms :: "u64 option"
  sr_message :: "bytes option"
  sr_stdout_tail :: "bytes option"
  sr_stderr_tail :: "bytes option"

record bootstrap_state =
  st_plan_hash :: bytes
  st_attempt_epoch :: u64
  st_steps :: "(bytes \<times> step_record) list"

record bootstrap_failed =
  bf_attempt_epoch :: u64
  bf_step :: bytes
  bf_exit_status :: i32
  bf_duration_ms :: u64
  bf_message :: bytes
  bf_stdout_tail :: bytes
  bf_stderr_tail :: bytes

fun bt_put :: "bytes \<Rightarrow> 'v \<Rightarrow> (bytes \<times> 'v) list \<Rightarrow> (bytes \<times> 'v) list" where
  "bt_put k v [] = [(k, v)]"
| "bt_put k v ((k', v') # m) =
     (if k = k' then (k, v) # m else if k < k' then (k, v) # (k', v') # m else (k', v') # bt_put k v m)"

definition replace_record :: "step_record \<Rightarrow> bootstrap_state \<Rightarrow> bootstrap_state" where
  "replace_record r st = st\<lparr> st_steps := bt_put (sr_id r) r (st_steps st) \<rparr>"

definition step_passed :: "bootstrap_state \<Rightarrow> bytes \<Rightarrow> bool" where
  "step_passed st step = (case map_of (st_steps st) step of None \<Rightarrow> False | Some r \<Rightarrow> sr_status r = RecordPassed)"

definition all_steps_passed :: "bootstrap_state \<Rightarrow> bootstrap_step list \<Rightarrow> bool" where
  "all_steps_passed st steps = list_all (\<lambda>s. step_passed st (bs_id s)) steps"

definition failed_step_record :: "bootstrap_state \<Rightarrow> step_record option" where
  "failed_step_record st = List.find (\<lambda>r. sr_status r = RecordFailed) (map snd (st_steps st))"

fun update_first :: "('v \<Rightarrow> bool) \<Rightarrow> ('v \<Rightarrow> 'v) \<Rightarrow> ('k \<times> 'v) list \<Rightarrow> ('k \<times> 'v) list" where
  "update_first p f [] = []"
| "update_first p f ((k, v) # m) = (if p v then (k, f v) # m else (k, v) # update_first p f m)"

definition interrupted_step :: "bootstrap_state \<Rightarrow> step_record option" where
  "interrupted_step st = List.find (\<lambda>r. sr_status r = RecordRunning) (map snd (st_steps st))"

definition reset_record :: "step_record \<Rightarrow> step_record" where
  "reset_record r = r\<lparr> sr_status := RecordPending, sr_exit_status := None, sr_duration_ms := None, sr_message := None,
     sr_stdout_tail := None, sr_stderr_tail := None \<rparr>"

definition state_prepare_retry :: "u64 \<Rightarrow> bootstrap_state \<Rightarrow> bootstrap_state \<times> bool" where
  "state_prepare_retry attempt_epoch st =
     (let unfinished = (\<lambda>r. sr_status r = RecordRunning \<or> sr_status r = RecordFailed);
          found_failure = list_ex (\<lambda>(_, r). unfinished r) (st_steps st);
          st = st\<lparr> st_steps := map (\<lambda>(k, r). (k, if unfinished r then reset_record r else r)) (st_steps st) \<rparr>
      in (if found_failure then st\<lparr> st_attempt_epoch := attempt_epoch \<rparr> else st, found_failure))"

definition start_step :: "bootstrap_step \<Rightarrow> bootstrap_state \<Rightarrow> bootstrap_state \<times> u32" where
  "start_step step st =
     (let attempt = (case map_of (st_steps st) (bs_id step) of None \<Rightarrow> 0 | Some r \<Rightarrow> sr_attempt r) + 1 in
      (replace_record \<lparr> sr_id = bs_id step, sr_phase = bs_phase step, sr_status = RecordRunning, sr_attempt = attempt,
         sr_exit_status = None, sr_duration_ms = None, sr_message = None, sr_stdout_tail = None, sr_stderr_tail = None \<rparr> st,
       attempt))"

definition current_attempt :: "bytes \<Rightarrow> bootstrap_state \<Rightarrow> u32" where
  "current_attempt step st = (case map_of (st_steps st) step of None \<Rightarrow> 1 | Some r \<Rightarrow> sr_attempt r)"

definition mark_passed :: "bootstrap_step \<Rightarrow> i32 \<Rightarrow> u64 \<Rightarrow> bootstrap_state \<Rightarrow> bootstrap_state" where
  "mark_passed step exit_status duration_ms st =
     replace_record \<lparr> sr_id = bs_id step, sr_phase = bs_phase step, sr_status = RecordPassed,
       sr_attempt = current_attempt (bs_id step) st, sr_exit_status = Some exit_status, sr_duration_ms = Some duration_ms,
       sr_message = None, sr_stdout_tail = None, sr_stderr_tail = None \<rparr> st"

definition mark_failed ::
    "bootstrap_step \<Rightarrow> i32 \<Rightarrow> u64 \<Rightarrow> bytes \<Rightarrow> bytes \<Rightarrow> bytes \<Rightarrow> bootstrap_state \<Rightarrow> bootstrap_state \<times> bootstrap_failed" where
  "mark_failed step exit_status duration_ms message stdout_tail stderr_tail st =
     (replace_record \<lparr> sr_id = bs_id step, sr_phase = bs_phase step, sr_status = RecordFailed,
        sr_attempt = current_attempt (bs_id step) st, sr_exit_status = Some exit_status, sr_duration_ms = Some duration_ms,
        sr_message = Some message, sr_stdout_tail = Some stdout_tail, sr_stderr_tail = Some stderr_tail \<rparr> st,
      \<lparr> bf_attempt_epoch = st_attempt_epoch st, bf_step = bs_id step, bf_exit_status = exit_status,
        bf_duration_ms = duration_ms, bf_message = message, bf_stdout_tail = stdout_tail, bf_stderr_tail = stderr_tail \<rparr>)"

definition bootstrap_failed_event :: "step_record \<Rightarrow> u64 \<Rightarrow> bootstrap_failed" where
  "bootstrap_failed_event r attempt_epoch =
     \<lparr> bf_attempt_epoch = attempt_epoch, bf_step = sr_id r,
       bf_exit_status = (case sr_exit_status r of None \<Rightarrow> - 1 | Some n \<Rightarrow> n),
       bf_duration_ms = (case sr_duration_ms r of None \<Rightarrow> 0 | Some n \<Rightarrow> n),
       bf_message = (case sr_message r of None \<Rightarrow> byte_string ''bootstrap step failed'' | Some m \<Rightarrow> m),
       bf_stdout_tail = (case sr_stdout_tail r of None \<Rightarrow> [] | Some t \<Rightarrow> t),
       bf_stderr_tail = (case sr_stderr_tail r of None \<Rightarrow> [] | Some t \<Rightarrow> t) \<rparr>"

section \<open>Scheduler\<close>

record bootstrap_scheduler =
  sc_steps :: "bootstrap_step list"
  sc_running :: "bytes list"
  sc_max_parallelism :: nat
  sc_stopping :: bool

text \<open>The parallelism is what the system reports available, at least one.\<close>

definition scheduler_new :: "nat \<Rightarrow> bootstrap_step list \<Rightarrow> (bootstrap_scheduler, order_error) result option" where
  "scheduler_new parallelism plan =
     ordered_steps plan \<bind> (\<lambda>r. Some (case r of
         Err e \<Rightarrow> Err e
       | Ok steps \<Rightarrow> Ok \<lparr> sc_steps = steps, sc_running = [], sc_max_parallelism = parallelism, sc_stopping = False \<rparr>))"

definition can_start :: "bootstrap_scheduler \<Rightarrow> bool" where
  "can_start sc \<longleftrightarrow> \<not> sc_stopping sc \<and> length (sc_running sc) < sc_max_parallelism sc"

definition phase_ready :: "bootstrap_scheduler \<Rightarrow> bootstrap_step \<Rightarrow> bootstrap_state \<Rightarrow> bool" where
  "phase_ready sc step st \<longleftrightarrow> bs_phase step = SystemPhase \<or>
     list_all (\<lambda>c. step_passed st (bs_id c)) (filter (\<lambda>c. bs_phase c = SystemPhase) (sc_steps sc))"

definition dependencies_passed :: "bootstrap_step \<Rightarrow> bootstrap_state \<Rightarrow> bool" where
  "dependencies_passed step st = list_all (step_passed st) (bs_depends_on step)"

definition resources_available :: "bootstrap_scheduler \<Rightarrow> bootstrap_step \<Rightarrow> bool" where
  "resources_available sc step \<longleftrightarrow> bs_resources step = [] \<or>
     \<not> list_ex (\<lambda>c. list_ex (\<lambda>resource. resource \<in> set (bs_resources step)) (bs_resources c))
         (filter (\<lambda>c. bs_id c \<in> set (sc_running sc)) (sc_steps sc))"

definition next_ready :: "bootstrap_scheduler \<Rightarrow> bootstrap_state \<Rightarrow> bootstrap_step option" where
  "next_ready sc st =
     List.find (\<lambda>step. \<not> step_passed st (bs_id step) \<and> bs_id step \<notin> set (sc_running sc) \<and> phase_ready sc step st \<and>
       dependencies_passed step st \<and> resources_available sc step) (sc_steps sc)"

definition mark_running :: "bootstrap_step \<Rightarrow> bootstrap_scheduler \<Rightarrow> bootstrap_scheduler" where
  "mark_running step sc = sc\<lparr> sc_running := bt_insert (bs_id step) (sc_running sc) \<rparr>"

definition mark_finished :: "bootstrap_step \<Rightarrow> bootstrap_scheduler \<Rightarrow> bootstrap_scheduler" where
  "mark_finished step sc = sc\<lparr> sc_running := filter (\<lambda>x. x \<noteq> bs_id step) (sc_running sc) \<rparr>"

definition scheduler_stop :: "bootstrap_scheduler \<Rightarrow> bootstrap_scheduler" where
  "scheduler_stop sc = sc\<lparr> sc_stopping := True \<rparr>"

definition is_drained :: "bootstrap_scheduler \<Rightarrow> bool" where
  "is_drained sc \<longleftrightarrow> sc_running sc = []"

section \<open>Executor\<close>

datatype lifecycle_status = LifecyclePending | LifecycleRunning | LifecyclePassed | LifecycleFailed

record status_report =
  sp_plan_id :: bytes
  sp_plan_hash :: bytes
  sp_attempt_epoch :: u64
  sp_phase :: bootstrap_phase
  sp_status :: lifecycle_status
  sp_current_step :: "bytes option"
  sp_completed_steps :: "bytes list"
  sp_failed_step :: "bytes option"
  sp_pending_steps :: "bytes list"

datatype boot_event =
  StatusEvent status_report
| StepStartedEvent bytes bytes bootstrap_phase u32
| StepPassedEvent bytes i32 u64
| BootstrapFailedEvent bootstrap_failed
| BootstrapFinishedEvent bytes u64

record boot_plan =
  pn_steps :: "bootstrap_step list"
  pn_id :: bytes
  pn_hash :: bytes

record step_output =
  so_exit_status :: i32
  so_timed_out :: bool
  so_duration_ms :: u64
  so_stdout_tail :: bytes
  so_stderr_tail :: bytes

datatype run_error = StoppedWithoutFailure | NoRunnableSteps | StepError bytes | TaskError bytes

text \<open>\<open>bx_error\<close> is the error with which a task has ended the run.\<close>

record boot_exec =
  bx_state :: bootstrap_state
  bx_saved :: bootstrap_state
  bx_sched :: bootstrap_scheduler
  bx_failure :: "bootstrap_failed option"
  bx_events :: "boot_event list"
  bx_error :: "run_error option"

definition save :: "boot_exec \<Rightarrow> boot_exec" where
  "save x = x\<lparr> bx_saved := bx_state x \<rparr>"

definition emit :: "boot_event \<Rightarrow> boot_exec \<Rightarrow> boot_exec" where
  "emit e x = x\<lparr> bx_events := bx_events x @ [e] \<rparr>"

definition pending_steps :: "boot_plan \<Rightarrow> bootstrap_state \<Rightarrow> bytes list" where
  "pending_steps plan st = map bs_id (filter (\<lambda>s. \<not> step_passed st (bs_id s)) (pn_steps plan))"

definition completed_steps :: "boot_plan \<Rightarrow> bootstrap_state \<Rightarrow> bytes list" where
  "completed_steps plan st = map bs_id (filter (\<lambda>s. step_passed st (bs_id s)) (pn_steps plan))"

definition status_phase :: "boot_plan \<Rightarrow> bootstrap_state \<Rightarrow> bootstrap_phase" where
  "status_phase plan st =
     (case failed_step_record st of
        Some r \<Rightarrow> sr_phase r
      | None \<Rightarrow>
         (case List.find (\<lambda>s. \<not> step_passed st (bs_id s)) (pn_steps plan) of
            Some s \<Rightarrow> bs_phase s
          | None \<Rightarrow> if list_ex (\<lambda>s. bs_phase s = UserPhase) (pn_steps plan) then UserPhase else SystemPhase))"

definition emit_status :: "boot_plan \<Rightarrow> lifecycle_status \<Rightarrow> bootstrap_step option \<Rightarrow> boot_exec \<Rightarrow> boot_exec" where
  "emit_status plan status current x =
     (let st = bx_state x in
      emit (StatusEvent \<lparr> sp_plan_id = pn_id plan, sp_plan_hash = pn_hash plan, sp_attempt_epoch = st_attempt_epoch st,
        sp_phase = (case current of None \<Rightarrow> status_phase plan st | Some s \<Rightarrow> bs_phase s), sp_status = status,
        sp_current_step = map_option bs_id current, sp_completed_steps = completed_steps plan st,
        sp_failed_step = map_option sr_id (failed_step_record st), sp_pending_steps = pending_steps plan st \<rparr>) x)"

text \<open>One round of the inner loop of \<open>run_steps\<close>: a step is recorded, announced and spawned.\<close>

definition exec_start :: "boot_plan \<Rightarrow> bootstrap_step \<Rightarrow> boot_exec \<Rightarrow> boot_exec" where
  "exec_start plan step x =
     (case start_step step (bx_state x) of (st, attempt) \<Rightarrow>
        let x = save (x\<lparr> bx_state := st \<rparr>);
            x = emit_status plan LifecycleRunning (Some step) x;
            x = emit (StepStartedEvent (bs_id step) (bs_label step) (bs_phase step) attempt) x
        in x\<lparr> bx_sched := mark_running step (bx_sched x) \<rparr>)"

definition finish_passed_step :: "boot_plan \<Rightarrow> bootstrap_step \<Rightarrow> step_output \<Rightarrow> boot_exec \<Rightarrow> boot_exec" where
  "finish_passed_step plan step out1 x =
     (let x = save (x\<lparr> bx_state := mark_passed step (so_exit_status out1) (so_duration_ms out1) (bx_state x) \<rparr>);
          x = emit (StepPassedEvent (bs_id step) (so_exit_status out1) (so_duration_ms out1)) x
      in emit_status plan (if failed_step_record (bx_state x) \<noteq> None then LifecycleFailed else LifecycleRunning) None x)"

text \<open>The message, which names the step and its exit status or timeout, is an argument.\<close>

definition finish_failed_step :: "boot_plan \<Rightarrow> bootstrap_step \<Rightarrow> bytes \<Rightarrow> step_output \<Rightarrow> boot_exec \<Rightarrow> boot_exec \<times> bootstrap_failed" where
  "finish_failed_step plan step message out1 x =
     (case mark_failed step (so_exit_status out1) (so_duration_ms out1) message (so_stdout_tail out1) (so_stderr_tail out1) (bx_state x) of
        (st, failed) \<Rightarrow> (emit_status plan LifecycleFailed None (save (x\<lparr> bx_state := st \<rparr>)), failed))"

text \<open>
  A finished task, with \<open>failure.get_or_insert(failed)\<close> of its caller.  The error of a step that could not
  be run is returned at once, before anything is recorded or sent.
\<close>

definition handle_finished :: "boot_plan \<Rightarrow> bootstrap_step \<Rightarrow> bytes \<Rightarrow> (step_output, bytes) result \<Rightarrow> boot_exec \<Rightarrow> boot_exec" where
  "handle_finished plan step message result x =
     (let x = x\<lparr> bx_sched := mark_finished step (bx_sched x) \<rparr> in
      case result of
        Err e \<Rightarrow> x\<lparr> bx_error := Some (StepError e) \<rparr>
      | Ok out1 \<Rightarrow>
          if so_exit_status out1 = 0 \<and> \<not> so_timed_out out1 then finish_passed_step plan step out1 x
          else case finish_failed_step plan step message out1 x of (x, failed) \<Rightarrow>
            x\<lparr> bx_sched := scheduler_stop (bx_sched x), bx_failure := Some (case bx_failure x of None \<Rightarrow> failed | Some f \<Rightarrow> f) \<rparr>)"

datatype run_status = RunCompleted | RunFailed bootstrap_failed

text \<open>What \<open>run_steps\<close> returns, once no further step can be started.\<close>

definition exec_outcome :: "boot_exec \<Rightarrow> (run_status, run_error) result option" where
  "exec_outcome x =
     (case bx_error x of Some e \<Rightarrow> Some (Err e) | None \<Rightarrow>
      if can_start (bx_sched x) \<and> next_ready (bx_sched x) (bx_state x) \<noteq> None then None
      else if all_steps_passed (bx_state x) (sc_steps (bx_sched x)) then Some (Ok RunCompleted)
      else if is_drained (bx_sched x) then
        if sc_stopping (bx_sched x) then
          Some (case bx_failure x of None \<Rightarrow> Err StoppedWithoutFailure | Some f \<Rightarrow> Ok (RunFailed f))
        else Some (Err NoRunnableSteps)
      else None)"

text \<open>
  The loop: a step that can start is started; otherwise, unless the run is over, one of the running
  tasks finishes, any of them and with any result, or is found to have panicked.
\<close>

inductive exec_step :: "boot_plan \<Rightarrow> boot_exec \<Rightarrow> boot_exec \<Rightarrow> bool" for plan where
  Start: "bx_error x = None \<Longrightarrow> can_start (bx_sched x) \<Longrightarrow> next_ready (bx_sched x) (bx_state x) = Some step \<Longrightarrow> exec_step plan x (exec_start plan step x)"
| Finish: "\<not> (can_start (bx_sched x) \<and> next_ready (bx_sched x) (bx_state x) \<noteq> None) \<Longrightarrow> exec_outcome x = None \<Longrightarrow>
    step \<in> set (sc_steps (bx_sched x)) \<Longrightarrow> bs_id step \<in> set (sc_running (bx_sched x)) \<Longrightarrow>
    exec_step plan x (handle_finished plan step message result x)"
| Panic: "\<not> (can_start (bx_sched x) \<and> next_ready (bx_sched x) (bx_state x) \<noteq> None) \<Longrightarrow> exec_outcome x = None \<Longrightarrow>
    sc_running (bx_sched x) \<noteq> [] \<Longrightarrow> exec_step plan x (x\<lparr> bx_error := Some (TaskError e) \<rparr>)"

inductive_cases exec_stepE: "exec_step plan x x'"

text \<open>\<open>run_state\<close> up to the steps: an earlier failure is reported, an interrupted step becomes one.\<close>

definition mark_interrupted_step :: "boot_plan \<Rightarrow> boot_exec \<Rightarrow> boot_exec \<times> bool" where
  "mark_interrupted_step plan x =
     (case interrupted_step (bx_state x) of
        None \<Rightarrow> (x, False)
      | Some r \<Rightarrow>
         (let fail = (\<lambda>r. r\<lparr> sr_status := RecordFailed, sr_exit_status := Some (- 1),
                sr_message := Some (byte_string ''bootstrap step was interrupted before completion'') \<rparr>);
              st = (bx_state x)\<lparr> st_steps := update_first (\<lambda>r. sr_status r = RecordRunning) fail (st_steps (bx_state x)) \<rparr>;
              x = save (x\<lparr> bx_state := st \<rparr>);
              x = emit_status plan LifecycleFailed None x
          in (emit (BootstrapFailedEvent (bootstrap_failed_event (fail r) (st_attempt_epoch st))) x, True)))"

definition report_existing_failure :: "boot_plan \<Rightarrow> boot_exec \<Rightarrow> boot_exec \<times> bool" where
  "report_existing_failure plan x =
     (case failed_step_record (bx_state x) of
        None \<Rightarrow> (x, False)
      | Some r \<Rightarrow>
         (emit (BootstrapFailedEvent (bootstrap_failed_event r (st_attempt_epoch (bx_state x))))
            (emit_status plan LifecycleFailed None x), True))"

definition run_prepare :: "boot_plan \<Rightarrow> boot_exec \<Rightarrow> boot_exec \<times> bool" where
  "run_prepare plan x =
     (case report_existing_failure plan (emit_status plan LifecyclePending None x) of
        (x, True) \<Rightarrow> (x, False)
      | (x, False) \<Rightarrow> (case mark_interrupted_step plan x of (x, interrupted) \<Rightarrow> (x, \<not> interrupted)))"

definition run_finish :: "boot_plan \<Rightarrow> run_status \<Rightarrow> boot_exec \<Rightarrow> boot_exec" where
  "run_finish plan status x =
     (case status of
        RunFailed failed \<Rightarrow> emit (BootstrapFailedEvent failed) (emit_status plan LifecycleFailed None x)
      | RunCompleted \<Rightarrow>
          emit (BootstrapFinishedEvent (pn_hash plan) (st_attempt_epoch (bx_state x))) (emit_status plan LifecyclePassed None x))"

datatype retry_error = EpochSkipped u64 u64 | NothingToRetry

definition prepare_retry :: "u64 \<Rightarrow> bootstrap_state \<Rightarrow> bootstrap_state \<times> (bool, retry_error) result" where
  "prepare_retry attempt_epoch st =
     (if attempt_epoch = st_attempt_epoch st then (st, Ok False)
      else let expected_epoch = (if st_attempt_epoch st = - 1 then - 1 else st_attempt_epoch st + 1) in
        if attempt_epoch \<noteq> expected_epoch then (st, Err (EpochSkipped attempt_epoch (st_attempt_epoch st)))
        else case state_prepare_retry attempt_epoch st of
          (st', False) \<Rightarrow> (st, Err NothingToRetry)
        | (st', True) \<Rightarrow> (st', Ok True))"

section \<open>What a step of the loop changes\<close>

lemma map_of_bt_put [simp]: "map_of (bt_put k v m) = (map_of m)(k \<mapsto> v)"
  by (induction k v m rule: bt_put.induct) (auto simp: fun_eq_iff)

lemma step_passed_replace: "step_passed (replace_record r st) x = (if x = sr_id r then sr_status r = RecordPassed else step_passed st x)"
  by (simp add: step_passed_def replace_record_def)

lemma emit_simps [simp]:
  "bx_state (emit e x) = bx_state x" "bx_sched (emit e x) = bx_sched x" "bx_failure (emit e x) = bx_failure x" "bx_saved (emit e x) = bx_saved x"
  "bx_state (emit_status plan l c x) = bx_state x" "bx_sched (emit_status plan l c x) = bx_sched x"
  "bx_failure (emit_status plan l c x) = bx_failure x" "bx_saved (emit_status plan l c x) = bx_saved x"
  "bx_error (emit e x) = bx_error x" "bx_error (emit_status plan l c x) = bx_error x"
  by (simp_all add: emit_def emit_status_def Let_def)

lemma save_simps [simp]:
  "bx_state (save x) = bx_state x" "bx_sched (save x) = bx_sched x" "bx_failure (save x) = bx_failure x" "bx_saved (save x) = bx_state x"
  "bx_error (save x) = bx_error x"
  by (simp_all add: save_def)

lemma mark_running_simps [simp]:
  "sc_steps (mark_running step sc) = sc_steps sc" "sc_running (mark_running step sc) = bt_insert (bs_id step) (sc_running sc)"
  "sc_max_parallelism (mark_running step sc) = sc_max_parallelism sc" "sc_stopping (mark_running step sc) = sc_stopping sc"
  by (simp_all add: mark_running_def)

lemma exec_start_simps [simp]:
  "bx_sched (exec_start plan step x) = mark_running step (bx_sched x)"
  "step_passed (bx_state (exec_start plan step x)) y \<longleftrightarrow> y \<noteq> bs_id step \<and> step_passed (bx_state x) y"
  "bx_failure (exec_start plan step x) = bx_failure x" "bx_saved (exec_start plan step x) = bx_state (exec_start plan step x)"
  "bx_error (exec_start plan step x) = bx_error x"
  by (simp_all add: exec_start_def start_step_def Let_def step_passed_replace)

definition succeeded :: "step_output \<Rightarrow> bool" where
  "succeeded out1 \<longleftrightarrow> so_exit_status out1 = 0 \<and> \<not> so_timed_out out1"

lemma handle_finished_simps [simp]:
  "sc_steps (bx_sched (handle_finished plan step message (Ok out1) x)) = sc_steps (bx_sched x)"
  "sc_running (bx_sched (handle_finished plan step message (Ok out1) x)) = filter (\<lambda>y. y \<noteq> bs_id step) (sc_running (bx_sched x))"
  "sc_max_parallelism (bx_sched (handle_finished plan step message (Ok out1) x)) = sc_max_parallelism (bx_sched x)"
  "sc_stopping (bx_sched (handle_finished plan step message (Ok out1) x)) \<longleftrightarrow> sc_stopping (bx_sched x) \<or> \<not> succeeded out1"
  "step_passed (bx_state (handle_finished plan step message (Ok out1) x)) y \<longleftrightarrow>
     (if y = bs_id step then succeeded out1 else step_passed (bx_state x) y)"
  "bx_failure (handle_finished plan step message (Ok out1) x) = None \<longleftrightarrow> bx_failure x = None \<and> succeeded out1"
  "bx_saved (handle_finished plan step message (Ok out1) x) = bx_state (handle_finished plan step message (Ok out1) x)"
  "bx_error (handle_finished plan step message (Ok out1) x) = bx_error x"
  by (auto simp: handle_finished_def finish_passed_step_def finish_failed_step_def mark_finished_def mark_passed_def mark_failed_def
      scheduler_stop_def Let_def succeeded_def step_passed_replace)

text \<open>
  A step that could not be run ends the run as it is: nothing is recorded, so that the step stays
  running in the state on disk, and nothing is sent.
\<close>

lemma unrunnable_step_unreported:
  "bx_state (handle_finished plan step message (Err e) x) = bx_state x" "bx_saved (handle_finished plan step message (Err e) x) = bx_saved x"
  "bx_events (handle_finished plan step message (Err e) x) = bx_events x"
  "bx_failure (handle_finished plan step message (Err e) x) = bx_failure x"
  "bx_sched (handle_finished plan step message (Err e) x) = mark_finished step (bx_sched x)"
  "exec_outcome (handle_finished plan step message (Err e) x) = Some (Err (StepError e))"
  by (simp_all add: handle_finished_def exec_outcome_def Let_def)

section \<open>Safety\<close>

definition running_steps :: "boot_exec \<Rightarrow> bootstrap_step set" where
  "running_steps x = {s \<in> set (sc_steps (bx_sched x)). bs_id s \<in> set (sc_running (bx_sched x))}"

definition run_ok :: "boot_exec \<Rightarrow> bool" where
  "run_ok x \<longleftrightarrow>
     distinct (ids (sc_steps (bx_sched x))) \<and> distinct (sc_running (bx_sched x)) \<and>
     set (sc_running (bx_sched x)) \<subseteq> set (ids (sc_steps (bx_sched x))) \<and>
     length (sc_running (bx_sched x)) \<le> sc_max_parallelism (bx_sched x) \<and>
     (\<forall>s\<in>running_steps x. \<not> step_passed (bx_state x) (bs_id s) \<and> dependencies_passed s (bx_state x) \<and>
        phase_ready (bx_sched x) s (bx_state x)) \<and>
     (\<forall>s\<in>running_steps x. \<forall>t\<in>running_steps x. s \<noteq> t \<longrightarrow> set (bs_resources s) \<inter> set (bs_resources t) = {}) \<and>
     (sc_stopping (bx_sched x) \<longleftrightarrow> bx_failure x \<noteq> None) \<and> bx_saved x = bx_state x"

lemma next_ready_Some:
  assumes "next_ready sc st = Some step"
  shows "step \<in> set (sc_steps sc)" "\<not> step_passed st (bs_id step)" "bs_id step \<notin> set (sc_running sc)"
    "phase_ready sc step st" "dependencies_passed step st" "resources_available sc step"
  using assms by (auto simp: next_ready_def find_Some_iff)

lemma resources_disjoint:
  "resources_available sc s \<Longrightarrow> t \<in> set (sc_steps sc) \<Longrightarrow> bs_id t \<in> set (sc_running sc) \<Longrightarrow>
   set (bs_resources s) \<inter> set (bs_resources t) = {}"
  by (auto simp: resources_available_def list_ex_iff)

lemma ready_mono:
  assumes "\<And>y. step_passed st y \<Longrightarrow> step_passed st' y"
  shows "dependencies_passed s st \<Longrightarrow> dependencies_passed s st'"
    "phase_ready sc s st \<Longrightarrow> sc_steps sc' = sc_steps sc \<Longrightarrow> phase_ready sc' s st'"
  using assms by (auto simp: dependencies_passed_def phase_ready_def list_all_iff)

lemma start_ok:
  assumes ok: "run_ok x" and can: "can_start (bx_sched x)" and ready: "next_ready (bx_sched x) (bx_state x) = Some step"
  shows "run_ok (exec_start plan step x)"
proof -
  note r = next_ready_Some [OF ready]
  let ?x = "exec_start plan step x"
  have passed: "step_passed (bx_state ?x) y = step_passed (bx_state x) y" for y using r(2) by auto
  have same: "t = step" if "t \<in> set (sc_steps (bx_sched x))" "bs_id t = bs_id step" for t
    using that ok r(1) by (auto simp: run_ok_def ids_def distinct_map inj_on_def)
  have running: "running_steps ?x = insert step (running_steps x)"
    using r(1) same by (auto simp: running_steps_def)
  have len: "length (bt_insert (bs_id step) (sc_running (bx_sched x))) = Suc (length (sc_running (bx_sched x)))"
    using r(3) by (simp add: bt_insert_def)
  have each: "\<not> step_passed (bx_state ?x) (bs_id s) \<and> dependencies_passed s (bx_state ?x) \<and> phase_ready (bx_sched ?x) s (bx_state ?x)"
    if "s \<in> running_steps ?x" for s
  proof -
    have before: "\<not> step_passed (bx_state x) (bs_id s)" "dependencies_passed s (bx_state x)" "phase_ready (bx_sched x) s (bx_state x)"
      using that r(2,4,5) ok by (auto simp: running run_ok_def)
    show ?thesis using before(1) passed ready_mono(1) [of "bx_state x" "bx_state ?x", OF _ before(2)]
        ready_mono(2) [of "bx_state x" "bx_state ?x", OF _ before(3), of "bx_sched ?x"] by (simp del: exec_start_simps(2))
  qed
  have new: "set (bs_resources step) \<inter> set (bs_resources t) = {}" if "t \<in> running_steps x" for t
    using that resources_disjoint [OF r(6)] by (simp add: running_steps_def)
  have old: "\<forall>s\<in>running_steps x. \<forall>t\<in>running_steps x. s \<noteq> t \<longrightarrow> set (bs_resources s) \<inter> set (bs_resources t) = {}"
    using ok by (simp add: run_ok_def)
  have apart: "\<forall>s\<in>running_steps ?x. \<forall>t\<in>running_steps ?x. s \<noteq> t \<longrightarrow> set (bs_resources s) \<inter> set (bs_resources t) = {}"
    unfolding running using new old by (auto simp: Int_commute)
  show ?thesis using ok each apart len r(1) can
    by (auto simp: run_ok_def can_start_def ids_def)
qed

lemma finish_ok_result:
  assumes ok: "run_ok x" and step: "step \<in> set (sc_steps (bx_sched x))" "bs_id step \<in> set (sc_running (bx_sched x))"
  shows "run_ok (handle_finished plan step message (Ok out1) x)"
proof -
  let ?x = "handle_finished plan step message (Ok out1) x"
  have "step \<in> running_steps x" using step by (simp add: running_steps_def)
  then have "\<not> step_passed (bx_state x) (bs_id step)" using ok by (simp add: run_ok_def)
  then have mono: "step_passed (bx_state x) y \<Longrightarrow> step_passed (bx_state ?x) y" for y by auto
  have running: "running_steps ?x = running_steps x - {s. bs_id s = bs_id step}" by (auto simp: running_steps_def)
  have each: "\<not> step_passed (bx_state ?x) (bs_id s) \<and> dependencies_passed s (bx_state ?x) \<and> phase_ready (bx_sched ?x) s (bx_state ?x)"
    if "s \<in> running_steps ?x" for s
    using that ok ready_mono [OF mono] by (auto simp: running run_ok_def)
  show ?thesis using ok each running
    by (auto simp: run_ok_def intro: order_trans [OF length_filter_le])
qed

lemma finish_ok:
  assumes ok: "run_ok x" and step: "step \<in> set (sc_steps (bx_sched x))" "bs_id step \<in> set (sc_running (bx_sched x))"
  shows "run_ok (handle_finished plan step message result x)"
proof (cases result)
  case (Err e)
  then show ?thesis
    using ok by (auto simp: run_ok_def unrunnable_step_unreported mark_finished_def running_steps_def phase_ready_def
        intro: order_trans [OF length_filter_le])
qed (simp add: finish_ok_result [OF assms])

lemma panic_ok: "run_ok x \<Longrightarrow> run_ok (x\<lparr> bx_error := e \<rparr>)"
  by (simp add: run_ok_def running_steps_def)

lemma exec_step_ok: "exec_step plan x x' \<Longrightarrow> run_ok x \<Longrightarrow> run_ok x'"
  by (induction rule: exec_step.induct) (simp_all add: start_ok finish_ok panic_ok)

lemma exec_run_ok: "(exec_step plan)\<^sup>*\<^sup>* x x' \<Longrightarrow> run_ok x \<Longrightarrow> run_ok x'"
  by (induction rule: rtranclp_induct) (auto intro: exec_step_ok)

lemma exec_step_steps:
  "exec_step plan x x' \<Longrightarrow> sc_steps (bx_sched x') = sc_steps (bx_sched x) \<and> sc_max_parallelism (bx_sched x') = sc_max_parallelism (bx_sched x)"
proof (induction rule: exec_step.induct)
  case (Finish x step message result)
  then show ?case by (cases result) (simp_all add: unrunnable_step_unreported mark_finished_def)
qed simp_all

lemma exec_run_steps:
  "(exec_step plan)\<^sup>*\<^sup>* x x' \<Longrightarrow> sc_steps (bx_sched x') = sc_steps (bx_sched x) \<and> sc_max_parallelism (bx_sched x') = sc_max_parallelism (bx_sched x)"
  by (induction rule: rtranclp_induct) (auto dest: exec_step_steps)

text \<open>The executor as it enters the loop, with whatever earlier runs recorded.\<close>

definition exec_init :: "bootstrap_scheduler \<Rightarrow> bootstrap_state \<Rightarrow> boot_event list \<Rightarrow> boot_exec" where
  "exec_init sc st events = \<lparr> bx_state = st, bx_saved = st, bx_sched = sc, bx_failure = None, bx_events = events,
     bx_error = None \<rparr>"

lemma scheduler_new_Ok:
  assumes "scheduler_new n plan = Some (Ok sc)"
  shows "ordered_steps plan = Some (Ok (sc_steps sc))" "sc_running sc = []" "sc_max_parallelism sc = n" "\<not> sc_stopping sc"
  using assms by (auto simp: scheduler_new_def split: bind_splits result.splits)

lemma exec_init_ok:
  assumes "scheduler_new n plan = Some (Ok sc)"
  shows "run_ok (exec_init sc st events)"
proof -
  have "distinct (ids (sc_steps sc))" using ordered_steps_facts(1) [OF scheduler_new_Ok(1) [OF assms]] .
  then show ?thesis using scheduler_new_Ok [OF assms] by (simp add: run_ok_def exec_init_def running_steps_def)
qed

text \<open>
  Claim C36.  Whatever order the tasks of a bootstrap finish in and whatever they return, at every moment of
  a run: no more steps run than the parallelism allows, every running step is one of the plan's
  whose dependencies have all passed, no user step runs before every system step has passed, no
  two running steps use the same resource, the scheduler is stopping exactly when a failure is
  recorded, and the state on disk is the state in memory.
\<close>

theorem bootstrap_run_safe:
  assumes "scheduler_new n plan_steps = Some (Ok sc)" "(exec_step plan)\<^sup>*\<^sup>* (exec_init sc st events) x"
  shows "length (sc_running (bx_sched x)) \<le> n \<and>
    (\<forall>s\<in>running_steps x. s \<in> set plan_steps \<and> (\<forall>d\<in>set (bs_depends_on s). step_passed (bx_state x) d) \<and>
       (bs_phase s = UserPhase \<longrightarrow> (\<forall>t\<in>set plan_steps. bs_phase t = SystemPhase \<longrightarrow> step_passed (bx_state x) (bs_id t)))) \<and>
    (\<forall>s\<in>running_steps x. \<forall>t\<in>running_steps x. s \<noteq> t \<longrightarrow> set (bs_resources s) \<inter> set (bs_resources t) = {}) \<and>
    (sc_stopping (bx_sched x) \<longleftrightarrow> bx_failure x \<noteq> None) \<and> bx_saved x = bx_state x"
proof -
  have ok: "run_ok x" using exec_run_ok [OF assms(2) exec_init_ok [OF assms(1)]] .
  have steps: "sc_steps (bx_sched x) = sc_steps sc" "sc_max_parallelism (bx_sched x) = n"
    using exec_run_steps [OF assms(2)] scheduler_new_Ok(3) [OF assms(1)] by (simp_all add: exec_init_def)
  have plan: "set (sc_steps sc) = set plan_steps" using ordered_steps_facts(2) [OF scheduler_new_Ok(1) [OF assms(1)]] .
  have "s \<in> set plan_steps \<and> (\<forall>d\<in>set (bs_depends_on s). step_passed (bx_state x) d) \<and>
       (bs_phase s = UserPhase \<longrightarrow> (\<forall>t\<in>set plan_steps. bs_phase t = SystemPhase \<longrightarrow> step_passed (bx_state x) (bs_id t)))"
    if "s \<in> running_steps x" for s
    using that ok plan steps by (auto simp: run_ok_def running_steps_def dependencies_passed_def phase_ready_def list_all_iff)
  then show ?thesis using ok steps(2) unfolding run_ok_def by blast
qed

section \<open>Progress\<close>

text \<open>The first step of the order that has not passed can run when nothing else does.\<close>

lemma something_ready:
  assumes steps: "deps_first {} (sc_steps sc)" "phases_sorted (sc_steps sc)" and drained: "sc_running sc = []"
    and open1: "\<not> all_steps_passed st (sc_steps sc)"
  shows "next_ready sc st \<noteq> None"
proof -
  from open1 obtain s0 where "s0 \<in> set (sc_steps sc)" "\<not> step_passed st (bs_id s0)" by (auto simp: all_steps_passed_def list_all_iff)
  then obtain pre s post where split: "sc_steps sc = pre @ s # post" "\<not> step_passed st (bs_id s)" "\<forall>t\<in>set pre. step_passed st (bs_id t)"
    using split_list_first_prop [of "sc_steps sc" "\<lambda>s. \<not> step_passed st (bs_id s)"] by blast
  have "set (bs_depends_on s) \<subseteq> set (ids pre)" using steps(1) split(1) by (simp add: deps_first_append)
  then have deps: "dependencies_passed s st" using split(3) by (auto simp: dependencies_passed_def list_all_iff ids_def)
  have phase: "phase_ready sc s st"
  proof (cases "bs_phase s")
    case UserPhase
    have "bs_phase t = UserPhase" if "t \<in> set post" for t
      using steps(2) split(1) UserPhase that by (simp add: phases_sorted_def sorted_wrt_append)
    then show ?thesis using split(1,3) UserPhase by (auto simp: phase_ready_def list_all_iff)
  qed (simp add: phase_ready_def)
  have "resources_available sc s" using drained by (simp add: resources_available_def)
  then have "\<exists>s\<in>set (sc_steps sc). \<not> step_passed st (bs_id s) \<and> bs_id s \<notin> set (sc_running sc) \<and> phase_ready sc s st \<and>
      dependencies_passed s st \<and> resources_available sc s"
    using split(1,2) deps phase drained by auto
  then show ?thesis unfolding next_ready_def by (auto simp: find_None_iff)
qed

definition waiting :: "boot_exec \<Rightarrow> bootstrap_step set" where
  "waiting x = {s \<in> set (sc_steps (bx_sched x)). \<not> step_passed (bx_state x) (bs_id s) \<and> bs_id s \<notin> set (sc_running (bx_sched x))}"

text \<open>
  How much a run has left to do: three for a step that waits, unless the scheduler stops, and one for
  one that runs; nothing once a task has ended it.
\<close>

definition work :: "boot_exec \<Rightarrow> nat" where
  "work x = (if bx_error x \<noteq> None then 0
     else (if sc_stopping (bx_sched x) then 0 else 3 * card (waiting x)) + length (sc_running (bx_sched x)))"

lemma start_work:
  assumes ok: "run_ok x" and going: "bx_error x = None" and can: "can_start (bx_sched x)"
    and ready: "next_ready (bx_sched x) (bx_state x) = Some step"
  shows "work (exec_start plan step x) < work x"
proof -
  note r = next_ready_Some [OF ready]
  have fin: "finite (waiting x)" by (simp add: waiting_def)
  have step: "step \<in> waiting x" using r(1-3) by (simp add: waiting_def)
  have "waiting (exec_start plan step x) \<subseteq> waiting x - {step}" using r(2) by (auto simp: waiting_def)
  then have "card (waiting (exec_start plan step x)) \<le> card (waiting x - {step})" using fin by (intro card_mono) auto
  then have "Suc (card (waiting (exec_start plan step x))) \<le> card (waiting x)" using fin step by (metis card_Suc_Diff1 Suc_le_mono)
  moreover have "length (bt_insert (bs_id step) (sc_running (bx_sched x))) = Suc (length (sc_running (bx_sched x)))"
    using r(3) by (simp add: bt_insert_def)
  ultimately show ?thesis using can going by (simp add: work_def can_start_def)
qed

lemma finish_work:
  assumes ok: "run_ok x" and going: "bx_error x = None"
    and step: "step \<in> set (sc_steps (bx_sched x))" "bs_id step \<in> set (sc_running (bx_sched x))"
  shows "work (handle_finished plan step message result x) < work x"
proof (cases result)
  case (Err e)
  then show ?thesis using going step(2) by (auto simp: work_def handle_finished_def Let_def)
next
  case (Ok out1)
  let ?x = "handle_finished plan step message result x"
  have shorter: "length (filter (\<lambda>y. y \<noteq> bs_id step) (sc_running (bx_sched x))) < length (sc_running (bx_sched x))"
    using step(2) by (intro length_filter_less) auto
  show ?thesis
  proof (cases "succeeded out1")
    case True
    have "waiting ?x \<subseteq> waiting x" using True Ok by (auto simp: waiting_def split: if_splits)
    then have "card (waiting ?x) \<le> card (waiting x)" by (intro card_mono) (simp_all add: waiting_def)
    then show ?thesis using shorter True Ok going by (simp add: work_def)
  qed (use shorter Ok going in \<open>simp add: work_def\<close>)
qed

lemma outcome_going: "exec_outcome x = None \<Longrightarrow> bx_error x = None"
  by (simp add: exec_outcome_def split: option.splits)

lemma exec_step_work: "exec_step plan x x' \<Longrightarrow> run_ok x \<Longrightarrow> work x' < work x"
proof (induction rule: exec_step.induct)
  case (Panic x e)
  then show ?case using outcome_going by (simp add: work_def)
qed (simp_all add: start_work finish_work outcome_going)

text \<open>Only a task ends a run with an error of its own.\<close>

lemma exec_step_error:
  "exec_step plan x x' \<Longrightarrow> bx_error x' = Some e \<Longrightarrow> e \<in> range StepError \<union> range TaskError"
proof (induction rule: exec_step.induct)
  case (Finish x step message result)
  then have going: "bx_error x = None" by (intro outcome_going)
  show ?case
  proof (cases result)
    case (Err e')
    then show ?thesis using Finish.prems by (auto simp: handle_finished_def Let_def)
  qed (use Finish.prems going in simp)
qed auto

lemma exec_run_error:
  "(exec_step plan)\<^sup>*\<^sup>* x x' \<Longrightarrow> bx_error x = None \<Longrightarrow> bx_error x' = Some e \<Longrightarrow> e \<in> range StepError \<union> range TaskError"
  by (induction rule: rtranclp_induct) (auto dest: exec_step_error)

lemma exec_run_work: "(exec_step plan ^^ k) x x' \<Longrightarrow> run_ok x \<Longrightarrow> k + work x' \<le> work x"
proof (induction k arbitrary: x')
  case (Suc k)
  then obtain x1 where x1: "(exec_step plan ^^ k) x x1" "exec_step plan x1 x'" by auto
  have "run_ok x1" using exec_run_ok [of plan x x1] x1(1) Suc.prems(2) by (auto dest: relpowp_imp_rtranclp)
  then show ?case using Suc.IH [OF x1(1) Suc.prems(2)] exec_step_work [OF x1(2)] by simp
qed simp

lemma exec_progress:
  assumes ok: "run_ok x" and going: "bx_error x = None" and steps: "deps_first {} (sc_steps (bx_sched x))" "phases_sorted (sc_steps (bx_sched x))"
    and n: "0 < sc_max_parallelism (bx_sched x)"
  shows "(\<exists>x'. exec_step plan x x') \<or>
    exec_outcome x = Some (Ok RunCompleted) \<and> all_steps_passed (bx_state x) (sc_steps (bx_sched x)) \<or>
    (\<exists>f. exec_outcome x = Some (Ok (RunFailed f)) \<and> bx_failure x = Some f)"
proof (cases "can_start (bx_sched x) \<and> next_ready (bx_sched x) (bx_state x) \<noteq> None")
  case True
  then show ?thesis using exec_step.Start [OF going] by blast
next
  case idle: False
  show ?thesis
  proof (cases "all_steps_passed (bx_state x) (sc_steps (bx_sched x))")
    case True
    then show ?thesis using idle going by (auto simp: exec_outcome_def)
  next
    case open1: False
    show ?thesis
    proof (cases "sc_running (bx_sched x) = []")
      case True
      have "sc_stopping (bx_sched x)"
        using something_ready [OF steps True open1] idle True n by (auto simp: can_start_def)
      then show ?thesis using ok idle open1 True going by (auto simp: exec_outcome_def is_drained_def run_ok_def)
    next
      case False
      then obtain y where y: "y \<in> set (sc_running (bx_sched x))" by (cases "sc_running (bx_sched x)") auto
      then obtain step where "step \<in> set (sc_steps (bx_sched x))" "bs_id step = y" using ok by (auto simp: run_ok_def ids_def)
      moreover have "exec_outcome x = None" using idle open1 False going by (auto simp: exec_outcome_def is_drained_def)
      ultimately show ?thesis using exec_step.Finish [OF idle] y by blast
    qed
  qed
qed

text \<open>A move is possible only while the run has no outcome.\<close>

lemma exec_step_goes: "exec_step plan x x' \<Longrightarrow> exec_outcome x = None"
  by (induction rule: exec_step.induct) (auto simp: exec_outcome_def)

text \<open>
  Claim C37.  A bootstrap run never gets stuck and always ends.  From a plan that could be ordered, with any
  record of earlier runs and at least one step allowed at a time, a run makes at most three
  moves per step of the plan; and at every moment of it either another move is possible, or it is over
  in one of three ways: all steps have passed and it is completed, a step has failed and the run
  reports that failure, or it returns the error of a step that could not be run or of a task that
  panicked.  The errors for a scheduler without runnable steps and for a stop without a failure are
  never returned.
\<close>

theorem bootstrap_run_ends:
  assumes "scheduler_new n plan_steps = Some (Ok sc)" "0 < n" "(exec_step plan ^^ k) (exec_init sc st events) x"
  shows "k \<le> 3 * length plan_steps \<and>
    ((\<exists>x'. exec_step plan x x') \<and> exec_outcome x = None \<or>
     (\<forall>x'. \<not> exec_step plan x x') \<and>
     (exec_outcome x = Some (Ok RunCompleted) \<and> all_steps_passed (bx_state x) plan_steps \<or>
      (\<exists>f. exec_outcome x = Some (Ok (RunFailed f)) \<and> bx_failure x = Some f) \<or>
      (\<exists>e. exec_outcome x = Some (Err e) \<and> bx_error x = Some e \<and> e \<in> range StepError \<union> range TaskError)))"
proof -
  note sc = scheduler_new_Ok [OF assms(1)]
  note order = ordered_steps_facts [OF sc(1)]
  have run: "(exec_step plan)\<^sup>*\<^sup>* (exec_init sc st events) x" using assms(3) by (rule relpowp_imp_rtranclp)
  have ok: "run_ok x" using exec_run_ok [OF run exec_init_ok [OF assms(1)]] .
  have steps: "sc_steps (bx_sched x) = sc_steps sc" "sc_max_parallelism (bx_sched x) = n"
    using exec_run_steps [OF run] sc(3) by (simp_all add: exec_init_def)
  have "card (waiting (exec_init sc st events)) \<le> card (set (sc_steps sc))"
    by (intro card_mono) (auto simp: waiting_def exec_init_def)
  also have "\<dots> \<le> length (sc_steps sc)" by (rule card_length)
  also have "\<dots> = length plan_steps" using order(5) by (rule mset_eq_length)
  finally have "work (exec_init sc st events) \<le> 3 * length plan_steps" using sc(2) by (simp add: work_def exec_init_def)
  then have bound: "k \<le> 3 * length plan_steps" using exec_run_work [OF assms(3) exec_init_ok [OF assms(1)]] by linarith
  have passed: "all_steps_passed (bx_state x) (sc_steps sc) = all_steps_passed (bx_state x) plan_steps"
    using order(2) by (simp add: all_steps_passed_def list_all_iff)
  have over: "exec_outcome x = None" if "exec_step plan x x'" for x' using that by (rule exec_step_goes)
  show ?thesis
  proof (cases "bx_error x")
    case (Some e)
    have "e \<in> range StepError \<union> range TaskError" using exec_run_error [OF run _ Some] by (simp add: exec_init_def)
    moreover have "exec_outcome x = Some (Err e)" using Some by (simp add: exec_outcome_def)
    ultimately show ?thesis using bound over Some by fastforce
  next
    case None
    then show ?thesis using exec_progress [OF ok None, of plan] order(3,4) steps assms(2) bound passed over by fastforce
  qed
qed

section \<open>An example\<close>

text \<open>Two system steps and a user step, two at a time: the first move starts the step the others wait for.\<close>

definition demo_boot_steps :: "bootstrap_step list" where
  "demo_boot_steps = [demo_step 1 UserPhase [], demo_step 2 SystemPhase [[3]], demo_step 3 SystemPhase []]"

definition demo_scheduler :: bootstrap_scheduler where
  "demo_scheduler = \<lparr> sc_steps = [demo_step 3 SystemPhase [], demo_step 2 SystemPhase [[3]], demo_step 1 UserPhase []],
     sc_running = [], sc_max_parallelism = 2, sc_stopping = False \<rparr>"

definition demo_boot_plan :: boot_plan where
  "demo_boot_plan = \<lparr> pn_steps = demo_boot_steps, pn_id = [7], pn_hash = [8] \<rparr>"

definition demo_boot_state :: bootstrap_state where
  "demo_boot_state = \<lparr> st_plan_hash = [8], st_attempt_epoch = 0, st_steps = [] \<rparr>"

lemma demo_scheduler_new: "scheduler_new 2 demo_boot_steps = Some (Ok demo_scheduler)"
  by code_simp

lemma demo_first_move:
  "exec_step demo_boot_plan (exec_init demo_scheduler demo_boot_state [])
     (exec_start demo_boot_plan (demo_step 3 SystemPhase []) (exec_init demo_scheduler demo_boot_state []))"
proof (rule exec_step.Start)
  show "bx_error (exec_init demo_scheduler demo_boot_state []) = None" by (simp add: exec_init_def)
  show "can_start (bx_sched (exec_init demo_scheduler demo_boot_state []))"
    by (simp add: exec_init_def demo_scheduler_def can_start_def)
  show "next_ready (bx_sched (exec_init demo_scheduler demo_boot_state [])) (bx_state (exec_init demo_scheduler demo_boot_state [])) =
      Some (demo_step 3 SystemPhase [])" by code_simp
qed

theorem bootstrap_run_safe_witness:
  "\<exists>x. (exec_step demo_boot_plan)\<^sup>*\<^sup>* (exec_init demo_scheduler demo_boot_state []) x \<and> sc_running (bx_sched x) = [[3]] \<and>
     length (sc_running (bx_sched x)) \<le> 2 \<and> bx_saved x = bx_state x"
proof -
  let ?x = "exec_start demo_boot_plan (demo_step 3 SystemPhase []) (exec_init demo_scheduler demo_boot_state [])"
  have run: "(exec_step demo_boot_plan)\<^sup>*\<^sup>* (exec_init demo_scheduler demo_boot_state []) ?x"
    using demo_first_move by (rule r_into_rtranclp)
  have "sc_running (bx_sched ?x) = [[3]]"
    by (simp add: exec_init_def demo_scheduler_def bt_insert_def demo_step_def)
  then show ?thesis using run bootstrap_run_safe [OF demo_scheduler_new run] by blast
qed

theorem bootstrap_run_ends_witness:
  "\<exists>x. (exec_step demo_boot_plan ^^ 1) (exec_init demo_scheduler demo_boot_state []) x \<and> 1 \<le> 3 * length demo_boot_steps \<and>
     ((\<exists>x'. exec_step demo_boot_plan x x') \<and> exec_outcome x = None \<or>
      (\<forall>x'. \<not> exec_step demo_boot_plan x x') \<and>
      (exec_outcome x = Some (Ok RunCompleted) \<and> all_steps_passed (bx_state x) demo_boot_steps \<or>
       (\<exists>f. exec_outcome x = Some (Ok (RunFailed f)) \<and> bx_failure x = Some f) \<or>
       (\<exists>e. exec_outcome x = Some (Err e) \<and> bx_error x = Some e \<and> e \<in> range StepError \<union> range TaskError)))"
proof -
  have run: "(exec_step demo_boot_plan ^^ 1) (exec_init demo_scheduler demo_boot_state [])
      (exec_start demo_boot_plan (demo_step 3 SystemPhase []) (exec_init demo_scheduler demo_boot_state []))"
    using demo_first_move by (auto simp: eq_OO)
  show ?thesis using run bootstrap_run_ends [OF demo_scheduler_new zero_less_numeral run] by blast
qed

end
