(* ===== verification/Identity.thy ===== *)
theory Identity
  imports Http1Chunks
begin

text \<open>
  Names and ids of agents and instances, \<open>core/agentdp-core/src/agent/identity.rs\<close>: new types over
  strings and \<open>u32\<close>, whose parsers validate what arrives from the API, from manifests and from
  directory names.  A value that deserializes is a string that is then parsed.
\<close>

datatype identity_error = InvalidAgentName | InvalidInstanceName | InvalidAgentInstanceId

datatype agent_name = AgentName bytes

datatype instance_name = InstanceName bytes

datatype agent_base_key = AgentBaseKey bytes

datatype agent_instance_id = AgentInstanceId u32

definition is_ascii_alphanumeric :: "u8 \<Rightarrow> bool" where
  "is_ascii_alphanumeric b \<longleftrightarrow> 48 \<le> b \<and> b \<le> 57 \<or> 65 \<le> b \<and> b \<le> 90 \<or> 97 \<le> b \<and> b \<le> 122"

definition validate_identifier :: "bytes \<Rightarrow> bool" where
  "validate_identifier s \<longleftrightarrow> s \<noteq> [] \<and> list_all (\<lambda>b. is_ascii_alphanumeric b \<or> b \<in> set [46, 95, 45]) s"

fun agent_name_as_str :: "agent_name \<Rightarrow> bytes" where
  "agent_name_as_str (AgentName s) = s"

definition agent_name_parse :: "bytes \<Rightarrow> (agent_name, identity_error) result" where
  "agent_name_parse s = (if validate_identifier s then Ok (AgentName s) else Err InvalidAgentName)"

fun instance_name_as_str :: "instance_name \<Rightarrow> bytes" where
  "instance_name_as_str (InstanceName s) = s"

definition instance_name_parse :: "bytes \<Rightarrow> (instance_name, identity_error) result" where
  "instance_name_parse s = (if validate_identifier s then Ok (InstanceName s) else Err InvalidInstanceName)"

definition instance_id_parse :: "bytes \<Rightarrow> (agent_instance_id, identity_error) result" where
  "instance_id_parse s =
     (case parse_radix 10 (2 ^ 32) s of
        None \<Rightarrow> Err InvalidAgentInstanceId
      | Some n \<Rightarrow> Ok (AgentInstanceId (of_nat n)))"

fun path_component :: "agent_instance_id \<Rightarrow> bytes" where
  "path_component (AgentInstanceId n) = number_text 10 (unat n)"

section \<open>Facts\<close>

definition separator :: "u8 \<Rightarrow> bool" where
  "separator b \<longleftrightarrow> b = 47 \<or> b = 92 \<or> b = 58 \<or> b = 0"

lemma identifier_bytes:
  assumes "validate_identifier s"
  shows "s \<noteq> []" "\<forall>b\<in>set s. \<not> separator b \<and> b < 128"
proof -
  show "s \<noteq> []" using assms by (simp add: validate_identifier_def)
  have "\<not> separator b \<and> b < 128" if "is_ascii_alphanumeric b \<or> b \<in> set [46, 95, 45]" for b
    using that by (auto simp: is_ascii_alphanumeric_def separator_def word_le_nat_alt word_less_nat_alt)
  then show "\<forall>b\<in>set s. \<not> separator b \<and> b < 128" using assms by (auto simp: validate_identifier_def list_all_iff)
qed

lemma path_component_parses: "instance_id_parse (path_component (AgentInstanceId n)) = Ok (AgentInstanceId n)"
proof -
  have "parse_radix 10 (2 ^ 32) (number_text 10 (unat n)) = Some (unat n)"
    by (rule parse_number_text) (use unsigned_less [of n] in simp_all)
  then show ?thesis by (simp add: instance_id_parse_def)
qed

lemma path_component_plain: "\<forall>b\<in>set (path_component (AgentInstanceId n)). alnum b"
  using number_text_props(2) [of 10 "unat n"] by simp

lemma alnum_identifier: "alnum b \<Longrightarrow> is_ascii_alphanumeric b"
  by (auto simp: alnum_def is_ascii_alphanumeric_def)

text \<open>The alphabet as the error messages list it, and decimal numbers by their value.\<close>

definition identifier_alphabet :: bytes where
  "identifier_alphabet = byte_string ''0123456789ABCDEFGHIJKLMNOPQRSTUVWXYZabcdefghijklmnopqrstuvwxyz._-''"

lemma byte_between:
  fixes b :: u8
  assumes "word_of_nat m \<le> b" "b < word_of_nat n" "n < 256" "m < 256"
  shows "b \<in> word_of_nat ` set [m..<n]"
proof -
  have "m \<le> unat b" "unat b < n"
    using assms by (simp_all add: word_le_nat_alt word_less_nat_alt unat_of_nat)
  then have "unat b \<in> set [m..<n]" by simp
  moreover have "b = word_of_nat (unat b)" by simp
  ultimately show ?thesis by blast
qed

lemma identifier_alphabet_bytes: "b \<in> set identifier_alphabet \<longleftrightarrow> is_ascii_alphanumeric b \<or> b \<in> set [46, 95, 45]"
proof
  show "b \<in> set identifier_alphabet \<Longrightarrow> is_ascii_alphanumeric b \<or> b \<in> set [46, 95, 45]"
    by (auto simp: identifier_alphabet_def byte_string_def of_char_def is_ascii_alphanumeric_def word_le_nat_alt)
  assume "is_ascii_alphanumeric b \<or> b \<in> set [46, 95, 45]"
  then consider "b \<in> word_of_nat ` set [48..<58]" | "b \<in> word_of_nat ` set [65..<91]" | "b \<in> word_of_nat ` set [97..<123]"
    | "b \<in> set [46, 95, 45]"
    using byte_between [of 48 b 58] byte_between [of 65 b 91] byte_between [of 97 b 123]
    by (auto simp: is_ascii_alphanumeric_def word_le_nat_alt word_less_nat_alt)
  moreover have "word_of_nat ` set [48..<58] \<union> word_of_nat ` set [65..<91] \<union> word_of_nat ` set [97..<123] \<union> set [46, 95, 45] \<subseteq>
      set identifier_alphabet"
    by (simp add: identifier_alphabet_def byte_string_def of_char_def upt_conv_Cons)
  ultimately show "b \<in> set identifier_alphabet" by cases blast+
qed

lemma validate_identifier_alphabet: "validate_identifier s \<longleftrightarrow> s \<noteq> [] \<and> set s \<subseteq> set identifier_alphabet"
  by (auto simp: validate_identifier_def list_all_iff identifier_alphabet_bytes)

definition digit_bytes :: bytes where
  "digit_bytes = byte_string ''0123456789''"

definition decimal_value :: "bytes \<Rightarrow> nat" where
  "decimal_value s = foldl (\<lambda>n b. 10 * n + unat (b - 48)) 0 s"

lemma decimal_digit: "b \<in> set digit_bytes \<longleftrightarrow> (\<exists>d<10. digit_value b = Some d)"
  "digit_value b = Some d \<Longrightarrow> d < 10 \<Longrightarrow> unat (b - 48) = d"
proof -
  show "b \<in> set digit_bytes \<longleftrightarrow> (\<exists>d<10. digit_value b = Some d)"
  proof
    show "b \<in> set digit_bytes \<Longrightarrow> \<exists>d<10. digit_value b = Some d"
      by (auto simp: digit_bytes_def byte_string_def of_char_def digit_value_def word_le_nat_alt)
    assume "\<exists>d<10. digit_value b = Some d"
    then have "b \<in> word_of_nat ` set [48..<58]"
      by (intro byte_between) (auto simp: digit_value_def word_le_nat_alt word_less_nat_alt split: if_splits)
    moreover have "word_of_nat ` set [48..<58] \<subseteq> set digit_bytes"
      by (simp add: digit_bytes_def byte_string_def of_char_def upt_conv_Cons)
    ultimately show "b \<in> set digit_bytes" by blast
  qed
  show "unat (b - 48) = d" if "digit_value b = Some d" "d < 10"
    using that by (auto simp: digit_value_def word_le_nat_alt unat_sub split: if_splits)
qed

lemma digits_value_decimal:
  "acc < limit \<Longrightarrow> digits_value 10 limit acc s = Some n \<longleftrightarrow>
     set s \<subseteq> set digit_bytes \<and> foldl (\<lambda>n b. 10 * n + unat (b - 48)) acc s = n \<and> n < limit"
proof (induction s arbitrary: acc)
  case (Cons b s)
  have grows: "a \<le> foldl (\<lambda>n b. 10 * n + unat (b - 48)) a s" for a :: nat
  proof (induction s arbitrary: a)
    case (Cons c s)
    show ?case using Cons.IH [of "10 * a + unat (c - 48)"] by simp
  qed simp
  show ?case
  proof (cases "b \<in> set digit_bytes")
    case True
    then obtain d where d: "d < 10" "digit_value b = Some d" using decimal_digit(1) by blast
    show ?thesis
    proof (cases "acc * 10 + d < limit")
      case True
      then show ?thesis using Cons.IH [OF True] d decimal_digit(2) [OF d(2,1)] \<open>b \<in> set digit_bytes\<close> by (simp add: mult.commute)
    next
      case False
      then show ?thesis using d decimal_digit(2) [OF d(2,1)] grows [of "acc * 10 + d"] by (auto simp: mult.commute)
    qed
  next
    case False
    then have "\<not> (\<exists>d<10. digit_value b = Some d)" using decimal_digit(1) by blast
    then show ?thesis using False by (auto split: option.splits)
  qed
qed auto

lemma instance_id_parse_decimal:
  "instance_id_parse s = Ok (AgentInstanceId n) \<longleftrightarrow>
     (\<exists>digits. (s = digits \<or> s = byte_string ''+'' @ digits) \<and> digits \<noteq> [] \<and> set digits \<subseteq> set digit_bytes \<and> decimal_value digits = unat n)"
proof -
  have plus: "(43 :: u8) \<notin> set digit_bytes" "byte_string ''+'' = [43]"
    by (simp_all add: digit_bytes_def byte_string_def of_char_def)
  have number: "digits_value 10 (2 ^ 32) 0 t = Some m \<longleftrightarrow> set t \<subseteq> set digit_bytes \<and> decimal_value t = m \<and> m < 2 ^ 32" for t m
    using digits_value_decimal [of 0 "2 ^ 32" t m] by (simp add: decimal_value_def)
  have below: "unat n < 2 ^ 32" by (rule order_less_le_trans [OF unsigned_less]) simp
  have word: "(word_of_nat m = n \<and> m < 2 ^ 32) \<longleftrightarrow> m = unat n" for m
    using below by (auto simp: unat_of_nat)
  have "instance_id_parse s = Ok (AgentInstanceId n) \<longleftrightarrow> parse_radix 10 (2 ^ 32) s = Some (unat n)"
  proof (cases "parse_radix 10 (2 ^ 32) s")
    case (Some m)
    then have "m < 2 ^ 32" by (rule parse_radix_limit) simp
    then show ?thesis using Some word [of m] by (auto simp: instance_id_parse_def)
  qed (simp add: instance_id_parse_def)
  also have "\<dots> \<longleftrightarrow> (\<exists>digits. (s = digits \<or> s = byte_string ''+'' @ digits) \<and> digits \<noteq> [] \<and> set digits \<subseteq> set digit_bytes \<and> decimal_value digits = unat n)"
    using below plus by (cases s) (auto simp: parse_radix_def number simp del: digits_value.simps power_numeral)
  finally show ?thesis .
qed

text \<open>
  Claim C38.  Parsed identifiers are well formed.  A name is accepted exactly when it is non-empty and
  made of ASCII letters, digits, dots, underscores and dashes, the same for agents and instances, and it
  is kept as it was written; so an accepted name is ASCII, has no path separator or NUL, and parses to
  itself again.  An instance id is accepted exactly when it is a decimal number below two to the 32nd,
  with an optional plus sign, and is that number; it prints as a name, and the printed id parses back
  to it.  The names \<open>.\<close> and \<open>..\<close> are among the accepted ones.
\<close>

theorem identifiers_well_formed:
  "(agent_name_parse s = Ok a \<longleftrightarrow> a = AgentName s \<and> s \<noteq> [] \<and>
      set s \<subseteq> set (byte_string ''0123456789ABCDEFGHIJKLMNOPQRSTUVWXYZabcdefghijklmnopqrstuvwxyz._-'')) \<and>
   (instance_name_parse s = Ok i \<longleftrightarrow> i = InstanceName s \<and> s \<noteq> [] \<and>
      set s \<subseteq> set (byte_string ''0123456789ABCDEFGHIJKLMNOPQRSTUVWXYZabcdefghijklmnopqrstuvwxyz._-'')) \<and>
   (agent_name_parse s = Ok a \<longrightarrow> (\<forall>b\<in>set (agent_name_as_str a). \<not> separator b \<and> b < 128) \<and>
      agent_name_parse (agent_name_as_str a) = Ok a) \<and>
   (instance_id_parse s = Ok (AgentInstanceId n) \<longleftrightarrow>
      (\<exists>digits. (s = digits \<or> s = byte_string ''+'' @ digits) \<and> digits \<noteq> [] \<and> set digits \<subseteq> set (byte_string ''0123456789'') \<and>
         foldl (\<lambda>m b. 10 * m + unat (b - 48)) 0 digits = unat n)) \<and>
   agent_name_parse (path_component id1) = Ok (AgentName (path_component id1)) \<and> instance_id_parse (path_component id1) = Ok id1 \<and>
   agent_name_parse [46, 46] = Ok (AgentName [46, 46]) \<and> instance_name_parse [46] = Ok (InstanceName [46])"
proof (intro conjI impI)
  show "agent_name_parse s = Ok a \<longleftrightarrow> a = AgentName s \<and> s \<noteq> [] \<and>
      set s \<subseteq> set (byte_string ''0123456789ABCDEFGHIJKLMNOPQRSTUVWXYZabcdefghijklmnopqrstuvwxyz._-'')"
    by (auto simp: agent_name_parse_def validate_identifier_alphabet identifier_alphabet_def)
  show "instance_name_parse s = Ok i \<longleftrightarrow> i = InstanceName s \<and> s \<noteq> [] \<and>
      set s \<subseteq> set (byte_string ''0123456789ABCDEFGHIJKLMNOPQRSTUVWXYZabcdefghijklmnopqrstuvwxyz._-'')"
    by (auto simp: instance_name_parse_def validate_identifier_alphabet identifier_alphabet_def)
  show "instance_id_parse s = Ok (AgentInstanceId n) \<longleftrightarrow>
      (\<exists>digits. (s = digits \<or> s = byte_string ''+'' @ digits) \<and> digits \<noteq> [] \<and> set digits \<subseteq> set (byte_string ''0123456789'') \<and>
         foldl (\<lambda>m b. 10 * m + unat (b - 48)) 0 digits = unat n)"
    using instance_id_parse_decimal by (simp add: digit_bytes_def decimal_value_def)
next
  assume "agent_name_parse s = Ok a"
  then have a: "a = AgentName s" "validate_identifier s" by (auto simp: agent_name_parse_def split: if_splits)
  then show "\<forall>b\<in>set (agent_name_as_str a). \<not> separator b \<and> b < 128" "agent_name_parse (agent_name_as_str a) = Ok a"
    using identifier_bytes [of s] by (simp_all add: agent_name_parse_def)
next
  obtain m where m: "id1 = AgentInstanceId m" by (cases id1)
  have "path_component id1 \<noteq> []" using number_text_props(1) [of 10 "unat m"] m by simp
  then show "agent_name_parse (path_component id1) = Ok (AgentName (path_component id1))"
    using path_component_plain [of m] m alnum_identifier by (auto simp: agent_name_parse_def validate_identifier_def list_all_iff)
  show "instance_id_parse (path_component id1) = Ok id1" using path_component_parses m by simp
qed (auto simp: agent_name_parse_def instance_name_parse_def validate_identifier_def split: if_splits)

theorem identifiers_well_formed_witness:
  "agent_name_parse [97, 45, 49] = Ok (AgentName [97, 45, 49]) \<and>
   list_all (\<lambda>b. \<not> separator b \<and> b < 128) [97, 45, 49 :: u8] \<and> instance_id_parse (path_component (AgentInstanceId 7)) = Ok (AgentInstanceId 7)"
proof -
  have "agent_name_parse [97, 45, 49] = Ok (AgentName [97, 45, 49])" by code_simp
  with identifiers_well_formed [of "[97, 45, 49]" "AgentName [97, 45, 49]" "InstanceName []" 7 "AgentInstanceId 7"]
  show ?thesis by simp
qed

text \<open>Several directory names parse to the same instance id.\<close>

lemma instance_id_spellings:
  "instance_id_parse [48, 55] = Ok (AgentInstanceId 7)" "instance_id_parse [43, 55] = Ok (AgentInstanceId 7)"
  by (simp_all add: instance_id_parse_def parse_radix_def digit_value_def)

end
