(* ===== verification/Jsonl.thy ===== *)
theory Jsonl
  imports QemuStream
begin

text \<open>
  Newline-delimited messages between the server, its clients and its guests,
  \<open>core/agentdp-protocol/src/jsonl.rs\<close>: \<open>JsonLineReader\<close> collects bytes until a line is complete
  and keeps what is left for the next call.

  The asynchronous reader is the scripted socket of \<^theory_text>\<open>Io\<close>: where it would block, the call is
  pending, and its caller may poll it again or drop it and call anew, both of which go on with
  the bytes collected so far.  \<open>serde_json\<close> is an argument: a function from values to bytes and
  one back.
\<close>

section \<open>Reader\<close>

datatype jsonl_error = JsonRead io_error | JsonFrame nat | JsonEncode | JsonDecode

record json_line_reader =
  jr_pending :: bytes
  jr_max_line_bytes :: nat

datatype 'a line_poll = LineReady 'a | LinePending

definition reader_new :: "nat \<Rightarrow> json_line_reader" where
  "reader_new max_line_bytes = \<lparr> jr_pending = [], jr_max_line_bytes = max_line_bytes \<rparr>"

definition reader_extend :: "bytes \<Rightarrow> json_line_reader \<Rightarrow> json_line_reader" where
  "reader_extend xs r = r\<lparr> jr_pending := jr_pending r @ xs \<rparr>"

definition validate_next_frame_size :: "json_line_reader \<Rightarrow> (unit, jsonl_error) result" where
  "validate_next_frame_size r =
     (let frame_len = (case position (\<lambda>b. b = 10) (jr_pending r) of None \<Rightarrow> length (jr_pending r) | Some end1 \<Rightarrow> end1 + 1) in
      if jr_max_line_bytes r < frame_len then Err (JsonFrame (jr_max_line_bytes r)) else Ok ())"

definition take_line :: "json_line_reader \<Rightarrow> bytes \<Rightarrow> json_line_reader \<times> bytes \<times> bool" where
  "take_line r line =
     (case position (\<lambda>b. b = 10) (jr_pending r) of
        None \<Rightarrow> (r, line, False)
      | Some end1 \<Rightarrow> (r\<lparr> jr_pending := drop (end1 + 1) (jr_pending r) \<rparr>, line @ take (end1 + 1) (jr_pending r), True))"

definition take_eof :: "json_line_reader \<Rightarrow> bytes \<Rightarrow> json_line_reader \<times> bytes \<times> bool" where
  "take_eof r line =
     (if jr_pending r = [] then (r, line, False) else (r\<lparr> jr_pending := [] \<rparr>, line @ jr_pending r, True))"

lemma sock_read_shrinks:
  assumes "sock_read cap s = (s', Ok (x # xs))"
  shows "length (incoming (so_in s')) < length (incoming (so_in s))"
  using sock_read_incoming(1) [OF assms] by simp

function read_line_loop :: "json_line_reader \<Rightarrow> socket \<Rightarrow> bytes \<Rightarrow> json_line_reader \<times> socket \<times> bytes \<times> (bool, jsonl_error) result line_poll" where
  "read_line_loop r s line =
     (case sock_read 8192 s of
        (s, Err WouldBlock) \<Rightarrow> (r, s, line, LinePending)
      | (s, Err e) \<Rightarrow> (r, s, line, LineReady (Err (JsonRead e)))
      | (s, Ok []) \<Rightarrow>
         (case validate_next_frame_size r of
            Err e \<Rightarrow> (r, s, line, LineReady (Err e))
          | Ok _ \<Rightarrow> (case take_eof r line of (r, line, ok) \<Rightarrow> (r, s, line, LineReady (Ok ok))))
      | (s, Ok (x # xs)) \<Rightarrow>
         (let r = reader_extend (x # xs) r in
          case validate_next_frame_size r of
            Err e \<Rightarrow> (r, s, line, LineReady (Err e))
          | Ok _ \<Rightarrow>
             (case take_line r line of
                (r, line, True) \<Rightarrow> (r, s, line, LineReady (Ok True))
              | (r, line, False) \<Rightarrow> read_line_loop r s line)))"
  by pat_completeness auto

termination
  by (relation "measure (\<lambda>(_, s, _). length (incoming (so_in s)))") (auto dest: sock_read_shrinks [OF sym])

declare read_line_loop.simps [simp del]

definition read_line :: "json_line_reader \<Rightarrow> socket \<Rightarrow> json_line_reader \<times> socket \<times> bytes \<times> (bool, jsonl_error) result line_poll" where
  "read_line r s =
     (case validate_next_frame_size r of
        Err e \<Rightarrow> (r, s, [], LineReady (Err e))
      | Ok _ \<Rightarrow>
         (case take_line r [] of
            (r, line, True) \<Rightarrow> (r, s, line, LineReady (Ok True))
          | (r, line, False) \<Rightarrow> read_line_loop r s line))"

section \<open>Messages\<close>

definition encode_into :: "('t \<Rightarrow> bytes option) \<Rightarrow> 't \<Rightarrow> (bytes, jsonl_error) result" where
  "encode_into to_json v = (case to_json v of None \<Rightarrow> Err JsonEncode | Some xs \<Rightarrow> Ok (xs @ [10]))"

definition json_decode :: "(bytes \<Rightarrow> 't option) \<Rightarrow> bytes \<Rightarrow> ('t, jsonl_error) result" where
  "json_decode from_json line = (case from_json line of None \<Rightarrow> Err JsonDecode | Some v \<Rightarrow> Ok v)"

datatype 't read_json_line = JsonValue 't | JsonEof

definition json_read ::
    "(bytes \<Rightarrow> 't option) \<Rightarrow> json_line_reader \<Rightarrow> socket \<Rightarrow> json_line_reader \<times> socket \<times> ('t read_json_line, jsonl_error) result line_poll" where
  "json_read from_json r s =
     (case read_line r s of
        (r, s, line, LinePending) \<Rightarrow> (r, s, LinePending)
      | (r, s, line, LineReady (Err e)) \<Rightarrow> (r, s, LineReady (Err e))
      | (r, s, line, LineReady (Ok True)) \<Rightarrow>
          (r, s, LineReady (case json_decode from_json line of Err e \<Rightarrow> Err e | Ok v \<Rightarrow> Ok (JsonValue v)))
      | (r, s, line, LineReady (Ok False)) \<Rightarrow> (r, s, LineReady (Ok JsonEof)))"

section \<open>Lines\<close>

lemma position_first: "c \<notin> set b \<Longrightarrow> position (\<lambda>x. x = c) (b @ c # rest) = Some (length b)"
  by (induction b) auto

lemma first_line_cases [consumes 2]:
  assumes "xs @ ys = b @ c # rest" "c \<notin> set b"
  obtains (whole) p where "xs = b @ c # p" "p @ ys = rest"
    | (part) "c \<notin> set xs" "length xs \<le> length b"
proof (cases "length xs \<le> length b")
  case True
  then have "xs = take (length xs) b" using assms(1) by (simp add: append_eq_append_conv_if)
  then have "c \<notin> set xs" using assms(2) by (metis in_set_takeD)
  then show ?thesis using part True by blast
next
  case False
  then obtain p where "xs = b @ p" "p @ ys = c # rest" using assms(1) by (auto simp: append_eq_append_conv2)
  then show ?thesis using whole False by (cases p) auto
qed

text \<open>With the next line \<open>b\<close>, newline included, on its way.\<close>

definition on_the_way :: "json_line_reader \<Rightarrow> socket \<Rightarrow> bytes \<Rightarrow> bool" where
  "on_the_way r s stream \<longleftrightarrow> clean (so_in s) \<and> jr_pending r @ incoming (so_in s) = stream"

lemma line_fits:
  assumes "jr_pending r @ ys = b @ 10 # rest" "10 \<notin> set b" "length b < jr_max_line_bytes r"
  shows "validate_next_frame_size r = Ok ()"
    "take_line r line = (r, line, False) \<and> 10 \<notin> set (jr_pending r) \<or>
     (\<exists>p. take_line r line = (r\<lparr> jr_pending := p \<rparr>, line @ b @ [10], True) \<and> p @ ys = rest)"
proof -
  have "validate_next_frame_size r = Ok () \<and>
    (take_line r line = (r, line, False) \<and> 10 \<notin> set (jr_pending r) \<or>
     (\<exists>p. take_line r line = (r\<lparr> jr_pending := p \<rparr>, line @ b @ [10], True) \<and> p @ ys = rest))"
    using assms(1,2)
  proof (cases rule: first_line_cases)
    case (whole p)
    then show ?thesis using assms(2,3) by (auto simp: validate_next_frame_size_def take_line_def position_first Let_def)
  next
    case part
    then have "position (\<lambda>b. b = 10) (jr_pending r) = None" by (auto simp: position_None)
    then show ?thesis using part assms(3) by (auto simp: validate_next_frame_size_def take_line_def Let_def)
  qed
  then show "validate_next_frame_size r = Ok ()"
    "take_line r line = (r, line, False) \<and> 10 \<notin> set (jr_pending r) \<or>
     (\<exists>p. take_line r line = (r\<lparr> jr_pending := p \<rparr>, line @ b @ [10], True) \<and> p @ ys = rest)" by auto
qed

lemma read_line_loop_step:
  assumes "on_the_way r s (b @ 10 # rest)" "10 \<notin> set b" "length b < jr_max_line_bytes r" "10 \<notin> set (jr_pending r)"
  shows "\<exists>r' s' line' out1. read_line_loop r s line = (r', s', line', out1) \<and> jr_max_line_bytes r' = jr_max_line_bytes r \<and>
    (out1 = LineReady (Ok True) \<and> line' = line @ b @ [10] \<and> on_the_way r' s' rest \<and> blocks (so_in s') \<le> blocks (so_in s) \<or>
     out1 = LinePending \<and> on_the_way r' s' (b @ 10 # rest) \<and> blocks (so_in s') < blocks (so_in s))"
  using assms
proof (induction r s line rule: read_line_loop.induct)
  case (1 r s line)
  have clean: "clean (so_in s)" using 1(2) by (simp add: on_the_way_def)
  have "0 < (8192 :: nat)" by simp
  from clean this show ?case
  proof (cases rule: sock_read_clean)
    case (data s' xs)
    then obtain y ys where xs: "xs = y # ys" by (cases xs) auto
    let ?r = "reader_extend xs r"
    have way: "on_the_way ?r s' (b @ 10 # rest)" using 1(2) data by (simp add: on_the_way_def reader_extend_def)
    have eq: "jr_pending ?r @ incoming (so_in s') = b @ 10 # rest" using way by (simp add: on_the_way_def)
    have max: "jr_max_line_bytes ?r = jr_max_line_bytes r" by (simp add: reader_extend_def)
    have len: "length b < jr_max_line_bytes ?r" using 1(4) max by simp
    note ok = line_fits(1) [OF eq 1(3) len]
    from line_fits(2) [OF eq 1(3) len, of line] show ?thesis
    proof
      assume part: "take_line ?r line = (?r, line, False) \<and> 10 \<notin> set (jr_pending ?r)"
      have step: "read_line_loop r s line = read_line_loop ?r s' line"
        using data(1) xs ok part by (simp add: read_line_loop.simps [of r s line] Let_def)
      show ?thesis
        using 1(1) [OF data(1) [symmetric] refl xs _ ok [unfolded xs] _ refl] part way 1(3) len max data(5) unfolding step
        by (fastforce simp: xs)
    next
      assume "\<exists>p. take_line ?r line = (?r\<lparr> jr_pending := p \<rparr>, line @ b @ [10], True) \<and> p @ incoming (so_in s') = rest"
      then show ?thesis using data ok xs max by (auto simp: read_line_loop.simps [of r s line] Let_def on_the_way_def)
    qed
  next
    case (blocked s')
    have "so_in s' \<noteq> []"
    proof
      assume "so_in s' = []"
      then have "incoming (so_in s) = []" using blocked(2) by (metis concat.simps(1) incoming_def list.simps(8))
      then have "jr_pending r = b @ 10 # rest" using 1(2) by (simp add: on_the_way_def)
      then show False using 1(5) by simp
    qed
    then show ?thesis using 1(2) blocked by (auto simp: read_line_loop.simps [of r s line] on_the_way_def)
  qed
qed

lemma read_line_step:
  assumes "on_the_way r s (b @ 10 # rest)" "10 \<notin> set b" "length b < jr_max_line_bytes r"
  shows "\<exists>r' s' line out1. read_line r s = (r', s', line, out1) \<and> jr_max_line_bytes r' = jr_max_line_bytes r \<and>
    (out1 = LineReady (Ok True) \<and> line = b @ [10] \<and> on_the_way r' s' rest \<and> blocks (so_in s') \<le> blocks (so_in s) \<or>
     out1 = LinePending \<and> on_the_way r' s' (b @ 10 # rest) \<and> blocks (so_in s') < blocks (so_in s))"
proof -
  have eq: "jr_pending r @ incoming (so_in s) = b @ 10 # rest" using assms(1) by (simp add: on_the_way_def)
  note ok = line_fits(1) [OF eq assms(2,3)]
  from line_fits(2) [OF eq assms(2,3), of "[]"] show ?thesis
  proof
    assume "take_line r [] = (r, [], False) \<and> 10 \<notin> set (jr_pending r)"
    then show ?thesis using read_line_loop_step [OF assms, of "[]"] ok by (simp add: read_line_def)
  next
    assume "\<exists>p. take_line r [] = (r\<lparr> jr_pending := p \<rparr>, [] @ b @ [10], True) \<and> p @ incoming (so_in s) = rest"
    then show ?thesis using ok assms(1) by (auto simp: read_line_def on_the_way_def)
  qed
qed

section \<open>A receiver that polls\<close>

text \<open>A number of calls: the values received, and what ended them; a pending call is made again.\<close>

fun json_run ::
    "(bytes \<Rightarrow> 't option) \<Rightarrow> nat \<Rightarrow> json_line_reader \<Rightarrow> socket \<Rightarrow>
     json_line_reader \<times> socket \<times> 't list \<times> ('t read_json_line, jsonl_error) result option" where
  "json_run from_json 0 r s = (r, s, [], None)"
| "json_run from_json (Suc n) r s =
     (case json_read from_json r s of
        (r, s, LinePending) \<Rightarrow> json_run from_json n r s
      | (r, s, LineReady (Ok (JsonValue v))) \<Rightarrow>
          (case json_run from_json n r s of (r, s, vs, stop) \<Rightarrow> (r, s, v # vs, stop))
      | (r, s, LineReady other) \<Rightarrow> (r, s, [], Some other))"

lemma read_line_idle:
  assumes "on_the_way r s []"
  shows "\<exists>s'. read_line r s = (r, s', [], LinePending) \<and> on_the_way r s' []"
proof -
  have idle: "jr_pending r = []" "clean (so_in s)" "incoming (so_in s) = []" using assms by (auto simp: on_the_way_def)
  have "0 < (8192 :: nat)" by simp
  from idle(2) this show ?thesis
  proof (cases rule: sock_read_clean)
    case (blocked s')
    then show ?thesis using idle
      by (simp add: read_line_def validate_next_frame_size_def take_line_def read_line_loop.simps [of r] on_the_way_def)
  qed (use idle in simp)
qed

definition line_of :: "('t \<Rightarrow> bytes option) \<Rightarrow> 't \<Rightarrow> bytes" where
  "line_of to_json v = (case encode_into to_json v of Ok line \<Rightarrow> line | Err e \<Rightarrow> [])"

lemma json_run_values:
  assumes json: "\<And>v xs. to_json v = Some xs \<Longrightarrow> 10 \<notin> set xs \<and> from_json (xs @ [10]) = Some v"
    and "\<forall>v\<in>set vs. to_json v \<noteq> None \<and> length (line_of to_json v) \<le> jr_max_line_bytes r"
    and "on_the_way r s (concat (map (line_of to_json) vs))" "length vs + blocks (so_in s) \<le> n"
  shows "\<exists>r' s'. json_run from_json n r s = (r', s', vs, None) \<and> on_the_way r' s' []"
  using assms(2-4)
proof (induction n arbitrary: r s vs)
  case (Suc n)
  show ?case
  proof (cases vs)
    case Nil
    then obtain s' where s': "read_line r s = (r, s', [], LinePending)" "on_the_way r s' []"
      using read_line_idle Suc.prems(2) by auto
    have "\<exists>s'. json_run from_json n r s1 = (r, s', [], None) \<and> on_the_way r s' []" if "on_the_way r s1 []" for n s1
      using that
    proof (induction n arbitrary: s1)
      case (Suc n)
      then show ?case using read_line_idle [OF Suc.prems] by (auto simp: json_read_def)
    qed simp
    from this [OF s'(2), of n] show ?thesis using s'(1) Nil by (auto simp: json_read_def)
  next
    case (Cons v ws)
    then obtain xs where xs: "to_json v = Some xs" using Suc.prems(1) by auto
    have line: "line_of to_json v = xs @ [10]" by (simp add: line_of_def encode_into_def xs)
    have clear: "10 \<notin> set xs" and reads: "from_json (xs @ [10]) = Some v" using json [OF xs] by auto
    have way: "on_the_way r s (xs @ 10 # concat (map (line_of to_json) ws))" using Suc.prems(2) Cons line by simp
    have len: "length xs < jr_max_line_bytes r" using Suc.prems(1) Cons line by auto
    from read_line_step [OF way clear len] obtain r' s' l out1 where step: "read_line r s = (r', s', l, out1)"
        "jr_max_line_bytes r' = jr_max_line_bytes r"
        "out1 = LineReady (Ok True) \<and> l = xs @ [10] \<and> on_the_way r' s' (concat (map (line_of to_json) ws)) \<and> blocks (so_in s') \<le> blocks (so_in s) \<or>
         out1 = LinePending \<and> on_the_way r' s' (xs @ 10 # concat (map (line_of to_json) ws)) \<and> blocks (so_in s') < blocks (so_in s)" by blast
    from step(3) show ?thesis
    proof
      assume received: "out1 = LineReady (Ok True) \<and> l = xs @ [10] \<and> on_the_way r' s' (concat (map (line_of to_json) ws)) \<and> blocks (so_in s') \<le> blocks (so_in s)"
      then have "json_read from_json r s = (r', s', LineReady (Ok (JsonValue v)))"
        using step(1) reads by (simp add: json_read_def json_decode_def)
      moreover have "\<exists>r2 s2. json_run from_json n r' s' = (r2, s2, ws, None) \<and> on_the_way r2 s2 []"
        using Suc.IH [of ws r' s'] received step(2) Suc.prems(1,3) Cons by auto
      ultimately show ?thesis using Cons by auto
    next
      assume wait: "out1 = LinePending \<and> on_the_way r' s' (xs @ 10 # concat (map (line_of to_json) ws)) \<and> blocks (so_in s') < blocks (so_in s)"
      then have "json_read from_json r s = (r', s', LinePending)" using step(1) by (simp add: json_read_def)
      moreover have "\<exists>r2 s2. json_run from_json n r' s' = (r2, s2, vs, None) \<and> on_the_way r2 s2 []"
        using Suc.IH [of vs r' s'] wait step(2) Suc.prems(1,3) Cons line by auto
      ultimately show ?thesis by simp
    qed
  qed
next
  case 0
  then show ?case by (auto simp: on_the_way_def)
qed

text \<open>
  Claim C39.  Messages cross a stream whole and in order.  When the serializer writes no raw newline and the
  deserializer reads back what it wrote, a receiver gets exactly the values that were encoded,
  however their bytes are cut into reads and wherever a call is left pending and made again, as
  long as every line with its newline fits the limit; and no byte is left over.
\<close>

theorem jsonl_roundtrip:
  assumes "\<forall>v xs. to_json v = Some xs \<longrightarrow> 10 \<notin> set xs" "\<forall>v xs. to_json v = Some xs \<longrightarrow> from_json (xs @ [10]) = Some v"
    and "list_all2 (\<lambda>v line. encode_into to_json v = Ok line \<and> length line \<le> max_line_bytes) vs lines"
    and "clean (so_in s)" "incoming (so_in s) = concat lines" "length vs + blocks (so_in s) \<le> n"
  shows "\<exists>r s'. json_run from_json n (reader_new max_line_bytes) s = (r, s', vs, None) \<and> jr_pending r = [] \<and> incoming (so_in s') = []"
proof -
  have lines: "lines = map (line_of to_json) vs"
    using assms(3) by (induction rule: list_all2_induct) (auto simp: line_of_def)
  have "\<forall>v\<in>set vs. to_json v \<noteq> None \<and> length (line_of to_json v) \<le> max_line_bytes"
    using assms(3) by (induction rule: list_all2_induct) (auto simp: line_of_def encode_into_def split: option.splits)
  then show ?thesis
    using json_run_values [of to_json from_json vs "reader_new max_line_bytes" s n] assms(1,2,4-6) lines
    by (auto simp: reader_new_def on_the_way_def)
qed

definition demo_to_json :: "bool \<Rightarrow> bytes option" where
  "demo_to_json b = Some (byte_string (if b then ''true'' else ''false''))"

definition demo_from_json :: "bytes \<Rightarrow> bool option" where
  "demo_from_json xs = (if xs = byte_string ''true'' @ [10] then Some True
     else if xs = byte_string ''false'' @ [10] then Some False else None)"

theorem jsonl_roundtrip_witness:
  "\<exists>r s. json_run demo_from_json 3 (reader_new 16)
     \<lparr> so_in = [Chunk [116, 114], ReadBlock, Chunk ([117, 101, 10] @ byte_string ''false'' @ [10])], so_room = [], so_out = [] \<rparr> =
       (r, s, [True, False], None) \<and> jr_pending r = [] \<and> incoming (so_in s) = []"
proof (rule jsonl_roundtrip [where to_json = demo_to_json and lines = "[byte_string ''true'' @ [10], byte_string ''false'' @ [10]]"])
  show "\<forall>v xs. demo_to_json v = Some xs \<longrightarrow> 10 \<notin> set xs" by (auto simp: demo_to_json_def byte_string_def)
  show "\<forall>v xs. demo_to_json v = Some xs \<longrightarrow> demo_from_json (xs @ [10]) = Some v"
    by (auto simp: demo_to_json_def demo_from_json_def byte_string_def)
qed (simp_all add: demo_to_json_def encode_into_def byte_string_def clean_def incoming_def blocks_def)

end
