(* ===== verification/Spec2Isabelle.thy ===== *)
theory Spec2Isabelle
  imports Base64 Rand LocalSpsc LocalInbox Oneshot FixedTable SyncSpscCalls SyncRing WriteQueue
    Timer Readiness Http1Safety Http1Limits Http1Transparent Http1Dispatch Http1Length
    Classify DnsMessages DnsTcp QemuStream Relay TlsHello GatewaySafety PlainRelay UdpSafety TcpProxy
    BootstrapRun Identity Jsonl
begin

text \<open>
  A verification library for agentdp, which runs coding agents in virtual machines whose network
  it mediates: the guest's frames reach the host through a socket of QEMU, every connection the
  guest opens is checked against a policy, and secrets that the guest only knows by placeholder
  are put into its requests on the way out.  The library models the code that this promise rests
  on, from the data structures up to a turn of the network's event loop, the bootstrap of the
  guest, and the formats between the programs.

  \<^bold>\<open>The program and its parts.\<close>  The network library (\<open>src/src/libs/agentdp-network\<close>) is a
  single-threaded event loop.  A reactor reports readiness, which is latched per registration; a
  turn (\<open>drive.rs\<close>) gives every component a share of a budget of steps, bytes and events; guest
  frames are read and written by \<open>guest.rs\<close> over a session of the QEMU back end; host sockets and
  the guest's TCP sockets are joined through write queues whose buffers come from fixed pools;
  what the guest sends to a host is first classified, then, for HTTP, passed through the mediation
  filter of \<open>application/http1.rs\<close>, which calls the substitution of \<open>application/raw.rs\<close>, which calls
  the policy of \<open>policy.rs\<close> and the base64 library; DNS answers are tracked so that addresses can
  be tied to names.  The threads of the server exchange values with the loop through the queues of
  \<open>src/src/libs/agentdp-ds\<close>.  In the guest, a daemon runs the bootstrap plan; programs talk in JSON
  lines; agents are named by validated identifiers.

  \<^bold>\<open>Foundations.\<close>
  \<^item> \<open>Prelude\<close>: machine integers as words, \<open>usize\<close> as \<open>nat\<close> with its limit written where it matters,
    \<open>Result\<close>, checked slices, the collections of simplification rules.  A panic of the source is the
    value \<open>None\<close> of an outer option, so that a theorem that gives \<open>Some\<close> shows the absence of panics.
  \<^item> \<open>RustStr\<close>, \<open>WireBytes\<close>, \<open>Io\<close>: the part of Rust's strings, of big-endian numbers and of non-blocking
    reads and writes that the sources use.  A socket is the list of the answers it will give, so a
    theorem over all sockets covers every order of short, blocking and failing calls.
  \<^item> \<open>Channel\<close>, \<open>Codec\<close>, \<open>Refinement\<close>: the locales \<open>bounded_channel\<close> (queues: every run delivers what
    it accepted, in order), \<open>buffered_codec\<close> (a codec over caller buffers) and \<open>refinement\<close> (a
    component answers every sequence of operations as its abstract machine).  Each is interpreted on
    the models of the code: the three queues, base64, the fixed table and the readiness latches.

  \<^bold>\<open>Data structures.\<close>
  \<^item> \<open>Base64\<close> (\<open>agentdp-base64/src/lib.rs\<close>): the scalar and the block-wise encoders, the decoder and
    their lengths; they compute a reference encoding and are inverse.
  \<^item> \<open>Rand\<close> (\<open>agentdp-rand\<close>): the generator with its wrapping arithmetic; the rejection loop of
    \<open>below\<close> ends for every state because the generator has full period, no fuel is used.
  \<^item> \<open>LocalSpsc\<close>, \<open>LocalInbox\<close>, \<open>Oneshot\<close> (\<open>agentdp-ds/src/local\<close>): the task-local channels with their
    wakers; first-in first-out order, no lost wake-up, at most one delivery.
  \<^item> \<open>FixedTable\<close> (\<open>fixed_table.rs\<close>): refines a bounded map.
  \<^item> \<open>SyncSpsc\<close>, \<open>SyncSpscCalls\<close> (\<open>agentdp-ds/src/sync\<close>): the lock-free channel as a step relation over
    single accesses, in which a load may return any value the memory order allows; exclusive access
    to every slot, order, and no value lost when a side disconnects.
  \<^item> \<open>RingIndex\<close>, \<open>SyncRing\<close> (\<open>agentdp-ds/src/sync\<close>): the ring's cursors with their wrap-around and the
    ring modelled one whole call at a time, without stale loads; order and bound, with batches held.

  \<^bold>\<open>Network.\<close>
  \<^item> \<open>Limits\<close>, \<open>Pool\<close>, \<open>PoolSafety\<close>, \<open>WriteQueue\<close> (\<open>network.rs\<close>, \<open>buffers/\<close>): the pools never hand out more
    buffers than configured, keep their frames for the guest, and get every buffer back.
  \<^item> \<open>Timer\<close>, \<open>Readiness\<close> (\<open>timer.rs\<close>, \<open>readiness.rs\<close>, \<open>reactor/mod.rs\<close>): deadlines fire when due;
    readiness stays latched until an operation would block.
  \<^item> \<open>Policy\<close> (\<open>policy.rs\<close>): address classes, host allow lists, secrets and their scopes, and exactly
    which authorities a change of secrets affects.
  \<^item> \<open>Raw\<close>, \<open>RawHeaders\<close> (\<open>application/raw.rs\<close>): substitution of placeholders in bytes, bodies and
    Basic credentials; the result holds no placeholder.
  \<^item> \<open>Http1Text\<close>, \<open>Http1Response\<close>, \<open>Http1Filter\<close> (\<open>application/http1.rs\<close>): request heads, body framing,
    response tracking and the filter's state machine.  \<open>Http1Safety\<close>: a secret's value has no effect
    on anything sent to a host out of its scope; \<open>Http1Transparent\<close>: without secrets the filter
    forwards exactly its input, however it is cut; \<open>Http1Limits\<close>: bounded buffers, those of the chunk
    parsers included, no panic, and termination; \<open>Http1Pipeline\<close>: input behind other input is treated
    as input of a call of its own; \<open>Http1Dispatch\<close>: workflow dispatches are refused wherever they come
    on a connection; \<open>Http1Chunks\<close>, \<open>Http1Length\<close>: chunked bodies, extensions and trailers included, end
    where the grammar says, and a rewritten body has its own length.
  \<^item> \<open>Classify\<close> (\<open>classify.rs\<close>, \<open>quic.rs\<close>, \<open>http3.rs\<close>, \<open>websocket.rs\<close>, \<open>grpc.rs\<close>, \<open>http2.rs\<close>): the recognisers.
  \<^item> \<open>Dns\<close>, \<open>DnsMessages\<close>, \<open>DnsTcp\<close> (\<open>application/dns.rs\<close>): the reader of messages with compression and
    \<open>CNAME\<close> chains, the round trip with a reference writer, and the tracker over TCP, which only
    reports names that were asked for.  Pointers are followed by the source at most a fixed number
    of times, which the model keeps.
  \<^item> \<open>QemuStream\<close> (\<open>agentdp-qemu/src/net/stream.rs\<close>): length-prefixed frames over a stream, with their
    round trip.
  \<^item> \<open>Drive\<close>, \<open>DriveIo\<close> (\<open>drive.rs\<close>): budget, report and every operation of a turn.  \<open>DriveSafety\<close> has the
    accounting of one call (\<open>spends\<close>) and the locale \<open>byte_io\<close> of the sockets a turn may use;
    \<open>DriveTurns\<close> closes it over sequences of calls.
  \<^item> \<open>GuestIo\<close>, \<open>GuestIoSafety\<close> (\<open>guest.rs\<close>, \<open>agentdp-qemu/src/net.rs\<close>): the queue of frames for the
    guest and the frames from it; the locale \<open>frame_session\<close> is the contract of a session and is
    interpreted on the QEMU session.
  \<^item> \<open>Relay\<close>: what holds of the composition: a turn stays within its budget, a relay between a stream
    and the guest loses, repeats and reorders nothing, and a turn that leaves work says why.

  \<^item> \<open>Attribution\<close> (\<open>gateway/dns.rs\<close>): which names an address stands for; only unexpired resolutions count.
  \<^item> \<open>Sni\<close>, \<open>TlsRoute\<close>, \<open>TlsHello\<close> (\<open>tls/sni.rs\<close>, \<open>tls/intercept.rs\<close>, \<open>egress/tcp/tls.rs\<close>): the server name of a
    client hello, the policy of an intercepted flow with its certificates, and the reading of the
    hello up to the decision, which is exactly what the policy prescribes; certificate and key
    operations are arguments.
  \<^item> \<open>Gateway\<close>, \<open>GatewayFlow\<close>, \<open>GatewaySafety\<close> (\<open>gateway/\<close>, \<open>ingress/udp.rs\<close>): packets, the frame device and
    the gateway around smoltcp, whose packet views, interface and sockets are arguments; one frame of
    the guest lets out at most one datagram, within the policy unless it answers the recorded peer of a
    published port, which the source sends without a check; a refused frame lets nothing out and opens no connection.
  \<^item> \<open>PlainTcp\<close>, \<open>PlainRelay\<close> (\<open>egress/tcp/plain.rs\<close>): the proxy of a connection that is not intercepted;
    bytes pass in both directions exactly, in order, and the end of the stream comes last.
  \<^item> \<open>UdpFlows\<close>, \<open>UdpSafety\<close> (\<open>egress/udp.rs\<close>): the table of datagram flows with its timers and its host
    sockets; every datagram goes out at most once and on its own flow, and comes in on it.
  \<^item> \<open>TcpFlows\<close>, \<open>TcpProxy\<close> (\<open>egress/tcp/mod.rs\<close>): the table of TCP flows with its slots, its turn and its
    proxies, plain or intercepting.  The loop over a proxy is a partial function, since it ends only
    when the proxy does.

  \<^bold>\<open>Guest and formats.\<close>
  \<^item> \<open>BootstrapOrder\<close>, \<open>BootstrapRun\<close> (\<open>agentdp-guest/src/system/bootstrap.rs\<close>, \<open>bootstrap/scheduler.rs\<close>):
    the topological order of a plan and the executor as a step relation over every interleaving of
    its tasks; steps start after their dependencies and share no resource.  A run whose saves and sends
    succeed ends completed, with a reported failure, or, unreported, with the error of a step that could
    not be run or of a task that panicked; a failed save or send ends it within a move, which is not
    modelled.
    \<open>order_loop\<close> carries fuel \<open>Suc (length steps)\<close>: every round appends one step of the plan and no
    step twice, so the fuel is never used up, which the correctness theorem includes.
  \<^item> \<open>Identity\<close> (\<open>agentdp-core/src/agent/identity.rs\<close>): names and instance ids.
  \<^item> \<open>Jsonl\<close> (\<open>agentdp-protocol/src/jsonl.rs\<close>): the line reader and the message calls over it; the
    JSON codec is an argument with the hypothesis that it is inverse and writes no newline.

  \<^bold>\<open>Termination and bounds.\<close>  Loops over data are total functions with their measures.  Loops over a
  socket end because a call consumes an answer of the script or a step of the budget.  Runs of
  concurrent components are finite sequences of steps of any length.

  \<^bold>\<open>Not modelled.\<close>  The intercepting proxy past its ClientHello, the published TCP ports and the event
  loop, which compose the modelled operations around rustls, smoltcp and mio, and the checks over
  manifests and the status documents.  System calls, child processes, files, TLS and
  certificates, the YAML and JSON libraries, generated shell scripts and the front ends stay out:
  they are third-party code or input and output without a contract of their own.  Memory is
  values: allocation failure, zeroing of secrets on drop and the representation of buffers are
  below the model.  Debug assertions are absent from release builds and are not modelled.
\<close>

end
